(* ===== verification/GS_Prelude.thy ===== *)
theory GS_Prelude
  imports Main "HOL-Library.Word" "HOL-Library.Multiset" "HOL-Library.Char_ord"
begin

text \<open>
  What every theory of the development shares: the machine types of the build that is
  modelled (the 64-bit configuration: GSInteger and GSHash are 64-bit words, GSChar is a
  signed char, GSFloat a 32-bit IEEE float), the result type of fallible operations, and
  lemmas on lists, words and truncating arithmetic.
\<close>

unbundle bit_operations_syntax

section \<open>Machine types\<close>

type_synonym gsint = "64 word"
type_synonym gsfloat = "32 word"
type_synonym gshash = "64 word"
type_synonym ptr = "64 word"
type_synonym 'a result = "string + 'a"

named_theorems vm_simps \<open>evaluation rules of the virtual machine's operations\<close>
named_theorems inv_intros \<open>introduction rules for the invariants of the components\<close>

text \<open>Sequencing of operations that may leave by an error (a long jump in the code).\<close>

definition bind_res :: "'e + 'a \<Rightarrow> ('a \<Rightarrow> 'e + 'b) \<Rightarrow> 'e + 'b" where
  "bind_res r f = (case r of Inl e \<Rightarrow> Inl e | Inr x \<Rightarrow> f x)"

lemma bind_res_simps [simp]: "bind_res (Inl e) f = Inl e" "bind_res (Inr x) f = f x"
  by (simp_all add: bind_res_def)

lemma bind_res_cong [fundef_cong]:
  "r = r' \<Longrightarrow> (\<And>x. r' = Inr x \<Longrightarrow> f x = g x) \<Longrightarrow> bind_res r f = bind_res r' g"
  by (cases r') simp_all

lemma bind_res_Inr: "bind_res r f = Inr y \<longleftrightarrow> (\<exists>x. r = Inr x \<and> f x = Inr y)"
  by (cases r) simp_all

section \<open>Lists\<close>

lemma nth_list_update_if:
  "i < length xs \<Longrightarrow> xs[i := x] ! j = (if i = j then x else xs ! j)"
  by (simp add: nth_list_update)

lemma count_list_update_ne:
  assumes "i < length xs"
  shows "length (filter P (xs[i := x])) + (if P (xs ! i) then 1 else 0)
           = length (filter P xs) + (if P x then 1 else 0)"
  using assms
proof (induction xs arbitrary: i)
  case (Cons a xs)
  then show ?case by (cases i) auto
qed simp

lemma length_filter_lt_ex:
  assumes "length (filter P xs) < length xs"
  shows "\<exists>i < length xs. \<not> P (xs ! i)"
proof (rule ccontr)
  assume "\<not> ?thesis"
  then have "\<forall>x \<in> set xs. P x" by (auto simp: in_set_conv_nth)
  then have "filter P xs = xs" by simp
  with assms show False by simp
qed

lemma length_filter_eq_all:
  "length (filter P xs) = length xs \<Longrightarrow> i < length xs \<Longrightarrow> P (xs ! i)"
  by (metis filter_True length_filter_less nat_less_le nth_mem)

lemma strict_ranked_distinct:
  fixes r :: "'a \<Rightarrow> nat"
  assumes "\<And>n. Suc n < length p \<Longrightarrow> r (p ! n) < r (p ! Suc n)"
  shows "distinct p"
proof -
  have less: "r (p ! i) < r (p ! j)" if "i < j" "j < length p" for i j
    using that
  proof (induction j)
    case (Suc j)
    then show ?case
      using assms[of j] by (cases "i = j") (auto intro: less_trans)
  qed simp
  then show ?thesis
    by (metis distinct_conv_nth less_irrefl nat_neq_iff)
qed

section \<open>Words\<close>

lemma unat_lt_256 [simp]: "unat (w :: 8 word) < 256"
  using unsigned_less[of w, where ?'a = nat] by simp

lemma unat_lt_64 [simp]: "unat (w :: 64 word) < 256 ^ 8"
  using unsigned_less[of w, where ?'a = nat] by simp

lemma unat_lt_32 [simp]: "unat (w :: 32 word) < 256 ^ 4"
  using unsigned_less[of w, where ?'a = nat] by simp

text \<open>C's truncating quotient and remainder on 64-bit integers.  Division by zero and the one
  overflowing quotient trap on the machine; the callers decide what happens then.\<close>

definition trunc_div :: "int \<Rightarrow> int \<Rightarrow> int" where
  "trunc_div a b = sgn a * sgn b * (\<bar>a\<bar> div \<bar>b\<bar>)"

definition trunc_mod :: "int \<Rightarrow> int \<Rightarrow> int" where
  "trunc_mod a b = sgn a * (\<bar>a\<bar> mod \<bar>b\<bar>)"

lemma trunc_div_mod: "b \<noteq> 0 \<Longrightarrow> trunc_div a b * b + trunc_mod a b = a"
proof -
  assume "b \<noteq> 0"
  have q: "sgn b * b = \<bar>b\<bar>" by (simp add: sgn_if)
  have "trunc_div a b * b = sgn a * (\<bar>a\<bar> div \<bar>b\<bar> * (sgn b * b))"
    by (simp add: trunc_div_def ac_simps)
  then have "trunc_div a b * b + trunc_mod a b = sgn a * (\<bar>a\<bar> div \<bar>b\<bar> * \<bar>b\<bar> + \<bar>a\<bar> mod \<bar>b\<bar>)"
    by (simp only: q trunc_mod_def distrib_left)
  also have "\<dots> = sgn a * \<bar>a\<bar>" by simp
  also have "\<dots> = a" by (simp add: sgn_if)
  finally show ?thesis .
qed

lemma trunc_mod_bound: "b \<noteq> 0 \<Longrightarrow> \<bar>trunc_mod a b\<bar> < \<bar>b\<bar>"
  by (simp add: trunc_mod_def abs_mult abs_sgn_eq)

lemma trunc_mod_sign: "b \<noteq> 0 \<Longrightarrow> 0 \<le> a \<Longrightarrow> 0 \<le> trunc_mod a b"
  by (simp add: trunc_mod_def sgn_if)

end
