(* ===== verification/GS_Float.thy ===== *)
theory GS_Float
  imports GS_Prelude
begin

text \<open>
  The single precision floats that GSFloat is in this build, as IEEE 754 bit patterns with
  executable arithmetic: a pattern is decoded to a signed mantissa and an exponent, the exact
  result is computed over the integers as a fraction, and \<open>f_round\<close> rounds it to the nearest
  pattern, ties to even.  The conversion to an integer out of range is the machine's
  (the "integer indefinite" value).
\<close>

section \<open>Decoding\<close>

definition f_sign :: "gsfloat \<Rightarrow> bool" where
  "f_sign w = bit w 31"

definition f_bexp :: "gsfloat \<Rightarrow> int" where
  "f_bexp w = uint (drop_bit 23 w AND 0xFF)"

definition f_frac :: "gsfloat \<Rightarrow> int" where
  "f_frac w = uint (w AND 0x7FFFFF)"

definition f_isnan :: "gsfloat \<Rightarrow> bool" where
  "f_isnan w = (f_bexp w = 255 \<and> f_frac w \<noteq> 0)"

definition f_isinf :: "gsfloat \<Rightarrow> bool" where
  "f_isinf w = (f_bexp w = 255 \<and> f_frac w = 0)"

definition f_iszero :: "gsfloat \<Rightarrow> bool" where
  "f_iszero w = (f_bexp w = 0 \<and> f_frac w = 0)"

definition f_mant :: "gsfloat \<Rightarrow> int" where
  "f_mant w = (if f_sign w then -1 else 1) * (if f_bexp w = 0 then f_frac w else f_frac w + 2 ^ 23)"

definition f_exp :: "gsfloat \<Rightarrow> int" where
  "f_exp w = (if f_bexp w = 0 then -149 else f_bexp w - 150)"

text \<open>Numerator and (positive) denominator of a finite pattern.\<close>

definition f_num :: "gsfloat \<Rightarrow> int" where
  "f_num w = (if 0 \<le> f_exp w then f_mant w * 2 ^ nat (f_exp w) else f_mant w)"

definition f_den :: "gsfloat \<Rightarrow> int" where
  "f_den w = (if 0 \<le> f_exp w then 1 else 2 ^ nat (- f_exp w))"

lemma f_den_pos [simp]: "0 < f_den w"
  by (simp add: f_den_def)

section \<open>Rounding\<close>

fun flog2 :: "nat \<Rightarrow> nat" where
  "flog2 n = (if n \<le> 1 then 0 else Suc (flog2 (n div 2)))"

declare flog2.simps [simp del]

definition round_half_even :: "int \<Rightarrow> int \<Rightarrow> int" where
  "round_half_even n d =
     (let q = n div d; r = n mod d in
      if 2 * r < d then q else if d < 2 * r then q + 1 else if even q then q else q + 1)"

definition scale2 :: "int \<Rightarrow> int \<times> int \<Rightarrow> int \<times> int" where
  "scale2 e nd = (case nd of (n, d) \<Rightarrow>
     if 0 \<le> e then (n * 2 ^ nat e, d) else (n, d * 2 ^ nat (- e)))"

definition f_inf :: "bool \<Rightarrow> gsfloat" where
  "f_inf s = (if s then 0xFF800000 else 0x7F800000)"

definition f_zero :: "bool \<Rightarrow> gsfloat" where
  "f_zero s = (if s then 0x80000000 else 0)"

definition f_indefinite :: gsfloat where
  "f_indefinite = 0xFFC00000"

text \<open>The pattern nearest to the fraction \<open>n / d\<close> (\<open>0 < d\<close>); an exact zero takes the sign given.\<close>

definition f_round :: "bool \<Rightarrow> int \<Rightarrow> int \<Rightarrow> gsfloat" where
  "f_round s n d =
     (if n = 0 then f_zero s
      else
        let a = \<bar>n\<bar>; neg = (n < 0);
            e0 = int (flog2 (nat a)) - int (flog2 (nat d));
            e1 = (case scale2 (- e0) (a, d) of (n', d') \<Rightarrow> if n' < d' then e0 - 1 else e0);
            e = max e1 (-126);
            m = (case scale2 (23 - e) (a, d) of (n', d') \<Rightarrow> round_half_even n' d');
            bits = (e + 126) * 2 ^ 23 + m
        in if 255 * 2 ^ 23 \<le> bits then f_inf neg
           else f_zero neg OR word_of_int bits)"

section \<open>Arithmetic\<close>

definition f_quiet :: "gsfloat \<Rightarrow> gsfloat" where
  "f_quiet w = w OR 0x400000"

definition f_neg :: "gsfloat \<Rightarrow> gsfloat" where
  "f_neg w = w XOR 0x80000000"

definition f_add :: "gsfloat \<Rightarrow> gsfloat \<Rightarrow> gsfloat" where
  "f_add x y =
     (if f_isnan x then f_quiet x else if f_isnan y then f_quiet y
      else if f_isinf x then (if f_isinf y \<and> f_sign x \<noteq> f_sign y then f_indefinite else x)
      else if f_isinf y then y
      else f_round (f_sign x \<and> f_sign y) (f_num x * f_den y + f_num y * f_den x) (f_den x * f_den y))"

definition f_sub :: "gsfloat \<Rightarrow> gsfloat \<Rightarrow> gsfloat" where
  "f_sub x y = (if f_isnan y \<and> \<not> f_isnan x then f_quiet y else f_add x (f_neg y))"

definition f_mul :: "gsfloat \<Rightarrow> gsfloat \<Rightarrow> gsfloat" where
  "f_mul x y =
     (if f_isnan x then f_quiet x else if f_isnan y then f_quiet y
      else if f_isinf x \<or> f_isinf y
           then (if f_iszero x \<or> f_iszero y then f_indefinite else f_inf (f_sign x \<noteq> f_sign y))
      else f_round (f_sign x \<noteq> f_sign y) (f_num x * f_num y) (f_den x * f_den y))"

definition f_div :: "gsfloat \<Rightarrow> gsfloat \<Rightarrow> gsfloat" where
  "f_div x y =
     (if f_isnan x then f_quiet x else if f_isnan y then f_quiet y
      else if f_isinf x then (if f_isinf y then f_indefinite else f_inf (f_sign x \<noteq> f_sign y))
      else if f_isinf y then f_zero (f_sign x \<noteq> f_sign y)
      else if f_iszero y then (if f_iszero x then f_indefinite else f_inf (f_sign x \<noteq> f_sign y))
      else f_round (f_sign x \<noteq> f_sign y) (sgn (f_num y) * f_num x * f_den y) (f_den x * \<bar>f_num y\<bar>))"

definition f_fmod :: "gsfloat \<Rightarrow> gsfloat \<Rightarrow> gsfloat" where
  "f_fmod x y =
     (if f_isnan x then f_quiet x else if f_isnan y then f_quiet y
      else if f_isinf x \<or> f_iszero y then f_indefinite
      else if f_isinf y then x
      else f_round (f_sign x) (trunc_mod (f_num x * f_den y) (f_num y * f_den x)) (f_den x * f_den y))"

definition f_lt :: "gsfloat \<Rightarrow> gsfloat \<Rightarrow> bool" where
  "f_lt x y =
     (if f_isnan x \<or> f_isnan y then False
      else if f_isinf x then f_sign x \<and> \<not> (f_isinf y \<and> f_sign y)
      else if f_isinf y then \<not> f_sign y
      else f_num x * f_den y < f_num y * f_den x)"

definition f_eq :: "gsfloat \<Rightarrow> gsfloat \<Rightarrow> bool" where
  "f_eq x y =
     (if f_isnan x \<or> f_isnan y then False
      else if f_isinf x \<or> f_isinf y then x = y
      else f_num x * f_den y = f_num y * f_den x)"

definition f_of_int :: "gsint \<Rightarrow> gsfloat" where
  "f_of_int i = f_round False (sint i) 1"

definition f_to_int :: "gsfloat \<Rightarrow> gsint" where
  "f_to_int w =
     (if f_bexp w = 255 then 0x8000000000000000
      else let v = trunc_div (f_num w) (f_den w) in
           if - (2 ^ 63) \<le> v \<and> v < 2 ^ 63 then word_of_int v else 0x8000000000000000)"

section \<open>Order laws\<close>

lemma f_lt_irrefl [simp]: "\<not> f_lt x x"
  by (auto simp: f_lt_def)

lemma f_lt_asym: "f_lt x y \<Longrightarrow> \<not> f_lt y x"
  by (auto simp: f_lt_def split: if_splits)

lemma frac_less_trans:
  fixes a b c :: int
  assumes "0 < da" "0 < db" "0 < dc" "a * db < b * da" "b * dc < c * db"
  shows "a * dc < c * da"
proof -
  have "a * db * dc < b * da * dc" using assms by (simp add: mult_strict_right_mono)
  moreover have "b * dc * da < c * db * da" using assms by (simp add: mult_strict_right_mono)
  ultimately have "(a * dc) * db < (c * da) * db" by (simp add: ac_simps)
  with assms show ?thesis by (simp add: mult_less_cancel_right_disj)
qed

lemma f_lt_trans: "f_lt x y \<Longrightarrow> f_lt y z \<Longrightarrow> f_lt x z"
  by (auto simp: f_lt_def split: if_splits intro: frac_less_trans[OF f_den_pos f_den_pos f_den_pos])

lemma f_eq_sym: "f_eq x y = f_eq y x"
  by (auto simp: f_eq_def)

lemma f_trichotomy: "\<not> f_isnan x \<Longrightarrow> \<not> f_isnan y \<Longrightarrow> f_lt x y \<or> f_eq x y \<or> f_lt y x"
proof -
  have eqw: "x = y" if "f_isinf x" "f_isinf y" "f_sign x = f_sign y"
  proof (rule bit_word_eqI)
    fix n assume n: "n < LENGTH(32)"
    have frac: "bit w n \<longleftrightarrow> False" if "f_isinf w" "n < 23" for w :: gsfloat
    proof -
      from that have "uint (w AND 0x7FFFFF) = 0" by (simp add: f_isinf_def f_frac_def)
      then have z: "w AND 0x7FFFFF = 0" by (simp only: uint_0_iff)
      have "(0x7FFFFF :: gsfloat) = mask 23" by (simp add: mask_eq_exp_minus_1)
      with z have "w AND mask 23 = 0" by simp
      then have "\<not> bit (w AND mask 23) n" by simp
      with that(2) n show ?thesis by (simp add: bit_simps)
    qed
    have ex: "bit w n \<longleftrightarrow> True" if "f_isinf w" "23 \<le> n" "n < 31" for w :: gsfloat
    proof -
      from that have "uint (drop_bit 23 w AND 0xFF) = uint (0xFF :: gsfloat)"
        by (simp add: f_isinf_def f_bexp_def)
      then have "drop_bit 23 w AND 0xFF = (0xFF :: gsfloat)" by (simp only: word_uint_eq_iff)
      moreover have "(0xFF :: gsfloat) = mask 8" by (simp add: mask_eq_exp_minus_1)
      ultimately have "drop_bit 23 w AND mask 8 = (mask 8 :: gsfloat)" by simp
      then have "bit (drop_bit 23 w AND mask 8) (n - 23) = bit (mask 8 :: gsfloat) (n - 23)" by simp
      moreover have "n - 23 < 8" "n - 23 < 32" using that by auto
      ultimately show ?thesis using that by (simp add: bit_simps)
    qed
    have "n < 23 \<or> (23 \<le> n \<and> n < 31) \<or> n = 31" using n by auto
    then show "bit x n = bit y n"
      using frac ex that by (auto simp: f_sign_def)
  qed
  assume "\<not> f_isnan x" "\<not> f_isnan y"
  then show ?thesis
    using eqw by (auto simp: f_lt_def f_eq_def)
qed

lemma f_of_int_sample: "f_to_int (f_of_int 100) = 100" "f_to_int (f_of_int (- 7)) = - 7"
  by code_simp+

end
