(* ===== verification/GS_Object.thy ===== *)
theory GS_Object
  imports GS_Float
begin

text \<open>
  The object model (GSobject.h, GSobject.cpp, the type tags of include/GameScript.h): a
  script value is a tag and a union.  The datatype \<open>gsobj\<close> has one constructor per tag; the
  union of a reference type is the address of its object, and what an address points to is
  in the stores of the components that own the objects.  \<open>rawval\<close> is the union read as a
  64-bit word, so that the identity the code tests, same tag and same raw value, is equality
  of \<open>gsobj\<close> (lemma \<open>same_raw_iff_eq\<close>).

  Also here: truth and raw equality of values, type masks of native functions, the
  delegation links and their cycle check, and weak references.
\<close>

section \<open>Tags\<close>

datatype gstype =
    OT_NULL | OT_INTEGER | OT_FLOAT | OT_BOOL | OT_STRING | OT_TABLE | OT_ARRAY | OT_USERDATA
  | OT_CLOSURE | OT_NATIVECLOSURE | OT_GENERATOR | OT_USERPOINTER | OT_THREAD | OT_FUNCPROTO
  | OT_CLASS | OT_INSTANCE | OT_WEAKREF | OT_OUTER

definition GSOBJECT_REF_COUNTED :: "32 word" where "GSOBJECT_REF_COUNTED = 0x08000000"
definition GSOBJECT_NUMERIC :: "32 word" where "GSOBJECT_NUMERIC = 0x04000000"
definition GSOBJECT_DELEGABLE :: "32 word" where "GSOBJECT_DELEGABLE = 0x02000000"
definition GSOBJECT_CANBEFALSE :: "32 word" where "GSOBJECT_CANBEFALSE = 0x01000000"

lemmas tag_flag_defs =
  GSOBJECT_REF_COUNTED_def GSOBJECT_NUMERIC_def GSOBJECT_DELEGABLE_def GSOBJECT_CANBEFALSE_def

fun rt_code :: "gstype \<Rightarrow> 32 word" where
  "rt_code OT_NULL = 0x00000001"
| "rt_code OT_INTEGER = 0x00000002"
| "rt_code OT_FLOAT = 0x00000004"
| "rt_code OT_BOOL = 0x00000008"
| "rt_code OT_STRING = 0x00000010"
| "rt_code OT_TABLE = 0x00000020"
| "rt_code OT_ARRAY = 0x00000040"
| "rt_code OT_USERDATA = 0x00000080"
| "rt_code OT_CLOSURE = 0x00000100"
| "rt_code OT_NATIVECLOSURE = 0x00000200"
| "rt_code OT_GENERATOR = 0x00000400"
| "rt_code OT_USERPOINTER = 0x00000800"
| "rt_code OT_THREAD = 0x00001000"
| "rt_code OT_FUNCPROTO = 0x00002000"
| "rt_code OT_CLASS = 0x00004000"
| "rt_code OT_INSTANCE = 0x00008000"
| "rt_code OT_WEAKREF = 0x00010000"
| "rt_code OT_OUTER = 0x00020000"

fun type_code :: "gstype \<Rightarrow> 32 word" where
  "type_code OT_NULL = rt_code OT_NULL OR GSOBJECT_CANBEFALSE"
| "type_code OT_INTEGER = rt_code OT_INTEGER OR GSOBJECT_NUMERIC OR GSOBJECT_CANBEFALSE"
| "type_code OT_FLOAT = rt_code OT_FLOAT OR GSOBJECT_NUMERIC OR GSOBJECT_CANBEFALSE"
| "type_code OT_BOOL = rt_code OT_BOOL OR GSOBJECT_CANBEFALSE"
| "type_code OT_STRING = rt_code OT_STRING OR GSOBJECT_REF_COUNTED"
| "type_code OT_TABLE = rt_code OT_TABLE OR GSOBJECT_REF_COUNTED OR GSOBJECT_DELEGABLE"
| "type_code OT_ARRAY = rt_code OT_ARRAY OR GSOBJECT_REF_COUNTED"
| "type_code OT_USERDATA = rt_code OT_USERDATA OR GSOBJECT_REF_COUNTED OR GSOBJECT_DELEGABLE"
| "type_code OT_CLOSURE = rt_code OT_CLOSURE OR GSOBJECT_REF_COUNTED"
| "type_code OT_NATIVECLOSURE = rt_code OT_NATIVECLOSURE OR GSOBJECT_REF_COUNTED"
| "type_code OT_GENERATOR = rt_code OT_GENERATOR OR GSOBJECT_REF_COUNTED"
| "type_code OT_USERPOINTER = rt_code OT_USERPOINTER"
| "type_code OT_THREAD = rt_code OT_THREAD OR GSOBJECT_REF_COUNTED"
| "type_code OT_FUNCPROTO = rt_code OT_FUNCPROTO OR GSOBJECT_REF_COUNTED"
| "type_code OT_CLASS = rt_code OT_CLASS OR GSOBJECT_REF_COUNTED"
| "type_code OT_INSTANCE = rt_code OT_INSTANCE OR GSOBJECT_REF_COUNTED OR GSOBJECT_DELEGABLE"
| "type_code OT_WEAKREF = rt_code OT_WEAKREF OR GSOBJECT_REF_COUNTED"
| "type_code OT_OUTER = rt_code OT_OUTER OR GSOBJECT_REF_COUNTED"

definition RAW_TYPE :: "32 word \<Rightarrow> 32 word" where
  "RAW_TYPE t = t AND 0x00FFFFFF"

definition is_refcounted :: "gstype \<Rightarrow> bool" where
  "is_refcounted t = (type_code t AND GSOBJECT_REF_COUNTED \<noteq> 0)"

definition is_numeric_type :: "gstype \<Rightarrow> bool" where
  "is_numeric_type t = (type_code t AND GSOBJECT_NUMERIC \<noteq> 0)"

definition is_delegable_type :: "gstype \<Rightarrow> bool" where
  "is_delegable_type t = (type_code t AND GSOBJECT_DELEGABLE \<noteq> 0)"

definition can_be_false :: "gstype \<Rightarrow> bool" where
  "can_be_false t = (type_code t AND GSOBJECT_CANBEFALSE \<noteq> 0)"

text \<open>\<open>IdType2Name\<close> gives no name (NULL) outside its switch.\<close>

definition IdType2Name :: "32 word \<Rightarrow> string option" where
  "IdType2Name ty =
     (let r = RAW_TYPE ty in
      if r = rt_code OT_NULL then Some ''null''
      else if r = rt_code OT_INTEGER then Some ''integer''
      else if r = rt_code OT_FLOAT then Some ''float''
      else if r = rt_code OT_BOOL then Some ''bool''
      else if r = rt_code OT_STRING then Some ''string''
      else if r = rt_code OT_TABLE then Some ''table''
      else if r = rt_code OT_ARRAY then Some ''array''
      else if r = rt_code OT_GENERATOR then Some ''generator''
      else if r = rt_code OT_CLOSURE \<or> r = rt_code OT_NATIVECLOSURE then Some ''function''
      else if r = rt_code OT_USERDATA \<or> r = rt_code OT_USERPOINTER then Some ''userdata''
      else if r = rt_code OT_THREAD then Some ''thread''
      else if r = rt_code OT_FUNCPROTO then Some ''function''
      else if r = rt_code OT_CLASS then Some ''class''
      else if r = rt_code OT_INSTANCE then Some ''instance''
      else if r = rt_code OT_WEAKREF then Some ''weakref''
      else if r = rt_code OT_OUTER then Some ''outer''
      else None)"

lemma type_code_inj: "type_code a = type_code b \<Longrightarrow> a = b"
  by (cases a; cases b; simp add: tag_flag_defs)

lemma RAW_TYPE_type_code [simp]: "RAW_TYPE (type_code t) = rt_code t"
  by (cases t) (simp_all add: tag_flag_defs RAW_TYPE_def)

lemma rt_code_one_hot: "rt_code a AND rt_code b \<noteq> 0 \<longleftrightarrow> a = b"
  by (cases a; cases b; simp)

section \<open>Values\<close>

datatype gsobj =
    ONull
  | OInteger gsint
  | OFloat gsfloat
  | OBool bool
  | OString ptr
  | OTable ptr
  | OArray ptr
  | OUserData ptr
  | OClosure ptr
  | ONativeClosure ptr
  | OGenerator ptr
  | OUserPointer ptr
  | OThread ptr
  | OFuncProto ptr
  | OClass ptr
  | OInstance ptr
  | OWeakRef ptr
  | OOuter ptr

fun type_of :: "gsobj \<Rightarrow> gstype" where
  "type_of ONull = OT_NULL"
| "type_of (OInteger _) = OT_INTEGER"
| "type_of (OFloat _) = OT_FLOAT"
| "type_of (OBool _) = OT_BOOL"
| "type_of (OString _) = OT_STRING"
| "type_of (OTable _) = OT_TABLE"
| "type_of (OArray _) = OT_ARRAY"
| "type_of (OUserData _) = OT_USERDATA"
| "type_of (OClosure _) = OT_CLOSURE"
| "type_of (ONativeClosure _) = OT_NATIVECLOSURE"
| "type_of (OGenerator _) = OT_GENERATOR"
| "type_of (OUserPointer _) = OT_USERPOINTER"
| "type_of (OThread _) = OT_THREAD"
| "type_of (OFuncProto _) = OT_FUNCPROTO"
| "type_of (OClass _) = OT_CLASS"
| "type_of (OInstance _) = OT_INSTANCE"
| "type_of (OWeakRef _) = OT_WEAKREF"
| "type_of (OOuter _) = OT_OUTER"

text \<open>The union as raw bits.  The constructors clear the whole union before they store a
  32-bit float or a bool (\<open>GS_OBJECT_RAWINIT\<close>), so the upper half is zero.\<close>

fun rawval :: "gsobj \<Rightarrow> 64 word" where
  "rawval ONull = 0"
| "rawval (OInteger i) = i"
| "rawval (OFloat f) = ucast f"
| "rawval (OBool b) = (if b then 1 else 0)"
| "rawval (OString p) = p"
| "rawval (OTable p) = p"
| "rawval (OArray p) = p"
| "rawval (OUserData p) = p"
| "rawval (OClosure p) = p"
| "rawval (ONativeClosure p) = p"
| "rawval (OGenerator p) = p"
| "rawval (OUserPointer p) = p"
| "rawval (OThread p) = p"
| "rawval (OFuncProto p) = p"
| "rawval (OClass p) = p"
| "rawval (OInstance p) = p"
| "rawval (OWeakRef p) = p"
| "rawval (OOuter p) = p"

definition same_raw :: "gsobj \<Rightarrow> gsobj \<Rightarrow> bool" where
  "same_raw a b = (rawval a = rawval b \<and> type_of a = type_of b)"

lemma ucast_64_32 [simp]: "(ucast (ucast (f :: 32 word) :: 64 word) :: 32 word) = f"
  by (rule bit_word_eqI) (simp add: bit_simps)

lemma ucast_32_64_inj: "(ucast (f :: 32 word) :: 64 word) = ucast g \<Longrightarrow> f = g"
  by (metis ucast_64_32)

lemma same_raw_iff_eq [simp]: "same_raw a b \<longleftrightarrow> a = b"
  unfolding same_raw_def
  by (cases a; cases b; auto dest: ucast_32_64_inj split: if_splits)

lemma type_of_null [simp]: "type_of k = OT_NULL \<longleftrightarrow> k = ONull"
  by (cases k) simp_all

definition is_numeric :: "gsobj \<Rightarrow> bool" where
  "is_numeric v = is_numeric_type (type_of v)"

lemma is_numeric_cases: "is_numeric v \<longleftrightarrow> (\<exists>i. v = OInteger i) \<or> (\<exists>f. v = OFloat f)"
  by (cases v) (simp_all add: is_numeric_def is_numeric_type_def tag_flag_defs)

text \<open>The macros \<open>tofloat\<close> and \<open>tointeger\<close> read the union of any value; the code applies
  them to numbers (and \<open>tointeger\<close> to bools).\<close>

definition tofloat :: "gsobj \<Rightarrow> gsfloat" where
  "tofloat v = (case v of OInteger i \<Rightarrow> f_of_int i | _ \<Rightarrow> ucast (rawval v))"

definition tointeger :: "gsobj \<Rightarrow> gsint" where
  "tointeger v = (case v of OFloat f \<Rightarrow> f_to_int f | _ \<Rightarrow> rawval v)"

lemma tofloat_simps [simp]: "tofloat (OInteger i) = f_of_int i" "tofloat (OFloat f) = f"
  by (simp_all add: tofloat_def)

lemma tointeger_simps [simp]:
  "tointeger (OInteger i) = i" "tointeger (OFloat f) = f_to_int f"
  by (simp_all add: tointeger_def)

definition IsFalse :: "gsobj \<Rightarrow> bool" where
  "IsFalse v =
     ((can_be_false (type_of v) \<and> type_of v = OT_FLOAT \<and> f_eq (ucast (rawval v)) 0)
      \<or> rawval v = 0)"

definition IsEqual :: "gsobj \<Rightarrow> gsobj \<Rightarrow> bool" where
  "IsEqual a b =
     (if type_of a = type_of b
      then (if type_of a = OT_FLOAT then f_eq (tofloat a) (tofloat b) else rawval a = rawval b)
      else if is_numeric a \<and> is_numeric b then f_eq (tofloat a) (tofloat b)
      else False)"

definition TranslateIndex :: "gsobj \<Rightarrow> 64 word" where
  "TranslateIndex idx = (case idx of OInteger i \<Rightarrow> i | _ \<Rightarrow> 0)"

section \<open>Type masks of native functions\<close>

text \<open>\<open>CompileTypemask\<close> (GSstate.cpp).  A character list stands for the zero-terminated
  string; \<open>msk\<close> is the mask collected so far for the current parameter and \<open>res\<close> the
  vector of finished ones.  A letter followed by a bar keeps collecting.\<close>

definition mask_of :: "gstype list \<Rightarrow> gsint" where
  "mask_of ts = fold (\<lambda>t m. m OR ucast (rt_code t)) ts 0"

fun typemask_letter :: "char \<Rightarrow> gstype list option" where
  "typemask_letter c =
     (if c = CHR ''o'' then Some [OT_NULL]
      else if c = CHR ''i'' then Some [OT_INTEGER]
      else if c = CHR ''f'' then Some [OT_FLOAT]
      else if c = CHR ''n'' then Some [OT_FLOAT, OT_INTEGER]
      else if c = CHR ''s'' then Some [OT_STRING]
      else if c = CHR ''t'' then Some [OT_TABLE]
      else if c = CHR ''a'' then Some [OT_ARRAY]
      else if c = CHR ''u'' then Some [OT_USERDATA]
      else if c = CHR ''c'' then Some [OT_CLOSURE, OT_NATIVECLOSURE]
      else if c = CHR ''b'' then Some [OT_BOOL]
      else if c = CHR ''g'' then Some [OT_GENERATOR]
      else if c = CHR ''p'' then Some [OT_USERPOINTER]
      else if c = CHR ''v'' then Some [OT_THREAD]
      else if c = CHR ''x'' then Some [OT_INSTANCE]
      else if c = CHR ''y'' then Some [OT_CLASS]
      else if c = CHR ''r'' then Some [OT_WEAKREF]
      else None)"

declare typemask_letter.simps [simp del]

function compile_typemask :: "gsint \<Rightarrow> gsint list \<Rightarrow> string \<Rightarrow> gsint list option" where
  "compile_typemask msk res [] = Some res"
| "compile_typemask msk res (c # cs) =
     (if c = CHR ''.'' then compile_typemask 0 (res @ [-1]) cs
      else if c = CHR '' '' then compile_typemask msk res cs
      else case typemask_letter c of
             None \<Rightarrow> None
           | Some ts \<Rightarrow>
               let m = msk OR mask_of ts in
               (case cs of
                  d # ds \<Rightarrow>
                    if d = CHR ''|'' then (if ds = [] then None else compile_typemask m res ds)
                    else compile_typemask 0 (res @ [m]) cs
                | [] \<Rightarrow> compile_typemask 0 (res @ [m]) cs))"
  by pat_completeness auto
termination by (relation "measure (\<lambda>(_, _, s). length s)") auto

definition CompileTypemask :: "string \<Rightarrow> gsint list option" where
  "CompileTypemask s = compile_typemask 0 [] s"

text \<open>The check of one argument in \<open>CallNative\<close>: a mask of -1 accepts everything.\<close>

definition typemask_accepts :: "gsint \<Rightarrow> gsobj \<Rightarrow> bool" where
  "typemask_accepts m v = (m = -1 \<or> ucast (type_code (type_of v)) AND m \<noteq> 0)"

section \<open>Delegation\<close>

text \<open>\<open>del\<close> holds the \<open>_delegate\<close> field of every delegable object.  \<open>SetDelegate\<close> walks
  the chain from the new delegate and refuses one that leads back to the object.  The walk
  may not end on a cyclic store, so it is a partial function: None is a walk that never
  returns.  The result is the new store and the boolean returned.\<close>

type_synonym delegates = "ptr \<Rightarrow> ptr option"

partial_function (option) delegate_walk :: "delegates \<Rightarrow> ptr \<Rightarrow> ptr option \<Rightarrow> bool option" where
  "delegate_walk del this temp =
     (case temp of
        None \<Rightarrow> Some False
      | Some t \<Rightarrow> if del t = Some this then Some True else delegate_walk del this (del t))"

definition SetDelegate :: "delegates \<Rightarrow> ptr \<Rightarrow> ptr option \<Rightarrow> (delegates \<times> bool) option" where
  "SetDelegate del this mt =
     (if mt = Some this then Some (del, False)
      else case delegate_walk del this mt of
             None \<Rightarrow> None
           | Some True \<Rightarrow> Some (del, False)
           | Some False \<Rightarrow> Some (del(this := mt), True))"

inductive chain_ends :: "delegates \<Rightarrow> ptr option \<Rightarrow> bool" for del where
  chain_ends_None: "chain_ends del None"
| chain_ends_Some: "chain_ends del (del t) \<Longrightarrow> chain_ends del (Some t)"

inductive_cases chain_ends_SomeE: "chain_ends del (Some t)"

text \<open>The chain from \<open>temp\<close> passes through \<open>this\<close> after at least one step.\<close>

inductive chain_hits :: "delegates \<Rightarrow> ptr \<Rightarrow> ptr option \<Rightarrow> bool" for del this where
  chain_hits_here: "del t = Some this \<Longrightarrow> chain_hits del this (Some t)"
| chain_hits_step: "chain_hits del this (del t) \<Longrightarrow> chain_hits del this (Some t)"

inductive_simps chain_hits_None [simp]: "chain_hits del this None"
inductive_simps chain_hits_Some: "chain_hits del this (Some t)"

definition delegates_ok :: "delegates \<Rightarrow> bool" where
  "delegates_ok del = (\<forall>t. chain_ends del (Some t))"

lemma delegate_walk_total:
  "chain_ends del temp \<Longrightarrow> delegate_walk del this temp = Some (chain_hits del this temp)"
proof (induction rule: chain_ends.induct)
  case chain_ends_None
  show ?case by (subst delegate_walk.simps) simp
next
  case (chain_ends_Some t)
  then show ?case
    by (subst delegate_walk.simps) (auto simp: chain_hits_Some)
qed

lemma chain_endsI: "chain_ends d n \<Longrightarrow> d t = n \<Longrightarrow> chain_ends d (Some t)"
  by (auto intro: chain_ends_Some)

lemma chain_ends_update_avoid:
  "chain_ends del temp \<Longrightarrow> temp \<noteq> Some this \<Longrightarrow> \<not> chain_hits del this temp
     \<Longrightarrow> chain_ends (del(this := mt)) temp"
proof (induction rule: chain_ends.induct)
  case (chain_ends_Some t)
  have "t \<noteq> this" using chain_ends_Some.prems by simp
  have "chain_ends (del(this := mt)) (del t)"
    by (rule chain_ends_Some.IH) (use chain_ends_Some.prems in \<open>simp_all add: chain_hits_Some\<close>)
  show ?case
    by (rule chain_endsI, rule \<open>chain_ends (del(this := mt)) (del t)\<close>) (simp add: \<open>t \<noteq> this\<close>)
qed (rule chain_ends.chain_ends_None)

lemma chain_ends_update:
  assumes mt: "chain_ends (del(this := mt)) mt"
  shows "chain_ends del temp \<Longrightarrow> chain_ends (del(this := mt)) temp"
proof (induction rule: chain_ends.induct)
  case (chain_ends_Some t)
  show ?case
  proof (cases "t = this")
    case True
    show ?thesis by (rule chain_endsI, rule mt) (simp add: True)
  next
    case False
    show ?thesis by (rule chain_endsI, rule chain_ends_Some.IH) (simp add: False)
  qed
qed (rule chain_ends.chain_ends_None)

text \<open>C11: \<open>SetDelegate\<close> on a store in which every delegation chain ends: the cycle check
  always returns; the call succeeds exactly when the new delegate neither is the object nor
  leads to it, then only this object's link changes; it leaves the store alone when it
  refuses; and every chain still ends afterwards, so no lookup through delegates can loop.\<close>

theorem SetDelegate_keeps_chains_finite:
  assumes "delegates_ok del"
  shows "\<exists>del' ok. SetDelegate del this mt = Some (del', ok)
           \<and> (ok \<longleftrightarrow> mt \<noteq> Some this \<and> \<not> chain_hits del this mt)
           \<and> del' = (if ok then del(this := mt) else del)
           \<and> delegates_ok del'"
proof -
  have ends: "chain_ends del temp" for temp
    using assms by (cases temp) (auto simp: delegates_ok_def intro: chain_ends_None)
  have walk: "delegate_walk del this mt = Some (chain_hits del this mt)"
    by (rule delegate_walk_total[OF ends])
  show ?thesis
  proof (cases "mt \<noteq> Some this \<and> \<not> chain_hits del this mt")
    case True
    then have "chain_ends (del(this := mt)) mt"
      by (intro chain_ends_update_avoid ends) auto
    then have "delegates_ok (del(this := mt))"
      unfolding delegates_ok_def by (simp only: chain_ends_update[OF _ ends] simp_thms)
    moreover have "SetDelegate del this mt = Some (del(this := mt), True)"
      using True walk by (simp add: SetDelegate_def)
    ultimately show ?thesis
      using True by (intro exI[of _ "del(this := mt)"] exI[of _ True]) simp
  next
    case False
    then have "SetDelegate del this mt = Some (del, False)"
      using walk by (auto simp: SetDelegate_def)
    with False assms show ?thesis
      by (intro exI[of _ del] exI[of _ False]) simp
  qed
qed

lemma SetDelegate_keeps_chains_finite_witness:
  "\<exists>del' ok. SetDelegate (\<lambda>p. if p = 2 then Some 1 else None) 1 (Some 2) = Some (del', ok) \<and> \<not> ok
     \<and> delegates_ok del'"
proof -
  have one: "chain_ends (\<lambda>p :: ptr. if p = 2 then Some (1 :: ptr) else None) (Some 1)"
    by (rule chain_ends_Some) (simp add: chain_ends_None)
  have "chain_ends (\<lambda>p :: ptr. if p = 2 then Some (1 :: ptr) else None) (Some t)" for t
    by (rule chain_endsI[where n = "if t = 2 then Some 1 else None"]) (simp_all add: one chain_ends_None)
  then have ok: "delegates_ok (\<lambda>p. if p = 2 then Some 1 else None)"
    by (simp add: delegates_ok_def)
  have hit: "chain_hits (\<lambda>p :: ptr. if p = 2 then Some (1 :: ptr) else None) 1 (Some 2)"
    by (rule chain_hits_here) simp
  from SetDelegate_keeps_chains_finite[OF ok, of 1 "Some 2"] hit
  show ?thesis by blast
qed

end
