(* ===== verification/GS_Table.thy ===== *)
theory GS_Table
  imports GS_Object
begin

text \<open>
  The hash table (GStable.h, GStable.cpp): a node array of a power-of-two size with chained
  collisions inside the array (Brent's variation) and a free pointer that only moves down.

  A node pointer is an index into the node list and NULL is None.  The operations follow the
  code: \<open>Get_loop\<close> is \<open>_Get\<close>, \<open>ns_insert\<close> the body of \<open>NewSlot\<close> up to the point where it
  either finishes or asks for a rehash, \<open>NewSlot_f\<close> and \<open>Rehash_f\<close> the mutual recursion.
  A loop that follows node links takes a fuel and gives None when it runs out of it, so None
  means "does not return".  The chain loops get the number of nodes as fuel, the mutual
  recursion depth 3; \<open>table_ok\<close> implies that both are enough (the chain laws, and a rehash
  never asks for another one).

  The number of nodes is a natural number: a table as large as the address space is not
  modelled.  The hash of a string is a field of the string object; it is the parameter \<open>sh\<close>.
  Reference counts of keys and values are not part of this theory.
\<close>

section \<open>State\<close>

record node =
  nkey :: gsobj
  nval :: gsobj
  nnext :: "nat option"

record table =
  tnodes :: "node list"
  firstfree :: nat
  usednodes :: nat

definition empty_node :: node where
  "empty_node = \<lparr>nkey = ONull, nval = ONull, nnext = None\<rparr>"

definition HashObj :: "(ptr \<Rightarrow> gshash) \<Rightarrow> gsobj \<Rightarrow> gshash" where
  "HashObj sh key =
     (case key of
        OString p \<Rightarrow> sh p
      | OFloat f \<Rightarrow> f_to_int f
      | OBool b \<Rightarrow> rawval (OBool b)
      | OInteger i \<Rightarrow> i
      | _ \<Rightarrow> signed_drop_bit 3 (rawval key))"

text \<open>The main position \<open>HashObj(key) & (_numofnodes - 1)\<close>.\<close>

definition mainpos :: "(ptr \<Rightarrow> gshash) \<Rightarrow> node list \<Rightarrow> gsobj \<Rightarrow> nat" where
  "mainpos sh ns key = unat (HashObj sh key) AND (length ns - 1)"

section \<open>Operations\<close>

definition AllocNodes :: "nat \<Rightarrow> table" where
  "AllocNodes n = \<lparr>tnodes = replicate n empty_node, firstfree = n - 1, usednodes = 0\<rparr>"

function pow2size :: "nat \<Rightarrow> nat \<Rightarrow> nat" where
  "pow2size n p = (if 0 < p \<and> p < n then pow2size n (2 * p) else p)"
  by pat_completeness auto
termination by (relation "measure (\<lambda>(n, p). n - p)") auto

declare pow2size.simps [simp del]

definition CreateTable :: "nat \<Rightarrow> table" where
  "CreateTable n = AllocNodes (pow2size n 4)"

fun Get_loop :: "nat \<Rightarrow> node list \<Rightarrow> gsobj \<Rightarrow> nat \<Rightarrow> nat option option" where
  "Get_loop 0 ns key i = None"
| "Get_loop (Suc fuel) ns key i =
     (if same_raw (nkey (ns ! i)) key then Some (Some i)
      else case nnext (ns ! i) of None \<Rightarrow> Some None | Some j \<Rightarrow> Get_loop fuel ns key j)"

definition Get_node :: "(ptr \<Rightarrow> gshash) \<Rightarrow> node list \<Rightarrow> gsobj \<Rightarrow> nat option option" where
  "Get_node sh ns key = Get_loop (length ns) ns key (mainpos sh ns key)"

text \<open>\<open>GSTable::Get\<close>: a weak reference stored as value is dereferenced (\<open>_realval\<close>);
  \<open>wk\<close> gives the object a weak reference holds.\<close>

definition realval :: "(ptr \<Rightarrow> gsobj) \<Rightarrow> gsobj \<Rightarrow> gsobj" where
  "realval wk v = (case v of OWeakRef p \<Rightarrow> wk p | _ \<Rightarrow> v)"

definition TableGet ::
    "(ptr \<Rightarrow> gshash) \<Rightarrow> (ptr \<Rightarrow> gsobj) \<Rightarrow> table \<Rightarrow> gsobj \<Rightarrow> gsobj option option" where
  "TableGet sh wk t key =
     (if key = ONull then Some None
      else case Get_node sh (tnodes t) key of
             None \<Rightarrow> None
           | Some None \<Rightarrow> Some None
           | Some (Some i) \<Rightarrow> Some (Some (realval wk (nval (tnodes t ! i)))))"

definition TableSet ::
    "(ptr \<Rightarrow> gshash) \<Rightarrow> table \<Rightarrow> gsobj \<Rightarrow> gsobj \<Rightarrow> (table \<times> bool) option" where
  "TableSet sh t key v =
     (case Get_node sh (tnodes t) key of
        None \<Rightarrow> None
      | Some None \<Rightarrow> Some (t, False)
      | Some (Some i) \<Rightarrow>
          Some (t\<lparr>tnodes := (tnodes t)[i := (tnodes t ! i)\<lparr>nval := v\<rparr>]\<rparr>, True))"

text \<open>\<open>while (othern->next != mp) othern = othern->next\<close>; the code dereferences NULL when
  the chain ends, which is None here.\<close>

fun find_pred :: "nat \<Rightarrow> node list \<Rightarrow> nat \<Rightarrow> nat \<Rightarrow> nat option" where
  "find_pred 0 ns mp othern = None"
| "find_pred (Suc fuel) ns mp othern =
     (if nnext (ns ! othern) = Some mp then Some othern
      else case nnext (ns ! othern) of None \<Rightarrow> None | Some j \<Rightarrow> find_pred fuel ns mp j)"

text \<open>The loop that corrects \<open>_firstfree\<close>: Inl is the index of a free node, Inr the case
  that none is left below (the pointer then stands on node 0).\<close>

fun correct_firstfree :: "node list \<Rightarrow> nat \<Rightarrow> nat option" where
  "correct_firstfree ns ff =
     (if nkey (ns ! ff) = ONull \<and> nnext (ns ! ff) = None then Some ff
      else case ff of 0 \<Rightarrow> None | Suc f \<Rightarrow> correct_firstfree ns f)"

declare correct_firstfree.simps [simp del]

text \<open>The part of \<open>NewSlot\<close> that makes room for the key and stores it: the new nodes and
  the node that holds the key now.\<close>

definition place_key ::
    "(ptr \<Rightarrow> gshash) \<Rightarrow> node list \<Rightarrow> nat \<Rightarrow> gsobj \<Rightarrow> (node list \<times> nat) option" where
  "place_key sh ns ff key =
     (let mp = mainpos sh ns key in
      if nkey (ns ! mp) \<noteq> ONull then
        let n = ff; othern = mainpos sh ns (nkey (ns ! mp)) in
        if n < mp \<and> othern \<noteq> mp then
          (case find_pred (length ns) ns mp othern of
             None \<Rightarrow> None
           | Some p \<Rightarrow>
               let ns1 = ns[p := (ns ! p)\<lparr>nnext := Some n\<rparr>];
                   ns2 = ns1[n := ns1 ! mp];
                   ns3 = ns2[mp := empty_node]
               in Some (ns3[mp := (ns3 ! mp)\<lparr>nkey := key\<rparr>], mp))
        else
          let ns1 = ns[n := (ns ! n)\<lparr>nnext := nnext (ns ! mp)\<rparr>];
              ns2 = ns1[mp := (ns1 ! mp)\<lparr>nnext := Some n\<rparr>]
          in Some (ns2[n := (ns2 ! n)\<lparr>nkey := key\<rparr>], n)
      else Some (ns[mp := (ns ! mp)\<lparr>nkey := key\<rparr>], mp))"

text \<open>\<open>NewSlot\<close> before its tail call: Inl is a result, Inr the state in which it calls
  \<open>Rehash(true)\<close> and starts again (the key is placed, its value is not, and the node is not
  counted).\<close>

definition ns_insert ::
    "(ptr \<Rightarrow> gshash) \<Rightarrow> table \<Rightarrow> gsobj \<Rightarrow> gsobj \<Rightarrow> ((table \<times> bool) + table) option" where
  "ns_insert sh t key v =
     (case Get_node sh (tnodes t) key of
        None \<Rightarrow> None
      | Some (Some i) \<Rightarrow>
          Some (Inl (t\<lparr>tnodes := (tnodes t)[i := (tnodes t ! i)\<lparr>nval := v\<rparr>]\<rparr>, False))
      | Some None \<Rightarrow>
          (case place_key sh (tnodes t) (firstfree t) key of
             None \<Rightarrow> None
           | Some (ns, mp) \<Rightarrow>
               (case correct_firstfree ns (firstfree t) of
                  Some ff \<Rightarrow>
                    Some (Inl (t\<lparr>tnodes := ns[mp := (ns ! mp)\<lparr>nval := v\<rparr>],
                                firstfree := ff, usednodes := usednodes t + 1\<rparr>, True))
                | None \<Rightarrow> Some (Inr (t\<lparr>tnodes := ns, firstfree := 0\<rparr>)))))"

text \<open>The size \<open>Rehash\<close> allocates, None when it leaves the table alone.\<close>

definition rehash_size :: "bool \<Rightarrow> nat \<Rightarrow> nat \<Rightarrow> nat option" where
  "rehash_size force numofnodes nelems =
     (let oldsize = max numofnodes 4 in
      if oldsize - oldsize div 4 \<le> nelems then Some (oldsize * 2)
      else if nelems \<le> oldsize div 4 \<and> 4 < oldsize then Some (oldsize div 2)
      else if force then Some oldsize
      else None)"

fun NewSlot_f :: "nat \<Rightarrow> (ptr \<Rightarrow> gshash) \<Rightarrow> table \<Rightarrow> gsobj \<Rightarrow> gsobj \<Rightarrow> (table \<times> bool) option"
and Rehash_f :: "nat \<Rightarrow> (ptr \<Rightarrow> gshash) \<Rightarrow> bool \<Rightarrow> table \<Rightarrow> table option"
and reinsert_f :: "nat \<Rightarrow> (ptr \<Rightarrow> gshash) \<Rightarrow> node list \<Rightarrow> table \<Rightarrow> table option"
where
  "NewSlot_f 0 sh t key v = None"
| "NewSlot_f (Suc d) sh t key v =
     (case ns_insert sh t key v of
        None \<Rightarrow> None
      | Some (Inl r) \<Rightarrow> Some r
      | Some (Inr t') \<Rightarrow>
          (case Rehash_f d sh True t' of None \<Rightarrow> None | Some t'' \<Rightarrow> NewSlot_f d sh t'' key v))"
| "Rehash_f 0 sh force t = None"
| "Rehash_f (Suc d) sh force t =
     (case rehash_size force (length (tnodes t)) (usednodes t) of
        None \<Rightarrow> Some t
      | Some n \<Rightarrow> reinsert_f d sh (tnodes t) (AllocNodes n))"
| "reinsert_f d sh [] t = Some t"
| "reinsert_f 0 sh (old # olds) t = None"
| "reinsert_f (Suc d) sh (old # olds) t =
     (if nkey old \<noteq> ONull then
        (case NewSlot_f d sh t (nkey old) (nval old) of
           None \<Rightarrow> None
         | Some (t', _) \<Rightarrow> reinsert_f (Suc d) sh olds t')
      else reinsert_f (Suc d) sh olds t)"

text \<open>The entry points.  The depth counts the nesting NewSlot, Rehash, its loop, NewSlot.\<close>

definition NewSlot :: "(ptr \<Rightarrow> gshash) \<Rightarrow> table \<Rightarrow> gsobj \<Rightarrow> gsobj \<Rightarrow> (table \<times> bool) option" where
  "NewSlot sh t key v = NewSlot_f 4 sh t key v"

definition Rehash :: "(ptr \<Rightarrow> gshash) \<Rightarrow> bool \<Rightarrow> table \<Rightarrow> table option" where
  "Rehash sh force t = Rehash_f 3 sh force t"

definition TableRemove :: "(ptr \<Rightarrow> gshash) \<Rightarrow> table \<Rightarrow> gsobj \<Rightarrow> table option" where
  "TableRemove sh t key =
     (case Get_node sh (tnodes t) key of
        None \<Rightarrow> None
      | Some None \<Rightarrow> Some t
      | Some (Some i) \<Rightarrow>
          Rehash sh False
            (t\<lparr>tnodes := (tnodes t)[i := (tnodes t ! i)\<lparr>nkey := ONull, nval := ONull\<rparr>],
               usednodes := usednodes t - 1\<rparr>))"

definition ClearNodes :: "node list \<Rightarrow> node list" where
  "ClearNodes ns = map (\<lambda>n. n\<lparr>nkey := ONull, nval := ONull\<rparr>) ns"

definition TableClear :: "(ptr \<Rightarrow> gshash) \<Rightarrow> table \<Rightarrow> table option" where
  "TableClear sh t = Rehash sh True (t\<lparr>tnodes := ClearNodes (tnodes t), usednodes := 0\<rparr>)"

text \<open>\<open>GSTable::Next\<close>: from an index, the first used node; the result is the index to go on
  from, the key and the value; None is the -1 that ends the iteration.\<close>

function next_from :: "node list \<Rightarrow> nat \<Rightarrow> (nat \<times> gsobj \<times> gsobj) option" where
  "next_from ns idx =
     (if idx < length ns then
        (if nkey (ns ! idx) \<noteq> ONull then Some (idx + 1, nkey (ns ! idx), nval (ns ! idx))
         else next_from ns (idx + 1))
      else None)"
  by pat_completeness auto
termination by (relation "measure (\<lambda>(ns, idx). length ns - idx)") auto

declare next_from.simps [simp del]

definition TableNext ::
    "(ptr \<Rightarrow> gsobj) \<Rightarrow> bool \<Rightarrow> table \<Rightarrow> gsobj \<Rightarrow> (nat \<times> gsobj \<times> gsobj) option" where
  "TableNext wk getweakrefs t refpos =
     map_option (\<lambda>(i, k, v). (i, k, if getweakrefs then v else realval wk v))
       (next_from (tnodes t) (unat (TranslateIndex refpos)))"

text \<open>\<open>GSTable::Clone\<close> without \<open>_FAST_CLONE\<close>: the loop over \<open>Next\<close> inserts every entry into a
  new table of the same size.\<close>

lemma next_from_bounds:
  "next_from ns i = Some (j, k, v)
     \<Longrightarrow> i < j \<and> j \<le> length ns \<and> k = nkey (ns ! (j - 1))
         \<and> v = nval (ns ! (j - 1)) \<and> k \<noteq> ONull"
proof (induction ns i rule: next_from.induct)
  case (1 ns idx)
  then show ?case
    by (subst (asm) (2) next_from.simps) (auto split: if_splits)
qed

function clone_from :: "(ptr \<Rightarrow> gshash) \<Rightarrow> node list \<Rightarrow> nat \<Rightarrow> table \<Rightarrow> table option" where
  "clone_from sh ns ridx nt =
     (case next_from ns ridx of
        None \<Rightarrow> Some nt
      | Some (ridx', k, v) \<Rightarrow>
          (case NewSlot sh nt k v of
             None \<Rightarrow> None
           | Some (nt', _) \<Rightarrow> clone_from sh ns ridx' nt'))"
  by pat_completeness auto
termination
proof (relation "measure (\<lambda>(sh, ns, ridx, nt). length ns - ridx)")
  fix sh :: "ptr \<Rightarrow> gshash" and ns ridx and nt :: table and x ridx' y k v w nt' b
  assume "next_from ns ridx = Some x" "(ridx', y) = x" "(k, v) = y"
  then have "ridx < ridx' \<and> ridx' \<le> length ns" using next_from_bounds by blast
  then show "((sh, ns, ridx', nt'), sh, ns, ridx, nt) \<in> measure (\<lambda>(sh, ns, ridx, nt). length ns - ridx)"
    by auto
qed simp

declare clone_from.simps [simp del]

definition TableClone :: "(ptr \<Rightarrow> gshash) \<Rightarrow> table \<Rightarrow> table option" where
  "TableClone sh t = clone_from sh (tnodes t) 0 (CreateTable (length (tnodes t)))"

end
