(* ===== verification/GS_Dict.thy ===== *)
theory GS_Dict
  imports GS_Prelude
begin

text \<open>
  The interface of a mutable dictionary, as the table offers it to the virtual machine, the
  lexer (keywords), the compiler (literals) and the classes (members): every operation
  returns (its result is not None), keeps the invariant and acts on the finite map it stands
  for.  \<open>view\<close> is what a lookup makes of a stored value.
\<close>

datatype ('k, 'v) dict_op = DPut 'k 'v | DSet 'k 'v | DDel 'k | DClear

fun op_key :: "('k, 'v) dict_op \<Rightarrow> 'k option" where
  "op_key (DPut k v) = Some k"
| "op_key (DSet k v) = Some k"
| "op_key (DDel k) = Some k"
| "op_key DClear = None"

fun spec_op :: "('k, 'v) dict_op \<Rightarrow> ('k \<Rightarrow> 'v option) \<Rightarrow> ('k \<Rightarrow> 'v option)" where
  "spec_op (DPut k v) m = m(k \<mapsto> v)"
| "spec_op (DSet k v) m = (if m k = None then m else m(k \<mapsto> v))"
| "spec_op (DDel k) m = m(k := None)"
| "spec_op DClear m = Map.empty"

text \<open>A sequence of operations, run through functions that perform one of them.\<close>

fun run_ops :: "('t \<Rightarrow> 'op \<Rightarrow> 't option) \<Rightarrow> 't \<Rightarrow> 'op list \<Rightarrow> 't option" where
  "run_ops step t [] = Some t"
| "run_ops step t (x # xs) = (case step t x of None \<Rightarrow> None | Some t' \<Rightarrow> run_ops step t' xs)"

locale dictionary =
  fixes inv :: "'t \<Rightarrow> bool"
    and valid :: "'k \<Rightarrow> bool"
    and abs :: "'t \<Rightarrow> 'k \<Rightarrow> 'v option"
    and view :: "'v \<Rightarrow> 'v"
    and lookup :: "'t \<Rightarrow> 'k \<Rightarrow> 'v option option"
    and insert :: "'t \<Rightarrow> 'k \<Rightarrow> 'v \<Rightarrow> ('t \<times> bool) option"
    and assign :: "'t \<Rightarrow> 'k \<Rightarrow> 'v \<Rightarrow> ('t \<times> bool) option"
    and delete :: "'t \<Rightarrow> 'k \<Rightarrow> 't option"
    and clear :: "'t \<Rightarrow> 't option"
  assumes lookup_abs: "inv t \<Longrightarrow> lookup t k = Some (map_option view (abs t k))"
    and insert_abs: "inv t \<Longrightarrow> valid k
          \<Longrightarrow> \<exists>t' b. insert t k v = Some (t', b) \<and> inv t' \<and> abs t' = (abs t)(k \<mapsto> v)"
    and assign_abs: "inv t \<Longrightarrow> valid k
          \<Longrightarrow> \<exists>t'. assign t k v = Some (t', abs t k \<noteq> None) \<and> inv t'
                \<and> abs t' = (if abs t k = None then abs t else (abs t)(k \<mapsto> v))"
    and delete_abs: "inv t \<Longrightarrow> valid k
          \<Longrightarrow> \<exists>t'. delete t k = Some t' \<and> inv t' \<and> abs t' = (abs t)(k := None)"
    and clear_abs: "inv t \<Longrightarrow> \<exists>t'. clear t = Some t' \<and> inv t' \<and> abs t' = Map.empty"
begin

definition step :: "'t \<Rightarrow> ('k, 'v) dict_op \<Rightarrow> 't option" where
  "step t x = (case x of
      DPut k v \<Rightarrow> map_option fst (insert t k v)
    | DSet k v \<Rightarrow> map_option fst (assign t k v)
    | DDel k \<Rightarrow> delete t k
    | DClear \<Rightarrow> clear t)"

lemma step_abs:
  assumes "inv t" "\<forall>k. op_key x = Some k \<longrightarrow> valid k"
  shows "\<exists>t'. step t x = Some t' \<and> inv t' \<and> abs t' = spec_op x (abs t)"
proof (cases x)
  case (DPut k v)
  with assms insert_abs[of t k v] show ?thesis by (auto simp: step_def)
next
  case (DSet k v)
  with assms assign_abs[of t k v] show ?thesis by (auto simp: step_def)
next
  case (DDel k)
  with assms delete_abs[of t k] show ?thesis by (auto simp: step_def)
next
  case DClear
  with assms clear_abs[of t] show ?thesis by (auto simp: step_def)
qed

lemma run_abs:
  "inv t \<Longrightarrow> \<forall>x \<in> set xs. \<forall>k. op_key x = Some k \<longrightarrow> valid k
     \<Longrightarrow> \<exists>t'. run_ops step t xs = Some t' \<and> inv t' \<and> abs t' = fold spec_op xs (abs t)"
proof (induction xs arbitrary: t)
  case (Cons x xs)
  have "\<forall>k. op_key x = Some k \<longrightarrow> valid k" using Cons.prems(2) by simp
  from step_abs[OF Cons.prems(1) this]
  obtain t1 where t1: "step t x = Some t1" "inv t1" "abs t1 = spec_op x (abs t)" by auto
  from Cons.IH[OF t1(2)] Cons.prems(2) t1 show ?case by auto
qed simp

lemma lookup_after_run:
  assumes "inv t" "\<forall>x \<in> set xs. \<forall>k. op_key x = Some k \<longrightarrow> valid k" "run_ops step t xs = Some t'"
  shows "lookup t' k = Some (map_option view (fold spec_op xs (abs t) k))"
  using run_abs[OF assms(1,2)] assms(3) lookup_abs[of t'] by auto

lemma lookup_insert:
  assumes "inv t" "valid k" "insert t k v = Some (t', b)"
  shows "inv t'" "lookup t' k' = (if k' = k then Some (Some (view v)) else lookup t k')"
  using insert_abs[OF assms(1,2), of v] assms(1,3) lookup_abs by auto

end

end
