(* ===== verification/GS_TableInv.thy ===== *)
theory GS_TableInv
  imports GS_Table GS_Dict
begin

text \<open>
  Correctness of the hash table: the invariant \<open>table_ok\<close> (chain shape, every key reachable
  from its main position, count of used nodes), that every operation keeps it, returns, and
  refines the same operation on the finite map \<open>tabs\<close>.
\<close>

section \<open>Chains\<close>

definition edge :: "node list \<Rightarrow> nat \<Rightarrow> nat \<Rightarrow> bool" where
  "edge ns i j = (i < length ns \<and> nnext (ns ! i) = Some j)"

abbreviation reach :: "node list \<Rightarrow> nat \<Rightarrow> nat \<Rightarrow> bool" where
  "reach ns \<equiv> (edge ns)\<^sup>*\<^sup>*"

definition chains_ok :: "node list \<Rightarrow> nat \<Rightarrow> bool" where
  "chains_ok ns ff =
     ((\<forall>i j. edge ns i j \<longrightarrow> j < length ns \<and> ff \<le> j \<and> (j = ff \<longrightarrow> nkey (ns ! ff) \<noteq> ONull))
      \<and> (\<forall>i i' j. edge ns i j \<longrightarrow> edge ns i' j \<longrightarrow> i = i')
      \<and> (\<exists>r :: nat \<Rightarrow> nat. \<forall>i j. edge ns i j \<longrightarrow> r i < r j))"

definition used :: "node list \<Rightarrow> nat \<Rightarrow> bool" where
  "used ns i = (i < length ns \<and> nkey (ns ! i) \<noteq> ONull)"

definition keys_ok :: "(ptr \<Rightarrow> gshash) \<Rightarrow> node list \<Rightarrow> bool" where
  "keys_ok sh ns =
     ((\<forall>i. used ns i \<longrightarrow> reach ns (mainpos sh ns (nkey (ns ! i))) i)
      \<and> (\<forall>i j. used ns i \<longrightarrow> used ns j \<longrightarrow> nkey (ns ! i) = nkey (ns ! j) \<longrightarrow> i = j)
      \<and> (\<forall>i j. used ns i \<longrightarrow> used ns j \<longrightarrow> mainpos sh ns (nkey (ns ! i)) \<noteq> i
                \<longrightarrow> mainpos sh ns (nkey (ns ! j)) \<noteq> i))"

definition free_node :: "node list \<Rightarrow> nat \<Rightarrow> bool" where
  "free_node ns i = (i < length ns \<and> nkey (ns ! i) = ONull \<and> nnext (ns ! i) = None)"

definition count_used :: "node list \<Rightarrow> nat" where
  "count_used ns = length (filter (\<lambda>n. nkey n \<noteq> ONull) ns)"

definition pow2_length :: "node list \<Rightarrow> bool" where
  "pow2_length ns = (\<exists>k \<ge> 2. length ns = 2 ^ k)"

definition nodes_ok :: "(ptr \<Rightarrow> gshash) \<Rightarrow> node list \<Rightarrow> nat \<Rightarrow> bool" where
  "nodes_ok sh ns ff = (pow2_length ns \<and> chains_ok ns ff \<and> keys_ok sh ns)"

definition table_ok :: "(ptr \<Rightarrow> gshash) \<Rightarrow> table \<Rightarrow> bool" where
  "table_ok sh t =
     (nodes_ok sh (tnodes t) (firstfree t) \<and> free_node (tnodes t) (firstfree t)
      \<and> usednodes t = count_used (tnodes t))"

text \<open>The finite map a table stands for.\<close>

definition entries :: "node list \<Rightarrow> (gsobj \<times> gsobj) list" where
  "entries ns = map (\<lambda>n. (nkey n, nval n)) (filter (\<lambda>n. nkey n \<noteq> ONull) ns)"

definition tabs :: "table \<Rightarrow> (gsobj \<Rightarrow> gsobj option)" where
  "tabs t = map_of (entries (tnodes t))"

lemma edge_lt: "edge ns i j \<Longrightarrow> i < length ns"
  by (simp add: edge_def)

lemma edge_fun: "edge ns i j \<Longrightarrow> edge ns i j' \<Longrightarrow> j = j'"
  by (simp add: edge_def)

lemma chains_ok_range: "chains_ok ns ff \<Longrightarrow> edge ns i j \<Longrightarrow> j < length ns"
  by (simp add: chains_ok_def)

lemma chains_ok_inj: "chains_ok ns ff \<Longrightarrow> edge ns i j \<Longrightarrow> edge ns i' j \<Longrightarrow> i = i'"
  by (simp add: chains_ok_def)

lemma chains_ok_above:
  "chains_ok ns ff \<Longrightarrow> free_node ns ff \<Longrightarrow> edge ns i j \<Longrightarrow> ff < j"
  by (metis chains_ok_def free_node_def le_neq_implies_less)

lemma reach_lt: "reach ns i j \<Longrightarrow> chains_ok ns ff \<Longrightarrow> i < length ns \<Longrightarrow> j < length ns"
  by (induction rule: rtranclp.induct) (auto dest: chains_ok_range)

lemma mainpos_lt: "pow2_length ns \<Longrightarrow> mainpos sh ns k < length ns"
proof -
  assume "pow2_length ns"
  then obtain e where e: "length ns = 2 ^ e" by (auto simp: pow2_length_def)
  have "unat (HashObj sh k) AND mask e = unat (HashObj sh k) mod 2 ^ e"
    by (simp add: take_bit_eq_mask take_bit_eq_mod flip: take_bit_eq_mask)
  then show ?thesis by (simp add: mainpos_def e mask_eq_exp_minus_1)
qed

lemma mainpos_cong: "length ns = length ns' \<Longrightarrow> mainpos sh ns k = mainpos sh ns' k"
  by (simp add: mainpos_def)

lemma path_bound:
  assumes ch: "chains_ok ns ff" and i: "i < length ns" and path: "(edge ns ^^ m) i j"
  shows "m < length ns"
proof -
  from path obtain f where f: "f 0 = i" "f m = j" "\<And>k. k < m \<Longrightarrow> edge ns (f k) (f (Suc k))"
    by (auto simp: relpowp_fun_conv)
  from ch obtain r :: "nat \<Rightarrow> nat" where r: "\<And>i j. edge ns i j \<Longrightarrow> r i < r j"
    by (auto simp: chains_ok_def)
  have range: "f k < length ns" if "k \<le> m" for k
    using that f(1) i f(3)[of "k - 1"] chains_ok_range[OF ch] by (cases k) (auto simp: Suc_le_eq)
  let ?p = "map f [0..<Suc m]"
  have "distinct ?p"
    by (rule strict_ranked_distinct[where r = r]) (auto simp: nth_append r f simp del: upt_Suc)
  then have "card (set ?p) = Suc m" by (metis distinct_card length_map length_upt diff_zero)
  moreover have "set ?p \<subseteq> {..<length ns}" using range by auto
  then have "card (set ?p) \<le> length ns" by (metis card_lessThan card_mono finite_lessThan)
  ultimately show ?thesis by simp
qed

lemma Get_loop_out:
  "chains_ok ns ff \<Longrightarrow> i < length ns \<Longrightarrow> Get_loop f ns key i = None \<Longrightarrow> \<exists>j. (edge ns ^^ f) i j"
proof (induction f arbitrary: i)
  case (Suc f)
  from Suc.prems obtain j where j: "nnext (ns ! i) = Some j" "Get_loop f ns key j = None"
    by (auto split: if_splits option.splits)
  with Suc.prems have e: "edge ns i j" by (simp add: edge_def)
  with Suc.prems Suc.IH[OF _ _ j(2)] obtain j' where "(edge ns ^^ f) j j'"
    by (meson chains_ok_range)
  with e show ?case by (meson relpowp_Suc_I2)
qed auto

lemma Get_loop_found:
  "Get_loop f ns key i = Some (Some j) \<Longrightarrow> chains_ok ns ff \<Longrightarrow> i < length ns
     \<Longrightarrow> reach ns i j \<and> j < length ns \<and> nkey (ns ! j) = key"
proof (induction f arbitrary: i)
  case (Suc f)
  show ?case
  proof (cases "nkey (ns ! i) = key")
    case False
    with Suc.prems obtain k where k: "nnext (ns ! i) = Some k" "Get_loop f ns key k = Some (Some j)"
      by (auto split: option.splits)
    with Suc.prems have e: "edge ns i k" by (simp add: edge_def)
    with Suc.prems Suc.IH[OF k(2)] show ?thesis
      by (meson chains_ok_range converse_rtranclp_into_rtranclp)
  qed (use Suc.prems in auto)
qed simp

lemma Get_loop_none:
  "Get_loop f ns key i = Some None \<Longrightarrow> chains_ok ns ff \<Longrightarrow> i < length ns \<Longrightarrow> reach ns i j
     \<Longrightarrow> nkey (ns ! j) \<noteq> key"
proof (induction f arbitrary: i)
  case (Suc f)
  then have ne: "nkey (ns ! i) \<noteq> key" by (auto split: if_splits)
  from Suc.prems(4) show ?case
  proof (cases rule: converse_rtranclpE)
    case base
    with ne show ?thesis by simp
  next
    case (step k)
    then have "nnext (ns ! i) = Some k" by (simp add: edge_def)
    with Suc.prems(1) ne have "Get_loop f ns key k = Some None" by simp
    with Suc.IH[of k] Suc.prems(2) step show ?thesis by (meson chains_ok_range)
  qed
qed simp

lemma Get_node_spec:
  assumes ok: "nodes_ok sh ns ff"
  obtains (found) i where "Get_node sh ns key = Some (Some i)" "i < length ns" "nkey (ns ! i) = key"
      "reach ns (mainpos sh ns key) i"
    | (missing) "Get_node sh ns key = Some None" "\<And>i. used ns i \<Longrightarrow> nkey (ns ! i) \<noteq> key"
proof (cases "Get_node sh ns key")
  case None
  let ?m = "mainpos sh ns key"
  have m: "?m < length ns" and ch: "chains_ok ns ff"
    using ok by (auto simp: nodes_ok_def mainpos_lt)
  from Get_loop_out[OF ch m] None obtain j where "(edge ns ^^ length ns) ?m j"
    by (auto simp: Get_node_def)
  from path_bound[OF ch m this] show ?thesis by simp
next
  case (Some r)
  have m: "mainpos sh ns key < length ns" and ch: "chains_ok ns ff" and ks: "keys_ok sh ns"
    using ok by (auto simp: nodes_ok_def mainpos_lt)
  show ?thesis
  proof (cases r)
    case None
    have "nkey (ns ! i) \<noteq> key" if "used ns i" for i
      using that Get_loop_none[OF _ ch m] Some None ks by (auto simp: Get_node_def keys_ok_def)
    with Some None show ?thesis by (intro missing) auto
  next
    case (Some i)
    with \<open>Get_node sh ns key = Some r\<close> Get_loop_found[OF _ ch m] show ?thesis
      by (intro found[of i]) (auto simp: Get_node_def)
  qed
qed

lemma find_pred_spec:
  assumes ch: "chains_ok ns ff"
  shows "(edge ns ^^ m) i p \<Longrightarrow> edge ns p mp \<Longrightarrow> i < length ns \<Longrightarrow> m < f
           \<Longrightarrow> find_pred f ns mp i = Some p"
proof (induction m arbitrary: i f)
  case 0
  then show ?case by (cases f) (auto simp: edge_def)
next
  case (Suc m)
  from Suc.prems(1) obtain j where j: "edge ns i j" "(edge ns ^^ m) j p" by (meson relpowp_Suc_D2)
  obtain f' where f: "f = Suc f'" "m < f'" using Suc.prems(4) by (cases f) auto
  have "nnext (ns ! i) \<noteq> Some mp \<or> i = p"
    using chains_ok_inj[OF ch _ Suc.prems(2), of i] Suc.prems(3) by (auto simp: edge_def)
  with j f Suc.IH[OF j(2) Suc.prems(2) chains_ok_range[OF ch j(1)] f(2)] Suc.prems(2) show ?case
    by (auto simp: edge_def)
qed

section \<open>The map of a table\<close>

lemma entries_iff:
  "(k, v) \<in> set (entries ns) \<longleftrightarrow> (\<exists>i. used ns i \<and> nkey (ns ! i) = k \<and> nval (ns ! i) = v)"
  by (auto simp: entries_def used_def in_set_conv_nth)

lemma entries_same_except:
  assumes "k \<noteq> key"
    and "\<And>i. used ns' i \<Longrightarrow> nkey (ns' ! i) \<noteq> key
           \<Longrightarrow> \<exists>j. used ns j \<and> nkey (ns ! j) = nkey (ns' ! i) \<and> nval (ns ! j) = nval (ns' ! i)"
    and "\<And>j. used ns j
           \<Longrightarrow> \<exists>i. used ns' i \<and> nkey (ns' ! i) = nkey (ns ! j) \<and> nval (ns' ! i) = nval (ns ! j)"
  shows "(k, v) \<in> set (entries ns') \<longleftrightarrow> (k, v) \<in> set (entries ns)"
  unfolding entries_iff using assms by metis

lemma distinct_entries_aux:
  "(\<And>i j. used ns i \<Longrightarrow> used ns j \<Longrightarrow> nkey (ns ! i) = nkey (ns ! j) \<Longrightarrow> i = j)
     \<Longrightarrow> distinct (map fst (entries ns))"
proof (induction ns)
  case (Cons n ns)
  have "distinct (map fst (entries ns))"
  proof (rule Cons.IH)
    fix i j assume "used ns i" "used ns j" "nkey (ns ! i) = nkey (ns ! j)"
    then show "i = j" using Cons.prems[of "Suc i" "Suc j"] by (simp add: used_def)
  qed
  moreover have "nkey n \<notin> fst ` set (entries ns)" if "nkey n \<noteq> ONull"
  proof
    assume "nkey n \<in> fst ` set (entries ns)"
    then obtain i where "used ns i" "nkey (ns ! i) = nkey n" by (force simp: entries_iff)
    then show False using Cons.prems[of 0 "Suc i"] that by (simp add: used_def)
  qed
  moreover have "entries (n # ns) = (if nkey n \<noteq> ONull then [(nkey n, nval n)] else []) @ entries ns"
    by (simp add: entries_def)
  ultimately show ?case by simp
qed (simp add: entries_def)

lemma distinct_entries: "keys_ok sh ns \<Longrightarrow> distinct (map fst (entries ns))"
  by (rule distinct_entries_aux) (auto simp: keys_ok_def)

lemma tabs_iff:
  "keys_ok sh (tnodes t) \<Longrightarrow> tabs t k = Some v
     \<longleftrightarrow> (\<exists>i. used (tnodes t) i \<and> nkey (tnodes t ! i) = k \<and> nval (tnodes t ! i) = v)"
  by (simp add: tabs_def map_of_eq_Some_iff distinct_entries entries_iff)

lemma tabs_null: "tabs t ONull = None"
  by (auto simp: tabs_def map_of_eq_None_iff entries_iff used_def)

lemma length_entries: "length (entries ns) = count_used ns"
  by (simp add: entries_def count_used_def)

section \<open>Placing a key\<close>

text \<open>What \<open>place_key\<close> promises: the chain laws with the same bound, the key in a node, the
  other entries kept, one more node in use, and no node emptied.\<close>

definition placed ::
    "(ptr \<Rightarrow> gshash) \<Rightarrow> node list \<Rightarrow> nat \<Rightarrow> gsobj \<Rightarrow> node list \<Rightarrow> nat \<Rightarrow> bool" where
  "placed sh ns ff key ns' mp \<longleftrightarrow>
     length ns' = length ns \<and> chains_ok ns' ff \<and> keys_ok sh ns'
     \<and> used ns' mp \<and> nkey (ns' ! mp) = key \<and> count_used ns' = Suc (count_used ns)
     \<and> (\<forall>k v. k \<noteq> key \<longrightarrow> (k, v) \<in> set (entries ns') \<longleftrightarrow> (k, v) \<in> set (entries ns))
     \<and> (\<forall>i < length ns. nkey (ns' ! i) = ONull \<longrightarrow>
          nkey (ns ! i) = ONull \<and> (nnext (ns ! i) = None \<longrightarrow> nnext (ns' ! i) = None))"

lemma free_no_edge_from: "free_node ns n \<Longrightarrow> \<not> edge ns n j"
  by (simp add: free_node_def edge_def)

lemma free_no_edge_to: "chains_ok ns n \<Longrightarrow> free_node ns n \<Longrightarrow> \<not> edge ns i n"
  using chains_ok_above by blast

lemma reach_free: "chains_ok ns n \<Longrightarrow> free_node ns n \<Longrightarrow> reach ns i n \<Longrightarrow> i = n"
  by (metis rtranclp.cases free_no_edge_to)

lemma no_key_main_free:
  assumes "keys_ok sh ns" "free_node ns n" "used ns j"
  shows "mainpos sh ns (nkey (ns ! j)) \<noteq> n"
proof
  assume "mainpos sh ns (nkey (ns ! j)) = n"
  with assms have "reach ns n j" by (auto simp: keys_ok_def)
  then show False
    using assms by (cases rule: converse_rtranclpE) (auto simp: free_node_def used_def edge_def)
qed

lemma keys_ok_reach: "keys_ok sh ns \<Longrightarrow> used ns i \<Longrightarrow> reach ns (mainpos sh ns (nkey (ns ! i))) i"
  by (simp add: keys_ok_def)

lemma keys_ok_inj:
  "keys_ok sh ns \<Longrightarrow> used ns i \<Longrightarrow> used ns j \<Longrightarrow> nkey (ns ! i) = nkey (ns ! j) \<Longrightarrow> i = j"
  by (simp add: keys_ok_def)

lemma keys_ok_foreign:
  "keys_ok sh ns \<Longrightarrow> used ns i \<Longrightarrow> used ns j \<Longrightarrow> mainpos sh ns (nkey (ns ! i)) \<noteq> i
     \<Longrightarrow> mainpos sh ns (nkey (ns ! j)) \<noteq> i"
  by (simp add: keys_ok_def)

lemma count_used_update:
  "i < length ns \<Longrightarrow> nkey (ns ! i) = ONull \<Longrightarrow> nkey n \<noteq> ONull
     \<Longrightarrow> count_used (ns[i := n]) = Suc (count_used ns)"
  using count_list_update_ne[of i ns "\<lambda>n. nkey n \<noteq> ONull" n] by (simp add: count_used_def)

lemma count_used_same:
  "i < length ns \<Longrightarrow> (nkey (ns ! i) = ONull \<longleftrightarrow> nkey n = ONull)
     \<Longrightarrow> count_used (ns[i := n]) = count_used ns"
  using count_list_update_ne[of i ns "\<lambda>n. nkey n \<noteq> ONull" n]
  by (auto simp: count_used_def split: if_splits)

lemma place_free:
  assumes ch: "chains_ok ns ff" and ks: "keys_ok sh ns" and ff: "free_node ns ff"
    and m: "m = mainpos sh ns key" "m < length ns" and null: "nkey (ns ! m) = ONull"
    and key: "key \<noteq> ONull" and fresh: "\<And>i. used ns i \<Longrightarrow> nkey (ns ! i) \<noteq> key"
  shows "placed sh ns ff key (ns[m := (ns ! m)\<lparr>nkey := key\<rparr>]) m"
proof -
  let ?ns = "ns[m := (ns ! m)\<lparr>nkey := key\<rparr>]"
  have nth: "?ns ! i = (if i = m then (ns ! m)\<lparr>nkey := key\<rparr> else ns ! i)" for i
    using m by (simp add: nth_list_update)
  have edge: "edge ?ns = edge ns" by (intro ext) (auto simp: edge_def nth)
  have us: "used ?ns i \<longleftrightarrow> used ns i \<or> i = m" for i
    using m(2) key by (auto simp: used_def nth)
  have nm: "\<not> used ns m" using null by (simp add: used_def)
  have mp: "mainpos sh ?ns k = mainpos sh ns k" for k by (rule mainpos_cong) simp
  have "chains_ok ?ns ff"
    using ch free_no_edge_to[OF ch ff] by (auto simp: chains_ok_def edge)
  moreover have "keys_ok sh ?ns"
    unfolding keys_ok_def edge us mp
  proof (intro conjI allI impI)
    fix i assume "used ns i \<or> i = m"
    then show "reach ns (mainpos sh ns (nkey (?ns ! i))) i"
      using nm keys_ok_reach[OF ks] by (cases "i = m") (auto simp: nth m(1)[symmetric])
  next
    fix i j assume "used ns i \<or> i = m" "used ns j \<or> j = m" "nkey (?ns ! i) = nkey (?ns ! j)"
    then show "i = j"
      using keys_ok_inj[OF ks] fresh nm
      by (cases "i = m"; cases "j = m") (auto simp: nth)
  next
    fix i j
    assume "used ns i \<or> i = m" "used ns j \<or> j = m" "mainpos sh ns (nkey (?ns ! i)) \<noteq> i"
    then show "mainpos sh ns (nkey (?ns ! j)) \<noteq> i"
      using keys_ok_foreign[OF ks, of i j]
      by (cases "i = m"; cases "j = m") (simp_all add: nth m(1)[symmetric])
  qed
  moreover have "(k, v) \<in> set (entries ?ns) \<longleftrightarrow> (k, v) \<in> set (entries ns)" if "k \<noteq> key" for k v
    using that
  proof (rule entries_same_except)
    show "\<exists>j. used ns j \<and> nkey (ns ! j) = nkey (?ns ! i) \<and> nval (ns ! j) = nval (?ns ! i)"
      if "used ?ns i" "nkey (?ns ! i) \<noteq> key" for i
      using that by (intro exI[of _ i]) (auto simp: us nth split: if_splits)
    show "\<exists>i. used ?ns i \<and> nkey (?ns ! i) = nkey (ns ! j) \<and> nval (?ns ! i) = nval (ns ! j)"
      if "used ns j" for j
      using that nm by (intro exI[of _ j]) (auto simp: us nth)
  qed
  ultimately show ?thesis
    using m(2) key null by (auto simp: placed_def us nth count_used_update)
qed

lemma place_chain:
  assumes ch: "chains_ok ns ff" and ks: "keys_ok sh ns" and ff: "free_node ns ff"
    and m: "m = mainpos sh ns key" "m < length ns" and used: "used ns m"
    and own: "mainpos sh ns (nkey (ns ! m)) = m"
    and key: "key \<noteq> ONull" and fresh: "\<And>i. used ns i \<Longrightarrow> nkey (ns ! i) \<noteq> key"
  defines "ns' \<equiv> ns[ff := (ns ! ff)\<lparr>nnext := nnext (ns ! m), nkey := key\<rparr>, m := (ns ! m)\<lparr>nnext := Some ff\<rparr>]"
  shows "placed sh ns ff key ns' ff"
proof -
  have ffl: "ff < length ns" and ffn: "nkey (ns ! ff) = ONull" using ff by (auto simp: free_node_def)
  have mff: "m \<noteq> ff" using used ffn by (auto simp: used_def)
  have len: "length ns' = length ns" by (simp add: ns'_def)
  have nth: "ns' ! i = (if i = m then (ns ! m)\<lparr>nnext := Some ff\<rparr>
      else if i = ff then (ns ! ff)\<lparr>nnext := nnext (ns ! m), nkey := key\<rparr> else ns ! i)" for i
    using m(2) ffl mff by (simp add: ns'_def nth_list_update)
  have edge: "edge ns' i j \<longleftrightarrow> (i = m \<and> j = ff) \<or> (i = ff \<and> edge ns m j)
      \<or> (i \<noteq> m \<and> i \<noteq> ff \<and> edge ns i j)" for i j
    using m(2) ffl mff by (auto simp: edge_def nth len)
  have us: "used ns' i \<longleftrightarrow> used ns i \<or> i = ff" for i
    using m(2) ffl key used by (auto simp: used_def nth len)
  have nff: "\<not> used ns ff" using ffn by (simp add: used_def)
  have nk: "nkey (ns' ! i) = (if i = ff then key else nkey (ns ! i))" for i
    using mff by (simp add: nth)
  have mp: "mainpos sh ns' k = mainpos sh ns k" for k by (rule mainpos_cong) (simp add: len)
  have "chains_ok ns' ff"
    unfolding chains_ok_def
  proof (intro conjI allI impI)
    fix i j assume "edge ns' i j"
    then show "j < length ns'" "ff \<le> j" "j = ff \<Longrightarrow> nkey (ns' ! ff) \<noteq> ONull"
      using chains_ok_range[OF ch] chains_ok_above[OF ch ff] ffl key by (auto simp: edge len nk less_imp_le)
  next
    fix i i' j assume "edge ns' i j" "edge ns' i' j"
    then show "i = i'"
      using chains_ok_inj[OF ch] free_no_edge_to[OF ch ff] mff by (auto simp: edge)
  next
    from ch obtain r :: "nat \<Rightarrow> nat" where r: "\<And>i j. edge ns i j \<Longrightarrow> r i < r j"
      by (auto simp: chains_ok_def)
    have "\<forall>i j. edge ns' i j \<longrightarrow>
        (if i = ff then 2 * r m + 1 else 2 * r i) < (if j = ff then 2 * r m + 1 else 2 * r j)"
      using mff free_no_edge_to[OF ch ff] by (auto simp: edge dest: r)
    then show "\<exists>r :: nat \<Rightarrow> nat. \<forall>i j. edge ns' i j \<longrightarrow> r i < r j"
      by (intro exI[of _ "\<lambda>i. if i = ff then 2 * r m + 1 else 2 * r i"])
  qed
  moreover have step: "reach ns' a b" if "edge ns a b" for a b
  proof (cases "a = m")
    case True
    then have "edge ns' m ff" "edge ns' ff b" using that by (auto simp: edge)
    with True show ?thesis by (meson converse_rtranclp_into_rtranclp r_into_rtranclp)
  next
    case False
    with that ff show ?thesis
      by (intro r_into_rtranclp) (auto simp: edge dest: free_no_edge_from)
  qed
  have sub: "reach ns a b \<Longrightarrow> reach ns' a b" for a b
    by (induction rule: rtranclp_induct) (auto dest!: step)
  have "keys_ok sh ns'"
    unfolding keys_ok_def us mp nk
  proof (intro conjI allI impI)
    fix i assume "used ns i \<or> i = ff"
    moreover have "reach ns' m ff" by (rule r_into_rtranclp) (simp add: edge)
    ultimately show "reach ns' (mainpos sh ns (if i = ff then key else nkey (ns ! i))) i"
      using keys_ok_reach[OF ks, of i] by (cases "i = ff") (auto simp: m(1)[symmetric] dest: sub)
  next
    fix i j assume "used ns i \<or> i = ff" "used ns j \<or> j = ff"
      "(if i = ff then key else nkey (ns ! i)) = (if j = ff then key else nkey (ns ! j))"
    then show "i = j"
      using keys_ok_inj[OF ks, of i j] fresh nff by (cases "i = ff"; cases "j = ff") auto
  next
    fix i j
    assume i: "used ns i \<or> i = ff" and j: "used ns j \<or> j = ff"
      and foreign: "mainpos sh ns (if i = ff then key else nkey (ns ! i)) \<noteq> i"
    have "mainpos sh ns (nkey (ns ! j)) \<noteq> ff" if "used ns j"
      using no_key_main_free[OF ks ff that] .
    then show "mainpos sh ns (if j = ff then key else nkey (ns ! j)) \<noteq> i"
      using i j foreign keys_ok_foreign[OF ks, of i j] keys_ok_foreign[OF ks, of i m] own used mff
      by (cases "i = ff"; cases "j = ff") (auto simp: m(1)[symmetric])
  qed
  moreover have "(k, v) \<in> set (entries ns') \<longleftrightarrow> (k, v) \<in> set (entries ns)" if "k \<noteq> key" for k v
    using that
  proof (rule entries_same_except)
    show "\<exists>j. used ns j \<and> nkey (ns ! j) = nkey (ns' ! i) \<and> nval (ns ! j) = nval (ns' ! i)"
      if "used ns' i" "nkey (ns' ! i) \<noteq> key" for i
      using that mff by (intro exI[of _ i]) (auto simp: us nth split: if_splits)
    show "\<exists>i. used ns' i \<and> nkey (ns' ! i) = nkey (ns ! j) \<and> nval (ns' ! i) = nval (ns ! j)"
      if "used ns j" for j
      using that nff by (intro exI[of _ j]) (auto simp: us nth)
  qed
  moreover have "count_used ns' = Suc (count_used ns)"
    using ffl ffn key m(2) mff
    by (simp add: ns'_def count_used_same count_used_update nth_list_update)
  ultimately show ?thesis
    using ffl mff key used by (auto simp: placed_def us nth len used_def)
qed

lemma place_move:
  assumes ch: "chains_ok ns ff" and ks: "keys_ok sh ns" and ff: "free_node ns ff"
    and m: "m = mainpos sh ns key" "m < length ns" and used: "used ns m"
    and own: "mainpos sh ns (nkey (ns ! m)) \<noteq> m" and p: "edge ns p m"
    and key: "key \<noteq> ONull" and fresh: "\<And>i. used ns i \<Longrightarrow> nkey (ns ! i) \<noteq> key"
  defines "ns' \<equiv> ns[p := (ns ! p)\<lparr>nnext := Some ff\<rparr>, ff := ns ! m, m := empty_node\<lparr>nkey := key\<rparr>]"
  shows "placed sh ns ff key ns' m"
proof -
  have ffl: "ff < length ns" and ffn: "nkey (ns ! ff) = ONull" using ff by (auto simp: free_node_def)
  have pl: "p < length ns" using p by (rule edge_lt)
  from ch obtain r :: "nat \<Rightarrow> nat" where r: "\<And>i j. edge ns i j \<Longrightarrow> r i < r j"
    by (auto simp: chains_ok_def)
  have mff: "m \<noteq> ff" using used ffn by (auto simp: used_def)
  have pm: "p \<noteq> m" using r[OF p] by auto
  have pff: "p \<noteq> ff" using p ff by (auto dest: free_no_edge_from)
  note dist = mff pm pff mff[symmetric] pm[symmetric] pff[symmetric]
  have len: "length ns' = length ns" by (simp add: ns'_def)
  have nth: "ns' ! i = (if i = m then empty_node\<lparr>nkey := key\<rparr> else if i = ff then ns ! m
      else if i = p then (ns ! p)\<lparr>nnext := Some ff\<rparr> else ns ! i)" for i
    using m(2) ffl pl dist by (simp add: ns'_def nth_list_update)
  have edge: "edge ns' i j \<longleftrightarrow> (i = p \<and> j = ff) \<or> (i = ff \<and> edge ns m j)
      \<or> (i \<noteq> m \<and> i \<noteq> ff \<and> i \<noteq> p \<and> edge ns i j)" for i j
    using m(2) ffl pl dist by (auto simp: edge_def nth len empty_node_def)
  have not_to_m: "edge ns i m \<Longrightarrow> i = p" for i using chains_ok_inj[OF ch _ p] .
  have p_to: "edge ns p j \<Longrightarrow> j = m" for j using edge_fun[OF p] by simp
  have us: "used ns' i \<longleftrightarrow> used ns i \<or> i = ff" for i
    using m(2) ffl key used dist by (auto simp: used_def nth len)
  have nff: "\<not> used ns ff" using ffn by (simp add: used_def)
  have nk: "nkey (ns' ! i) = (if i = m then key else if i = ff then nkey (ns ! m) else nkey (ns ! i))" for i
    by (simp add: nth)
  have mp: "mainpos sh ns' k = mainpos sh ns k" for k by (rule mainpos_cong) (simp add: len)
  have no_main: "mainpos sh ns (nkey (ns ! i)) \<noteq> m" if "used ns i" for i
    using ks used that own by (auto simp: keys_ok_def)
  have no_main_ff: "mainpos sh ns (nkey (ns ! i)) \<noteq> ff" if "used ns i" for i
    using no_key_main_free[OF ks ff that] .
  have "chains_ok ns' ff"
    unfolding chains_ok_def
  proof (intro conjI allI impI)
    fix i j assume "edge ns' i j"
    then show "j < length ns'" "ff \<le> j" "j = ff \<Longrightarrow> nkey (ns' ! ff) \<noteq> ONull"
      using chains_ok_range[OF ch] chains_ok_above[OF ch ff] ffl used dist
      by (auto simp: edge len nk used_def less_imp_le)
  next
    fix i i' j assume "edge ns' i j" "edge ns' i' j"
    then show "i = i'"
      using chains_ok_inj[OF ch] free_no_edge_to[OF ch ff] dist by (auto simp: edge)
  next
    have "\<forall>i j. edge ns' i j \<longrightarrow> (if i = ff then r m else r i) < (if j = ff then r m else r j)"
      using dist free_no_edge_to[OF ch ff] r[OF p] by (auto simp: edge dest: r)
    then show "\<exists>r :: nat \<Rightarrow> nat. \<forall>i j. edge ns' i j \<longrightarrow> r i < r j"
      by (intro exI[of _ "\<lambda>i. if i = ff then r m else r i"])
  qed
  moreover define \<sigma> where "\<sigma> = (\<lambda>i. if i = m then ff else i)"
  have step: "edge ns' (\<sigma> a) (\<sigma> b)" if "edge ns a b" for a b
    using that free_no_edge_to[OF ch ff] free_no_edge_from[OF ff] not_to_m p_to dist
    by (auto simp: edge \<sigma>_def)
  have sub: "reach ns a b \<Longrightarrow> reach ns' (\<sigma> a) (\<sigma> b)" for a b
    by (induction rule: rtranclp_induct) (auto intro: rtranclp.rtrancl_into_rtrancl step)
  have "keys_ok sh ns'"
    unfolding keys_ok_def us mp nk
  proof (intro conjI allI impI)
    fix i assume i: "used ns i \<or> i = ff"
    have moved: "reach ns' (mainpos sh ns (nkey (ns ! j))) (\<sigma> j)" if "used ns j" for j
      using sub[OF keys_ok_reach[OF ks that]] no_main[OF that] by (simp add: \<sigma>_def)
    show "reach ns' (mainpos sh ns (if i = m then key else if i = ff then nkey (ns ! m) else nkey (ns ! i))) i"
      using moved[of i] moved[OF used] i dist
      by (cases "i = m"; cases "i = ff") (simp_all add: \<sigma>_def m(1)[symmetric])
  next
    fix i j assume "used ns i \<or> i = ff" "used ns j \<or> j = ff"
      "(if i = m then key else if i = ff then nkey (ns ! m) else nkey (ns ! i))
       = (if j = m then key else if j = ff then nkey (ns ! m) else nkey (ns ! j))"
    then show "i = j"
      using keys_ok_inj[OF ks, of i j] keys_ok_inj[OF ks used, of j] keys_ok_inj[OF ks _ used, of i]
        fresh[of i] fresh[of j] fresh[OF used] used nff dist
      by (cases "i = m"; cases "j = m"; cases "i = ff"; cases "j = ff") simp_all
  next
    fix i j
    assume "used ns i \<or> i = ff" "used ns j \<or> j = ff"
      "mainpos sh ns (if i = m then key else if i = ff then nkey (ns ! m) else nkey (ns ! i)) \<noteq> i"
    then show "mainpos sh ns (if j = m then key else if j = ff then nkey (ns ! m) else nkey (ns ! j)) \<noteq> i"
      using keys_ok_foreign[OF ks, of i j] keys_ok_foreign[OF ks, of i m] no_main_ff[of j]
        no_main_ff[OF used] used dist
      by (cases "i = m"; cases "j = m"; cases "i = ff"; cases "j = ff")
        (simp_all add: m(1)[symmetric])
  qed
  moreover have "(k, v) \<in> set (entries ns') \<longleftrightarrow> (k, v) \<in> set (entries ns)" if "k \<noteq> key" for k v
    using that
  proof (rule entries_same_except)
    show "\<exists>j. used ns j \<and> nkey (ns ! j) = nkey (ns' ! i) \<and> nval (ns ! j) = nval (ns' ! i)"
      if "used ns' i" "nkey (ns' ! i) \<noteq> key" for i
      using that used dist by (intro exI[of _ "if i = ff then m else i"]) (auto simp: us nth split: if_splits)
    show "\<exists>i. used ns' i \<and> nkey (ns' ! i) = nkey (ns ! j) \<and> nval (ns' ! i) = nval (ns ! j)"
      if "used ns j" for j
      using that nff dist by (intro exI[of _ "if j = m then ff else j"]) (auto simp: us nth)
  qed
  moreover have "count_used ns' = Suc (count_used ns)"
    using ffl ffn key m(2) pl dist used
    by (simp add: ns'_def count_used_same count_used_update nth_list_update used_def empty_node_def)
  ultimately show ?thesis
    using ffl dist key used p by (auto simp: placed_def us nth len used_def empty_node_def edge_def)
qed

lemma place_key_spec:
  assumes ok: "nodes_ok sh ns ff" and ff: "free_node ns ff" and key: "key \<noteq> ONull"
    and fresh: "\<And>i. used ns i \<Longrightarrow> nkey (ns ! i) \<noteq> key"
  shows "\<exists>ns' mp. place_key sh ns ff key = Some (ns', mp) \<and> placed sh ns ff key ns' mp"
proof -
  define m where "m = mainpos sh ns key"
  have m: "m < length ns" and ch: "chains_ok ns ff" and ks: "keys_ok sh ns"
    using ok by (auto simp: nodes_ok_def m_def mainpos_lt)
  have ffl: "ff < length ns" using ff by (simp add: free_node_def)
  show ?thesis
  proof (cases "used ns m")
    case False
    then have null: "nkey (ns ! m) = ONull" using m by (simp add: used_def)
    from place_free[OF ch ks ff m_def m null key fresh] null show ?thesis
      by (intro exI conjI) (auto simp: place_key_def Let_def m_def)
  next
    case True
    then have nn: "nkey (ns ! m) \<noteq> ONull" by (simp add: used_def)
    define othern where "othern = mainpos sh ns (nkey (ns ! m))"
    have mff: "m \<noteq> ff" using ff nn by (auto simp: free_node_def)
    have path: "reach ns othern m" using keys_ok_reach[OF ks True] by (simp add: othern_def)
    show ?thesis
    proof (cases "othern = m")
      case True
      have "place_key sh ns ff key
          = Some (ns[ff := (ns ! ff)\<lparr>nnext := nnext (ns ! m), nkey := key\<rparr>,
                     m := (ns ! m)\<lparr>nnext := Some ff\<rparr>], ff)"
        using True nn mff m ffl
        by (simp add: place_key_def Let_def flip: m_def othern_def)
           (simp add: list_update_swap)
      with place_chain[OF ch ks ff m_def m \<open>used ns m\<close> _ key fresh] True show ?thesis
        by (auto simp: othern_def)
    next
      case False
      with path obtain p where p: "reach ns othern p" "edge ns p m"
        by (metis rtranclp.cases)
      have oth: "othern < length ns"
        using ok by (auto simp: nodes_ok_def othern_def mainpos_lt)
      from p(1) obtain q where q: "(edge ns ^^ q) othern p" by (auto dest: rtranclp_imp_relpowp)
      with path_bound[OF ch oth] have ql: "q < length ns" by blast
      have fp: "find_pred (length ns) ns m othern = Some p"
        by (rule find_pred_spec[OF ch q p(2) oth ql])
      have "ff < m" using chains_ok_above[OF ch ff p(2)] .
      have dist: "p \<noteq> ff" "p \<noteq> m" "p < length ns"
        using p(2) ff ch by (auto simp: chains_ok_def edge_def free_node_def)
      have "place_key sh ns ff key
          = Some (ns[p := (ns ! p)\<lparr>nnext := Some ff\<rparr>, ff := ns ! m, m := empty_node\<lparr>nkey := key\<rparr>], m)"
        using nn mff m ffl \<open>ff < m\<close> False fp dist
        by (simp add: place_key_def Let_def flip: m_def othern_def)
      with place_move[OF ch ks ff m_def m \<open>used ns m\<close> _ p(2) key fresh] False show ?thesis
        by (auto simp: othern_def)
    qed
  qed
qed

section \<open>The value of a node, and the free pointer\<close>

lemma nval_update [simp]:
  assumes "i < length ns"
  shows "edge (ns[i := (ns ! i)\<lparr>nval := v\<rparr>]) = edge ns"
    "used (ns[i := (ns ! i)\<lparr>nval := v\<rparr>]) = used ns"
    "nkey (ns[i := (ns ! i)\<lparr>nval := v\<rparr>] ! j) = nkey (ns ! j)"
    "nnext (ns[i := (ns ! i)\<lparr>nval := v\<rparr>] ! j) = nnext (ns ! j)"
    "count_used (ns[i := (ns ! i)\<lparr>nval := v\<rparr>]) = count_used ns"
  using assms
  by (auto simp: edge_def used_def nth_list_update fun_eq_iff count_used_same)

lemma nval_update_ok:
  assumes "i < length ns"
  shows "chains_ok (ns[i := (ns ! i)\<lparr>nval := v\<rparr>]) ff = chains_ok ns ff"
    "keys_ok sh (ns[i := (ns ! i)\<lparr>nval := v\<rparr>]) = keys_ok sh ns"
    "free_node (ns[i := (ns ! i)\<lparr>nval := v\<rparr>]) j = free_node ns j"
    "pow2_length (ns[i := (ns ! i)\<lparr>nval := v\<rparr>]) = pow2_length ns"
    "nodes_ok sh (ns[i := (ns ! i)\<lparr>nval := v\<rparr>]) ff = nodes_ok sh ns ff"
  using assms
  by (simp_all add: chains_ok_def keys_ok_def free_node_def pow2_length_def nodes_ok_def
      mainpos_cong[of "ns[i := (ns ! i)\<lparr>nval := v\<rparr>]" ns])

lemma nval_update_entries:
  assumes "i < length ns" "nkey (ns ! i) \<noteq> ONull" "keys_ok sh ns"
  shows "(k, w) \<in> set (entries (ns[i := (ns ! i)\<lparr>nval := v\<rparr>]))
     \<longleftrightarrow> (if k = nkey (ns ! i) then w = v else (k, w) \<in> set (entries ns))"
proof -
  have "used ns i" using assms by (simp add: used_def)
  then show ?thesis
    using keys_ok_inj[OF assms(3), of _ i] assms(1)
    by (auto simp: entries_iff nth_list_update)
qed

lemma correct_firstfree_spec:
  "ff < length ns \<Longrightarrow>
   (case correct_firstfree ns ff of
      Some ff' \<Rightarrow> ff' \<le> ff \<and> free_node ns ff' \<and> (\<forall>i. ff' < i \<and> i \<le> ff \<longrightarrow> \<not> free_node ns i)
    | None \<Rightarrow> \<forall>i \<le> ff. \<not> free_node ns i)"
proof (induction ns ff rule: correct_firstfree.induct)
  case (1 ns ff)
  show ?case
  proof (cases "free_node ns ff")
    case True
    then show ?thesis by (subst correct_firstfree.simps) (auto simp: free_node_def)
  next
    case False
    then have no: "\<not> (nkey (ns ! ff) = ONull \<and> nnext (ns ! ff) = None)"
      using 1(2) by (simp add: free_node_def)
    show ?thesis
    proof (cases ff)
      case 0
      with no False show ?thesis by (subst correct_firstfree.simps) simp
    next
      case (Suc f)
      with 1(1)[OF no Suc] 1(2) no False show ?thesis
        by (subst correct_firstfree.simps) (auto simp: le_Suc_eq split: option.splits)
    qed
  qed
qed

lemma chains_ok_lower:
  assumes ch: "chains_ok ns ff" and le: "ff' \<le> ff"
  shows "chains_ok ns ff'"
  unfolding chains_ok_def
proof (intro conjI allI impI)
  fix i j assume e: "edge ns i j"
  have j: "j < length ns" "ff \<le> j" "j = ff \<longrightarrow> nkey (ns ! ff) \<noteq> ONull"
    using ch e by (simp_all add: chains_ok_def)
  show "j < length ns" by (rule j)
  show "ff' \<le> j" using j(2) le by simp
  show "nkey (ns ! ff') \<noteq> ONull" if "j = ff'"
    using that j le by (metis le_antisym)
next
  fix i i' j assume "edge ns i j" "edge ns i' j"
  then show "i = i'" by (rule chains_ok_inj[OF ch])
next
  show "\<exists>r :: nat \<Rightarrow> nat. \<forall>i j. edge ns i j \<longrightarrow> r i < r j"
    using ch by (simp add: chains_ok_def)
qed

section \<open>One insertion\<close>

text \<open>The map with one entry changed, on entry sets.\<close>

definition updated :: "node list \<Rightarrow> gsobj \<Rightarrow> gsobj \<Rightarrow> node list \<Rightarrow> bool" where
  "updated ns key v ns' =
     (\<forall>k w. (k, w) \<in> set (entries ns') \<longleftrightarrow> (if k = key then w = v else (k, w) \<in> set (entries ns)))"

lemma updated_new:
  assumes "updated ns key v ns'" "key \<notin> fst ` set (entries ns)"
  shows "set (entries ns') = insert (key, v) (set (entries ns))"
proof (rule set_eqI, clarify)
  fix k w
  show "(k, w) \<in> set (entries ns') \<longleftrightarrow> (k, w) \<in> insert (key, v) (set (entries ns))"
    using assms by (cases "k = key") (force simp: updated_def)+
qed

lemma placed_value:
  assumes pl: "placed sh ns ff key ns' mp" and key: "key \<noteq> ONull"
  shows "updated ns key v (ns'[mp := (ns' ! mp)\<lparr>nval := v\<rparr>])"
  using assms nval_update_entries[of mp ns' sh _ _ v]
  by (auto simp: updated_def placed_def used_def)

lemma ns_insert_cases:
  assumes ok: "table_ok sh t" and key: "key \<noteq> ONull"
  obtains (present) t' where "ns_insert sh t key v = Some (Inl (t', False))" "table_ok sh t'"
      "updated (tnodes t) key v (tnodes t')" "length (tnodes t') = length (tnodes t)"
      "usednodes t' = usednodes t" "key \<in> dom (tabs t)"
    | (added) t' where "ns_insert sh t key v = Some (Inl (t', True))" "table_ok sh t'"
      "updated (tnodes t) key v (tnodes t')" "length (tnodes t') = length (tnodes t)"
      "usednodes t' = Suc (usednodes t)" "key \<notin> dom (tabs t)"
      "\<forall>i < length (tnodes t). nkey (tnodes t' ! i) = ONull \<longrightarrow> nkey (tnodes t ! i) = ONull
         \<and> (nnext (tnodes t ! i) = None \<longrightarrow> nnext (tnodes t' ! i) = None)"
      "firstfree t' \<le> firstfree t" "\<forall>i. firstfree t' < i \<and> i \<le> firstfree t \<longrightarrow> \<not> free_node (tnodes t') i"
    | (full) t' mp where "ns_insert sh t key v = Some (Inr t')" "key \<notin> dom (tabs t)"
      "placed sh (tnodes t) (firstfree t) key (tnodes t') mp" "usednodes t' = usednodes t"
      "\<forall>i \<le> firstfree t. \<not> free_node (tnodes t') i"
proof -
  have nok: "nodes_ok sh (tnodes t) (firstfree t)" and ff: "free_node (tnodes t) (firstfree t)"
    and ks: "keys_ok sh (tnodes t)" and cnt: "usednodes t = count_used (tnodes t)"
    and p2: "pow2_length (tnodes t)"
    using ok by (auto simp: table_ok_def nodes_ok_def)
  from nok show ?thesis
  proof (cases rule: Get_node_spec[where key = key])
    case (found i)
    let ?ns = "(tnodes t)[i := (tnodes t ! i)\<lparr>nval := v\<rparr>]"
    have ins: "ns_insert sh t key v = Some (Inl (t\<lparr>tnodes := ?ns\<rparr>, False))"
      using found by (simp add: ns_insert_def)
    have "table_ok sh (t\<lparr>tnodes := ?ns\<rparr>)"
      using ok found by (simp add: table_ok_def nval_update_ok)
    moreover have "updated (tnodes t) key v ?ns"
      using nval_update_entries[OF found(2) _ ks] found(3) key by (simp add: updated_def)
    moreover have "used (tnodes t) i" using found key by (simp add: used_def)
    then have "key \<in> dom (tabs t)"
      using tabs_iff[OF ks, of key "nval (tnodes t ! i)"] found(3) by blast
    ultimately show ?thesis using ins by (intro present[of "t\<lparr>tnodes := ?ns\<rparr>"]) auto
  next
    case missing
    have nd: "key \<notin> dom (tabs t)"
      using tabs_iff[OF ks] missing(2) by blast
    from place_key_spec[OF nok ff key missing(2)] obtain ns' mp
      where pk: "place_key sh (tnodes t) (firstfree t) key = Some (ns', mp)"
        and pl: "placed sh (tnodes t) (firstfree t) key ns' mp" by blast
    have len: "length ns' = length (tnodes t)" and ch: "chains_ok ns' (firstfree t)"
      and ks': "keys_ok sh ns'" and mp: "mp < length ns'" and nk: "nkey (ns' ! mp) = key"
      and cnt': "count_used ns' = Suc (count_used (tnodes t))"
      using pl by (auto simp: placed_def used_def)
    have ffl: "firstfree t < length ns'" using ff len by (simp add: free_node_def)
    note cf = correct_firstfree_spec[OF ffl]
    show ?thesis
    proof (cases "correct_firstfree ns' (firstfree t)")
      case None
      with missing pk have "ns_insert sh t key v = Some (Inr (t\<lparr>tnodes := ns', firstfree := 0\<rparr>))"
        by (simp add: ns_insert_def)
      with nd pl cf None show ?thesis
        by (intro full[of "t\<lparr>tnodes := ns', firstfree := 0\<rparr>" mp]) auto
    next
      case (Some ff')
      let ?ns = "ns'[mp := (ns' ! mp)\<lparr>nval := v\<rparr>]"
      let ?t = "t\<lparr>tnodes := ?ns, firstfree := ff', usednodes := usednodes t + 1\<rparr>"
      have ins: "ns_insert sh t key v = Some (Inl (?t, True))"
        using missing pk Some by (simp add: ns_insert_def)
      have le: "ff' \<le> firstfree t" "free_node ns' ff'" using cf Some by auto
      have "chains_ok ns' ff'" using chains_ok_lower[OF ch le(1)] .
      with le ks' p2 len cnt cnt' mp have "table_ok sh ?t"
        by (simp add: table_ok_def nodes_ok_def nval_update_ok pow2_length_def)
      moreover have "\<forall>i. ff' < i \<and> i \<le> firstfree t \<longrightarrow> \<not> free_node ?ns i"
        using cf Some mp by (simp add: nval_update_ok)
      ultimately show ?thesis
        using ins nd placed_value[OF pl key] len pl mp le
        by (intro added[of ?t]) (auto simp: placed_def)
    qed
  qed
qed

section \<open>Rehashing\<close>

text \<open>A table that has only been filled: its empty nodes are unlinked and at or below the
  free pointer.\<close>

definition fresh :: "table \<Rightarrow> bool" where
  "fresh t = (\<forall>i < length (tnodes t). nkey (tnodes t ! i) = ONull
                \<longrightarrow> nnext (tnodes t ! i) = None \<and> i \<le> firstfree t)"

lemma entries_empty [simp]: "entries (replicate n empty_node) = []"
  by (simp add: entries_def empty_node_def)

lemma AllocNodes_ok:
  assumes "2 \<le> k"
  shows "table_ok sh (AllocNodes (2 ^ k))" "fresh (AllocNodes (2 ^ k))"
proof -
  let ?ns = "replicate (2 ^ k) empty_node"
  have e: "\<not> edge ?ns i j" for i j by (auto simp: edge_def empty_node_def)
  have u: "\<not> used ?ns i" for i by (auto simp: used_def empty_node_def)
  have "pow2_length ?ns" using assms by (auto simp: pow2_length_def)
  moreover have "free_node ?ns (2 ^ k - 1)" by (simp add: free_node_def empty_node_def)
  moreover have "chains_ok ?ns (2 ^ k - 1)" "keys_ok sh ?ns" using e u by (simp_all add: chains_ok_def keys_ok_def)
  moreover have "count_used ?ns = 0" by (simp add: count_used_def empty_node_def)
  ultimately show "table_ok sh (AllocNodes (2 ^ k))"
    by (simp add: table_ok_def nodes_ok_def AllocNodes_def)
  show "fresh (AllocNodes (2 ^ k))"
    by (auto simp: fresh_def AllocNodes_def empty_node_def)
qed

lemma insert_fresh:
  assumes ok: "table_ok sh t" and fr: "fresh t" and key: "key \<noteq> ONull"
    and new: "key \<notin> fst ` set (entries (tnodes t))"
    and room: "Suc (usednodes t) < length (tnodes t)"
  shows "\<exists>t'. ns_insert sh t key v = Some (Inl (t', True)) \<and> table_ok sh t' \<and> fresh t'
     \<and> updated (tnodes t) key v (tnodes t') \<and> length (tnodes t') = length (tnodes t)
     \<and> usednodes t' = Suc (usednodes t)"
proof -
  have nd: "key \<notin> dom (tabs t)" using new by (auto simp: tabs_def dom_map_of_conv_image_fst)
  from ok key show ?thesis
  proof (cases rule: ns_insert_cases[where v = v])
    case (present t')
    with nd show ?thesis by simp
  next
    case (added t')
    have "fresh t'"
      unfolding fresh_def
    proof (intro allI impI conjI)
      fix i assume i: "i < length (tnodes t')" "nkey (tnodes t' ! i) = ONull"
      then have n: "nkey (tnodes t ! i) = ONull" "nnext (tnodes t ! i) = None" "i \<le> firstfree t"
        using added(4,7) fr by (auto simp: fresh_def)
      with i added(4,7) show nx: "nnext (tnodes t' ! i) = None" by auto
      show "i \<le> firstfree t'"
        using i nx n(3) added(9) by (meson free_node_def not_le)
    qed
    with added show ?thesis by blast
  next
    case (full t' mp)
    have "count_used (tnodes t') < length (tnodes t')"
      using full(3) room ok by (simp add: placed_def table_ok_def)
    then obtain i where i: "i < length (tnodes t')" "nkey (tnodes t' ! i) = ONull"
      using length_filter_lt_ex[of "\<lambda>n. nkey n \<noteq> ONull"] by (auto simp: count_used_def)
    then have "nkey (tnodes t ! i) = ONull" and nx: "nnext (tnodes t ! i) = None \<longrightarrow> nnext (tnodes t' ! i) = None"
      and il: "i < length (tnodes t)"
      using full(3) by (auto simp: placed_def)
    with fr have "nnext (tnodes t ! i) = None" "i \<le> firstfree t" by (auto simp: fresh_def)
    with nx i full(5) show ?thesis by (auto simp: free_node_def)
  qed
qed

lemma reinsert_spec:
  "table_ok sh t \<Longrightarrow> fresh t \<Longrightarrow> distinct (map fst (entries olds))
   \<Longrightarrow> fst ` set (entries olds) \<inter> fst ` set (entries (tnodes t)) = {}
   \<Longrightarrow> usednodes t + count_used olds < length (tnodes t)
   \<Longrightarrow> \<exists>t'. reinsert_f (Suc (Suc d)) sh olds t = Some t' \<and> table_ok sh t'
        \<and> set (entries (tnodes t')) = set (entries olds) \<union> set (entries (tnodes t))
        \<and> length (tnodes t') = length (tnodes t) \<and> fresh t'"
proof (induction olds arbitrary: t)
  case Nil
  then show ?case by (simp add: entries_def)
next
  case (Cons n olds)
  show ?case
  proof (cases "nkey n = ONull")
    case True
    then have "entries (n # olds) = entries olds" "count_used (n # olds) = count_used olds"
      by (simp_all add: entries_def count_used_def)
    with Cons True show ?thesis by simp
  next
    case False
    have e: "entries (n # olds) = (nkey n, nval n) # entries olds"
      and c: "count_used (n # olds) = Suc (count_used olds)"
      using False by (simp_all add: entries_def count_used_def)
    from insert_fresh[OF Cons.prems(1,2) False, of "nval n"] Cons.prems e c
    obtain t1 where t1: "ns_insert sh t (nkey n) (nval n) = Some (Inl (t1, True))" "table_ok sh t1"
      "fresh t1" "updated (tnodes t) (nkey n) (nval n) (tnodes t1)"
      "length (tnodes t1) = length (tnodes t)" "usednodes t1 = Suc (usednodes t)"
      by auto
    have s: "set (entries (tnodes t1)) = insert (nkey n, nval n) (set (entries (tnodes t)))"
    proof (rule updated_new[OF t1(4)])
      show "nkey n \<notin> fst ` set (entries (tnodes t))" using Cons.prems(4) unfolding e by auto
    qed
    have "\<exists>t'. reinsert_f (Suc (Suc d)) sh olds t1 = Some t' \<and> table_ok sh t'
        \<and> set (entries (tnodes t')) = set (entries olds) \<union> set (entries (tnodes t1))
        \<and> length (tnodes t') = length (tnodes t1) \<and> fresh t'"
    proof (rule Cons.IH[OF t1(2,3)])
      show "distinct (map fst (entries olds))" using Cons.prems(3) e by simp
      show "fst ` set (entries olds) \<inter> fst ` set (entries (tnodes t1)) = {}"
        using Cons.prems(3,4) unfolding e s by auto
      show "usednodes t1 + count_used olds < length (tnodes t1)"
        using Cons.prems(5) c t1(5,6) by simp
    qed
    with t1 s False e show ?thesis by auto
  qed
qed

lemma rehash_force: "\<exists>n. rehash_size True N e = Some n"
  by (simp add: rehash_size_def Let_def)

lemma rehash_size_spec:
  assumes "2 \<le> k" "nelems < 2 ^ k" "rehash_size force (2 ^ k) nelems = Some n"
  shows "\<exists>k' \<ge> 2. n = 2 ^ k' \<and> nelems + 1 < n"
proof -
  have four: "(4 :: nat) \<le> 2 ^ k" using assms(1) power_increasing[of 2 k "2 :: nat"] by simp
  then have mx: "max (2 ^ k) 4 = (2 :: nat) ^ k" by simp
  consider (grow) "n = 2 ^ Suc k"
    | (shrink) "nelems \<le> 2 ^ k div 4" "4 < (2 :: nat) ^ k" "n = 2 ^ k div 2"
    | (same) "nelems < 2 ^ k - 2 ^ k div 4" "n = 2 ^ k"
    using assms(3) by (auto simp: rehash_size_def Let_def mx split: if_splits)
  then show ?thesis
  proof cases
    case grow
    with assms show ?thesis by (intro exI[of _ "Suc k"]) auto
  next
    case shrink
    have "k \<noteq> 2" using shrink(2) by (intro notI) simp
    then obtain j where j: "k = Suc (Suc (Suc j))" using assms(1)
      by (metis Suc_le_D add_2_eq_Suc le_SucE numeral_2_eq_2 le_antisym not_less_eq_eq)
    have "nelems \<le> 2 * 2 ^ j" "n = 4 * 2 ^ j" using shrink j by simp_all
    moreover have "(1 :: nat) \<le> 2 ^ j" by (rule one_le_power) simp
    ultimately have "nelems + 1 < n" by linarith
    moreover have "n = 2 ^ Suc (Suc j)" using shrink(3) j by simp
    ultimately show ?thesis by (intro exI[of _ "Suc (Suc j)"]) simp
  next
    case same
    with assms four show ?thesis by (intro exI[of _ k]) auto
  qed
qed

lemma Rehash_spec:
  assumes p2: "pow2_length (tnodes t)" and dist: "distinct (map fst (entries (tnodes t)))"
    and cnt: "count_used (tnodes t) \<le> Suc (usednodes t)" "usednodes t < length (tnodes t)"
    and sz: "rehash_size force (length (tnodes t)) (usednodes t) = Some n"
  shows "\<exists>t'. Rehash_f (Suc (Suc (Suc d))) sh force t = Some t' \<and> table_ok sh t'
     \<and> set (entries (tnodes t')) = set (entries (tnodes t)) \<and> length (tnodes t') = n"
proof -
  from p2 obtain k where k: "2 \<le> k" "length (tnodes t) = 2 ^ k" by (auto simp: pow2_length_def)
  from rehash_size_spec[OF k(1) _ sz[unfolded k(2)]] cnt(2) k(2)
  obtain k' where k': "2 \<le> k'" "n = 2 ^ k'" "usednodes t + 1 < n" by auto
  have "\<exists>t'. reinsert_f (Suc (Suc d)) sh (tnodes t) (AllocNodes n) = Some t' \<and> table_ok sh t'
        \<and> set (entries (tnodes t')) = set (entries (tnodes t)) \<union> set (entries (tnodes (AllocNodes n)))
        \<and> length (tnodes t') = length (tnodes (AllocNodes n)) \<and> fresh t'"
    by (rule reinsert_spec)
       (use AllocNodes_ok[OF k'(1)] k' dist cnt in \<open>simp_all add: AllocNodes_def\<close>)
  then show ?thesis using sz by (auto simp: AllocNodes_def)
qed

section \<open>The operations refine those of a finite map\<close>

lemma table_ok_keys: "table_ok sh t \<Longrightarrow> keys_ok sh (tnodes t)"
  by (simp add: table_ok_def nodes_ok_def)

lemma table_ok_pow2: "table_ok sh t \<Longrightarrow> pow2_length (tnodes t)"
  by (simp add: table_ok_def nodes_ok_def)

lemma tabs_entries: "table_ok sh t \<Longrightarrow> tabs t k = Some v \<longleftrightarrow> (k, v) \<in> set (entries (tnodes t))"
  by (simp add: tabs_iff[OF table_ok_keys] entries_iff)

lemma tabs_eqI:
  assumes "table_ok sh t" "\<And>k v. (k, v) \<in> set (entries (tnodes t)) \<longleftrightarrow> m k = Some v"
  shows "tabs t = m"
proof
  fix k
  show "tabs t k = m k"
    using tabs_entries[OF assms(1), of k] assms(2)[of k] by (metis option.exhaust)
qed

lemma tabs_updated:
  assumes "table_ok sh t" "table_ok sh t'" "updated (tnodes t) key v (tnodes t')"
  shows "tabs t' = (tabs t)(key \<mapsto> v)"
  by (rule tabs_eqI[OF assms(2)]) (use assms(3) tabs_entries[OF assms(1)] in \<open>auto simp: updated_def\<close>)

lemma used_lt_length: "table_ok sh t \<Longrightarrow> usednodes t < length (tnodes t)"
proof -
  assume ok: "table_ok sh t"
  then have "count_used (tnodes t) \<noteq> length (tnodes t)"
    using length_filter_eq_all[of "\<lambda>n. nkey n \<noteq> ONull" "tnodes t" "firstfree t"]
    by (auto simp: table_ok_def free_node_def count_used_def)
  with ok show ?thesis
    by (simp add: table_ok_def count_used_def nat_less_le)
qed

lemma NewSlot_f_spec:
  assumes ok: "table_ok sh t" and key: "key \<noteq> ONull"
  shows "\<exists>t' b. NewSlot_f (4 + d) sh t key v = Some (t', b) \<and> table_ok sh t'
           \<and> tabs t' = (tabs t)(key \<mapsto> v) \<and> (b \<longrightarrow> key \<notin> dom (tabs t))"
proof -
  have d: "4 + d = Suc (Suc (Suc (Suc d)))" by simp
  from ok key show ?thesis
  proof (cases rule: ns_insert_cases[where v = v])
    case (present t')
    with tabs_updated[OF ok present(2,3)] show ?thesis by (auto simp: d)
  next
    case (added t')
    with tabs_updated[OF ok added(2,3)] show ?thesis by (auto simp: d)
  next
    case (full t1 mp)
    have len: "length (tnodes t1) = length (tnodes t)" and ks: "keys_ok sh (tnodes t1)"
      and cnt: "count_used (tnodes t1) = Suc (usednodes t)"
      and mp: "used (tnodes t1) mp" "nkey (tnodes t1 ! mp) = key"
      and others: "\<And>k v. k \<noteq> key \<Longrightarrow> (k, v) \<in> set (entries (tnodes t1)) \<longleftrightarrow> (k, v) \<in> set (entries (tnodes t))"
      using full(3) ok by (auto simp: placed_def table_ok_def)
    have "pow2_length (tnodes t1)" using table_ok_pow2[OF ok] len by (simp add: pow2_length_def)
    moreover obtain n where "rehash_size True (length (tnodes t1)) (usednodes t1) = Some n"
      using rehash_force by blast
    ultimately obtain t2 where t2: "Rehash_f (Suc (Suc (Suc d))) sh True t1 = Some t2" "table_ok sh t2"
        "set (entries (tnodes t2)) = set (entries (tnodes t1))"
      using Rehash_spec[where t = t1 and sh = sh and force = True and n = n and d = d] distinct_entries[OF ks] cnt full(4) len used_lt_length[OF ok]
      by auto
    have "key \<in> dom (tabs t2)"
      using mp tabs_entries[OF t2(2), of key] unfolding t2(3) entries_iff by blast
    with t2(2) key obtain t3 where t3: "ns_insert sh t2 key v = Some (Inl (t3, False))" "table_ok sh t3"
        "updated (tnodes t2) key v (tnodes t3)"
      by (cases rule: ns_insert_cases[where v = v]) auto
    have "tabs t3 = (tabs t)(key \<mapsto> v)"
      by (rule tabs_eqI[OF t3(2)])
         (use t3(3) t2(3) others tabs_entries[OF ok] in \<open>auto simp: updated_def\<close>)
    with full t2 t3 show ?thesis by (auto simp: d)
  qed
qed

lemma NewSlot_spec:
  assumes "table_ok sh t" "key \<noteq> ONull"
  shows "\<exists>t' b. NewSlot sh t key v = Some (t', b) \<and> table_ok sh t'
           \<and> tabs t' = (tabs t)(key \<mapsto> v) \<and> (b \<longrightarrow> key \<notin> dom (tabs t))"
  using NewSlot_f_spec[OF assms, of 0 v] by (simp add: NewSlot_def)

lemma TableGet_spec:
  assumes ok: "table_ok sh t"
  shows "TableGet sh wk t key = Some (map_option (realval wk) (tabs t key))"
proof (cases "key = ONull")
  case True
  then show ?thesis by (simp add: TableGet_def tabs_null)
next
  case False
  have nok: "nodes_ok sh (tnodes t) (firstfree t)" using ok by (simp add: table_ok_def)
  then show ?thesis
  proof (cases rule: Get_node_spec[where key = key])
    case (found i)
    then have "tabs t key = Some (nval (tnodes t ! i))"
      using tabs_entries[OF ok] False by (auto simp: entries_iff used_def)
    with found False show ?thesis by (simp add: TableGet_def)
  next
    case missing
    then have "tabs t key = None"
      using tabs_iff[OF table_ok_keys[OF ok], of key] by (metis not_Some_eq)
    with missing False show ?thesis by (simp add: TableGet_def)
  qed
qed

lemma TableSet_spec:
  assumes ok: "table_ok sh t" and key: "key \<noteq> ONull"
  shows "\<exists>t'. TableSet sh t key v = Some (t', key \<in> dom (tabs t)) \<and> table_ok sh t'
           \<and> tabs t' = (if key \<in> dom (tabs t) then (tabs t)(key \<mapsto> v) else tabs t)"
proof -
  have nok: "nodes_ok sh (tnodes t) (firstfree t)" using ok by (simp add: table_ok_def)
  then show ?thesis
  proof (cases rule: Get_node_spec[where key = key])
    case (found i)
    let ?ns = "(tnodes t)[i := (tnodes t ! i)\<lparr>nval := v\<rparr>]"
    have ok': "table_ok sh (t\<lparr>tnodes := ?ns\<rparr>)"
      using ok found by (simp add: table_ok_def nval_update_ok)
    have "updated (tnodes t) key v ?ns"
      using nval_update_entries[OF found(2) _ table_ok_keys[OF ok]] found(3) key
      by (simp add: updated_def)
    with tabs_updated[OF ok ok'] have "tabs (t\<lparr>tnodes := ?ns\<rparr>) = (tabs t)(key \<mapsto> v)" by simp
    moreover have "key \<in> dom (tabs t)"
      using tabs_iff[OF table_ok_keys[OF ok], of key] found key by (auto simp: used_def)
    ultimately show ?thesis using found ok' by (simp add: TableSet_def)
  next
    case missing
    then have "tabs t key = None"
      using tabs_iff[OF table_ok_keys[OF ok], of key] by (metis not_Some_eq)
    with missing ok show ?thesis by (simp add: TableSet_def domIff)
  qed
qed

lemma clear_node_ok:
  assumes ok: "table_ok sh t" and i: "used (tnodes t) i"
  defines "ns' \<equiv> (tnodes t)[i := (tnodes t ! i)\<lparr>nkey := ONull, nval := ONull\<rparr>]"
  shows "table_ok sh (t\<lparr>tnodes := ns', usednodes := usednodes t - 1\<rparr>)"
    "set (entries ns') = {(k, v) \<in> set (entries (tnodes t)). k \<noteq> nkey (tnodes t ! i)}"
proof -
  let ?ns = "tnodes t"
  have il: "i < length ?ns" and nn: "nkey (?ns ! i) \<noteq> ONull" using i by (auto simp: used_def)
  have ff: "free_node ?ns (firstfree t)" and ch: "chains_ok ?ns (firstfree t)" and ks: "keys_ok sh ?ns"
    and p2: "pow2_length ?ns" and cnt: "usednodes t = count_used ?ns"
    using ok by (auto simp: table_ok_def nodes_ok_def)
  have len: "length ns' = length ?ns" by (simp add: ns'_def)
  have edge: "edge ns' = edge ?ns"
    using il by (auto simp: edge_def ns'_def nth_list_update fun_eq_iff)
  have us: "used ns' j \<longleftrightarrow> used ?ns j \<and> j \<noteq> i" for j
    using il by (auto simp: used_def ns'_def nth_list_update)
  have nk: "used ns' j \<Longrightarrow> nkey (ns' ! j) = nkey (?ns ! j)"
    and nv: "used ns' j \<Longrightarrow> nval (ns' ! j) = nval (?ns ! j)" for j
    using il us by (auto simp: ns'_def nth_list_update)
  have mp: "mainpos sh ns' k = mainpos sh ?ns k" for k by (rule mainpos_cong) (simp add: len)
  have ff': "free_node ns' (firstfree t)"
    using ff il by (auto simp: free_node_def ns'_def nth_list_update)
  have "chains_ok ns' (firstfree t)"
    unfolding chains_ok_def edge len
  proof (intro conjI allI impI)
    fix a b assume e: "edge ?ns a b"
    show "b < length ?ns" using chains_ok_range[OF ch e] .
    show "firstfree t \<le> b" using chains_ok_above[OF ch ff e] by simp
    show "nkey (ns' ! firstfree t) \<noteq> ONull" if "b = firstfree t" using chains_ok_above[OF ch ff e] that by simp
  next
    fix a a' b assume "edge ?ns a b" "edge ?ns a' b"
    then show "a = a'" by (rule chains_ok_inj[OF ch])
  next
    show "\<exists>r :: nat \<Rightarrow> nat. \<forall>a b. edge ?ns a b \<longrightarrow> r a < r b" using ch by (simp add: chains_ok_def)
  qed
  moreover have "keys_ok sh ns'"
    unfolding keys_ok_def edge mp
  proof (intro conjI allI impI)
    fix a assume "used ns' a"
    then show "reach ?ns (mainpos sh ?ns (nkey (ns' ! a))) a"
      using keys_ok_reach[OF ks, of a] nk[of a] us[of a] by simp
  next
    fix a b assume "used ns' a" "used ns' b" "nkey (ns' ! a) = nkey (ns' ! b)"
    then show "a = b" using keys_ok_inj[OF ks, of a b] nk[of a] nk[of b] us by simp
  next
    fix a b assume "used ns' a" "used ns' b" "mainpos sh ?ns (nkey (ns' ! a)) \<noteq> a"
    then show "mainpos sh ?ns (nkey (ns' ! b)) \<noteq> a"
      using keys_ok_foreign[OF ks, of a b] nk[of a] nk[of b] us by simp
  qed
  moreover have "count_used ns' = count_used ?ns - 1"
    using count_list_update_ne[OF il, of "\<lambda>n. nkey n \<noteq> ONull" "(?ns ! i)\<lparr>nkey := ONull, nval := ONull\<rparr>"] nn
    by (simp add: count_used_def ns'_def)
  ultimately show "table_ok sh (t\<lparr>tnodes := ns', usednodes := usednodes t - 1\<rparr>)"
    using ff' p2 cnt len by (simp add: table_ok_def nodes_ok_def pow2_length_def)
  have "(k, v) \<in> set (entries ns') \<longleftrightarrow> (k, v) \<in> set (entries ?ns) \<and> k \<noteq> nkey (?ns ! i)" for k v
  proof -
    have "(\<exists>j. used ns' j \<and> nkey (ns' ! j) = k \<and> nval (ns' ! j) = v)
      \<longleftrightarrow> (\<exists>j. used ?ns j \<and> j \<noteq> i \<and> nkey (?ns ! j) = k \<and> nval (?ns ! j) = v)"
      using us nk nv by metis
    also have "\<dots> \<longleftrightarrow> (\<exists>j. used ?ns j \<and> nkey (?ns ! j) = k \<and> nval (?ns ! j) = v) \<and> k \<noteq> nkey (?ns ! i)"
      using keys_ok_inj[OF ks _ i] by metis
    finally show ?thesis unfolding entries_iff .
  qed
  then show "set (entries ns') = {(k, v) \<in> set (entries ?ns). k \<noteq> nkey (?ns ! i)}" by auto
qed

lemma TableRemove_spec:
  assumes ok: "table_ok sh t" and key: "key \<noteq> ONull"
  shows "\<exists>t'. TableRemove sh t key = Some t' \<and> table_ok sh t' \<and> tabs t' = (tabs t)(key := None)"
proof -
  have nok: "nodes_ok sh (tnodes t) (firstfree t)" using ok by (simp add: table_ok_def)
  then show ?thesis
  proof (cases rule: Get_node_spec[where key = key])
    case (found i)
    then have u: "used (tnodes t) i" using key by (simp add: used_def)
    define ns' where "ns' = (tnodes t)[i := (tnodes t ! i)\<lparr>nkey := ONull, nval := ONull\<rparr>]"
    define t1 where "t1 = t\<lparr>tnodes := ns', usednodes := usednodes t - 1\<rparr>"
    have ok1: "table_ok sh t1" and e1: "set (entries (tnodes t1)) = {(k, v) \<in> set (entries (tnodes t)). k \<noteq> key}"
      using clear_node_ok[OF ok u] found(3) by (simp_all add: t1_def ns'_def)
    have rem: "TableRemove sh t key = Rehash_f 3 sh False t1"
      using found by (simp add: TableRemove_def Rehash_def t1_def ns'_def)
    have "\<exists>t'. Rehash_f 3 sh False t1 = Some t' \<and> table_ok sh t'
            \<and> set (entries (tnodes t')) = set (entries (tnodes t1))"
    proof (cases "rehash_size False (length (tnodes t1)) (usednodes t1)")
      case None
      with ok1 show ?thesis by (simp add: numeral_3_eq_3)
    next
      case (Some n)
      have "count_used (tnodes t1) \<le> Suc (usednodes t1)" using ok1 by (simp add: table_ok_def)
      from Rehash_spec[OF table_ok_pow2[OF ok1] distinct_entries[OF table_ok_keys[OF ok1]] this
          used_lt_length[OF ok1] Some, where d = 0 and sh = sh]
      show ?thesis unfolding numeral_3_eq_3 by blast
    qed
    then obtain t' where t': "Rehash_f 3 sh False t1 = Some t'" "table_ok sh t'"
      "set (entries (tnodes t')) = set (entries (tnodes t1))" by blast
    have "tabs t' = (tabs t)(key := None)"
      by (rule tabs_eqI[OF t'(2)]) (use t'(3) e1 tabs_entries[OF ok] in auto)
    with rem t' show ?thesis by auto
  next
    case missing
    then have "tabs t key = None"
      using tabs_iff[OF table_ok_keys[OF ok], of key] by (metis not_Some_eq)
    with missing ok show ?thesis by (auto simp: TableRemove_def)
  qed
qed

lemma ClearNodes_entries [simp]: "entries (ClearNodes ns) = []"
  by (simp add: entries_def ClearNodes_def filter_map o_def)

lemma TableClear_spec:
  assumes ok: "table_ok sh t"
  shows "\<exists>t'. TableClear sh t = Some t' \<and> table_ok sh t' \<and> tabs t' = Map.empty"
proof -
  let ?t = "t\<lparr>tnodes := ClearNodes (tnodes t), usednodes := 0\<rparr>"
  have len: "length (ClearNodes (tnodes t)) = length (tnodes t)" by (simp add: ClearNodes_def)
  have p2: "pow2_length (tnodes ?t)" using table_ok_pow2[OF ok] len by (simp add: pow2_length_def)
  obtain n where n: "rehash_size True (length (tnodes ?t)) (usednodes ?t) = Some n"
    using rehash_force by blast
  have c: "count_used (tnodes ?t) \<le> Suc (usednodes ?t)" by (simp flip: length_entries)
  have l: "usednodes ?t < length (tnodes ?t)" using used_lt_length[OF ok] len by auto
  have "\<exists>t'. Rehash_f 3 sh True ?t = Some t' \<and> table_ok sh t' \<and> set (entries (tnodes t')) = {}"
    using Rehash_spec[OF p2 _ c l n, where d = 0 and sh = sh] unfolding numeral_3_eq_3 by (simp del: Rehash_f.simps) blast
  then obtain t' where t': "Rehash_f 3 sh True ?t = Some t'" "table_ok sh t'" "set (entries (tnodes t')) = {}"
    by blast
  then have "tabs t' = Map.empty" by (simp add: tabs_def)
  with t' show ?thesis by (simp add: TableClear_def Rehash_def)
qed

lemma pow2size_spec: "p = 2 ^ k \<Longrightarrow> \<exists>k'. pow2size n p = 2 ^ k' \<and> k \<le> k' \<and> n \<le> 2 ^ k'"
proof (induction n p arbitrary: k rule: pow2size.induct)
  case (1 n p)
  show ?case
  proof (cases "p < n")
    case True
    then obtain k' where "pow2size n (2 * p) = 2 ^ k'" "Suc k \<le> k'" "n \<le> 2 ^ k'"
      using 1(1)[of "Suc k"] 1(2) by auto
    with True 1(2) show ?thesis by (subst pow2size.simps) auto
  next
    case False
    with 1(2) show ?thesis by (subst pow2size.simps) (auto intro!: exI[of _ k])
  qed
qed

lemma CreateTable_spec:
  "table_ok sh (CreateTable n) \<and> tabs (CreateTable n) = Map.empty \<and> n \<le> length (tnodes (CreateTable n))"
proof -
  obtain k where "pow2size n 4 = 2 ^ k" "2 \<le> k" "n \<le> 2 ^ k" using pow2size_spec[where p = 4 and k = 2 and n = n] by auto
  with AllocNodes_ok(1)[where k = k and sh = sh] show ?thesis
    by (simp add: CreateTable_def tabs_def AllocNodes_def)
qed

section \<open>Iteration and cloning\<close>

text \<open>The sequence of entries a loop over \<open>Next\<close> sees.\<close>

function iterate :: "node list \<Rightarrow> nat \<Rightarrow> (gsobj \<times> gsobj) list" where
  "iterate ns i = (case next_from ns i of None \<Rightarrow> [] | Some (j, k, v) \<Rightarrow> (k, v) # iterate ns j)"
  by pat_completeness auto
termination
proof (relation "measure (\<lambda>(ns, i). length ns - i)")
  fix ns :: "node list" and i x j y k v
  assume "next_from ns i = Some x" "(j, y) = x" "(k, v) = y"
  then have "i < j \<and> j \<le> length ns" using next_from_bounds by blast
  then show "((ns, j), ns, i) \<in> measure (\<lambda>(ns, i). length ns - i)" by auto
qed simp

declare iterate.simps [simp del]

lemma entries_Nil [simp]: "entries [] = []"
  by (simp add: entries_def)

lemma entries_drop:
  "i < length ns \<Longrightarrow> entries (drop i ns)
     = (if nkey (ns ! i) = ONull then [] else [(nkey (ns ! i), nval (ns ! i))]) @ entries (drop (Suc i) ns)"
  by (simp add: entries_def flip: Cons_nth_drop_Suc)

lemma next_from_entries:
  "entries (drop i ns) = (case next_from ns i of None \<Rightarrow> [] | Some (j, k, v) \<Rightarrow> (k, v) # entries (drop j ns))"
proof (induction ns i rule: next_from.induct)
  case (1 ns i)
  show ?case
  proof (cases "i < length ns \<and> nkey (ns ! i) = ONull")
    case True
    then have "next_from ns i = next_from ns (i + 1)" by (subst next_from.simps) simp
    with 1 True show ?thesis by (simp add: entries_drop)
  next
    case False
    then show ?thesis
      by (subst next_from.simps) (auto simp: entries_drop)
  qed
qed

lemma iterate_entries: "iterate ns i = entries (drop i ns)"
proof (induction ns i rule: iterate.induct)
  case (1 ns i)
  show ?case
    by (subst iterate.simps, subst next_from_entries) (auto simp: 1 split: option.splits)
qed

lemma clone_from_spec:
  "table_ok sh nt \<Longrightarrow> \<exists>t'. clone_from sh ns i nt = Some t' \<and> table_ok sh t'
      \<and> tabs t' = fold (\<lambda>(k, v) m. m(k \<mapsto> v)) (entries (drop i ns)) (tabs nt)"
proof (induction sh ns i nt rule: clone_from.induct)
  case (1 sh ns i nt)
  show ?case
  proof (cases "next_from ns i")
    case None
    with 1(2) next_from_entries[of i ns] show ?thesis by (subst clone_from.simps) auto
  next
    case (Some x)
    obtain j k v where x: "x = (j, k, v)" by (cases x)
    with Some have "k \<noteq> ONull" using next_from_bounds by blast
    from NewSlot_spec[OF 1(2) this] obtain t1 b
      where t1: "NewSlot sh nt k v = Some (t1, b)" "table_ok sh t1" "tabs t1 = (tabs nt)(k \<mapsto> v)" by blast
    from 1(1)[OF Some x[symmetric] refl t1(1) refl t1(2)] t1 Some x next_from_entries[of i ns]
    show ?thesis by (subst clone_from.simps) (auto simp del: fun_upd_apply)
  qed
qed

lemma fold_upd_map_of:
  "distinct (map fst xs) \<Longrightarrow> fold (\<lambda>(k, v) m. m(k \<mapsto> v)) xs m = m ++ map_of xs"
proof (induction xs arbitrary: m)
  case (Cons x xs)
  obtain k v where x: "x = (k, v)" by (cases x)
  with Cons have "k \<notin> dom (map_of xs)" by (auto simp: dom_map_of_conv_image_fst)
  with Cons x show ?case by (auto simp: map_add_def fun_eq_iff domIff split: option.splits)
qed simp

lemma TableClone_spec:
  assumes ok: "table_ok sh t"
  shows "\<exists>t'. TableClone sh t = Some t' \<and> table_ok sh t' \<and> tabs t' = tabs t"
proof -
  let ?nt = "CreateTable (length (tnodes t))"
  have "table_ok sh ?nt" "tabs ?nt = Map.empty" using CreateTable_spec by auto
  with clone_from_spec[of sh ?nt "tnodes t" 0] obtain t'
    where "clone_from sh (tnodes t) 0 ?nt = Some t'" "table_ok sh t'"
      "tabs t' = fold (\<lambda>(k, v) m. m(k \<mapsto> v)) (entries (tnodes t)) Map.empty" by auto
  with fold_upd_map_of[OF distinct_entries[OF table_ok_keys[OF ok]], of Map.empty]
  show ?thesis by (simp add: TableClone_def tabs_def)
qed

section \<open>The table as a dictionary\<close>

interpretation tbl: dictionary "table_ok sh" "\<lambda>k. k \<noteq> ONull" tabs "realval wk"
    "TableGet sh wk" "NewSlot sh" "TableSet sh" "TableRemove sh" "TableClear sh"
  for sh wk
proof unfold_locales
  show "\<exists>t'. TableSet sh t k v = Some (t', tabs t k \<noteq> None) \<and> table_ok sh t'
      \<and> tabs t' = (if tabs t k = None then tabs t else (tabs t)(k \<mapsto> v))"
    if "table_ok sh t" "k \<noteq> ONull" for t k v
    using TableSet_spec[OF that, of v] by (auto simp: domIff split: if_splits)
  show "\<exists>t' b. NewSlot sh t k v = Some (t', b) \<and> table_ok sh t' \<and> tabs t' = (tabs t)(k \<mapsto> v)"
    if "table_ok sh t" "k \<noteq> ONull" for t k v
    using NewSlot_spec[OF that, of v] by blast
qed (simp_all add: TableGet_spec TableClear_spec TableRemove_spec)

text \<open>One operation of a script on a table, as the virtual machine performs it.\<close>

definition table_step :: "(ptr \<Rightarrow> gshash) \<Rightarrow> table \<Rightarrow> (gsobj, gsobj) dict_op \<Rightarrow> table option" where
  "table_step sh t x = (case x of
      DPut k v \<Rightarrow> map_option fst (NewSlot sh t k v)
    | DSet k v \<Rightarrow> map_option fst (TableSet sh t k v)
    | DDel k \<Rightarrow> TableRemove sh t k
    | DClear \<Rightarrow> TableClear sh t)"

lemma table_step_eq: "table_step sh = tbl.step sh"
  by (intro ext) (simp add: table_step_def tbl.step_def[abs_def])

text \<open>C1: The hash table refines a finite map: any sequence of slot creations, assignments,
  removals and clears on a new table of any initial size, with whatever collisions the hash
  function causes, returns, keeps the invariant, and leaves a table whose lookups are those of
  the map after the same updates.  No chain walk or rehash fails to end.\<close>

theorem table_refines_map:
  assumes "\<forall>x \<in> set xs. op_key x \<noteq> Some ONull"
  shows "\<exists>t. run_ops (table_step sh) (CreateTable n) xs = Some t \<and> table_ok sh t
           \<and> (\<forall>k. TableGet sh wk t k = Some (map_option (realval wk) (fold spec_op xs Map.empty k)))"
proof -
  have ok: "table_ok sh (CreateTable n)" "tabs (CreateTable n) = Map.empty"
    using CreateTable_spec by auto
  have v: "\<forall>x \<in> set xs. \<forall>k. op_key x = Some k \<longrightarrow> k \<noteq> ONull" using assms by auto
  from tbl.run_abs[OF ok(1) v] tbl.lookup_after_run[OF ok(1) v] ok(2) show ?thesis
    by (auto simp: table_step_eq)
qed

lemma table_refines_map_witness:
  "\<exists>t. run_ops (table_step (\<lambda>p. 0)) (CreateTable 0)
         [DPut (OString 8) (OInteger 1), DPut (OString 16) (OInteger 2), DDel (OString 8)] = Some t
     \<and> TableGet (\<lambda>p. 0) (\<lambda>p. ONull) t (OString 16) = Some (Some (OInteger 2))"
  using table_refines_map[of "[DPut (OString 8) (OInteger 1), DPut (OString 16) (OInteger 2), DDel (OString 8)]"
      "\<lambda>p. 0" 0 "\<lambda>p. ONull"]
  by (auto simp: realval_def)

text \<open>Iterating a table with \<open>Next\<close> from null visits every entry exactly once: the pairs
  seen have distinct keys and are the entries of the map, as many as \<open>CountUsed\<close> says.\<close>

theorem Next_visits_each_entry_once:
  assumes "table_ok sh t"
  shows "distinct (map fst (iterate (tnodes t) 0)) \<and> map_of (iterate (tnodes t) 0) = tabs t
           \<and> length (iterate (tnodes t) 0) = usednodes t"
  using assms
  using distinct_entries[OF table_ok_keys[OF assms]] assms
  by (simp add: iterate_entries tabs_def length_entries table_ok_def)

lemma Next_visits_each_entry_once_witness:
  "length (iterate (tnodes (CreateTable 9)) 0) = 0"
  using Next_visits_each_entry_once[of "\<lambda>p. 0" "CreateTable 9"] CreateTable_spec[of "\<lambda>p. 0" 9]
  by (simp add: CreateTable_def AllocNodes_def)

text \<open>\<open>Clone\<close> returns a table with the same map, whatever chains and free slots the
  original has.\<close>

theorem Clone_same_map:
  assumes "table_ok sh t"
  shows "\<exists>t'. TableClone sh t = Some t' \<and> table_ok sh t' \<and> tabs t' = tabs t"
  by (rule TableClone_spec[OF assms])

lemma Clone_same_map_witness:
  "\<exists>t'. TableClone (\<lambda>p. 0) (CreateTable 5) = Some t' \<and> tabs t' = Map.empty"
  using Clone_same_map[of "\<lambda>p. 0" "CreateTable 5"] CreateTable_spec[of "\<lambda>p. 0" 5] by auto

text \<open>The result of \<open>NewSlot\<close> does not say whether the slot is new when the insertion
  fills the table: the fourth key of a four-node table is created, the table is rehashed, and
  false is returned, against the comment in GStable.h.\<close>

theorem NewSlot_result_after_rehash:
  "map_option (\<lambda>t. map_option (\<lambda>(t', created). (tabs t (OInteger 4), created, tabs t' (OInteger 4), length (tnodes t')))
       (NewSlot (\<lambda>p. 0) t (OInteger 4) ONull))
     (run_ops (table_step (\<lambda>p. 0)) (CreateTable 0)
        [DPut (OInteger 1) ONull, DPut (OInteger 2) ONull, DPut (OInteger 3) ONull])
   = Some (Some (None, False, Some ONull, 8))"
  by code_simp

end
