(* ===== verification/GS_VMOps.thy ===== *)
theory GS_VMOps
  imports GS_TableInv
begin

text \<open>
  The operators of the virtual machine (GSvm.cpp): bitwise and arithmetic operations, negation,
  comparison, string conversion, the type checks the compiler emits, and increments.

  An operation returns an outcome and the world.  \<open>Fail\<close> carries what \<open>Raise_Error\<close> stored,
  \<open>Trap\<close> is an integer division the processor refuses.  The world \<open>'w\<close> is everything the
  operators reach through pointers; they use it only through the record \<open>vmops\<close>: delegates and
  metamethods (\<open>callmm\<close> is the call back into the interpreter), string contents and creation,
  and the formats of the C library for floats and pointers.
\<close>

section \<open>Outcomes and the world\<close>

datatype vmerr = ErrStr string | ErrObj gsobj

datatype 'a outcome = Done 'a | Fail vmerr | Trap

datatype GSMetaMethod =
    MT_ADD | MT_SUB | MT_MUL | MT_DIV | MT_UNM | MT_MODULO | MT_SET | MT_GET | MT_TYPEOF
  | MT_NEXTI | MT_CMP | MT_CALL | MT_CLONED | MT_NEWSLOT | MT_DELSLOT | MT_TOSTRING
  | MT_NEWMEMBER | MT_INHERITED

fun mm_name :: "GSMetaMethod \<Rightarrow> string" where
  "mm_name MT_ADD = ''_add''"
| "mm_name MT_SUB = ''_sub''"
| "mm_name MT_MUL = ''_mul''"
| "mm_name MT_DIV = ''_div''"
| "mm_name MT_UNM = ''_unm''"
| "mm_name MT_MODULO = ''_modulo''"
| "mm_name MT_SET = ''_set''"
| "mm_name MT_GET = ''_get''"
| "mm_name MT_TYPEOF = ''_typeof''"
| "mm_name MT_NEXTI = ''_nexti''"
| "mm_name MT_CMP = ''_cmp''"
| "mm_name MT_CALL = ''_call''"
| "mm_name MT_CLONED = ''_cloned''"
| "mm_name MT_NEWSLOT = ''_newslot''"
| "mm_name MT_DELSLOT = ''_delslot''"
| "mm_name MT_TOSTRING = ''_tostring''"
| "mm_name MT_NEWMEMBER = ''_newmember''"
| "mm_name MT_INHERITED = ''_inherited''"

record 'w vmops =
  has_delegate :: "'w \<Rightarrow> gsobj \<Rightarrow> bool"
  GetMetaMethod :: "'w \<Rightarrow> gsobj \<Rightarrow> GSMetaMethod \<Rightarrow> gsobj option"
  callmm :: "gsobj \<Rightarrow> GSMetaMethod \<Rightarrow> gsobj list \<Rightarrow> 'w \<Rightarrow> gsobj outcome \<times> 'w"
  strval :: "'w \<Rightarrow> ptr \<Rightarrow> string"
  mkstr :: "string \<Rightarrow> 'w \<Rightarrow> ptr \<times> 'w"
  fmt_g :: "gsfloat \<Rightarrow> string"
  fmt_p :: "ptr \<Rightarrow> string"

definition GetTypeName :: "gsobj \<Rightarrow> string" where
  "GetTypeName v = (case IdType2Name (type_code (type_of v)) of Some s \<Rightarrow> s | None \<Rightarrow> '''')"

definition is_delegable :: "gsobj \<Rightarrow> bool" where
  "is_delegable v = is_delegable_type (type_of v)"

lemma is_delegable_cases:
  "is_delegable v \<longleftrightarrow> (\<exists>p. v = OTable p) \<or> (\<exists>p. v = OUserData p) \<or> (\<exists>p. v = OInstance p)"
  by (cases v) (simp_all add: is_delegable_def is_delegable_type_def tag_flag_defs)

text \<open>The metamethod a delegable value answers with, if it has a delegate that defines it.\<close>

definition find_mm :: "'w vmops \<Rightarrow> 'w \<Rightarrow> gsobj \<Rightarrow> GSMetaMethod \<Rightarrow> gsobj option" where
  "find_mm W w v mm = (if is_delegable v \<and> has_delegate W w v then GetMetaMethod W w v mm else None)"

section \<open>Bitwise and arithmetic operations\<close>

datatype BitWiseOP = BW_AND | BW_OR | BW_XOR | BW_SHIFTL | BW_SHIFTR | BW_USHIFTR

fun bw_code :: "BitWiseOP \<Rightarrow> int" where
  "bw_code BW_AND = 0"
| "bw_code BW_OR = 2"
| "bw_code BW_XOR = 3"
| "bw_code BW_SHIFTL = 4"
| "bw_code BW_SHIFTR = 5"
| "bw_code BW_USHIFTR = 6"

text \<open>The processor uses the low six bits of a shift count.\<close>

definition shift_count :: "gsint \<Rightarrow> nat" where
  "shift_count i = unat (i AND 63)"

definition BW_OP :: "int \<Rightarrow> gsobj \<Rightarrow> gsobj \<Rightarrow> gsobj outcome" where
  "BW_OP opc o1 o2 =
     (case (o1, o2) of
        (OInteger i1, OInteger i2) \<Rightarrow>
          if opc = bw_code BW_AND then Done (OInteger (i1 AND i2))
          else if opc = bw_code BW_OR then Done (OInteger (i1 OR i2))
          else if opc = bw_code BW_XOR then Done (OInteger (i1 XOR i2))
          else if opc = bw_code BW_SHIFTL then Done (OInteger (push_bit (shift_count i2) i1))
          else if opc = bw_code BW_SHIFTR then Done (OInteger (signed_drop_bit (shift_count i2) i1))
          else if opc = bw_code BW_USHIFTR then Done (OInteger (drop_bit (shift_count i2) i1))
          else Fail (ErrStr ''internal vm error bitwise op failed'')
      | _ \<Rightarrow> Fail (ErrStr (''bitwise op between '' @ [CHR 0x27] @ GetTypeName o1 @ [CHR 0x27]
                           @ '' and '' @ [CHR 0x27] @ GetTypeName o2 @ [CHR 0x27])))"

definition INT_MIN32 :: gsint where
  "INT_MIN32 = - 2147483648"

definition INT64_MIN :: gsint where
  "INT64_MIN = 0x8000000000000000"

text \<open>The signed division instruction: it traps on a zero divisor and on the one quotient that
  does not fit.\<close>

definition idiv :: "gsint \<Rightarrow> gsint \<Rightarrow> gsint option" where
  "idiv a b = (if b = 0 \<or> (a = INT64_MIN \<and> b = -1) then None
               else Some (word_of_int (trunc_div (sint a) (sint b))))"

definition imod :: "gsint \<Rightarrow> gsint \<Rightarrow> gsint option" where
  "imod a b = (if b = 0 \<or> (a = INT64_MIN \<and> b = -1) then None
               else Some (word_of_int (trunc_mod (sint a) (sint b))))"

definition trapping :: "gsint option \<Rightarrow> gsobj outcome" where
  "trapping r = (case r of Some i \<Rightarrow> Done (OInteger i) | None \<Rightarrow> Trap)"

definition arith_int :: "char \<Rightarrow> gsint \<Rightarrow> gsint \<Rightarrow> gsobj outcome" where
  "arith_int opc i1 i2 =
     (if opc = CHR ''+'' then Done (OInteger (i1 + i2))
      else if opc = CHR ''-'' then Done (OInteger (i1 - i2))
      else if opc = CHR ''/'' then
        (if i2 = 0 then Fail (ErrStr ''division by zero'')
         else if i2 = -1 \<and> i1 = INT_MIN32 then Fail (ErrStr ''integer overflow'')
         else trapping (idiv i1 i2))
      else if opc = CHR ''*'' then Done (OInteger (i1 * i2))
      else if opc = CHR ''%'' then
        (if i2 = 0 then Fail (ErrStr ''modulo by zero'')
         else if i2 = -1 \<and> i1 = INT_MIN32 then Done (OInteger 0)
         else trapping (imod i1 i2))
      else Done (OInteger 0xDEADBEEF))"

definition arith_float :: "char \<Rightarrow> gsfloat \<Rightarrow> gsfloat \<Rightarrow> gsfloat" where
  "arith_float opc f1 f2 =
     (if opc = CHR ''+'' then f_add f1 f2
      else if opc = CHR ''-'' then f_sub f1 f2
      else if opc = CHR ''/'' then f_div f1 f2
      else if opc = CHR ''*'' then f_mul f1 f2
      else if opc = CHR ''%'' then f_fmod f1 f2
      else f_of_int 0x0f)"

definition arith_mm :: "char \<Rightarrow> GSMetaMethod" where
  "arith_mm opc =
     (if opc = CHR ''+'' then MT_ADD
      else if opc = CHR ''-'' then MT_SUB
      else if opc = CHR ''/'' then MT_DIV
      else if opc = CHR ''*'' then MT_MUL
      else if opc = CHR ''%'' then MT_MODULO
      else MT_ADD)"

definition ArithMetaMethod ::
    "'w vmops \<Rightarrow> char \<Rightarrow> gsobj \<Rightarrow> gsobj \<Rightarrow> 'w \<Rightarrow> gsobj outcome \<times> 'w" where
  "ArithMetaMethod W opc o1 o2 w =
     (case find_mm W w o1 (arith_mm opc) of
        Some closure \<Rightarrow> callmm W closure (arith_mm opc) [o1, o2] w
      | None \<Rightarrow> (Fail (ErrStr (''arith op '' @ [opc] @ '' on between '' @ [CHR 0x27] @ GetTypeName o1
                 @ [CHR 0x27] @ '' and '' @ [CHR 0x27] @ GetTypeName o2 @ [CHR 0x27])), w))"

section \<open>String conversion\<close>

text \<open>Decimal digits of a natural number, and the signed decimal format of the C library.\<close>

fun dec_digits :: "nat \<Rightarrow> string" where
  "dec_digits n = (if n < 10 then [char_of (48 + n)] else dec_digits (n div 10) @ [char_of (48 + n mod 10)])"

declare dec_digits.simps [simp del]

definition int_dec :: "int \<Rightarrow> string" where
  "int_dec i = (if i < 0 then CHR ''-'' # dec_digits (nat (- i)) else dec_digits (nat i))"

text \<open>\<open>ToString\<close>: the text of a value; the value itself when it is a string.  A delegable value
  whose \<open>_tostring\<close> returns something else than a string falls through to the default text.\<close>

definition default_text :: "'w vmops \<Rightarrow> gsobj \<Rightarrow> string" where
  "default_text W v = ''('' @ GetTypeName v @ '' : 0x'' @ fmt_p W (rawval v) @ '')''"

definition make_string :: "'w vmops \<Rightarrow> string \<Rightarrow> 'w \<Rightarrow> gsobj outcome \<times> 'w" where
  "make_string W s w = (case mkstr W s w of (p, w') \<Rightarrow> (Done (OString p), w'))"

definition ToString :: "'w vmops \<Rightarrow> gsobj \<Rightarrow> 'w \<Rightarrow> gsobj outcome \<times> 'w" where
  "ToString W v w =
     (case v of
        OString p \<Rightarrow> (Done v, w)
      | OFloat f \<Rightarrow> make_string W (fmt_g W f) w
      | OInteger i \<Rightarrow> make_string W (int_dec (sint i)) w
      | OBool b \<Rightarrow> make_string W (if b then ''true'' else ''false'') w
      | ONull \<Rightarrow> make_string W ''null'' w
      | _ \<Rightarrow>
          (case find_mm W w v MT_TOSTRING of
             Some closure \<Rightarrow>
               (case callmm W closure MT_TOSTRING [v] w of
                  (Done r, w') \<Rightarrow>
                    if type_of r = OT_STRING then (Done r, w') else make_string W (default_text W v) w'
                | other \<Rightarrow> other)
           | None \<Rightarrow> make_string W (default_text W v) w))"

definition StringCat :: "'w vmops \<Rightarrow> gsobj \<Rightarrow> gsobj \<Rightarrow> 'w \<Rightarrow> gsobj outcome \<times> 'w" where
  "StringCat W str obj w =
     (case ToString W str w of
        (Done (OString a), w1) \<Rightarrow>
          (case ToString W obj w1 of
             (Done (OString b), w2) \<Rightarrow> make_string W (strval W w2 a @ strval W w2 b) w2
           | other \<Rightarrow> other)
      | other \<Rightarrow> other)"

definition ARITH_OP :: "'w vmops \<Rightarrow> char \<Rightarrow> gsobj \<Rightarrow> gsobj \<Rightarrow> 'w \<Rightarrow> gsobj outcome \<times> 'w" where
  "ARITH_OP W opc o1 o2 w =
     (case (o1, o2) of
        (OInteger i1, OInteger i2) \<Rightarrow> (arith_int opc i1 i2, w)
      | _ \<Rightarrow>
        if is_numeric o1 \<and> is_numeric o2 then (Done (OFloat (arith_float opc (tofloat o1) (tofloat o2))), w)
        else if opc = CHR ''+'' \<and> (type_of o1 = OT_STRING \<or> type_of o2 = OT_STRING)
        then StringCat W o1 o2 w
        else ArithMetaMethod W opc o1 o2 w)"

text \<open>The inlined fast paths of the interpreter loop: \<open>_ARITH_\<close> for addition, subtraction and
  multiplication, \<open>_ARITH_NOZERO\<close> for division.\<close>

definition ARITH_fast :: "'w vmops \<Rightarrow> char \<Rightarrow> gsobj \<Rightarrow> gsobj \<Rightarrow> 'w \<Rightarrow> gsobj outcome \<times> 'w" where
  "ARITH_fast W opc o1 o2 w =
     (case (o1, o2) of
        (OInteger i1, OInteger i2) \<Rightarrow>
          (Done (OInteger (if opc = CHR ''+'' then i1 + i2 else if opc = CHR ''-'' then i1 - i2 else i1 * i2)), w)
      | _ \<Rightarrow>
        if is_numeric o1 \<and> is_numeric o2 then
          (Done (OFloat (if opc = CHR ''+'' then f_add (tofloat o1) (tofloat o2)
                         else if opc = CHR ''-'' then f_sub (tofloat o1) (tofloat o2)
                         else f_mul (tofloat o1) (tofloat o2))), w)
        else ARITH_OP W opc o1 o2 w)"

definition DIV_fast :: "'w vmops \<Rightarrow> gsobj \<Rightarrow> gsobj \<Rightarrow> 'w \<Rightarrow> gsobj outcome \<times> 'w" where
  "DIV_fast W o1 o2 w =
     (case (o1, o2) of
        (OInteger i1, OInteger i2) \<Rightarrow>
          (if i2 = 0 then Fail (ErrStr ''division by zero'') else trapping (idiv i1 i2), w)
      | _ \<Rightarrow>
        if is_numeric o1 \<and> is_numeric o2 then (Done (OFloat (f_div (tofloat o1) (tofloat o2))), w)
        else ARITH_OP W CHR ''/'' o1 o2 w)"

definition NEG_OP :: "'w vmops \<Rightarrow> gsobj \<Rightarrow> 'w \<Rightarrow> gsobj outcome \<times> 'w" where
  "NEG_OP W v w =
     (case v of
        OInteger i \<Rightarrow> (Done (OInteger (- i)), w)
      | OFloat f \<Rightarrow> (Done (OFloat (f_neg f)), w)
      | _ \<Rightarrow>
          (case find_mm W w v MT_UNM of
             Some closure \<Rightarrow> callmm W closure MT_UNM [v] w
           | None \<Rightarrow> (Fail (ErrStr (''attempt to negate a '' @ GetTypeName v)), w)))"

section \<open>Comparison\<close>

text \<open>\<open>strcmp\<close> compares the bytes as unsigned values up to the first zero byte; only the sign
  of its result is defined, here it is -1, 0 or 1.\<close>

fun c_strcmp :: "string \<Rightarrow> string \<Rightarrow> int" where
  "c_strcmp [] [] = 0"
| "c_strcmp [] (b # bs) = (if of_char b = (0 :: nat) then 0 else -1)"
| "c_strcmp (a # as) [] = (if of_char a = (0 :: nat) then 0 else 1)"
| "c_strcmp (a # as) (b # bs) =
     (if (of_char a :: nat) < of_char b then -1
      else if (of_char b :: nat) < of_char a then 1
      else if of_char a = (0 :: nat) then 0
      else c_strcmp as bs)"

definition ObjCmp :: "'w vmops \<Rightarrow> gsobj \<Rightarrow> gsobj \<Rightarrow> 'w \<Rightarrow> gsint outcome \<times> 'w" where
  "ObjCmp W o1 o2 w =
     (if type_of o1 = type_of o2 then
        (if rawval o1 = rawval o2 then (Done 0, w)
         else case (o1, o2) of
             (OString p, OString q) \<Rightarrow> (Done (word_of_int (c_strcmp (strval W w p) (strval W w q))), w)
           | (OInteger i, OInteger j) \<Rightarrow> (Done (if i <s j then -1 else 1), w)
           | (OFloat f, OFloat g) \<Rightarrow> (Done (if f_lt f g then -1 else 1), w)
           | _ \<Rightarrow>
               (case find_mm W w o1 MT_CMP of
                  Some closure \<Rightarrow>
                    (case callmm W closure MT_CMP [o1, o2] w of
                       (Done r, w') \<Rightarrow>
                         (case r of OInteger i \<Rightarrow> (Done i, w')
                          | _ \<Rightarrow> (Fail (ErrStr ''_cmp must return an integer''), w'))
                     | (Fail e, w') \<Rightarrow> (Fail e, w')
                     | (Trap, w') \<Rightarrow> (Trap, w'))
                | None \<Rightarrow> (Done (if rawval o1 < rawval o2 then -1 else 1), w)))
      else if is_numeric o1 \<and> is_numeric o2 then
        (Done (if f_eq (tofloat o1) (tofloat o2) then 0
               else if f_lt (tofloat o1) (tofloat o2) then -1 else 1), w)
      else if o1 = ONull then (Done (-1), w)
      else if o2 = ONull then (Done 1, w)
      else (Fail (ErrStr (''comparison between '' @ [CHR 0x27] @ GetTypeName o1 @ [CHR 0x27] @ '' and ''
                  @ [CHR 0x27] @ GetTypeName o2 @ [CHR 0x27])), w))"

datatype CmpOP = CMP_G | CMP_GE | CMP_L | CMP_LE | CMP_3W

definition cmp_result :: "CmpOP \<Rightarrow> gsint \<Rightarrow> gsobj" where
  "cmp_result opc r =
     (case opc of
        CMP_G \<Rightarrow> OBool (0 <s r)
      | CMP_GE \<Rightarrow> OBool (0 <=s r)
      | CMP_L \<Rightarrow> OBool (r <s 0)
      | CMP_LE \<Rightarrow> OBool (r <=s 0)
      | CMP_3W \<Rightarrow> OInteger r)"

definition CMP_OP :: "'w vmops \<Rightarrow> CmpOP \<Rightarrow> gsobj \<Rightarrow> gsobj \<Rightarrow> 'w \<Rightarrow> gsobj outcome \<times> 'w" where
  "CMP_OP W opc o1 o2 w =
     (case ObjCmp W o1 o2 w of
        (Done r, w') \<Rightarrow> (Done (cmp_result opc r), w')
      | (Fail e, w') \<Rightarrow> (Fail e, w')
      | (Trap, w') \<Rightarrow> (Trap, w'))"

definition TypeOf :: "'w vmops \<Rightarrow> gsobj \<Rightarrow> 'w \<Rightarrow> gsobj outcome \<times> 'w" where
  "TypeOf W v w =
     (case find_mm W w v MT_TYPEOF of
        Some closure \<Rightarrow> callmm W closure MT_TYPEOF [v] w
      | None \<Rightarrow> make_string W (GetTypeName v) w)"

section \<open>Declared types\<close>

text \<open>The tokens that name types (GScompiler.h), as the type checks use them.\<close>

datatype typetok = TK_INT | TK_FLOAT | TK_STRING | TK_BOOL | TK_VOID | TK_IDENTIFIER

definition declared_ok :: "typetok \<Rightarrow> gsobj \<Rightarrow> bool" where
  "declared_ok tok v =
     (case tok of
        TK_INT \<Rightarrow> type_of v = OT_INTEGER
      | TK_FLOAT \<Rightarrow> type_of v = OT_FLOAT \<or> type_of v = OT_INTEGER
      | TK_STRING \<Rightarrow> type_of v = OT_STRING
      | TK_BOOL \<Rightarrow> type_of v = OT_BOOL
      | TK_IDENTIFIER \<Rightarrow> True
      | TK_VOID \<Rightarrow> False)"

text \<open>The check of \<open>_OP_RETURN\<close>: \<open>rettype\<close> None is the 0 of a function without a declared
  type; \<open>has_value\<close> is \<open>arg0 != 0xFF\<close>.\<close>

definition check_return :: "typetok option \<Rightarrow> bool \<Rightarrow> gsobj \<Rightarrow> unit outcome" where
  "check_return rettype has_value v =
     (case rettype of
        None \<Rightarrow> Done ()
      | Some tok \<Rightarrow>
          if \<not> has_value then Done ()
          else if tok = TK_VOID then
            (if type_of v \<noteq> OT_NULL
             then Fail (ErrStr (''type mismatch: a '' @ [CHR 0x27] @ ''void'' @ [CHR 0x27] @ '' function cannot return a value'')) else Done ())
          else if declared_ok tok v then Done ()
          else Fail (ErrStr ''type mismatch: function declared return type does not match returned value''))"

text \<open>The array of a typed declaration: capacity and element type are -1 when unset.\<close>

record gsarray =
  avalues :: "gsobj list"
  max_capacity :: int
  element_type :: "typetok option"

text \<open>\<open>_OP_TYPECHECK\<close> on an array: \<open>arr_size\<close> is the unsigned char \<open>arg2\<close>.\<close>

definition first_bad :: "typetok \<Rightarrow> gsobj list \<Rightarrow> nat option" where
  "first_bad tok vs = (case filter (\<lambda>i. \<not> declared_ok tok (vs ! i)) [0..<length vs] of [] \<Rightarrow> None | i # _ \<Rightarrow> Some i)"

definition TYPECHECK_array :: "typetok \<Rightarrow> 8 word \<Rightarrow> gsarray \<Rightarrow> unit outcome \<times> gsarray" where
  "TYPECHECK_array tok arg2 a =
     (let arr_size = uint arg2;
          a1 = (if 0 < arr_size \<and> max_capacity a = -1 then a\<lparr>max_capacity := arr_size\<rparr> else a)
      in if 0 < arr_size \<and> arr_size < int (length (avalues a1))
         then (Fail (ErrStr (''type mismatch: array literal exceeds strict fixed size of '' @ int_dec arr_size)), a1)
         else
           let a2 = (if element_type a1 = None then a1\<lparr>element_type := Some tok\<rparr> else a1)
           in (case first_bad tok (avalues a2) of
                 Some i \<Rightarrow> (Fail (ErrStr (''type mismatch: array element at index '' @ int_dec (int i)
                                   @ '' does not match expected type'')), a2)
               | None \<Rightarrow> (Done (), a2)))"

definition TYPECHECK_value :: "typetok \<Rightarrow> gsobj \<Rightarrow> unit outcome" where
  "TYPECHECK_value tok v =
     (if declared_ok tok v then Done () else Fail (ErrStr ''strict type mismatch: invalid assignment''))"

definition MATCHTYPES :: "gsobj \<Rightarrow> gsobj \<Rightarrow> unit outcome" where
  "MATCHTYPES v1 v2 =
     (if type_of v1 \<noteq> type_of v2
      then Fail (ErrStr ''strict type mismatch: generic parameters bound to the same type must match'')
      else Done ())"

section \<open>Laws of the operators\<close>

lemma is_numeric_simps [simp]:
  "is_numeric (OInteger i)" "is_numeric (OFloat f)" "\<not> is_numeric ONull" "\<not> is_numeric (OString p)"
  "\<not> is_numeric (OBool b)"
  by (auto simp: is_numeric_cases)

text \<open>C29: Integer division and remainder of a script agree with each other: whenever the divisor
  is not zero and the pair is not one of the two overflow pairs the code knows or the machine
  traps on, both return, and quotient times divisor plus remainder is the dividend, with a
  remainder smaller than the divisor and of the dividend's sign.\<close>

theorem int_div_mod_law:
  assumes "i2 \<noteq> 0" "i2 = -1 \<longrightarrow> i1 \<noteq> INT_MIN32 \<and> i1 \<noteq> INT64_MIN"
  shows "\<exists>q r. ARITH_OP W CHR ''/'' (OInteger i1) (OInteger i2) w = (Done (OInteger q), w)
     \<and> ARITH_OP W CHR ''%'' (OInteger i1) (OInteger i2) w = (Done (OInteger r), w)
     \<and> q * i2 + r = i1 \<and> \<bar>sint r\<bar> < \<bar>sint i2\<bar> \<and> (0 \<le> sint i1 \<longrightarrow> 0 \<le> sint r)"
proof -
  define a b where "a = sint i1" and "b = sint i2"
  have b0: "b \<noteq> 0" using assms(1) signed_word_eqI[of i2 0] by (auto simp: b_def)
  have r: "\<bar>trunc_mod a b\<bar> < \<bar>b\<bar>" by (rule trunc_mod_bound[OF b0])
  have bb: "- (2 ^ 63) \<le> b" "b < 2 ^ 63"
    using sint_greater_eq[of i2] sint_less[of i2] by (simp_all add: b_def)
  then have rr: "sint (word_of_int (trunc_mod a b) :: gsint) = trunc_mod a b"
    using r by (simp add: sint_sbintrunc' signed_take_bit_int_eq_self)
  have "(word_of_int (trunc_div a b) :: gsint) * i2 + word_of_int (trunc_mod a b)
      = word_of_int (trunc_div a b * b + trunc_mod a b)"
    by (simp add: b_def)
  also have "\<dots> = i1" by (simp add: trunc_div_mod[OF b0] a_def)
  finally have eq: "(word_of_int (trunc_div a b) :: gsint) * i2 + word_of_int (trunc_mod a b) = i1" .
  have "idiv i1 i2 = Some (word_of_int (trunc_div a b))" "imod i1 i2 = Some (word_of_int (trunc_mod a b))"
    using assms by (auto simp: idiv_def imod_def a_def b_def)
  then have "ARITH_OP W CHR ''/'' (OInteger i1) (OInteger i2) w = (Done (OInteger (word_of_int (trunc_div a b))), w)"
    "ARITH_OP W CHR ''%'' (OInteger i1) (OInteger i2) w = (Done (OInteger (word_of_int (trunc_mod a b))), w)"
    using assms by (auto simp: ARITH_OP_def arith_int_def trapping_def)
  moreover have "0 \<le> a \<Longrightarrow> 0 \<le> trunc_mod a b" by (rule trunc_mod_sign[OF b0])
  ultimately show ?thesis using eq rr r by (auto simp: a_def b_def)
qed

lemma int_div_mod_law_witness:
  "\<forall>W :: unit vmops. \<exists>q r. ARITH_OP W CHR ''/'' (OInteger (- 7)) (OInteger 2) () = (Done (OInteger q), ()) \<and> q * 2 + r = - 7"
  proof
  fix W :: "unit vmops"
  show "\<exists>q r. ARITH_OP W CHR ''/'' (OInteger (- 7)) (OInteger 2) () = (Done (OInteger q), ()) \<and> q * 2 + r = - 7"
    using int_div_mod_law[of 2 "- 7" W "()"] by fastforce
qed

text \<open>The overflow guard of the division tests the smallest 32-bit integer on 64-bit values:
  -2147483648 / -1, which is representable, is refused as an overflow, and the quotient that
  does overflow, of the smallest 64-bit integer by -1, is not caught and traps.\<close>

theorem div_overflow_guard_is_32_bit:
  "ARITH_OP W CHR ''/'' (OInteger INT_MIN32) (OInteger (-1)) w = (Fail (ErrStr ''integer overflow''), w)
   \<and> ARITH_OP W CHR ''/'' (OInteger INT64_MIN) (OInteger (-1)) w = (Trap, w)
   \<and> idiv INT_MIN32 (-1) = Some 2147483648"
proof -
  have "INT64_MIN \<noteq> INT_MIN32" by (simp add: INT64_MIN_def INT_MIN32_def)
  moreover have "idiv INT_MIN32 (-1) = Some 2147483648" by code_simp
  ultimately show ?thesis by (simp add: ARITH_OP_def arith_int_def idiv_def trapping_def)
qed

text \<open>The fast paths inlined in the interpreter loop compute what the general operator does,
  for all operands and whatever metamethods do; the division differs only at the pair the
  general operator reports as an overflow.\<close>

theorem fast_arith_equiv:
  "(opc \<in> {CHR ''+'', CHR ''-'', CHR ''*''} \<longrightarrow> ARITH_fast W opc o1 o2 w = ARITH_OP W opc o1 o2 w)
   \<and> ((o1, o2) \<noteq> (OInteger INT_MIN32, OInteger (-1))
        \<longrightarrow> DIV_fast W o1 o2 w = ARITH_OP W CHR ''/'' o1 o2 w)"
  by (auto simp: ARITH_fast_def DIV_fast_def ARITH_OP_def arith_int_def arith_float_def
      split: gsobj.splits)

lemma fast_arith_equiv_witness:
  "\<forall>W :: unit vmops. ARITH_fast W CHR ''+'' (OInteger 2) (OInteger 3) () = (Done (OInteger 5), ())"
  using fast_arith_equiv[of "CHR ''+''" _ "OInteger 2" "OInteger 3" "()"]
  by (simp add: ARITH_OP_def arith_int_def)

text \<open>Comparison of integers: all five comparison operators follow the signed order and no
  metamethod runs.\<close>

theorem CMP_OP_integers:
  "CMP_OP W CMP_L (OInteger i) (OInteger j) w = (Done (OBool (sint i < sint j)), w)
   \<and> CMP_OP W CMP_LE (OInteger i) (OInteger j) w = (Done (OBool (sint i \<le> sint j)), w)
   \<and> CMP_OP W CMP_G (OInteger i) (OInteger j) w = (Done (OBool (sint j < sint i)), w)
   \<and> CMP_OP W CMP_GE (OInteger i) (OInteger j) w = (Done (OBool (sint j \<le> sint i)), w)
   \<and> CMP_OP W CMP_3W (OInteger i) (OInteger j) w
      = (Done (OInteger (if i = j then 0 else if sint i < sint j then -1 else 1)), w)"
proof -
  have ne: "i \<noteq> j \<Longrightarrow> sint i \<noteq> sint j" using signed_word_eqI by blast
  show ?thesis
    using ne
    by (cases "i = j")
       (auto simp: CMP_OP_def ObjCmp_def cmp_result_def word_sless_alt word_sle_eq)
qed

text \<open>Order and equality disagree on the two zeros: they are equal for \<open>==\<close>, but the
  three-way comparison says 1 in both directions, so neither is less and neither is equal.\<close>

theorem zeros_equal_but_ordered:
  "IsEqual (OFloat 0) (OFloat 0x80000000)
   \<and> ObjCmp W (OFloat 0) (OFloat 0x80000000) w = (Done 1, w)
   \<and> ObjCmp W (OFloat 0x80000000) (OFloat 0) w = (Done 1, w)"
proof -
  have "f_eq 0 0x80000000" "\<not> f_lt 0 0x80000000" "\<not> f_lt 0x80000000 0" by code_simp+
  then show ?thesis by (simp add: IsEqual_def ObjCmp_def)
qed

end
