(* ===== verification/GS_Array.thy ===== *)
theory GS_Array
  imports GS_VMOps GS_TableInv
begin

text \<open>
  Arrays (GSarray.h, \<open>GSArray::Append\<close> and \<open>Extend\<close>, the array functions of GSapi.cpp and
  GSbaselib.cpp).  The record \<open>gsarray\<close> of GS_VMOps has the elements, the capacity a typed
  declaration fixed (-1 when none) and the element type (None for -1).  The memory management of
  the element vector is GS_Vector's; here the elements are a list.

  Functions that call a script closure take it as an argument \<open>call\<close>, which may fail and change
  the world; \<open>rd\<close> reads the elements the source array has at that moment.
\<close>

section \<open>Element access\<close>

definition ArrayCreate :: "nat \<Rightarrow> gsarray" where
  "ArrayCreate n = \<lparr>avalues = replicate n ONull, max_capacity = -1, element_type = None\<rparr>"

definition ArrayGet :: "(ptr \<Rightarrow> gsobj) \<Rightarrow> gsarray \<Rightarrow> gsint \<Rightarrow> gsobj option" where
  "ArrayGet wk a nidx =
     (if 0 \<le> sint nidx \<and> sint nidx < int (length (avalues a))
      then Some (realval wk (avalues a ! nat (sint nidx))) else None)"

definition ArraySet :: "gsarray \<Rightarrow> gsint \<Rightarrow> gsobj \<Rightarrow> gsarray option" where
  "ArraySet a nidx v =
     (if 0 \<le> sint nidx \<and> sint nidx < int (length (avalues a))
      then Some (a\<lparr>avalues := (avalues a)[nat (sint nidx) := v]\<rparr>) else None)"

definition ArrayNext :: "(ptr \<Rightarrow> gsobj) \<Rightarrow> gsarray \<Rightarrow> gsobj \<Rightarrow> (nat \<times> gsobj \<times> gsobj) option" where
  "ArrayNext wk a refpos =
     (let idx = unat (TranslateIndex refpos) in
      if idx < length (avalues a)
      then Some (idx + 1, OInteger (of_nat idx), realval wk (avalues a ! idx)) else None)"

definition ArrayClone :: "gsarray \<Rightarrow> gsarray" where
  "ArrayClone a = (ArrayCreate 0)\<lparr>avalues := avalues a\<rparr>"

definition ArrayResize :: "gsarray \<Rightarrow> nat \<Rightarrow> gsobj \<Rightarrow> gsarray" where
  "ArrayResize a n fill =
     a\<lparr>avalues := take n (avalues a) @ replicate (n - length (avalues a)) fill\<rparr>"

text \<open>\<open>Append\<close> with a virtual machine to report to; without one the same test, no message.\<close>

definition ArrayAppend :: "gsarray \<Rightarrow> gsobj \<Rightarrow> gsarray outcome" where
  "ArrayAppend a v =
     (if max_capacity a \<noteq> -1 \<and> nat (max_capacity a) \<le> length (avalues a)
      then Fail (ErrStr (''array bounds exceeded: attempted to push element ''
                 @ int_dec (int (length (avalues a)) + 1) @ '' into a fixed array of size '' @ int_dec (max_capacity a)))
      else case element_type a of
             None \<Rightarrow> Done (a\<lparr>avalues := avalues a @ [v]\<rparr>)
           | Some tok \<Rightarrow>
               if declared_ok tok v then Done (a\<lparr>avalues := avalues a @ [v]\<rparr>)
               else Fail (ErrStr ''strict type mismatch: attempted to append invalid type to array''))"

definition try_append :: "gsobj \<Rightarrow> gsarray \<Rightarrow> gsarray" where
  "try_append v a = (case ArrayAppend a v of Done a' \<Rightarrow> a' | _ \<Rightarrow> a)"

definition ArrayExtend :: "gsarray \<Rightarrow> gsarray \<Rightarrow> gsarray" where
  "ArrayExtend a b = fold try_append (avalues b) a"

definition ArrayInsert :: "gsarray \<Rightarrow> gsint \<Rightarrow> gsobj \<Rightarrow> gsarray option" where
  "ArrayInsert a idx v =
     (if sint idx < 0 \<or> int (length (avalues a)) < sint idx then None
      else Some (a\<lparr>avalues := take (nat (sint idx)) (avalues a) @ v # drop (nat (sint idx)) (avalues a)\<rparr>))"

definition ArrayRemove :: "gsarray \<Rightarrow> gsint \<Rightarrow> gsarray option" where
  "ArrayRemove a idx =
     (if sint idx < 0 \<or> int (length (avalues a)) \<le> sint idx then None
      else Some (a\<lparr>avalues := take (nat (sint idx)) (avalues a) @ drop (nat (sint idx) + 1) (avalues a)\<rparr>))"

section \<open>Library functions\<close>

definition array_pop :: "gsarray \<Rightarrow> (gsarray \<times> gsobj) outcome" where
  "array_pop a =
     (if avalues a \<noteq> [] then Done (a\<lparr>avalues := butlast (avalues a)\<rparr>, last (avalues a))
      else Fail (ErrStr ''empty array''))"

definition array_top :: "gsarray \<Rightarrow> gsobj outcome" where
  "array_top a =
     (if avalues a \<noteq> [] then Done (last (avalues a)) else Fail (ErrStr ''top() on a empty array''))"

text \<open>\<open>GS_arrayreverse\<close>: \<open>n\<close> swaps of element i with element size - 1 - i.\<close>

fun reverse_loop :: "nat \<Rightarrow> nat \<Rightarrow> gsobj list \<Rightarrow> gsobj list" where
  "reverse_loop 0 i xs = xs"
| "reverse_loop (Suc n) i xs =
     reverse_loop n (i + 1) (xs[i := xs ! (length xs - 1 - i), length xs - 1 - i := xs ! i])"

definition array_reverse :: "gsarray \<Rightarrow> gsarray" where
  "array_reverse a =
     (if avalues a \<noteq> [] then a\<lparr>avalues := reverse_loop (length (avalues a) div 2) 0 (avalues a)\<rparr> else a)"

definition array_insert :: "gsarray \<Rightarrow> gsobj \<Rightarrow> gsobj \<Rightarrow> gsarray outcome" where
  "array_insert a idx v =
     (case ArrayInsert a (tointeger idx) v of
        Some a' \<Rightarrow> Done a' | None \<Rightarrow> Fail (ErrStr ''index out of range''))"

definition array_remove :: "(ptr \<Rightarrow> gsobj) \<Rightarrow> gsarray \<Rightarrow> gsobj \<Rightarrow> (gsarray \<times> gsobj) outcome" where
  "array_remove wk a idx =
     (if \<not> is_numeric idx then Fail (ErrStr ''wrong type'')
      else case ArrayGet wk a (tointeger idx) of
             Some v \<Rightarrow>
               (case ArrayRemove a (tointeger idx) of Some a' \<Rightarrow> Done (a', v) | None \<Rightarrow> Done (a, v))
           | None \<Rightarrow> Fail (ErrStr ''idx out of range''))"

definition array_resize :: "gsarray \<Rightarrow> gsobj \<Rightarrow> gsobj option \<Rightarrow> gsarray outcome" where
  "array_resize a nsize fill =
     (if is_numeric nsize then
        (let sz = sint (tointeger nsize) in
         if sz < 0 then Fail (ErrStr ''resizing to negative length'')
         else Done (ArrayResize a (nat sz) (case fill of Some f \<Rightarrow> f | None \<Rightarrow> ONull)))
      else Fail (ErrStr ''size must be a number''))"

text \<open>\<open>get_slice_params\<close>: the arguments after the array, with their defaults.\<close>

definition get_slice_params :: "gsobj list \<Rightarrow> nat \<Rightarrow> int \<times> int" where
  "get_slice_params args len =
     (case args of
        [] \<Rightarrow> (0, int len)
      | [s] \<Rightarrow> (if is_numeric s then sint (tointeger s) else 0, int len)
      | s # e # _ \<Rightarrow> (if is_numeric s then sint (tointeger s) else 0,
                      if is_numeric e then sint (tointeger e) else 0))"

definition slice_bounds :: "int \<Rightarrow> int \<Rightarrow> int \<Rightarrow> (nat \<times> nat) outcome" where
  "slice_bounds len sidx0 eidx0 =
     (let sidx = (if sidx0 < 0 then len + sidx0 else sidx0);
          eidx = (if eidx0 < 0 then len + eidx0 else eidx0)
      in if eidx < sidx then Fail (ErrStr ''wrong indexes'')
         else if len < eidx \<or> sidx < 0 then Fail (ErrStr ''slice out of range'')
         else Done (nat sidx, nat eidx))"

text \<open>The copy loop of \<open>array_slice\<close>.\<close>

definition array_slice :: "(ptr \<Rightarrow> gsobj) \<Rightarrow> gsarray \<Rightarrow> gsobj list \<Rightarrow> gsarray outcome" where
  "array_slice wk a args =
     (case get_slice_params args (length (avalues a)) of (s0, e0) \<Rightarrow>
        (case slice_bounds (int (length (avalues a))) s0 e0 of
           Done (s, e) \<Rightarrow>
             Done (fold (\<lambda>i arr. arr\<lparr>avalues := (avalues arr)[i - s := realval wk (avalues a ! i)]\<rparr>)
                     [s..<e] (ArrayCreate (e - s)))
         | Fail x \<Rightarrow> Fail x
         | Trap \<Rightarrow> Trap))"

type_synonym 'w closure_call = "gsobj list \<Rightarrow> 'w \<Rightarrow> gsobj outcome \<times> 'w"

text \<open>\<open>__map_array\<close> from element \<open>n\<close>: \<open>temp\<close> keeps its value when the source has shrunk; \<open>args\<close>
  is the list of arguments the parameter count of the closure selects; \<open>put\<close> stores a result
  into the destination (out of range it does nothing).\<close>

function map_loop ::
    "'w closure_call \<Rightarrow> ('w \<Rightarrow> gsobj list) \<Rightarrow> (nat \<Rightarrow> gsobj \<Rightarrow> 'w \<Rightarrow> 'w) \<Rightarrow> (gsobj \<Rightarrow> nat \<Rightarrow> gsobj list)
      \<Rightarrow> nat \<Rightarrow> nat \<Rightarrow> gsobj \<Rightarrow> 'w \<Rightarrow> unit outcome \<times> 'w" where
  "map_loop call rd put args n len temp w =
     (if n < len then
        (let temp' = (if n < length (rd w) then rd w ! n else temp) in
         case call (args temp' n) w of
           (Done r, w') \<Rightarrow> map_loop call rd put args (n + 1) len temp' (put n r w')
         | (Fail e, w') \<Rightarrow> (Fail e, w')
         | (Trap, w') \<Rightarrow> (Trap, w'))
      else (Done (), w))"
  by pat_completeness auto
termination by (relation "measure (\<lambda>(call, rd, put, args, n, len, temp, w). len - n)") auto

declare map_loop.simps [simp del]

text \<open>The values pushed for a closure with \<open>nArgs\<close> parameters (this, the element, the index,
  the array); the call takes the last \<open>nArgs\<close> of them.  A closure with more than four parameters
  reads below them on the stack and is not modelled.\<close>

definition map_args :: "nat \<Rightarrow> gsobj \<Rightarrow> gsobj \<Rightarrow> nat \<Rightarrow> gsobj list" where
  "map_args nArgs src temp n =
     (let pushed = [src, temp] @ (if 3 \<le> nArgs then [OInteger (of_nat n)] else [])
                   @ (if 4 \<le> nArgs then [src] else [])
      in drop (length pushed - nArgs) pushed)"

function reduce_loop ::
    "'w closure_call \<Rightarrow> ('w \<Rightarrow> gsobj list) \<Rightarrow> gsobj \<Rightarrow> nat \<Rightarrow> nat \<Rightarrow> gsobj \<Rightarrow> gsobj \<Rightarrow> 'w \<Rightarrow> gsobj outcome \<times> 'w" where
  "reduce_loop call rd self n len other res w =
     (if n < len then
        (let other' = (if n < length (rd w) then rd w ! n else other) in
         case call [self, res, other'] w of
           (Done r, w') \<Rightarrow> reduce_loop call rd self (n + 1) len other' r w'
         | (Fail e, w') \<Rightarrow> (Fail e, w')
         | (Trap, w') \<Rightarrow> (Trap, w'))
      else (Done res, w))"
  by pat_completeness auto
termination by (relation "measure (\<lambda>(call, rd, self, n, len, other, res, w). len - n)") auto

declare reduce_loop.simps [simp del]

text \<open>\<open>array_reduce\<close>: no value at all (None) for an empty array without a start value.\<close>

definition array_reduce ::
    "'w closure_call \<Rightarrow> ('w \<Rightarrow> gsobj list) \<Rightarrow> gsobj \<Rightarrow> gsobj option \<Rightarrow> 'w \<Rightarrow> gsobj option outcome \<times> 'w" where
  "array_reduce call rd self start w =
     (let len = length (rd w) in
      case (case start of
              Some s \<Rightarrow> Some (reduce_loop call rd self 0 len ONull s w)
            | None \<Rightarrow> if len = 0 then None else Some (reduce_loop call rd self 1 len ONull (rd w ! 0) w)) of
        None \<Rightarrow> (Done None, w)
      | Some (Done r, w') \<Rightarrow> (Done (Some r), w')
      | Some (Fail e, w') \<Rightarrow> (Fail e, w')
      | Some (Trap, w') \<Rightarrow> (Trap, w'))"

function filter_loop ::
    "'w closure_call \<Rightarrow> ('w \<Rightarrow> gsobj list) \<Rightarrow> gsobj \<Rightarrow> nat \<Rightarrow> nat \<Rightarrow> gsobj \<Rightarrow> gsarray \<Rightarrow> 'w \<Rightarrow> gsarray outcome \<times> 'w" where
  "filter_loop call rd self n len val ret w =
     (if n < len then
        (let val' = (if n < length (rd w) then rd w ! n else val) in
         case call [self, OInteger (of_nat n), val'] w of
           (Done r, w') \<Rightarrow>
             filter_loop call rd self (n + 1) len val' (if IsFalse r then ret else try_append val' ret) w'
         | (Fail e, w') \<Rightarrow> (Fail e, w')
         | (Trap, w') \<Rightarrow> (Trap, w'))
      else (Done ret, w))"
  by pat_completeness auto
termination by (relation "measure (\<lambda>(call, rd, self, n, len, val, ret, w). len - n)") auto

declare filter_loop.simps [simp del]

definition array_filter ::
    "'w closure_call \<Rightarrow> ('w \<Rightarrow> gsobj list) \<Rightarrow> gsobj \<Rightarrow> 'w \<Rightarrow> gsarray outcome \<times> 'w" where
  "array_filter call rd self w = filter_loop call rd self 0 (length (rd w)) ONull (ArrayCreate 0) w"

definition array_find :: "(ptr \<Rightarrow> gsobj) \<Rightarrow> gsarray \<Rightarrow> gsobj \<Rightarrow> nat option" where
  "array_find wk a v =
     (case filter (\<lambda>n. IsEqual (realval wk (avalues a ! n)) v) [0..<length (avalues a)] of
        [] \<Rightarrow> None | n # _ \<Rightarrow> Some n)"

section \<open>Typed arrays\<close>

definition typed_ok :: "gsarray \<Rightarrow> bool" where
  "typed_ok a =
     ((max_capacity a \<noteq> -1 \<longrightarrow> 0 \<le> max_capacity a \<and> int (length (avalues a)) \<le> max_capacity a)
      \<and> (case element_type a of None \<Rightarrow> True | Some tok \<Rightarrow> list_all (declared_ok tok) (avalues a)))"

lemma first_bad_None: "first_bad tok vs = None \<longleftrightarrow> list_all (declared_ok tok) vs"
proof -
  have "first_bad tok vs = None \<longleftrightarrow> filter (\<lambda>i. \<not> declared_ok tok (vs ! i)) [0..<length vs] = []"
    by (auto simp: first_bad_def split: list.splits)
  also have "\<dots> \<longleftrightarrow> (\<forall>i < length vs. declared_ok tok (vs ! i))"
    by (auto simp: filter_empty_conv)
  finally show ?thesis by (simp add: list_all_length)
qed

lemma append_typed_ok: "typed_ok a \<Longrightarrow> ArrayAppend a v = Done a' \<Longrightarrow> typed_ok a'"
  by (auto simp: ArrayAppend_def typed_ok_def split: if_splits option.splits)

lemma try_append_typed_ok: "typed_ok a \<Longrightarrow> typed_ok (try_append v a)"
  by (auto simp: try_append_def dest: append_typed_ok split: outcome.splits)

lemma extend_typed_ok: "typed_ok a \<Longrightarrow> typed_ok (ArrayExtend a b)"
proof -
  have "typed_ok a \<Longrightarrow> typed_ok (fold try_append vs a)" for vs
    by (induction vs arbitrary: a) (auto intro: try_append_typed_ok)
  then show "typed_ok a \<Longrightarrow> typed_ok (ArrayExtend a b)" by (simp add: ArrayExtend_def)
qed

lemma typecheck_typed_ok:
  assumes "typed_ok a" "TYPECHECK_array tok n a = (Done (), a')"
  shows "typed_ok a'" "list_all (declared_ok tok) (avalues a')" "avalues a' = avalues a"
    "0 < uint n \<Longrightarrow> int (length (avalues a')) \<le> uint n"
  using assms
  by (auto simp: TYPECHECK_array_def typed_ok_def Let_def first_bad_None split: if_splits option.splits)

text \<open>An append or an extension; one that breaks the discipline changes nothing.\<close>

fun grow :: "gsobj + gsarray \<Rightarrow> gsarray \<Rightarrow> gsarray" where
  "grow (Inl v) a = try_append v a"
| "grow (Inr b) a = ArrayExtend a b"

lemma try_append_views [simp]:
  "element_type (try_append v a) = element_type a" "max_capacity (try_append v a) = max_capacity a"
  by (auto simp: try_append_def ArrayAppend_def split: option.split)

lemma fold_try_append_views [simp]:
  "element_type (fold try_append vs a) = element_type a" "max_capacity (fold try_append vs a) = max_capacity a"
  by (induction vs arbitrary: a) simp_all

lemma fold_try_append_ok: "typed_ok a \<Longrightarrow> typed_ok (fold try_append vs a)"
  by (induction vs arbitrary: a) (auto intro: try_append_typed_ok)

lemma grow_ok:
  assumes "typed_ok a" "element_type a = t" "max_capacity a = c"
  shows "typed_ok (fold grow xs a) \<and> element_type (fold grow xs a) = t \<and> max_capacity (fold grow xs a) = c"
  using assms
proof (induction xs arbitrary: a)
  case (Cons x xs)
  then have "typed_ok (grow x a) \<and> element_type (grow x a) = t \<and> max_capacity (grow x a) = c"
    by (cases x) (simp_all add: try_append_typed_ok ArrayExtend_def fold_try_append_ok)
  with Cons.IH[of "grow x a"] show ?case by simp
qed simp

text \<open>C30: The typed array discipline.  When a declaration of element type and size (0 for none) has accepted an array that had no
  other declaration before, its elements are as they were, all of the declared type and no more than the declared size, the
  array remembers the declaration, and after any sequence of appends and extensions its elements are still of
  that type and within that size; an append succeeds exactly for a value of the type while there is
  room, puts it at the end, and is an error otherwise.  (An array that was declared with another type before keeps
  the first declaration; assignment by index and the other operations do not check.)\<close>

theorem typed_array_discipline:
  assumes "element_type a = None \<or> element_type a = Some tok"
    and "max_capacity a = -1 \<or> 0 < uint n \<and> max_capacity a = uint n"
    and "TYPECHECK_array tok n a = (Done (), a1)"
  defines "good \<equiv> \<lambda>b. list_all (declared_ok tok) (avalues b) \<and> (0 < uint n \<longrightarrow> int (length (avalues b)) \<le> uint n)"
  shows "avalues a1 = avalues a \<and> good a1 \<and> element_type a1 = Some tok
     \<and> max_capacity a1 = (if 0 < uint n then uint n else -1)
     \<and> (\<forall>xs. let b = fold grow xs a1 in good b
          \<and> (\<forall>v. if declared_ok tok v \<and> (0 < uint n \<longrightarrow> int (length (avalues b)) < uint n)
                 then \<exists>b'. ArrayAppend b v = Done b' \<and> avalues b' = avalues b @ [v]
                 else \<exists>e. ArrayAppend b v = Fail e))"
proof -
  have a1: "avalues a1 = avalues a" "element_type a1 = Some tok" "max_capacity a1 = (if 0 < uint n then uint n else -1)"
    "list_all (declared_ok tok) (avalues a1)" "0 < uint n \<Longrightarrow> int (length (avalues a1)) \<le> uint n"
    using assms(1-3)
    by (auto simp: TYPECHECK_array_def Let_def first_bad_None split: if_splits option.splits)
  then have ok: "typed_ok a1" by (simp add: typed_ok_def)
  have "good b \<and> (\<forall>v. if declared_ok tok v \<and> (0 < uint n \<longrightarrow> int (length (avalues b)) < uint n)
                 then \<exists>b'. ArrayAppend b v = Done b' \<and> avalues b' = avalues b @ [v]
                 else \<exists>e. ArrayAppend b v = Fail e)"
    if "b = fold grow xs a1" for b xs
  proof -
    from grow_ok[OF ok a1(2,3), of xs] that
    have b: "typed_ok b" "element_type b = Some tok" "max_capacity b = (if 0 < uint n then uint n else -1)" by simp_all
    then have "good b" by (auto simp: good_def typed_ok_def split: if_splits)
    moreover have "(max_capacity b \<noteq> -1 \<and> nat (max_capacity b) \<le> length (avalues b))
        = (\<not> (0 < uint n \<longrightarrow> int (length (avalues b)) < uint n))"
      unfolding b(3) by (simp add: nat_le_iff linorder_not_less del: nat_uint_eq)
    ultimately show ?thesis using b(2) by (auto simp: ArrayAppend_def)
  qed
  with a1 show ?thesis by (simp add: good_def Let_def)
qed

lemma typed_array_discipline_witness:
  "\<exists>a1. TYPECHECK_array TK_INT 2 \<lparr>avalues = [OInteger 1], max_capacity = -1, element_type = None\<rparr> = (Done (), a1)
     \<and> max_capacity a1 = 2 \<and> (\<exists>e. ArrayAppend (fold grow [Inl (OString 8)] a1) (OBool True) = Fail e)"
proof -
  let ?a = "\<lparr>avalues = [OInteger 1], max_capacity = -1, element_type = None\<rparr>"
  let ?a1 = "\<lparr>avalues = [OInteger 1], max_capacity = 2, element_type = Some TK_INT\<rparr>"
  have t: "TYPECHECK_array TK_INT 2 ?a = (Done (), ?a1)" by code_simp
  have "\<not> declared_ok TK_INT (OBool True)" by code_simp
  with typed_array_discipline[OF _ _ t, THEN conjunct2, THEN conjunct2, THEN conjunct2, THEN conjunct2,
      THEN spec[of _ "[Inl (OString 8)]"]]
  have "\<exists>e. ArrayAppend (fold grow [Inl (OString 8)] ?a1) (OBool True) = Fail e"
    by (simp add: Let_def split: if_splits)
  then show ?thesis unfolding t by (intro exI[of _ ?a1]) simp
qed

text \<open>The first declaration of an array stays: one that was declared an array of floats and has been accepted
  as an array of integers later still takes a float.\<close>

theorem first_declaration_stays:
  "case TYPECHECK_array TK_INT 0 (snd (TYPECHECK_array TK_FLOAT 0 \<lparr>avalues = [OInteger 1], max_capacity = -1, element_type = None\<rparr>)) of
     (r, a) \<Rightarrow> r = Done () \<and> (case ArrayAppend a (OFloat f) of Done b \<Rightarrow> \<not> list_all (declared_ok TK_INT) (avalues b) | _ \<Rightarrow> False)"
  by (simp add: TYPECHECK_array_def first_bad_def declared_ok_def ArrayAppend_def)

text \<open>Assignment by index, insertion, resizing and cloning do not go through the check of
  \<open>Append\<close>: each of them breaks or forgets a declared type.\<close>

theorem typed_array_bypassed:
  "typed_ok \<lparr>avalues = [OInteger 1], max_capacity = 1, element_type = Some TK_INT\<rparr>
   \<and> map_option typed_ok (ArraySet \<lparr>avalues = [OInteger 1], max_capacity = 1, element_type = Some TK_INT\<rparr> 0 (OString 8)) = Some False
   \<and> map_option typed_ok (ArrayInsert \<lparr>avalues = [OInteger 1], max_capacity = 1, element_type = Some TK_INT\<rparr> 0 (OInteger 2)) = Some False
   \<and> \<not> typed_ok (ArrayResize \<lparr>avalues = [OInteger 1], max_capacity = 1, element_type = Some TK_INT\<rparr> 1000 ONull)
   \<and> element_type (ArrayClone \<lparr>avalues = [OInteger 1], max_capacity = 1, element_type = Some TK_INT\<rparr>) = None"
  by (simp add: typed_ok_def ArraySet_def ArrayInsert_def ArrayResize_def ArrayClone_def ArrayCreate_def declared_ok_def)

section \<open>The library functions compute the list functions\<close>

lemma reverse_loop_nth:
  "2 * (i + n) \<le> length xs \<Longrightarrow> k < length xs
   \<Longrightarrow> reverse_loop n i xs ! k
        = (if (i \<le> k \<and> k < i + n) \<or> (i \<le> length xs - 1 - k \<and> length xs - 1 - k < i + n)
           then xs ! (length xs - 1 - k) else xs ! k)"
proof (induction n arbitrary: i xs)
  case (Suc n)
  let ?L = "length xs"
  let ?ys = "xs[i := xs ! (?L - 1 - i), ?L - 1 - i := xs ! i]"
  have il: "i < ?L - 1 - i \<or> i = ?L - 1 - i" "i < ?L" "?L - 1 - i < ?L" using Suc(2) by auto
  have ys: "?ys ! j = (if j = i then xs ! (?L - 1 - i) else if j = ?L - 1 - i then xs ! i else xs ! j)" if "j < ?L" for j
    using il that by (auto simp: nth_list_update)
  have kl: "?L - 1 - k < ?L" using Suc.prems by simp
  have "reverse_loop n (i + 1) ?ys ! k
      = (if (i + 1 \<le> k \<and> k < i + 1 + n) \<or> (i + 1 \<le> ?L - 1 - k \<and> ?L - 1 - k < i + 1 + n)
         then ?ys ! (?L - 1 - k) else ?ys ! k)"
    using Suc.IH[of "i + 1" ?ys] Suc.prems by simp
  also have "\<dots> = (if (i \<le> k \<and> k < i + Suc n) \<or> (i \<le> ?L - 1 - k \<and> ?L - 1 - k < i + Suc n)
           then xs ! (?L - 1 - k) else xs ! k)"
    unfolding ys[OF Suc.prems(2)] ys[OF kl]
    using Suc.prems il by (cases "k = i"; cases "k = ?L - 1 - i") auto
  finally show ?case by simp
qed auto

lemma length_reverse_loop [simp]: "length (reverse_loop n i xs) = length xs"
  by (induction n arbitrary: i xs) auto

lemma array_reverse_rev: "avalues (array_reverse a) = rev (avalues a)"
proof (cases "avalues a = []")
  case False
  let ?xs = "avalues a"
  have "reverse_loop (length ?xs div 2) 0 ?xs = rev ?xs"
  proof (rule nth_equalityI)
    fix k assume "k < length (reverse_loop (length ?xs div 2) 0 ?xs)"
    then have k: "k < length ?xs" by simp
    have mid: "k = length ?xs - 1 - k" if "\<not> k < length ?xs div 2" "\<not> length ?xs - 1 - k < length ?xs div 2"
      using that k by linarith
    have "reverse_loop (length ?xs div 2) 0 ?xs ! k = ?xs ! (length ?xs - 1 - k)"
      using reverse_loop_nth[of 0 "length ?xs div 2" ?xs k] k mid by (auto split: if_splits)
    with k show "reverse_loop (length ?xs div 2) 0 ?xs ! k = rev ?xs ! k" by (simp add: rev_nth)
  qed simp
  with False show ?thesis by (simp add: array_reverse_def)
qed (simp add: array_reverse_def)

lemma slice_fold:
  "s \<le> e \<Longrightarrow> length (avalues arr) = n \<Longrightarrow> e - s \<le> n
   \<Longrightarrow> avalues (fold (\<lambda>i arr. arr\<lparr>avalues := (avalues arr)[i - s := f i]\<rparr>) [s..<e] arr)
        = map f [s..<e] @ drop (e - s) (avalues arr)"
proof (induction e)
  case (Suc e)
  show ?case
  proof (cases "s \<le> e")
    case True
    then have "avalues (fold (\<lambda>i arr. arr\<lparr>avalues := (avalues arr)[i - s := f i]\<rparr>) [s..<e] arr)
        = map f [s..<e] @ drop (e - s) (avalues arr)" using Suc by simp
    moreover have "(map f [s..<e] @ drop (e - s) (avalues arr))[e - s := f e]
        = map f [s..<e] @ f e # drop (Suc (e - s)) (avalues arr)"
      using True Suc.prems by (simp add: list_update_append drop_Suc Suc_diff_le
          flip: Cons_nth_drop_Suc[of "e - s"])
    ultimately show ?thesis using True Suc.prems by (simp add: Suc_diff_le)
  next
    case False
    with Suc.prems have "s = Suc e" by simp
    then show ?thesis by simp
  qed
qed simp

text \<open>\<open>slice\<close>: with the bounds counted from the end when negative, a pair inside the array
  gives exactly the elements between them (weak references dereferenced) in a new untyped array;
  any other pair is an error, "wrong indexes" when the end is before the start.\<close>

theorem array_slice_spec:
  assumes "get_slice_params args (length (avalues a)) = (s0, e0)"
  defines "len \<equiv> int (length (avalues a))"
  defines "s \<equiv> if s0 < 0 then len + s0 else s0" and "e \<equiv> if e0 < 0 then len + e0 else e0"
  shows "array_slice wk a args =
     (if e < s then Fail (ErrStr ''wrong indexes'')
      else if len < e \<or> s < 0 then Fail (ErrStr ''slice out of range'')
      else Done \<lparr>avalues = map (realval wk) (take (nat e - nat s) (drop (nat s) (avalues a))),
                 max_capacity = -1, element_type = None\<rparr>)"
proof (cases "e < s \<or> len < e \<or> s < 0")
  case True
  then show ?thesis
    using assms(1) by (auto simp: array_slice_def slice_bounds_def Let_def len_def s_def e_def)
next
  case False
  then have se: "0 \<le> s" "s \<le> e" "e \<le> len" by auto
  have ne: "nat s \<le> nat e" "nat e \<le> length (avalues a)" using se by (auto simp: len_def)
  let ?r = "fold (\<lambda>i arr. arr\<lparr>avalues := (avalues arr)[i - nat s := realval wk (avalues a ! i)]\<rparr>)
              [nat s..<nat e] (ArrayCreate (nat e - nat s))"
  have "avalues ?r = map (\<lambda>i. realval wk (avalues a ! i)) [nat s..<nat e]"
    using slice_fold[OF ne(1), of "ArrayCreate (nat e - nat s)" _ "\<lambda>i. realval wk (avalues a ! i)"]
    by (simp add: ArrayCreate_def)
  also have "\<dots> = map (realval wk) (take (nat e - nat s) (drop (nat s) (avalues a)))"
    using ne by (intro nth_equalityI) auto
  finally have v: "avalues ?r = map (realval wk) (take (nat e - nat s) (drop (nat s) (avalues a)))" .
  have meta: "max_capacity (fold (\<lambda>i arr. arr\<lparr>avalues := (avalues arr)[i - k := f i]\<rparr>) is x) = max_capacity x
      \<and> element_type (fold (\<lambda>i arr. arr\<lparr>avalues := (avalues arr)[i - k := f i]\<rparr>) is x) = element_type x"
    for k f "is" and x :: gsarray
    by (induction "is" arbitrary: x) auto
  have "?r = \<lparr>avalues = map (realval wk) (take (nat e - nat s) (drop (nat s) (avalues a))),
                 max_capacity = -1, element_type = None\<rparr>"
    using v meta by (intro gsarray.equality) (simp_all add: ArrayCreate_def)
  moreover have "array_slice wk a args = Done ?r"
    using assms(1) se by (auto simp: array_slice_def slice_bounds_def Let_def len_def s_def e_def split: if_splits)
  ultimately show ?thesis using False by auto
qed

lemma array_slice_spec_witness:
  "array_slice (\<lambda>p. ONull) \<lparr>avalues = [OInteger 1, OInteger 2, OInteger 3], max_capacity = -1, element_type = None\<rparr>
      [OInteger (- 2)]
   = Done \<lparr>avalues = [OInteger 2, OInteger 3], max_capacity = -1, element_type = None\<rparr>"
proof -
  let ?a = "\<lparr>avalues = [OInteger 1, OInteger 2, OInteger 3], max_capacity = -1, element_type = None\<rparr>"
  have "get_slice_params [OInteger (- 2)] (length (avalues ?a)) = (- 2, 3)"
    by (simp add: get_slice_params_def)
  from array_slice_spec[OF this, of "\<lambda>p. ONull"] show ?thesis by (simp add: realval_def)
qed

lemma reduce_loop_pure:
  assumes "\<And>x y w. call [self, x, y] w = (Done (f x y), w)"
  shows "len = length (rd w) \<Longrightarrow> n \<le> len \<Longrightarrow> reduce_loop call rd self n len other res w = (Done (foldl f res (drop n (rd w))), w)"
proof (induction "len - n" arbitrary: n other res)
  case 0
  then show ?case by (subst reduce_loop.simps) simp
next
  case (Suc d)
  then have "n < length (rd w)" by simp
  moreover from this have "drop n (rd w) = rd w ! n # drop (n + 1) (rd w)" by (simp add: Cons_nth_drop_Suc)
  ultimately show ?case
    using Suc by (subst reduce_loop.simps) (simp add: assms)
qed

lemma filter_loop_pure:
  assumes "\<And>i y w. call [self, i, y] w = (Done (f y), w)"
  shows "len = length (rd w) \<Longrightarrow> n \<le> len \<Longrightarrow> max_capacity ret = -1 \<Longrightarrow> element_type ret = None
    \<Longrightarrow> filter_loop call rd self n len val ret w
       = (Done (ret\<lparr>avalues := avalues ret @ filter (\<lambda>y. \<not> IsFalse (f y)) (drop n (rd w))\<rparr>), w)"
proof (induction "len - n" arbitrary: n val ret)
  case 0
  then show ?case by (subst filter_loop.simps) simp
next
  case (Suc d)
  then have "n < length (rd w)" by simp
  moreover from this have "drop n (rd w) = rd w ! n # drop (n + 1) (rd w)" by (simp add: Cons_nth_drop_Suc)
  ultimately show ?case
    using Suc by (subst filter_loop.simps) (simp add: assms try_append_def ArrayAppend_def)
qed

text \<open>\<open>filter\<close> and \<open>reduce\<close>: with a closure that succeeds, computes a function and leaves
  the array alone, they return the list function's result in order, the world untouched;
  \<open>filter\<close> keeps the elements whose answer is not false in the sense of \<open>IsFalse\<close>.\<close>

theorem filter_reduce_spec:
  assumes "\<And>i y w. pcall [self, i, y] w = (Done (p y), w)" "\<And>x y w. fcall [self, x, y] w = (Done (f x y), w)"
  shows "array_filter pcall rd self w
      = (Done \<lparr>avalues = filter (\<lambda>y. \<not> IsFalse (p y)) (rd w), max_capacity = -1, element_type = None\<rparr>, w)
    \<and> array_reduce fcall rd self start w
      = (Done (case start of Some s \<Rightarrow> Some (foldl f s (rd w))
                | None \<Rightarrow> (case rd w of [] \<Rightarrow> None | x # xs \<Rightarrow> Some (foldl f x xs))), w)"
proof -
  have "array_filter pcall rd self w
      = (Done \<lparr>avalues = filter (\<lambda>y. \<not> IsFalse (p y)) (rd w), max_capacity = -1, element_type = None\<rparr>, w)"
    using filter_loop_pure[of pcall self p "length (rd w)" rd w 0 "ArrayCreate 0" ONull] assms(1)
    by (simp add: array_filter_def ArrayCreate_def)
  moreover have "array_reduce fcall rd self start w
      = (Done (case start of Some s \<Rightarrow> Some (foldl f s (rd w))
                | None \<Rightarrow> (case rd w of [] \<Rightarrow> None | x # xs \<Rightarrow> Some (foldl f x xs))), w)"
    using reduce_loop_pure[of fcall self f "length (rd w)" rd w 0] assms(2)
      reduce_loop_pure[of fcall self f "length (rd w)" rd w 1]
    by (cases start; cases "rd w") (simp_all add: array_reduce_def)
  ultimately show ?thesis by blast
qed

lemma filter_reduce_spec_witness:
  "fst (array_filter (\<lambda>args w. (Done (args ! 2), w)) (\<lambda>w. [OInteger 0, OInteger 5]) ONull ())
     = Done \<lparr>avalues = [OInteger 5], max_capacity = -1, element_type = None\<rparr>"
  using filter_reduce_spec[of "\<lambda>args w. (Done (args ! 2), w)" ONull "\<lambda>y. y"
      "\<lambda>args w. (Done (args ! 2), w)" "\<lambda>x y. y" "\<lambda>w. [OInteger 0, OInteger 5]" "()" None]
  by (simp add: IsFalse_def)

end
