(* ===== verification/GS_Sort.thy ===== *)
theory GS_Sort
  imports GS_VMOps
begin

text \<open>
  \<open>array.sort\<close> (GSbaselib.cpp): a heap sort in place, driven by a comparison that may call
  script code, fail, or change the world.  The heap has an extra root: node 0 has the single
  child 1, node i the children 2i and 2i+1.  \<open>cmp\<close> is \<open>_sort_compare\<close> without its last
  argument; a comparison that writes into the array it sorts is not modelled.
\<close>

section \<open>The algorithm\<close>

type_synonym ('a, 'w) comparison = "'a \<Rightarrow> 'a \<Rightarrow> 'w \<Rightarrow> gsint outcome \<times> 'w"

definition swap_at :: "'a list \<Rightarrow> nat \<Rightarrow> nat \<Rightarrow> 'a list" where
  "swap_at xs i j = xs[i := xs ! j, j := xs ! i]"

definition max_child :: "('a, 'w) comparison \<Rightarrow> 'a list \<Rightarrow> nat \<Rightarrow> nat \<Rightarrow> 'w \<Rightarrow> nat outcome \<times> 'w" where
  "max_child cmp arr root bottom w =
     (let root2 = root * 2 in
      if root2 = bottom then (Done root2, w)
      else case cmp (arr ! root2) (arr ! (root2 + 1)) w of
             (Done r, w') \<Rightarrow> (Done (if 0 <s r then root2 else root2 + 1), w')
           | (Fail e, w') \<Rightarrow> (Fail e, w')
           | (Trap, w') \<Rightarrow> (Trap, w'))"

lemma max_child_cases: "max_child cmp arr root bottom w = (Done m, w') \<Longrightarrow> m = root * 2 \<or> m = root * 2 + 1 \<and> root * 2 \<noteq> bottom"
  by (auto simp: max_child_def Let_def split: if_splits prod.splits outcome.splits)

function sift_down ::
    "('a, 'w) comparison \<Rightarrow> nat \<Rightarrow> 'a list \<Rightarrow> nat \<Rightarrow> 'w \<Rightarrow> unit outcome \<times> 'a list \<times> 'w" where
  "sift_down cmp bottom arr root w =
     (if root * 2 \<le> bottom then
        (case max_child cmp arr root bottom w of
           (Done maxChild, w1) \<Rightarrow>
             (case cmp (arr ! root) (arr ! maxChild) w1 of
                (Done r, w2) \<Rightarrow>
                  if r <s 0 then
                    (if root = maxChild then (Fail (ErrStr ''inconsistent compare function''), arr, w2)
                     else sift_down cmp bottom (swap_at arr root maxChild) maxChild w2)
                  else (Done (), arr, w2)
              | (Fail e, w2) \<Rightarrow> (Fail e, arr, w2)
              | (Trap, w2) \<Rightarrow> (Trap, arr, w2))
         | (Fail e, w1) \<Rightarrow> (Fail e, arr, w1)
         | (Trap, w1) \<Rightarrow> (Trap, arr, w1))
      else (Done (), arr, w))"
  by pat_completeness auto
termination
  by (relation "measure (\<lambda>(cmp, bottom, arr, root, w). bottom + 1 - root)")
     (auto dest!: sym[of "(Done _, _)" "max_child _ _ _ _ _"] max_child_cases)

declare sift_down.simps [simp del]

text \<open>The two loops of \<open>_hsort\<close>: \<open>i\<close> from the middle down to 0, then from the end down to 1.\<close>

fun heapify :: "('a, 'w) comparison \<Rightarrow> nat \<Rightarrow> nat \<Rightarrow> 'a list \<Rightarrow> 'w \<Rightarrow> unit outcome \<times> 'a list \<times> 'w" where
  "heapify cmp bottom i arr w =
     (case sift_down cmp bottom arr i w of
        (Done _, arr', w') \<Rightarrow>
          (case i of 0 \<Rightarrow> (Done (), arr', w') | Suc k \<Rightarrow> heapify cmp bottom k arr' w')
      | other \<Rightarrow> other)"

declare heapify.simps [simp del]

fun extract_max :: "('a, 'w) comparison \<Rightarrow> nat \<Rightarrow> 'a list \<Rightarrow> 'w \<Rightarrow> unit outcome \<times> 'a list \<times> 'w" where
  "extract_max cmp 0 arr w = (Done (), arr, w)"
| "extract_max cmp (Suc i) arr w =
     (case sift_down cmp i (swap_at arr 0 (Suc i)) 0 w of
        (Done _, arr', w') \<Rightarrow> extract_max cmp i arr' w'
      | other \<Rightarrow> other)"

definition hsort :: "('a, 'w) comparison \<Rightarrow> 'a list \<Rightarrow> 'w \<Rightarrow> unit outcome \<times> 'a list \<times> 'w" where
  "hsort cmp arr w =
     (case heapify cmp (length arr - 1) (length arr div 2) arr w of
        (Done _, arr', w') \<Rightarrow> extract_max cmp (length arr' - 1) arr' w'
      | other \<Rightarrow> other)"

definition array_sort :: "('a, 'w) comparison \<Rightarrow> 'a list \<Rightarrow> 'w \<Rightarrow> unit outcome \<times> 'a list \<times> 'w" where
  "array_sort cmp arr w = (if 1 < length arr then hsort cmp arr w else (Done (), arr, w))"

section \<open>The array stays a permutation\<close>

lemma length_swap_at [simp]: "length (swap_at xs i j) = length xs"
  by (simp add: swap_at_def)

lemma nth_swap_at:
  "i < length xs \<Longrightarrow> j < length xs
     \<Longrightarrow> swap_at xs i j ! k = (if k = j then xs ! i else if k = i then xs ! j else xs ! k)"
  by (simp add: swap_at_def nth_list_update)

lemma mset_swap_at: "i < length xs \<Longrightarrow> j < length xs \<Longrightarrow> mset (swap_at xs i j) = mset xs"
  by (simp add: swap_at_def mset_swap)

text \<open>One turn of the loop of \<open>sift_down\<close>, as cases.\<close>

lemma sift_down_cases:
  obtains (stop) r w' where "sift_down cmp bottom arr root w = (r, arr, w')"
      "r = Done () \<Longrightarrow> bottom < root * 2 \<or>
         (\<exists>m w1 c. max_child cmp arr root bottom w = (Done m, w1) \<and> m \<le> bottom
            \<and> cmp (arr ! root) (arr ! m) w1 = (Done c, w') \<and> \<not> c <s 0)"
    | (go) m w1 c w2 where "root * 2 \<le> bottom" "max_child cmp arr root bottom w = (Done m, w1)"
      "cmp (arr ! root) (arr ! m) w1 = (Done c, w2)" "c <s 0" "root \<noteq> m" "m \<le> bottom"
      "sift_down cmp bottom arr root w = sift_down cmp bottom (swap_at arr root m) m w2"
proof (cases "root * 2 \<le> bottom")
  case False
  then show ?thesis by (intro stop[of "Done ()" w]) (subst sift_down.simps, simp_all)
next
  case True
  obtain mo w1 where mc: "max_child cmp arr root bottom w = (mo, w1)" by fastforce
  show ?thesis
  proof (cases mo)
    case (Done m)
    then have mb: "m \<le> bottom" using max_child_cases[of cmp arr root bottom w m w1] mc True by auto
    obtain co w2 where cm: "cmp (arr ! root) (arr ! m) w1 = (co, w2)" by fastforce
    show ?thesis
    proof (cases co)
      case c: (Done c)
      show ?thesis
      proof (cases "c <s 0 \<and> root \<noteq> m")
        case neg: True
        show ?thesis
          by (rule go[of m w1 c w2])
             (use True mc cm c Done neg mb in \<open>simp_all add: sift_down.simps[of cmp bottom arr root w]\<close>)
      next
        case False
        with True mc cm c Done mb show ?thesis
          by (intro stop[of "if c <s 0 then Fail (ErrStr ''inconsistent compare function'') else Done ()" w2])
             (auto simp: sift_down.simps[of cmp bottom arr root w])
      qed
    next
      case (Fail e)
      with True mc cm Done show ?thesis
        by (intro stop[of "Fail e" w2]) (simp_all add: sift_down.simps[of cmp bottom arr root w])
    next
      case Trap
      with True mc cm Done show ?thesis
        by (intro stop[of Trap w2]) (simp_all add: sift_down.simps[of cmp bottom arr root w])
    qed
  next
    case (Fail e)
    with True mc show ?thesis
      by (intro stop[of "Fail e" w1]) (simp_all add: sift_down.simps[of cmp bottom arr root w])
  next
    case Trap
    with True mc show ?thesis
      by (intro stop[of Trap w1]) (simp_all add: sift_down.simps[of cmp bottom arr root w])
  qed
qed

lemma sift_down_perm:
  "bottom < length arr \<Longrightarrow> sift_down cmp bottom arr root w = (r, arr', w')
     \<Longrightarrow> mset arr' = mset arr \<and> length arr' = length arr"
proof (induction "bottom + 1 - root" arbitrary: arr root w rule: less_induct)
  case less
  show ?case
  proof (cases rule: sift_down_cases[of cmp bottom arr root w])
    case (stop r w')
    with less(3) show ?thesis by simp
  next
    case (go m w1 c w2)
    have "m > root" using max_child_cases[OF go(2)] go(5) by auto
    then have "bottom + 1 - m < bottom + 1 - root" using go(1) by linarith
    moreover have "sift_down cmp bottom (swap_at arr root m) m w2 = (r, arr', w')" using go(7) less(3) by simp
    ultimately have "mset arr' = mset (swap_at arr root m) \<and> length arr' = length arr"
      using less(1)[of m "swap_at arr root m" w2] less(2) by simp
    with mset_swap_at[of root arr m] less(2) go(1,6) show ?thesis by simp
  qed
qed

lemma heapify_perm:
  "bottom < length arr \<Longrightarrow> heapify cmp bottom i arr w = (r, arr', w') \<Longrightarrow> mset arr' = mset arr \<and> length arr' = length arr"
proof (induction i arbitrary: arr w)
  case 0
  obtain r1 arr1 w1 where s: "sift_down cmp bottom arr 0 w = (r1, arr1, w1)" by (metis prod_cases3)
  with sift_down_perm[OF 0(1) s] 0(2) show ?case
    by (cases r1) (auto simp: heapify.simps)
next
  case (Suc i)
  obtain r1 arr1 w1 where s: "sift_down cmp bottom arr (Suc i) w = (r1, arr1, w1)" by (metis prod_cases3)
  note p = sift_down_perm[OF Suc(2) s]
  show ?case
  proof (cases r1)
    case (Done u)
    with s Suc(3) have "heapify cmp bottom i arr1 w1 = (r, arr', w')" by (simp add: heapify.simps)
    with Suc(1)[of arr1 w1] Suc(2) p show ?thesis by simp
  qed (use s Suc(3) p in \<open>simp_all add: heapify.simps\<close>)
qed

lemma extract_perm:
  "i < length arr \<Longrightarrow> extract_max cmp i arr w = (r, arr', w') \<Longrightarrow> mset arr' = mset arr \<and> length arr' = length arr"
proof (induction i arbitrary: arr w)
  case (Suc i)
  obtain r1 arr1 w1 where s: "sift_down cmp i (swap_at arr 0 (Suc i)) 0 w = (r1, arr1, w1)" by (metis prod_cases3)
  have "mset arr1 = mset (swap_at arr 0 (Suc i)) \<and> length arr1 = length (swap_at arr 0 (Suc i))"
    using sift_down_perm[OF _ s] Suc(2) by simp
  moreover have "mset (swap_at arr 0 (Suc i)) = mset arr"
    using Suc(2) by (intro mset_swap_at) (auto intro: Suc_lessD)
  ultimately have p: "mset arr1 = mset arr \<and> length arr1 = length arr" by simp
  show ?case
  proof (cases r1)
    case (Done u)
    with s Suc(3) have "extract_max cmp i arr1 w1 = (r, arr', w')" by simp
    with Suc(1)[of arr1 w1] Suc(2) p show ?thesis by simp
  qed (use s Suc(3) p in simp_all)
qed simp

lemma array_sort_perm:
  assumes "array_sort cmp arr w = (r, arr', w')"
  shows "mset arr' = mset arr"
proof (cases "1 < length arr")
  case True
  obtain r1 arr1 w1 where h: "heapify cmp (length arr - 1) (length arr div 2) arr w = (r1, arr1, w1)"
    by (metis prod_cases3)
  have p: "mset arr1 = mset arr \<and> length arr1 = length arr" by (rule heapify_perm[OF _ h]) (use True in auto)
  show ?thesis
  proof (cases r1)
    case (Done u)
    with h True assms have "extract_max cmp (length arr1 - 1) arr1 w1 = (r, arr', w')"
      by (simp add: array_sort_def hsort_def)
    then have "mset arr' = mset arr1 \<and> length arr' = length arr1"
      by (rule extract_perm[rotated]) (use True p in auto)
    with p show ?thesis by simp
  qed (use h True assms p in \<open>simp_all add: array_sort_def hsort_def\<close>)
qed (use assms in \<open>simp add: array_sort_def\<close>)

section \<open>A consistent comparison sorts\<close>

text \<open>The contract of a comparison on a set of elements: it succeeds, leaves the world alone, and
  its sign is that of a total preorder.\<close>

locale consistent_comparison =
  fixes cmp :: "('a, 'w) comparison" and le :: "'a \<Rightarrow> 'a \<Rightarrow> bool" and C :: "'a set"
  assumes le_refl: "a \<in> C \<Longrightarrow> le a a"
    and le_trans: "a \<in> C \<Longrightarrow> b \<in> C \<Longrightarrow> c \<in> C \<Longrightarrow> le a b \<Longrightarrow> le b c \<Longrightarrow> le a c"
    and le_total: "a \<in> C \<Longrightarrow> b \<in> C \<Longrightarrow> le a b \<or> le b a"
    and cmp_sign: "a \<in> C \<Longrightarrow> b \<in> C
        \<Longrightarrow> \<exists>r. cmp a b w = (Done r, w) \<and> (r <s 0 \<longleftrightarrow> \<not> le b a) \<and> (0 <s r \<longleftrightarrow> \<not> le a b)"
begin

text \<open>Heap edges below \<open>bottom\<close> whose parent is at least \<open>lo\<close> and not \<open>hole\<close>; a child of the
  hole is below the hole's parent.\<close>

definition heap_but :: "'a list \<Rightarrow> nat \<Rightarrow> nat \<Rightarrow> nat \<Rightarrow> bool" where
  "heap_but arr lo bottom hole \<longleftrightarrow>
     (\<forall>i. 1 \<le> i \<and> i \<le> bottom \<and> lo \<le> i div 2 \<and> i div 2 \<noteq> hole \<longrightarrow> le (arr ! i) (arr ! (i div 2)))
     \<and> (lo < hole \<longrightarrow> (\<forall>i. 1 \<le> i \<and> i \<le> bottom \<and> i div 2 = hole \<longrightarrow> le (arr ! i) (arr ! (hole div 2))))"

definition heap :: "'a list \<Rightarrow> nat \<Rightarrow> nat \<Rightarrow> bool" where
  "heap arr lo bottom \<longleftrightarrow>
     (\<forall>i. 1 \<le> i \<and> i \<le> bottom \<and> lo \<le> i div 2 \<longrightarrow> le (arr ! i) (arr ! (i div 2)))"

lemma max_child_spec:
  assumes "root * 2 \<le> bottom" "bottom < length arr" "set arr \<subseteq> C"
  shows "\<exists>m. max_child cmp arr root bottom w = (Done m, w) \<and> m \<le> bottom \<and> (m = root * 2 \<or> m = root * 2 + 1)
     \<and> (\<forall>i. i \<le> bottom \<and> i div 2 = root \<longrightarrow> le (arr ! i) (arr ! m))"
proof (cases "root * 2 = bottom")
  case True
  have i_eq: "i = bottom" if "i \<le> bottom" "i div 2 = root" for i using that True by linarith
  have "le (arr ! bottom) (arr ! bottom)" using assms by (intro le_refl) auto
  then have "\<forall>i. i \<le> bottom \<and> i div 2 = root \<longrightarrow> le (arr ! i) (arr ! bottom)"
    using i_eq by blast
  moreover have "max_child cmp arr root bottom w = (Done bottom, w)" using True by (simp add: max_child_def)
  ultimately show ?thesis using True by (intro exI[of _ bottom] conjI) simp_all
next
  case False
  let ?a = "arr ! (root * 2)" and ?b = "arr ! (root * 2 + 1)"
  have ab: "?a \<in> C" "?b \<in> C" using assms False by (auto intro!: subsetD[OF assms(3)])
  from cmp_sign[OF ab, of w] obtain r
    where r: "cmp ?a ?b w = (Done r, w)" "0 <s r \<longleftrightarrow> \<not> le ?a ?b" by blast
  have ch: "i = root * 2 \<or> i = root * 2 + 1" if "i div 2 = root" for i using that by linarith
  have "max_child cmp arr root bottom w = (Done (if 0 <s r then root * 2 else root * 2 + 1), w)"
    using False r(1) by (simp add: max_child_def)
  moreover have "\<forall>i. i \<le> bottom \<and> i div 2 = root \<longrightarrow> le (arr ! i) (arr ! (if 0 <s r then root * 2 else root * 2 + 1))"
  proof (intro allI impI)
    fix i assume i: "i \<le> bottom \<and> i div 2 = root"
    from ch[of i] i consider "i = root * 2" | "i = root * 2 + 1" by blast
    then show "le (arr ! i) (arr ! (if 0 <s r then root * 2 else root * 2 + 1))"
      using r(2) le_total[OF ab] le_refl[OF ab(1)] le_refl[OF ab(2)] by cases (auto split: if_splits)
  qed
  ultimately show ?thesis using assms(1) False by auto
qed

lemma sift_down_heap:
  "bottom < length arr \<Longrightarrow> set arr \<subseteq> C \<Longrightarrow> lo \<le> root \<Longrightarrow> heap_but arr lo bottom root
   \<Longrightarrow> \<exists>arr'. sift_down cmp bottom arr root w = (Done (), arr', w) \<and> heap arr' lo bottom
        \<and> (\<forall>k. k < lo \<or> bottom < k \<longrightarrow> arr' ! k = arr ! k)"
proof (induction "bottom + 1 - root" arbitrary: arr root rule: less_induct)
  case less
  show ?case
  proof (cases "root * 2 \<le> bottom")
    case False
    then have "heap arr lo bottom" using less(5) by (auto simp: heap_def heap_but_def)
    with False show ?thesis by (subst sift_down.simps) simp
  next
    case True
    obtain m where m: "max_child cmp arr root bottom w = (Done m, w)" "m \<le> bottom"
        "m = root * 2 \<or> m = root * 2 + 1"
      and mx: "\<And>i. i \<le> bottom \<Longrightarrow> i div 2 = root \<Longrightarrow> le (arr ! i) (arr ! m)"
      using max_child_spec[OF True less(2,3), of w] by blast
    have inC: "arr ! i \<in> C" if "i \<le> bottom" for i using that less(2,3) by auto
    have rb: "root \<le> bottom" using True by simp
    from cmp_sign[OF inC[OF rb] inC[OF m(2)], of w] obtain c
      where c: "cmp (arr ! root) (arr ! m) w = (Done c, w)" "c <s 0 \<longleftrightarrow> \<not> le (arr ! m) (arr ! root)" by blast
    show ?thesis
    proof (cases "c <s 0")
      case False
      then have le: "le (arr ! m) (arr ! root)" using c(2) by simp
      have "le (arr ! i) (arr ! root)" if "1 \<le> i" "i \<le> bottom" "i div 2 = root" for i
        using le_trans[OF inC[OF that(2)] inC[OF m(2)] inC[OF rb] mx[OF that(2,3)] le] .
      then have "heap arr lo bottom" using less(5) by (auto simp: heap_def heap_but_def)
      with True m(1) c False show ?thesis by (subst sift_down.simps) simp
    next
      case neg: True
      have rm: "root \<noteq> m" using neg c(2) le_refl[OF inC[OF rb]] by auto
      then have lt: "root < m" and m2: "m div 2 = root" using m(3) by auto
      let ?arr = "swap_at arr root m"
      have rl: "root < length arr" "m < length arr" using rb m(2) less(2) by auto
      note nth = nth_swap_at[OF rl]
      have le: "le (arr ! root) (arr ! m)" using neg c(2) le_total[OF inC[OF rb] inC[OF m(2)]] by blast
      have hb: "heap_but ?arr lo bottom m"
        unfolding heap_but_def
      proof (intro conjI allI impI)
        fix i assume i: "1 \<le> i \<and> i \<le> bottom \<and> lo \<le> i div 2 \<and> i div 2 \<noteq> m"
        show "le (?arr ! i) (?arr ! (i div 2))"
        proof (cases "i = m")
          case True
          then show ?thesis using le m2 rm by (simp add: nth)
        next
          case im: False
          show ?thesis
          proof (cases "i = root")
            case True
            then have "lo < root" "root \<noteq> root div 2" using i by auto
            then have "le (arr ! m) (arr ! (root div 2))"
              using less(5) m(2) m2 lt unfolding heap_but_def by auto
            moreover have "root div 2 \<noteq> m" "root div 2 \<noteq> root" using True i by auto
            ultimately show ?thesis using True im by (simp add: nth)
          next
            case False
            then show ?thesis
              using i im mx[of i] less(5) by (auto simp: nth heap_but_def)
          qed
        qed
      next
        fix i assume "lo < m" and i: "1 \<le> i \<and> i \<le> bottom \<and> i div 2 = m"
        have "i \<noteq> m" "i \<noteq> root" using i lt by auto
        moreover have "le (arr ! i) (arr ! m)" using less(4,5) i rm lt by (auto simp: heap_but_def)
        ultimately show "le (?arr ! i) (?arr ! (m div 2))" using m2 rm by (simp add: nth)
      qed
      have setC: "set ?arr \<subseteq> C" using mset_swap_at[OF rl] less(3) by (metis set_mset_mset)
      have "bottom + 1 - m < bottom + 1 - root" using lt m(2) by linarith
      from less(1)[OF this _ setC _ hb] less(2,4) lt obtain arr'
        where arr': "sift_down cmp bottom ?arr m w = (Done (), arr', w)" "heap arr' lo bottom"
          "\<forall>k. k < lo \<or> bottom < k \<longrightarrow> arr' ! k = ?arr ! k" by auto
      have "sift_down cmp bottom arr root w = (Done (), arr', w)"
        using True m(1) c neg rm arr'(1) by (subst sift_down.simps) simp
      moreover have "arr' ! k = arr ! k" if "k < lo \<or> bottom < k" for k
        using arr'(3) that less(4) lt m(2) by (auto simp: nth)
      ultimately show ?thesis using arr'(2) by blast
    qed
  qed
qed

lemma heapify_heap:
  "bottom < length arr \<Longrightarrow> set arr \<subseteq> C \<Longrightarrow> heap arr (Suc i) bottom
   \<Longrightarrow> \<exists>arr'. heapify cmp bottom i arr w = (Done (), arr', w) \<and> heap arr' 0 bottom"
proof (induction i arbitrary: arr)
  case (0 arr)
  have "heap_but arr 0 bottom 0" using 0(3) by (auto simp: heap_but_def heap_def)
  from sift_down_heap[OF 0(1,2) _ this, of w] obtain arr1
    where "sift_down cmp bottom arr 0 w = (Done (), arr1, w)" "heap arr1 0 bottom" by auto
  then show ?case by (simp add: heapify.simps)
next
  case (Suc i)
  have "heap_but arr (Suc i) bottom (Suc i)" using Suc(4) by (auto simp: heap_but_def heap_def)
  from sift_down_heap[OF Suc(2,3) _ this, of w] obtain arr1
    where a1: "sift_down cmp bottom arr (Suc i) w = (Done (), arr1, w)" "heap arr1 (Suc i) bottom" by auto
  have "mset arr1 = mset arr \<and> length arr1 = length arr" by (rule sift_down_perm[OF Suc(2) a1(1)])
  then have "bottom < length arr1" "set arr1 \<subseteq> C" using Suc(2,3) by (auto dest: mset_eq_setD)
  from Suc(1)[OF this a1(2)] a1(1) show ?case by (simp add: heapify.simps)
qed

lemma heap_root_max:
  assumes "heap arr 0 bottom" "bottom < length arr" "set arr \<subseteq> C"
  shows "k \<le> bottom \<Longrightarrow> le (arr ! k) (arr ! 0)"
proof (induction k rule: less_induct)
  case (less k)
  have C: "arr ! i \<in> C" if "i \<le> bottom" for i using that assms by auto
  show ?case
  proof (cases "k = 0")
    case True
    then show ?thesis using C le_refl by auto
  next
    case False
    then have "le (arr ! (k div 2)) (arr ! 0)" using less by simp
    moreover have "le (arr ! k) (arr ! (k div 2))" using assms(1) False less(2) by (auto simp: heap_def)
    ultimately show ?thesis using le_trans C less(2) by (meson div_le_dividend le0 order_trans)
  qed
qed

lemma extract_sorted:
  "i < length arr \<Longrightarrow> set arr \<subseteq> C \<Longrightarrow> heap arr 0 i
   \<Longrightarrow> (\<forall>j k. j < k \<and> i < k \<and> k < length arr \<longrightarrow> le (arr ! j) (arr ! k))
   \<Longrightarrow> \<exists>arr'. extract_max cmp i arr w = (Done (), arr', w)
        \<and> (\<forall>j k. j < k \<and> k < length arr \<longrightarrow> le (arr' ! j) (arr' ! k))"
proof (induction i arbitrary: arr)
  case 0
  then show ?case by auto
next
  case (Suc i)
  let ?a = "swap_at arr 0 (Suc i)"
  have l: "0 < length arr" "Suc i < length arr" using Suc(2) by auto
  note nth = nth_swap_at[OF l]
  have aC: "set ?a \<subseteq> C" using mset_swap_at[OF l] Suc(3) by (metis set_mset_mset)
  have hb: "heap_but ?a 0 i 0"
    using Suc(4) by (auto simp: heap_but_def heap_def nth)
  have il: "i < length ?a" using Suc(2) by simp
  from sift_down_heap[OF il aC _ hb, of w] obtain arr1
    where a1: "sift_down cmp i ?a 0 w = (Done (), arr1, w)" "heap arr1 0 i" "\<And>k. i < k \<Longrightarrow> arr1 ! k = ?a ! k" by auto
  have perm: "mset arr1 = mset ?a" "length arr1 = length arr"
    using sift_down_perm[OF il a1(1)] by auto
  have a1C: "set arr1 \<subseteq> C" using perm aC by (metis set_mset_mset)
  have max: "le x (arr ! 0)" if x: "x \<in> set (take (Suc (Suc i)) arr)" for x
  proof -
    from x obtain k where "k < Suc (Suc i)" "x = arr ! k" by (auto simp: in_set_conv_nth)
    with heap_root_max[OF Suc(4) Suc(2,3), of k] show ?thesis by simp
  qed
  have tk: "mset (take (Suc i) arr1) + mset (drop (Suc i) arr1) = mset (take (Suc i) ?a) + mset (drop (Suc i) ?a)"
    using perm(1) by (metis append_take_drop_id mset_append)
  have "drop (Suc i) arr1 = drop (Suc i) ?a"
    using perm(2) a1(3) by (intro nth_equalityI) auto
  with tk have "mset (take (Suc i) arr1) = mset (take (Suc i) ?a)" by simp
  then have pre: "set (take (Suc i) arr1) = set (take (Suc i) ?a)" by (rule mset_eq_setD)
  have sub: "set (take (Suc i) ?a) \<subseteq> set (take (Suc (Suc i)) arr)"
  proof
    fix x assume "x \<in> set (take (Suc i) ?a)"
    then obtain k where k: "k < Suc i" "x = ?a ! k" by (auto simp: in_set_conv_nth)
    then have "x = (if k = 0 then arr ! Suc i else arr ! k)" by (simp add: nth)
    with k l show "x \<in> set (take (Suc (Suc i)) arr)"
      by (cases "k = 0") (auto simp: in_set_conv_nth intro: exI[of _ "Suc i"] exI[of _ k])
  qed
  have low: "arr1 ! j \<in> set (take (Suc (Suc i)) arr)" if "j \<le> i" for j
  proof -
    have "arr1 ! j \<in> set (take (Suc i) arr1)"
      using that perm(2) l by (auto simp: in_set_conv_nth intro!: exI[of _ j])
    with pre sub show ?thesis by blast
  qed
  have ord: "\<forall>j k. j < k \<and> i < k \<and> k < length arr1 \<longrightarrow> le (arr1 ! j) (arr1 ! k)"
  proof (intro allI impI)
    fix j k assume jk: "j < k \<and> i < k \<and> k < length arr1"
    then have k: "arr1 ! k = ?a ! k" using a1(3) by simp
    show "le (arr1 ! j) (arr1 ! k)"
    proof (cases "k = Suc i")
      case True
      then have "arr1 ! k = arr ! 0" using k by (simp add: nth)
      with low[of j] max jk True show ?thesis by simp
    next
      case False
      then have kk: "Suc i < k" "arr1 ! k = arr ! k" using jk k by (auto simp: nth)
      show ?thesis
      proof (cases "j \<le> i")
        case True
        from low[OF True] obtain q where "q < Suc (Suc i)" "arr1 ! j = arr ! q" by (auto simp: in_set_conv_nth)
        with Suc(5) kk jk perm(2) show ?thesis by auto
      next
        case False
        then have "arr1 ! j = ?a ! j" using a1(3) by simp
        then have "arr1 ! j = (if j = Suc i then arr ! 0 else arr ! j)" using False by (simp add: nth)
        with Suc(5) kk jk perm(2) show ?thesis by (cases "j = Suc i") auto
      qed
    qed
  qed
  have "i < length arr1" using l perm(2) by simp
  from Suc(1)[OF this a1C a1(2) ord] a1(1) perm(2) show ?case by simp
qed

lemma array_sort_sorts:
  assumes C: "set arr \<subseteq> C"
  shows "\<exists>arr'. array_sort cmp arr w = (Done (), arr', w) \<and> mset arr' = mset arr \<and> sorted_wrt le arr'"
proof (cases "1 < length arr")
  case False
  then have "sorted_wrt le arr" by (cases arr) (auto simp: Suc_le_eq)
  with False show ?thesis by (simp add: array_sort_def)
next
  case True
  let ?b = "length arr - 1"
  have b: "?b < length arr" using True by simp
  have "heap arr (Suc (length arr div 2)) ?b" by (auto simp: heap_def)
  from heapify_heap[OF b C this, of w] obtain arr1
    where h: "heapify cmp ?b (length arr div 2) arr w = (Done (), arr1, w)" "heap arr1 0 ?b" by blast
  have p: "mset arr1 = mset arr" "length arr1 = length arr" using heapify_perm[OF b h(1)] by auto
  have C1: "set arr1 \<subseteq> C" using p C by (metis set_mset_mset)
  have "?b < length arr1" using b p by simp
  moreover have "\<forall>j k. j < k \<and> ?b < k \<and> k < length arr1 \<longrightarrow> le (arr1 ! j) (arr1 ! k)" using p(2) by auto
  ultimately obtain arr'
    where e: "extract_max cmp ?b arr1 w = (Done (), arr', w)"
      "\<forall>j k. j < k \<and> k < length arr \<longrightarrow> le (arr' ! j) (arr' ! k)"
    using extract_sorted[OF _ C1 h(2), of w] p(2) by auto
  have r: "array_sort cmp arr w = (Done (), arr', w)"
    using True h(1) e(1) p(2) by (simp add: array_sort_def hsort_def)
  note pm = array_sort_perm[OF r]
  then have "length arr' = length arr" by (metis size_mset)
  with e(2) have "sorted_wrt le arr'" by (simp add: sorted_wrt_iff_nth_less)
  with r pm show ?thesis by blast
qed

end

section \<open>The default comparison\<close>

text \<open>Without a comparison function \<open>_sort_compare\<close> is \<open>ObjCmp\<close>.\<close>

definition int_le :: "gsobj \<Rightarrow> gsobj \<Rightarrow> bool" where
  "int_le a b = (case (a, b) of (OInteger i, OInteger j) \<Rightarrow> sint i \<le> sint j | _ \<Rightarrow> False)"

interpretation int_cmp: consistent_comparison "ObjCmp W" int_le "range OInteger" for W
proof unfold_locales
  fix a b :: gsobj and w
  assume "a \<in> range OInteger" "b \<in> range OInteger"
  then obtain i j where ij: "a = OInteger i" "b = OInteger j" by auto
  have ne: "i \<noteq> j \<Longrightarrow> sint i \<noteq> sint j" using signed_word_eqI by blast
  have one: "sint (- 1 :: gsint) = -1" "sint (1 :: gsint) = 1" by simp_all
  show "\<exists>r. ObjCmp W a b w = (Done r, w) \<and> (r <s 0 \<longleftrightarrow> \<not> int_le b a) \<and> (0 <s r \<longleftrightarrow> \<not> int_le a b)"
    using ne ij by (auto simp: ObjCmp_def int_le_def word_sless_alt)
qed (auto simp: int_le_def)

text \<open>C10: \<open>array.sort()\<close> without a comparison function sorts an array of integers: it succeeds, the
  result is a permutation of the array in ascending signed order, whatever the length and the
  duplicates.\<close>

theorem array_sort_integers:
  "\<exists>arr'. array_sort (ObjCmp W) (map OInteger xs) w = (Done (), arr', w)
     \<and> mset arr' = mset (map OInteger xs) \<and> sorted_wrt int_le arr'"
  by (rule int_cmp.array_sort_sorts) auto

text \<open>With any comparison function (one that fails, lies, or changes the world) \<open>array.sort\<close>
  terminates and leaves a permutation of the array: no element is lost or duplicated, also when
  the sort stops with an error half way.\<close>

theorem array_sort_any_comparison:
  "\<exists>r arr' w'. array_sort cmp arr w = (r, arr', w') \<and> mset arr' = mset arr"
proof -
  obtain r arr' w' where "array_sort cmp arr w = (r, arr', w')" by (metis prod_cases3)
  with array_sort_perm[OF this] show ?thesis by blast
qed

end
