(* ===== verification/GS_Vector.thy ===== *)
theory GS_Vector
  imports GS_Prelude
begin

text \<open>
  The growable array template (GSutils.h): the constructed elements and the number of cells
  allocated.  Shrinking the memory below the elements in it, and popping an empty vector, have
  no meaning in the code; these are None.
\<close>

record 'a vec =
  vvals :: "'a list"
  allocated :: nat

definition vec_new :: "'a vec" where
  "vec_new = \<lparr>vvals = [], allocated = 0\<rparr>"

definition vec_realloc :: "nat \<Rightarrow> 'a vec \<Rightarrow> 'a vec option" where
  "vec_realloc newsize v =
     (let n = (if 0 < newsize then newsize else 4) in
      if length (vvals v) \<le> n then Some (v\<lparr>allocated := n\<rparr>) else None)"

definition vec_reserve :: "nat \<Rightarrow> 'a vec \<Rightarrow> 'a vec option" where
  "vec_reserve newsize v = vec_realloc newsize v"

definition vec_resize :: "nat \<Rightarrow> 'a \<Rightarrow> 'a vec \<Rightarrow> 'a vec option" where
  "vec_resize newsize fill v =
     (case (if allocated v < newsize then vec_realloc newsize v else Some v) of
        None \<Rightarrow> None
      | Some v1 \<Rightarrow>
          if length (vvals v1) < newsize
          then Some (v1\<lparr>vvals := vvals v1 @ replicate (newsize - length (vvals v1)) fill\<rparr>)
          else Some (v1\<lparr>vvals := take newsize (vvals v1)\<rparr>))"

definition vec_shrinktofit :: "'a vec \<Rightarrow> 'a vec option" where
  "vec_shrinktofit v = (if 4 < length (vvals v) then vec_realloc (length (vvals v)) v else Some v)"

definition vec_push_back :: "'a \<Rightarrow> 'a vec \<Rightarrow> 'a vec option" where
  "vec_push_back x v =
     (case (if allocated v \<le> length (vvals v) then vec_realloc (length (vvals v) * 2) v else Some v) of
        None \<Rightarrow> None
      | Some v1 \<Rightarrow> Some (v1\<lparr>vvals := vvals v1 @ [x]\<rparr>))"

definition vec_pop_back :: "'a vec \<Rightarrow> 'a vec option" where
  "vec_pop_back v = (if vvals v = [] then None else Some (v\<lparr>vvals := butlast (vvals v)\<rparr>))"

text \<open>The loop of \<open>insert\<close>: \<open>for(i = _size - 1; i > idx; i--) _vals[i] = _vals[i - 1]\<close>.\<close>

fun shift_up :: "nat \<Rightarrow> nat \<Rightarrow> 'a list \<Rightarrow> 'a list" where
  "shift_up idx 0 xs = xs"
| "shift_up idx (Suc i) xs = (if idx < Suc i then shift_up idx i (xs[Suc i := xs ! i]) else xs)"

definition vec_insert :: "nat \<Rightarrow> 'a \<Rightarrow> 'a \<Rightarrow> 'a vec \<Rightarrow> 'a vec option" where
  "vec_insert idx val dflt v =
     (case vec_resize (length (vvals v) + 1) dflt v of
        None \<Rightarrow> None
      | Some v1 \<Rightarrow>
          Some (v1\<lparr>vvals := (shift_up idx (length (vvals v1) - 1) (vvals v1))[idx := val]\<rparr>))"

definition vec_remove :: "nat \<Rightarrow> 'a vec \<Rightarrow> 'a vec" where
  "vec_remove idx v =
     v\<lparr>vvals := (if idx < length (vvals v) - 1 then take idx (vvals v) @ drop (idx + 1) (vvals v)
                 else butlast (vvals v))\<rparr>"

definition vec_copy :: "'a vec \<Rightarrow> 'a vec \<Rightarrow> 'a vec option" where
  "vec_copy src v =
     (let v0 = v\<lparr>vvals := []\<rparr> in
      case (if allocated v0 < length (vvals src) then vec_realloc (length (vvals src)) v0 else Some v0) of
        None \<Rightarrow> None
      | Some v1 \<Rightarrow> Some (v1\<lparr>vvals := vvals src\<rparr>))"

section \<open>Refinement to lists\<close>

definition vec_ok :: "'a vec \<Rightarrow> bool" where
  "vec_ok v = (length (vvals v) \<le> allocated v)"

lemma length_shift_up [simp]: "length (shift_up idx i xs) = length xs"
  by (induction i arbitrary: xs) auto

lemma nth_shift_up:
  "i < length xs \<Longrightarrow> shift_up idx i xs ! k = (if idx < k \<and> k \<le> i then xs ! (k - 1) else xs ! k)"
proof (induction i arbitrary: xs)
  case (Suc i)
  show ?case
  proof (cases "idx < Suc i")
    case True
    have "shift_up idx i (xs[Suc i := xs ! i]) ! k
        = (if idx < k \<and> k \<le> i then xs[Suc i := xs ! i] ! (k - 1) else xs[Suc i := xs ! i] ! k)"
      using Suc by simp
    also have "\<dots> = (if idx < k \<and> k \<le> Suc i then xs ! (k - 1) else xs ! k)"
      using Suc(2) True by (cases "k = Suc i") (auto simp: nth_list_update)
    finally show ?thesis using True by simp
  qed auto
qed auto

lemma vec_resize_spec:
  assumes "vec_ok v"
  shows "\<exists>v'. vec_resize n fill v = Some v' \<and> vec_ok v'
     \<and> vvals v' = take n (vvals v) @ replicate (n - length (vvals v)) fill"
proof (cases "allocated v < n")
  case True
  with assms show ?thesis
    by (auto simp: vec_resize_def vec_realloc_def vec_ok_def Let_def)
next
  case False
  with assms show ?thesis
    by (auto simp: vec_resize_def vec_ok_def)
qed

lemma vec_insert_spec:
  assumes "vec_ok v" "idx \<le> length (vvals v)"
  shows "\<exists>v'. vec_insert idx val dflt v = Some v' \<and> vec_ok v'
     \<and> vvals v' = take idx (vvals v) @ val # drop idx (vvals v)"
proof -
  let ?xs = "vvals v" and ?n = "length (vvals v)"
  obtain v1 where v1: "vec_resize (?n + 1) dflt v = Some v1" "vvals v1 = ?xs @ [dflt]" "vec_ok v1"
    using vec_resize_spec[OF assms(1), of "?n + 1" dflt] by auto
  have "(shift_up idx ?n (?xs @ [dflt]))[idx := val] = take idx ?xs @ val # drop idx ?xs"
  proof (rule nth_equalityI)
    show "length ((shift_up idx ?n (?xs @ [dflt]))[idx := val]) = length (take idx ?xs @ val # drop idx ?xs)"
      using assms(2) by simp
    fix k assume "k < length ((shift_up idx ?n (?xs @ [dflt]))[idx := val])"
    then have "k \<le> ?n" by simp
    moreover have "idx < k \<Longrightarrow> k - 1 < ?n" using \<open>k \<le> ?n\<close> by simp
    ultimately show "(shift_up idx ?n (?xs @ [dflt]))[idx := val] ! k = (take idx ?xs @ val # drop idx ?xs) ! k"
      using assms(2)
      by (cases "k < idx"; cases "k = idx")
         (auto simp: nth_list_update nth_shift_up nth_append nth_Cons' min_def)
  qed
  with v1 show ?thesis by (auto simp: vec_insert_def vec_ok_def)
qed

lemma vec_push_back_spec:
  "vec_ok v \<Longrightarrow> \<exists>v'. vec_push_back x v = Some v' \<and> vec_ok v' \<and> vvals v' = vvals v @ [x]"
  by (cases "vvals v") (auto simp: vec_push_back_def vec_realloc_def vec_ok_def Let_def)

lemma vec_pop_back_spec:
  "vec_ok v \<Longrightarrow> vvals v \<noteq> [] \<Longrightarrow> \<exists>v'. vec_pop_back v = Some v' \<and> vec_ok v' \<and> vvals v' = butlast (vvals v)"
  by (auto simp: vec_pop_back_def vec_ok_def)

lemma vec_remove_spec:
  assumes "vec_ok v" "idx < length (vvals v)"
  shows "vec_ok (vec_remove idx v) \<and> vvals (vec_remove idx v) = take idx (vvals v) @ drop (idx + 1) (vvals v)"
proof (cases "idx < length (vvals v) - 1")
  case False
  with assms(2) have "idx = length (vvals v) - 1" by simp
  then have "butlast (vvals v) = take idx (vvals v) @ drop (idx + 1) (vvals v)"
    by (simp add: butlast_conv_take)
  with False assms show ?thesis by (auto simp: vec_remove_def vec_ok_def)
qed (use assms in \<open>auto simp: vec_remove_def vec_ok_def\<close>)

lemma vec_shrink_spec:
  "vec_ok v \<Longrightarrow> \<exists>v'. vec_shrinktofit v = Some v' \<and> vec_ok v' \<and> vvals v' = vvals v"
  by (auto simp: vec_shrinktofit_def vec_realloc_def vec_ok_def Let_def)

lemma vec_copy_spec:
  "\<exists>v'. vec_copy src v = Some v' \<and> vec_ok v' \<and> vvals v' = vvals src"
  by (cases "allocated v < length (vvals src)")
     (auto simp: vec_copy_def vec_realloc_def vec_ok_def Let_def)

text \<open>C13: The vector behind every array, stack and instruction buffer implements a list: on a
  vector whose elements fit its memory, resize, append, insertion by the shifting loop, removal,
  shrinking and copying return, keep the elements inside the allocated memory, and act on the
  elements as the list operation does, whether or not they reallocate.\<close>

theorem vector_implements_list:
  assumes "vec_ok v"
  shows "(\<exists>v1. vec_resize n x v = Some v1 \<and> vec_ok v1
           \<and> vvals v1 = take n (vvals v) @ replicate (n - length (vvals v)) x)
     \<and> (\<exists>v2. vec_push_back x v = Some v2 \<and> vec_ok v2 \<and> vvals v2 = vvals v @ [x])
     \<and> (idx \<le> length (vvals v) \<longrightarrow>
         (\<exists>v3. vec_insert idx x y v = Some v3 \<and> vec_ok v3
           \<and> vvals v3 = take idx (vvals v) @ x # drop idx (vvals v)))
     \<and> (idx < length (vvals v) \<longrightarrow>
         vec_ok (vec_remove idx v) \<and> vvals (vec_remove idx v) = take idx (vvals v) @ drop (idx + 1) (vvals v))
     \<and> (\<exists>v4. vec_shrinktofit v = Some v4 \<and> vec_ok v4 \<and> vvals v4 = vvals v)
     \<and> (\<exists>v5. vec_copy src v = Some v5 \<and> vec_ok v5 \<and> vvals v5 = vvals src)"
  by (intro conjI impI vec_resize_spec[OF assms] vec_push_back_spec[OF assms] vec_insert_spec[OF assms]
      vec_shrink_spec[OF assms] vec_copy_spec conjunct1[OF vec_remove_spec[OF assms]]
      conjunct2[OF vec_remove_spec[OF assms]])

lemma vector_implements_list_witness:
  "\<exists>v. vec_insert 1 (7 :: nat) 0 \<lparr>vvals = [1, 2, 3, 4], allocated = 4\<rparr> = Some v \<and> vvals v = [1, 7, 2, 3, 4]"
  using vector_implements_list[of "\<lparr>vvals = [1, 2, 3, 4 :: nat], allocated = 4\<rparr>" 0 7 1 0 vec_new]
  by (auto simp: vec_ok_def)

end
