(* ===== verification/GS_Lexer.thy ===== *)
theory GS_Lexer
  imports GS_VMOps
begin

text \<open>
  The lexer (GSlexer.h, GSlexer.cpp; the token numbers of GScompiler.h).  The state has what the
  reader function will still deliver (\<open>input\<close>, 0 for ever once it is empty), the current
  character and the fields of \<open>GSLexer\<close>.  An \<open>Error\<close> leaves the compiler by a long jump; it is
  the left summand of the result.  Tokens are their numbers, a character token is its code.

  The C library's conversion of a decimal floating constant is the parameter \<open>strtod\<close>.  The
  keyword table is the association list \<open>keyword_table\<close>; it is filled once by \<open>Init\<close> and then only
  read.  All loops end because every turn consumes input (\<open>rem\<close>).
\<close>

section \<open>Tokens\<close>

abbreviation TK_IDENTIFIER :: int where "TK_IDENTIFIER \<equiv> 258"
abbreviation TK_STRING_LITERAL :: int where "TK_STRING_LITERAL \<equiv> 259"
abbreviation TK_INTEGER :: int where "TK_INTEGER \<equiv> 260"
abbreviation TK_FLOAT :: int where "TK_FLOAT \<equiv> 261"
abbreviation TK_BASE :: int where "TK_BASE \<equiv> 262"
abbreviation TK_DELETE :: int where "TK_DELETE \<equiv> 263"
abbreviation TK_EQ :: int where "TK_EQ \<equiv> 264"
abbreviation TK_NE :: int where "TK_NE \<equiv> 265"
abbreviation TK_LE :: int where "TK_LE \<equiv> 266"
abbreviation TK_GE :: int where "TK_GE \<equiv> 267"
abbreviation TK_SWITCH :: int where "TK_SWITCH \<equiv> 268"
abbreviation TK_ARROW :: int where "TK_ARROW \<equiv> 269"
abbreviation TK_AND :: int where "TK_AND \<equiv> 270"
abbreviation TK_OR :: int where "TK_OR \<equiv> 271"
abbreviation TK_IF :: int where "TK_IF \<equiv> 272"
abbreviation TK_ELSE :: int where "TK_ELSE \<equiv> 273"
abbreviation TK_WHILE :: int where "TK_WHILE \<equiv> 274"
abbreviation TK_BREAK :: int where "TK_BREAK \<equiv> 275"
abbreviation TK_FOR :: int where "TK_FOR \<equiv> 276"
abbreviation TK_DO :: int where "TK_DO \<equiv> 277"
abbreviation TK_NULL :: int where "TK_NULL \<equiv> 278"
abbreviation TK_FOREACH :: int where "TK_FOREACH \<equiv> 279"
abbreviation TK_IN :: int where "TK_IN \<equiv> 280"
abbreviation TK_NEWSLOT :: int where "TK_NEWSLOT \<equiv> 281"
abbreviation TK_LOCAL :: int where "TK_LOCAL \<equiv> 283"
abbreviation TK_CLONE :: int where "TK_CLONE \<equiv> 284"
abbreviation TK_FUNCTION :: int where "TK_FUNCTION \<equiv> 285"
abbreviation TK_RETURN :: int where "TK_RETURN \<equiv> 286"
abbreviation TK_TYPEOF :: int where "TK_TYPEOF \<equiv> 287"
abbreviation TK_PLUSEQ :: int where "TK_PLUSEQ \<equiv> 289"
abbreviation TK_MINUSEQ :: int where "TK_MINUSEQ \<equiv> 290"
abbreviation TK_CONTINUE :: int where "TK_CONTINUE \<equiv> 291"
abbreviation TK_YIELD :: int where "TK_YIELD \<equiv> 292"
abbreviation TK_TRY :: int where "TK_TRY \<equiv> 293"
abbreviation TK_CATCH :: int where "TK_CATCH \<equiv> 294"
abbreviation TK_THROW :: int where "TK_THROW \<equiv> 295"
abbreviation TK_SHIFTL :: int where "TK_SHIFTL \<equiv> 296"
abbreviation TK_SHIFTR :: int where "TK_SHIFTR \<equiv> 297"
abbreviation TK_RESUME :: int where "TK_RESUME \<equiv> 298"
abbreviation TK_DOUBLE_COLON :: int where "TK_DOUBLE_COLON \<equiv> 299"
abbreviation TK_CASE :: int where "TK_CASE \<equiv> 300"
abbreviation TK_DEFAULT :: int where "TK_DEFAULT \<equiv> 301"
abbreviation TK_THIS :: int where "TK_THIS \<equiv> 302"
abbreviation TK_PLUSPLUS :: int where "TK_PLUSPLUS \<equiv> 303"
abbreviation TK_MINUSMINUS :: int where "TK_MINUSMINUS \<equiv> 304"
abbreviation TK_3WAYSCMP :: int where "TK_3WAYSCMP \<equiv> 305"
abbreviation TK_USHIFTR :: int where "TK_USHIFTR \<equiv> 306"
abbreviation TK_CLASS :: int where "TK_CLASS \<equiv> 307"
abbreviation TK_EXTENDS :: int where "TK_EXTENDS \<equiv> 308"
abbreviation TK_CONSTRUCTOR :: int where "TK_CONSTRUCTOR \<equiv> 310"
abbreviation TK_INSTANCEOF :: int where "TK_INSTANCEOF \<equiv> 311"
abbreviation TK_VARPARAMS :: int where "TK_VARPARAMS \<equiv> 312"
abbreviation TK_LINE :: int where "TK_LINE \<equiv> 313"
abbreviation TK_FILE :: int where "TK_FILE \<equiv> 314"
abbreviation TK_TRUE :: int where "TK_TRUE \<equiv> 315"
abbreviation TK_FALSE :: int where "TK_FALSE \<equiv> 316"
abbreviation TK_MULEQ :: int where "TK_MULEQ \<equiv> 317"
abbreviation TK_DIVEQ :: int where "TK_DIVEQ \<equiv> 318"
abbreviation TK_MODEQ :: int where "TK_MODEQ \<equiv> 319"
abbreviation TK_ATTR_OPEN :: int where "TK_ATTR_OPEN \<equiv> 320"
abbreviation TK_ATTR_CLOSE :: int where "TK_ATTR_CLOSE \<equiv> 321"
abbreviation TK_STATIC :: int where "TK_STATIC \<equiv> 322"
abbreviation TK_ENUM :: int where "TK_ENUM \<equiv> 323"
abbreviation TK_CONST :: int where "TK_CONST \<equiv> 324"
abbreviation TK_RAWCALL :: int where "TK_RAWCALL \<equiv> 325"
abbreviation TK_PUB :: int where "TK_PUB \<equiv> 326"
abbreviation TK_IMPORT :: int where "TK_IMPORT \<equiv> 328"
abbreviation TK_NAMESPACE :: int where "TK_NAMESPACE \<equiv> 329"
abbreviation TK_INT :: int where "TK_INT \<equiv> 330"
abbreviation TK_STRING :: int where "TK_STRING \<equiv> 331"
abbreviation TK_BOOL :: int where "TK_BOOL \<equiv> 332"
abbreviation TK_VOID :: int where "TK_VOID \<equiv> 333"

definition keyword_table :: "(string \<times> int) list" where
  "keyword_table =
     [(''while'', TK_WHILE), (''do'', TK_DO), (''if'', TK_IF), (''else'', TK_ELSE),
      (''break'', TK_BREAK), (''continue'', TK_CONTINUE), (''return'', TK_RETURN), (''null'', TK_NULL),
      (''func'', TK_FUNCTION), (''local'', TK_LOCAL), (''for'', TK_FOR), (''foreach'', TK_FOREACH),
      (''in'', TK_IN), (''typeof'', TK_TYPEOF), (''base'', TK_BASE), (''delete'', TK_DELETE),
      (''try'', TK_TRY), (''catch'', TK_CATCH), (''throw'', TK_THROW), (''clone'', TK_CLONE),
      (''yield'', TK_YIELD), (''resume'', TK_RESUME), (''switch'', TK_SWITCH), (''case'', TK_CASE),
      (''default'', TK_DEFAULT), (''this'', TK_THIS), (''class'', TK_CLASS), (''extends'', TK_EXTENDS),
      (''constructor'', TK_CONSTRUCTOR), (''instanceof'', TK_INSTANCEOF), (''true'', TK_TRUE), (''false'', TK_FALSE),
      (''static'', TK_STATIC), (''enum'', TK_ENUM), (''const'', TK_CONST), (''__LINE__'', TK_LINE),
      (''__FILE__'', TK_FILE), (''rawcall'', TK_RAWCALL), (''pub'', TK_PUB), (''import'', TK_IMPORT),
      (''namespace'', TK_NAMESPACE), (''int'', TK_INT), (''float'', TK_FLOAT), (''str'', TK_STRING),
      (''bool'', TK_BOOL), (''void'', TK_VOID)]"

section \<open>State\<close>

record lexer =
  input :: "int list"
  cur :: nat
  currentline :: int
  currentcolumn :: int
  lasttokenline :: int
  prevtoken :: int
  curtoken :: int
  reached_eof :: bool
  svalue :: string
  nvalue :: gsint
  fvalue :: gsfloat

type_synonym 'a lexres = "string + 'a"

text \<open>\<open>Next\<close>, and the macro \<open>NEXT\<close> that also counts the column.\<close>

definition Next_char :: "lexer \<Rightarrow> lexer lexres" where
  "Next_char st =
     (case input st of
        [] \<Rightarrow> Inr (st\<lparr>cur := 0, reached_eof := True\<rparr>)
      | t # ts \<Rightarrow>
          if 255 < t then Inl ''Invalid character''
          else if t \<noteq> 0 then Inr (st\<lparr>input := ts, cur := nat (t mod 256)\<rparr>)
          else Inr (st\<lparr>input := ts, cur := 0, reached_eof := True\<rparr>))"

definition NEXT :: "lexer \<Rightarrow> lexer lexres" where
  "NEXT st = bind_res (Next_char st) (\<lambda>st'. Inr (st'\<lparr>currentcolumn := currentcolumn st' + 1\<rparr>))"

definition Init :: "int list \<Rightarrow> lexer lexres" where
  "Init inp =
     Next_char \<lparr>input = inp, cur = 0, currentline = 1, currentcolumn = 0, lasttokenline = 1,
       prevtoken = -1, curtoken = 0, reached_eof = False, svalue = [], nvalue = 0, fvalue = 0\<rparr>"

text \<open>What is left to read; a character that is not the end counts.\<close>

definition rem :: "lexer \<Rightarrow> nat" where
  "rem st = length (input st) + (if cur st \<noteq> 0 then 1 else 0)"

lemma NEXT_rem: "NEXT st = Inr st' \<Longrightarrow> rem st' \<le> rem st \<and> (cur st \<noteq> 0 \<longrightarrow> rem st' < rem st)"
  by (auto simp: NEXT_def Next_char_def rem_def bind_res_Inr split: list.splits if_splits)

text \<open>Character classes of the C library in the C locale.\<close>

abbreviation chr :: "char \<Rightarrow> nat" where "chr c \<equiv> of_char c"

definition isdigit :: "nat \<Rightarrow> bool" where "isdigit c = (48 \<le> c \<and> c \<le> 57)"
definition isodigit :: "nat \<Rightarrow> bool" where "isodigit c = (48 \<le> c \<and> c \<le> 55)"
definition isxdigit :: "nat \<Rightarrow> bool" where
  "isxdigit c = (isdigit c \<or> (65 \<le> c \<and> c \<le> 70) \<or> (97 \<le> c \<and> c \<le> 102))"
definition isalpha :: "nat \<Rightarrow> bool" where "isalpha c = ((65 \<le> c \<and> c \<le> 90) \<or> (97 \<le> c \<and> c \<le> 122))"
definition isalnum :: "nat \<Rightarrow> bool" where "isalnum c = (isalpha c \<or> isdigit c)"
definition iscntrl :: "nat \<Rightarrow> bool" where "iscntrl c = (c < 32 \<or> c = 127)"
definition isexponent :: "nat \<Rightarrow> bool" where "isexponent c = (c = chr CHR ''e'' \<or> c = chr CHR ''E'')"

section \<open>Comments\<close>

function LexLineComment :: "lexer \<Rightarrow> lexer lexres" where
  "LexLineComment st =
     bind_res (NEXT st) (\<lambda>st1.
       if cur st1 \<noteq> 10 \<and> cur st1 \<noteq> 0 then LexLineComment st1 else Inr st1)"
  by pat_completeness auto
termination
proof (relation "measure (\<lambda>st. 2 * length (input st) + (if cur st \<noteq> 0 then 1 else 0) + 1)")
  fix st x assume "NEXT st = Inr x" "cur x \<noteq> 10 \<and> cur x \<noteq> 0"
  then show "(x, st) \<in> measure (\<lambda>st. 2 * length (input st) + (if cur st \<noteq> 0 then 1 else 0) + 1)"
    by (auto simp: NEXT_def Next_char_def bind_res_Inr split: list.splits if_splits)
qed simp

declare LexLineComment.simps [simp del]

function LexBlockComment :: "lexer \<Rightarrow> lexer lexres" where
  "LexBlockComment st =
     (if cur st = chr CHR ''*'' then
        bind_res (NEXT st) (\<lambda>st1.
          if cur st1 = chr CHR ''/'' then NEXT st1 else LexBlockComment st1)
      else if cur st = 10 then
        bind_res (NEXT (st\<lparr>currentline := currentline st + 1\<rparr>)) LexBlockComment
      else if cur st = 0 then Inl (''missing '' @ [CHR 0x22] @ ''*/'' @ [CHR 0x22] @ '' in comment'')
      else bind_res (NEXT st) LexBlockComment)"
  by pat_completeness auto
termination
  by (relation "measure rem") (auto dest!: NEXT_rem simp: rem_def)

declare LexBlockComment.simps [simp del]

section \<open>Strings\<close>

definition byte_char :: "nat \<Rightarrow> char" where
  "byte_char n = char_of n"

text \<open>\<open>AddUTF8\<close>: the bytes appended for a code point.\<close>

definition AddUTF8 :: "nat \<Rightarrow> string" where
  "AddUTF8 ch =
     (if ch < 0x80 then [byte_char ch]
      else if ch < 0x800 then [byte_char (drop_bit 6 ch OR 0xC0), byte_char ((ch AND 0x3F) OR 0x80)]
      else if ch < 0x10000 then
        [byte_char (drop_bit 12 ch OR 0xE0), byte_char ((drop_bit 6 ch AND 0x3F) OR 0x80),
         byte_char ((ch AND 0x3F) OR 0x80)]
      else if ch < 0x110000 then
        [byte_char (drop_bit 18 ch OR 0xF0), byte_char ((drop_bit 12 ch AND 0x3F) OR 0x80),
         byte_char ((drop_bit 6 ch AND 0x3F) OR 0x80), byte_char ((ch AND 0x3F) OR 0x80)]
      else [])"

text \<open>The value of a hexadecimal digit, and of a digit string in a 64-bit accumulator.\<close>

definition hex_val :: "nat \<Rightarrow> nat" where
  "hex_val c = (if isdigit c then c - 48 else if 97 \<le> c then c - 97 + 10 else c - 65 + 10)"

definition LexHexadecimal :: "nat list \<Rightarrow> gsint" where
  "LexHexadecimal s = fold (\<lambda>c r. r * 16 + of_nat (hex_val c)) s 0"

definition LexInteger :: "nat list \<Rightarrow> gsint" where
  "LexInteger s = fold (\<lambda>c r. r * 10 + of_nat (c - 48)) s 0"

definition LexOctal :: "nat list \<Rightarrow> gsint" where
  "LexOctal s = fold (\<lambda>c r. r * 8 + of_nat (c - 48)) s 0"

text \<open>\<open>ProcessStringHexEscape\<close>: up to \<open>k\<close> hexadecimal digits after the current character; the
  escapes convert them with \<open>strtoul\<close>.\<close>

fun hex_digits :: "nat \<Rightarrow> lexer \<Rightarrow> (lexer \<times> nat list) lexres" where
  "hex_digits 0 st = Inr (st, [])"
| "hex_digits (Suc k) st =
     (if isxdigit (cur st) then
        bind_res (NEXT st) (\<lambda>st1. bind_res (hex_digits k st1) (\<lambda>(st2, ds). Inr (st2, cur st # ds)))
      else Inr (st, []))"

definition ProcessStringHexEscape :: "nat \<Rightarrow> lexer \<Rightarrow> (lexer \<times> nat list) lexres" where
  "ProcessStringHexEscape maxdigits st =
     bind_res (NEXT st) (\<lambda>st1.
       if \<not> isxdigit (cur st1) then Inl ''hexadecimal number expected'' else hex_digits maxdigits st1)"

definition strtoul16 :: "nat list \<Rightarrow> nat" where
  "strtoul16 ds = fold (\<lambda>c r. r * 16 + hex_val c) ds 0"

text \<open>The simple escapes.\<close>

definition escape_char :: "nat \<Rightarrow> char option" where
  "escape_char c =
     map_of [(chr CHR ''t'', CHR 0x09), (chr CHR ''a'', CHR 0x07), (chr CHR ''b'', CHR 0x08),
             (chr CHR ''n'', CHR 0x0A), (chr CHR ''r'', CHR 0x0D), (chr CHR ''v'', CHR 0x0B),
             (chr CHR ''f'', CHR 0x0C), (chr CHR ''0'', CHR 0x00), (0x5C, CHR 0x5C),
             (0x22, CHR 0x22), (0x27, CHR 0x27)] c"

text \<open>One escape sequence, from the character after the backslash.\<close>

definition read_escape :: "lexer \<Rightarrow> (lexer \<times> string) lexres" where
  "read_escape st =
     (if cur st = chr CHR ''x'' then
        bind_res (ProcessStringHexEscape 2 st) (\<lambda>(st1, ds). Inr (st1, [byte_char (strtoul16 ds)]))
      else if cur st = chr CHR ''u'' \<or> cur st = chr CHR ''U'' then
        bind_res (ProcessStringHexEscape (if cur st = chr CHR ''u'' then 4 else 8) st)
          (\<lambda>(st1, ds). Inr (st1, AddUTF8 (strtoul16 ds)))
      else case escape_char (cur st) of
             Some c \<Rightarrow> bind_res (NEXT st) (\<lambda>st1. Inr (st1, [c]))
           | None \<Rightarrow> Inl ''unrecognised escaper char'')"

lemma hex_digits_rem: "hex_digits k st = Inr (st', ds) \<Longrightarrow> rem st' \<le> rem st"
proof (induction k arbitrary: st ds)
  case (Suc k)
  show ?case
  proof (cases "isxdigit (cur st)")
    case True
    with Suc.prems obtain st1 b where "NEXT st = Inr st1" "hex_digits k st1 = Inr (st', b)"
      by (auto simp: bind_res_Inr)
    with Suc.IH[of st1 b] NEXT_rem[of st st1] show ?thesis by simp
  qed (use Suc.prems in simp)
qed auto

lemma rem_currentline [simp]: "rem (st\<lparr>currentline := l\<rparr>) = rem st"
  by (simp add: rem_def)

lemma read_escape_rem: "read_escape st = Inr (st', cs) \<Longrightarrow> rem st' \<le> rem st"
  by (auto simp: read_escape_def ProcessStringHexEscape_def bind_res_Inr
      split: if_splits option.splits dest!: NEXT_rem hex_digits_rem)

text \<open>The body of a string up to and including its closing delimiter.  A verbatim string goes on
  after a doubled quote; only there may a newline occur.\<close>

function read_chars :: "nat \<Rightarrow> bool \<Rightarrow> lexer \<Rightarrow> (lexer \<times> string) lexres" where
  "read_chars ndelim verbatim st =
     (if cur st \<noteq> ndelim then
        (if cur st = 0 then Inl ''unfinished string''
         else if cur st = 10 then
           (if \<not> verbatim then Inl ''newline in a constant''
            else bind_res (NEXT st) (\<lambda>st1.
              bind_res (read_chars ndelim verbatim (st1\<lparr>currentline := currentline st1 + 1\<rparr>))
                (\<lambda>(st2, cs). Inr (st2, byte_char 10 # cs))))
         else if cur st = 0x5C then
           (if verbatim then bind_res (NEXT st) (\<lambda>st1.
              bind_res (read_chars ndelim verbatim st1) (\<lambda>(st2, cs). Inr (st2, byte_char 0x5C # cs)))
            else bind_res (NEXT st) (\<lambda>st1.
              bind_res (read_escape st1) (\<lambda>(st2, es).
                bind_res (read_chars ndelim verbatim st2) (\<lambda>(st3, cs). Inr (st3, es @ cs)))))
         else bind_res (NEXT st) (\<lambda>st1.
           bind_res (read_chars ndelim verbatim st1) (\<lambda>(st2, cs). Inr (st2, byte_char (cur st) # cs))))
      else bind_res (NEXT st) (\<lambda>st1.
        if verbatim \<and> cur st1 = 0x22 then
          bind_res (NEXT st1) (\<lambda>st2.
            bind_res (read_chars ndelim verbatim st2) (\<lambda>(st3, cs). Inr (st3, byte_char 0x22 # cs)))
        else Inr (st1, [])))"
  by pat_completeness auto
termination
  by (relation "measure (\<lambda>(ndelim, verbatim, st). rem st)") (auto dest!: NEXT_rem read_escape_rem)

declare read_chars.simps [simp del]

lemma read_chars_rem:
  assumes "ndelim \<noteq> 0"
  shows "read_chars ndelim verbatim st = Inr (st', cs) \<Longrightarrow> rem st' < rem st"
proof (induction "rem st" arbitrary: st st' cs rule: less_induct)
  case less
  have step: "rem st2 < rem st" if "read_chars ndelim verbatim st1 = Inr (st2, ds)" "rem st1 < rem st" for st1 st2 ds
    using less(1)[OF that(2,1)] that(2) by simp
  have step': "rem st2 < rem st"
    if "read_chars ndelim verbatim (st1\<lparr>currentline := l\<rparr>) = Inr (st2, ds)" "rem st1 < rem st" for st1 st2 ds l
    using step[OF that(1)] that(2) by simp
  have step2: "rem st2 < rem st"
    if "read_chars ndelim verbatim st1 = Inr (st2, ds)" "rem st1 \<le> rem st0" "rem st0 < rem st" for st0 st1 st2 ds
    using step[OF that(1)] that(2,3) by simp
  show ?case
    using less.prems assms
    by (subst (asm) read_chars.simps)
       (auto simp: bind_res_Inr split: if_splits dest!: NEXT_rem read_escape_rem intro: step step' step2)
qed

text \<open>\<open>ReadString\<close>; None is its result -1.\<close>

definition ReadString :: "nat \<Rightarrow> bool \<Rightarrow> lexer \<Rightarrow> (lexer \<times> int option) lexres" where
  "ReadString ndelim verbatim st =
     bind_res (NEXT st) (\<lambda>st1.
       if cur st1 = 0 then Inr (st1, None)
       else bind_res (read_chars ndelim verbatim st1) (\<lambda>(st2, s).
         if ndelim = 0x27 then
           (if length s = 0 then Inl ''empty constant''
            else if 1 < length s then Inl ''constant too long''
            else Inr (st2\<lparr>nvalue := scast (of_char (s ! 0) :: 8 word)\<rparr>, Some TK_INTEGER))
         else Inr (st2\<lparr>svalue := s\<rparr>, Some TK_STRING_LITERAL)))"

section \<open>Numbers and identifiers\<close>

function read_while :: "(nat \<Rightarrow> bool) \<Rightarrow> lexer \<Rightarrow> (lexer \<times> nat list) lexres" where
  "read_while p st =
     (if p (cur st) \<and> cur st \<noteq> 0 then
        bind_res (NEXT st) (\<lambda>st1. bind_res (read_while p st1) (\<lambda>(st2, cs). Inr (st2, cur st # cs)))
      else Inr (st, []))"
  by pat_completeness auto
termination by (relation "measure (\<lambda>(p, st). rem st)") (auto dest!: NEXT_rem)

declare read_while.simps [simp del]

lemma read_while_rem: "read_while p st = Inr (st', cs) \<Longrightarrow> rem st' \<le> rem st"
proof (induction "rem st" arbitrary: st st' cs rule: less_induct)
  case less
  have step: "rem st2 < rem st" if "rem st1 < rem st" "read_while p st1 = Inr (st2, ds)" for st1 st2 ds
    using less(1)[OF that] that(1) by simp
  show ?case
    using less.prems
    by (subst (asm) read_while.simps)
       (auto simp: bind_res_Inr split: if_splits dest!: NEXT_rem intro: less_imp_le step)
qed

text \<open>An exponent: its letter, an optional sign and its first digit.\<close>

definition read_exponent :: "lexer \<Rightarrow> (lexer \<times> nat list) lexres" where
  "read_exponent st =
     bind_res (NEXT st) (\<lambda>st1.
       bind_res (if cur st1 = chr CHR ''+'' \<or> cur st1 = chr CHR ''-''
                 then bind_res (NEXT st1) (\<lambda>st2. Inr (st2, [cur st1])) else Inr (st1, [])) (\<lambda>(st3, sgn).
         if \<not> isdigit (cur st3) then Inl ''exponent expected''
         else bind_res (NEXT st3) (\<lambda>st4. Inr (st4, cur st # sgn @ [cur st3]))))"

lemma read_exponent_rem: "read_exponent st = Inr (st', cs) \<Longrightarrow> rem st' < rem st"
  by (auto simp: read_exponent_def bind_res_Inr isdigit_def split: if_splits dest!: NEXT_rem)

text \<open>The loop over a decimal number: \<open>isfloat\<close> is set by a point or an exponent.\<close>

function read_decimal :: "bool \<Rightarrow> lexer \<Rightarrow> (lexer \<times> bool \<times> nat list) lexres" where
  "read_decimal isfloat st =
     (if isexponent (cur st) then
        bind_res (read_exponent st) (\<lambda>(st1, es).
          bind_res (read_decimal True st1) (\<lambda>(st2, fl, cs). Inr (st2, fl, es @ cs)))
      else if cur st = chr CHR ''.'' \<or> isdigit (cur st) then
        bind_res (NEXT st) (\<lambda>st1.
          bind_res (read_decimal (isfloat \<or> cur st = chr CHR ''.'') st1)
            (\<lambda>(st2, fl, cs). Inr (st2, fl, cur st # cs)))
      else Inr (st, isfloat, []))"
  by pat_completeness auto
termination
  by (relation "measure (\<lambda>(isfloat, st). rem st)")
     (auto simp: isdigit_def dest!: NEXT_rem read_exponent_rem)

declare read_decimal.simps [simp del]

definition ReadNumber :: "(nat list \<Rightarrow> gsfloat) \<Rightarrow> lexer \<Rightarrow> (lexer \<times> int) lexres" where
  "ReadNumber strtod st =
     bind_res (NEXT st) (\<lambda>st1.
       if cur st = chr CHR ''0'' \<and> (cur st1 = chr CHR ''x'' \<or> cur st1 = chr CHR ''X'' \<or> isodigit (cur st1)) then
         (if isodigit (cur st1) then
            bind_res (read_while isodigit st1) (\<lambda>(st2, ds).
              if isdigit (cur st2) then Inl ''invalid octal number''
              else Inr (st2\<lparr>nvalue := LexOctal ds\<rparr>, TK_INTEGER))
          else bind_res (NEXT st1) (\<lambda>st2.
            bind_res (read_while isxdigit st2) (\<lambda>(st3, ds).
              if 16 < length ds then Inl ''too many digits for an Hex number''
              else Inr (st3\<lparr>nvalue := LexHexadecimal ds\<rparr>, TK_INTEGER))))
       else bind_res (read_decimal False st1) (\<lambda>(st2, fl, cs).
         if fl then Inr (st2\<lparr>fvalue := strtod (cur st # cs)\<rparr>, TK_FLOAT)
         else Inr (st2\<lparr>nvalue := LexInteger (cur st # cs)\<rparr>, TK_INTEGER)))"

definition GetIDType :: "string \<Rightarrow> int" where
  "GetIDType s = (case map_of keyword_table s of Some t \<Rightarrow> t | None \<Rightarrow> TK_IDENTIFIER)"

definition word_char :: "nat \<Rightarrow> bool" where
  "word_char c = (isalnum c \<or> c = chr CHR ''_'')"

definition ReadID :: "lexer \<Rightarrow> (lexer \<times> int) lexres" where
  "ReadID st =
     bind_res (NEXT st) (\<lambda>st1.
       bind_res (read_while word_char st1) (\<lambda>(st2, cs).
         let s = map byte_char (cur st # cs); res = GetIDType s in
         if res = TK_IDENTIFIER \<or> res = TK_CONSTRUCTOR then Inr (st2\<lparr>svalue := s\<rparr>, res)
         else Inr (st2, res)))"

text \<open>\<open>Tok2Str\<close>: the keyword with a token number.\<close>

definition Tok2Str :: "int \<Rightarrow> string option" where
  "Tok2Str tok = map_of (map (\<lambda>(k, t). (t, k)) keyword_table) tok"

section \<open>Tokens\<close>

definition return_token :: "int \<Rightarrow> lexer \<Rightarrow> (lexer \<times> int) lexres" where
  "return_token t st = Inr (st\<lparr>prevtoken := curtoken st, curtoken := t\<rparr>, t)"

text \<open>\<open>NEXT(); RETURN_TOKEN(t)\<close>, and a token of one or two characters.\<close>

definition next_token :: "int \<Rightarrow> lexer \<Rightarrow> (lexer \<times> int) lexres" where
  "next_token t st = bind_res (NEXT st) (return_token t)"

fun one_or_two :: "(nat \<times> int) list \<Rightarrow> int \<Rightarrow> lexer \<Rightarrow> (lexer \<times> int) lexres" where
  "one_or_two [] t st = return_token t st"
| "one_or_two ((c, t2) # alts) t st = (if cur st = c then next_token t2 st else one_or_two alts t st)"

definition string_token :: "nat \<Rightarrow> bool \<Rightarrow> lexer \<Rightarrow> (lexer \<times> int) lexres" where
  "string_token ndelim verbatim st =
     bind_res (ReadString ndelim verbatim st) (\<lambda>(st1, r).
       case r of Some t \<Rightarrow> return_token t st1 | None \<Rightarrow> Inl ''error parsing the string'')"

text \<open>The token that starts at the current character; comments and white space are handled by the
  caller, a slash is passed when its second character is known.\<close>

definition lex_token :: "(nat list \<Rightarrow> gsfloat) \<Rightarrow> lexer \<Rightarrow> (lexer \<times> int) lexres" where
  "lex_token strtod st =
     (let c = cur st in
      if c = chr CHR ''='' then bind_res (NEXT st) (one_or_two [(chr CHR ''='', TK_EQ)] (int c))
      else if c = chr CHR ''<'' then
        bind_res (NEXT st) (\<lambda>st1.
          if cur st1 = chr CHR ''='' then
            bind_res (NEXT st1) (one_or_two [(chr CHR ''>'', TK_3WAYSCMP)] TK_LE)
          else one_or_two [(chr CHR ''-'', TK_NEWSLOT), (chr CHR ''<'', TK_SHIFTL), (chr CHR ''/'', TK_ATTR_OPEN)] (int c) st1)
      else if c = chr CHR ''>'' then
        bind_res (NEXT st) (\<lambda>st1.
          if cur st1 = chr CHR ''='' then next_token TK_GE st1
          else if cur st1 = chr CHR ''>'' then
            bind_res (NEXT st1) (one_or_two [(chr CHR ''>'', TK_USHIFTR)] TK_SHIFTR)
          else return_token (int c) st1)
      else if c = chr CHR ''!'' then bind_res (NEXT st) (one_or_two [(chr CHR ''='', TK_NE)] (int c))
      else if c = chr CHR ''@'' then
        bind_res (NEXT st) (\<lambda>st1.
          if cur st1 \<noteq> 0x22 then return_token (int c) st1 else string_token 0x22 True st1)
      else if c = 0x22 \<or> c = 0x27 then string_token c False st
      else if c \<in> set (map of_char ''{}()[];,?^~'') then next_token (int c) st
      else if c = chr CHR ''.'' then
        bind_res (NEXT st) (\<lambda>st1.
          if cur st1 \<noteq> chr CHR ''.'' then return_token (int c) st1
          else bind_res (NEXT st1) (\<lambda>st2.
            if cur st2 \<noteq> chr CHR ''.'' then Inl (''invalid token '' @ [CHR 0x27] @ ''..'' @ [CHR 0x27])
            else next_token TK_VARPARAMS st2))
      else if c = chr CHR ''&'' then bind_res (NEXT st) (one_or_two [(chr CHR ''&'', TK_AND)] (int c))
      else if c = chr CHR ''|'' then bind_res (NEXT st) (one_or_two [(chr CHR ''|'', TK_OR)] (int c))
      else if c = chr CHR '':'' then bind_res (NEXT st) (one_or_two [(chr CHR '':'', TK_DOUBLE_COLON)] (int c))
      else if c = chr CHR ''*'' then bind_res (NEXT st) (one_or_two [(chr CHR ''='', TK_MULEQ)] (int c))
      else if c = chr CHR ''%'' then bind_res (NEXT st) (one_or_two [(chr CHR ''='', TK_MODEQ)] (int c))
      else if c = chr CHR ''-'' then
        bind_res (NEXT st) (one_or_two [(chr CHR ''='', TK_MINUSEQ), (chr CHR ''-'', TK_MINUSMINUS), (chr CHR ''>'', TK_ARROW)] (int c))
      else if c = chr CHR ''+'' then
        bind_res (NEXT st) (one_or_two [(chr CHR ''='', TK_PLUSEQ), (chr CHR ''+'', TK_PLUSPLUS)] (int c))
      else if isdigit c then bind_res (ReadNumber strtod st) (\<lambda>(st1, t). return_token t st1)
      else if isalpha c \<or> c = chr CHR ''_'' then bind_res (ReadID st) (\<lambda>(st1, t). return_token t st1)
      else if iscntrl c then Inl ''unexpected character(control)''
      else next_token (int c) st)"


text \<open>Comments, identifiers, numbers and tokens never give input back.\<close>

lemma LexLineComment_rem: "LexLineComment st = Inr st' \<Longrightarrow> rem st' \<le> rem st \<and> (cur st \<noteq> 0 \<longrightarrow> rem st' < rem st)"
proof (induction st rule: LexLineComment.induct)
  case (1 st)
  show ?case
  proof (cases "NEXT st")
    case (Inr st1)
    note r = NEXT_rem[OF Inr]
    show ?thesis
    proof (cases "cur st1 \<noteq> 10 \<and> cur st1 \<noteq> 0")
      case True
      then have "LexLineComment st1 = Inr st'" using "1.prems" Inr by (simp add: LexLineComment.simps[of st])
      with "1.IH"[OF Inr True] r show ?thesis by (metis le_less_trans le_trans)
    next
      case False
      then have "st' = st1" using "1.prems" Inr by (auto simp: LexLineComment.simps[of st])
      with r show ?thesis by simp
    qed
  qed (use "1.prems" in \<open>simp add: LexLineComment.simps\<close>)
qed

lemma LexBlockComment_rem: "LexBlockComment st = Inr st' \<Longrightarrow> rem st' \<le> rem st"
proof (induction "rem st" arbitrary: st rule: less_induct)
  case less
  have step: "rem st' \<le> rem st" if "LexBlockComment st1 = Inr st'" "rem st1 < rem st" for st1
    using less(1)[OF that(2,1)] that(2) by simp
  show ?case
    using less.prems
    by (subst (asm) LexBlockComment.simps)
       (auto simp: bind_res_Inr split: if_splits dest!: NEXT_rem intro: step)
qed

function Lex_loop :: "(nat list \<Rightarrow> gsfloat) \<Rightarrow> lexer \<Rightarrow> (lexer \<times> int) lexres" where
  "Lex_loop strtod st =
     (let c = cur st in
      if c = 0 then Inr (st, 0)
      else if c = 9 \<or> c = 13 \<or> c = 32 then bind_res (NEXT st) (Lex_loop strtod)
      else if c = 10 then
        bind_res (NEXT (st\<lparr>currentline := currentline st + 1, prevtoken := curtoken st, curtoken := 10\<rparr>))
          (\<lambda>st1. Lex_loop strtod (st1\<lparr>currentcolumn := 1\<rparr>))
      else if c = chr CHR ''#'' then bind_res (LexLineComment st) (Lex_loop strtod)
      else if c = chr CHR ''/'' then
        bind_res (NEXT st) (\<lambda>st1.
          if cur st1 = chr CHR ''*'' then
            bind_res (NEXT st1) (\<lambda>st2. bind_res (LexBlockComment st2) (Lex_loop strtod))
          else if cur st1 = chr CHR ''/'' then bind_res (LexLineComment st1) (Lex_loop strtod)
          else one_or_two [(chr CHR ''='', TK_DIVEQ), (chr CHR ''>'', TK_ATTR_CLOSE)] (int c) st1)
      else lex_token strtod st)"
  by pat_completeness auto
termination
  by (relation "measure (\<lambda>(strtod, st). rem st)")
     (force dest!: NEXT_rem LexLineComment_rem LexBlockComment_rem simp: rem_def)+

declare Lex_loop.simps [simp del]

definition Lex :: "(nat list \<Rightarrow> gsfloat) \<Rightarrow> lexer \<Rightarrow> (lexer \<times> int) lexres" where
  "Lex strtod st = Lex_loop strtod (st\<lparr>lasttokenline := currentline st\<rparr>)"


section \<open>Progress\<close>

text \<open>What one token takes: either the token is positive and some input is gone, or the input is
  at its end.\<close>

definition advances :: "lexer \<Rightarrow> (lexer \<times> int) lexres \<Rightarrow> bool" where
  "advances st r \<longleftrightarrow> (case r of Inl e \<Rightarrow> True | Inr (st', t) \<Rightarrow> 0 < t \<and> rem st' < rem st)"

lemma rem_updates [simp]:
  "rem (st\<lparr>currentcolumn := a\<rparr>) = rem st" "rem (st\<lparr>lasttokenline := b\<rparr>) = rem st"
  "rem (st\<lparr>prevtoken := c\<rparr>) = rem st" "rem (st\<lparr>curtoken := d\<rparr>) = rem st"
  "rem (st\<lparr>svalue := e\<rparr>) = rem st" "rem (st\<lparr>nvalue := f\<rparr>) = rem st" "rem (st\<lparr>fvalue := g\<rparr>) = rem st"
  by (simp_all add: rem_def)

lemma advances_Inl [simp]: "advances st (Inl e)"
  by (simp add: advances_def)

lemma advances_bind:
  "(\<And>x. r = Inr x \<Longrightarrow> advances st (f x)) \<Longrightarrow> advances st (bind_res r f)"
  by (cases r) simp_all

lemma advances_return: "rem st1 < rem st \<Longrightarrow> 0 < t \<Longrightarrow> advances st (return_token t st1)"
  by (simp add: advances_def return_token_def)

lemma advances_next: "rem st1 \<le> rem st \<Longrightarrow> cur st1 \<noteq> 0 \<Longrightarrow> 0 < t \<Longrightarrow> advances st (next_token t st1)"
  unfolding next_token_def by (rule advances_bind) (auto dest!: NEXT_rem intro!: advances_return)

lemma advances_next': "rem st1 < rem st \<Longrightarrow> 0 < t \<Longrightarrow> advances st (next_token t st1)"
  unfolding next_token_def by (rule advances_bind) (auto dest!: NEXT_rem intro!: advances_return)

lemma advances_one_or_two:
  "rem st1 < rem st \<Longrightarrow> 0 < t \<Longrightarrow> (\<forall>(c, t2) \<in> set alts. 0 < t2) \<Longrightarrow> advances st (one_or_two alts t st1)"
  by (induction alts t st1 rule: one_or_two.induct) (auto intro: advances_return advances_next')

lemma NEXT_less: "NEXT st = Inr st' \<Longrightarrow> cur st \<noteq> 0 \<Longrightarrow> rem st' < rem st"
  by (auto dest: NEXT_rem)

lemma ReadString_rem:
  assumes "ReadString ndelim verbatim st = Inr (st', r)" "ndelim \<noteq> 0" "cur st \<noteq> 0"
  shows "rem st' < rem st \<and> (r = None \<or> r = Some TK_INTEGER \<or> r = Some TK_STRING_LITERAL)"
proof -
  obtain st1 where n: "NEXT st = Inr st1"
    using assms(1) by (auto simp: ReadString_def bind_res_Inr)
  note l = NEXT_less[OF n assms(3)]
  show ?thesis
  proof (cases "cur st1 = 0 \<or> (\<exists>e. read_chars ndelim verbatim st1 = Inl e)")
    case True
    then show ?thesis using assms(1) n l by (auto simp: ReadString_def split: if_splits)
  next
    case False
    then obtain st2 s where r: "read_chars ndelim verbatim st1 = Inr (st2, s)"
      by (cases "read_chars ndelim verbatim st1") auto
    from read_chars_rem[OF assms(2) r] l have "rem st2 < rem st" by simp
    then show ?thesis using assms(1) n r False by (auto simp: ReadString_def split: if_splits)
  qed
qed

lemma advances_string_token:
  "cur st1 \<noteq> 0 \<Longrightarrow> rem st1 \<le> rem st \<Longrightarrow> ndelim \<noteq> 0 \<Longrightarrow> advances st (string_token ndelim verbatim st1)"
  unfolding string_token_def
  by (rule advances_bind) (auto dest!: ReadString_rem split: option.split intro!: advances_return)

lemma read_decimal_rem: "read_decimal fl st = Inr (st', fl', cs) \<Longrightarrow> rem st' \<le> rem st"
proof (induction "rem st" arbitrary: st fl st' fl' cs rule: less_induct)
  case less
  have step: "rem st2 \<le> rem st" if "read_decimal b st1 = Inr (st2, c, ds)" "rem st1 < rem st" for st1 b st2 c ds
    using less(1)[OF that(2,1)] that(2) by simp
  show ?case
    using less.prems
    by (subst (asm) read_decimal.simps)
       (auto simp: bind_res_Inr isdigit_def split: if_splits dest!: NEXT_rem read_exponent_rem intro: step)
qed

lemma ReadNumber_rem:
  assumes "ReadNumber strtod st = Inr (st', t)" "cur st \<noteq> 0"
  shows "rem st' < rem st \<and> 0 < t"
  using assms unfolding ReadNumber_def
  by (auto simp: bind_res_Inr split: if_splits dest!: NEXT_rem read_while_rem read_decimal_rem)

lemma GetIDType_pos: "0 < GetIDType s"
proof -
  have "\<forall>t \<in> snd ` set keyword_table. 0 < t" by (simp add: keyword_table_def)
  then show ?thesis
    by (auto simp: GetIDType_def split: option.split dest!: map_of_SomeD)
qed

lemma ReadID_rem:
  assumes "ReadID st = Inr (st', t)" "cur st \<noteq> 0"
  shows "rem st' < rem st \<and> 0 < t"
  using assms GetIDType_pos unfolding ReadID_def
  by (auto simp: bind_res_Inr Let_def split: if_splits dest!: NEXT_rem read_while_rem)

lemma advances_if:
  "(b \<Longrightarrow> advances st x) \<Longrightarrow> (\<not> b \<Longrightarrow> advances st y) \<Longrightarrow> advances st (if b then x else y)"
  by simp

definition at_or_after :: "lexer \<Rightarrow> lexer \<Rightarrow> bool" where
  "at_or_after st st1 \<longleftrightarrow> rem st1 < rem st \<or> st1 = st \<and> cur st \<noteq> 0"

lemma advances_NEXT:
  assumes "at_or_after st st1" "\<And>st2. rem st2 < rem st \<Longrightarrow> advances st (f st2)"
  shows "advances st (bind_res (NEXT st1) f)"
proof (rule advances_bind)
  fix x assume "NEXT st1 = Inr x"
  from NEXT_rem[OF this] assms show "advances st (f x)" by (auto simp: at_or_after_def)
qed

lemma advances_next_token:
  "at_or_after st st1 \<Longrightarrow> 0 < t \<Longrightarrow> advances st (next_token t st1)"
  unfolding next_token_def by (rule advances_NEXT) (auto intro: advances_return)

lemma advances_lex_token:
  assumes "cur st \<noteq> 0"
  shows "advances st (lex_token strtod st)"
proof -
  have aft: "rem st1 < rem st \<Longrightarrow> at_or_after st st1" for st1 by (simp add: at_or_after_def)
  have here: "at_or_after st st" using assms by (simp add: at_or_after_def)
  have c: "0 < int (cur st)" using assms by simp
  have num: "advances st (bind_res (ReadNumber strtod st) (\<lambda>(st1, t). return_token t st1))"
    by (rule advances_bind) (use assms in \<open>auto dest!: ReadNumber_rem intro: advances_return\<close>)
  have idt: "advances st (bind_res (ReadID st) (\<lambda>(st1, t). return_token t st1))"
    by (rule advances_bind) (use assms in \<open>auto dest!: ReadID_rem intro: advances_return\<close>)
  show ?thesis
    unfolding lex_token_def Let_def
    by (intro advances_if advances_NEXT advances_next_token advances_one_or_two advances_return
          advances_string_token advances_Inl num idt)
       (use assms c in \<open>auto intro: here aft\<close>)
qed

text \<open>
  C5: Scanning makes progress.  \<open>Lex\<close> is total (white space and comment loops end), and one call
  either stands at the end of the source and answers 0, or answers a positive token number and has
  consumed at least one character; so a parser that reads tokens until 0 ends.
\<close>

theorem Lex_progress:
  assumes "Lex strtod st = Inr (st', t)"
  shows "(t = 0 \<and> cur st' = 0 \<and> rem st' \<le> rem st) \<or> (0 < t \<and> rem st' < rem st)"
proof -
  have loop: "Lex_loop strtod st0 = Inr (st', t) \<Longrightarrow>
      (t = 0 \<and> cur st' = 0 \<and> rem st' \<le> rem st0) \<or> (0 < t \<and> rem st' < rem st0)" for st0
  proof (induction "rem st0" arbitrary: st0 rule: less_induct)
    case less
    have step: ?case if "Lex_loop strtod st1 = Inr (st', t)" "rem st1 < rem st0" for st1
      using less(1)[OF that(2,1)] that(2) by auto
    have tok: ?case if "lex_token strtod st0 = Inr (st', t)" "cur st0 \<noteq> 0"
      using advances_lex_token[OF that(2), of strtod] that by (simp add: advances_def)
    have col: "Lex_loop strtod (st1\<lparr>currentcolumn := 1\<rparr>) = Inr (st', t) \<Longrightarrow> rem st1 < rem st0 \<Longrightarrow> ?case" for st1
      using step[of "st1\<lparr>currentcolumn := 1\<rparr>"] by simp
    have one: ?case if "one_or_two [(61, TK_DIVEQ), (62, TK_ATTR_CLOSE)] 47 st1 = Inr (st', t)" "rem st1 < rem st0" for st1
      using advances_one_or_two[OF that(2), of 47 "[(61, TK_DIVEQ), (62, TK_ATTR_CLOSE)]"] that(1)
      by (simp add: advances_def)
    have com: "LexBlockComment st2 = Inr st3 \<Longrightarrow> NEXT st1 = Inr st2 \<Longrightarrow> NEXT st0 = Inr st1 \<Longrightarrow> cur st0 \<noteq> 0 \<Longrightarrow> rem st3 < rem st0" for st1 st2 st3
      using LexBlockComment_rem[of st2 st3] NEXT_rem[of st1 st2] NEXT_less[of st0 st1] by simp
    have lin: "LexLineComment st1 = Inr st3 \<Longrightarrow> NEXT st0 = Inr st1 \<Longrightarrow> cur st0 \<noteq> 0 \<Longrightarrow> rem st3 < rem st0" for st1 st3
      using LexLineComment_rem[of st1 st3] NEXT_less[of st0 st1] by simp
    have lin1: "LexLineComment st0 = Inr st3 \<Longrightarrow> cur st0 \<noteq> 0 \<Longrightarrow> rem st3 < rem st0" for st3
      using LexLineComment_rem[of st0 st3] by simp
    have nl: "NEXT (st0\<lparr>currentline := a, prevtoken := b, curtoken := d\<rparr>) = Inr st1 \<Longrightarrow> cur st0 \<noteq> 0 \<Longrightarrow> rem st1 < rem st0" for a b d st1
      using NEXT_less[of "st0\<lparr>currentline := a, prevtoken := b, curtoken := d\<rparr>" st1] by simp
    consider "cur st0 = 0" | "cur st0 = 9 \<or> cur st0 = 13 \<or> cur st0 = 32" | "cur st0 = 10" | "cur st0 = 35" | "cur st0 = 47"
      | "cur st0 \<notin> {0, 9, 13, 32, 10, 35, 47}" by auto
    then show ?case
    proof cases
      case 5
      then show ?thesis using less.prems
        by (subst (asm) Lex_loop.simps)
           (auto simp: bind_res_Inr simp del: one_or_two.simps split: if_splits
             dest: step[OF _ com] step[OF _ lin] one[OF _ NEXT_less])
    qed (use less.prems in \<open>subst (asm) Lex_loop.simps;
          auto simp: bind_res_Inr dest: step[OF _ NEXT_less] step[OF _ lin1] col[OF _ nl] tok\<close>)+
  qed
  show ?thesis
    using loop[of "st\<lparr>lasttokenline := currentline st\<rparr>"] assms by (simp add: Lex_def)
qed


lemma Lex_progress_witness:
  "\<exists>st'. Lex (\<lambda>_. 0) \<lparr>input = [61, 120], cur = 61, currentline = 1, currentcolumn = 0, lasttokenline = 1,
       prevtoken = -1, curtoken = 0, reached_eof = False, svalue = [], nvalue = 0, fvalue = 0\<rparr> = Inr (st', TK_EQ) \<and>
     rem st' < 3"
proof -
  let ?st = "\<lparr>input = [61, 120], cur = 61, currentline = 1, currentcolumn = 0, lasttokenline = 1,
       prevtoken = -1, curtoken = 0, reached_eof = False, svalue = [], nvalue = 0, fvalue = 0\<rparr>"
  let ?st' = "?st\<lparr>input := [], cur := 120, currentcolumn := 2, curtoken := TK_EQ, prevtoken := 0\<rparr>"
  have "Lex (\<lambda>_. 0) ?st = Inr (?st', TK_EQ)"
    by (simp add: Lex_def Lex_loop.simps lex_token_def NEXT_def Next_char_def next_token_def return_token_def)
  from Lex_progress[OF this] this show ?thesis by (auto simp: rem_def)
qed

text \<open>The state before a text: \<open>upcoming st cs\<close> when the characters still to come are \<open>cs\<close>.\<close>

definition upcoming :: "lexer \<Rightarrow> nat list \<Rightarrow> bool" where
  "upcoming st cs \<longleftrightarrow>
     input st = map int (tl cs) \<and> cur st = (case cs of [] \<Rightarrow> 0 | c # _ \<Rightarrow> c) \<and> (\<forall>c \<in> set cs. 0 < c \<and> c < 256)"

lemma upcoming_NEXT:
  assumes "upcoming st (c # cs)"
  obtains st1 where "NEXT st = Inr st1" "upcoming st1 cs" "cur st = c"
  using assms by (cases cs) (auto simp: upcoming_def NEXT_def Next_char_def)

lemma upcoming_cur: "upcoming st cs \<Longrightarrow> cur st = (case cs of [] \<Rightarrow> 0 | c # _ \<Rightarrow> c)"
  by (simp add: upcoming_def)

lemma upcoming_updates [simp]:
  "upcoming (st\<lparr>lasttokenline := b\<rparr>) cs = upcoming st cs"
  "upcoming (st\<lparr>currentline := b\<rparr>) cs = upcoming st cs"
  by (simp_all add: upcoming_def)

definition source_text :: "string \<Rightarrow> nat list" where
  "source_text s = map of_char s"

lemma Init_upcoming:
  assumes "\<forall>c \<in> set cs. 0 < c \<and> c < 256"
  obtains st where "Init (map int cs) = Inr st" "upcoming st cs"
  using assms by (cases cs) (auto simp: upcoming_def Init_def Next_char_def)

text \<open>The text of a verbatim string: quotes are doubled.\<close>

fun double_quotes :: "string \<Rightarrow> nat list" where
  "double_quotes [] = []"
| "double_quotes (c # s) = (if c = CHR 0x22 then [0x22, 0x22] else [of_char c]) @ double_quotes s"

definition verbatim_text :: "string \<Rightarrow> nat list" where
  "verbatim_text s = chr CHR ''@'' # 0x22 # double_quotes s @ [0x22]"

definition no_nul :: "string \<Rightarrow> bool" where
  "no_nul s \<longleftrightarrow> CHR 0x00 \<notin> set s"

lemma of_char_bounds: "c \<noteq> CHR 0x00 \<Longrightarrow> 0 < (of_char c :: nat) \<and> (of_char c :: nat) < 256"
proof -
  assume c: "c \<noteq> CHR 0x00"
  have "(of_char c :: nat) \<noteq> 0"
  proof
    assume "(of_char c :: nat) = 0"
    then have "char_of (of_char c :: nat) = char_of (0 :: nat)" by simp
    moreover have "char_of (0 :: nat) = CHR 0x00" by (simp add: char_of_def)
    ultimately show False using c by simp
  qed
  then show ?thesis by simp
qed

lemma byte_char_of_char [simp]: "byte_char (of_char c) = c"
  by (simp add: byte_char_def)

lemma byte_char_quote [simp]: "byte_char 0x22 = CHR 0x22"
  by (simp add: byte_char_def char_of_def bit_iff_odd)

lemma read_chars_verbatim:
  assumes "upcoming st (double_quotes s @ 0x22 # rest)"
    and "rest = [] \<or> hd rest \<noteq> 0x22"
  shows "\<exists>st'. read_chars 0x22 True st = Inr (st', s) \<and> upcoming st' rest"
  using assms
proof (induction s arbitrary: st)
  case Nil
  then have up: "upcoming st (0x22 # rest)" by simp
  from upcoming_NEXT[OF up] obtain st1 where st1: "NEXT st = Inr st1" "upcoming st1 rest" "cur st = 0x22" .
  then have "cur st1 \<noteq> 0x22" using Nil(2) upcoming_cur[OF st1(2)] by (cases rest) auto
  with st1 show ?case by (simp add: read_chars.simps[of _ _ st])
next
  case (Cons c s)
  let ?q = "double_quotes s @ 0x22 # rest"
  show ?case
  proof (cases "c = CHR 0x22")
    case True
    with Cons.prems have up: "upcoming st (0x22 # 0x22 # ?q)" by simp
    from upcoming_NEXT[OF up] obtain st1 where st1: "NEXT st = Inr st1" "upcoming st1 (0x22 # ?q)" "cur st = 0x22" .
    from upcoming_NEXT[OF st1(2)] obtain st2 where st2: "NEXT st1 = Inr st2" "upcoming st2 ?q" "cur st1 = 0x22" .
    from Cons.IH[OF st2(2) Cons.prems(2)] obtain st3 where
      "read_chars 0x22 True st2 = Inr (st3, s)" "upcoming st3 rest" by auto
    with st1 st2 True show ?thesis by (simp add: read_chars.simps[of _ _ st])
  next
    case False
    with Cons.prems have up: "upcoming st (of_char c # ?q)" by simp
    from upcoming_NEXT[OF up] obtain st1 where st1: "NEXT st = Inr st1" "upcoming st1 ?q" "cur st = of_char c" .
    have c0: "of_char c \<noteq> (0 :: nat)" using up by (simp add: upcoming_def)
    have cq: "of_char c \<noteq> (0x22 :: nat)"
    proof
      assume "of_char c = (0x22 :: nat)"
      then have "byte_char (of_char c) = byte_char 0x22" by simp
      then have "c = CHR 0x22" by (metis byte_char_of_char byte_char_quote)
      with False show False by simp
    qed
    let ?st1 = "if cur st = 10 then st1\<lparr>currentline := currentline st1 + 1\<rparr> else st1"
    have "upcoming ?st1 (double_quotes s @ 0x22 # rest)" using st1(2) by (cases "cur st = 10") simp_all
    from Cons.IH[OF this Cons.prems(2)] obtain st9 where
      st9: "read_chars 0x22 True ?st1 = Inr (st9, s)" "upcoming st9 rest" by blast
    have b: "byte_char (cur st) = c" using st1(3) by simp
    then have b': "cur st = 10 \<Longrightarrow> byte_char 10 = c" "cur st = 92 \<Longrightarrow> byte_char 92 = c" by auto
    show ?thesis
      using st1(1) st9 c0 cq b b' st1(3)[symmetric]
      by (subst read_chars.simps) (auto split: if_splits)
  qed
qed

text \<open>
  C31: A verbatim string literal denotes its text: for every string without NUL, whatever newlines,
  backslashes and quotes it has, \<open>Lex\<close> on its quoted form (quotes doubled) answers a string literal
  token whose value is exactly that string and stops right behind the literal.
\<close>

theorem verbatim_string_round_trip:
  assumes "no_nul s" and "rest = [] \<or> hd rest \<noteq> 0x22" and "\<forall>c \<in> set rest. 0 < c \<and> c < 256"
  shows "\<exists>st st'. Init (map int (verbatim_text s @ rest)) = Inr st \<and>
           Lex strtod st = Inr (st', TK_STRING_LITERAL) \<and> svalue st' = s \<and> upcoming st' rest"
proof -
  let ?b = "double_quotes s @ 0x22 # rest"
  have nn: "\<And>c. c \<in> set s \<Longrightarrow> 0 < (of_char c :: nat) \<and> (of_char c :: nat) < 256"
    using of_char_bounds assms(1) unfolding no_nul_def by metis
  have "\<forall>c \<in> set (double_quotes s). 0 < c \<and> c < 256"
    using nn by (induction s) (auto simp del: of_char_of)
  with assms(3) have all: "\<forall>c \<in> set (verbatim_text s @ rest). 0 < c \<and> c < 256"
    by (auto simp: verbatim_text_def)
  have vt: "verbatim_text s @ rest = 0x40 # 0x22 # ?b" by (simp add: verbatim_text_def)
  obtain st where st: "Init (map int (verbatim_text s @ rest)) = Inr st" "upcoming st (0x40 # 0x22 # ?b)"
    using Init_upcoming[OF all] unfolding vt by blast
  let ?st = "st\<lparr>lasttokenline := currentline st\<rparr>"
  have up: "upcoming ?st (0x40 # 0x22 # ?b)" using st(2) by simp
  from upcoming_NEXT[OF up] obtain st1 where st1: "NEXT ?st = Inr st1" "upcoming st1 (0x22 # ?b)" "cur ?st = 0x40" .
  from upcoming_NEXT[OF st1(2)] obtain st2 where st2: "NEXT st1 = Inr st2" "upcoming st2 ?b" "cur st1 = 0x22" .
  from read_chars_verbatim[OF st2(2) assms(2)] obtain st3 where st3:
    "read_chars 0x22 True st2 = Inr (st3, s)" "upcoming st3 rest" by blast
  have nz: "cur st2 \<noteq> 0"
  proof
    assume "cur st2 = 0"
    then have "read_chars 0x22 True st2 = Inl ''unfinished string''" by (simp add: read_chars.simps[of _ _ st2])
    with st3(1) show False by simp
  qed
  have "Lex strtod st = lex_token strtod ?st"
    unfolding Lex_def using st1(3) by (subst Lex_loop.simps) simp
  also have "\<dots> = string_token 0x22 True st1"
    using st1(1,3) st2(3) by (simp add: lex_token_def)
  also have "\<dots> = return_token TK_STRING_LITERAL (st3\<lparr>svalue := s\<rparr>)"
    using st2 st3 nz by (simp add: string_token_def ReadString_def)
  finally have "Lex strtod st = return_token TK_STRING_LITERAL (st3\<lparr>svalue := s\<rparr>)" .
  then show ?thesis using st st3(2) by (simp add: return_token_def upcoming_def)
qed


lemma verbatim_string_round_trip_witness:
  "\<exists>st st'. Init (map int (verbatim_text [CHR ''a'', CHR 0x22, CHR 0x0A] @ [59])) = Inr st \<and>
     Lex (\<lambda>_. 0) st = Inr (st', TK_STRING_LITERAL) \<and> svalue st' = [CHR ''a'', CHR 0x22, CHR 0x0A] \<and> upcoming st' [59]"
  by (rule verbatim_string_round_trip) (simp_all add: no_nul_def)

text \<open>Identifiers and numbers: a run of characters of a class is read up to its end.\<close>

lemma read_while_upcoming:
  assumes "upcoming st (cs @ rest)" "\<forall>c \<in> set cs. p c" "rest = [] \<or> \<not> p (hd rest)"
  shows "\<exists>st'. read_while p st = Inr (st', cs) \<and> upcoming st' rest"
  using assms
proof (induction cs arbitrary: st)
  case Nil
  then show ?case
    by (subst read_while.simps) (cases rest; simp add: upcoming_def)
next
  case (Cons c cs)
  then have up: "upcoming st (c # cs @ rest)" by simp
  from upcoming_NEXT[OF up] obtain st1 where st1: "NEXT st = Inr st1" "upcoming st1 (cs @ rest)" "cur st = c" .
  from Cons.IH[OF st1(2)] Cons.prems obtain st2 where st2: "read_while p st1 = Inr (st2, cs)" "upcoming st2 rest" by auto
  have "c \<noteq> 0" using up by (simp add: upcoming_def)
  with st1 st2 Cons.prems(2) show ?case by (subst read_while.simps) simp
qed

lemma lex_token_alpha:
  assumes "isalpha (cur st) \<or> cur st = chr CHR ''_''"
  shows "Lex_loop strtod st = bind_res (ReadID st) (\<lambda>(st1, t). return_token t st1)"
proof -
  have "65 \<le> cur st \<and> cur st \<notin> {0x5B, 0x5D, 0x5E, 0x7B, 0x7C, 0x7D, 0x7E}"
    using assms by (auto simp: isalpha_def)
  then have n: "cur st \<notin> {0, 9, 13, 32, 10, 35, 47, 61, 60, 62, 33, 64, 34, 39, 46, 38, 58, 42, 37, 45, 43, 124}"
      "cur st \<notin> set (map of_char ''{}()[];,?^~'')" "\<not> isdigit (cur st)"
    using assms by (auto simp: isalpha_def isdigit_def)
  have "Lex_loop strtod st = lex_token strtod st"
    using n(1) by (subst Lex_loop.simps) simp
  also have "\<dots> = bind_res (ReadID st) (\<lambda>(st1, t). return_token t st1)"
    unfolding lex_token_def Let_def using n assms by (simp only: if_False if_True) simp
  finally show ?thesis .
qed

definition identifier_shaped :: "string \<Rightarrow> bool" where
  "identifier_shaped s \<longleftrightarrow>
     s \<noteq> [] \<and> \<not> isdigit (of_char (hd s)) \<and> list_all word_char (source_text s)"

definition ends_word :: "nat list \<Rightarrow> bool" where
  "ends_word rest \<longleftrightarrow> rest = [] \<or> \<not> word_char (hd rest)"

text \<open>
  A word is read whole and classified by the keyword table: \<open>Lex\<close> at a word answers the keyword's
  token, or \<open>TK_IDENTIFIER\<close> with the word as its value exactly when it is no keyword, and stops at the
  first character that is not part of a word.
\<close>

theorem identifier_or_keyword:
  assumes "identifier_shaped s" "ends_word rest" "upcoming st (source_text s @ rest)"
  shows "\<exists>st'. Lex strtod st = Inr (st', GetIDType s) \<and> upcoming st' rest \<and>
           (GetIDType s = TK_IDENTIFIER \<or> GetIDType s = TK_CONSTRUCTOR \<longrightarrow> svalue st' = s) \<and>
           (GetIDType s = TK_IDENTIFIER \<longleftrightarrow> s \<notin> fst ` set keyword_table)"
proof -
  let ?st = "st\<lparr>lasttokenline := currentline st\<rparr>"
  obtain c cs where s: "s = c # cs" using assms(1) by (cases s) (auto simp: identifier_shaped_def)
  have up: "upcoming ?st (of_char c # map of_char cs @ rest)"
    using assms(3) by (simp add: s source_text_def)
  from upcoming_NEXT[OF up] obtain st1 where
    st1: "NEXT ?st = Inr st1" "upcoming st1 (map of_char cs @ rest)" "cur ?st = of_char c" .
  have wc: "word_char (of_char c)" "\<forall>n \<in> set (map of_char cs). word_char n" "\<not> isdigit (of_char c)"
    using assms(1) by (simp_all add: identifier_shaped_def s source_text_def list_all_iff)
  from read_while_upcoming[OF st1(2) wc(2)] assms(2) obtain st2 where
    st2: "read_while word_char st1 = Inr (st2, map of_char cs)" "upcoming st2 rest"
    by (auto simp: ends_word_def)
  have first: "isalpha (cur ?st) \<or> cur ?st = chr CHR ''_''"
    using wc(1,3) st1(3) by (auto simp: word_char_def isalnum_def)
  have "map byte_char (cur ?st # map of_char cs) = s"
    using st1(3) by (simp add: s comp_def)
  then have "ReadID ?st = (if GetIDType s = TK_IDENTIFIER \<or> GetIDType s = TK_CONSTRUCTOR
       then Inr (st2\<lparr>svalue := s\<rparr>, GetIDType s) else Inr (st2, GetIDType s))"
    using st1 st2 by (simp add: ReadID_def Let_def)
  then have "\<exists>st'. Lex strtod st = Inr (st', GetIDType s) \<and> upcoming st' rest \<and>
           (GetIDType s = TK_IDENTIFIER \<or> GetIDType s = TK_CONSTRUCTOR \<longrightarrow> svalue st' = s)"
    using lex_token_alpha[OF first, of strtod] st2(2)
    by (auto simp: Lex_def return_token_def upcoming_def)
  moreover have "GetIDType s = TK_IDENTIFIER \<longleftrightarrow> s \<notin> fst ` set keyword_table"
  proof -
    have "\<forall>t \<in> snd ` set keyword_table. t \<noteq> TK_IDENTIFIER" by (simp add: keyword_table_def)
    then have "map_of keyword_table s \<noteq> Some TK_IDENTIFIER"
      by (force dest: map_of_SomeD)
    then show ?thesis
      by (auto simp: GetIDType_def map_of_eq_None_iff[symmetric] split: option.split)
  qed
  ultimately show ?thesis by blast
qed

lemma identifier_or_keyword_witness:
  "\<exists>st st'. Init (map int (source_text ''whilst'' @ [40])) = Inr st \<and>
     Lex (\<lambda>_. 0) st = Inr (st', TK_IDENTIFIER) \<and> svalue st' = ''whilst''"
proof -
  obtain st where st: "Init (map int (source_text ''whilst'' @ [40])) = Inr st" "upcoming st (source_text ''whilst'' @ [40])"
    by (rule Init_upcoming[of "source_text ''whilst'' @ [40]"]) (auto simp: source_text_def)
  have "GetIDType ''whilst'' = TK_IDENTIFIER" by (simp add: GetIDType_def keyword_table_def)
  moreover have "identifier_shaped ''whilst''" "ends_word [40]"
    by (simp_all add: identifier_shaped_def ends_word_def word_char_def isalpha_def isalnum_def isdigit_def source_text_def)
  ultimately show ?thesis
    using identifier_or_keyword[OF _ _ st(2), of "\<lambda>_. 0"] st(1) by metis
qed

lemma read_decimal_digits:
  assumes "upcoming st (cs @ rest)" "\<forall>c \<in> set cs. isdigit c"
    "rest = [] \<or> \<not> (isdigit (hd rest) \<or> isexponent (hd rest) \<or> hd rest = chr CHR ''.'')"
  shows "\<exists>st'. read_decimal False st = Inr (st', False, cs) \<and> upcoming st' rest"
  using assms
proof (induction cs arbitrary: st)
  case Nil
  then have "\<not> isexponent (cur st) \<and> \<not> (cur st = chr CHR ''.'' \<or> isdigit (cur st))"
    by (cases rest) (auto simp: upcoming_def isdigit_def isexponent_def)
  with Nil show ?case by (subst read_decimal.simps) simp
next
  case (Cons c cs)
  then have up: "upcoming st (c # cs @ rest)" by simp
  from upcoming_NEXT[OF up] obtain st1 where st1: "NEXT st = Inr st1" "upcoming st1 (cs @ rest)" "cur st = c" .
  from Cons.IH[OF st1(2)] Cons.prems obtain st2 where
    st2: "read_decimal False st1 = Inr (st2, False, cs)" "upcoming st2 rest" by auto
  from Cons.prems(2) have "isdigit c" "\<not> isexponent c" "c \<noteq> chr CHR ''.''"
    by (auto simp: isdigit_def isexponent_def)
  with st1 st2 show ?case by (subst read_decimal.simps) simp
qed

lemma digits_step:
  "source_text (dec_digits n) = (if n < 10 then [48 + n] else source_text (dec_digits (n div 10)) @ [48 + n mod 10])"
proof -
  have "(of_char (char_of (48 + k) :: char) :: nat) = 48 + k" if "k < 10" for k :: nat
    using that by (simp only: of_char_of) simp
  then show ?thesis
    by (subst dec_digits.simps) (simp add: source_text_def del: of_char_of)
qed

lemma dec_digits_value: "LexInteger (source_text (dec_digits n)) = of_nat n"
proof (induction n rule: less_induct)
  case (less n)
  show ?case
  proof (cases "n < 10")
    case False
    have "n = n div 10 * 10 + n mod 10" by simp
    then have "(of_nat n :: gsint) = of_nat (n div 10) * 10 + of_nat (n mod 10)"
      by (metis of_nat_add of_nat_mult of_nat_numeral)
    with False less[of "n div 10"] show ?thesis
      by (subst digits_step) (simp add: LexInteger_def)
  qed (subst digits_step, simp add: LexInteger_def)
qed

lemma dec_digits_shape:
  "list_all isdigit (source_text (dec_digits n)) \<and> source_text (dec_digits n) \<noteq> [] \<and>
   (0 < n \<longrightarrow> hd (source_text (dec_digits n)) \<noteq> 48)"
proof (induction n rule: less_induct)
  case (less n)
  show ?case
  proof (cases "n < 10")
    case False
    with less[of "n div 10"] have "0 < n div 10" "list_all isdigit (source_text (dec_digits (n div 10)))"
      "source_text (dec_digits (n div 10)) \<noteq> []" "hd (source_text (dec_digits (n div 10))) \<noteq> 48" by auto
    with False show ?thesis by (subst (1 2 3) digits_step) (simp add: isdigit_def)
  qed (subst (1 2 3) digits_step, simp add: isdigit_def)
qed

lemma dec_digits_lex:
  "LexInteger (source_text (dec_digits n)) = of_nat n" "\<forall>c \<in> set (source_text (dec_digits n)). isdigit c"
  "source_text (dec_digits n) \<noteq> []" "0 < n \<Longrightarrow> hd (source_text (dec_digits n)) \<noteq> 48"
  using dec_digits_value[of n] dec_digits_shape[of n] by (simp_all add: list_all_iff)

definition ends_number :: "nat list \<Rightarrow> bool" where
  "ends_number rest \<longleftrightarrow>
     rest = [] \<or> \<not> (isdigit (hd rest) \<or> isexponent (hd rest) \<or> hd rest \<in> {chr CHR ''.'', chr CHR ''x'', chr CHR ''X''})"

lemma lex_token_digit:
  assumes "isdigit (cur st)"
  shows "Lex_loop strtod st = bind_res (ReadNumber strtod st) (\<lambda>(st1, t). return_token t st1)"
proof -
  have c: "48 \<le> cur st \<and> cur st < 58" using assms by (auto simp: isdigit_def)
  then have n: "cur st \<notin> {0, 9, 13, 32, 10, 35, 47, 61, 60, 62, 33, 64, 34, 39, 46, 38, 58, 42, 37, 45, 43, 124}"
      "cur st \<notin> set (map of_char ''{}()[];,?^~'')"
    by auto
  have "Lex_loop strtod st = lex_token strtod st"
    using n(1) by (subst Lex_loop.simps) simp
  also have "\<dots> = bind_res (ReadNumber strtod st) (\<lambda>(st1, t). return_token t st1)"
    unfolding lex_token_def Let_def using n assms by (simp only: if_False if_True) simp
  finally show ?thesis .
qed

text \<open>
  The decimal digits of a number lex to an integer token that has the number as its value, modulo
  2 to the 64 (a literal that does not fit wraps silently, without an error).
\<close>

theorem integer_literal_round_trip:
  assumes "upcoming st (source_text (dec_digits n) @ rest)" "ends_number rest"
  shows "\<exists>st'. Lex strtod st = Inr (st', TK_INTEGER) \<and> nvalue st' = of_nat n \<and> upcoming st' rest"
proof -
  let ?st = "st\<lparr>lasttokenline := currentline st\<rparr>"
  obtain c cs where ds: "source_text (dec_digits n) = c # cs"
    using dec_digits_lex(3)[of n] by (cases "source_text (dec_digits n)") auto
  have dig: "isdigit c" "\<forall>c \<in> set cs. isdigit c" using dec_digits_lex(2)[of n] by (auto simp: ds)
  have up: "upcoming ?st (c # cs @ rest)" using assms(1) by (simp add: ds)
  from upcoming_NEXT[OF up] obtain st1 where st1: "NEXT ?st = Inr st1" "upcoming st1 (cs @ rest)" "cur ?st = c" .
  from read_decimal_digits[OF st1(2) dig(2)] assms(2) obtain st2 where
    st2: "read_decimal False st1 = Inr (st2, False, cs)" "upcoming st2 rest"
    by (auto simp: ends_number_def)
  have nooct: "\<not> (c = 48 \<and> (cur st1 = 120 \<or> cur st1 = 88 \<or> isodigit (cur st1)))"
  proof
    assume a: "c = 48 \<and> (cur st1 = 120 \<or> cur st1 = 88 \<or> isodigit (cur st1))"
    then have "n = 0" using dec_digits_lex(4)[of n] by (cases "n = 0") (auto simp: ds)
    then have "cs = []" using ds by (simp add: digits_step)
    with a st1(2) assms(2) show False
      by (cases rest) (auto simp: upcoming_def ends_number_def isodigit_def isdigit_def)
  qed
  have "ReadNumber strtod ?st = Inr (st2\<lparr>nvalue := of_nat n\<rparr>, TK_INTEGER)"
    using st1 st2 dec_digits_lex(1)[of n] nooct
    by (cases "c = 48") (simp_all add: ReadNumber_def ds)
  then show ?thesis
    using lex_token_digit[of ?st strtod] dig(1) st1(3) st2(2)
    by (simp add: Lex_def return_token_def upcoming_def)
qed

lemma integer_literal_round_trip_witness:
  "\<exists>st st'. Init (map int (source_text (dec_digits 18446744073709551615) @ [59])) = Inr st \<and>
     Lex (\<lambda>_. 0) st = Inr (st', TK_INTEGER) \<and> nvalue st' = -1"
proof -
  have dg: "\<forall>c \<in> set (source_text (dec_digits 18446744073709551615) @ [59]). 0 < c \<and> c < 256"
    using dec_digits_lex(2)[of 18446744073709551615] by (auto simp: isdigit_def)
  obtain st where "Init (map int (source_text (dec_digits 18446744073709551615) @ [59])) = Inr st"
     "upcoming st (source_text (dec_digits 18446744073709551615) @ [59])"
    using Init_upcoming[OF dg] .
  with integer_literal_round_trip[of st 18446744073709551615 "[59]" "\<lambda>_. 0"] show ?thesis
    by (auto simp: ends_number_def isdigit_def isexponent_def)
qed


section \<open>UTF-8\<close>

unbundle bit_operations_syntax

lemma or_plus:
  fixes x y :: nat
  assumes "x < 2 ^ n" 
  shows "x OR (y * 2 ^ n) = x + y * 2 ^ n"
proof -
  have "x = take_bit n x" using assms by (simp add: take_bit_nat_eq_self)
  moreover have "y * 2 ^ n = push_bit n y" by (simp add: push_bit_eq_mult)
  ultimately have "x AND (y * 2 ^ n) = 0" 
  proof -
    assume a: "x = take_bit n x" and b: "y * 2 ^ n = push_bit n y"
    have "take_bit n x AND push_bit n y = 0" by (rule bit_eqI) (auto simp: bit_simps)
    then show ?thesis using a b by simp
  qed
  then show ?thesis by (simp add: disjunctive_add_eq_or)
qed
lemma and_low: "(x::nat) AND 63 = x mod 64" "(x::nat) AND 31 = x mod 32" "(x::nat) AND 15 = x mod 16" "(x::nat) AND 7 = x mod 8"
proof -
  have m: "(63::nat) = mask 6" "(31::nat) = mask 5" "(15::nat) = mask 4" "(7::nat) = mask 3" by (simp_all add: mask_eq_exp_minus_1)
  show "(x::nat) AND 63 = x mod 64" "(x::nat) AND 31 = x mod 32" "(x::nat) AND 15 = x mod 16" "(x::nat) AND 7 = x mod 8"
    unfolding m by (simp_all only: take_bit_eq_mask[symmetric]) (simp_all add: take_bit_eq_mod)
qed

text \<open>The reference decoder of UTF-8, one code point at the front of a text.\<close>

fun utf8_decode :: "string \<Rightarrow> (nat \<times> string) option" where
  "utf8_decode [] = None"
| "utf8_decode (c # s) =
     (let b = of_char c :: nat; cont = (\<lambda>d. of_char d mod 64 :: nat) in
      if b < 0x80 then Some (b, s)
      else if b < 0xE0 then (case s of c1 # r \<Rightarrow> Some ((b mod 32) * 64 + cont c1, r) | _ \<Rightarrow> None)
      else if b < 0xF0 then
        (case s of c1 # c2 # r \<Rightarrow> Some ((b mod 16) * 4096 + cont c1 * 64 + cont c2, r) | _ \<Rightarrow> None)
      else
        (case s of c1 # c2 # c3 # r \<Rightarrow> Some ((b mod 8) * 262144 + cont c1 * 4096 + cont c2 * 64 + cont c3, r)
         | _ \<Rightarrow> None))"

lemma byte_code: "n < 256 \<Longrightarrow> (of_char (byte_char n) :: nat) = n"
  unfolding byte_char_def by (simp only: of_char_of) simp

text \<open>
  The \<open>u\<close> escapes produce correct UTF-8: decoding the bytes that \<open>AddUTF8\<close> appends for any code
  point below 0x110000 gives the code point back and leaves the rest of the text.
\<close>

theorem AddUTF8_round_trip:
  assumes "ch < 0x110000"
  shows "utf8_decode (AddUTF8 ch @ rest) = Some (ch, rest)"
proof -
  have or: "k < 32 \<Longrightarrow> k OR 0xC0 = k + 0xC0" "k < 16 \<Longrightarrow> k OR 0xE0 = k + 0xE0"
    "k < 16 \<Longrightarrow> k OR 0xF0 = k + 0xF0" "k < 64 \<Longrightarrow> k OR 0x80 = k + 0x80" for k :: nat
    using or_plus[of k 5 6] or_plus[of k 5 7] or_plus[of k 4 15] or_plus[of k 6 2] by simp_all
  have db: "drop_bit 6 ch = ch div 64" "drop_bit 12 ch = ch div 4096" "drop_bit 18 ch = ch div 262144"
    by (simp_all add: drop_bit_eq_div)
  have e: "ch = ch div 64 * 64 + ch mod 64" "ch div 64 = ch div 4096 * 64 + ch div 64 mod 64"
    "ch div 4096 = ch div 262144 * 64 + ch div 4096 mod 64"
    using div_mult2_eq[of ch 64 64] div_mult2_eq[of ch 4096 64] by simp_all
  have sums: "ch div 4096 * 4096 + ch div 64 mod 64 * 64 + ch mod 64 = ch"
    "ch div 262144 * 262144 + ch div 4096 mod 64 * 4096 + ch div 64 mod 64 * 64 + ch mod 64 = ch"
    using e by linarith+
  have md: "k < 32 \<Longrightarrow> (k + 192) mod 32 = k" "k < 16 \<Longrightarrow> (k + 224) mod 16 = k"
    "k < 8 \<Longrightarrow> (k + 240) mod 8 = k" "(k + 128) mod 64 = k mod 64" for k :: nat
    using mod_mult_self1[of k 6 32] mod_mult_self1[of k 14 16] mod_mult_self1[of k 30 8] mod_mult_self1[of k 2 64]
    by (simp_all add: mod_less)
  consider "ch < 0x80" | "0x80 \<le> ch" "ch < 0x800" | "0x800 \<le> ch" "ch < 0x10000" | "0x10000 \<le> ch" by linarith
  then show ?thesis
  proof cases
    case 1
    then show ?thesis by (simp add: AddUTF8_def byte_code)
  next
    case 2
    then have d: "ch div 64 < 32" by (simp add: less_mult_imp_div_less)
    then have "AddUTF8 ch = [byte_char (ch div 64 + 0xC0), byte_char (ch mod 64 + 0x80)]"
      using 2 by (simp add: AddUTF8_def db and_low or)
    then show ?thesis using d by (simp add: byte_code Let_def md sums)
  next
    case 3
    then have d: "ch div 4096 < 16" by (simp add: less_mult_imp_div_less)
    then have "AddUTF8 ch = [byte_char (ch div 4096 + 0xE0), byte_char (ch div 64 mod 64 + 0x80), byte_char (ch mod 64 + 0x80)]"
      using 3 by (simp add: AddUTF8_def db and_low or)
    then show ?thesis using d by (simp add: byte_code Let_def md sums)
  next
    case 4
    then have d: "ch div 262144 < 8" using assms by (simp add: less_mult_imp_div_less)
    then have "AddUTF8 ch = [byte_char (ch div 262144 + 0xF0), byte_char (ch div 4096 mod 64 + 0x80),
        byte_char (ch div 64 mod 64 + 0x80), byte_char (ch mod 64 + 0x80)]"
      using 4 assms by (simp add: AddUTF8_def db and_low or)
    then show ?thesis using d by (simp add: byte_code Let_def md sums)
  qed
qed

lemma AddUTF8_round_trip_witness:
  "utf8_decode (AddUTF8 0x20AC @ ''x'') = Some (0x20AC, ''x'')"
  by (rule AddUTF8_round_trip) simp

end
