(* ===== verification/GS_Exec.thy ===== *)
theory GS_Exec
  imports GS_VMOps
begin

text \<open>
  Instructions (GSopcodes.h) and the instructions of \<open>GSVM::Execute\<close> (GSvm.cpp) that work inside one
  frame: loads, moves, slot access, arithmetic, comparison, jumps and the declared-type checks.
  Instructions that enter, leave or suspend a frame are not executed here (\<open>exec1\<close> gives None).

  The state has the registers of the current frame (\<open>STK(i)\<close>, the stack relative to the stack base),
  the literals of the function, the instruction pointer, \<open>_lasterror\<close> and the rest of the machine.
  What an instruction does through other parts of the machine is the record \<open>vmenv\<close>, which
  extends \<open>vmops\<close>; all of it acts on the whole state, because a metamethod is a call of script
  code and can change even registers of this frame (captured variables).  The debug hook is off.
\<close>

section \<open>Instructions\<close>

datatype GSOpcode =
    OP_LINE | OP_LOAD | OP_LOADINT | OP_LOADFLOAT | OP_DLOAD | OP_TAILCALL | OP_CALL | OP_PREPCALL
  | OP_PREPCALLK | OP_GETK | OP_MOVE | OP_NEWSLOT | OP_DELETE | OP_SET | OP_GET | OP_EQ | OP_NE
  | OP_ADD | OP_SUB | OP_MUL | OP_DIV | OP_MOD | OP_BITW | OP_RETURN | OP_LOADNULLS | OP_LOADROOT
  | OP_LOADBOOL | OP_DMOVE | OP_JMP | OP_JCMP | OP_JZ | OP_SETOUTER | OP_GETOUTER | OP_NEWOBJ
  | OP_APPENDARRAY | OP_COMPARITH | OP_INC | OP_INCL | OP_PINC | OP_PINCL | OP_CMP | OP_EXISTS
  | OP_INSTANCEOF | OP_AND | OP_OR | OP_NEG | OP_NOT | OP_BWNOT | OP_CLOSURE | OP_YIELD | OP_RESUME
  | OP_FOREACH | OP_POSTFOREACH | OP_CLONE | OP_TYPEOF | OP_PUSHTRAP | OP_POPTRAP | OP_THROW
  | OP_NEWSLOTA | OP_GETBASE | OP_CLOSE | OP_IMPORT | OP_NAMESPACE | OP_TYPECHECK | OP_MATCHTYPES

record instruction =
  op :: GSOpcode
  a0 :: "8 word"
  a1 :: "32 word"
  a2 :: "8 word"
  a3 :: "8 word"

text \<open>The constructor \<open>GSInstruction(op, a0, a1, a2, a3)\<close> truncates its arguments.\<close>

definition Instr :: "GSOpcode \<Rightarrow> int \<Rightarrow> int \<Rightarrow> int \<Rightarrow> int \<Rightarrow> instruction" where
  "Instr opc x0 x1 x2 x3 =
     \<lparr>op = opc, a0 = word_of_int x0, a1 = word_of_int x1, a2 = word_of_int x2, a3 = word_of_int x3\<rparr>"

abbreviation MAX_FUNC_STACKSIZE :: int where "MAX_FUNC_STACKSIZE \<equiv> 0xFF"

text \<open>The operand macros \<open>arg0\<close> to \<open>arg3\<close>, \<open>sarg0\<close> and \<open>sarg3\<close>.\<close>

definition arg0 :: "instruction \<Rightarrow> int" where "arg0 i = uint (a0 i)"
definition arg1 :: "instruction \<Rightarrow> int" where "arg1 i = sint (a1 i)"
definition arg2 :: "instruction \<Rightarrow> int" where "arg2 i = uint (a2 i)"
definition arg3 :: "instruction \<Rightarrow> int" where "arg3 i = uint (a3 i)"
definition sarg0 :: "instruction \<Rightarrow> int" where "sarg0 i = sint (a0 i)"
definition sarg3 :: "instruction \<Rightarrow> int" where "sarg3 i = sint (a3 i)"

lemmas arg_defs = arg0_def arg1_def arg2_def arg3_def sarg0_def sarg3_def

datatype AppendArrayType = AAT_STACK | AAT_LITERAL | AAT_INT | AAT_FLOAT | AAT_BOOL

fun aat_code :: "AppendArrayType \<Rightarrow> int" where
  "aat_code AAT_STACK = 0"
| "aat_code AAT_LITERAL = 1"
| "aat_code AAT_INT = 2"
| "aat_code AAT_FLOAT = 3"
| "aat_code AAT_BOOL = 4"

definition cmp_of_code :: "int \<Rightarrow> CmpOP option" where
  "cmp_of_code c = map_of [(0, CMP_G), (2, CMP_GE), (3, CMP_L), (4, CMP_LE), (5, CMP_3W)] c"

text \<open>The token numbers of the type names (GScompiler.h), as the compiler puts them into \<open>arg1\<close>.\<close>

definition typetok_of :: "int \<Rightarrow> typetok option" where
  "typetok_of c = map_of [(330, TK_INT), (261, TK_FLOAT), (331, TK_STRING), (332, TK_BOOL),
     (333, TK_VOID), (258, TK_IDENTIFIER)] c"

section \<open>State and environment\<close>

record 'x vmstate =
  regs :: "int \<Rightarrow> gsobj"
  literals :: "gsobj list"
  ip :: int
  lasterror :: "vmerr option"
  xworld :: 'x

record 'w vmenv = "'w vmops" +
  vm_Get :: "gsobj \<Rightarrow> gsobj \<Rightarrow> int \<Rightarrow> 'w \<Rightarrow> gsobj outcome \<times> 'w"
  vm_Exists :: "gsobj \<Rightarrow> gsobj \<Rightarrow> 'w \<Rightarrow> bool \<times> 'w"
  vm_Set :: "gsobj \<Rightarrow> gsobj \<Rightarrow> gsobj \<Rightarrow> int \<Rightarrow> 'w \<Rightarrow> unit outcome \<times> 'w"
  vm_NewSlot :: "gsobj \<Rightarrow> gsobj \<Rightarrow> gsobj \<Rightarrow> bool \<Rightarrow> 'w \<Rightarrow> unit outcome \<times> 'w"
  vm_NewSlotA :: "gsobj \<Rightarrow> gsobj \<Rightarrow> gsobj \<Rightarrow> gsobj \<Rightarrow> bool \<Rightarrow> 'w \<Rightarrow> unit outcome \<times> 'w"
  vm_DeleteSlot :: "gsobj \<Rightarrow> gsobj \<Rightarrow> 'w \<Rightarrow> gsobj outcome \<times> 'w"
  vm_Clone :: "gsobj \<Rightarrow> 'w \<Rightarrow> gsobj outcome \<times> 'w"
  vm_Append :: "gsobj \<Rightarrow> gsobj \<Rightarrow> 'w \<Rightarrow> unit outcome \<times> 'w"
  vm_Foreach :: "gsobj \<Rightarrow> gsobj \<Rightarrow> int \<Rightarrow> 'w \<Rightarrow> ((gsobj \<times> gsobj \<times> gsobj) option \<times> int) outcome \<times> 'w"
  vm_InstanceOf :: "'w \<Rightarrow> gsobj \<Rightarrow> gsobj \<Rightarrow> bool"
  vm_array :: "'w \<Rightarrow> gsobj \<Rightarrow> gsarray"
  vm_put_array :: "gsobj \<Rightarrow> gsarray \<Rightarrow> 'w \<Rightarrow> 'w"
  vm_outer :: "'w \<Rightarrow> int \<Rightarrow> gsobj"
  vm_set_outer :: "int \<Rightarrow> gsobj \<Rightarrow> 'w \<Rightarrow> 'w"
  vm_root :: "'w \<Rightarrow> gsobj"
  vm_base :: "'w \<Rightarrow> gsobj"
  vm_new_table :: "int \<Rightarrow> 'w \<Rightarrow> gsobj \<times> 'w"
  vm_new_array :: "int \<Rightarrow> 'w \<Rightarrow> gsobj \<times> 'w"
  vm_new_class :: "int \<Rightarrow> int \<Rightarrow> 'w \<Rightarrow> gsobj outcome \<times> 'w"
  vm_CloseOuters :: "int \<Rightarrow> 'w \<Rightarrow> 'w"

definition put :: "int \<Rightarrow> gsobj \<Rightarrow> 'x vmstate \<Rightarrow> 'x vmstate" where
  "put r v s = s\<lparr>regs := (regs s)(r := v)\<rparr>"

definition literal :: "'x vmstate \<Rightarrow> int \<Rightarrow> gsobj" where
  "literal s k = literals s ! nat k"

definition jump :: "int \<Rightarrow> 'x vmstate \<Rightarrow> 'x vmstate" where
  "jump d s = s\<lparr>ip := ip s + d\<rparr>"

text \<open>What an instruction leads to: the next one, the exception trap, or a processor fault.\<close>

datatype 's step = Continue 's | Thrown 's | Crash

definition Raise_Error :: "vmerr \<Rightarrow> 'x vmstate \<Rightarrow> 'x vmstate" where
  "Raise_Error e s = s\<lparr>lasterror := Some e\<rparr>"

text \<open>\<open>_GUARD\<close>: go on with the result, or to the exception trap.\<close>

definition guard :: "'a outcome \<times> 'x vmstate \<Rightarrow> ('a \<Rightarrow> 'x vmstate \<Rightarrow> 'x vmstate step) \<Rightarrow> 'x vmstate step" where
  "guard r k = (case r of
      (Done v, s) \<Rightarrow> k v s
    | (Fail e, s) \<Rightarrow> Thrown (Raise_Error e s)
    | (Trap, s) \<Rightarrow> Crash)"

lemma guard_simps [simp]:
  "guard (Done v, s) k = k v s" "guard (Fail e, s) k = Thrown (Raise_Error e s)" "guard (Trap, s) k = Crash"
  by (simp_all add: guard_def)

definition into :: "int \<Rightarrow> gsobj outcome \<times> 'x vmstate \<Rightarrow> 'x vmstate step" where
  "into r x = guard x (\<lambda>v s. Continue (put r v s))"

section \<open>Loads, moves and jumps\<close>

fun load_nulls :: "nat \<Rightarrow> int \<Rightarrow> 'x vmstate \<Rightarrow> 'x vmstate" where
  "load_nulls 0 r s = s"
| "load_nulls (Suc n) r s = load_nulls n (r + 1) (put r ONull s)"

definition exec_move :: "instruction \<Rightarrow> 'x vmstate \<Rightarrow> 'x vmstate step option" where
  "exec_move i s =
     (let t = arg0 i in
      case op i of
        OP_LINE \<Rightarrow> Some (Continue s)
      | OP_LOAD \<Rightarrow> Some (Continue (put t (literal s (arg1 i)) s))
      | OP_LOADINT \<Rightarrow> Some (Continue (put t (OInteger (scast (a1 i))) s))
      | OP_LOADFLOAT \<Rightarrow> Some (Continue (put t (OFloat (a1 i)) s))
      | OP_LOADBOOL \<Rightarrow> Some (Continue (put t (OBool (arg1 i \<noteq> 0)) s))
      | OP_DLOAD \<Rightarrow>
          (let s1 = put t (literal s (arg1 i)) s in
           Some (Continue (put (arg2 i) (literal s1 (arg3 i)) s1)))
      | OP_MOVE \<Rightarrow> Some (Continue (put t (regs s (arg1 i)) s))
      | OP_DMOVE \<Rightarrow>
          (let s1 = put t (regs s (arg1 i)) s in
           Some (Continue (put (arg2 i) (regs s1 (arg3 i)) s1)))
      | OP_LOADNULLS \<Rightarrow> Some (Continue (load_nulls (nat (arg1 i)) t s))
      | OP_JMP \<Rightarrow> Some (Continue (jump (arg1 i) s))
      | OP_JZ \<Rightarrow> Some (Continue (if IsFalse (regs s t) then jump (arg1 i) s else s))
      | OP_AND \<Rightarrow>
          Some (Continue (if IsFalse (regs s (arg2 i)) then jump (arg1 i) (put t (regs s (arg2 i)) s) else s))
      | OP_OR \<Rightarrow>
          Some (Continue (if \<not> IsFalse (regs s (arg2 i)) then jump (arg1 i) (put t (regs s (arg2 i)) s) else s))
      | OP_NOT \<Rightarrow> Some (Continue (put t (OBool (IsFalse (regs s (arg1 i)))) s))
      | _ \<Rightarrow> None)"

section \<open>Operators\<close>

text \<open>\<open>COND_LITERAL\<close>: a literal when \<open>arg3\<close> is set.\<close>

definition cond_literal :: "instruction \<Rightarrow> 'x vmstate \<Rightarrow> gsobj" where
  "cond_literal i s = (if arg3 i \<noteq> 0 then literal s (arg1 i) else regs s (arg1 i))"

text \<open>\<open>DerefInc\<close>: \<open>incr\<close> is read after the slot has been fetched.\<close>

definition DerefInc ::
    "'x vmstate vmenv \<Rightarrow> char \<Rightarrow> int \<Rightarrow> gsobj \<Rightarrow> gsobj \<Rightarrow> ('x vmstate \<Rightarrow> gsobj) \<Rightarrow> bool \<Rightarrow> int \<Rightarrow> 'x vmstate \<Rightarrow> 'x vmstate step" where
  "DerefInc E opc target self key incr postfix selfidx s =
     guard (vm_Get E self key selfidx s) (\<lambda>tmp s1.
       guard (ARITH_OP (vmops.truncate E) opc tmp (incr s1) s1) (\<lambda>v s2.
         let s3 = put target v s2 in
         guard (vm_Set E self key v selfidx s3) (\<lambda>_ s4.
           Continue (if postfix then put target tmp s4 else s4))))"

definition PLOCAL_INC ::
    "'x vmstate vmenv \<Rightarrow> char \<Rightarrow> int \<Rightarrow> int \<Rightarrow> gsobj \<Rightarrow> 'x vmstate \<Rightarrow> 'x vmstate step" where
  "PLOCAL_INC E opc target a incr s =
     guard (ARITH_OP (vmops.truncate E) opc (regs s a) incr s) (\<lambda>v s1.
       Continue (put a v (put target (regs s1 a) s1)))"

definition exec_arith :: "'x vmstate vmenv \<Rightarrow> instruction \<Rightarrow> 'x vmstate \<Rightarrow> 'x vmstate step option" where
  "exec_arith E i s =
     (let W = vmops.truncate E; t = arg0 i; x = regs s (arg2 i); y = regs s (arg1 i);
          incr = OInteger (word_of_int (sarg3 i)) in
      case op i of
        OP_ADD \<Rightarrow> Some (into t (ARITH_fast W CHR ''+'' x y s))
      | OP_SUB \<Rightarrow> Some (into t (ARITH_fast W CHR ''-'' x y s))
      | OP_MUL \<Rightarrow> Some (into t (ARITH_fast W CHR ''*'' x y s))
      | OP_DIV \<Rightarrow> Some (into t (DIV_fast W x y s))
      | OP_MOD \<Rightarrow> Some (case ARITH_OP W CHR ''%'' x y s of
            (Done v, s1) \<Rightarrow> Continue (put t v s1)
          | (Fail e, s1) \<Rightarrow> Continue (Raise_Error e s1)
          | (Trap, s1) \<Rightarrow> Crash)
      | OP_BITW \<Rightarrow> Some (into t (BW_OP (arg3 i) x y, s))
      | OP_NEG \<Rightarrow> Some (into t (NEG_OP W y s))
      | OP_BWNOT \<Rightarrow> Some (case y of
            OInteger n \<Rightarrow> Continue (put t (OInteger (NOT n)) s)
          | _ \<Rightarrow> Thrown (Raise_Error (ErrStr (''attempt to perform a bitwise op on a '' @ GetTypeName y)) s))
      | OP_EQ \<Rightarrow> Some (Continue (put t (OBool (IsEqual x (cond_literal i s))) s))
      | OP_NE \<Rightarrow> Some (Continue (put t (OBool (\<not> IsEqual x (cond_literal i s))) s))
      | OP_CMP \<Rightarrow> map_option (\<lambda>c. into t (CMP_OP W c x y s)) (cmp_of_code (arg3 i))
      | OP_JCMP \<Rightarrow> map_option (\<lambda>c. guard (CMP_OP W c x (regs s t) s) (\<lambda>r s1.
            Continue (if IsFalse r then jump (arg1 i) s1 else s1))) (cmp_of_code (arg3 i))
      | OP_INCL \<Rightarrow> Some (case y of
            OInteger n \<Rightarrow> Continue (put (arg1 i) (OInteger (n + word_of_int (sarg3 i))) s)
          | _ \<Rightarrow> into (arg1 i) (ARITH_fast W CHR ''+'' y incr s))
      | OP_PINCL \<Rightarrow> Some (case y of
            OInteger n \<Rightarrow> Continue (put (arg1 i) (OInteger (n + word_of_int (sarg3 i))) (put t y s))
          | _ \<Rightarrow> PLOCAL_INC E CHR ''+'' t (arg1 i) incr s)
      | OP_INC \<Rightarrow> Some (DerefInc E CHR ''+'' t y x (\<lambda>_. incr) False (arg1 i) s)
      | OP_PINC \<Rightarrow> Some (DerefInc E CHR ''+'' t y x (\<lambda>_. incr) True (arg1 i) s)
      | OP_COMPARITH \<Rightarrow>
          (let selfidx = uint (drop_bit 16 (a1 i)); incidx = uint (a1 i AND 0xFFFF) in
           Some (DerefInc E (char_of (nat (arg3 i))) t (regs s selfidx) x (\<lambda>s1. regs s1 incidx) False selfidx s))
      | _ \<Rightarrow> None)"

section \<open>Slots, objects and declared types\<close>

definition exec_access :: "'x vmstate vmenv \<Rightarrow> instruction \<Rightarrow> 'x vmstate \<Rightarrow> 'x vmstate step option" where
  "exec_access E i s =
     (let t = arg0 i; r = regs s in
      case op i of
        OP_GET \<Rightarrow> Some (into t (vm_Get E (r (arg1 i)) (r (arg2 i)) (arg1 i) s))
      | OP_GETK \<Rightarrow> Some (into t (vm_Get E (r (arg2 i)) (literal s (arg1 i)) (arg2 i) s))
      | OP_PREPCALL \<Rightarrow> Some (guard (vm_Get E (r (arg2 i)) (r (arg1 i)) (arg2 i) s) (\<lambda>v s1.
            Continue (put t v (put (arg3 i) (regs s1 (arg2 i)) s1))))
      | OP_PREPCALLK \<Rightarrow> Some (guard (vm_Get E (r (arg2 i)) (literal s (arg1 i)) (arg2 i) s) (\<lambda>v s1.
            Continue (put t v (put (arg3 i) (regs s1 (arg2 i)) s1))))
      | OP_SET \<Rightarrow> Some (guard (vm_Set E (r (arg1 i)) (r (arg2 i)) (r (arg3 i)) (arg1 i) s) (\<lambda>_ s1.
            Continue (if t \<noteq> 0xFF then put t (regs s1 (arg3 i)) s1 else s1)))
      | OP_NEWSLOT \<Rightarrow> Some (guard (vm_NewSlot E (r (arg1 i)) (r (arg2 i)) (r (arg3 i)) False s) (\<lambda>_ s1.
            Continue (if t \<noteq> 0xFF then put t (regs s1 (arg3 i)) s1 else s1)))
      | OP_NEWSLOTA \<Rightarrow> Some (guard (vm_NewSlotA E (r (arg1 i)) (r (arg2 i)) (r (arg3 i))
              (if bit (a0 i) 0 then r (arg2 i - 1) else ONull) (bit (a0 i) 1) s) (\<lambda>_ s1. Continue s1))
      | OP_DELETE \<Rightarrow> Some (into t (vm_DeleteSlot E (r (arg1 i)) (r (arg2 i)) s))
      | OP_EXISTS \<Rightarrow> Some (case vm_Exists E (r (arg1 i)) (r (arg2 i)) s of (b, s1) \<Rightarrow> Continue (put t (OBool b) s1))
      | OP_GETOUTER \<Rightarrow> Some (Continue (put t (vm_outer E s (arg1 i)) s))
      | OP_SETOUTER \<Rightarrow>
          (let s1 = vm_set_outer E (arg1 i) (r (arg2 i)) s in
           Some (Continue (if t \<noteq> 0xFF then put t (regs s1 (arg2 i)) s1 else s1)))
      | OP_LOADROOT \<Rightarrow> Some (Continue (put t (vm_root E s) s))
      | OP_GETBASE \<Rightarrow> Some (Continue (put t (vm_base E s) s))
      | OP_CLOSE \<Rightarrow> Some (Continue (vm_CloseOuters E (arg1 i) s))
      | OP_CLONE \<Rightarrow> Some (into t (vm_Clone E (r (arg1 i)) s))
      | OP_TYPEOF \<Rightarrow> Some (into t (TypeOf (vmops.truncate E) (r (arg1 i)) s))
      | OP_INSTANCEOF \<Rightarrow> Some (
            if type_of (r (arg1 i)) \<noteq> OT_CLASS then
              Thrown (Raise_Error (ErrStr (''cannot apply instanceof between a '' @ GetTypeName (r (arg1 i))
                        @ '' and a '' @ GetTypeName (r (arg2 i)))) s)
            else Continue (put t (OBool (type_of (r (arg2 i)) = OT_INSTANCE
                                         \<and> vm_InstanceOf E s (r (arg2 i)) (r (arg1 i)))) s))
      | OP_THROW \<Rightarrow> Some (Thrown (Raise_Error (ErrObj (r t)) s))
      | OP_FOREACH \<Rightarrow> Some (guard (vm_Foreach E (r t) (r (arg2 i + 2)) (arg1 i) s) (\<lambda>(upd, d) s1.
            Continue (jump d (case upd of None \<Rightarrow> s1
              | Some (o2, o3, o4) \<Rightarrow> put (arg2 i + 2) o4 (put (arg2 i + 1) o3 (put (arg2 i) o2 s1))))))
      | OP_NEWOBJ \<Rightarrow>
          (if arg3 i = 0 then Some (case vm_new_table E (arg1 i) s of (v, s1) \<Rightarrow> Continue (put t v s1))
           else if arg3 i = 1 then Some (case vm_new_array E (arg1 i) s of (v, s1) \<Rightarrow> Continue (put t v s1))
           else if arg3 i = 2 then Some (into t (vm_new_class E (arg1 i) (arg2 i) s))
           else Some (Continue s))
      | _ \<Rightarrow> None)"

definition append_value :: "instruction \<Rightarrow> 'x vmstate \<Rightarrow> gsobj option" where
  "append_value i s =
     (if arg2 i = aat_code AAT_STACK then Some (regs s (arg1 i))
      else if arg2 i = aat_code AAT_LITERAL then Some (literal s (arg1 i))
      else if arg2 i = aat_code AAT_INT then Some (OInteger (scast (a1 i)))
      else if arg2 i = aat_code AAT_FLOAT then Some (OFloat (a1 i))
      else if arg2 i = aat_code AAT_BOOL then Some (OBool (arg1 i \<noteq> 0))
      else None)"

definition exec_typed :: "'x vmstate vmenv \<Rightarrow> instruction \<Rightarrow> 'x vmstate \<Rightarrow> 'x vmstate step option" where
  "exec_typed E i s =
     (let v = regs s (arg0 i) in
      case op i of
        OP_APPENDARRAY \<Rightarrow>
          map_option (\<lambda>x. guard (vm_Append E v x s) (\<lambda>_ s1. Continue s1)) (append_value i s)
      | OP_TYPECHECK \<Rightarrow>
          (if arg1 i < 0 then
             (if type_of v \<noteq> OT_ARRAY
              then Some (Thrown (Raise_Error (ErrStr ''type mismatch: expected an array'') s))
              else map_option (\<lambda>tok.
                     case TYPECHECK_array tok (a2 i) (vm_array E s v) of
                       (r, a') \<Rightarrow> guard (r, vm_put_array E v a' s) (\<lambda>_ s1. Continue s1))
                   (typetok_of (- arg1 i)))
           else map_option (\<lambda>tok. guard (TYPECHECK_value tok v, s) (\<lambda>_ s1. Continue s1)) (typetok_of (arg1 i)))
      | OP_MATCHTYPES \<Rightarrow> Some (guard (MATCHTYPES v (regs s (arg1 i)), s) (\<lambda>_ s1. Continue s1))
      | _ \<Rightarrow> None)"

section \<open>One instruction\<close>

definition exec1 :: "'x vmstate vmenv \<Rightarrow> instruction \<Rightarrow> 'x vmstate \<Rightarrow> 'x vmstate step option" where
  "exec1 E i s =
     (case exec_move i s of
        Some r \<Rightarrow> Some r
      | None \<Rightarrow>
          (case exec_arith E i s of
             Some r \<Rightarrow> Some r
           | None \<Rightarrow> (case exec_access E i s of Some r \<Rightarrow> Some r | None \<Rightarrow> exec_typed E i s)))"

text \<open>Straight-line code: the instructions one after the other until one throws.\<close>

fun exec_seq :: "'x vmstate vmenv \<Rightarrow> instruction list \<Rightarrow> 'x vmstate \<Rightarrow> 'x vmstate step option" where
  "exec_seq E [] s = Some (Continue s)"
| "exec_seq E (i # is) s =
     (case exec1 E i s of
        Some (Continue s1) \<Rightarrow> exec_seq E is s1
      | r \<Rightarrow> r)"

lemma exec_seq_append:
  "exec_seq E (is @ js) s =
     (case exec_seq E is s of Some (Continue s1) \<Rightarrow> exec_seq E js s1 | r \<Rightarrow> r)"
  by (induction "is" arbitrary: s) (auto split: option.split step.split)

end
