(* ===== verification/GS_FuncState.thy ===== *)
theory GS_FuncState
  imports GS_Exec
begin

text \<open>
  The code buffer of a function under compilation (GSfuncstate.h, GSfuncstate.cpp): the literal
  pool, the register allocator, local and outer variables, line information and the emission
  of instructions with its peephole optimiser.

  \<open>Error\<close> leaves the compiler; it is the left summand of the result.  The vectors are lists whose
  last element is the back.  The parent of a function state is the rest of a list of states, the
  innermost function first.
\<close>

section \<open>State\<close>

record localvar =
  lname :: gsobj
  start_op :: gsint
  end_op :: gsint
  lpos :: gsint
  ltype :: int
  larray_size :: int

datatype GSOuterType = otLOCAL | otOUTER

record outervar =
  oname :: gsobj
  osrc :: gsobj
  otype :: GSOuterType

record funcstate =
  has_parent :: bool
  returnexp :: int
  vlocals :: "localvar list"
  targetstack :: "int list"
  stacksize :: int
  varparams :: bool
  bgenerator :: bool
  fprotos :: "gsobj list"
  parameters :: "gsobj list"
  outervalues :: "outervar list"
  instructions :: "instruction list"
  localvarinfos :: "localvar list"
  literal_table :: table
  nliterals :: int
  lineinfos :: "(int \<times> int) list"
  defaultparams :: "int list"
  lastline :: int
  outers :: int
  optimization :: bool
  fname :: gsobj
  sourcename :: gsobj

abbreviation UINT_MINUS_ONE :: gsint where "UINT_MINUS_ONE \<equiv> -1"
abbreviation MAX_LITERALS :: int where "MAX_LITERALS \<equiv> 0x7FFFFFFF"

definition new_funcstate :: "bool \<Rightarrow> funcstate" where
  "new_funcstate parent =
     \<lparr>has_parent = parent, returnexp = 0, vlocals = [], targetstack = [], stacksize = 0, varparams = False,
      bgenerator = False, fprotos = [], parameters = [], outervalues = [], instructions = [], localvarinfos = [],
      literal_table = CreateTable 0, nliterals = 0, lineinfos = [], defaultparams = [], lastline = 0, outers = 0,
      optimization = True, fname = ONull, sourcename = ONull\<rparr>"

definition GetCurrentPos :: "funcstate \<Rightarrow> int" where
  "GetCurrentPos fs = int (length (instructions fs)) - 1"

section \<open>Literals\<close>

text \<open>\<open>GetConstant\<close>: the index of a literal, a new one for a new literal.  The outer None is a
  table walk that does not end.\<close>

definition GetConstant :: "(ptr \<Rightarrow> gshash) \<Rightarrow> (ptr \<Rightarrow> gsobj) \<Rightarrow> gsobj \<Rightarrow> funcstate \<Rightarrow> (string + (funcstate \<times> gsint)) option" where
  "GetConstant sh wk cons fs =
     (case TableGet sh wk (literal_table fs) cons of
        None \<Rightarrow> None
      | Some (Some v) \<Rightarrow> Some (Inr (fs, tointeger v))
      | Some None \<Rightarrow>
          (case NewSlot sh (literal_table fs) cons (OInteger (word_of_int (nliterals fs))) of
             None \<Rightarrow> None
           | Some (t, _) \<Rightarrow>
               let fs1 = fs\<lparr>literal_table := t, nliterals := nliterals fs + 1\<rparr> in
               Some (if MAX_LITERALS < nliterals fs1 then Inl ''internal compiler error: too many literals''
                     else Inr (fs1, word_of_int (nliterals fs)))))"

text \<open>The literals of the finished function (\<open>BuildProto\<close>): a loop over \<open>Next\<close> stores every key
  at its index in an array of \<open>nliterals\<close> nulls.\<close>

definition collect_literals :: "funcstate \<Rightarrow> gsobj list" where
  "collect_literals fs =
     fold (\<lambda>(k, v) ls. ls[unat (tointeger v) := k]) (iterate (tnodes (literal_table fs)) 0)
       (replicate (nat (nliterals fs)) ONull)"

section \<open>Registers\<close>

text \<open>Copying a \<open>GSLocalVarInfo\<close> (as \<open>push_back\<close> does) resets the declared type.\<close>

definition copy_localvar :: "localvar \<Rightarrow> localvar" where
  "copy_localvar l = l\<lparr>ltype := -1, larray_size := -1\<rparr>"

definition temp_localvar :: localvar where
  "temp_localvar = \<lparr>lname = ONull, start_op = 0, end_op = 0, lpos = 0, ltype = -1, larray_size = -1\<rparr>"

definition AllocStackPos :: "funcstate \<Rightarrow> string + (funcstate \<times> int)" where
  "AllocStackPos fs =
     (let npos = int (length (vlocals fs)); fs1 = fs\<lparr>vlocals := vlocals fs @ [temp_localvar]\<rparr>;
          n = int (length (vlocals fs1)) in
      if stacksize fs < n then
        (if MAX_FUNC_STACKSIZE < stacksize fs then Inl ''internal compiler error: too many locals''
         else Inr (fs1\<lparr>stacksize := n\<rparr>, npos))
      else Inr (fs1, npos))"

definition PushTarget :: "int \<Rightarrow> funcstate \<Rightarrow> string + (funcstate \<times> int)" where
  "PushTarget n fs =
     (if n \<noteq> -1 then Inr (fs\<lparr>targetstack := targetstack fs @ [n]\<rparr>, n)
      else bind_res (AllocStackPos fs) (\<lambda>(fs1, m). Inr (fs1\<lparr>targetstack := targetstack fs1 @ [m]\<rparr>, m)))"

text \<open>\<open>TopTarget\<close>, \<open>GetUpTarget\<close> and \<open>PopTarget\<close>; None where the vector has no such element.\<close>

definition TopTarget :: "funcstate \<Rightarrow> int option" where
  "TopTarget fs = (if targetstack fs = [] then None else Some (last (targetstack fs)))"

definition GetUpTarget :: "nat \<Rightarrow> funcstate \<Rightarrow> int option" where
  "GetUpTarget n fs =
     (if n < length (targetstack fs) then Some (targetstack fs ! (length (targetstack fs) - 1 - n)) else None)"

definition PopTarget :: "funcstate \<Rightarrow> (funcstate \<times> int) option" where
  "PopTarget fs =
     (if targetstack fs = [] then None
      else let npos = last (targetstack fs) in
        if 0 \<le> npos \<and> npos < int (length (vlocals fs)) then
          Some (fs\<lparr>vlocals := (if lname (vlocals fs ! nat npos) = ONull then butlast (vlocals fs) else vlocals fs),
                   targetstack := butlast (targetstack fs)\<rparr>, npos)
        else None)"

definition GetStackSize :: "funcstate \<Rightarrow> int" where
  "GetStackSize fs = int (length (vlocals fs))"

definition IsLocal :: "funcstate \<Rightarrow> int \<Rightarrow> bool" where
  "IsLocal fs pos = (pos < int (length (vlocals fs)) \<and> lname (vlocals fs ! nat pos) \<noteq> ONull)"

text \<open>The number of captured variables from a stack size up.\<close>

definition CountOuters :: "nat \<Rightarrow> funcstate \<Rightarrow> int" where
  "CountOuters n fs = int (length (filter (\<lambda>l. end_op l = UINT_MINUS_ONE) (drop n (vlocals fs))))"

fun drop_locals :: "nat \<Rightarrow> funcstate \<Rightarrow> funcstate" where
  "drop_locals 0 fs = fs"
| "drop_locals (Suc k) fs =
     (let l = copy_localvar (last (vlocals fs));
          fs1 = (if lname l \<noteq> ONull then
                   fs\<lparr>outers := (if end_op l = UINT_MINUS_ONE then outers fs - 1 else outers fs),
                      localvarinfos := localvarinfos fs @ [l\<lparr>end_op := word_of_int (GetCurrentPos fs)\<rparr>]\<rparr>
                 else fs) in
      drop_locals k (fs1\<lparr>vlocals := butlast (vlocals fs1)\<rparr>))"

definition SetStackSize :: "nat \<Rightarrow> funcstate \<Rightarrow> funcstate" where
  "SetStackSize n fs = drop_locals (length (vlocals fs) - n) fs"

definition PushLocalVariable :: "gsobj \<Rightarrow> int \<Rightarrow> int \<Rightarrow> funcstate \<Rightarrow> funcstate \<times> int" where
  "PushLocalVariable name typ array_size fs =
     (let pos = int (length (vlocals fs));
          l = \<lparr>lname = name, start_op = word_of_int (GetCurrentPos fs + 1), end_op = 0, lpos = word_of_int pos,
               ltype = typ, larray_size = array_size\<rparr>;
          fs1 = fs\<lparr>vlocals := vlocals fs @ [copy_localvar l]\<rparr> in
      (fs1\<lparr>stacksize := (if stacksize fs1 < pos + 1 then pos + 1 else stacksize fs1)\<rparr>, pos))"

definition AddParameter :: "gsobj \<Rightarrow> funcstate \<Rightarrow> funcstate" where
  "AddParameter name fs =
     (let fs1 = fst (PushLocalVariable name (-1) (-1) fs) in fs1\<lparr>parameters := parameters fs1 @ [name]\<rparr>)"

section \<open>Variables\<close>

text \<open>The innermost local of a name, -1 if there is none.  Names are interned strings.\<close>

fun find_local :: "localvar list \<Rightarrow> nat \<Rightarrow> gsobj \<Rightarrow> int" where
  "find_local ls 0 name = -1"
| "find_local ls (Suc n) name =
     (if type_of (lname (ls ! n)) = OT_STRING \<and> lname (ls ! n) = name then int n else find_local ls n name)"

definition GetLocalVariable :: "gsobj \<Rightarrow> funcstate \<Rightarrow> int" where
  "GetLocalVariable name fs = find_local (vlocals fs) (length (vlocals fs)) name"

definition MarkLocalAsOuter :: "nat \<Rightarrow> funcstate \<Rightarrow> funcstate" where
  "MarkLocalAsOuter pos fs =
     fs\<lparr>vlocals := (vlocals fs)[pos := (vlocals fs ! pos)\<lparr>end_op := UINT_MINUS_ONE\<rparr>], outers := outers fs + 1\<rparr>"

fun find_outer :: "outervar list \<Rightarrow> gsobj \<Rightarrow> nat \<Rightarrow> int" where
  "find_outer [] name i = -1"
| "find_outer (ov # ovs) name i = (if oname ov = name then int i else find_outer ovs name (Suc i))"

text \<open>\<open>GetOuterVariable\<close> on the chain of function states, innermost first.\<close>

fun GetOuterVariable :: "gsobj \<Rightarrow> funcstate list \<Rightarrow> funcstate list \<times> int" where
  "GetOuterVariable name [] = ([], -1)"
| "GetOuterVariable name (fs # parents) =
     (let i = find_outer (outervalues fs) name 0 in
      if i \<noteq> -1 then (fs # parents, i)
      else case parents of
          [] \<Rightarrow> (fs # parents, -1)
        | p # ps \<Rightarrow>
            let pos = GetLocalVariable name p in
            if pos = -1 then
              (case GetOuterVariable name parents of (parents', pos') \<Rightarrow>
                 if pos' \<noteq> -1 then
                   (fs\<lparr>outervalues := outervalues fs @ [\<lparr>oname = name, osrc = OInteger (word_of_int pos'), otype = otOUTER\<rparr>]\<rparr> # parents',
                    int (length (outervalues fs)))
                 else (fs # parents', -1))
            else
              (fs\<lparr>outervalues := outervalues fs @ [\<lparr>oname = name, osrc = OInteger (word_of_int pos), otype = otLOCAL\<rparr>]\<rparr>
                 # MarkLocalAsOuter (nat pos) p # ps,
               int (length (outervalues fs))))"

section \<open>Instructions\<close>

definition SetInstructionParams :: "nat \<Rightarrow> int \<Rightarrow> int \<Rightarrow> int \<Rightarrow> int \<Rightarrow> funcstate \<Rightarrow> funcstate" where
  "SetInstructionParams pos x0 x1 x2 x3 fs =
     fs\<lparr>instructions := (instructions fs)[pos := (instructions fs ! pos)
          \<lparr>a0 := word_of_int x0, a1 := word_of_int x1, a2 := word_of_int x2, a3 := word_of_int x3\<rparr>]\<rparr>"

definition SetInstructionParam :: "nat \<Rightarrow> int \<Rightarrow> int \<Rightarrow> funcstate \<Rightarrow> funcstate" where
  "SetInstructionParam pos arg val fs =
     (let i = instructions fs ! pos;
          i' = (if arg = 0 then i\<lparr>a0 := word_of_int val\<rparr>
                else if arg = 1 \<or> arg = 4 then i\<lparr>a1 := word_of_int val\<rparr>
                else if arg = 2 then i\<lparr>a2 := word_of_int val\<rparr>
                else if arg = 3 then i\<lparr>a3 := word_of_int val\<rparr>
                else i)
      in fs\<lparr>instructions := (instructions fs)[pos := i']\<rparr>)"

text \<open>The instruction that replaces the previous one, \<open>pi\<close>, and the new one, \<open>i\<close>, where the
  optimiser merges them.\<close>

definition aat_of :: "GSOpcode \<Rightarrow> AppendArrayType option" where
  "aat_of opc =
     (case opc of
        OP_LOAD \<Rightarrow> Some AAT_LITERAL
      | OP_LOADINT \<Rightarrow> Some AAT_INT
      | OP_LOADBOOL \<Rightarrow> Some AAT_BOOL
      | OP_LOADFLOAT \<Rightarrow> Some AAT_FLOAT
      | _ \<Rightarrow> None)"

definition move_ops :: "GSOpcode set" where
  "move_ops = {OP_GET, OP_ADD, OP_SUB, OP_MUL, OP_DIV, OP_MOD, OP_BITW, OP_LOADINT, OP_LOADFLOAT, OP_LOADBOOL, OP_LOAD}"

definition merged :: "funcstate \<Rightarrow> instruction \<Rightarrow> instruction \<Rightarrow> instruction option" where
  "merged fs pi i =
     (case op i of
        OP_JZ \<Rightarrow>
          if op pi = OP_CMP \<and> arg1 pi < 0xFF
          then Some (pi\<lparr>op := OP_JCMP, a0 := ucast (a1 pi), a1 := a1 i\<rparr>) else None
      | OP_RETURN \<Rightarrow>
          if \<not> (has_parent fs \<and> arg0 i \<noteq> MAX_FUNC_STACKSIZE \<and> op pi = OP_CALL
                 \<and> returnexp fs < int (length (instructions fs)) - 1) \<and> op pi = OP_CLOSE
          then Some i else None
      | OP_GET \<Rightarrow>
          if op pi = OP_LOAD \<and> arg0 pi = arg2 i \<and> \<not> IsLocal fs (arg0 pi)
          then Some (pi\<lparr>op := OP_GETK, a0 := a0 i, a2 := ucast (a1 i)\<rparr>) else None
      | OP_PREPCALL \<Rightarrow>
          if op pi = OP_LOAD \<and> arg0 pi = arg1 i \<and> \<not> IsLocal fs (arg0 pi)
          then Some (pi\<lparr>op := OP_PREPCALLK, a0 := a0 i, a2 := a2 i, a3 := a3 i\<rparr>) else None
      | OP_APPENDARRAY \<Rightarrow>
          (case aat_of (op pi) of
             Some aat \<Rightarrow>
               if arg0 pi = arg1 i \<and> \<not> IsLocal fs (arg0 pi)
               then Some (pi\<lparr>op := OP_APPENDARRAY, a0 := a0 i, a2 := word_of_int (aat_code aat),
                            a3 := word_of_int MAX_FUNC_STACKSIZE\<rparr>) else None
           | None \<Rightarrow> None)
      | OP_MOVE \<Rightarrow>
          if op pi \<in> move_ops \<and> arg0 pi = arg1 i then Some (pi\<lparr>a0 := a0 i\<rparr>)
          else if op pi = OP_MOVE then Some (pi\<lparr>op := OP_DMOVE, a2 := a0 i, a3 := ucast (a1 i)\<rparr>)
          else None
      | OP_LOAD \<Rightarrow>
          if op pi = OP_LOAD \<and> arg1 i < 256 then Some (pi\<lparr>op := OP_DLOAD, a2 := a0 i, a3 := ucast (a1 i)\<rparr>)
          else None
      | OP_EQ \<Rightarrow>
          if op pi = OP_LOAD \<and> arg0 pi = arg1 i \<and> \<not> IsLocal fs (arg0 pi)
          then Some (pi\<lparr>op := op i, a0 := a0 i, a2 := a2 i, a3 := word_of_int MAX_FUNC_STACKSIZE\<rparr>) else None
      | OP_NE \<Rightarrow>
          if op pi = OP_LOAD \<and> arg0 pi = arg1 i \<and> \<not> IsLocal fs (arg0 pi)
          then Some (pi\<lparr>op := op i, a0 := a0 i, a2 := a2 i, a3 := word_of_int MAX_FUNC_STACKSIZE\<rparr>) else None
      | OP_LOADNULLS \<Rightarrow>
          if op pi = OP_LOADNULLS \<and> arg0 pi + arg1 pi = arg0 i then Some (pi\<lparr>a1 := a1 pi + 1\<rparr>) else None
      | _ \<Rightarrow> None)"

text \<open>A result that is copied from a register to itself is dropped.\<close>

definition drop_result :: "instruction \<Rightarrow> instruction" where
  "drop_result i =
     (if (op i = OP_SET \<or> op i = OP_NEWSLOT) \<and> a0 i = a3 i then i\<lparr>a0 := 0xFF\<rparr>
      else if op i = OP_SETOUTER \<and> a0 i = a2 i then i\<lparr>a0 := 0xFF\<rparr>
      else i)"

text \<open>\<open>AddInstruction\<close>.  Forwarding a result to the target of a move switches the optimiser off
  until the next instruction.\<close>

definition AddInstruction :: "instruction \<Rightarrow> funcstate \<Rightarrow> funcstate" where
  "AddInstruction i fs =
     (if instructions fs \<noteq> [] \<and> optimization fs then
        let pi = last (instructions fs); rest = butlast (instructions fs) in
        case merged fs pi i of
          Some j \<Rightarrow>
            fs\<lparr>instructions := rest @ [j],
               optimization := \<not> (op i = OP_MOVE \<and> op pi \<in> move_ops \<and> arg0 pi = arg1 i)\<rparr>
        | None \<Rightarrow>
            if op i = OP_RETURN \<and> has_parent fs \<and> arg0 i \<noteq> MAX_FUNC_STACKSIZE \<and> op pi = OP_CALL
               \<and> returnexp fs < int (length (instructions fs)) - 1
            then fs\<lparr>instructions := rest @ [pi\<lparr>op := OP_TAILCALL\<rparr>, i], optimization := True\<rparr>
            else if op i = OP_LINE \<and> op pi = OP_LINE
            then fs\<lparr>instructions := rest @ [i], lineinfos := butlast (lineinfos fs), optimization := True\<rparr>
            else fs\<lparr>instructions := instructions fs @ [drop_result i], optimization := True\<rparr>
      else fs\<lparr>instructions := instructions fs @ [i], optimization := True\<rparr>)"

definition SnoozeOpt :: "funcstate \<Rightarrow> funcstate" where
  "SnoozeOpt fs = fs\<lparr>optimization := False\<rparr>"

definition AddLineInfos :: "int \<Rightarrow> bool \<Rightarrow> bool \<Rightarrow> funcstate \<Rightarrow> funcstate" where
  "AddLineInfos line lineop force fs =
     (if lastline fs \<noteq> line \<or> force then
        let li = (line, GetCurrentPos fs + 1);
            fs1 = (if lineop then AddInstruction (Instr OP_LINE 0 line 0 0) fs else fs);
            fs2 = (if lastline fs1 \<noteq> line then fs1\<lparr>lineinfos := lineinfos fs1 @ [li]\<rparr> else fs1)
        in fs2\<lparr>lastline := line\<rparr>
      else fs)"

definition DiscardTarget :: "funcstate \<Rightarrow> funcstate option" where
  "DiscardTarget fs =
     (case PopTarget fs of
        None \<Rightarrow> None
      | Some (fs1, discarded) \<Rightarrow>
          Some (if instructions fs1 \<noteq> [] \<and> optimization fs1
                   \<and> op (last (instructions fs1)) \<in> {OP_SET, OP_NEWSLOT, OP_SETOUTER, OP_CALL}
                   \<and> arg0 (last (instructions fs1)) = discarded
                then fs1\<lparr>instructions := butlast (instructions fs1) @ [(last (instructions fs1))\<lparr>a0 := 0xFF\<rparr>]\<rparr>
                else fs1))"


section \<open>The optimiser keeps the meaning of straight-line code\<close>

text \<open>States that differ at most in one register.\<close>

definition same_but :: "int \<Rightarrow> 'x vmstate \<Rightarrow> 'x vmstate \<Rightarrow> bool" where
  "same_but t s s' \<longleftrightarrow> s' = s\<lparr>regs := (regs s)(t := regs s' t)\<rparr>"

lemma same_but_refl [simp]: "same_but t s s"
  by (simp add: same_but_def)

lemma same_but_put [simp]: "same_but t s (put t v s)" "same_but t (put t v s) s"
  by (simp_all add: same_but_def put_def)

lemma same_butD:
  "same_but t s s' \<Longrightarrow> r \<noteq> t \<Longrightarrow> regs s' r = regs s r"
  "same_but t s s' \<Longrightarrow> literals s' = literals s"
  "same_but t s s' \<Longrightarrow> ip s' = ip s"
  by (simp_all add: same_but_def, metis fun_upd_other vmstate.select_convs(1) vmstate.surjective vmstate.update_convs(1),
      metis vmstate.select_convs(2) vmstate.surjective vmstate.update_convs(1),
      metis vmstate.select_convs(3) vmstate.surjective vmstate.update_convs(1))


text \<open>An environment is blind to a register when looking a slot up and appending to an array neither
  read nor write it: so is the real one for a register that no captured variable lives in.\<close>

definition blind :: "'x vmstate vmenv \<Rightarrow> int \<Rightarrow> bool" where
  "blind E t \<longleftrightarrow>
     (\<forall>s s'. same_but t s s' \<longrightarrow>
        (\<forall>self key sel. rel_prod (=) (same_but t) (vm_Get E self key sel s) (vm_Get E self key sel s'))
        \<and> (\<forall>a v. rel_prod (=) (same_but t) (vm_Append E a v s) (vm_Append E a v s')))"

abbreviation step_rel :: "int \<Rightarrow> 'x vmstate step option \<Rightarrow> 'x vmstate step option \<Rightarrow> bool" where
  "step_rel t \<equiv> rel_option (rel_step (same_but t))"

lemma same_but_step_refl [simp]: "rel_step (same_but t) r r"
  by (cases r) simp_all

lemma step_rel_refl [simp]: "step_rel t r r"
  by (cases r) simp_all

lemma same_but_both:
  "same_but t s s' \<Longrightarrow> same_but t (put r v s) (put r v s')"
  "same_but t s s' \<Longrightarrow> same_but t (jump d s) (jump d s')"
  "same_but t s s' \<Longrightarrow> same_but t (Raise_Error e s) (Raise_Error e s')"
proof -
  assume "same_but t s s'"
  then obtain x where s': "s' = s\<lparr>regs := (regs s)(t := x)\<rparr>" by (metis same_but_def)
  show "same_but t (put r v s) (put r v s')"
    by (cases "r = t") (simp_all add: s' same_but_def put_def fun_upd_twist)
  show "same_but t (jump d s) (jump d s')" "same_but t (Raise_Error e s) (Raise_Error e s')"
    by (simp_all add: s' same_but_def jump_def Raise_Error_def)
qed

lemma guard_rel:
  assumes "rel_prod (=) (same_but t) r r'"
    and "\<And>v s s'. same_but t s s' \<Longrightarrow> rel_step (same_but t) (k v s) (k' v s')"
  shows "rel_step (same_but t) (guard r k) (guard r' k')"
  using assms by (cases r; cases r'; cases "fst r") (auto simp: same_but_both)

lemma guard_rel_same:
  assumes "\<And>v s. rel_step (same_but t) (k v s) (k' v s)"
  shows "rel_step (same_but t) (guard r k) (guard r k')"
  using assms by (cases r; cases "fst r") auto

lemma into_rel: "rel_prod (=) (same_but t) r r' \<Longrightarrow> rel_step (same_but t) (into d r) (into d r')"
  unfolding into_def by (rule guard_rel) (simp_all add: same_but_both)

lemma into_move:
  "rel_step (same_but t) (case into t r of Continue s1 \<Rightarrow> Continue (put d (regs s1 t) s1) | x \<Rightarrow> x) (into d r)"
  by (cases r; cases "fst r") (auto simp: into_def put_def same_but_def fun_upd_idem)

lemma ucast8:
  fixes w :: "32 word"
  assumes "0 \<le> sint w" "sint w < 256"
  shows "uint (ucast w :: 8 word) = sint w"
proof -
  have "uint w = sint w" using assms by (simp add: uint_sint take_bit_int_eq_self)
  then show ?thesis using assms by (simp add: unsigned_ucast_eq take_bit_int_eq_self)
qed


text \<open>The conventions of the compiler the optimiser relies on: a slot is not looked up with its own
  key register as object, comparisons are emitted on registers, arrays are appended to from a
  register, registers and literals are small, nulls are loaded one register at a time, and a
  conditional jump behind a comparison tests its result.  The result of a remainder is not moved.\<close>

definition emits_ok :: "instruction \<Rightarrow> instruction \<Rightarrow> bool" where
  "emits_ok pi i \<longleftrightarrow>
     (op i = OP_GET \<longrightarrow> arg1 i \<noteq> arg0 pi \<and> 0 \<le> arg1 i \<and> arg1 i < 256)
     \<and> (op i = OP_PREPCALL \<longrightarrow> arg2 i \<noteq> arg0 pi)
     \<and> (op i = OP_EQ \<or> op i = OP_NE \<longrightarrow> arg2 i \<noteq> arg0 pi \<and> arg3 i = 0)
     \<and> (op i = OP_APPENDARRAY \<longrightarrow> arg0 i \<noteq> arg0 pi \<and> arg2 i = 0)
     \<and> (op i = OP_MOVE \<longrightarrow> 0 \<le> arg1 i \<and> arg1 i < 256 \<and> op pi \<noteq> OP_MOD)
     \<and> (op i = OP_LOAD \<longrightarrow> 0 \<le> arg1 i)
     \<and> (op i = OP_LOADNULLS \<longrightarrow> arg1 i = 1 \<and> 0 \<le> arg1 pi)
     \<and> (op i = OP_JZ \<and> op pi = OP_CMP \<longrightarrow> arg0 i = arg0 pi \<and> 0 \<le> arg1 pi)"

lemma arg_updates [simp]:
  "arg0 (i\<lparr>op := x\<rparr>) = arg0 i" "arg1 (i\<lparr>op := x\<rparr>) = arg1 i" "arg2 (i\<lparr>op := x\<rparr>) = arg2 i" "arg3 (i\<lparr>op := x\<rparr>) = arg3 i"
  "arg0 (i\<lparr>a1 := w\<rparr>) = arg0 i" "arg0 (i\<lparr>a2 := b\<rparr>) = arg0 i" "arg0 (i\<lparr>a3 := b\<rparr>) = arg0 i" "arg0 (i\<lparr>a0 := b\<rparr>) = uint b"
  "arg1 (i\<lparr>a0 := b\<rparr>) = arg1 i" "arg1 (i\<lparr>a2 := b\<rparr>) = arg1 i" "arg1 (i\<lparr>a3 := b\<rparr>) = arg1 i" "arg1 (i\<lparr>a1 := w\<rparr>) = sint w"
  "arg2 (i\<lparr>a0 := b\<rparr>) = arg2 i" "arg2 (i\<lparr>a1 := w\<rparr>) = arg2 i" "arg2 (i\<lparr>a3 := b\<rparr>) = arg2 i" "arg2 (i\<lparr>a2 := b\<rparr>) = uint b"
  "arg3 (i\<lparr>a0 := b\<rparr>) = arg3 i" "arg3 (i\<lparr>a1 := w\<rparr>) = arg3 i" "arg3 (i\<lparr>a2 := b\<rparr>) = arg3 i" "arg3 (i\<lparr>a3 := b\<rparr>) = uint b"
  by (simp_all add: arg_defs)

lemma exec_seq2:
  "exec_seq E [pi, i] s = (case exec1 E pi s of Some (Continue s1) \<Rightarrow> exec1 E i s1 | r \<Rightarrow> r)"
  by (auto simp: exec_seq.simps split: option.split step.split)

lemma exec_seq1: "exec_seq E [i] s = exec1 E i s"
  by (auto simp: exec_seq.simps split: option.split step.split)

declare exec_seq.simps [simp del]

lemma exec1_moves:
  "op i = OP_LOAD \<Longrightarrow> exec1 E i s = Some (Continue (put (arg0 i) (literal s (arg1 i)) s))"
  "op i = OP_LOADINT \<Longrightarrow> exec1 E i s = Some (Continue (put (arg0 i) (OInteger (scast (a1 i))) s))"
  "op i = OP_LOADFLOAT \<Longrightarrow> exec1 E i s = Some (Continue (put (arg0 i) (OFloat (a1 i)) s))"
  "op i = OP_LOADBOOL \<Longrightarrow> exec1 E i s = Some (Continue (put (arg0 i) (OBool (arg1 i \<noteq> 0)) s))"
  "op i = OP_MOVE \<Longrightarrow> exec1 E i s = Some (Continue (put (arg0 i) (regs s (arg1 i)) s))"
  "op i = OP_DLOAD \<Longrightarrow> exec1 E i s =
     (let s1 = put (arg0 i) (literal s (arg1 i)) s in Some (Continue (put (arg2 i) (literal s1 (arg3 i)) s1)))"
  "op i = OP_DMOVE \<Longrightarrow> exec1 E i s =
     (let s1 = put (arg0 i) (regs s (arg1 i)) s in Some (Continue (put (arg2 i) (regs s1 (arg3 i)) s1)))"
  "op i = OP_LOADNULLS \<Longrightarrow> exec1 E i s = Some (Continue (load_nulls (nat (arg1 i)) (arg0 i) s))"
  "op i = OP_JZ \<Longrightarrow> exec1 E i s = Some (Continue (if IsFalse (regs s (arg0 i)) then jump (arg1 i) s else s))"
  "op i = OP_LINE \<Longrightarrow> exec1 E i s = Some (Continue s)"
  by (simp_all add: exec1_def exec_move_def Let_def)

lemma exec1_compare:
  "op i = OP_CMP \<Longrightarrow> exec1 E i s =
     map_option (\<lambda>c. into (arg0 i) (CMP_OP (vmops.truncate E) c (regs s (arg2 i)) (regs s (arg1 i)) s)) (cmp_of_code (arg3 i))"
  "op i = OP_JCMP \<Longrightarrow> exec1 E i s =
     map_option (\<lambda>c. guard (CMP_OP (vmops.truncate E) c (regs s (arg2 i)) (regs s (arg0 i)) s)
       (\<lambda>r s1. Continue (if IsFalse r then jump (arg1 i) s1 else s1))) (cmp_of_code (arg3 i))"
  subgoal by (cases "cmp_of_code (arg3 i)") (simp_all add: exec1_def exec_move_def exec_arith_def exec_access_def exec_typed_def Let_def)
  subgoal by (cases "cmp_of_code (arg3 i)") (simp_all add: exec1_def exec_move_def exec_arith_def exec_access_def exec_typed_def Let_def)
  done

lemma exec1_operators:
  "op i = OP_EQ \<Longrightarrow> exec1 E i s = Some (Continue (put (arg0 i) (OBool (IsEqual (regs s (arg2 i)) (cond_literal i s))) s))"
  "op i = OP_NE \<Longrightarrow> exec1 E i s = Some (Continue (put (arg0 i) (OBool (\<not> IsEqual (regs s (arg2 i)) (cond_literal i s))) s))"
  "op i = OP_ADD \<Longrightarrow> exec1 E i s = Some (into (arg0 i) (ARITH_fast (vmops.truncate E) CHR ''+'' (regs s (arg2 i)) (regs s (arg1 i)) s))"
  "op i = OP_SUB \<Longrightarrow> exec1 E i s = Some (into (arg0 i) (ARITH_fast (vmops.truncate E) CHR ''-'' (regs s (arg2 i)) (regs s (arg1 i)) s))"
  "op i = OP_MUL \<Longrightarrow> exec1 E i s = Some (into (arg0 i) (ARITH_fast (vmops.truncate E) CHR ''*'' (regs s (arg2 i)) (regs s (arg1 i)) s))"
  "op i = OP_DIV \<Longrightarrow> exec1 E i s = Some (into (arg0 i) (DIV_fast (vmops.truncate E) (regs s (arg2 i)) (regs s (arg1 i)) s))"
  "op i = OP_BITW \<Longrightarrow> exec1 E i s = Some (into (arg0 i) (BW_OP (arg3 i) (regs s (arg2 i)) (regs s (arg1 i)), s))"
  by (simp_all add: exec1_def exec_move_def exec_arith_def Let_def)

lemma exec1_MOD:
  "op i = OP_MOD \<Longrightarrow> exec1 E i s = Some (case ARITH_OP (vmops.truncate E) CHR ''%'' (regs s (arg2 i)) (regs s (arg1 i)) s of
      (Done v, s1) \<Rightarrow> Continue (put (arg0 i) v s1)
    | (Fail e, s1) \<Rightarrow> Continue (Raise_Error e s1)
    | (Trap, s1) \<Rightarrow> Crash)"
  by (simp add: exec1_def exec_move_def exec_arith_def Let_def)

lemma exec1_slots:
  "op i = OP_GET \<Longrightarrow> exec1 E i s = Some (into (arg0 i) (vm_Get E (regs s (arg1 i)) (regs s (arg2 i)) (arg1 i) s))"
  "op i = OP_GETK \<Longrightarrow> exec1 E i s = Some (into (arg0 i) (vm_Get E (regs s (arg2 i)) (literal s (arg1 i)) (arg2 i) s))"
  "op i = OP_PREPCALL \<Longrightarrow> exec1 E i s = Some (guard (vm_Get E (regs s (arg2 i)) (regs s (arg1 i)) (arg2 i) s) (\<lambda>v s1.
            Continue (put (arg0 i) v (put (arg3 i) (regs s1 (arg2 i)) s1))))"
  "op i = OP_PREPCALLK \<Longrightarrow> exec1 E i s = Some (guard (vm_Get E (regs s (arg2 i)) (literal s (arg1 i)) (arg2 i) s) (\<lambda>v s1.
            Continue (put (arg0 i) v (put (arg3 i) (regs s1 (arg2 i)) s1))))"
  "op i = OP_APPENDARRAY \<Longrightarrow> exec1 E i s =
          map_option (\<lambda>x. guard (vm_Append E (regs s (arg0 i)) x s) (\<lambda>_ s1. Continue s1)) (append_value i s)"
  "op i = OP_SET \<Longrightarrow> exec1 E i s = Some (guard (vm_Set E (regs s (arg1 i)) (regs s (arg2 i)) (regs s (arg3 i)) (arg1 i) s) (\<lambda>_ s1.
            Continue (if arg0 i \<noteq> 0xFF then put (arg0 i) (regs s1 (arg3 i)) s1 else s1)))"
  "op i = OP_NEWSLOT \<Longrightarrow> exec1 E i s = Some (guard (vm_NewSlot E (regs s (arg1 i)) (regs s (arg2 i)) (regs s (arg3 i)) False s) (\<lambda>_ s1.
            Continue (if arg0 i \<noteq> 0xFF then put (arg0 i) (regs s1 (arg3 i)) s1 else s1)))"
  "op i = OP_SETOUTER \<Longrightarrow> exec1 E i s =
     (let s1 = vm_set_outer E (arg1 i) (regs s (arg2 i)) s in
      Some (Continue (if arg0 i \<noteq> 0xFF then put (arg0 i) (regs s1 (arg2 i)) s1 else s1)))"
  by (simp_all add: exec1_def exec_move_def exec_arith_def exec_access_def exec_typed_def Let_def)

lemmas exec1_simps = exec1_moves exec1_compare exec1_operators exec1_MOD exec1_slots

lemma literal_put [simp]: "literal (put r v s) k = literal s k"
  by (simp add: literal_def put_def)

lemma regs_put: "regs (put r v s) x = (if x = r then v else regs s x)"
  by (simp add: put_def)

text \<open>Merges that are exact.\<close>

lemma merged_DMOVE:
  assumes "op pi = OP_MOVE" "op i = OP_MOVE" "0 \<le> arg1 i" "arg1 i < 256"
  shows "exec_seq E [pi, i] s = exec_seq E [pi\<lparr>op := OP_DMOVE, a2 := a0 i, a3 := ucast (a1 i)\<rparr>] s"
  using assms ucast8[of "a1 i"]
  by (simp add: exec_seq2 exec_seq1 exec1_simps arg0_def[of i] arg1_def[of i] Let_def)

lemma merged_DLOAD:
  assumes "op pi = OP_LOAD" "op i = OP_LOAD" "0 \<le> arg1 i" "arg1 i < 256"
  shows "exec_seq E [pi, i] s = exec_seq E [pi\<lparr>op := OP_DLOAD, a2 := a0 i, a3 := ucast (a1 i)\<rparr>] s"
  using assms ucast8[of "a1 i"]
  by (simp add: exec_seq2 exec_seq1 exec1_simps arg0_def[of i] arg1_def[of i] Let_def)

lemma load_nulls_Suc: "load_nulls (Suc n) r s = put (r + int n) ONull (load_nulls n r s)"
proof (induction n arbitrary: r s)
  case (Suc n)
  have "load_nulls (Suc (Suc n)) r s = load_nulls (Suc n) (r + 1) (put r ONull s)" by simp
  also have "\<dots> = put (r + 1 + int n) ONull (load_nulls n (r + 1) (put r ONull s))" by (rule Suc)
  finally show ?case by (simp add: algebra_simps)
qed simp

lemma sint_succ_small:
  fixes w :: "32 word"
  assumes "0 \<le> sint w" "sint w < 256"
  shows "sint (w + 1) = sint w + 1"
proof -
  have "w + 1 = word_of_int (sint w + 1)" by simp
  moreover have "sint (word_of_int (sint w + 1) :: 32 word) = signed_take_bit 31 (sint w + 1)"
    by (simp only: sint_sbintrunc') simp
  ultimately have "sint (w + 1) = signed_take_bit 31 (sint w + 1)" by metis
  also have "\<dots> = sint w + 1" using assms by (simp add: signed_take_bit_int_eq_self)
  finally show ?thesis .
qed

lemma merged_LOADNULLS:
  assumes "op pi = OP_LOADNULLS" "op i = OP_LOADNULLS" "arg0 pi + arg1 pi = arg0 i" "arg1 i = 1" "0 \<le> arg1 pi"
  shows "exec_seq E [pi, i] s = exec_seq E [pi\<lparr>a1 := a1 pi + 1\<rparr>] s"
proof -
  have "arg0 i < 256" "0 \<le> arg0 pi" by (simp_all add: arg0_def unsigned_less[of "a0 i", where ?'a = int, simplified])
  then have b: "arg1 pi < 256" using assms(3) by simp
  then have "sint (a1 pi + 1) = arg1 pi + 1"
    using assms(5) sint_succ_small[of "a1 pi"] by (simp add: arg1_def)
  then have "nat (sint (a1 pi + 1)) = Suc (nat (arg1 pi))" using assms(5) by simp
  then show ?thesis
    using assms load_nulls_Suc[of "nat (arg1 pi)" "arg0 pi" s]
    by (simp add: exec_seq2 exec_seq1 exec1_simps del: load_nulls.simps) (simp add: put_def)
qed


text \<open>Merges that leave the temporary register unwritten.\<close>

lemma blind_Get:
  "blind E t \<Longrightarrow> same_but t s s' \<Longrightarrow> rel_prod (=) (same_but t) (vm_Get E self key sel s) (vm_Get E self key sel s')"
  by (simp add: blind_def)

lemma blind_Append:
  "blind E t \<Longrightarrow> same_but t s s' \<Longrightarrow> rel_prod (=) (same_but t) (vm_Append E a v s) (vm_Append E a v s')"
  by (simp add: blind_def)

lemma merged_GETK:
  assumes "op pi = OP_LOAD" "op i = OP_GET" "arg0 pi = arg2 i" "arg1 i \<noteq> arg0 pi" "0 \<le> arg1 i" "arg1 i < 256"
    "blind E (arg0 pi)"
  shows "step_rel (arg0 pi) (exec_seq E [pi, i] s) (exec_seq E [pi\<lparr>op := OP_GETK, a0 := a0 i, a2 := ucast (a1 i)\<rparr>] s)"
proof -
  have u: "uint (ucast (a1 i) :: 8 word) = arg1 i" using assms(5,6) ucast8[of "a1 i"] by (simp add: arg1_def)
  show ?thesis
    using assms
    by (simp add: exec_seq2 exec_seq1 exec1_simps u regs_put arg0_def[symmetric] into_rel blind_Get)
qed

lemma merged_PREPCALLK:
  assumes "op pi = OP_LOAD" "op i = OP_PREPCALL" "arg0 pi = arg1 i" "arg2 i \<noteq> arg0 pi" "blind E (arg0 pi)"
  shows "step_rel (arg0 pi) (exec_seq E [pi, i] s)
           (exec_seq E [pi\<lparr>op := OP_PREPCALLK, a0 := a0 i, a2 := a2 i, a3 := a3 i\<rparr>] s)"
  using assms
  by (simp add: exec_seq2 exec_seq1 exec1_simps regs_put arg0_def[symmetric] arg2_def[symmetric] arg3_def[symmetric]
       )
     (intro guard_rel blind_Get, simp_all add: same_but_both same_butD(1))

lemma merged_EQ_NE:
  assumes "op pi = OP_LOAD" "op i = OP_EQ \<or> op i = OP_NE" "arg0 pi = arg1 i" "arg2 i \<noteq> arg0 pi" "arg3 i = 0"
  shows "step_rel (arg0 pi) (exec_seq E [pi, i] s)
           (exec_seq E [pi\<lparr>op := op i, a0 := a0 i, a2 := a2 i, a3 := word_of_int MAX_FUNC_STACKSIZE\<rparr>] s)"
proof -
  have u: "uint (word_of_int MAX_FUNC_STACKSIZE :: 8 word) = 255" by simp
  show ?thesis
    using assms
    by (auto simp: exec_seq2 exec_seq1 exec1_simps regs_put arg0_def[symmetric] arg2_def[symmetric] cond_literal_def u same_but_both
         )
qed

lemma merged_APPENDARRAY:
  assumes "aat_of (op pi) = Some aat" "op i = OP_APPENDARRAY" "arg0 pi = arg1 i" "arg0 i \<noteq> arg0 pi" "arg2 i = 0"
    "blind E (arg0 pi)"
  shows "step_rel (arg0 pi) (exec_seq E [pi, i] s)
           (exec_seq E [pi\<lparr>op := OP_APPENDARRAY, a0 := a0 i, a2 := word_of_int (aat_code aat),
                            a3 := word_of_int MAX_FUNC_STACKSIZE\<rparr>] s)"
proof -
  have opi: "op pi = OP_LOAD \<and> aat = AAT_LITERAL \<or> op pi = OP_LOADINT \<and> aat = AAT_INT
      \<or> op pi = OP_LOADBOOL \<and> aat = AAT_BOOL \<or> op pi = OP_LOADFLOAT \<and> aat = AAT_FLOAT"
    using assms(1) by (auto simp: aat_of_def split: GSOpcode.splits)
  obtain v where v: "exec1 E pi s = Some (Continue (put (arg0 pi) v s))"
    "append_value (pi\<lparr>op := OP_APPENDARRAY, a0 := a0 i, a2 := word_of_int (aat_code aat), a3 := word_of_int MAX_FUNC_STACKSIZE\<rparr>) s = Some v"
    using opi by (auto simp: exec1_simps append_value_def)
  have w: "append_value i (put (arg0 pi) v s) = Some v"
    using assms(3,5) by (simp add: append_value_def regs_put)
  show ?thesis
    using assms v w
    by (simp add: exec_seq2 exec_seq1 exec1_simps regs_put arg0_def[symmetric])
       (intro guard_rel blind_Append; simp)
qed

lemma merged_JCMP:
  assumes "op pi = OP_CMP" "op i = OP_JZ" "arg0 i = arg0 pi" "0 \<le> arg1 pi" "arg1 pi < 0xFF"
  shows "step_rel (arg0 pi) (exec_seq E [pi, i] s) (exec_seq E [pi\<lparr>op := OP_JCMP, a0 := ucast (a1 pi), a1 := a1 i\<rparr>] s)"
proof -
  have u: "uint (ucast (a1 pi) :: 8 word) = arg1 pi" using assms(4,5) ucast8[of "a1 pi"] by (simp add: arg1_def)
  show ?thesis
  proof (cases "cmp_of_code (arg3 pi)")
    case (Some c)
    let ?r = "CMP_OP (vmops.truncate E) c (regs s (arg2 pi)) (regs s (arg1 pi)) s"
    show ?thesis
      using assms Some
      by (cases ?r; cases "fst ?r")
         (auto simp: exec_seq2 exec_seq1 exec1_simps u into_def regs_put same_but_both arg1_def[symmetric])
  qed (use assms in \<open>simp add: exec_seq2 exec_seq1 exec1_simps del: exec_seq.simps\<close>)
qed

lemma merged_MOVE:
  assumes "op pi \<in> move_ops" "op i = OP_MOVE" "arg0 pi = arg1 i" "op pi \<noteq> OP_MOD"
  shows "step_rel (arg0 pi) (exec_seq E [pi, i] s) (exec_seq E [pi\<lparr>a0 := a0 i\<rparr>] s)"
proof -
  have via: "step_rel (arg0 pi) (exec_seq E [pi, i] s) (exec_seq E [pi\<lparr>a0 := a0 i\<rparr>] s)"
    if "exec1 E pi s = Some (into (arg0 pi) r)" "exec1 E (pi\<lparr>a0 := a0 i\<rparr>) s = Some (into (arg0 i) r)" for r
    using that assms(2,3)
    by (cases r; cases "fst r")
       (auto simp: exec_seq2 exec_seq1 exec1_moves into_def put_def same_but_def fun_upd_idem)
  have const: "step_rel (arg0 pi) (exec_seq E [pi, i] s) (exec_seq E [pi\<lparr>a0 := a0 i\<rparr>] s)"
    if "exec1 E pi s = Some (Continue (put (arg0 pi) v s))" "exec1 E (pi\<lparr>a0 := a0 i\<rparr>) s = Some (Continue (put (arg0 i) v s))" for v
    using via[of "(Done v, s)"] that by (simp add: into_def)
  have "op pi \<in> {OP_LOAD, OP_LOADINT, OP_LOADFLOAT, OP_LOADBOOL} \<or> op pi \<in> {OP_GET, OP_ADD, OP_SUB, OP_MUL, OP_DIV, OP_BITW}"
    using assms(1,4) by (auto simp: move_ops_def)
  then show ?thesis
    by (elim disjE insertE emptyE)
       (rule via const; simp add: exec1_simps arg0_def[symmetric])+
qed

text \<open>Dropping a result that would be copied from a register to itself changes nothing.\<close>

lemma put_self: "r' = r \<Longrightarrow> (if c then put r (regs s r') s else s) = s"
  by (simp add: put_def)

lemma drop_result_exec: "exec1 E (drop_result i) s = exec1 E i s"
proof -
  consider "op i = OP_SET \<or> op i = OP_NEWSLOT" "a0 i = a3 i" | "op i = OP_SETOUTER" "a0 i = a2 i"
    | "drop_result i = i"
    unfolding drop_result_def by metis
  then show ?thesis
  proof cases
    case 1
    then have "arg3 i = arg0 i" by (simp add: arg_defs)
    with 1 show ?thesis by (auto simp: drop_result_def exec1_simps put_self[of "arg3 i" "arg0 i"])
  next
    case 2
    then have "arg2 i = arg0 i" by (simp add: arg_defs)
    with 2 show ?thesis by (auto simp: drop_result_def exec1_simps put_self[of "arg2 i" "arg0 i"])
  qed simp
qed

lemma merged_equiv:
  assumes m: "merged fs pi i = Some j" and ok: "emits_ok pi i" and bl: "blind E (arg0 pi)" and nr: "op i \<noteq> OP_RETURN"
  shows "step_rel (arg0 pi) (exec_seq E [pi, i] s) (exec_seq E [j] s)"
proof (cases "op i")
  case OP_JZ
  with m ok show ?thesis
    by (auto simp: merged_def emits_ok_def split: if_splits intro!: merged_JCMP)
next
  case OP_GET
  with m ok bl show ?thesis
    using merged_GETK[of pi i E s] by (auto simp: merged_def emits_ok_def split: if_splits)
next
  case OP_PREPCALL
  with m ok bl show ?thesis
    using merged_PREPCALLK[of pi i E s] by (auto simp: merged_def emits_ok_def split: if_splits)
next
  case OP_APPENDARRAY
  with m obtain aat where aat: "aat_of (op pi) = Some aat" by (auto simp: merged_def split: option.splits)
  with OP_APPENDARRAY m ok bl merged_APPENDARRAY[of pi aat i E s] show ?thesis
    by (auto simp: merged_def emits_ok_def split: if_splits)
next
  case OP_MOVE
  with m ok show ?thesis
    using merged_MOVE[of pi i E s] by (auto simp: merged_def emits_ok_def merged_DMOVE split: if_splits)
next
  case OP_LOAD
  with m ok show ?thesis
    by (auto simp: merged_def emits_ok_def merged_DLOAD split: if_splits)
next
  case OP_EQ
  with m ok show ?thesis
    using merged_EQ_NE[of pi i E s] by (auto simp: merged_def emits_ok_def split: if_splits)
next
  case OP_NE
  with m ok show ?thesis
    using merged_EQ_NE[of pi i E s] by (auto simp: merged_def emits_ok_def split: if_splits)
next
  case OP_LOADNULLS
  with m ok show ?thesis
    by (auto simp: merged_def emits_ok_def merged_LOADNULLS split: if_splits)
qed (use m nr in \<open>simp_all add: merged_def\<close>)

text \<open>A move that takes the result of the previous instruction to another register.\<close>

definition forwards :: "instruction \<Rightarrow> instruction \<Rightarrow> bool" where
  "forwards pi i \<longleftrightarrow> op i = OP_MOVE \<and> op pi \<in> move_ops \<and> arg0 pi = arg1 i"

text \<open>Two merges do not test whether the register they leave unwritten is a local variable: a forwarding
  move and a conditional jump.  The compiler jumps on temporaries only and snoozes the optimiser before it
  moves out of a local.\<close>

definition spares_locals :: "funcstate \<Rightarrow> instruction \<Rightarrow> instruction \<Rightarrow> bool" where
  "spares_locals fs pi i \<longleftrightarrow>
     (forwards pi i \<or> op i = OP_JZ \<and> op pi = OP_CMP \<longrightarrow> \<not> IsLocal fs (arg0 pi))"

text \<open>When the previous instruction wrote a local variable, the merges that are left are exact.\<close>

lemma merged_exact:
  assumes m: "merged fs pi i = Some j" and ok: "emits_ok pi i" "spares_locals fs pi i"
    and loc: "IsLocal fs (arg0 pi)" and nr: "op i \<noteq> OP_RETURN"
  shows "exec_seq E [pi, i] s = exec_seq E [j] s"
proof (cases "op i")
  case OP_MOVE
  with m ok loc show ?thesis
    by (auto simp: merged_def emits_ok_def spares_locals_def forwards_def merged_DMOVE split: if_splits)
next
  case OP_LOAD
  with m ok show ?thesis by (auto simp: merged_def emits_ok_def merged_DLOAD split: if_splits)
next
  case OP_LOADNULLS
  with m ok show ?thesis by (auto simp: merged_def emits_ok_def merged_LOADNULLS split: if_splits)
qed (use m ok loc nr in \<open>auto simp: merged_def spares_locals_def split: if_splits option.splits\<close>)

lemma exec_seq_tail:
  "(\<And>s. exec_seq E xs s = exec_seq E ys s) \<Longrightarrow> exec_seq E (is @ xs) s = exec_seq E (is @ ys) s"
  by (simp add: exec_seq_append cong: option.case_cong step.case_cong)

lemma step_rel_tail:
  "(\<And>s. step_rel t (exec_seq E xs s) (exec_seq E ys s)) \<Longrightarrow> step_rel t (exec_seq E (is @ xs) s) (exec_seq E (is @ ys) s)"
  by (auto simp: exec_seq_append split: option.split step.split)

text \<open>The instruction is merged, or the code is that of the two instructions.\<close>

lemma AddInstruction_cases:
  fixes E :: "'x vmstate vmenv"
  assumes "instructions fs = is @ [pi]" "op i \<noteq> OP_RETURN"
  obtains (merge) j where "optimization fs" "merged fs pi i = Some j" "instructions (AddInstruction i fs) = is @ [j]"
  | (same) ys where "instructions (AddInstruction i fs) = is @ ys" "\<And>s. exec_seq E ys s = exec_seq E [pi, i] s"
proof (cases "optimization fs")
  case False
  then have "instructions (AddInstruction i fs) = is @ [pi, i]" using assms(1) by (simp add: AddInstruction_def)
  then show ?thesis by (rule same) simp
next
  case True
  show ?thesis
  proof (cases "merged fs pi i")
    case (Some j)
    with True assms(1) have "instructions (AddInstruction i fs) = is @ [j]" by (simp add: AddInstruction_def Let_def)
    with True Some show ?thesis by (rule merge)
  next
    case None
    show ?thesis
    proof (cases "op i = OP_LINE \<and> op pi = OP_LINE")
      case True': True
      with True None assms have "instructions (AddInstruction i fs) = is @ [i]"
        by (simp add: AddInstruction_def Let_def)
      then show ?thesis
        by (rule same) (use True' in \<open>simp add: exec_seq1 exec_seq2 exec1_simps\<close>)
    next
      case False
      with True None assms have "instructions (AddInstruction i fs) = is @ [pi, drop_result i]"
        by (simp add: AddInstruction_def Let_def)
      then show ?thesis
        by (rule same) (simp add: exec_seq2 drop_result_exec cong: option.case_cong step.case_cong)
    qed
  qed
qed

text \<open>
  C2: The peephole optimiser is correct on straight-line code.  Emitting an instruction with
  \<open>AddInstruction\<close> gives code that does what the old code followed by the new instruction does: the same
  exception or fault, or the same state up to the register that the previous instruction wrote; and exactly the
  same when that register is a local variable or the optimiser is snoozed.  After a result has been forwarded to the
  target of a move, the optimiser leaves the next instruction, whichever it is, alone.
  This holds whatever the metamethods do, for environments that do not look at the temporary (\<open>blind\<close>), operands as the
  compiler emits them (\<open>emits_ok\<close>, \<open>spares_locals\<close>) and all instructions but returns, whose merges are
  outside of straight-line code.  A remainder followed by a move is excluded by \<open>emits_ok\<close>: there the optimiser does
  change the outcome of a modulo by zero; and a conditional jump is taken to test the register just compared.
\<close>

theorem AddInstruction_preserves_meaning:
  assumes "instructions fs = is @ [pi]" "emits_ok pi i" "blind E (arg0 pi)" "op i \<noteq> OP_RETURN" "spares_locals fs pi i"
  shows "step_rel (arg0 pi) (exec_seq E (instructions fs @ [i]) s) (exec_seq E (instructions (AddInstruction i fs)) s)
       \<and> (IsLocal fs (arg0 pi) \<or> \<not> optimization fs \<longrightarrow>
            exec_seq E (instructions (AddInstruction i fs)) s = exec_seq E (instructions fs @ [i]) s)
       \<and> (optimization fs \<and> forwards pi i \<longrightarrow>
            (\<forall>k. exec_seq E (instructions (AddInstruction k (AddInstruction i fs))) s
               = exec_seq E (instructions (AddInstruction i fs) @ [k]) s))"
proof (intro conjI impI allI)
  show "step_rel (arg0 pi) (exec_seq E (instructions fs @ [i]) s) (exec_seq E (instructions (AddInstruction i fs)) s)"
    using assms(1,4)
  proof (cases rule: AddInstruction_cases[where E = E])
    case (merge j)
    with step_rel_tail[OF merged_equiv[OF merge(2) assms(2-4)]] assms(1) show ?thesis by simp
  next
    case (same ys)
    with exec_seq_tail[of E ys "[pi, i]"] assms(1) show ?thesis by simp
  qed
next
  assume local: "IsLocal fs (arg0 pi) \<or> \<not> optimization fs"
  show "exec_seq E (instructions (AddInstruction i fs)) s = exec_seq E (instructions fs @ [i]) s"
    using assms(1,4)
  proof (cases rule: AddInstruction_cases[where E = E])
    case (merge j)
    with local have "IsLocal fs (arg0 pi)" by simp
    from exec_seq_tail[OF merged_exact[OF merge(2) assms(2,5) this assms(4)], symmetric] show ?thesis
      by (simp add: merge(3) assms(1))
  next
    case (same ys)
    with exec_seq_tail[of E ys "[pi, i]"] assms(1) show ?thesis by simp
  qed
next
  fix k
  assume "optimization fs \<and> forwards pi i"
  then have "optimization (AddInstruction i fs) = False"
    using assms(1) by (simp add: AddInstruction_def merged_def forwards_def Let_def)
  then show "exec_seq E (instructions (AddInstruction k (AddInstruction i fs))) s
      = exec_seq E (instructions (AddInstruction i fs) @ [k]) s"
    by (simp add: AddInstruction_def[of k])
qed

text \<open>An environment in which nothing is reachable: every access fails and nothing has effects.\<close>

definition empty_env :: "'x vmstate vmenv" where
  "empty_env =
     \<lparr>has_delegate = \<lambda>_ _. False, GetMetaMethod = \<lambda>_ _ _. None, callmm = \<lambda>_ _ _ w. (Fail (ErrObj ONull), w),
      strval = \<lambda>_ _. [], mkstr = \<lambda>_ w. (0, w), fmt_g = \<lambda>_. [], fmt_p = \<lambda>_. [],
      vm_Get = \<lambda>_ _ _ w. (Fail (ErrObj ONull), w), vm_Exists = \<lambda>_ _ w. (False, w),
      vm_Set = \<lambda>_ _ _ _ w. (Fail (ErrObj ONull), w), vm_NewSlot = \<lambda>_ _ _ _ w. (Fail (ErrObj ONull), w),
      vm_NewSlotA = \<lambda>_ _ _ _ _ w. (Fail (ErrObj ONull), w), vm_DeleteSlot = \<lambda>_ _ w. (Fail (ErrObj ONull), w),
      vm_Clone = \<lambda>_ w. (Fail (ErrObj ONull), w), vm_Append = \<lambda>_ _ w. (Fail (ErrObj ONull), w),
      vm_Foreach = \<lambda>_ _ _ w. (Fail (ErrObj ONull), w), vm_InstanceOf = \<lambda>_ _ _. False,
      vm_array = \<lambda>_ _. \<lparr>avalues = [], max_capacity = -1, element_type = None\<rparr>, vm_put_array = \<lambda>_ _ w. w,
      vm_outer = \<lambda>_ _. ONull, vm_set_outer = \<lambda>_ _ w. w, vm_root = \<lambda>_. ONull, vm_base = \<lambda>_. ONull,
      vm_new_table = \<lambda>_ w. (ONull, w), vm_new_array = \<lambda>_ w. (ONull, w),
      vm_new_class = \<lambda>_ _ w. (Fail (ErrObj ONull), w), vm_CloseOuters = \<lambda>_ w. w\<rparr>"

lemma AddInstruction_preserves_meaning_witness:
  "let fs = (new_funcstate False)\<lparr>instructions := [Instr OP_ADD 3 1 2 0]\<rparr>; E = empty_env :: unit vmstate vmenv;
       s = \<lparr>regs = (\<lambda>r. OInteger 1), literals = [OInteger 1], ip = 0, lasterror = None, xworld = ()\<rparr> in
   instructions (AddInstruction (Instr OP_MOVE 0 3 0 0) fs) = [Instr OP_ADD 0 1 2 0]
   \<and> step_rel 3 (exec_seq E [Instr OP_ADD 3 1 2 0, Instr OP_MOVE 0 3 0 0] s) (exec_seq E [Instr OP_ADD 0 1 2 0] s)
   \<and> exec_seq E (instructions (AddInstruction (Instr OP_MOVE 4 0 0 0) (AddInstruction (Instr OP_MOVE 0 3 0 0) fs))) s
     = exec_seq E [Instr OP_ADD 0 1 2 0, Instr OP_MOVE 4 0 0 0] s"
proof -
  let ?fs = "(new_funcstate False)\<lparr>instructions := [Instr OP_ADD 3 1 2 0]\<rparr>"
  let ?s = "\<lparr>regs = (\<lambda>r. OInteger 1), literals = [OInteger 1], ip = 0, lasterror = None, xworld = ()\<rparr>"
  have b: "blind (empty_env :: unit vmstate vmenv) 3" by (simp add: blind_def empty_env_def)
  have e: "emits_ok (Instr OP_ADD 3 1 2 0) (Instr OP_MOVE 0 3 0 0)"
    by (simp add: emits_ok_def Instr_def arg_defs)
  have sp: "spares_locals ?fs (Instr OP_ADD 3 1 2 0) (Instr OP_MOVE 0 3 0 0)"
    by (simp add: spares_locals_def IsLocal_def new_funcstate_def Instr_def arg_defs)
  have f: "forwards (Instr OP_ADD 3 1 2 0) (Instr OP_MOVE 0 3 0 0)"
    by (simp add: forwards_def move_ops_def Instr_def arg_defs)
  have r: "instructions (AddInstruction (Instr OP_MOVE 0 3 0 0) ?fs) = [Instr OP_ADD 0 1 2 0]"
    by (simp add: AddInstruction_def merged_def new_funcstate_def move_ops_def Instr_def arg_defs)
  show ?thesis
    using AddInstruction_preserves_meaning[of ?fs "[]" "Instr OP_ADD 3 1 2 0" "Instr OP_MOVE 0 3 0 0" empty_env ?s]
      b e sp f r
    by (simp add: Let_def) (simp add: Instr_def arg_defs new_funcstate_def)
qed

text \<open>
  The merge of a conditional jump into the comparison before it does not look at the register
  the jump tests.  For a jump on register 5 behind a comparison into register 3, as
  \<open>if (a < b, x)\<close> compiles to, the emitted code jumps on the comparison (here it jumps, with x true)
  where the two instructions go by the register (here they do not).
\<close>

theorem JZ_merge_ignores_register:
  "let pi = Instr OP_CMP 3 1 2 3; i = Instr OP_JZ 5 7 0 0;
       fs = (new_funcstate False)\<lparr>instructions := [pi]\<rparr>;
       s = \<lparr>regs = (\<lambda>r. if r = 5 then OBool True else OInteger (word_of_int r)), literals = [], ip = 0,
             lasterror = None, xworld = ()\<rparr>;
       next_ip = (\<lambda>r. case r of Some (Continue s') \<Rightarrow> Some (ip s') | _ \<Rightarrow> None)
   in next_ip (exec_seq empty_env [pi, i] s) = Some 0
      \<and> next_ip (exec_seq empty_env (instructions (AddInstruction i fs)) s) = Some 7"
  by (simp add: Let_def AddInstruction_def merged_def Instr_def new_funcstate_def exec_seq1 exec_seq2 exec1_simps
      arg_defs cmp_of_code_def CMP_OP_def ObjCmp_def cmp_result_def into_def put_def jump_def IsFalse_def word_sless_alt)

section \<open>The literal pool\<close>

text \<open>The pool stands for the list of its literals in the order of their creation.\<close>

definition pool_ok :: "(ptr \<Rightarrow> gshash) \<Rightarrow> funcstate \<Rightarrow> gsobj list \<Rightarrow> bool" where
  "pool_ok sh fs cs \<longleftrightarrow>
     table_ok sh (literal_table fs) \<and> nliterals fs = int (length cs) \<and> distinct cs \<and> ONull \<notin> set cs
     \<and> dom (tabs (literal_table fs)) = set cs
     \<and> (\<forall>j < length cs. tabs (literal_table fs) (cs ! j) = Some (OInteger (word_of_nat j)))"

fun GetConstants ::
    "(ptr \<Rightarrow> gshash) \<Rightarrow> (ptr \<Rightarrow> gsobj) \<Rightarrow> gsobj list \<Rightarrow> funcstate \<Rightarrow> (string + (funcstate \<times> gsint list)) option" where
  "GetConstants sh wk [] fs = Some (Inr (fs, []))"
| "GetConstants sh wk (k # ks) fs =
     (case GetConstant sh wk k fs of
        None \<Rightarrow> None
      | Some (Inl e) \<Rightarrow> Some (Inl e)
      | Some (Inr (fs1, i)) \<Rightarrow>
          (case GetConstants sh wk ks fs1 of
             None \<Rightarrow> None
           | Some (Inl e) \<Rightarrow> Some (Inl e)
           | Some (Inr (fs2, is)) \<Rightarrow> Some (Inr (fs2, i # is))))"

lemma GetConstant_step:
  assumes ok: "pool_ok sh fs cs" and k: "k \<noteq> ONull" and room: "length cs < nat MAX_LITERALS"
  shows "\<exists>fs' cs' j. GetConstant sh wk k fs = Some (Inr (fs', word_of_nat j)) \<and> pool_ok sh fs' cs'
           \<and> (\<exists>new. cs' = cs @ new \<and> length new \<le> 1) \<and> j < length cs' \<and> cs' ! j = k"
proof (cases "k \<in> set cs")
  case True
  then obtain j where j: "j < length cs" "cs ! j = k" by (auto simp: in_set_conv_nth)
  then have "TableGet sh wk (literal_table fs) k = Some (Some (OInteger (word_of_nat j)))"
    using ok tbl.lookup_abs[of sh "literal_table fs" wk k] by (auto simp: pool_ok_def realval_def)
  then have "GetConstant sh wk k fs = Some (Inr (fs, word_of_nat j))" by (simp add: GetConstant_def)
  then show ?thesis using ok j by fastforce
next
  case False
  then have nk: "tabs (literal_table fs) k = None" using ok by (auto simp: pool_ok_def)
  then have g: "TableGet sh wk (literal_table fs) k = Some None"
    using ok tbl.lookup_abs[of sh "literal_table fs" wk k] by (auto simp: pool_ok_def)
  obtain t b where t: "NewSlot sh (literal_table fs) k (OInteger (word_of_int (nliterals fs))) = Some (t, b)"
      "table_ok sh t" "tabs t = (tabs (literal_table fs))(k \<mapsto> OInteger (word_of_int (nliterals fs)))"
    using ok k tbl.insert_abs[of sh "literal_table fs" k "OInteger (word_of_int (nliterals fs))"]
    by (auto simp: pool_ok_def)
  let ?fs = "fs\<lparr>literal_table := t, nliterals := nliterals fs + 1\<rparr>"
  have n: "nliterals fs = int (length cs)" using ok by (simp add: pool_ok_def)
  have "pool_ok sh ?fs (cs @ [k])"
    using ok t(2,3) k False unfolding pool_ok_def by (auto simp: n nth_append less_Suc_eq)
  moreover have "GetConstant sh wk k fs = Some (Inr (?fs, word_of_nat (length cs)))"
    using g t(1) room by (simp add: GetConstant_def n Let_def)
  ultimately show ?thesis
    by (intro exI[of _ ?fs] exI[of _ "cs @ [k]"] exI[of _ "length cs"]) auto
qed

lemma fold_place_other:
  "length (fold (\<lambda>x ls. ls[f x := g x]) xs ls) = length ls"
  "j \<notin> f ` set xs \<Longrightarrow> fold (\<lambda>x ls. ls[f x := g x]) xs ls ! j = ls ! j"
  by (induction xs arbitrary: ls) (auto simp: nth_list_update)

lemma fold_place:
  assumes "distinct (map f xs)" "\<forall>x \<in> set xs. f x < length ls" "x \<in> set xs"
  shows "fold (\<lambda>x ls. ls[f x := g x]) xs ls ! f x = g x"
  using assms
proof (induction xs arbitrary: ls)
  case (Cons y xs)
  show ?case
  proof (cases "x \<in> set xs")
    case False
    with Cons.prems have "x = y" by simp
    with Cons.prems fold_place_other(2)[of "f y" f xs g "ls[f y := g y]"] show ?thesis by auto
  qed (use Cons in auto)
qed simp

lemma collect_literals_pool:
  assumes ok: "pool_ok sh fs cs" and small: "length cs \<le> nat MAX_LITERALS"
  shows "collect_literals fs = cs"
proof -
  let ?xs = "iterate (tnodes (literal_table fs)) 0" and ?f = "\<lambda>(k :: gsobj, v). unat (tointeger v)"
  have tok: "table_ok sh (literal_table fs)" using ok by (simp add: pool_ok_def)
  have xs: "distinct (map fst ?xs)" "map_of ?xs = tabs (literal_table fs)"
    using distinct_entries[OF table_ok_keys[OF tok]] by (simp_all add: iterate_entries tabs_def)
  have mem: "(k, v) \<in> set ?xs \<longleftrightarrow> (\<exists>j < length cs. k = cs ! j \<and> v = OInteger (word_of_nat j))" for k v
  proof -
    have "(k, v) \<in> set ?xs \<longleftrightarrow> tabs (literal_table fs) k = Some v"
      using xs by (metis map_of_eq_Some_iff)
    also have "\<dots> \<longleftrightarrow> (\<exists>j < length cs. k = cs ! j \<and> v = OInteger (word_of_nat j))"
    proof
      assume v: "tabs (literal_table fs) k = Some v"
      then have "k \<in> set cs" using ok by (auto simp: pool_ok_def)
      then obtain j where "j < length cs" "k = cs ! j" by (auto simp: in_set_conv_nth)
      with v ok show "\<exists>j < length cs. k = cs ! j \<and> v = OInteger (word_of_nat j)" by (auto simp: pool_ok_def)
    qed (use ok in \<open>auto simp: pool_ok_def\<close>)
    finally show ?thesis .
  qed
  have idx: "j < length cs \<Longrightarrow> unat (word_of_nat j :: gsint) = j" for j
    using small by (simp add: unsigned_of_nat take_bit_nat_eq_self)
  have fx: "\<exists>j < length cs. x = (cs ! j, OInteger (word_of_nat j)) \<and> ?f x = j" if "x \<in> set ?xs" for x
  proof -
    from that mem[of "fst x" "snd x"] obtain j where "j < length cs" "fst x = cs ! j" "snd x = OInteger (word_of_nat j)" by auto
    with idx[of j] show ?thesis by (cases x) auto
  qed
  have "inj_on ?f (set ?xs)"
  proof (rule inj_onI)
    fix x y assume "x \<in> set ?xs" "y \<in> set ?xs" "?f x = ?f y"
    then show "x = y" using fx[of x] fx[of y] by auto
  qed
  then have d: "distinct (map ?f ?xs)" using xs(1) by (simp add: distinct_map)
  let ?ls = "replicate (length cs) ONull"
  have b: "\<forall>x \<in> set ?xs. ?f x < length ?ls" using fx by fastforce
  have col: "collect_literals fs = fold (\<lambda>x ls. ls[?f x := fst x]) ?xs ?ls"
    using ok by (simp add: collect_literals_def pool_ok_def case_prod_unfold)
  show ?thesis
  proof (rule nth_equalityI)
    show "length (collect_literals fs) = length cs" using fold_place_other(1)[of ?f fst ?xs ?ls] by (simp add: col)
    fix j assume "j < length (collect_literals fs)"
    then have j: "j < length cs" using fold_place_other(1)[of ?f fst ?xs ?ls] by (simp add: col)
    then have "(cs ! j, OInteger (word_of_nat j)) \<in> set ?xs" using mem by blast
    from fold_place[OF d b this, of fst] show "collect_literals fs ! j = cs ! j"
      using idx[OF j] by (simp add: col)
  qed
qed

lemma GetConstants_pool:
  "pool_ok sh fs cs \<Longrightarrow> ONull \<notin> set ks \<Longrightarrow> length cs + length ks \<le> nat MAX_LITERALS \<Longrightarrow>
   \<exists>fs' is cs'. GetConstants sh wk ks fs = Some (Inr (fs', is)) \<and> pool_ok sh fs' cs' \<and> (\<exists>new. cs' = cs @ new)
     \<and> length cs' \<le> length cs + length ks
     \<and> length is = length ks \<and> (\<forall>n < length ks. \<exists>j < length cs'. is ! n = word_of_nat j \<and> cs' ! j = ks ! n)"
proof (induction ks arbitrary: fs cs)
  case (Cons k ks)
  then have "length cs < nat MAX_LITERALS" "k \<noteq> ONull" by auto
  from GetConstant_step[OF Cons.prems(1) this(2,1)] obtain fs1 cs1 j new where
    1: "GetConstant sh wk k fs = Some (Inr (fs1, word_of_nat j))" "pool_ok sh fs1 cs1"
       "cs1 = cs @ new" "length new \<le> 1" "j < length cs1" "cs1 ! j = k" by blast
  have "length cs1 + length ks \<le> nat MAX_LITERALS" using 1(3,4) Cons.prems(3) by simp
  from Cons.IH[OF 1(2) _ this] Cons.prems(2) obtain fs2 "is" cs2 new2 where
    2: "GetConstants sh wk ks fs1 = Some (Inr (fs2, is))" "pool_ok sh fs2 cs2" "cs2 = cs1 @ new2"
       "length cs2 \<le> length cs1 + length ks" "length is = length ks"
       "\<forall>n < length ks. \<exists>j < length cs2. is ! n = word_of_nat j \<and> cs2 ! j = ks ! n" by auto
  have all: "\<exists>i < length cs2. (word_of_nat j # is) ! n = (word_of_nat i :: gsint) \<and> cs2 ! i = (k # ks) ! n"
    if "n < length (k # ks)" for n
  proof (cases n)
    case 0
    then show ?thesis using 1(5,6) 2(3) by (auto simp: nth_append intro!: exI[of _ j])
  next
    case (Suc m)
    then show ?thesis using 2(6) that by auto
  qed
  have "GetConstants sh wk (k # ks) fs = Some (Inr (fs2, word_of_nat j # is))" using 1(1) 2(1) by simp
  then show ?case
    using 2(2,4,5) 1(3,4) 2(3) all
    by (intro exI[of _ fs2] exI[of _ "word_of_nat j # is"] exI[of _ cs2]) auto
qed auto

text \<open>
  C12: The literal pool is faithful.  After any sequence of \<open>GetConstant\<close> calls on a new function, the
  array of literals the finished function gets has at every answered index the constant that was
  asked for, and two constants share an index only if they are the same value; the calls always
  return, whatever collisions the pool's hash table has.
\<close>

theorem literal_pool_faithful:
  assumes "ONull \<notin> set ks" "length ks \<le> nat MAX_LITERALS"
  shows "\<exists>fs is. GetConstants sh wk ks (new_funcstate parent) = Some (Inr (fs, is)) \<and> length is = length ks
           \<and> (\<forall>n < length ks. unat (is ! n) < length (collect_literals fs) \<and> collect_literals fs ! unat (is ! n) = ks ! n)"
proof -
  have ok: "pool_ok sh (new_funcstate parent) []"
    using CreateTable_spec[of sh 0] by (simp add: pool_ok_def new_funcstate_def)
  from GetConstants_pool[OF ok assms(1), of wk] assms(2) obtain fs "is" cs where
    r: "GetConstants sh wk ks (new_funcstate parent) = Some (Inr (fs, is))" "pool_ok sh fs cs" "length cs \<le> length ks"
       "length is = length ks" "\<forall>n < length ks. \<exists>j < length cs. is ! n = word_of_nat j \<and> cs ! j = ks ! n" by auto
  have col: "collect_literals fs = cs" using collect_literals_pool[OF r(2)] r(3) assms(2) by simp
  have idx: "j < length cs \<Longrightarrow> unat (word_of_nat j :: gsint) = j" for j
    using r(3) assms(2) by (simp add: unsigned_of_nat take_bit_nat_eq_self)
  have "unat (is ! n) < length cs \<and> cs ! unat (is ! n) = ks ! n" if "n < length ks" for n
    using r(5) that idx by fastforce
  with r(1,4) col show ?thesis by auto
qed

lemma literal_pool_faithful_witness:
  "\<exists>fs is. GetConstants (\<lambda>p. 0) (\<lambda>p. ONull) [OString 8, OInteger 5, OString 8] (new_funcstate False) = Some (Inr (fs, is))
     \<and> collect_literals fs ! unat (is ! 2) = OString 8"
  using literal_pool_faithful[of "[OString 8, OInteger 5, OString 8]" "\<lambda>p. 0" "\<lambda>p. ONull" False]
  by (auto simp: numeral_2_eq_2)


section \<open>Captured variables\<close>

text \<open>What an outer value of the innermost function stands for at run time: how many functions out,
  and which register there.  \<open>otLOCAL\<close> is a register of the parent, \<open>otOUTER\<close> an outer value of it.\<close>

fun resolve :: "funcstate list \<Rightarrow> int \<Rightarrow> (nat \<times> int) option" where
  "resolve [] i = None"
| "resolve (fs # ps) i =
     (if 0 \<le> i \<and> i < int (length (outervalues fs)) then
        let ov = outervalues fs ! nat i; src = sint (tointeger (osrc ov)) in
        case otype ov of
          otLOCAL \<Rightarrow> Some (1, src)
        | otOUTER \<Rightarrow> map_option (\<lambda>(d, p). (Suc d, p)) (resolve ps src)
      else None)"

text \<open>The scoping rule: the nearest enclosing function that has a local of that name.\<close>

fun enclosing :: "gsobj \<Rightarrow> funcstate list \<Rightarrow> (nat \<times> int) option" where
  "enclosing name [] = None"
| "enclosing name (p # ps) =
     (if GetLocalVariable name p \<noteq> -1 then Some (1, GetLocalVariable name p)
      else map_option (\<lambda>(d, pos). (Suc d, pos)) (enclosing name ps))"

fun captures_ok :: "funcstate list \<Rightarrow> bool" where
  "captures_ok [] = True"
| "captures_ok (fs # ps) =
     ((\<forall>i < length (outervalues fs). resolve (fs # ps) (int i) = enclosing (oname (outervalues fs ! i)) ps
          \<and> enclosing (oname (outervalues fs ! i)) ps \<noteq> None)
      \<and> captures_ok ps)"

definition small_chain :: "funcstate list \<Rightarrow> bool" where
  "small_chain fss \<longleftrightarrow> (\<forall>fs \<in> set fss. length (vlocals fs) < 2 ^ 62 \<and> length (outervalues fs) < 2 ^ 62)"

lemma find_local_bounds: "-1 \<le> find_local ls n name \<and> find_local ls n name < int n"
  by (induction n) auto

lemma find_local_names:
  "map lname ls = map lname ls' \<Longrightarrow> n \<le> length ls \<Longrightarrow> find_local ls n name = find_local ls' n name"
proof (induction n)
  case (Suc n)
  then have "lname (ls ! n) = lname (ls' ! n)" by (metis Suc_le_lessD nth_map map_eq_imp_length_eq)
  moreover have "find_local ls n name = find_local ls' n name" using Suc by simp
  ultimately show ?case by (simp only: find_local.simps)
qed simp

lemma GetLocalVariable_mark [simp]: "GetLocalVariable name (MarkLocalAsOuter pos fs) = GetLocalVariable name fs"
proof -
  have "map lname ((vlocals fs)[pos := (vlocals fs ! pos)\<lparr>end_op := UINT_MINUS_ONE\<rparr>]) = map lname (vlocals fs)"
  proof (rule nth_equalityI)
    fix i assume "i < length (map lname ((vlocals fs)[pos := (vlocals fs ! pos)\<lparr>end_op := UINT_MINUS_ONE\<rparr>]))"
    then show "map lname ((vlocals fs)[pos := (vlocals fs ! pos)\<lparr>end_op := UINT_MINUS_ONE\<rparr>]) ! i = map lname (vlocals fs) ! i"
      by (cases "i = pos") simp_all
  qed simp
  from find_local_names[OF this, of "length (vlocals fs)" name] show ?thesis
    by (simp add: GetLocalVariable_def MarkLocalAsOuter_def)
qed

lemma GetLocalVariable_outervalues [simp]: "GetLocalVariable name (fs\<lparr>outervalues := ovs\<rparr>) = GetLocalVariable name fs"
  by (simp add: GetLocalVariable_def)

lemma find_outer_spec:
  "(find_outer ovs name k = -1 \<and> (\<forall>ov \<in> set ovs. oname ov \<noteq> name))
   \<or> (\<exists>i < length ovs. find_outer ovs name k = int (k + i) \<and> oname (ovs ! i) = name)"
proof (induction ovs arbitrary: k)
  case (Cons ov ovs)
  show ?case
  proof (cases "oname ov = name")
    case False
    with Cons[of "Suc k"] show ?thesis by fastforce
  qed force
qed simp

lemma sint_of_small: "0 \<le> n \<Longrightarrow> n < 2 ^ 62 \<Longrightarrow> sint (word_of_int n :: gsint) = n"
  by (simp add: sint_sbintrunc' signed_take_bit_int_eq_self)

lemma enclosing_mark [simp]: "enclosing name (MarkLocalAsOuter pos p # ps) = enclosing name (p # ps)"
  by simp

lemma resolve_snoc:
  assumes "i < length (outervalues fs)"
  shows "resolve (fs\<lparr>outervalues := outervalues fs @ [ov]\<rparr> # ps) (int i) = resolve (fs # ps) (int i)"
  using assms by (simp add: nth_append)

lemma resolve_mark: "resolve (MarkLocalAsOuter pos p # ps) i = resolve (p # ps) i"
  by (simp add: MarkLocalAsOuter_def)

text \<open>Adding an outer value to the innermost function of a consistent chain.\<close>

lemma captures_ok_push:
  assumes ok: "captures_ok (fs # ps)" and ok': "captures_ok ps'"
    and enc: "\<And>n. enclosing n ps' = enclosing n ps"
    and keep: "\<And>k. resolve ps k \<noteq> None \<Longrightarrow> resolve ps' k = resolve ps k"
    and new: "resolve (fs\<lparr>outervalues := outervalues fs @ [ov]\<rparr> # ps') (int (length (outervalues fs))) = enclosing (oname ov) ps"
    and some: "enclosing (oname ov) ps \<noteq> None"
  shows "captures_ok (fs\<lparr>outervalues := outervalues fs @ [ov]\<rparr> # ps')"
    and "resolve (fs # ps) k \<noteq> None \<Longrightarrow> resolve (fs\<lparr>outervalues := outervalues fs @ [ov]\<rparr> # ps') k = resolve (fs # ps) k"
proof -
  let ?fs = "fs\<lparr>outervalues := outervalues fs @ [ov]\<rparr>"
  have old: "resolve (?fs # ps') k = resolve (fs # ps) k" if "resolve (fs # ps) k \<noteq> None" for k
  proof -
    from that have k: "0 \<le> k" "k < int (length (outervalues fs))" by (auto split: if_splits)
    then have n: "nat k < length (outervalues fs)" by simp
    show ?thesis
      using that k n keep[of "sint (tointeger (osrc (outervalues fs ! nat k)))"]
      by (cases "otype (outervalues fs ! nat k)") (auto simp: nth_append Let_def)
  qed
  show "resolve (fs # ps) k \<noteq> None \<Longrightarrow> resolve (?fs # ps') k = resolve (fs # ps) k" by (rule old)
  have "resolve (?fs # ps') (int i) = enclosing (oname (outervalues ?fs ! i)) ps' \<and> enclosing (oname (outervalues ?fs ! i)) ps' \<noteq> None"
    if i: "i < length (outervalues ?fs)" for i
  proof (cases "i < length (outervalues fs)")
    case True
    with ok have "resolve (fs # ps) (int i) = enclosing (oname (outervalues fs ! i)) ps"
      "enclosing (oname (outervalues fs ! i)) ps \<noteq> None" by (simp_all del: resolve.simps)
    with old[of "int i"] True enc show ?thesis by (simp add: nth_append del: resolve.simps)
  next
    case False
    with i have "i = length (outervalues fs)" by simp
    with new some enc show ?thesis by (simp del: resolve.simps)
  qed
  with ok' show "captures_ok (?fs # ps')" by (simp del: resolve.simps)
qed

definition outer_result_ok :: "gsobj \<Rightarrow> funcstate list \<Rightarrow> funcstate list \<Rightarrow> int \<Rightarrow> bool" where
  "outer_result_ok name fss fss' i \<longleftrightarrow>
     captures_ok fss' \<and> (\<forall>n. enclosing n fss' = enclosing n fss)
     \<and> (\<forall>k. resolve fss k \<noteq> None \<longrightarrow> resolve fss' k = resolve fss k)
     \<and> (i = -1 \<longleftrightarrow> enclosing name (tl fss) = None)
     \<and> (i \<noteq> -1 \<longrightarrow> 0 \<le> i \<and> i < 2 ^ 62 \<and> resolve fss' i = enclosing name (tl fss))"

lemma enclosing_cong:
  "GetLocalVariable n a = GetLocalVariable n b \<Longrightarrow> enclosing n ps = enclosing n qs \<Longrightarrow> enclosing n (a # ps) = enclosing n (b # qs)"
  by simp

lemma GetOuterVariable_correct:
  "captures_ok fss \<Longrightarrow> small_chain fss \<Longrightarrow> fss \<noteq> [] \<Longrightarrow>
   outer_result_ok name fss (fst (GetOuterVariable name fss)) (snd (GetOuterVariable name fss))"
proof (induction name fss rule: GetOuterVariable.induct)
  case (2 name fs parents)
  let ?i = "find_outer (outervalues fs) name 0"
  have len: "length (outervalues fs) < 2 ^ 62" using "2.prems"(2) by (simp add: small_chain_def)
  consider (found) j where "j < length (outervalues fs)" "?i = int j" "oname (outervalues fs ! j) = name"
    | (top) "?i = -1" "parents = []"
    | (loc) p ps where "?i = -1" "parents = p # ps" "GetLocalVariable name p \<noteq> -1"
    | (outer) p ps where "?i = -1" "parents = p # ps" "GetLocalVariable name p = -1"
    using find_outer_spec[of "outervalues fs" name 0] by (cases parents) auto
  then show ?case
  proof cases
    case found
    with "2.prems"(1) have "resolve (fs # parents) (int j) = enclosing name parents" "enclosing name parents \<noteq> None"
      by (auto simp del: resolve.simps)
    with found "2.prems"(1) len show ?thesis by (simp add: outer_result_ok_def del: resolve.simps)
  next
    case top
    with "2.prems"(1) show ?thesis by (simp add: outer_result_ok_def del: resolve.simps)
  next
    case (loc p ps)
    let ?pos = "GetLocalVariable name p"
    let ?ov = "\<lparr>oname = name, osrc = OInteger (word_of_int ?pos), otype = otLOCAL\<rparr>"
    let ?p = "MarkLocalAsOuter (nat ?pos) p"
    have pos: "0 \<le> ?pos" "?pos < 2 ^ 62"
      using find_local_bounds[of "vlocals p" "length (vlocals p)" name] loc(3) "2.prems"(2)
      by (auto simp: GetLocalVariable_def loc(2) small_chain_def)
    have pok: "captures_ok (?p # ps)" using "2.prems"(1) by (simp add: loc(2) resolve_mark del: resolve.simps) (simp add: MarkLocalAsOuter_def)
    have new: "resolve (fs\<lparr>outervalues := outervalues fs @ [?ov]\<rparr> # ?p # ps) (int (length (outervalues fs))) = enclosing name (p # ps)"
      using pos loc(3) by (simp add: Let_def sint_of_small)
    have e: "enclosing n (?p # ps) = enclosing n (p # ps)" for n by simp
    have k: "resolve (p # ps) k \<noteq> None \<Longrightarrow> resolve (?p # ps) k = resolve (p # ps) k" for k
      by (simp add: resolve_mark del: resolve.simps)
    have some: "enclosing name (p # ps) \<noteq> None" using loc(3) by simp
    have ok: "captures_ok (fs # p # ps)" using "2.prems"(1) by (simp only: loc(2))
    have "GetOuterVariable name (fs # parents) = (fs\<lparr>outervalues := outervalues fs @ [?ov]\<rparr> # ?p # ps, int (length (outervalues fs)))"
      using loc by (simp add: Let_def)
    then show ?thesis
      using captures_ok_push(1)[OF ok pok e k, where ov = ?ov] captures_ok_push(2)[OF ok pok e k, where ov = ?ov] new some len
      by (simp add: outer_result_ok_def loc(2) enclosing_cong del: resolve.simps captures_ok.simps)
  next
    case (outer p ps)
    have pk: "captures_ok parents" "small_chain parents" "parents \<noteq> []"
      using "2.prems" by (simp_all add: outer(2) small_chain_def)
    define parents' i' where "parents' = fst (GetOuterVariable name parents)" and "i' = snd (GetOuterVariable name parents)"
    have IH: "outer_result_ok name parents parents' i'"
      using "2.IH"[OF refl _ outer(2) refl] outer pk unfolding parents'_def i'_def by simp
    have all: "captures_ok parents'" "\<And>n. enclosing n parents' = enclosing n parents"
      "\<And>k. resolve parents k \<noteq> None \<Longrightarrow> resolve parents' k = resolve parents k"
      "i' = -1 \<longleftrightarrow> enclosing name ps = None"
      "i' \<noteq> -1 \<Longrightarrow> 0 \<le> i' \<and> i' < 2 ^ 62 \<and> resolve parents' i' = enclosing name ps"
      using IH by (auto simp: outer_result_ok_def outer(2))
    have enc: "enclosing name parents = map_option (\<lambda>(d, pos). (Suc d, pos)) (enclosing name ps)"
      by (simp add: outer(2,3))
    let ?ov = "\<lparr>oname = name, osrc = OInteger (word_of_int i'), otype = otOUTER\<rparr>"
    let ?fs = "fs\<lparr>outervalues := outervalues fs @ [?ov]\<rparr>"
    have res: "GetOuterVariable name (fs # parents) =
        (if i' \<noteq> -1 then (?fs # parents', int (length (outervalues fs))) else (fs # parents', -1))"
      using outer unfolding parents'_def i'_def by (simp add: Let_def split: prod.split)
    show ?thesis
    proof (cases "i' = -1")
      case True
      have none: "enclosing name parents = None" using True all(4) enc by simp
      have keep: "resolve (fs # parents') k = resolve (fs # parents) k" if "resolve (fs # parents) k \<noteq> None" for k
        using that all(3)[of "sint (tointeger (osrc (outervalues fs ! nat k)))"]
        by (cases "otype (outervalues fs ! nat k)") (auto simp: Let_def split: if_splits)
      have "captures_ok (fs # parents')"
        using "2.prems"(1) all(1,2) keep by (simp del: resolve.simps)
      then show ?thesis
        using True res none keep all(2) by (simp add: outer_result_ok_def enclosing_cong del: resolve.simps captures_ok.simps)
    next
      case False
      from all(5)[OF False] have i': "0 \<le> i'" "i' < 2 ^ 62" "resolve parents' i' = enclosing name ps" by auto
      have new: "resolve (?fs # parents') (int (length (outervalues fs))) = enclosing (oname ?ov) parents"
        using i' enc by (simp add: Let_def sint_of_small)
      have some: "enclosing (oname ?ov) parents \<noteq> None" using False all(4) enc by simp
      show ?thesis
        using captures_ok_push(1)[OF "2.prems"(1) all(1,2,3) new some] captures_ok_push(2)[OF "2.prems"(1) all(1,2,3) new some]
          new some len res False all(2)
        by (simp add: outer_result_ok_def enclosing_cong del: resolve.simps captures_ok.simps)
    qed
  qed
qed simp


text \<open>
  C4: Captured variables follow lexical scope.  In a chain of functions under compilation whose
  earlier captures are consistent, \<open>GetOuterVariable\<close> fails exactly if no enclosing function has a
  local of that name; otherwise the chain of capture descriptors it leaves leads to the register of
  the nearest enclosing function's innermost local of that name, and all captures stay consistent.
\<close>

theorem GetOuterVariable_scoping:
  assumes "captures_ok (fs # ps)" "small_chain (fs # ps)"
  shows "\<exists>fss' i. GetOuterVariable name (fs # ps) = (fss', i) \<and> captures_ok fss'
           \<and> (i = -1 \<longleftrightarrow> enclosing name ps = None)
           \<and> (i \<noteq> -1 \<longrightarrow> resolve fss' i = enclosing name ps)"
  using GetOuterVariable_correct[OF assms, of name]
  by (cases "GetOuterVariable name (fs # ps)") (simp add: outer_result_ok_def del: resolve.simps captures_ok.simps GetOuterVariable.simps)

lemma GetOuterVariable_scoping_witness:
  "\<exists>fss' i. GetOuterVariable (OString 8)
       [new_funcstate True, new_funcstate True, fst (PushLocalVariable (OString 8) (-1) (-1) (new_funcstate False))] = (fss', i)
     \<and> resolve fss' i = Some (2, 0)"
proof -
  have ok: "captures_ok [new_funcstate True, new_funcstate True, fst (PushLocalVariable (OString 8) (-1) (-1) (new_funcstate False))]"
    by (simp add: new_funcstate_def PushLocalVariable_def Let_def)
  have sm: "small_chain [new_funcstate True, new_funcstate True, fst (PushLocalVariable (OString 8) (-1) (-1) (new_funcstate False))]"
    by (simp add: small_chain_def new_funcstate_def PushLocalVariable_def Let_def)
  have "enclosing (OString 8) [new_funcstate True, fst (PushLocalVariable (OString 8) (-1) (-1) (new_funcstate False))] = Some (2, 0)"
    by (simp add: new_funcstate_def PushLocalVariable_def GetLocalVariable_def copy_localvar_def Let_def)
  with GetOuterVariable_scoping[OF ok sm, of "OString 8"] show ?thesis
    by (auto simp del: resolve.simps GetOuterVariable.simps enclosing.simps)
qed

section \<open>Temporaries\<close>

fun push_temps :: "nat \<Rightarrow> funcstate \<Rightarrow> string + (funcstate \<times> int list)" where
  "push_temps 0 fs = Inr (fs, [])"
| "push_temps (Suc n) fs =
     bind_res (PushTarget (-1) fs) (\<lambda>(fs1, r). bind_res (push_temps n fs1) (\<lambda>(fs2, rs). Inr (fs2, r # rs)))"

fun pop_temps :: "nat \<Rightarrow> funcstate \<Rightarrow> (funcstate \<times> int list) option" where
  "pop_temps 0 fs = Some (fs, [])"
| "pop_temps (Suc n) fs =
     (case pop_temps n fs of
        None \<Rightarrow> None
      | Some (fs1, rs) \<Rightarrow> (case PopTarget fs1 of None \<Rightarrow> None | Some (fs2, r) \<Rightarrow> Some (fs2, r # rs)))"

lemma PushTarget_temp:
  assumes "PushTarget (-1) fs = Inr (fs1, r)" "stacksize fs \<le> 256" "int (length (vlocals fs)) \<le> stacksize fs"
  shows "r = int (length (vlocals fs)) \<and> r \<le> 255 \<and> stacksize fs1 \<le> 256 \<and> int (length (vlocals fs1)) \<le> stacksize fs1
           \<and> stacksize fs \<le> stacksize fs1
           \<and> (\<forall>k. PopTarget (fs1\<lparr>stacksize := k\<rparr>) = Some (fs\<lparr>stacksize := k\<rparr>, r))"
  using assms
  by (auto simp: PushTarget_def AllocStackPos_def PopTarget_def temp_localvar_def Let_def bind_res_Inr nth_append split: if_splits)

text \<open>
  Temporaries form a stack.  Allocating any number of temporary registers either reports too many
  locals or gives consecutive registers above the locals, all at most 255 and below the function's stack
  size; releasing them gives back the same registers in reverse order and restores the allocator, except
  that the stack size stays at its maximum.
\<close>

theorem temporaries_are_a_stack:
  assumes "push_temps n fs = Inr (fs1, rs)" "stacksize fs \<le> 256" "int (length (vlocals fs)) \<le> stacksize fs"
  shows "rs = map int [length (vlocals fs)..<length (vlocals fs) + n] \<and> (\<forall>r \<in> set rs. r \<le> 255 \<and> r < stacksize fs1)
           \<and> stacksize fs1 \<le> 256 \<and> pop_temps n fs1 = Some (fs\<lparr>stacksize := stacksize fs1\<rparr>, rs)"
proof -
  have "rs = map int [length (vlocals fs)..<length (vlocals fs) + n] \<and> (\<forall>r \<in> set rs. r \<le> 255 \<and> r < stacksize fs1)
           \<and> stacksize fs1 \<le> 256 \<and> stacksize fs \<le> stacksize fs1
           \<and> (\<forall>k. pop_temps n (fs1\<lparr>stacksize := k\<rparr>) = Some (fs\<lparr>stacksize := k\<rparr>, rs))"
    using assms
  proof (induction n arbitrary: fs rs)
    case (Suc n)
    obtain fs2 r rs' where 1: "PushTarget (-1) fs = Inr (fs2, r)" "push_temps n fs2 = Inr (fs1, rs')" "rs = r # rs'"
      using Suc.prems(1) by (auto simp: bind_res_Inr)
    note p = PushTarget_temp[OF 1(1) Suc.prems(2,3)]
    have v: "length (vlocals fs2) = Suc (length (vlocals fs))"
      using 1(1) by (auto simp: PushTarget_def AllocStackPos_def Let_def bind_res_Inr split: if_splits)
    from Suc.IH[OF 1(2)] p have IH: "rs' = map int [Suc (length (vlocals fs))..<Suc (length (vlocals fs)) + n]"
      "\<forall>r \<in> set rs'. r \<le> 255 \<and> r < stacksize fs1" "stacksize fs1 \<le> 256" "stacksize fs2 \<le> stacksize fs1"
      "\<forall>k. pop_temps n (fs1\<lparr>stacksize := k\<rparr>) = Some (fs2\<lparr>stacksize := k\<rparr>, rs')" by (simp_all add: v)
    have "[length (vlocals fs)..<length (vlocals fs) + Suc n] = length (vlocals fs) # [Suc (length (vlocals fs))..<Suc (length (vlocals fs)) + n]"
      by (simp add: upt_rec)
    with IH p v 1(3) show ?case by auto
  qed auto
  from this show ?thesis by (auto dest: spec[of _ "stacksize fs1"])
qed

lemma temporaries_are_a_stack_witness:
  "\<exists>fs1. push_temps 3 (new_funcstate False) = Inr (fs1, [0, 1, 2]) \<and> pop_temps 3 fs1 = Some ((new_funcstate False)\<lparr>stacksize := 3\<rparr>, [0, 1, 2])"
proof -
  obtain fs1 where "push_temps 3 (new_funcstate False) = Inr (fs1, [0, 1, 2])" "stacksize fs1 = 3"
    by (simp add: numeral_3_eq_3 PushTarget_def AllocStackPos_def new_funcstate_def Let_def)
  with temporaries_are_a_stack[of 3 "new_funcstate False" fs1 "[0, 1, 2]"] show ?thesis
    by (auto simp: new_funcstate_def)
qed

text \<open>
  The allocator can hand out the register that means no register.  With 255 registers in use the next
  temporary is register 255, which an instruction cannot name as a target: \<open>DiscardTarget\<close>, slot
  assignments and returns take 0xFF for no result.
\<close>

theorem AllocStackPos_hands_out_the_sentinel:
  "map_sum id snd (AllocStackPos ((new_funcstate False)\<lparr>vlocals := replicate 255 temp_localvar, stacksize := 255\<rparr>))
     = Inr MAX_FUNC_STACKSIZE"
  by (simp add: AllocStackPos_def Let_def new_funcstate_def)

end
