(* ===== verification/GS_String.thy ===== *)
theory GS_String
  imports GS_TableInv
begin

text \<open>
  Strings (GSstring.h, the string table of GSstate.cpp): the hash functions, the table that
  makes equal strings share one object, and iteration over a string.

  A string object is its characters and its hash (\<open>_val\<close>, \<open>_len\<close>, \<open>_hash\<close>); the objects are
  in a map from addresses, and a bucket is the list of the addresses its chain of \<open>_next\<close>
  links runs through, head first.  The address of a new object is the argument \<open>p\<close>, what the
  allocator returned; the laws ask that it is not in use.
\<close>

section \<open>Hash functions\<close>

text \<open>A character as the hash reads it: \<open>(unsigned short)\<close> of a signed char.\<close>

definition char_bits :: "char \<Rightarrow> gshash" where
  "char_bits c = ucast (scast (of_char c :: 8 word) :: 16 word)"

definition hash_step :: "gshash \<Rightarrow> char \<Rightarrow> gshash" where
  "hash_step h c = h XOR (push_bit 5 h + drop_bit 2 h + char_bits c)"

definition hash_stride :: "nat \<Rightarrow> nat" where
  "hash_stride l = l div 32 + 1"

function hash_down :: "nat \<Rightarrow> string \<Rightarrow> nat \<Rightarrow> gshash \<Rightarrow> gshash" where
  "hash_down step s l1 h =
     (if 0 < step \<and> step \<le> l1 then hash_down step s (l1 - step) (hash_step h (s ! (l1 - 1))) else h)"
  by pat_completeness auto
termination by (relation "measure (\<lambda>(step, s, l1, h). l1)") auto

declare hash_down.simps [simp del]

definition hashstr :: "string \<Rightarrow> gshash" where
  "hashstr s = hash_down (hash_stride (length s)) s (length s) (of_nat (length s))"

text \<open>\<open>_hashstr2\<close>: the first loop runs over the second string and stops when its index gets
  negative, the second goes on over the first string.\<close>

function hash_second :: "nat \<Rightarrow> nat \<Rightarrow> string \<Rightarrow> nat \<Rightarrow> gshash \<Rightarrow> nat \<times> gshash" where
  "hash_second step al bs l1 h =
     (if 0 < step \<and> step \<le> l1
      then (if int l1 - 1 - int al < 0 then (l1, h)
            else hash_second step al bs (l1 - step) (hash_step h (bs ! (l1 - 1 - al))))
      else (l1, h))"
  by pat_completeness auto
termination by (relation "measure (\<lambda>(step, al, bs, l1, h). l1)") auto

declare hash_second.simps [simp del]

definition hashstr2 :: "string \<Rightarrow> string \<Rightarrow> gshash" where
  "hashstr2 as bs =
     (let l = length as + length bs; step = hash_stride l;
          (l1, h) = hash_second step (length as) bs l (of_nat l)
      in hash_down step as l1 h)"

lemma hash_down_append:
  "l1 \<le> length as + length bs \<Longrightarrow> hash_second step (length as) bs l1 h = (l1', h')
     \<Longrightarrow> hash_down step (as @ bs) l1 h = hash_down step as l1' h'"
proof (induction step "length as" bs l1 h rule: hash_second.induct)
  case (1 step bs l1 h)
  have prefix: "hash_down step (as @ bs) l h = hash_down step as l h" if "l \<le> length as" for l h
    using that
  proof (induction step as l h rule: hash_down.induct)
    case (1 step as l h)
    then show ?case
      by (subst (1 2) hash_down.simps) (auto simp: nth_append)
  qed
  show ?case
  proof (cases "0 < step \<and> step \<le> l1 \<and> length as < l1")
    case True
    then have "hash_second step (length as) bs (l1 - step) (hash_step h (bs ! (l1 - 1 - length as))) = (l1', h')"
      using 1(3) by (subst (asm) hash_second.simps) auto
    with 1(1)[OF _ _ _ this] True 1(2)
    have "hash_down step (as @ bs) (l1 - step) (hash_step h (bs ! (l1 - 1 - length as))) = hash_down step as l1' h'"
      by auto
    with True show ?thesis
      by (subst hash_down.simps) (auto simp: nth_append)
  next
    case False
    then have "l1' = l1" "h' = h" using 1(3) by (auto simp: hash_second.simps[of step _ bs l1 h] split: if_splits)
    with False prefix[of l1 h] show ?thesis
      by (cases "l1 \<le> length as") (auto simp: hash_down.simps[of _ _ l1])
  qed
qed

text \<open>The hash \<open>_hashstr2\<close> computes for a concatenation without building it is the hash
  \<open>_hashstr\<close> of the concatenated string, for all lengths (and so for every stride).\<close>

theorem hashstr2_concat: "hashstr2 as bs = hashstr (as @ bs)"
  by (auto simp: hashstr2_def hashstr_def Let_def hash_down_append split: prod.splits)

section \<open>The string table\<close>

record strobj =
  sval :: string
  shash :: gshash

record stringtable =
  buckets :: "ptr list list"
  slotused :: nat
  objs :: "ptr \<Rightarrow> strobj option"

definition slot_of :: "nat \<Rightarrow> gshash \<Rightarrow> nat" where
  "slot_of n h = unat h AND (n - 1)"

definition new_stringtable :: stringtable where
  "new_stringtable = \<lparr>buckets = replicate 4 [], slotused = 0, objs = Map.empty\<rparr>"

definition str_at :: "(ptr \<Rightarrow> strobj option) \<Rightarrow> string \<Rightarrow> ptr \<Rightarrow> bool" where
  "str_at ob s p = (case ob p of None \<Rightarrow> False | Some x \<Rightarrow> length (sval x) = length s \<and> sval x = s)"

text \<open>\<open>Resize\<close>: the chains are taken apart from slot 0 upwards, each element is put in front
  of the chain of its new slot.\<close>

definition resize_put :: "(ptr \<Rightarrow> strobj option) \<Rightarrow> ptr \<Rightarrow> ptr list list \<Rightarrow> ptr list list" where
  "resize_put ob p bs =
     (case ob p of None \<Rightarrow> bs
      | Some x \<Rightarrow> let h = slot_of (length bs) (shash x) in bs[h := p # bs ! h])"

definition StringResize :: "nat \<Rightarrow> stringtable \<Rightarrow> stringtable" where
  "StringResize newsize st =
     st\<lparr>buckets := fold (resize_put (objs st)) (concat (buckets st)) (replicate newsize [])\<rparr>"

definition link_new :: "ptr \<Rightarrow> string \<Rightarrow> gshash \<Rightarrow> stringtable \<Rightarrow> stringtable" where
  "link_new p s newhash st =
     (let h = slot_of (length (buckets st)) newhash;
          st1 = st\<lparr>buckets := (buckets st)[h := p # buckets st ! h], slotused := slotused st + 1,
                   objs := (objs st)(p \<mapsto> \<lparr>sval = s, shash = newhash\<rparr>)\<rparr>
      in if length (buckets st1) < slotused st1 then StringResize (length (buckets st1) * 2) st1
         else st1)"

definition StringAdd :: "ptr \<Rightarrow> string \<Rightarrow> stringtable \<Rightarrow> stringtable \<times> ptr" where
  "StringAdd p news st =
     (let newhash = hashstr news; h = slot_of (length (buckets st)) newhash in
      case find (str_at (objs st) news) (buckets st ! h) of
        Some q \<Rightarrow> (st, q)
      | None \<Rightarrow> (link_new p news newhash st, p))"

text \<open>\<open>Concat\<close> compares the two parts of a candidate with the two arguments.\<close>

definition str_at2 :: "(ptr \<Rightarrow> strobj option) \<Rightarrow> string \<Rightarrow> string \<Rightarrow> ptr \<Rightarrow> bool" where
  "str_at2 ob a b p =
     (case ob p of None \<Rightarrow> False
      | Some x \<Rightarrow> length (sval x) = length a + length b \<and> take (length a) (sval x) = a
                  \<and> take (length b) (drop (length a) (sval x)) = b)"

definition StringConcat :: "ptr \<Rightarrow> string \<Rightarrow> string \<Rightarrow> stringtable \<Rightarrow> stringtable \<times> ptr" where
  "StringConcat p a b st =
     (let newhash = hashstr2 a b; h = slot_of (length (buckets st)) newhash in
      case find (str_at2 (objs st) a b) (buckets st ! h) of
        Some q \<Rightarrow> (st, q)
      | None \<Rightarrow> (link_new p (a @ b) newhash st, p))"

text \<open>\<open>Remove\<close> frees the object; None is the failed assertion (the object is not in its
  chain).\<close>

definition StringRemove :: "ptr \<Rightarrow> stringtable \<Rightarrow> stringtable option" where
  "StringRemove p st =
     (case objs st p of
        None \<Rightarrow> None
      | Some x \<Rightarrow>
          let h = slot_of (length (buckets st)) (shash x) in
          if p \<in> set (buckets st ! h)
          then Some (st\<lparr>buckets := (buckets st)[h := remove1 p (buckets st ! h)],
                        slotused := slotused st - 1, objs := (objs st)(p := None)\<rparr>)
          else None)"

text \<open>\<open>GSString::Next\<close>: the next index, the current index and the character as an integer
  (a signed char widened).\<close>

definition StringNext :: "string \<Rightarrow> gsobj \<Rightarrow> (int \<times> gsobj \<times> gsobj) option" where
  "StringNext s refpos =
     (let idx = sint (TranslateIndex refpos) in
      if idx < int (length s)
      then Some (idx + 1, OInteger (word_of_int idx), OInteger (scast (of_char (s ! nat idx) :: 8 word)))
      else None)"

section \<open>Interning\<close>

definition stringtable_ok :: "stringtable \<Rightarrow> bool" where
  "stringtable_ok st =
     ((\<exists>k \<ge> 2. length (buckets st) = 2 ^ k)
      \<and> (\<forall>i < length (buckets st). distinct (buckets st ! i)
            \<and> set (buckets st ! i) = {p. \<exists>x. objs st p = Some x \<and> slot_of (length (buckets st)) (shash x) = i})
      \<and> (\<forall>p x. objs st p = Some x \<longrightarrow> shash x = hashstr (sval x))
      \<and> (\<forall>p q x y. objs st p = Some x \<longrightarrow> objs st q = Some y \<longrightarrow> sval x = sval y \<longrightarrow> p = q)
      \<and> finite (dom (objs st)) \<and> slotused st = card (dom (objs st)))"

text \<open>The characters at an address.\<close>

definition content :: "stringtable \<Rightarrow> ptr \<Rightarrow> string option" where
  "content st p = map_option sval (objs st p)"

lemma slot_of_lt: "n = 2 ^ k \<Longrightarrow> slot_of n h < n"
proof -
  assume n: "n = 2 ^ k"
  have "unat h AND mask k = unat h mod 2 ^ k"
    by (simp add: take_bit_eq_mask take_bit_eq_mod flip: take_bit_eq_mask)
  then show ?thesis by (simp add: slot_of_def n mask_eq_exp_minus_1)
qed

lemma distinct_concat_nth:
  "(\<And>i. i < length xs \<Longrightarrow> distinct (xs ! i))
   \<Longrightarrow> (\<And>i j. i < length xs \<Longrightarrow> j < length xs \<Longrightarrow> i \<noteq> j \<Longrightarrow> set (xs ! i) \<inter> set (xs ! j) = {})
   \<Longrightarrow> distinct (concat xs)"
proof (induction xs)
  case (Cons x xs)
  have "distinct (concat xs)"
  proof (rule Cons.IH)
    show "distinct (xs ! i)" if "i < length xs" for i using Cons.prems(1)[of "Suc i"] that by simp
    show "set (xs ! i) \<inter> set (xs ! j) = {}" if "i < length xs" "j < length xs" "i \<noteq> j" for i j
      using Cons.prems(2)[of "Suc i" "Suc j"] that by simp
  qed
  moreover have "set x \<inter> set (xs ! i) = {}" if "i < length xs" for i
    using Cons.prems(2)[of 0 "Suc i"] that by simp
  then have "set x \<inter> set (concat xs) = {}" by (force simp: in_set_conv_nth)
  ultimately show ?case using Cons.prems(1)[of 0] by simp
qed simp

lemma resize_fold:
  assumes "distinct ps" "\<And>p. p \<in> set ps \<Longrightarrow> p \<in> dom ob"
    "\<And>i. i < length bs \<Longrightarrow> distinct (bs ! i) \<and> set (bs ! i) \<inter> set ps = {}" "length bs = 2 ^ k"
  shows "length (fold (resize_put ob) ps bs) = length bs
    \<and> (\<forall>i < length bs. distinct (fold (resize_put ob) ps bs ! i)
        \<and> set (fold (resize_put ob) ps bs ! i)
          = set (bs ! i) \<union> {p \<in> set ps. \<exists>x. ob p = Some x \<and> slot_of (length bs) (shash x) = i})"
  using assms
proof (induction ps arbitrary: bs)
  case (Cons p ps)
  obtain x where x: "ob p = Some x" using Cons.prems(2)[of p] by auto
  let ?h = "slot_of (length bs) (shash x)"
  let ?bs = "bs[?h := p # bs ! ?h]"
  have h: "?h < length bs" using Cons.prems(4) by (rule slot_of_lt)
  have nth: "?bs ! i = (if i = ?h then p # bs ! ?h else bs ! i)" for i
    using h by (simp add: nth_list_update)
  have "length (fold (resize_put ob) ps ?bs) = length ?bs
    \<and> (\<forall>i < length ?bs. distinct (fold (resize_put ob) ps ?bs ! i)
        \<and> set (fold (resize_put ob) ps ?bs ! i)
          = set (?bs ! i) \<union> {p \<in> set ps. \<exists>x. ob p = Some x \<and> slot_of (length ?bs) (shash x) = i})"
  proof (rule Cons.IH)
    show "distinct ps" "\<And>q. q \<in> set ps \<Longrightarrow> q \<in> dom ob" using Cons.prems(1,2) by simp_all
    show "length ?bs = 2 ^ k" using Cons.prems(4) by simp
    fix i assume "i < length ?bs"
    with Cons.prems(1) Cons.prems(3)[of i] Cons.prems(3)[OF h]
    show "distinct (?bs ! i) \<and> set (?bs ! i) \<inter> set ps = {}" unfolding nth by auto
  qed
  moreover have "resize_put ob p bs = ?bs" by (simp add: resize_put_def x Let_def)
  ultimately show ?case using x by (auto simp: nth)
qed simp

lemma StringResize_ok:
  assumes ok: "stringtable_ok st" and n: "n = 2 ^ k" "2 \<le> k"
  shows "stringtable_ok (StringResize n st)" "objs (StringResize n st) = objs st"
    "length (buckets (StringResize n st)) = n"
proof -
  let ?bs = "buckets st" and ?e = "replicate n ([] :: ptr list)"
  have b: "distinct (?bs ! i) \<and> set (?bs ! i) = {p. \<exists>x. objs st p = Some x \<and> slot_of (length ?bs) (shash x) = i}"
    if "i < length ?bs" for i
    using ok that unfolding stringtable_ok_def by blast
  obtain m where len: "length ?bs = 2 ^ m" using ok by (auto simp: stringtable_ok_def)
  have set: "p \<in> set (concat ?bs) \<longleftrightarrow> p \<in> dom (objs st)" for p
  proof
    assume "p \<in> set (concat ?bs)"
    then obtain l where "l \<in> set ?bs" "p \<in> set l" by auto
    then obtain i where "i < length ?bs" "p \<in> set (?bs ! i)" by (metis in_set_conv_nth)
    with b[of i] show "p \<in> dom (objs st)" by auto
  next
    assume "p \<in> dom (objs st)"
    then obtain x where x: "objs st p = Some x" by auto
    with b[OF slot_of_lt[OF len, of "shash x"]] nth_mem[OF slot_of_lt[OF len, of "shash x"]]
    show "p \<in> set (concat ?bs)" by auto
  qed
  have "distinct (concat ?bs)"
    by (rule distinct_concat_nth) (use b in auto)
  then have r: "length (fold (resize_put (objs st)) (concat ?bs) ?e) = length ?e
    \<and> (\<forall>i < length ?e. distinct (fold (resize_put (objs st)) (concat ?bs) ?e ! i)
        \<and> set (fold (resize_put (objs st)) (concat ?bs) ?e ! i)
          = set (?e ! i) \<union> {p \<in> set (concat ?bs). \<exists>x. objs st p = Some x \<and> slot_of (length ?e) (shash x) = i})"
    by (rule resize_fold) (use set n in auto)
  have "i < n \<Longrightarrow> distinct (buckets (StringResize n st) ! i) \<and> set (buckets (StringResize n st) ! i)
          = {p. \<exists>x. objs st p = Some x \<and> slot_of n (shash x) = i}" for i
    using r unfolding StringResize_def set by auto
  then show "stringtable_ok (StringResize n st)" "length (buckets (StringResize n st)) = n"
    using ok r n by (auto simp: stringtable_ok_def StringResize_def)
  show "objs (StringResize n st) = objs st" by (simp add: StringResize_def)
qed

lemma link_new_ok:
  assumes ok: "stringtable_ok st" and p: "objs st p = None" and h: "hs = hashstr s"
    and new: "\<And>q x. objs st q = Some x \<Longrightarrow> sval x \<noteq> s"
  shows "stringtable_ok (link_new p s hs st)"
    "objs (link_new p s hs st) = (objs st)(p \<mapsto> \<lparr>sval = s, shash = hs\<rparr>)"
    "length (buckets (link_new p s hs st)) \<ge> slotused (link_new p s hs st) \<or>
       length (buckets st) < slotused st"
proof -
  let ?n = "length (buckets st)"
  define h where "h = slot_of ?n hs"
  define st1 where "st1 = st\<lparr>buckets := (buckets st)[h := p # buckets st ! h], slotused := slotused st + 1,
                   objs := (objs st)(p \<mapsto> \<lparr>sval = s, shash = hs\<rparr>)\<rparr>"
  obtain k where k: "?n = 2 ^ k" "2 \<le> k" using ok by (auto simp: stringtable_ok_def)
  have b: "distinct (buckets st ! i) \<and> set (buckets st ! i) = {p. \<exists>x. objs st p = Some x \<and> slot_of ?n (shash x) = i}"
    if "i < ?n" for i using ok that unfolding stringtable_ok_def by blast
  have hl: "h < ?n" unfolding h_def by (rule slot_of_lt[OF k(1)])
  have nth: "buckets st1 ! j = (if j = h then p # buckets st ! h else buckets st ! j)" for j
    using hl by (simp add: st1_def nth_list_update)
  have ok1: "stringtable_ok st1"
    unfolding stringtable_ok_def
  proof (intro conjI allI impI)
    show "\<exists>k \<ge> 2. length (buckets st1) = 2 ^ k" using k by (auto simp: st1_def)
    fix i assume "i < length (buckets st1)"
    then have i: "i < ?n" by (simp add: st1_def)
    then show "distinct (buckets st1 ! i)"
      "set (buckets st1 ! i) = {q. \<exists>x. objs st1 q = Some x \<and> slot_of (length (buckets st1)) (shash x) = i}"
      unfolding nth by (cases "i = h", use b[OF i] p in \<open>auto simp: st1_def h_def\<close>)+
  next
    fix q x assume "objs st1 q = Some x"
    then show "shash x = hashstr (sval x)"
      using ok h by (auto simp: st1_def stringtable_ok_def split: if_splits)
  next
    fix q r x y assume "objs st1 q = Some x" "objs st1 r = Some y" "sval x = sval y"
    then show "q = r"
      using ok new[of q x] new[of r y] by (auto simp: st1_def stringtable_ok_def split: if_splits)
  next
    show "finite (dom (objs st1))" using ok by (simp add: st1_def stringtable_ok_def)
    show "slotused st1 = card (dom (objs st1))" using ok p by (simp add: st1_def stringtable_ok_def card_insert_if domIff)
  qed
  have l1: "length (buckets st1) = ?n" by (simp add: st1_def)
  have lk: "link_new p s hs st = (if ?n < slotused st1 then StringResize (?n * 2) st1 else st1)"
    by (simp add: link_new_def Let_def st1_def h_def)
  have n2: "?n * 2 = 2 ^ Suc k" "2 \<le> Suc k" using k by simp_all
  note rs = StringResize_ok[OF ok1 n2]
  show "stringtable_ok (link_new p s hs st)" using ok1 rs(1) by (simp add: lk)
  show "objs (link_new p s hs st) = (objs st)(p \<mapsto> \<lparr>sval = s, shash = hs\<rparr>)"
    using rs(2) by (simp add: lk) (simp add: st1_def)
  show "length (buckets (link_new p s hs st)) \<ge> slotused (link_new p s hs st) \<or> ?n < slotused st"
    using rs(3) slot_of_lt[OF k(1), of hs] by (auto simp: lk l1 StringResize_def st1_def)
qed

lemma find_in_bucket:
  assumes ok: "stringtable_ok st"
  shows "case find (str_at (objs st) s) (buckets st ! slot_of (length (buckets st)) (hashstr s)) of
      Some q \<Rightarrow> content st q = Some s
    | None \<Rightarrow> \<forall>q x. objs st q = Some x \<longrightarrow> sval x \<noteq> s"
proof -
  let ?n = "length (buckets st)" and ?h = "slot_of (length (buckets st)) (hashstr s)"
  obtain k where k: "?n = 2 ^ k" using ok by (auto simp: stringtable_ok_def)
  have b: "set (buckets st ! ?h) = {p. \<exists>x. objs st p = Some x \<and> slot_of ?n (shash x) = ?h}"
    using ok slot_of_lt[OF k, of "hashstr s"] unfolding stringtable_ok_def by blast
  show ?thesis
  proof (cases "find (str_at (objs st) s) (buckets st ! ?h)")
    case None
    have "sval x \<noteq> s" if x: "objs st q = Some x" for q x
    proof
      assume s: "sval x = s"
      with ok x have "shash x = hashstr s" by (auto simp: stringtable_ok_def)
      with x b have "q \<in> set (buckets st ! ?h)" by auto
      with None x s show False by (auto simp: find_None_iff str_at_def)
    qed
    with None show ?thesis by simp
  next
    case (Some q)
    then have "str_at (objs st) s q" by (auto simp: find_Some_iff)
    with Some show ?thesis by (auto simp: str_at_def content_def split: option.splits)
  qed
qed

lemma StringAdd_spec:
  assumes ok: "stringtable_ok st" and p: "objs st p = None"
  shows "\<exists>st' q. StringAdd p s st = (st', q) \<and> stringtable_ok st' \<and> content st' q = Some s
     \<and> (\<forall>r. content st r \<noteq> None \<longrightarrow> content st' r = content st r)
     \<and> (\<forall>r. r \<noteq> p \<longrightarrow> content st' r = content st r)"
proof (cases "find (str_at (objs st) s) (buckets st ! slot_of (length (buckets st)) (hashstr s))")
  case None
  with find_in_bucket[OF ok, of s] have "\<And>q x. objs st q = Some x \<Longrightarrow> sval x \<noteq> s" by simp
  note ln = link_new_ok[OF ok p refl this]
  have "StringAdd p s st = (link_new p s (hashstr s) st, p)"
    using None by (simp add: StringAdd_def Let_def)
  with ln p show ?thesis by (simp add: content_def)
next
  case (Some q)
  with find_in_bucket[OF ok, of s] ok show ?thesis by (simp add: StringAdd_def Let_def)
qed

lemma str_at2_eq: "str_at2 ob a b = str_at ob (a @ b)"
proof
  fix p
  have "x = a @ b" if "length x = length a + length b" "take (length a) x = a"
    "take (length b) (drop (length a) x) = b" for x :: string
    using that by (metis append_take_drop_id diff_add_inverse length_drop take_all_iff order_refl)
  then show "str_at2 ob a b p = str_at ob (a @ b) p"
    by (auto simp: str_at2_def str_at_def split: option.splits)
qed

lemma StringConcat_eq: "StringConcat p a b st = StringAdd p (a @ b) st"
  by (simp add: StringConcat_def StringAdd_def str_at2_eq hashstr2_concat)

lemma StringConcat_fun: "StringConcat p a b = StringAdd p (a @ b)"
  by (rule ext) (rule StringConcat_eq)

lemma content_inj:
  "stringtable_ok st \<Longrightarrow> content st p = Some s \<Longrightarrow> content st q = Some s \<Longrightarrow> p = q"
  by (auto simp: content_def stringtable_ok_def)

lemma StringRemove_spec:
  assumes ok: "stringtable_ok st" and p: "content st p = Some s"
  shows "\<exists>st'. StringRemove p st = Some st' \<and> stringtable_ok st'
     \<and> content st' = (content st)(p := None)"
proof -
  let ?n = "length (buckets st)"
  obtain x where x: "objs st p = Some x" using p by (auto simp: content_def)
  obtain k where k: "?n = 2 ^ k" "2 \<le> k" using ok by (auto simp: stringtable_ok_def)
  define h where "h = slot_of ?n (shash x)"
  have b: "distinct (buckets st ! i) \<and> set (buckets st ! i) = {p. \<exists>x. objs st p = Some x \<and> slot_of ?n (shash x) = i}"
    if "i < ?n" for i using ok that unfolding stringtable_ok_def by blast
  have hl: "h < ?n" unfolding h_def by (rule slot_of_lt[OF k(1)])
  define st' where "st' = st\<lparr>buckets := (buckets st)[h := remove1 p (buckets st ! h)],
                        slotused := slotused st - 1, objs := (objs st)(p := None)\<rparr>"
  have nth: "buckets st' ! j = (if j = h then remove1 p (buckets st ! h) else buckets st ! j)" for j
    using hl by (simp add: st'_def nth_list_update)
  have rm: "StringRemove p st = Some st'"
    using x b[OF hl] by (simp add: StringRemove_def Let_def st'_def flip: h_def)
  have "stringtable_ok st'"
    unfolding stringtable_ok_def
  proof (intro conjI allI impI)
    show "\<exists>k \<ge> 2. length (buckets st') = 2 ^ k" using k by (auto simp: st'_def)
    fix i assume "i < length (buckets st')"
    then have i: "i < ?n" by (simp add: st'_def)
    then show "distinct (buckets st' ! i)"
      "set (buckets st' ! i) = {q. \<exists>x. objs st' q = Some x \<and> slot_of (length (buckets st')) (shash x) = i}"
      unfolding nth by (cases "i = h", use b[OF i] x in \<open>auto simp: st'_def h_def\<close>)+
  next
    fix q y assume "objs st' q = Some y"
    then show "shash y = hashstr (sval y)"
      using ok by (auto simp: st'_def stringtable_ok_def split: if_splits)
  next
    fix q r y z assume "objs st' q = Some y" "objs st' r = Some z" "sval y = sval z"
    then show "q = r" using ok by (auto simp: st'_def stringtable_ok_def split: if_splits)
  next
    show "finite (dom (objs st'))" using ok by (simp add: st'_def stringtable_ok_def)
    show "slotused st' = card (dom (objs st'))" using ok x by (auto simp: st'_def stringtable_ok_def card_Diff_singleton_if domIff)
  qed
  moreover have "content st' = (content st)(p := None)" by (auto simp: content_def st'_def)
  ultimately show ?thesis using rm by blast
qed

lemma new_stringtable_ok: "stringtable_ok new_stringtable"
proof -
  have "length (buckets new_stringtable) = 2 ^ 2" by (simp add: new_stringtable_def)
  then show ?thesis
    unfolding stringtable_ok_def
    by (auto simp: new_stringtable_def numeral_eq_Suc less_Suc_eq)
qed

text \<open>What the clients of the string table rely on: interning returns an object with the
  characters asked for, never changes a string that exists, and two live objects with the same
  characters are the same object.\<close>

locale interner =
  fixes inv :: "'s \<Rightarrow> bool"
    and content :: "'s \<Rightarrow> ptr \<Rightarrow> string option"
    and intern :: "ptr \<Rightarrow> string \<Rightarrow> 's \<Rightarrow> 's \<times> ptr"
  assumes intern_law: "inv st \<Longrightarrow> content st p = None \<Longrightarrow> intern p s st = (st', q)
      \<Longrightarrow> inv st' \<and> content st' q = Some s \<and> (\<forall>r. content st r \<noteq> None \<longrightarrow> content st' r = content st r)"
    and unique: "inv st \<Longrightarrow> content st p = Some s \<Longrightarrow> content st q = Some s \<Longrightarrow> p = q"
begin

lemma pointer_equality:
  assumes "inv st" "content st p = None" "intern p s st = (st1, a)"
    and "content st1 q = None" "intern q s' st1 = (st2, b)"
  shows "inv st2 \<and> content st2 a = Some s \<and> content st2 b = Some s' \<and> (a = b \<longleftrightarrow> s = s')"
proof -
  have 1: "inv st1" "content st1 a = Some s" using intern_law[OF assms(1-3)] by auto
  have 2: "inv st2" "content st2 b = Some s'" "content st2 a = Some s"
    using intern_law[OF 1(1) assms(4,5)] 1(2) by auto
  with unique[OF 2(1)] show ?thesis by auto
qed

lemma intern_twice:
  assumes "inv st" "content st q = Some s" "content st p = None" "intern p s st = (st', a)"
  shows "a = q"
proof -
  have "inv st' \<and> content st' a = Some s \<and> content st' q = Some s"
    using intern_law[OF assms(1,3,4)] assms(2) by auto
  then show ?thesis using unique by blast
qed

end

interpretation strs: interner stringtable_ok content StringAdd
proof unfold_locales
  fix st p s st' q
  assume ok: "stringtable_ok st" and p: "content st p = None" and add: "StringAdd p s st = (st', q)"
  from p have "objs st p = None" by (simp add: content_def)
  from StringAdd_spec[OF ok this, of s] add
  show "stringtable_ok st' \<and> content st' q = Some s \<and> (\<forall>r. content st r \<noteq> None \<longrightarrow> content st' r = content st r)"
    by auto
qed (rule content_inj)

interpretation concat_strs: interner stringtable_ok content "\<lambda>p s. StringConcat p (take n s) (drop n s)" for n
  by (simp add: StringConcat_fun strs.interner_axioms)

text \<open>C8: Interning: creating a string and then concatenating two others (or creating it, with
  an empty second part) gives the same object exactly when the characters are the same, both
  objects hold their characters afterwards, and no string that existed changes.\<close>

theorem interned_pointer_equality:
  assumes "stringtable_ok st" "content st p = None" "StringAdd p s st = (st1, x)"
    and "content st1 q = None" "StringConcat q a b st1 = (st2, y)"
  shows "stringtable_ok st2 \<and> content st2 x = Some s \<and> content st2 y = Some (a @ b)
     \<and> (x = y \<longleftrightarrow> s = a @ b) \<and> (\<forall>r. content st r \<noteq> None \<longrightarrow> content st2 r = content st r)"
proof -
  have c: "StringAdd q (a @ b) st1 = (st2, y)" using assms(5) by (simp add: StringConcat_eq)
  have 1: "stringtable_ok st1" "content st r \<noteq> None \<Longrightarrow> content st1 r = content st r" for r
    using strs.intern_law[OF assms(1-3)] by auto
  have 2: "content st1 r \<noteq> None \<Longrightarrow> content st2 r = content st1 r" for r
    using strs.intern_law[OF 1(1) assms(4) c] by auto
  have "content st r \<noteq> None \<longrightarrow> content st2 r = content st r" for r
    using 1(2)[of r] 2[of r] by auto
  with strs.pointer_equality[OF assms(1-4) c] show ?thesis by blast
qed

lemma interned_pointer_equality_witness:
  "\<exists>st1 x st2 y. StringAdd 1 ''abc'' new_stringtable = (st1, x) \<and> StringConcat 2 ''ab'' ''c'' st1 = (st2, y)
     \<and> x = y"
proof -
  obtain st1 x where 1: "StringAdd 1 ''abc'' new_stringtable = (st1, x)" by (cases "StringAdd 1 ''abc'' new_stringtable")
  obtain st2 y where 2: "StringConcat 2 ''ab'' ''c'' st1 = (st2, y)" by (cases "StringConcat 2 ''ab'' ''c'' st1")
  have n: "content new_stringtable p = None" for p by (simp add: content_def new_stringtable_def)
  have o: "objs new_stringtable 1 = None" by (simp add: new_stringtable_def)
  have "content st1 2 = None"
    using StringAdd_spec[OF new_stringtable_ok o, of "''abc''"] 1 n[of 2] by auto
  from interned_pointer_equality[OF new_stringtable_ok n 1 this 2] 1 2 show ?thesis by auto
qed

text \<open>Removing a string: the object leaves the table and nothing else changes, so the same
  characters can be interned again as a new object, and the count of used slots stays the
  number of live strings.\<close>

theorem StringRemove_frees:
  assumes "stringtable_ok st" "content st p = Some s"
  shows "\<exists>st'. StringRemove p st = Some st' \<and> stringtable_ok st' \<and> content st' = (content st)(p := None)
     \<and> Suc (slotused st') = slotused st"
proof -
  obtain st' where st': "StringRemove p st = Some st'" "stringtable_ok st'" "content st' = (content st)(p := None)"
    using StringRemove_spec[OF assms] by blast
  have "dom (objs st) \<noteq> {}" using assms(2) by (auto simp: content_def)
  then have "slotused st > 0" using assms(1) by (auto simp: stringtable_ok_def card_gt_0_iff)
  moreover have "slotused st' = slotused st - 1"
    using st'(1) by (auto simp: StringRemove_def Let_def split: option.splits if_splits)
  ultimately show ?thesis using st' by auto
qed

lemma StringRemove_frees_witness:
  "\<exists>st x st'. StringAdd 1 ''abc'' new_stringtable = (st, x) \<and> StringRemove x st = Some st'
     \<and> content st' x = None"
proof -
  obtain st x where 1: "StringAdd 1 ''abc'' new_stringtable = (st, x)" by (cases "StringAdd 1 ''abc'' new_stringtable")
  have "stringtable_ok st" "content st x = Some ''abc''"
    using StringAdd_spec[OF new_stringtable_ok, of 1 "''abc''"] 1 by (auto simp: new_stringtable_def)
  from StringRemove_frees[OF this] 1 show ?thesis by auto
qed

end
