(* ===== verification/GS_Class.thy ===== *)
theory GS_Class
  imports GS_TableInv GS_VMOps
begin

text \<open>
  Classes and instances (GSclass.h, GSclass.cpp).  A class keeps its member names in a table
  that maps a name to a tagged index: into the methods, or into the default values of the
  fields.  An instance is an array with one value per field of its class, allocated at
  creation; its class and all bases are locked then and take no new fields.  The heap maps
  addresses to classes, instances and closures; None as the result of an operation is an
  access outside of an array or of the heap, or a walk over bases that does not end.
\<close>

section \<open>Member indices\<close>

abbreviation MEMBER_TYPE_METHOD :: gsint where "MEMBER_TYPE_METHOD \<equiv> 0x01000000"
abbreviation MEMBER_TYPE_FIELD :: gsint where "MEMBER_TYPE_FIELD \<equiv> 0x02000000"
abbreviation MEMBER_MAX_COUNT :: nat where "MEMBER_MAX_COUNT \<equiv> 0x00FFFFFF"

definition is_field :: "gsobj \<Rightarrow> bool" where
  "is_field v = (rawval v AND MEMBER_TYPE_FIELD \<noteq> 0)"

definition is_method :: "gsobj \<Rightarrow> bool" where
  "is_method v = (rawval v AND MEMBER_TYPE_METHOD \<noteq> 0)"

definition make_method_idx :: "nat \<Rightarrow> gsobj" where
  "make_method_idx i = OInteger (MEMBER_TYPE_METHOD OR of_nat i)"

definition make_field_idx :: "nat \<Rightarrow> gsobj" where
  "make_field_idx i = OInteger (MEMBER_TYPE_FIELD OR of_nat i)"

definition member_idx :: "gsobj \<Rightarrow> nat" where
  "member_idx v = unat (rawval v AND 0x00FFFFFF)"

lemma small_bits:
  assumes "i < 2 ^ 24" "24 \<le> n"
  shows "\<not> bit (of_nat i :: gsint) n"
proof -
  have "take_bit 24 (of_nat i :: gsint) = of_nat i"
    by (simp only: take_bit_of_nat) (use assms(1) in \<open>simp add: take_bit_nat_eq_self\<close>)
  then show ?thesis using assms(2) by (metis bit_take_bit_iff leD)
qed

lemma and_small: "i < 2 ^ 24 \<Longrightarrow> (of_nat i :: gsint) AND 0x00FFFFFF = of_nat i"
proof -
  assume "i < 2 ^ 24"
  then have "take_bit 24 (of_nat i :: gsint) = of_nat i"
    by (simp only: take_bit_of_nat) (simp add: take_bit_nat_eq_self)
  then show ?thesis by (simp add: take_bit_eq_mask mask_eq_exp_minus_1)
qed

lemma unat_small: "i < 2 ^ 24 \<Longrightarrow> unat (of_nat i :: gsint) = i"
  by (simp add: unsigned_of_nat take_bit_nat_eq_self)

lemma and_flag_small:
  assumes "i < 2 ^ 24"
  shows "(of_nat i :: gsint) AND MEMBER_TYPE_FIELD = 0" "(of_nat i :: gsint) AND MEMBER_TYPE_METHOD = 0"
proof -
  have F: "(of_nat i :: gsint) AND push_bit k 1 = 0" if "24 \<le> k" for k
    by (rule bit_word_eqI) (use small_bits[OF assms] that in \<open>auto simp: bit_simps\<close>)
  show "(of_nat i :: gsint) AND MEMBER_TYPE_FIELD = 0" using F[of 25] by (simp add: push_bit_eq_mult)
  show "(of_nat i :: gsint) AND MEMBER_TYPE_METHOD = 0" using F[of 24] by (simp add: push_bit_eq_mult)
qed

lemma member_idx_simps [simp]:
  assumes "i < 2 ^ 24"
  shows "is_field (make_field_idx i)" "\<not> is_field (make_method_idx i)"
    "member_idx (make_field_idx i) = i" "member_idx (make_method_idx i) = i"
    "is_method (make_method_idx i)" "\<not> is_method (make_field_idx i)"
  using assms
  by (simp_all add: is_field_def is_method_def make_field_idx_def make_method_idx_def member_idx_def
      bit.conj_disj_distrib2 and_small unat_small and_flag_small)

section \<open>The heap\<close>

record member =
  mval :: gsobj
  mattrs :: gsobj

record gsclass =
  cmembers :: table
  cbase :: "ptr option"
  defaultvalues :: "member list"
  methods :: "member list"
  metamethods :: "GSMetaMethod \<Rightarrow> gsobj"
  locked :: bool
  constructoridx :: int
  udsize :: int

record gsinstance =
  iclass :: ptr
  ivalues :: "gsobj list"

record gsclosure =
  cfunction :: ptr
  cenv :: "ptr option"
  croot :: ptr
  cbase_class :: "ptr option"
  couters :: "gsobj list"
  cdefaults :: "gsobj list"

record classheap =
  classes :: "ptr \<Rightarrow> gsclass option"
  instances :: "ptr \<Rightarrow> gsinstance option"
  closures :: "ptr \<Rightarrow> gsclosure option"

text \<open>The shared state as classes use it: string hashes and contents, weak references and the
  interned string "constructor".\<close>

record classenv =
  strhash :: "ptr \<Rightarrow> gshash"
  schars :: "ptr \<Rightarrow> string"
  weak :: "ptr \<Rightarrow> gsobj"
  ctorname :: gsobj

definition all_metamethods :: "GSMetaMethod list" where
  "all_metamethods = [MT_ADD, MT_SUB, MT_MUL, MT_DIV, MT_UNM, MT_MODULO, MT_SET, MT_GET, MT_TYPEOF,
     MT_NEXTI, MT_CMP, MT_CALL, MT_CLONED, MT_NEWSLOT, MT_DELSLOT, MT_TOSTRING, MT_NEWMEMBER, MT_INHERITED]"

definition GetMetaMethodIdxByName :: "classenv \<Rightarrow> gsobj \<Rightarrow> GSMetaMethod option" where
  "GetMetaMethodIdxByName E name =
     (case name of
        OString p \<Rightarrow> find (\<lambda>mm. mm_name mm = schars E p) all_metamethods
      | _ \<Rightarrow> None)"

section \<open>Classes\<close>

definition new_class :: "table \<Rightarrow> gsclass" where
  "new_class t = \<lparr>cmembers = t, cbase = None, defaultvalues = [], methods = [], metamethods = (\<lambda>_. ONull),
     locked = False, constructoridx = -1, udsize = 0\<rparr>"

text \<open>The constructor of \<open>GSClass\<close>; a derived class starts as a copy of its base, unlocked.\<close>

definition CreateClass :: "classenv \<Rightarrow> classheap \<Rightarrow> ptr option \<Rightarrow> gsclass option" where
  "CreateClass E h base =
     (case base of
        None \<Rightarrow> Some (new_class (CreateTable 0))
      | Some b \<Rightarrow>
          (case classes h b of
             None \<Rightarrow> None
           | Some c \<Rightarrow>
               map_option (\<lambda>t. (new_class t)\<lparr>cbase := Some b, constructoridx := constructoridx c, udsize := udsize c,
                     defaultvalues := defaultvalues c, methods := methods c, metamethods := metamethods c\<rparr>)
                 (TableClone (strhash E) (cmembers c))))"

definition CloneClosure :: "gsclosure \<Rightarrow> gsclosure" where
  "CloneClosure f = f\<lparr>cbase_class := None\<rparr>"

text \<open>\<open>v[i].val = x\<close> and \<open>v[i].attrs = x\<close>; None is outside of the vector.\<close>

definition set_val :: "member list \<Rightarrow> nat \<Rightarrow> gsobj \<Rightarrow> member list option" where
  "set_val ms i x = (if i < length ms then Some (ms[i := (ms ! i)\<lparr>mval := x\<rparr>]) else None)"

definition set_attrs :: "member list \<Rightarrow> nat \<Rightarrow> gsobj \<Rightarrow> member list option" where
  "set_attrs ms i x = (if i < length ms then Some (ms[i := (ms ! i)\<lparr>mattrs := x\<rparr>]) else None)"

definition get_member :: "member list \<Rightarrow> nat \<Rightarrow> member option" where
  "get_member ms i = (if i < length ms then Some (ms ! i) else None)"

definition is_callable :: "gsobj \<Rightarrow> bool" where
  "is_callable v = (type_of v = OT_CLOSURE \<or> type_of v = OT_NATIVECLOSURE)"

text \<open>The value a method is stored as: a closure put into a derived class is cloned (at the
  free address \<open>nw\<close>) and tied to the base.\<close>

definition rebase :: "ptr option \<Rightarrow> ptr \<Rightarrow> gsobj \<Rightarrow> classheap \<Rightarrow> (gsobj \<times> classheap) option" where
  "rebase base nw val h =
     (case (base, val) of
        (Some b, OClosure f) \<Rightarrow>
          (case closures h f of
             None \<Rightarrow> None
           | Some clo \<Rightarrow>
               Some (OClosure nw, h\<lparr>closures := (closures h)(nw \<mapsto> (CloneClosure clo)\<lparr>cbase_class := Some b\<rparr>)\<rparr>))
      | _ \<Rightarrow> Some (val, h))"

definition add_method :: "classenv \<Rightarrow> gsclass \<Rightarrow> gsobj \<Rightarrow> gsobj \<Rightarrow> gsobj option \<Rightarrow> gsclass option" where
  "add_method E c key theval temp =
     (case temp of
        None \<Rightarrow>
          (let ci = (if IsEqual (ctorname E) key then int (length (methods c)) else constructoridx c) in
           map_option (\<lambda>(t, _). c\<lparr>cmembers := t, constructoridx := ci,
                                   methods := methods c @ [\<lparr>mval = theval, mattrs = ONull\<rparr>]\<rparr>)
             (NewSlot (strhash E) (cmembers c) key (make_method_idx (length (methods c)))))
      | Some idx \<Rightarrow> map_option (\<lambda>ms. c\<lparr>methods := ms\<rparr>) (set_val (methods c) (member_idx idx) theval))"

definition ClassNewSlot :: "classenv \<Rightarrow> ptr \<Rightarrow> gsclass \<Rightarrow> gsobj \<Rightarrow> gsobj \<Rightarrow> bool \<Rightarrow> classheap \<Rightarrow> (gsclass \<times> bool \<times> classheap) option" where
  "ClassNewSlot E nw c key val bstatic h =
     (let belongs_to_static_table = is_callable val \<or> bstatic in
      if locked c \<and> \<not> belongs_to_static_table then Some (c, False, h)
      else case TableGet (strhash E) (weak E) (cmembers c) key of
        None \<Rightarrow> None
      | Some temp \<Rightarrow>
          if temp \<noteq> None \<and> is_field (the temp) then
            map_option (\<lambda>dv. (c\<lparr>defaultvalues := dv\<rparr>, True, h)) (set_val (defaultvalues c) (member_idx (the temp)) val)
          else if MEMBER_MAX_COUNT \<le> usednodes (cmembers c) then Some (c, False, h)
          else if belongs_to_static_table then
            (case (if is_callable val then GetMetaMethodIdxByName E key else None) of
               Some mm \<Rightarrow> Some (c\<lparr>metamethods := (metamethods c)(mm := val)\<rparr>, True, h)
             | None \<Rightarrow>
                 (case rebase (cbase c) nw val h of
                    None \<Rightarrow> None
                  | Some (theval, h') \<Rightarrow> map_option (\<lambda>c'. (c', True, h')) (add_method E c key theval temp)))
          else
            map_option (\<lambda>(t, _). (c\<lparr>cmembers := t, defaultvalues := defaultvalues c @ [\<lparr>mval = val, mattrs = ONull\<rparr>]\<rparr>, True, h))
              (NewSlot (strhash E) (cmembers c) key (make_field_idx (length (defaultvalues c)))))"

definition ClassGet :: "classenv \<Rightarrow> gsclass \<Rightarrow> gsobj \<Rightarrow> gsobj option option" where
  "ClassGet E c key =
     (case TableGet (strhash E) (weak E) (cmembers c) key of
        None \<Rightarrow> None
      | Some None \<Rightarrow> Some None
      | Some (Some v) \<Rightarrow>
          if is_field v then map_option (\<lambda>m. Some (realval (weak E) (mval m))) (get_member (defaultvalues c) (member_idx v))
          else map_option (\<lambda>m. Some (mval m)) (get_member (methods c) (member_idx v)))"

definition GetConstructor :: "gsclass \<Rightarrow> gsobj option option" where
  "GetConstructor c =
     (if constructoridx c \<noteq> -1 then map_option (\<lambda>m. Some (mval m)) (get_member (methods c) (nat (constructoridx c)))
      else Some None)"

definition ClassNext :: "classenv \<Rightarrow> gsclass \<Rightarrow> gsobj \<Rightarrow> (nat \<times> gsobj \<times> gsobj) option option" where
  "ClassNext E c refpos =
     (case TableNext (weak E) False (cmembers c) refpos of
        None \<Rightarrow> Some None
      | Some (idx, k, oval) \<Rightarrow>
          if is_method oval then map_option (\<lambda>m. Some (idx, k, mval m)) (get_member (methods c) (member_idx oval))
          else map_option (\<lambda>m. Some (idx, k, realval (weak E) (mval m))) (get_member (defaultvalues c) (member_idx oval)))"

definition SetAttributes :: "classenv \<Rightarrow> gsclass \<Rightarrow> gsobj \<Rightarrow> gsobj \<Rightarrow> (gsclass \<times> bool) option" where
  "SetAttributes E c key val =
     (case TableGet (strhash E) (weak E) (cmembers c) key of
        None \<Rightarrow> None
      | Some None \<Rightarrow> Some (c, False)
      | Some (Some idx) \<Rightarrow>
          if is_field idx then map_option (\<lambda>dv. (c\<lparr>defaultvalues := dv\<rparr>, True)) (set_attrs (defaultvalues c) (member_idx idx) val)
          else map_option (\<lambda>ms. (c\<lparr>methods := ms\<rparr>, True)) (set_attrs (methods c) (member_idx idx) val))"

definition GetAttributes :: "classenv \<Rightarrow> gsclass \<Rightarrow> gsobj \<Rightarrow> gsobj option option" where
  "GetAttributes E c key =
     (case TableGet (strhash E) (weak E) (cmembers c) key of
        None \<Rightarrow> None
      | Some None \<Rightarrow> Some None
      | Some (Some idx) \<Rightarrow>
          map_option (\<lambda>m. Some (mattrs m))
            (get_member (if is_field idx then defaultvalues c else methods c) (member_idx idx)))"

text \<open>\<open>Lock\<close> marks the class and, recursively, its bases.\<close>

partial_function (option) Lock :: "(ptr \<Rightarrow> gsclass option) \<Rightarrow> ptr \<Rightarrow> (ptr \<Rightarrow> gsclass option) option" where
  "Lock cs p =
     (case cs p of
        None \<Rightarrow> None
      | Some c \<Rightarrow>
          (let cs1 = cs(p \<mapsto> c\<lparr>locked := True\<rparr>) in
           case cbase c of None \<Rightarrow> Some cs1 | Some b \<Rightarrow> Lock cs1 b))"

section \<open>Instances\<close>

definition CreateInstance :: "classheap \<Rightarrow> ptr \<Rightarrow> ptr \<Rightarrow> classheap option" where
  "CreateInstance h nw p =
     (case classes h p of
        None \<Rightarrow> None
      | Some c \<Rightarrow>
          map_option (\<lambda>cs. h\<lparr>classes := cs,
                instances := (instances h)(nw \<mapsto> \<lparr>iclass = p, ivalues = map mval (defaultvalues c)\<rparr>)\<rparr>)
            (if \<not> locked c then Lock (classes h) p else Some (classes h)))"

definition CloneInstance :: "classheap \<Rightarrow> ptr \<Rightarrow> ptr \<Rightarrow> classheap option" where
  "CloneInstance h nw i =
     (case instances h i of
        None \<Rightarrow> None
      | Some x \<Rightarrow>
          (case classes h (iclass x) of
             None \<Rightarrow> None
           | Some c \<Rightarrow>
               if length (ivalues x) < length (defaultvalues c) then None
               else Some (h\<lparr>instances := (instances h)(nw \<mapsto>
                            \<lparr>iclass = iclass x, ivalues = take (length (defaultvalues c)) (ivalues x)\<rparr>)\<rparr>)))"

definition InstanceGet :: "classenv \<Rightarrow> classheap \<Rightarrow> ptr \<Rightarrow> gsobj \<Rightarrow> gsobj option option" where
  "InstanceGet E h i key =
     (case instances h i of
        None \<Rightarrow> None
      | Some x \<Rightarrow>
          (case classes h (iclass x) of
             None \<Rightarrow> None
           | Some c \<Rightarrow>
               (case TableGet (strhash E) (weak E) (cmembers c) key of
                  None \<Rightarrow> None
                | Some None \<Rightarrow> Some None
                | Some (Some v) \<Rightarrow>
                    if is_field v then
                      (if member_idx v < length (ivalues x)
                       then Some (Some (realval (weak E) (ivalues x ! member_idx v))) else None)
                    else map_option (\<lambda>m. Some (mval m)) (get_member (methods c) (member_idx v)))))"

definition InstanceSet :: "classenv \<Rightarrow> classheap \<Rightarrow> ptr \<Rightarrow> gsobj \<Rightarrow> gsobj \<Rightarrow> (classheap \<times> bool) option" where
  "InstanceSet E h i key val =
     (case instances h i of
        None \<Rightarrow> None
      | Some x \<Rightarrow>
          (case classes h (iclass x) of
             None \<Rightarrow> None
           | Some c \<Rightarrow>
               (case TableGet (strhash E) (weak E) (cmembers c) key of
                  None \<Rightarrow> None
                | Some None \<Rightarrow> Some (h, False)
                | Some (Some v) \<Rightarrow>
                    if is_field v then
                      (if member_idx v < length (ivalues x)
                       then Some (h\<lparr>instances := (instances h)(i \<mapsto> x\<lparr>ivalues := (ivalues x)[member_idx v := val]\<rparr>)\<rparr>, True)
                       else None)
                    else Some (h, False))))"

definition InstanceGetMetaMethod :: "classheap \<Rightarrow> ptr \<Rightarrow> GSMetaMethod \<Rightarrow> gsobj option option" where
  "InstanceGetMetaMethod h i mm =
     (case instances h i of
        None \<Rightarrow> None
      | Some x \<Rightarrow> map_option (\<lambda>c. if metamethods c mm \<noteq> ONull then Some (metamethods c mm) else None) (classes h (iclass x)))"

partial_function (option) instance_walk :: "(ptr \<Rightarrow> gsclass option) \<Rightarrow> ptr \<Rightarrow> ptr option \<Rightarrow> bool option" where
  "instance_walk cs trg parent =
     (case parent of
        None \<Rightarrow> Some False
      | Some p \<Rightarrow>
          if p = trg then Some True
          else case cs p of None \<Rightarrow> None | Some c \<Rightarrow> instance_walk cs trg (cbase c))"

definition InstanceOf :: "classheap \<Rightarrow> ptr \<Rightarrow> ptr \<Rightarrow> bool option" where
  "InstanceOf h i trg =
     (case instances h i of
        None \<Rightarrow> None
      | Some x \<Rightarrow> instance_walk (classes h) trg (Some (iclass x)))"

section \<open>Well-formed classes\<close>

definition class_ok :: "classenv \<Rightarrow> gsclass \<Rightarrow> bool" where
  "class_ok E c =
     (table_ok (strhash E) (cmembers c)
      \<and> (\<forall>k v. tabs (cmembers c) k = Some v \<longrightarrow>
            (\<exists>i < length (methods c). v = make_method_idx i) \<or> (\<exists>i < length (defaultvalues c). v = make_field_idx i))
      \<and> (\<forall>k k' v. tabs (cmembers c) k = Some v \<longrightarrow> tabs (cmembers c) k' = Some v \<longrightarrow> k = k')
      \<and> card {k. \<exists>v. tabs (cmembers c) k = Some v \<and> is_field v} = length (defaultvalues c)
      \<and> length (methods c) \<le> usednodes (cmembers c)
      \<and> usednodes (cmembers c) \<le> MEMBER_MAX_COUNT
      \<and> -1 \<le> constructoridx c \<and> constructoridx c < int (length (methods c)))"

text \<open>What a class is for its clients: every name is a field with a default value or a method.\<close>

definition class_view :: "gsclass \<Rightarrow> gsobj \<Rightarrow> (bool \<times> gsobj) option" where
  "class_view c k =
     map_option (\<lambda>v. if is_field v then (True, mval (defaultvalues c ! member_idx v))
                     else (False, mval (methods c ! member_idx v))) (tabs (cmembers c) k)"

lemma table_card:
  assumes "table_ok sh t"
  shows "finite (dom (tabs t))" "card (dom (tabs t)) = usednodes t"
proof -
  have d: "dom (tabs t) = fst ` set (entries (tnodes t))"
    by (auto simp: tabs_def dom_map_of_conv_image_fst)
  then show "finite (dom (tabs t))" by simp
  have "distinct (map fst (entries (tnodes t)))"
    by (rule distinct_entries[OF table_ok_keys[OF assms]])
  then have "card (fst ` set (entries (tnodes t))) = length (entries (tnodes t))"
    by (metis distinct_card length_map list.set_map)
  with d assms show "card (dom (tabs t)) = usednodes t"
    by (simp add: length_entries table_ok_def)
qed

lemma class_ok_table: "class_ok E c \<Longrightarrow> table_ok (strhash E) (cmembers c)"
  by (simp add: class_ok_def)

lemma class_ok_lengths:
  assumes "class_ok E c"
  shows "length (methods c) \<le> usednodes (cmembers c)" "length (defaultvalues c) \<le> usednodes (cmembers c)"
    "usednodes (cmembers c) < 2 ^ 24"
proof -
  have "card {k. \<exists>v. tabs (cmembers c) k = Some v \<and> is_field v} \<le> card (dom (tabs (cmembers c)))"
    by (rule card_mono[OF table_card(1)[OF class_ok_table[OF assms]]]) auto
  then show "length (defaultvalues c) \<le> usednodes (cmembers c)"
    using assms table_card(2)[OF class_ok_table[OF assms]] by (simp add: class_ok_def)
qed (use assms in \<open>auto simp: class_ok_def\<close>)

lemma class_ok_member:
  assumes "class_ok E c" "tabs (cmembers c) k = Some v"
  obtains i where "v = make_method_idx i" "i < length (methods c)" "i < 2 ^ 24"
  | i where "v = make_field_idx i" "i < length (defaultvalues c)" "i < 2 ^ 24"
proof -
  note l = class_ok_lengths[OF assms(1)]
  from assms consider i where "i < length (methods c)" "v = make_method_idx i"
    | i where "i < length (defaultvalues c)" "v = make_field_idx i"
    unfolding class_ok_def by metis
  then show thesis
  proof cases
    case (1 i)
    then show thesis using l(1,3) by (intro that(1)[of i]) linarith+
  next
    case (2 i)
    then show thesis using l(2,3) by (intro that(2)[of i]) linarith+
  qed
qed

lemma class_ok_member_idx:
  assumes "class_ok E c" "tabs (cmembers c) k = Some v"
  shows "is_field v \<Longrightarrow> member_idx v < length (defaultvalues c)"
    "\<not> is_field v \<Longrightarrow> member_idx v < length (methods c)"
    "is_method v \<longleftrightarrow> \<not> is_field v"
  by (rule class_ok_member[OF assms]; simp)+

lemma class_ok_inj:
  "class_ok E c \<Longrightarrow> tabs (cmembers c) k = Some v \<Longrightarrow> tabs (cmembers c) k' = Some v \<Longrightarrow> k = k'"
  unfolding class_ok_def by blast

lemma member_eqI:
  assumes "class_ok E c" "tabs (cmembers c) k = Some v" "tabs (cmembers c) k' = Some v'"
    "is_field v = is_field v'" "member_idx v = member_idx v'"
  shows "k = k'"
proof -
  have "v = v'"
    by (rule class_ok_member[OF assms(1,2)]; rule class_ok_member[OF assms(1,3)]) (use assms(4,5) in simp_all)
  then show ?thesis using class_ok_inj[OF assms(1,2)] assms(3) by simp
qed

lemma class_lookup:
  assumes "class_ok E c"
  shows "TableGet (strhash E) (weak E) (cmembers c) key = Some (tabs (cmembers c) key)"
proof -
  have "map_option (realval (weak E)) (tabs (cmembers c) key) = tabs (cmembers c) key"
  proof (cases "tabs (cmembers c) key")
    case (Some v)
    show ?thesis
      by (rule class_ok_member[OF assms Some])
         (use Some in \<open>simp_all add: realval_def make_method_idx_def make_field_idx_def\<close>)
  qed simp
  with TableGet_spec[OF class_ok_table[OF assms], of "weak E" key] show ?thesis by simp
qed

lemma class_ok_new: "class_ok E (new_class (CreateTable 0))"
  using CreateTable_spec[of "strhash E" 0] table_card(2)[of "strhash E" "CreateTable 0"]
  by (simp add: class_ok_def new_class_def)

text \<open>Operations that replace values in place keep the structure.\<close>

lemma class_ok_same_shape:
  assumes "class_ok E c" "cmembers c' = cmembers c" "length (methods c') = length (methods c)"
    "length (defaultvalues c') = length (defaultvalues c)" "constructoridx c' = constructoridx c"
  shows "class_ok E c'"
  using assms by (simp add: class_ok_def)

lemma class_ok_add_field:
  assumes ok: "class_ok E c" and key: "key \<noteq> ONull" and nf: "\<And>v. tabs (cmembers c) key = Some v \<Longrightarrow> \<not> is_field v"
    and max: "usednodes (cmembers c) < MEMBER_MAX_COUNT"
  shows "\<exists>t b. NewSlot (strhash E) (cmembers c) key (make_field_idx (length (defaultvalues c))) = Some (t, b)
     \<and> class_ok E (c\<lparr>cmembers := t, defaultvalues := defaultvalues c @ [m]\<rparr>)
     \<and> class_view (c\<lparr>cmembers := t, defaultvalues := defaultvalues c @ [m]\<rparr>) = (class_view c)(key \<mapsto> (True, mval m))"
proof -
  let ?n = "length (defaultvalues c)"
  note l = class_ok_lengths[OF ok]
  have n: "?n < 2 ^ 24" using l max by simp
  from NewSlot_spec[OF class_ok_table[OF ok] key, of "make_field_idx ?n"] obtain t b
    where t: "NewSlot (strhash E) (cmembers c) key (make_field_idx ?n) = Some (t, b)" "table_ok (strhash E) t"
      "tabs t = (tabs (cmembers c))(key \<mapsto> make_field_idx ?n)" by blast
  let ?c = "c\<lparr>cmembers := t, defaultvalues := defaultvalues c @ [m]\<rparr>"
  have used: "usednodes t = card (insert key (dom (tabs (cmembers c))))"
    using table_card(2)[OF t(2)] t(3) by simp
  have le: "usednodes (cmembers c) \<le> usednodes t" "usednodes t \<le> Suc (usednodes (cmembers c))"
    using used table_card[OF class_ok_table[OF ok]] by (auto simp: card_insert_if)
  have fields: "{k. \<exists>v. tabs t k = Some v \<and> is_field v} = insert key {k. \<exists>v. tabs (cmembers c) k = Some v \<and> is_field v}"
    using n nf by (auto simp: t(3))
  have fin: "finite {k. \<exists>v. tabs (cmembers c) k = Some v \<and> is_field v}"
    by (rule finite_subset[OF _ table_card(1)[OF class_ok_table[OF ok]]]) auto
  have card: "card {k. \<exists>v. tabs t k = Some v \<and> is_field v} = Suc ?n"
    using ok nf fin by (subst fields) (auto simp: class_ok_def)
  have old: "v \<noteq> make_field_idx ?n" if "tabs (cmembers c) k = Some v" for k v
    by (rule class_ok_member[OF ok that]) (use n member_idx_simps in \<open>metis nat_neq_iff\<close>)+
  have "class_ok E ?c"
    unfolding class_ok_def
  proof (intro conjI)
    show "\<forall>k v. tabs (cmembers ?c) k = Some v \<longrightarrow>
            (\<exists>i < length (methods ?c). v = make_method_idx i) \<or> (\<exists>i < length (defaultvalues ?c). v = make_field_idx i)"
      using ok by (auto simp: t(3) class_ok_def) (metis less_SucI)
    show "\<forall>k k' v. tabs (cmembers ?c) k = Some v \<longrightarrow> tabs (cmembers ?c) k' = Some v \<longrightarrow> k = k'"
      using old class_ok_inj[OF ok] by (auto simp: t(3))
  qed (use ok t(2) card l le max in \<open>auto simp: class_ok_def\<close>)
  moreover have "class_view ?c = (class_view c)(key \<mapsto> (True, mval m))"
  proof
    fix k show "class_view ?c k = ((class_view c)(key \<mapsto> (True, mval m))) k"
    proof (cases "k = key")
      case False
      show ?thesis
      proof (cases "tabs (cmembers c) k")
        case (Some v)
        show ?thesis
          using False Some class_ok_member_idx[OF ok Some]
          by (auto simp: class_view_def t(3) nth_append)
      qed (use False in \<open>simp add: class_view_def t(3)\<close>)
    qed (use n in \<open>simp add: class_view_def t(3)\<close>)
  qed
  ultimately show ?thesis using t(1) by blast
qed

lemma class_ok_add_method:
  assumes ok: "class_ok E c" and key: "key \<noteq> ONull" and new: "tabs (cmembers c) key = None"
    and max: "usednodes (cmembers c) < MEMBER_MAX_COUNT" and ci: "ci = constructoridx c \<or> ci = int (length (methods c))"
  shows "\<exists>t b. NewSlot (strhash E) (cmembers c) key (make_method_idx (length (methods c))) = Some (t, b)
     \<and> class_ok E (c\<lparr>cmembers := t, constructoridx := ci, methods := methods c @ [m]\<rparr>)
     \<and> class_view (c\<lparr>cmembers := t, constructoridx := ci, methods := methods c @ [m]\<rparr>) = (class_view c)(key \<mapsto> (False, mval m))"
proof -
  let ?n = "length (methods c)"
  note l = class_ok_lengths[OF ok]
  have n: "?n < 2 ^ 24" using l max by simp
  from NewSlot_spec[OF class_ok_table[OF ok] key, of "make_method_idx ?n"] obtain t b
    where t: "NewSlot (strhash E) (cmembers c) key (make_method_idx ?n) = Some (t, b)" "table_ok (strhash E) t"
      "tabs t = (tabs (cmembers c))(key \<mapsto> make_method_idx ?n)" by blast
  let ?c = "c\<lparr>cmembers := t, constructoridx := ci, methods := methods c @ [m]\<rparr>"
  have used: "usednodes t = Suc (usednodes (cmembers c))"
    using table_card[OF class_ok_table[OF ok]] table_card(2)[OF t(2)] t(3) new
    by (simp add: card_insert_if domIff)
  have fields: "{k. \<exists>v. tabs t k = Some v \<and> is_field v} = {k. \<exists>v. tabs (cmembers c) k = Some v \<and> is_field v}"
    using n new by (auto simp: t(3) split: if_splits)
  have old: "v \<noteq> make_method_idx ?n" if "tabs (cmembers c) k = Some v" for k v
    by (rule class_ok_member[OF ok that]) (use n member_idx_simps in \<open>metis nat_neq_iff\<close>)+
  have "class_ok E ?c"
    unfolding class_ok_def
  proof (intro conjI)
    show "\<forall>k v. tabs (cmembers ?c) k = Some v \<longrightarrow>
            (\<exists>i < length (methods ?c). v = make_method_idx i) \<or> (\<exists>i < length (defaultvalues ?c). v = make_field_idx i)"
      using ok by (auto simp: t(3) class_ok_def) (metis less_SucI)
    show "\<forall>k k' v. tabs (cmembers ?c) k = Some v \<longrightarrow> tabs (cmembers ?c) k' = Some v \<longrightarrow> k = k'"
      using old class_ok_inj[OF ok] by (auto simp: t(3))
    show "card {k. \<exists>v. tabs (cmembers ?c) k = Some v \<and> is_field v} = length (defaultvalues ?c)"
      using ok by (simp add: fields class_ok_def)
  qed (use ok t(2) l used max ci in \<open>auto simp: class_ok_def\<close>)
  moreover have "class_view ?c = (class_view c)(key \<mapsto> (False, mval m))"
  proof
    fix k show "class_view ?c k = ((class_view c)(key \<mapsto> (False, mval m))) k"
    proof (cases "k = key")
      case False
      show ?thesis
      proof (cases "tabs (cmembers c) k")
        case (Some v)
        show ?thesis
          using False Some class_ok_member_idx[OF ok Some]
          by (auto simp: class_view_def t(3) nth_append)
      qed (use False in \<open>simp add: class_view_def t(3)\<close>)
    qed (use n in \<open>simp add: class_view_def t(3)\<close>)
  qed
  ultimately show ?thesis using t(1) by blast
qed

lemma class_view_cong:
  "cmembers c' = cmembers c \<Longrightarrow> defaultvalues c' = defaultvalues c \<Longrightarrow> methods c' = methods c \<Longrightarrow> class_view c' = class_view c"
  by (simp add: class_view_def fun_eq_iff cong: if_cong)

lemma set_val_field:
  assumes ok: "class_ok E c" and v: "tabs (cmembers c) key = Some v" "is_field v"
  shows "\<exists>dv. set_val (defaultvalues c) (member_idx v) x = Some dv \<and> class_ok E (c\<lparr>defaultvalues := dv\<rparr>)
     \<and> length dv = length (defaultvalues c) \<and> class_view (c\<lparr>defaultvalues := dv\<rparr>) = (class_view c)(key \<mapsto> (True, x))"
proof -
  note i = class_ok_member_idx(1)[OF ok v]
  let ?dv = "(defaultvalues c)[member_idx v := (defaultvalues c ! member_idx v)\<lparr>mval := x\<rparr>]"
  have "class_view (c\<lparr>defaultvalues := ?dv\<rparr>) k = ((class_view c)(key \<mapsto> (True, x))) k" for k
  proof (cases "tabs (cmembers c) k")
    case (Some w)
    have "member_idx v \<noteq> member_idx w" if "is_field w" "k \<noteq> key"
      using member_eqI[OF ok Some v(1)] that v(2) by metis
    then show ?thesis using v i Some
      by (cases "k = key"; cases "is_field w") (auto simp: class_view_def)
  qed (use v in \<open>auto simp: class_view_def\<close>)
  then have "class_view (c\<lparr>defaultvalues := ?dv\<rparr>) = (class_view c)(key \<mapsto> (True, x))" by (rule ext)
  moreover have "class_ok E (c\<lparr>defaultvalues := ?dv\<rparr>)" by (rule class_ok_same_shape[OF ok]) simp_all
  ultimately show ?thesis using i by (simp add: set_val_def)
qed

lemma set_val_method:
  assumes ok: "class_ok E c" and v: "tabs (cmembers c) key = Some v" "\<not> is_field v"
  shows "\<exists>ms. set_val (methods c) (member_idx v) x = Some ms \<and> class_ok E (c\<lparr>methods := ms\<rparr>)
     \<and> class_view (c\<lparr>methods := ms\<rparr>) = (class_view c)(key \<mapsto> (False, x))"
proof -
  note i = class_ok_member_idx(2)[OF ok v]
  let ?ms = "(methods c)[member_idx v := (methods c ! member_idx v)\<lparr>mval := x\<rparr>]"
  have "class_view (c\<lparr>methods := ?ms\<rparr>) k = ((class_view c)(key \<mapsto> (False, x))) k" for k
  proof (cases "tabs (cmembers c) k")
    case (Some w)
    have "member_idx v \<noteq> member_idx w" if "\<not> is_field w" "k \<noteq> key"
      using member_eqI[OF ok Some v(1)] that v(2) by metis
    then show ?thesis using v i Some
      by (cases "k = key"; cases "is_field w") (auto simp: class_view_def)
  qed (use v in \<open>auto simp: class_view_def\<close>)
  then have "class_view (c\<lparr>methods := ?ms\<rparr>) = (class_view c)(key \<mapsto> (False, x))" by (rule ext)
  moreover have "class_ok E (c\<lparr>methods := ?ms\<rparr>)" by (rule class_ok_same_shape[OF ok]) simp_all
  ultimately show ?thesis using i by (simp add: set_val_def)
qed

text \<open>The value under which a method is stored.\<close>

definition stored_method :: "ptr option \<Rightarrow> ptr \<Rightarrow> gsobj \<Rightarrow> gsobj" where
  "stored_method base nw val = (case (base, val) of (Some b, OClosure f) \<Rightarrow> OClosure nw | _ \<Rightarrow> val)"

lemma rebase_ok:
  assumes "\<forall>f. val = OClosure f \<longrightarrow> closures h f \<noteq> None"
  shows "\<exists>h'. rebase base nw val h = Some (stored_method base nw val, h') \<and> classes h' = classes h \<and> instances h' = instances h"
  using assms by (auto simp: rebase_def stored_method_def split: option.splits gsobj.splits)

text \<open>What \<open>NewSlot\<close> does to the members, as a function of the view.\<close>

definition slot_accepted :: "gsclass \<Rightarrow> gsobj \<Rightarrow> gsobj \<Rightarrow> bool \<Rightarrow> bool" where
  "slot_accepted c key val bstatic =
     ((locked c \<longrightarrow> is_callable val \<or> bstatic)
      \<and> (usednodes (cmembers c) < MEMBER_MAX_COUNT \<or> (\<exists>x. class_view c key = Some (True, x))))"

definition slot_effect :: "classenv \<Rightarrow> ptr \<Rightarrow> gsclass \<Rightarrow> gsobj \<Rightarrow> gsobj \<Rightarrow> bool \<Rightarrow> (gsobj \<Rightarrow> (bool \<times> gsobj) option)" where
  "slot_effect E nw c key val bstatic =
     (if \<not> slot_accepted c key val bstatic then class_view c
      else if \<exists>x. class_view c key = Some (True, x) then (class_view c)(key \<mapsto> (True, val))
      else if is_callable val \<and> GetMetaMethodIdxByName E key \<noteq> None then class_view c
      else if is_callable val \<or> bstatic then (class_view c)(key \<mapsto> (False, stored_method (cbase c) nw val))
      else (class_view c)(key \<mapsto> (True, val)))"

lemma view_field_iff:
  "(\<exists>x. class_view c key = Some (True, x)) \<longleftrightarrow> (\<exists>v. tabs (cmembers c) key = Some v \<and> is_field v)"
  by (auto simp: class_view_def split: if_splits)

lemma add_method_ok:
  assumes ok: "class_ok E c" and key: "key \<noteq> ONull" and nf: "\<nexists>v. tabs (cmembers c) key = Some v \<and> is_field v"
    and max: "usednodes (cmembers c) < MEMBER_MAX_COUNT"
  shows "\<exists>c'. add_method E c key x (tabs (cmembers c) key) = Some c' \<and> class_ok E c' \<and> locked c' = locked c \<and> cbase c' = cbase c
     \<and> length (defaultvalues c') = length (defaultvalues c) \<and> metamethods c' = metamethods c
     \<and> class_view c' = (class_view c)(key \<mapsto> (False, x))"
proof (cases "tabs (cmembers c) key")
  case None
  from class_ok_add_method[OF ok key None max, of "if IsEqual (ctorname E) key then int (length (methods c)) else constructoridx c"
      "\<lparr>mval = x, mattrs = ONull\<rparr>"]
  show ?thesis using None by (auto simp: add_method_def Let_def)
next
  case (Some v)
  with nf have "\<not> is_field v" by blast
  from set_val_method[OF ok Some this, of x] show ?thesis using Some by (auto simp: add_method_def)
qed

lemma ClassNewSlot_ok:
  assumes ok: "class_ok E c" and key: "key \<noteq> ONull" and clo: "\<forall>f. val = OClosure f \<longrightarrow> closures h f \<noteq> None"
  shows "\<exists>c' h'. ClassNewSlot E nw c key val bstatic h = Some (c', slot_accepted c key val bstatic, h') \<and> class_ok E c'
     \<and> class_view c' = slot_effect E nw c key val bstatic \<and> locked c' = locked c \<and> cbase c' = cbase c
     \<and> (locked c \<longrightarrow> length (defaultvalues c') = length (defaultvalues c))
     \<and> classes h' = classes h \<and> instances h' = instances h"
proof (cases "locked c \<and> \<not> (is_callable val \<or> bstatic)")
  case True
  then show ?thesis using ok by (simp add: ClassNewSlot_def slot_accepted_def slot_effect_def Let_def)
next
  case nl: False
  show ?thesis
  proof (cases "\<exists>v. tabs (cmembers c) key = Some v \<and> is_field v")
    case True
    then obtain v where v: "tabs (cmembers c) key = Some v" "is_field v" by blast
    from set_val_field[OF ok v, of val] obtain dv where
      dv: "set_val (defaultvalues c) (member_idx v) val = Some dv" "class_ok E (c\<lparr>defaultvalues := dv\<rparr>)"
        "length dv = length (defaultvalues c)" "class_view (c\<lparr>defaultvalues := dv\<rparr>) = (class_view c)(key \<mapsto> (True, val))" by blast
    have f: "\<exists>x. class_view c key = Some (True, x)" using True view_field_iff by blast
    have "ClassNewSlot E nw c key val bstatic h = Some (c\<lparr>defaultvalues := dv\<rparr>, True, h)"
      using nl v dv(1) class_lookup[OF ok, of key] by (auto simp: ClassNewSlot_def Let_def)
    then show ?thesis using nl f dv by (auto simp: slot_accepted_def slot_effect_def)
  next
    case nf: False
    then have f: "\<nexists>x. class_view c key = Some (True, x)" using view_field_iff by blast
    note lk = class_lookup[OF ok, of key]
    show ?thesis
    proof (cases "usednodes (cmembers c) < MEMBER_MAX_COUNT")
      case False
      then show ?thesis using nl nf f lk ok
        by (auto simp: ClassNewSlot_def Let_def slot_accepted_def slot_effect_def)
    next
      case max: True
      have acc: "slot_accepted c key val bstatic" using nl max by (auto simp: slot_accepted_def)
      show ?thesis
      proof (cases "is_callable val \<or> bstatic")
        case static: True
        show ?thesis
        proof (cases "is_callable val \<and> GetMetaMethodIdxByName E key \<noteq> None")
          case True
          then obtain mm where mm: "GetMetaMethodIdxByName E key = Some mm" by blast
          let ?c = "c\<lparr>metamethods := (metamethods c)(mm := val)\<rparr>"
          have "ClassNewSlot E nw c key val bstatic h = Some (?c, True, h)"
            using True nl nf lk max mm by (auto simp: ClassNewSlot_def Let_def)
          moreover have "class_ok E ?c" by (rule class_ok_same_shape[OF ok]) simp_all
          moreover have "class_view ?c = class_view c" by (rule class_view_cong) simp_all
          ultimately show ?thesis using True acc f by (simp add: slot_effect_def)
        next
          case False
          from rebase_ok[OF clo, of "cbase c" nw] obtain h' where
            h': "rebase (cbase c) nw val h = Some (stored_method (cbase c) nw val, h')" "classes h' = classes h" "instances h' = instances h"
            by blast
          from add_method_ok[OF ok key nf max, of "stored_method (cbase c) nw val"] obtain c' where
            c': "add_method E c key (stored_method (cbase c) nw val) (tabs (cmembers c) key) = Some c'" "class_ok E c'"
              "locked c' = locked c" "cbase c' = cbase c" "length (defaultvalues c') = length (defaultvalues c)"
              "class_view c' = (class_view c)(key \<mapsto> (False, stored_method (cbase c) nw val))" by blast
          have "ClassNewSlot E nw c key val bstatic h = Some (c', True, h')"
            using False static nl nf lk max h'(1) c'(1) by (auto simp: ClassNewSlot_def Let_def)
          then show ?thesis using False static acc f h' c' by (auto simp: slot_effect_def)
        qed
      next
        case ns: False
        have nf': "\<And>v. tabs (cmembers c) key = Some v \<Longrightarrow> \<not> is_field v" using nf by blast
        from class_ok_add_field[OF ok key nf' max, of "\<lparr>mval = val, mattrs = ONull\<rparr>"] obtain t b where
          t: "NewSlot (strhash E) (cmembers c) key (make_field_idx (length (defaultvalues c))) = Some (t, b)"
            "class_ok E (c\<lparr>cmembers := t, defaultvalues := defaultvalues c @ [\<lparr>mval = val, mattrs = ONull\<rparr>]\<rparr>)"
            "class_view (c\<lparr>cmembers := t, defaultvalues := defaultvalues c @ [\<lparr>mval = val, mattrs = ONull\<rparr>]\<rparr>) = (class_view c)(key \<mapsto> (True, val))"
          by auto
        have "ClassNewSlot E nw c key val bstatic h
            = Some (c\<lparr>cmembers := t, defaultvalues := defaultvalues c @ [\<lparr>mval = val, mattrs = ONull\<rparr>]\<rparr>, True, h)"
          using ns nl nf lk max t(1) by (auto simp: ClassNewSlot_def Let_def)
        then show ?thesis using ns nl acc f t(2,3) by (auto simp: slot_effect_def)
      qed
    qed
  qed
qed

text \<open>
  C18: Adding a slot to a class.  On a well-formed class \<open>NewSlot\<close> never leaves its vectors or the
  member table, keeps the class well formed, refuses exactly new fields of a locked class and members
  beyond the limit, and otherwise changes the view of the one name: an existing field gets a new
  default value, a metamethod stays out of the members, other functions and static values become
  methods (closures of a derived class cloned), everything else a field.
\<close>

theorem class_newslot_refines:
  assumes "class_ok E c" "key \<noteq> ONull" "\<forall>f. val = OClosure f \<longrightarrow> closures h f \<noteq> None"
  shows "\<exists>c' h'. ClassNewSlot E nw c key val bstatic h = Some (c', slot_accepted c key val bstatic, h')
     \<and> class_ok E c' \<and> class_view c' = slot_effect E nw c key val bstatic
     \<and> (\<forall>k. ClassGet E c' k = Some (map_option (\<lambda>(f, v). if f then realval (weak E) v else v) (class_view c' k)))"
proof -
  from ClassNewSlot_ok[OF assms, of nw bstatic] obtain c' h' where
    c': "ClassNewSlot E nw c key val bstatic h = Some (c', slot_accepted c key val bstatic, h')" "class_ok E c'"
      "class_view c' = slot_effect E nw c key val bstatic" by blast
  have "ClassGet E c' k = Some (map_option (\<lambda>(f, v). if f then realval (weak E) v else v) (class_view c' k))" for k
    using class_ok_member_idx[OF c'(2)]
    by (cases "tabs (cmembers c') k") (auto simp: ClassGet_def class_lookup[OF c'(2)] class_view_def get_member_def)
  with c' show ?thesis by blast
qed

lemma class_newslot_refines_witness:
  "\<exists>E c c' h'. ClassNewSlot E 1 c (OString 8) (OInteger 7) False \<lparr>classes = Map.empty, instances = Map.empty, closures = Map.empty\<rparr>
       = Some (c', True, h') \<and> ClassGet E c' (OString 8) = Some (Some (OInteger 7))"
proof -
  let ?E = "\<lparr>strhash = (\<lambda>_. 0), schars = (\<lambda>_. ''x''), weak = (\<lambda>_. ONull), ctorname = OString 16\<rparr>"
  let ?c = "new_class (CreateTable 0)"
  let ?h = "\<lparr>classes = Map.empty, instances = Map.empty, closures = Map.empty\<rparr> :: classheap"
  have v: "class_view ?c = Map.empty" using CreateTable_spec[of "strhash ?E" 0] by (simp add: class_view_def new_class_def fun_eq_iff)
  have u: "usednodes (CreateTable 0) = 0"
    using table_card(2)[of "strhash ?E" "CreateTable 0"] CreateTable_spec[of "strhash ?E" 0] by simp
  have acc: "slot_accepted ?c (OString 8) (OInteger 7) False"
    using u by (simp add: slot_accepted_def new_class_def)
  from class_newslot_refines[OF class_ok_new[of ?E], of "OString 8" "OInteger 7" ?h 1 False] acc
  obtain c' h' where c': "ClassNewSlot ?E 1 ?c (OString 8) (OInteger 7) False ?h = Some (c', True, h')"
    "class_view c' = slot_effect ?E 1 ?c (OString 8) (OInteger 7) False"
    "\<forall>k. ClassGet ?E c' k = Some (map_option (\<lambda>(f, v). if f then realval (weak ?E) v else v) (class_view c' k))" by auto
  have "class_view c' (OString 8) = Some (True, OInteger 7)"
    using c'(2) acc v by (simp add: slot_effect_def is_callable_def)
  with c'(3) have "ClassGet ?E c' (OString 8) = Some (Some (OInteger 7))" by (simp add: realval_def)
  with c'(1) show ?thesis by blast
qed

section \<open>The class heap\<close>

inductive base_ends :: "(ptr \<Rightarrow> gsclass option) \<Rightarrow> ptr option \<Rightarrow> bool" for cs where
  base_ends_None: "base_ends cs None"
| base_ends_Some: "cs p = Some c \<Longrightarrow> base_ends cs (cbase c) \<Longrightarrow> base_ends cs (Some p)"

inductive_cases base_ends_SomeE: "base_ends cs (Some p)"

lemma base_ends_mono:
  assumes "\<And>q c. cs q = Some c \<Longrightarrow> \<exists>c'. cs' q = Some c' \<and> cbase c' = cbase c"
  shows "base_ends cs x \<Longrightarrow> base_ends cs' x"
proof (induction rule: base_ends.induct)
  case (base_ends_Some p c)
  with assms obtain c' where "cs' p = Some c'" "cbase c' = cbase c" by blast
  with base_ends_Some.IH show ?case by (auto intro: base_ends.base_ends_Some)
qed (rule base_ends_None)

text \<open>\<open>cs'\<close> is \<open>cs\<close> with more classes locked.\<close>

definition more_locked :: "(ptr \<Rightarrow> gsclass option) \<Rightarrow> (ptr \<Rightarrow> gsclass option) \<Rightarrow> bool" where
  "more_locked cs cs' =
     (\<forall>q. case cs q of None \<Rightarrow> cs' q = None
        | Some c \<Rightarrow> \<exists>l. cs' q = Some (c\<lparr>locked := l\<rparr>) \<and> (locked c \<longrightarrow> l))"

lemma more_locked_refl: "more_locked cs cs"
  unfolding more_locked_def
proof
  fix q show "case cs q of None \<Rightarrow> cs q = None | Some c \<Rightarrow> \<exists>l. cs q = Some (c\<lparr>locked := l\<rparr>) \<and> (locked c \<longrightarrow> l)"
  proof (cases "cs q")
    case (Some c)
    then show ?thesis by (simp, intro exI[of _ "locked c"]) simp
  qed simp
qed

lemma more_lockedD:
  "more_locked cs cs' \<Longrightarrow> case cs q of None \<Rightarrow> cs' q = None | Some c \<Rightarrow> \<exists>l. cs' q = Some (c\<lparr>locked := l\<rparr>) \<and> (locked c \<longrightarrow> l)"
  unfolding more_locked_def by (rule spec)

lemma more_locked_Some:
  "more_locked cs cs' \<Longrightarrow> cs q = Some c \<Longrightarrow> \<exists>l. cs' q = Some (c\<lparr>locked := l\<rparr>) \<and> (locked c \<longrightarrow> l)"
  by (drule more_lockedD[of _ _ q]) simp

lemma more_locked_back:
  assumes "more_locked cs cs'" "cs' q = Some c'"
  shows "\<exists>c. cs q = Some c \<and> c' = c\<lparr>locked := locked c'\<rparr> \<and> (locked c \<longrightarrow> locked c')"
  using more_lockedD[OF assms(1), of q] assms(2) by (auto split: option.splits)

lemma more_locked_trans: "more_locked a b \<Longrightarrow> more_locked b c \<Longrightarrow> more_locked a c"
  unfolding more_locked_def
proof (intro allI)
  fix q
  assume ab: "\<forall>q. case a q of None \<Rightarrow> b q = None | Some x \<Rightarrow> \<exists>l. b q = Some (x\<lparr>locked := l\<rparr>) \<and> (locked x \<longrightarrow> l)"
    and bc: "\<forall>q. case b q of None \<Rightarrow> c q = None | Some x \<Rightarrow> \<exists>l. c q = Some (x\<lparr>locked := l\<rparr>) \<and> (locked x \<longrightarrow> l)"
  from ab[rule_format, of q] bc[rule_format, of q]
  show "case a q of None \<Rightarrow> c q = None | Some x \<Rightarrow> \<exists>l. c q = Some (x\<lparr>locked := l\<rparr>) \<and> (locked x \<longrightarrow> l)"
    by (auto split: option.splits)
qed

lemma more_locked_lock: "cs p = Some c \<Longrightarrow> more_locked cs (cs(p \<mapsto> c\<lparr>locked := True\<rparr>))"
  using more_locked_refl[of cs] by (auto simp: more_locked_def split: option.splits)

text \<open>\<open>Lock\<close> returns, locks the class, and whatever it newly locks has its base locked.\<close>

lemma Lock_ok:
  "base_ends cs x \<Longrightarrow> x = Some p \<Longrightarrow> more_locked cs cs1
     \<Longrightarrow> \<exists>cs'. Lock cs1 p = Some cs' \<and> more_locked cs1 cs' \<and> (\<exists>c. cs' p = Some c \<and> locked c)
          \<and> (\<forall>q c b. cs' q = Some c \<longrightarrow> locked c \<longrightarrow> cbase c = Some b
                \<longrightarrow> (\<exists>d. cs' b = Some d \<and> locked d) \<or> (\<exists>c1. cs1 q = Some c1 \<and> locked c1))"
proof (induction arbitrary: p cs1 rule: base_ends.induct)
  case (base_ends_Some p0 c)
  then have p: "p0 = p" by simp
  from more_locked_Some[OF base_ends_Some.prems(2) base_ends_Some.hyps(1)]
  obtain l where c1: "cs1 p = Some (c\<lparr>locked := l\<rparr>)" using p by blast
  let ?c = "c\<lparr>locked := True\<rparr>"
  let ?cs = "cs1(p \<mapsto> ?c)"
  have m: "more_locked cs1 ?cs" using more_locked_lock[of cs1 p "c\<lparr>locked := l\<rparr>"] c1 by simp
  show ?case
  proof (cases "cbase c")
    case None
    have "Lock cs1 p = Some ?cs" by (subst Lock.simps) (simp add: c1 None)
    then show ?thesis using m None by (auto split: if_splits)
  next
    case (Some b)
    from base_ends_Some.IH[OF Some more_locked_trans[OF base_ends_Some.prems(2) m]] obtain cs' where
      cs': "Lock ?cs b = Some cs'" "more_locked ?cs cs'" "\<exists>d. cs' b = Some d \<and> locked d"
        "\<forall>q c b. cs' q = Some c \<longrightarrow> locked c \<longrightarrow> cbase c = Some b
                \<longrightarrow> (\<exists>d. cs' b = Some d \<and> locked d) \<or> (\<exists>c1. ?cs q = Some c1 \<and> locked c1)" by blast
    have "Lock cs1 p = Some cs'" by (subst Lock.simps) (simp add: c1 Some cs'(1))
    moreover have at: "\<exists>c'. cs' p = Some c' \<and> locked c' \<and> cbase c' = Some b"
      using more_locked_Some[OF cs'(2), of p ?c] Some by auto
    moreover have "(\<exists>d. cs' b2 = Some d \<and> locked d) \<or> (\<exists>c1. cs1 q = Some c1 \<and> locked c1)"
      if "cs' q = Some c2" "locked c2" "cbase c2 = Some b2" for q c2 b2
      using cs'(3,4) that at by (cases "q = p") force+
    ultimately show ?thesis using more_locked_trans[OF m cs'(2)] by blast
  qed
qed simp

text \<open>The bases of a class.\<close>

inductive inherits :: "(ptr \<Rightarrow> gsclass option) \<Rightarrow> ptr \<Rightarrow> ptr \<Rightarrow> bool" for cs where
  inherits_refl: "inherits cs p p"
| inherits_base: "cs p = Some c \<Longrightarrow> cbase c = Some b \<Longrightarrow> inherits cs b trg \<Longrightarrow> inherits cs p trg"

inductive_cases inheritsE: "inherits cs p trg"

lemma instance_walk_ok:
  "base_ends cs x \<Longrightarrow> instance_walk cs trg x = Some (case x of None \<Rightarrow> False | Some p \<Rightarrow> inherits cs p trg)"
proof (induction rule: base_ends.induct)
  case base_ends_None
  show ?case by (subst instance_walk.simps) simp
next
  case (base_ends_Some p c)
  then show ?case
    by (subst instance_walk.simps)
       (auto intro: inherits_refl inherits_base elim: inheritsE split: option.splits)
qed

definition heap_ok :: "classenv \<Rightarrow> classheap \<Rightarrow> bool" where
  "heap_ok E h =
     ((\<forall>p c. classes h p = Some c \<longrightarrow> class_ok E c \<and> base_ends (classes h) (Some p)
          \<and> (\<forall>b. locked c \<longrightarrow> cbase c = Some b \<longrightarrow> (\<exists>d. classes h b = Some d \<and> locked d)))
      \<and> (\<forall>i x. instances h i = Some x \<longrightarrow>
            (\<exists>c. classes h (iclass x) = Some c \<and> locked c \<and> length (ivalues x) = length (defaultvalues c))))"

lemma heap_okD:
  assumes "heap_ok E h"
  shows "classes h p = Some c \<Longrightarrow> class_ok E c" "classes h p = Some c \<Longrightarrow> base_ends (classes h) (Some p)"
    "classes h p = Some c \<Longrightarrow> locked c \<Longrightarrow> cbase c = Some b \<Longrightarrow> \<exists>d. classes h b = Some d \<and> locked d"
    "instances h i = Some x \<Longrightarrow> \<exists>c. classes h (iclass x) = Some c \<and> locked c \<and> length (ivalues x) = length (defaultvalues c)"
  using assms unfolding heap_ok_def by blast+

text \<open>Adding or replacing one class.\<close>

lemma heap_ok_put:
  assumes ok: "heap_ok E h" and c': "class_ok E c'" and ends: "base_ends (classes h) (cbase c')"
    and old: "\<And>c. classes h p = Some c \<Longrightarrow> cbase c' = cbase c \<and> locked c' = locked c
                \<and> (locked c \<longrightarrow> length (defaultvalues c') = length (defaultvalues c))"
    and new: "classes h p = None \<Longrightarrow> \<not> locked c'"
    and h': "classes h' = (classes h)(p \<mapsto> c')" "instances h' = instances h"
  shows "heap_ok E h'"
proof -
  let ?cs = "(classes h)(p \<mapsto> c')"
  have mono: "base_ends (classes h) x \<Longrightarrow> base_ends ?cs x" for x
    by (rule base_ends_mono[of "classes h"]) (use old in auto)
  have here: "base_ends ?cs (Some p)" by (rule base_ends_Some[where c = c']) (simp_all add: mono[OF ends])
  have lk: "\<exists>d. ?cs b = Some d \<and> locked d" if "classes h b = Some d" "locked d" for b d
    using that old by (cases "b = p") auto
  have lkd: "\<exists>d. ?cs b = Some d \<and> locked d" if q: "?cs q = Some c" and "locked c" "cbase c = Some b" for q c b
  proof (cases "q = p")
    case True
    with q have c: "c = c'" by simp
    show ?thesis
    proof (cases "classes h p")
      case (Some c0)
      with old[OF Some] that(2,3) c heap_okD(3)[OF ok Some, of b] lk show ?thesis by auto
    qed (use new that(2) c in auto)
  next
    case False
    with q that(2,3) heap_okD(3)[OF ok, of q c b] obtain d where "classes h b = Some d" "locked d" by auto
    then show ?thesis by (rule lk)
  qed
  show ?thesis
    unfolding heap_ok_def h'
  proof (intro conjI allI impI)
    fix q c assume "?cs q = Some c"
    then show "class_ok E c" using c' heap_okD(1)[OF ok] by (auto split: if_splits)
    show "base_ends ?cs (Some q)"
      using here mono[OF heap_okD(2)[OF ok, of q c]] \<open>?cs q = Some c\<close> by (cases "q = p") auto
  next
    fix i x assume "instances h i = Some x"
    from heap_okD(4)[OF ok this] old show "\<exists>c. ?cs (iclass x) = Some c \<and> locked c \<and> length (ivalues x) = length (defaultvalues c)"
      by (cases "iclass x = p") auto
  qed (use lkd in blast)
qed

lemma heap_ok_instances:
  assumes "heap_ok E h" "classes h' = classes h"
    "\<And>i x. instances h' i = Some x \<Longrightarrow> instances h i = Some x
        \<or> (\<exists>c. classes h (iclass x) = Some c \<and> locked c \<and> length (ivalues x) = length (defaultvalues c))"
  shows "heap_ok E h'"
  using assms unfolding heap_ok_def by metis

lemma CreateClass_ok:
  assumes ok: "heap_ok E h" and b: "\<And>b. base = Some b \<Longrightarrow> classes h b \<noteq> None"
  shows "\<exists>c. CreateClass E h base = Some c \<and> class_ok E c \<and> cbase c = base \<and> \<not> locked c
     \<and> (\<forall>b cb. base = Some b \<longrightarrow> classes h b = Some cb \<longrightarrow> class_view c = class_view cb)"
proof (cases base)
  case None
  then show ?thesis using class_ok_new[of E] by (simp add: CreateClass_def new_class_def)
next
  case (Some b)
  with b obtain cb where cb: "classes h b = Some cb" by blast
  note cok = heap_okD(1)[OF ok cb]
  from TableClone_spec[OF class_ok_table[OF cok]] obtain t where
    t: "TableClone (strhash E) (cmembers cb) = Some t" "table_ok (strhash E) t" "tabs t = tabs (cmembers cb)" by blast
  let ?c = "(new_class t)\<lparr>cbase := Some b, constructoridx := constructoridx cb, udsize := udsize cb,
              defaultvalues := defaultvalues cb, methods := methods cb, metamethods := metamethods cb\<rparr>"
  have u: "usednodes t = usednodes (cmembers cb)"
    using table_card(2)[OF t(2)] table_card(2)[OF class_ok_table[OF cok]] t(3) by simp
  have "class_ok E ?c" using cok t(2,3) u by (simp add: class_ok_def new_class_def)
  moreover have "class_view ?c = class_view cb"
    using t(3) by (simp add: class_view_def new_class_def fun_eq_iff cong: if_cong)
  ultimately show ?thesis using Some cb t(1) by (simp add: CreateClass_def new_class_def)
qed

lemma CreateInstance_ok:
  assumes ok: "heap_ok E h" and c: "classes h p = Some c" and nw: "instances h nw = None"
  shows "\<exists>h'. CreateInstance h nw p = Some h' \<and> heap_ok E h' \<and> more_locked (classes h) (classes h')
     \<and> instances h' = (instances h)(nw \<mapsto> \<lparr>iclass = p, ivalues = map mval (defaultvalues c)\<rparr>)"
proof -
  have "\<exists>cs. (if \<not> locked c then Lock (classes h) p else Some (classes h)) = Some cs \<and> more_locked (classes h) cs
      \<and> (\<exists>d. cs p = Some d \<and> locked d)
      \<and> (\<forall>q c b. cs q = Some c \<longrightarrow> locked c \<longrightarrow> cbase c = Some b
            \<longrightarrow> (\<exists>d. cs b = Some d \<and> locked d) \<or> (\<exists>c1. classes h q = Some c1 \<and> locked c1))"
    using Lock_ok[OF heap_okD(2)[OF ok c] refl more_locked_refl] more_locked_refl[of "classes h"] c
    by (cases "locked c") auto
  then obtain cs where cs: "(if \<not> locked c then Lock (classes h) p else Some (classes h)) = Some cs" "more_locked (classes h) cs"
      "\<exists>d. cs p = Some d \<and> locked d"
      "\<forall>q c b. cs q = Some c \<longrightarrow> locked c \<longrightarrow> cbase c = Some b
            \<longrightarrow> (\<exists>d. cs b = Some d \<and> locked d) \<or> (\<exists>c1. classes h q = Some c1 \<and> locked c1)" by blast
  let ?h = "h\<lparr>classes := cs, instances := (instances h)(nw \<mapsto> \<lparr>iclass = p, ivalues = map mval (defaultvalues c)\<rparr>)\<rparr>"
  have shape: "\<exists>c0. classes h q = Some c0 \<and> class_ok E d \<and> cbase d = cbase c0 \<and> length (defaultvalues d) = length (defaultvalues c0)
      \<and> (locked c0 \<longrightarrow> locked d)" if d: "cs q = Some d" for q d
  proof -
    from more_locked_back[OF cs(2) d] obtain c0 where c0: "classes h q = Some c0" "d = c0\<lparr>locked := locked d\<rparr>" "locked c0 \<longrightarrow> locked d" by blast
    have "class_ok E (c0\<lparr>locked := locked d\<rparr>)" by (rule class_ok_same_shape[OF heap_okD(1)[OF ok c0(1)]]) simp_all
    with c0(2) have "class_ok E d" by simp
    moreover have "cbase d = cbase c0" "defaultvalues d = defaultvalues c0" by (subst c0(2), simp)+
    ultimately show ?thesis using c0 by auto
  qed
  have keep: "\<exists>d. cs q = Some d \<and> locked d \<and> defaultvalues d = defaultvalues c0" if "classes h q = Some c0" "locked c0" for q c0
    using more_locked_Some[OF cs(2) that(1)] that(2) by auto
  have "heap_ok E ?h"
    unfolding heap_ok_def
  proof (intro conjI allI impI)
    fix q d assume "classes ?h q = Some d"
    then have d: "cs q = Some d" by simp
    from shape[OF d] obtain c0 where c0: "classes h q = Some c0" "class_ok E d" "cbase d = cbase c0" by blast
    show "class_ok E d" by (rule c0(2))
    have "base_ends cs (Some q)"
      by (rule base_ends_mono[OF _ heap_okD(2)[OF ok c0(1)]]) (use more_locked_Some[OF cs(2)] in fastforce)
    then show "base_ends (classes ?h) (Some q)" by simp
    fix b assume l: "locked d" "cbase d = Some b"
    have "\<exists>d. cs b = Some d \<and> locked d"
    proof (cases "locked c0")
      case True
      with heap_okD(3)[OF ok c0(1)] l(2) c0(3) keep show ?thesis by force
    qed (use cs(4) d l c0(1) in \<open>metis option.inject\<close>)
    then show "\<exists>d. classes ?h b = Some d \<and> locked d" by simp
  next
    fix i x assume i: "instances ?h i = Some x"
    show "\<exists>c. classes ?h (iclass x) = Some c \<and> locked c \<and> length (ivalues x) = length (defaultvalues c)"
    proof (cases "i = nw")
      case True
      from cs(3) shape[of p] c obtain d where "cs p = Some d" "locked d" "length (defaultvalues d) = length (defaultvalues c)" by force
      with True i show ?thesis by auto
    next
      case False
      with i have "instances h i = Some x" by simp
      from heap_okD(4)[OF ok this] keep show ?thesis by force
    qed
  qed
  with cs c show ?thesis by (simp add: CreateInstance_def)
qed

section \<open>Operations on the heap\<close>

datatype class_op =
    NewClass ptr "ptr option"
  | AddSlot ptr gsobj gsobj bool ptr
  | PutAttributes ptr gsobj gsobj
  | NewInstance ptr ptr
  | CopyInstance ptr ptr
  | PutField ptr gsobj gsobj

fun class_step :: "classenv \<Rightarrow> class_op \<Rightarrow> classheap \<Rightarrow> classheap option" where
  "class_step E (NewClass nw base) h = map_option (\<lambda>c. h\<lparr>classes := (classes h)(nw \<mapsto> c)\<rparr>) (CreateClass E h base)"
| "class_step E (AddSlot p key val bstatic nw) h =
     (case classes h p of
        None \<Rightarrow> None
      | Some c \<Rightarrow> map_option (\<lambda>(c', _, h'). h'\<lparr>classes := (classes h')(p \<mapsto> c')\<rparr>) (ClassNewSlot E nw c key val bstatic h))"
| "class_step E (PutAttributes p key val) h =
     (case classes h p of
        None \<Rightarrow> None
      | Some c \<Rightarrow> map_option (\<lambda>(c', _). h\<lparr>classes := (classes h)(p \<mapsto> c')\<rparr>) (SetAttributes E c key val))"
| "class_step E (NewInstance nw p) h = CreateInstance h nw p"
| "class_step E (CopyInstance nw i) h = CloneInstance h nw i"
| "class_step E (PutField i key val) h = map_option fst (InstanceSet E h i key val)"

text \<open>The pointers an operation is given are live, the addresses it allocates are free, and null is no
  member name.\<close>

fun valid_op :: "classheap \<Rightarrow> class_op \<Rightarrow> bool" where
  "valid_op h (NewClass nw base) = (classes h nw = None \<and> (case base of None \<Rightarrow> True | Some b \<Rightarrow> classes h b \<noteq> None))"
| "valid_op h (AddSlot p key val bstatic nw) =
     (classes h p \<noteq> None \<and> key \<noteq> ONull \<and> (case val of OClosure f \<Rightarrow> closures h f \<noteq> None | _ \<Rightarrow> True))"
| "valid_op h (PutAttributes p key val) = (classes h p \<noteq> None)"
| "valid_op h (NewInstance nw p) = (instances h nw = None \<and> classes h p \<noteq> None)"
| "valid_op h (CopyInstance nw i) = (instances h nw = None \<and> instances h i \<noteq> None)"
| "valid_op h (PutField i key val) = (instances h i \<noteq> None)"

lemma SetAttributes_ok:
  assumes ok: "class_ok E c"
  shows "\<exists>c' b. SetAttributes E c key val = Some (c', b) \<and> class_ok E c' \<and> cbase c' = cbase c \<and> locked c' = locked c
     \<and> length (defaultvalues c') = length (defaultvalues c)"
proof (cases "tabs (cmembers c) key")
  case (Some v)
  show ?thesis
    using class_ok_member_idx(1,2)[OF ok Some]
    by (cases "is_field v")
       (auto simp: SetAttributes_def class_lookup[OF ok] Some set_attrs_def intro: class_ok_same_shape[OF ok])
qed (use ok in \<open>simp add: SetAttributes_def class_lookup[OF ok] ex_bool_eq\<close>)

lemma InstanceSet_ok:
  assumes ok: "heap_ok E h" and x: "instances h i = Some x"
  shows "\<exists>h' b. InstanceSet E h i key val = Some (h', b) \<and> heap_ok E h'"
proof -
  from heap_okD(4)[OF ok x] obtain c where c: "classes h (iclass x) = Some c" "locked c" "length (ivalues x) = length (defaultvalues c)" by blast
  note cok = heap_okD(1)[OF ok c(1)]
  show ?thesis
  proof (cases "\<exists>v. tabs (cmembers c) key = Some v \<and> is_field v")
    case True
    then obtain v where v: "tabs (cmembers c) key = Some v" "is_field v" by blast
    let ?h = "h\<lparr>instances := (instances h)(i \<mapsto> x\<lparr>ivalues := (ivalues x)[member_idx v := val]\<rparr>)\<rparr>"
    have "heap_ok E ?h" by (rule heap_ok_instances[OF ok]) (use c in \<open>auto split: if_splits\<close>)
    then show ?thesis using x c v class_ok_member_idx(1)[OF cok v] class_lookup[OF cok, of key] by (simp add: InstanceSet_def ex_bool_eq)
  next
    case False
    then show ?thesis using x c ok class_lookup[OF cok, of key] by (auto simp: InstanceSet_def split: option.splits)
  qed
qed

lemma CloneInstance_ok:
  assumes ok: "heap_ok E h" and x: "instances h i = Some x"
  shows "\<exists>h'. CloneInstance h nw i = Some h' \<and> heap_ok E h' \<and> instances h' = (instances h)(nw \<mapsto> x)"
proof -
  from heap_okD(4)[OF ok x] obtain c where c: "classes h (iclass x) = Some c" "locked c" "length (ivalues x) = length (defaultvalues c)" by blast
  let ?h = "h\<lparr>instances := (instances h)(nw \<mapsto> x)\<rparr>"
  have "CloneInstance h nw i = Some ?h" using x c by (cases x) (simp add: CloneInstance_def)
  moreover have "heap_ok E ?h" by (rule heap_ok_instances[OF ok]) (use c in \<open>auto split: if_splits\<close>)
  ultimately show ?thesis by simp
qed

lemma AddSlot_ok:
  assumes ok: "heap_ok E h" and v: "valid_op h (AddSlot p key val bstatic nw)"
  shows "\<exists>h'. class_step E (AddSlot p key val bstatic nw) h = Some h' \<and> heap_ok E h'"
proof -
  from v obtain c where c: "classes h p = Some c" by auto
  have clo: "\<forall>f. val = OClosure f \<longrightarrow> closures h f \<noteq> None" using v by auto
  have key: "key \<noteq> ONull" using v by simp
  from ClassNewSlot_ok[OF heap_okD(1)[OF ok c] key clo, of nw bstatic] obtain c' h' where
    c': "ClassNewSlot E nw c key val bstatic h = Some (c', slot_accepted c key val bstatic, h')" "class_ok E c'"
      "locked c' = locked c" "cbase c' = cbase c" "locked c \<longrightarrow> length (defaultvalues c') = length (defaultvalues c)"
      "classes h' = classes h" "instances h' = instances h" by blast
  have ends: "base_ends (classes h) (cbase c)"
    using heap_okD(2)[OF ok c] c by (auto elim: base_ends_SomeE)
  have "heap_ok E (h'\<lparr>classes := (classes h')(p \<mapsto> c')\<rparr>)"
    by (rule heap_ok_put[OF ok c'(2), of p]) (use c c' ends in auto)
  then show ?thesis using c c'(1) by simp
qed

text \<open>
  C19: The class and instance heap is memory safe and stays well formed.  On a heap in which every
  class is well formed, bases end, bases of locked classes are locked and every instance has one value per
  field of its locked class, every valid operation returns (it stays inside all arrays and its walks over
  bases end) and leads to such a heap again: no sequence of slot additions and instantiations can make
  an index recorded in a class point outside of an instance made earlier.
\<close>

theorem class_heap_stays_in_bounds:
  assumes "heap_ok E h" "valid_op h x"
  shows "\<exists>h'. class_step E x h = Some h' \<and> heap_ok E h'"
proof (cases x)
  case (NewClass nw base)
  have "\<And>b. base = Some b \<Longrightarrow> classes h b \<noteq> None" using assms(2) NewClass by auto
  from CreateClass_ok[OF assms(1) this] obtain c where
    c: "CreateClass E h base = Some c" "class_ok E c" "cbase c = base" "\<not> locked c" by blast
  have ends: "base_ends (classes h) base"
    using assms(2) heap_okD(2)[OF assms(1)] NewClass by (cases base) (auto intro: base_ends_None)
  have "heap_ok E (h\<lparr>classes := (classes h)(nw \<mapsto> c)\<rparr>)"
    by (rule heap_ok_put[OF assms(1) c(2), of nw]) (use c ends assms(2) NewClass in auto)
  then show ?thesis using NewClass c(1) by simp
next
  case (AddSlot p key val bstatic nw)
  then show ?thesis using AddSlot_ok[OF assms(1)] assms(2) by simp
next
  case (PutAttributes p key val)
  then obtain c where c: "classes h p = Some c" using assms(2) by auto
  from SetAttributes_ok[OF heap_okD(1)[OF assms(1) c], of key val] obtain c' b where
    c': "SetAttributes E c key val = Some (c', b)" "class_ok E c'" "cbase c' = cbase c" "locked c' = locked c"
      "length (defaultvalues c') = length (defaultvalues c)" by blast
  have "base_ends (classes h) (cbase c)"
    using heap_okD(2)[OF assms(1) c] c by (auto elim: base_ends_SomeE)
  then have "heap_ok E (h\<lparr>classes := (classes h)(p \<mapsto> c')\<rparr>)"
    by (intro heap_ok_put[OF assms(1) c'(2), of p]) (use c c' in auto)
  then show ?thesis using PutAttributes c c'(1) by simp
next
  case (NewInstance nw p)
  then obtain c where "classes h p = Some c" using assms(2) by auto
  from CreateInstance_ok[OF assms(1) this, of nw] assms(2) NewInstance show ?thesis by auto
next
  case (CopyInstance nw i)
  then obtain y where "instances h i = Some y" using assms(2) by auto
  from CloneInstance_ok[OF assms(1) this, of nw] CopyInstance show ?thesis by auto
next
  case (PutField i key val)
  then obtain y where "instances h i = Some y" using assms(2) by auto
  from InstanceSet_ok[OF assms(1) this, of key val] PutField show ?thesis by auto
qed

lemma class_heap_stays_in_bounds_witness:
  "\<exists>h. class_step \<lparr>strhash = (\<lambda>_. 0), schars = (\<lambda>_. ''x''), weak = (\<lambda>_. ONull), ctorname = OString 16\<rparr> (NewClass 8 None)
        \<lparr>classes = Map.empty, instances = Map.empty, closures = Map.empty\<rparr> = Some h
     \<and> heap_ok \<lparr>strhash = (\<lambda>_. 0), schars = (\<lambda>_. ''x''), weak = (\<lambda>_. ONull), ctorname = OString 16\<rparr> h"
  by (rule class_heap_stays_in_bounds) (simp_all add: heap_ok_def)

lemma inherits_locked:
  assumes "heap_ok E h" "inherits (classes h) q p" "classes h q = Some c" "locked c"
  shows "\<exists>d. classes h p = Some d \<and> locked d"
  using assms(2-4)
proof (induction arbitrary: c rule: inherits.induct)
  case (inherits_base q c0 b trg)
  then have "locked c0" by simp
  from heap_okD(3)[OF assms(1) inherits_base.hyps(1) this inherits_base.hyps(2)] inherits_base.IH show ?case by blast
qed auto

lemma InstanceGet_ok:
  assumes ok: "heap_ok E h" and x: "instances h i = Some x"
  shows "\<exists>r. InstanceGet E h i key = Some r"
proof -
  from heap_okD(4)[OF ok x] obtain c where c: "classes h (iclass x) = Some c" "length (ivalues x) = length (defaultvalues c)" by blast
  note cok = heap_okD(1)[OF ok c(1)]
  show ?thesis
    using class_ok_member_idx(1,2)[OF cok]
    by (cases "tabs (cmembers c) key") (auto simp: InstanceGet_def x c class_lookup[OF cok] get_member_def)
qed

text \<open>
  C26: Instances know their classes and freeze them.  For every instance \<open>InstanceOf\<close> returns and is true
  exactly for its class and the bases of it, reading any name stays inside the instance and its class, and each
  of these classes refuses new fields.
\<close>

theorem instances_freeze_their_classes:
  assumes "heap_ok E h" "instances h i = Some x"
  shows "InstanceOf h i trg = Some (inherits (classes h) (iclass x) trg)
     \<and> (\<exists>r. InstanceGet E h i key = Some r)
     \<and> (inherits (classes h) (iclass x) p \<longrightarrow>
         (\<exists>c. classes h p = Some c \<and> (\<not> is_callable val \<longrightarrow> ClassNewSlot E nw c key val False h = Some (c, False, h))))"
proof (intro conjI impI)
  from heap_okD(4)[OF assms] obtain c where c: "classes h (iclass x) = Some c" "locked c" by blast
  show "InstanceOf h i trg = Some (inherits (classes h) (iclass x) trg)"
    using instance_walk_ok[OF heap_okD(2)[OF assms(1) c(1)]] assms(2) by (simp add: InstanceOf_def)
  show "\<exists>r. InstanceGet E h i key = Some r" by (rule InstanceGet_ok[OF assms])
  assume "inherits (classes h) (iclass x) p"
  from inherits_locked[OF assms(1) this c]
  show "\<exists>c. classes h p = Some c \<and> (\<not> is_callable val \<longrightarrow> ClassNewSlot E nw c key val False h = Some (c, False, h))"
    by (auto simp: ClassNewSlot_def Let_def)
qed

lemma instances_freeze_their_classes_witness:
  "\<exists>E h. instances h 8 \<noteq> None \<and> InstanceOf h 8 24 = Some False \<and> InstanceOf h 8 16 = Some True
     \<and> (\<exists>c. classes h 16 = Some c \<and> ClassNewSlot E 1 c (OString 8) (OInteger 7) False h = Some (c, False, h))"
proof -
  let ?E = "\<lparr>strhash = (\<lambda>_. 0), schars = (\<lambda>_. ''x''), weak = (\<lambda>_. ONull), ctorname = OString 16\<rparr>"
  let ?h = "\<lparr>classes = [16 \<mapsto> new_class (CreateTable 0)], instances = Map.empty, closures = Map.empty\<rparr> :: classheap"
  have ends: "base_ends [16 \<mapsto> new_class (CreateTable 0)] (Some 16)"
    by (rule base_ends_Some[of _ _ "new_class (CreateTable 0)"]) (simp_all add: new_class_def base_ends_None)
  have ok: "heap_ok ?E ?h"
    using class_ok_new[of ?E] ends by (auto simp: heap_ok_def new_class_def split: if_splits)
  have c: "classes ?h 16 = Some (new_class (CreateTable 0))" "instances ?h 8 = None" by simp_all
  from CreateInstance_ok[OF ok c] obtain h' where
    h': "heap_ok ?E h'" "instances h' 8 = Some \<lparr>iclass = 16, ivalues = []\<rparr>" "more_locked (classes ?h) (classes h')"
    by (auto simp: new_class_def)
  from more_locked_Some[OF h'(3), of 16] obtain l where l: "classes h' 16 = Some ((new_class (CreateTable 0))\<lparr>locked := l\<rparr>)" by auto
  have "inherits (classes h') 16 16" by (rule inherits_refl)
  moreover have "\<not> inherits (classes h') 16 24"
  proof
    assume "inherits (classes h') 16 24"
    then show False by (cases rule: inherits.cases) (use l in \<open>auto simp: new_class_def\<close>)
  qed
  ultimately show ?thesis
    using instances_freeze_their_classes[OF h'(1,2), of 24 "OString 8" 16 "OInteger 7" 1]
      instances_freeze_their_classes[OF h'(1,2), of 16 "OString 8" 16 "OInteger 7" 1] h'(2)
    by (intro exI[of _ ?E] exI[of _ h']) (auto simp: is_callable_def)
qed

end
