(* ===== verification/GS_Access.thy ===== *)
theory GS_Access
  imports GS_Class GS_String GS_Array
begin

text \<open>
  Access to slots (GSvm.cpp): reading, writing, creating and deleting slots of any value, with
  delegation, metamethods, default delegates and the root table; cloning; iteration; namespaces.

  The heap maps addresses to tables (with their delegates), arrays, user data, classes and
  instances.  Calls of script functions, the creation of strings and the loading of imported
  files are operations of the environment and may change the whole heap.  A result has an outer
  option: None is a dangling pointer, or the end of the fuel that bounds the walk over delegates;
  inside, None is the value false of the code, whose error is in \<open>hlasterror\<close>.
\<close>

section \<open>The heap\<close>

record tableobj =
  ttab :: table
  tdelegate :: "ptr option"

datatype GSGeneratorState = eRunning | eSuspended | eDead

record 'w vmheap =
  htables :: "ptr \<Rightarrow> tableobj option"
  harrays :: "ptr \<Rightarrow> gsarray option"
  hudata :: "ptr \<Rightarrow> ptr option option"
  hclasses :: classheap
  hroottable :: ptr
  hclosure_root :: gsobj
  himports :: "ptr list"
  hlasterror :: "vmerr option"
  hworld :: 'w

datatype default_delegate =
    class_ddel | table_ddel | array_ddel | string_ddel | instance_ddel | number_ddel
  | generator_ddel | closure_ddel | thread_ddel | weakref_ddel

text \<open>\<open>acall\<close> is \<open>Call\<close> with \<open>raiseerror\<close> false: None is its result false.  \<open>aload\<close> opens, compiles and
  runs the file of an import; it answers whether the file could be opened.\<close>

record 'w accessenv =
  acls :: classenv
  amm :: "GSMetaMethod \<Rightarrow> gsobj"
  addel :: "default_delegate \<Rightarrow> ptr"
  acall :: "gsobj \<Rightarrow> gsobj list \<Rightarrow> 'w vmheap \<Rightarrow> gsobj option \<times> 'w vmheap"
  aload :: "ptr \<Rightarrow> 'w vmheap \<Rightarrow> bool \<times> 'w vmheap"
  astring :: "string \<Rightarrow> 'w vmheap \<Rightarrow> ptr \<times> 'w vmheap"
  aalloc :: "'w vmheap \<Rightarrow> ptr"
  afmt_g :: "gsfloat \<Rightarrow> string"
  agen_state :: "ptr \<Rightarrow> 'w vmheap \<Rightarrow> GSGeneratorState"
  agen_resume :: "ptr \<Rightarrow> 'w vmheap \<Rightarrow> gsobj \<times> 'w vmheap"

definition chars :: "'w accessenv \<Rightarrow> ptr \<Rightarrow> string" where
  "chars E p = schars (acls E) p"

definition tget :: "'w accessenv \<Rightarrow> table \<Rightarrow> gsobj \<Rightarrow> gsobj option option" where
  "tget E t key = TableGet (strhash (acls E)) (weak (acls E)) t key"

section \<open>Errors\<close>

definition PrintObjVal :: "'w accessenv \<Rightarrow> gsobj \<Rightarrow> string" where
  "PrintObjVal E v =
     (case v of
        OString p \<Rightarrow> chars E p
      | OInteger i \<Rightarrow> int_dec (sint i)
      | OFloat f \<Rightarrow> afmt_g E f
      | _ \<Rightarrow> GetTypeName v)"

definition raise_text :: "string \<Rightarrow> 'w vmheap \<Rightarrow> 'w vmheap" where
  "raise_text s h = h\<lparr>hlasterror := Some (ErrStr s)\<rparr>"

definition Raise_IdxError :: "'w accessenv \<Rightarrow> gsobj \<Rightarrow> 'w vmheap \<Rightarrow> 'w vmheap" where
  "Raise_IdxError E key h =
     raise_text (''the index '' @ [CHR 0x27] @ take 50 (PrintObjVal E key) @ [CHR 0x27] @ '' does not exist'') h"

definition no_error :: "'w vmheap \<Rightarrow> bool" where
  "no_error h = (hlasterror h = None \<or> hlasterror h = Some (ErrObj ONull))"

section \<open>Metamethods and default delegates\<close>

definition has_delegate_link :: "'w vmheap \<Rightarrow> gsobj \<Rightarrow> bool option" where
  "has_delegate_link h self =
     (case self of
        OTable p \<Rightarrow> map_option (\<lambda>t. tdelegate t \<noteq> None) (htables h p)
      | OUserData p \<Rightarrow> map_option (\<lambda>d. d \<noteq> None) (hudata h p)
      | OInstance p \<Rightarrow> map_option (\<lambda>_. True) (instances (hclasses h) p)
      | _ \<Rightarrow> Some False)"

definition delegate_of :: "'w vmheap \<Rightarrow> gsobj \<Rightarrow> ptr option option" where
  "delegate_of h self =
     (case self of
        OTable p \<Rightarrow> map_option tdelegate (htables h p)
      | OUserData p \<Rightarrow> hudata h p
      | _ \<Rightarrow> Some None)"

text \<open>\<open>GSDelegable::GetMetaMethod\<close>, overridden by \<open>GSInstance::GetMetaMethod\<close>.\<close>

definition get_metamethod :: "'w accessenv \<Rightarrow> 'w vmheap \<Rightarrow> gsobj \<Rightarrow> GSMetaMethod \<Rightarrow> gsobj option option" where
  "get_metamethod E h self mm =
     (case self of
        OInstance p \<Rightarrow> InstanceGetMetaMethod (hclasses h) p mm
      | _ \<Rightarrow>
          (case delegate_of h self of
             None \<Rightarrow> None
           | Some None \<Rightarrow> Some None
           | Some (Some d) \<Rightarrow> (case htables h d of None \<Rightarrow> None | Some t \<Rightarrow> tget E (ttab t) (amm E mm))))"

definition delegated_mm :: "'w accessenv \<Rightarrow> 'w vmheap \<Rightarrow> gsobj \<Rightarrow> GSMetaMethod \<Rightarrow> gsobj option option" where
  "delegated_mm E h self mm =
     (case has_delegate_link h self of
        None \<Rightarrow> None
      | Some False \<Rightarrow> Some None
      | Some True \<Rightarrow> get_metamethod E h self mm)"

definition ddel_of :: "gsobj \<Rightarrow> default_delegate option" where
  "ddel_of self =
     (case type_of self of
        OT_CLASS \<Rightarrow> Some class_ddel
      | OT_TABLE \<Rightarrow> Some table_ddel
      | OT_ARRAY \<Rightarrow> Some array_ddel
      | OT_STRING \<Rightarrow> Some string_ddel
      | OT_INSTANCE \<Rightarrow> Some instance_ddel
      | OT_INTEGER \<Rightarrow> Some number_ddel
      | OT_FLOAT \<Rightarrow> Some number_ddel
      | OT_BOOL \<Rightarrow> Some number_ddel
      | OT_GENERATOR \<Rightarrow> Some generator_ddel
      | OT_CLOSURE \<Rightarrow> Some closure_ddel
      | OT_NATIVECLOSURE \<Rightarrow> Some closure_ddel
      | OT_THREAD \<Rightarrow> Some thread_ddel
      | OT_WEAKREF \<Rightarrow> Some weakref_ddel
      | _ \<Rightarrow> None)"

definition InvokeDefaultDelegate :: "'w accessenv \<Rightarrow> 'w vmheap \<Rightarrow> gsobj \<Rightarrow> gsobj \<Rightarrow> gsobj option option" where
  "InvokeDefaultDelegate E h self key =
     (case ddel_of self of
        None \<Rightarrow> Some None
      | Some d \<Rightarrow> (case htables h (addel E d) of None \<Rightarrow> None | Some t \<Rightarrow> tget E (ttab t) key))"

section \<open>Reading a slot\<close>

datatype probe = Hit gsobj | Miss | BadIndex

definition probe_of :: "gsobj option \<Rightarrow> probe" where
  "probe_of r = (case r of None \<Rightarrow> Miss | Some v \<Rightarrow> Hit v)"

text \<open>The switch at the head of \<open>Get\<close>: the value's own slots.\<close>

definition own_slot :: "'w accessenv \<Rightarrow> 'w vmheap \<Rightarrow> gsobj \<Rightarrow> gsobj \<Rightarrow> probe option" where
  "own_slot E h self key =
     (case self of
        OTable p \<Rightarrow> (case htables h p of None \<Rightarrow> None | Some t \<Rightarrow> map_option probe_of (tget E (ttab t) key))
      | OArray p \<Rightarrow>
          if is_numeric key then
            (case harrays h p of
               None \<Rightarrow> None
             | Some a \<Rightarrow> Some (case ArrayGet (weak (acls E)) a (tointeger key) of Some v \<Rightarrow> Hit v | None \<Rightarrow> BadIndex))
          else Some Miss
      | OInstance p \<Rightarrow> map_option probe_of (InstanceGet (acls E) (hclasses h) p key)
      | OClass p \<Rightarrow>
          (case classes (hclasses h) p of None \<Rightarrow> None | Some c \<Rightarrow> map_option probe_of (ClassGet (acls E) c key))
      | OString p \<Rightarrow>
          if is_numeric key then
            (let n0 = tointeger key; len = of_nat (length (chars E p)); n = (if n0 <s 0 then n0 + len else n0) in
             Some (if 0 \<le>s n \<and> n <s len then Hit (OInteger (scast (of_char (chars E p ! unat n) :: 8 word))) else BadIndex))
          else Some Miss
      | _ \<Rightarrow> Some Miss)"

datatype fallback = FALLBACK_OK gsobj | FALLBACK_NO_MATCH | FALLBACK_ERROR

type_synonym 'w getter = "gsobj \<Rightarrow> gsobj \<Rightarrow> bool \<Rightarrow> bool \<Rightarrow> bool \<Rightarrow> 'w vmheap \<Rightarrow> (gsobj option \<times> 'w vmheap) option"

text \<open>The call of a metamethod in a fallback: a failure without an error is "not found".\<close>

definition call_fallback :: "'w accessenv \<Rightarrow> gsobj \<Rightarrow> gsobj list \<Rightarrow> 'w vmheap \<Rightarrow> fallback \<times> 'w vmheap" where
  "call_fallback E closure args h =
     (case acall E closure args h of
        (Some v, h1) \<Rightarrow> (FALLBACK_OK v, h1)
      | (None, h1) \<Rightarrow> (if no_error h1 then FALLBACK_NO_MATCH else FALLBACK_ERROR, h1))"

definition mm_fallback :: "'w accessenv \<Rightarrow> gsobj \<Rightarrow> GSMetaMethod \<Rightarrow> gsobj list \<Rightarrow> 'w vmheap \<Rightarrow> (fallback \<times> 'w vmheap) option" where
  "mm_fallback E self mm args h =
     (case get_metamethod E h self mm of
        None \<Rightarrow> None
      | Some None \<Rightarrow> Some (FALLBACK_NO_MATCH, h)
      | Some (Some closure) \<Rightarrow> Some (call_fallback E closure args h))"

definition FallBackGet :: "'w getter \<Rightarrow> 'w accessenv \<Rightarrow> gsobj \<Rightarrow> gsobj \<Rightarrow> 'w vmheap \<Rightarrow> (fallback \<times> 'w vmheap) option" where
  "FallBackGet get E self key h =
     (if type_of self = OT_TABLE \<or> type_of self = OT_USERDATA then
        (case delegate_of h self of
           None \<Rightarrow> None
         | Some None \<Rightarrow> Some (FALLBACK_NO_MATCH, h)
         | Some (Some d) \<Rightarrow>
             (case get (OTable d) key False True False h of
                None \<Rightarrow> None
              | Some (Some v, h1) \<Rightarrow> Some (FALLBACK_OK v, h1)
              | Some (None, h1) \<Rightarrow> mm_fallback E self MT_GET [self, key] h1))
      else if type_of self = OT_INSTANCE then mm_fallback E self MT_GET [self, key] h
      else Some (FALLBACK_NO_MATCH, h))"

text \<open>\<open>ResolveNamespaceTable\<close>: the path is split at slashes into names of at most 255 characters.\<close>

fun resolve_path :: "'w getter \<Rightarrow> 'w accessenv \<Rightarrow> gsobj \<Rightarrow> string \<Rightarrow> string \<Rightarrow> 'w vmheap \<Rightarrow> (gsobj option \<times> 'w vmheap) option" where
  "resolve_path get E current buf [] h =
     (if buf = [] then Some (Some current, h)
      else case astring E buf h of (key, h1) \<Rightarrow> get current (OString key) False True False h1)"
| "resolve_path get E current buf (c # str) h =
     (if c = CHR ''/'' then
        (case astring E buf h of (key, h1) \<Rightarrow>
           (case get current (OString key) False True False h1 of
              Some (Some next_table, h2) \<Rightarrow> resolve_path get E next_table [] str h2
            | r \<Rightarrow> r))
      else resolve_path get E current (if length buf < 255 then buf @ [c] else buf) str h)"

definition ResolveNamespaceTable :: "'w getter \<Rightarrow> 'w accessenv \<Rightarrow> gsobj \<Rightarrow> ptr \<Rightarrow> 'w vmheap \<Rightarrow> (gsobj option \<times> 'w vmheap) option" where
  "ResolveNamespaceTable get E root namespace_str h = resolve_path get E root [] (chars E namespace_str) h"

definition import_path :: "string \<Rightarrow> string" where
  "import_path s = take 1019 s @ ''.gs''"

datatype import_result = ImpFound gsobj | ImpFail | ImpNone

text \<open>The import fallback of \<open>Get\<close>: every import of the running closure is resolved, if need be loaded, and
  searched.\<close>

fun import_loop :: "'w getter \<Rightarrow> 'w accessenv \<Rightarrow> gsobj \<Rightarrow> ptr list \<Rightarrow> 'w vmheap \<Rightarrow> (import_result \<times> 'w vmheap) option" where
  "import_loop get E key [] h = Some (ImpNone, h)"
| "import_loop get E key (imp # imps) h =
     (case ResolveNamespaceTable get E (OTable (hroottable h)) imp h of
        None \<Rightarrow> None
      | Some (r, h1) \<Rightarrow>
          (let (opened, h2) = (if r = None then aload E imp h1 else (True, h1)) in
           if \<not> opened then
             Some (ImpFail, raise_text (''cannot load imported module '' @ [CHR 0x27] @ chars E imp @ [CHR 0x27]
                      @ '' (file not found: '' @ import_path (chars E imp) @ '')'') h2)
           else case ResolveNamespaceTable get E (OTable (hroottable h2)) imp h2 of
               None \<Rightarrow> None
             | Some (None, h3) \<Rightarrow>
                 Some (ImpFail, raise_text (''module '' @ [CHR 0x27] @ chars E imp @ [CHR 0x27]
                          @ '' was loaded but did not declare the expected namespace'') h3)
             | Some (Some target_table, h3) \<Rightarrow>
                 (let root_obj = (if hclosure_root h3 \<noteq> ONull then hclosure_root h3 else OTable (hroottable h3)) in
                  case get root_obj key False True False h3 of
                    None \<Rightarrow> None
                  | Some (Some v, h4) \<Rightarrow> Some (ImpFound v, h4)
                  | Some (None, h4) \<Rightarrow>
                      (case get target_table key False True False h4 of
                         None \<Rightarrow> None
                       | Some (Some v, h5) \<Rightarrow> Some (ImpFound v, h5)
                       | Some (None, h5) \<Rightarrow> import_loop get E key imps h5))))"

definition missing_slot :: "'w accessenv \<Rightarrow> gsobj \<Rightarrow> bool \<Rightarrow> 'w vmheap \<Rightarrow> (gsobj option \<times> 'w vmheap) option" where
  "missing_slot E key noerr h = Some (None, if noerr then h else Raise_IdxError E key h)"

text \<open>The end of \<open>Get\<close> for \<open>selfidx\<close> 0: the root of the running closure, then its imports.\<close>

definition root_fallback :: "'w getter \<Rightarrow> 'w accessenv \<Rightarrow> gsobj \<Rightarrow> bool \<Rightarrow> 'w vmheap \<Rightarrow> (gsobj option \<times> 'w vmheap) option" where
  "root_fallback get E key noerr h =
     (case (if hclosure_root h \<noteq> ONull then get (hclosure_root h) key False False False h else Some (None, h)) of
        None \<Rightarrow> None
      | Some (Some v, h1) \<Rightarrow> Some (Some v, h1)
      | Some (None, h1) \<Rightarrow>
          (case import_loop get E key (himports h1) h1 of
             None \<Rightarrow> None
           | Some (ImpFound v, h2) \<Rightarrow> Some (Some v, h2)
           | Some (ImpFail, h2) \<Rightarrow> Some (None, h2)
           | Some (ImpNone, h2) \<Rightarrow> missing_slot E key noerr h2))"

text \<open>\<open>GSVM::Get\<close>; \<open>raw\<close> and \<open>noerr\<close> are the flags, \<open>root\<close> says that \<open>selfidx\<close> is 0.\<close>

primrec VGet :: "nat \<Rightarrow> 'w accessenv \<Rightarrow> 'w getter" where
  "VGet 0 E = (\<lambda>self key raw noerr root h. None)"
| "VGet (Suc n) E = (\<lambda>self key raw noerr root h.
     case own_slot E h self key of
       None \<Rightarrow> None
     | Some (Hit v) \<Rightarrow> Some (Some v, h)
     | Some BadIndex \<Rightarrow> missing_slot E key noerr h
     | Some Miss \<Rightarrow>
         (case (if raw then Some (FALLBACK_NO_MATCH, h) else FallBackGet (VGet n E) E self key h) of
            None \<Rightarrow> None
          | Some (FALLBACK_OK v, h1) \<Rightarrow> Some (Some v, h1)
          | Some (FALLBACK_ERROR, h1) \<Rightarrow> Some (None, h1)
          | Some (FALLBACK_NO_MATCH, h1) \<Rightarrow>
              (case (if raw then Some None else InvokeDefaultDelegate E h1 self key) of
                 None \<Rightarrow> None
               | Some (Some v) \<Rightarrow> Some (Some v, h1)
               | Some None \<Rightarrow> if root then root_fallback (VGet n E) E key noerr h1 else missing_slot E key noerr h1)))"

section \<open>Writing a slot\<close>

definition put_table :: "ptr \<Rightarrow> table \<Rightarrow> 'w vmheap \<Rightarrow> 'w vmheap" where
  "put_table p t h = h\<lparr>htables := (htables h)(p := map_option (\<lambda>x. x\<lparr>ttab := t\<rparr>) (htables h p))\<rparr>"

definition table_set :: "'w accessenv \<Rightarrow> ptr \<Rightarrow> gsobj \<Rightarrow> gsobj \<Rightarrow> 'w vmheap \<Rightarrow> (bool \<times> 'w vmheap) option" where
  "table_set E p key val h =
     (case htables h p of
        None \<Rightarrow> None
      | Some t \<Rightarrow> map_option (\<lambda>(t', ok). (ok, put_table p t' h)) (TableSet (strhash (acls E)) (ttab t) key val))"

type_synonym 'w setter = "gsobj \<Rightarrow> gsobj \<Rightarrow> gsobj \<Rightarrow> bool \<Rightarrow> 'w vmheap \<Rightarrow> (bool \<times> 'w vmheap) option"

definition FallBackSet :: "'w setter \<Rightarrow> 'w accessenv \<Rightarrow> gsobj \<Rightarrow> gsobj \<Rightarrow> gsobj \<Rightarrow> 'w vmheap \<Rightarrow> (fallback \<times> 'w vmheap) option" where
  "FallBackSet vset E self key val h =
     (let delegated = (if type_of self = OT_TABLE then
             (case delegate_of h self of
                None \<Rightarrow> None
              | Some None \<Rightarrow> Some (False, h)
              | Some (Some d) \<Rightarrow> vset (OTable d) key val False h)
           else Some (False, h)) in
      case delegated of
        None \<Rightarrow> None
      | Some (True, h1) \<Rightarrow> Some (FALLBACK_OK ONull, h1)
      | Some (False, h1) \<Rightarrow>
          if type_of self = OT_TABLE \<or> type_of self = OT_INSTANCE \<or> type_of self = OT_USERDATA
          then mm_fallback E self MT_SET [self, key, val] h1
          else Some (FALLBACK_NO_MATCH, h1))"

text \<open>The switch at the head of \<open>Set\<close>: Some is its result, None that it falls back.\<close>

definition own_set :: "'w accessenv \<Rightarrow> gsobj \<Rightarrow> gsobj \<Rightarrow> gsobj \<Rightarrow> 'w vmheap \<Rightarrow> (bool option \<times> 'w vmheap) option" where
  "own_set E self key val h =
     (case self of
        OTable p \<Rightarrow> map_option (\<lambda>(ok, h1). (if ok then Some True else None, h1)) (table_set E p key val h)
      | OInstance p \<Rightarrow>
          map_option (\<lambda>(ch, ok). (if ok then Some True else None, h\<lparr>hclasses := ch\<rparr>))
            (InstanceSet (acls E) (hclasses h) p key val)
      | OArray p \<Rightarrow>
          if \<not> is_numeric key then
            Some (Some False, raise_text (''indexing '' @ GetTypeName self @ '' with '' @ GetTypeName key) h)
          else (case harrays h p of
                  None \<Rightarrow> None
                | Some a \<Rightarrow>
                    (case ArraySet a (tointeger key) val of
                       None \<Rightarrow> Some (Some False, Raise_IdxError E key h)
                     | Some a' \<Rightarrow> Some (Some True, h\<lparr>harrays := (harrays h)(p \<mapsto> a')\<rparr>)))
      | OUserData p \<Rightarrow> Some (None, h)
      | _ \<Rightarrow> Some (Some False, raise_text (''trying to set '' @ [CHR 0x27] @ GetTypeName self @ [CHR 0x27]) h))"

primrec VSet :: "nat \<Rightarrow> 'w accessenv \<Rightarrow> 'w setter" where
  "VSet 0 E = (\<lambda>self key val root h. None)"
| "VSet (Suc n) E = (\<lambda>self key val root h.
     case own_set E self key val h of
       None \<Rightarrow> None
     | Some (Some ok, h1) \<Rightarrow> Some (ok, h1)
     | Some (None, h1) \<Rightarrow>
         (case FallBackSet (VSet n E) E self key val h1 of
            None \<Rightarrow> None
          | Some (FALLBACK_OK _, h2) \<Rightarrow> Some (True, h2)
          | Some (FALLBACK_ERROR, h2) \<Rightarrow> Some (False, h2)
          | Some (FALLBACK_NO_MATCH, h2) \<Rightarrow>
              (case (if root then table_set E (hroottable h2) key val h2 else Some (False, h2)) of
                 None \<Rightarrow> None
               | Some (True, h3) \<Rightarrow> Some (True, h3)
               | Some (False, h3) \<Rightarrow> Some (False, Raise_IdxError E key h3))))"

section \<open>Creating and deleting slots, cloning\<close>

definition table_newslot :: "'w accessenv \<Rightarrow> ptr \<Rightarrow> gsobj \<Rightarrow> gsobj \<Rightarrow> 'w vmheap \<Rightarrow> 'w vmheap option" where
  "table_newslot E p key val h =
     (case htables h p of
        None \<Rightarrow> None
      | Some t \<Rightarrow> map_option (\<lambda>(t', _). put_table p t' h) (NewSlot (strhash (acls E)) (ttab t) key val))"

definition CallMetaMethod :: "'w accessenv \<Rightarrow> gsobj \<Rightarrow> gsobj list \<Rightarrow> 'w vmheap \<Rightarrow> bool \<times> 'w vmheap" where
  "CallMetaMethod E closure args h = (case acall E closure args h of (r, h1) \<Rightarrow> (r \<noteq> None, h1))"

definition VNewSlot :: "'w accessenv \<Rightarrow> gsobj \<Rightarrow> gsobj \<Rightarrow> gsobj \<Rightarrow> bool \<Rightarrow> 'w vmheap \<Rightarrow> (bool \<times> 'w vmheap) option" where
  "VNewSlot E self key val bstatic h =
     (if key = ONull then Some (False, raise_text ''null cannot be used as index'' h)
      else case self of
        OTable p \<Rightarrow>
          (case htables h p of
             None \<Rightarrow> None
           | Some t \<Rightarrow>
               let raw = map_option (\<lambda>h1. (True, h1)) (table_newslot E p key val h) in
               if tdelegate t = None then raw
               else case tget E (ttab t) key of
                   None \<Rightarrow> None
                 | Some (Some _) \<Rightarrow> raw
                 | Some None \<Rightarrow>
                     (case delegated_mm E h self MT_NEWSLOT of
                        None \<Rightarrow> None
                      | Some None \<Rightarrow> raw
                      | Some (Some closure) \<Rightarrow> Some (CallMetaMethod E closure [self, key, val] h)))
      | OInstance p \<Rightarrow>
          (case delegated_mm E h self MT_NEWSLOT of
             None \<Rightarrow> None
           | Some (Some closure) \<Rightarrow> Some (CallMetaMethod E closure [self, key, val] h)
           | Some None \<Rightarrow> Some (False, raise_text ''class instances do not support the new slot operator'' h))
      | OClass p \<Rightarrow>
          (case classes (hclasses h) p of
             None \<Rightarrow> None
           | Some c \<Rightarrow>
               (case ClassNewSlot (acls E) (aalloc E h) c key val bstatic (hclasses h) of
                  None \<Rightarrow> None
                | Some (c', ok, ch) \<Rightarrow>
                    let h1 = h\<lparr>hclasses := ch\<lparr>classes := (classes ch)(p \<mapsto> c')\<rparr>\<rparr> in
                    if ok then Some (True, h1)
                    else if locked c' then
                      Some (False, raise_text ''trying to modify a class that has already been instantiated'' h1)
                    else Some (False, raise_text (''the property '' @ [CHR 0x27] @ PrintObjVal E key @ [CHR 0x27] @ '' already exists'') h1)))
      | _ \<Rightarrow> Some (False, raise_text (''indexing '' @ GetTypeName self @ '' with '' @ GetTypeName key) h))"

definition VNewSlotA :: "'w accessenv \<Rightarrow> gsobj \<Rightarrow> gsobj \<Rightarrow> gsobj \<Rightarrow> gsobj \<Rightarrow> bool \<Rightarrow> bool \<Rightarrow> 'w vmheap \<Rightarrow> (bool \<times> 'w vmheap) option" where
  "VNewSlotA E self key val attrs bstatic raw h =
     (case self of
        OClass p \<Rightarrow>
          (case classes (hclasses h) p of
             None \<Rightarrow> None
           | Some c \<Rightarrow>
               if \<not> raw \<and> metamethods c MT_NEWMEMBER \<noteq> ONull then
                 Some (CallMetaMethod E (metamethods c MT_NEWMEMBER) [self, key, val, attrs, OBool bstatic] h)
               else case VNewSlot E self key val bstatic h of
                   None \<Rightarrow> None
                 | Some (False, h1) \<Rightarrow> Some (False, h1)
                 | Some (True, h1) \<Rightarrow>
                     if attrs = ONull then Some (True, h1)
                     else case classes (hclasses h1) p of
                         None \<Rightarrow> None
                       | Some c1 \<Rightarrow>
                           map_option (\<lambda>(c2, _). (True, h1\<lparr>hclasses := (hclasses h1)\<lparr>classes := (classes (hclasses h1))(p \<mapsto> c2)\<rparr>\<rparr>))
                             (SetAttributes (acls E) c1 key attrs))
      | _ \<Rightarrow> Some (False, raise_text ''object must be a class'' h))"

definition VDeleteSlot :: "'w accessenv \<Rightarrow> gsobj \<Rightarrow> gsobj \<Rightarrow> 'w vmheap \<Rightarrow> (gsobj option \<times> 'w vmheap) option" where
  "VDeleteSlot E self key h =
     (if type_of self = OT_TABLE \<or> type_of self = OT_INSTANCE \<or> type_of self = OT_USERDATA then
        (case delegated_mm E h self MT_DELSLOT of
           None \<Rightarrow> None
         | Some (Some closure) \<Rightarrow> Some (acall E closure [self, key] h)
         | Some None \<Rightarrow>
             (case self of
                OTable p \<Rightarrow>
                  (case htables h p of
                     None \<Rightarrow> None
                   | Some t \<Rightarrow>
                       (case tget E (ttab t) key of
                          None \<Rightarrow> None
                        | Some None \<Rightarrow> Some (None, Raise_IdxError E key h)
                        | Some (Some v) \<Rightarrow>
                            map_option (\<lambda>t'. (Some v, put_table p t' h)) (TableRemove (strhash (acls E)) (ttab t) key)))
              | _ \<Rightarrow> Some (None, raise_text (''cannot delete a slot from '' @ GetTypeName self) h)))
      else Some (None, raise_text (''attempt to delete a slot from a '' @ GetTypeName self) h))"

text \<open>\<open>Clone\<close>; a cloned table keeps its delegate.\<close>

definition VClone :: "'w accessenv \<Rightarrow> gsobj \<Rightarrow> 'w vmheap \<Rightarrow> (gsobj option \<times> 'w vmheap) option" where
  "VClone E self h =
     (let nw = aalloc E h;
          cloned = (\<lambda>newobj h1.
             case delegated_mm E h1 newobj MT_CLONED of
               None \<Rightarrow> None
             | Some None \<Rightarrow> Some (Some newobj, h1)
             | Some (Some closure) \<Rightarrow>
                 (case CallMetaMethod E closure [newobj, self] h1 of
                    (ok, h2) \<Rightarrow> Some (if ok then Some newobj else None, h2))) in
      case self of
        OTable p \<Rightarrow>
          (case htables h p of
             None \<Rightarrow> None
           | Some t \<Rightarrow>
               (case TableClone (strhash (acls E)) (ttab t) of
                  None \<Rightarrow> None
                | Some t' \<Rightarrow> cloned (OTable nw) (h\<lparr>htables := (htables h)(nw \<mapsto> \<lparr>ttab = t', tdelegate = tdelegate t\<rparr>)\<rparr>)))
      | OInstance p \<Rightarrow>
          (case CloneInstance (hclasses h) nw p of
             None \<Rightarrow> None
           | Some ch \<Rightarrow> cloned (OInstance nw) (h\<lparr>hclasses := ch\<rparr>))
      | OArray p \<Rightarrow>
          (case harrays h p of
             None \<Rightarrow> None
           | Some a \<Rightarrow> Some (Some (OArray nw), h\<lparr>harrays := (harrays h)(nw \<mapsto> ArrayClone a)\<rparr>))
      | _ \<Rightarrow> Some (None, raise_text (''cloning a '' @ GetTypeName self) h))"

section \<open>Namespaces\<close>

text \<open>\<open>BuildNamespaceTables\<close>: the tables on the way delegate to the root table, the last one does not.\<close>

definition namespace_step :: "'w getter \<Rightarrow> 'w accessenv \<Rightarrow> bool \<Rightarrow> gsobj \<Rightarrow> string \<Rightarrow> 'w vmheap \<Rightarrow> (gsobj \<times> 'w vmheap) option" where
  "namespace_step get E inner current buf h =
     (case astring E buf h of (key, h1) \<Rightarrow>
        (case get current (OString key) False True False h1 of
           None \<Rightarrow> None
         | Some (Some next_table, h2) \<Rightarrow> Some (next_table, h2)
         | Some (None, h2) \<Rightarrow>
             (let nw = aalloc E h2;
                  h3 = h2\<lparr>htables := (htables h2)(nw \<mapsto>
                         \<lparr>ttab = CreateTable 0, tdelegate = (if inner then Some (hroottable h2) else None)\<rparr>)\<rparr> in
              map_option (\<lambda>(_, h4). (OTable nw, h4)) (VNewSlot E current (OString key) (OTable nw) False h3))))"

fun build_path :: "'w getter \<Rightarrow> 'w accessenv \<Rightarrow> gsobj \<Rightarrow> string \<Rightarrow> string \<Rightarrow> 'w vmheap \<Rightarrow> (gsobj \<times> 'w vmheap) option" where
  "build_path get E current buf [] h =
     (if buf = [] then Some (current, h) else namespace_step get E False current buf h)"
| "build_path get E current buf (c # str) h =
     (if c = CHR ''/'' then
        (case namespace_step get E True current buf h of
           None \<Rightarrow> None
         | Some (next_table, h1) \<Rightarrow> build_path get E next_table [] str h1)
      else build_path get E current (if length buf < 255 then buf @ [c] else buf) str h)"

definition BuildNamespaceTables :: "'w getter \<Rightarrow> 'w accessenv \<Rightarrow> gsobj \<Rightarrow> ptr \<Rightarrow> 'w vmheap \<Rightarrow> (gsobj \<times> 'w vmheap) option" where
  "BuildNamespaceTables get E root namespace_str h = build_path get E root [] (chars E namespace_str) h"

section \<open>Iteration\<close>

text \<open>\<open>FOREACH_OP\<close>: the registers of key, value and position, and the distance to jump; None is an error.\<close>

definition FOREACH_OP ::
    "'w getter \<Rightarrow> 'w accessenv \<Rightarrow> gsobj \<Rightarrow> gsobj \<times> gsobj \<times> gsobj \<Rightarrow> int \<Rightarrow> 'w vmheap
       \<Rightarrow> (((gsobj \<times> gsobj \<times> gsobj) \<times> int) option \<times> 'w vmheap) option" where
  "FOREACH_OP get E o1 regs exitpos h =
     (case regs of (o2, o3, o4) \<Rightarrow>
        let finish = (\<lambda>nxt :: (int \<times> gsobj \<times> gsobj) option. case nxt of
               None \<Rightarrow> Some (Some (regs, exitpos), h)
             | Some (nrefidx, k, v) \<Rightarrow> Some (Some ((k, v, OInteger (word_of_int nrefidx)), 1), h));
            fromnat = (\<lambda>nxt :: (nat \<times> gsobj \<times> gsobj) option. finish (map_option (\<lambda>(i, k, v). (int i, k, v)) nxt)) in
        case o1 of
          OTable p \<Rightarrow> (case htables h p of None \<Rightarrow> None | Some t \<Rightarrow> fromnat (TableNext (weak (acls E)) False (ttab t) o4))
        | OArray p \<Rightarrow> (case harrays h p of None \<Rightarrow> None | Some a \<Rightarrow> fromnat (ArrayNext (weak (acls E)) a o4))
        | OString p \<Rightarrow> finish (StringNext (chars E p) o4)
        | OClass p \<Rightarrow>
            (case classes (hclasses h) p of
               None \<Rightarrow> None
             | Some c \<Rightarrow> (case ClassNext (acls E) c o4 of None \<Rightarrow> None | Some nxt \<Rightarrow> fromnat nxt))
        | OGenerator p \<Rightarrow>
            (case agen_state E p h of
               eDead \<Rightarrow> Some (Some (regs, exitpos), h)
             | eSuspended \<Rightarrow>
                 (let idx = (case o4 of OInteger i \<Rightarrow> OInteger (i + 1) | _ \<Rightarrow> OInteger 0) in
                  case agen_resume E p h of (v, h1) \<Rightarrow> Some (Some ((idx, v, idx), 0), h1))
             | eRunning \<Rightarrow> Some (None, raise_text (''cannot iterate '' @ GetTypeName o1) h))
        | _ \<Rightarrow>
            if type_of o1 = OT_USERDATA \<or> type_of o1 = OT_INSTANCE then
              (case has_delegate_link h o1 of
                 None \<Rightarrow> None
               | Some False \<Rightarrow> Some (None, h)
               | Some True \<Rightarrow>
                   (case get_metamethod E h o1 MT_NEXTI of
                      None \<Rightarrow> None
                    | Some None \<Rightarrow> Some (None, raise_text ''_nexti failed'' h)
                    | Some (Some closure) \<Rightarrow>
                        (case acall E closure [o1, o4] h of
                           (None, h1) \<Rightarrow> Some (None, h1)
                         | (Some itr, h1) \<Rightarrow>
                             if itr = ONull then Some (Some ((itr, o3, itr), exitpos), h1)
                             else case get o1 itr False False False h1 of
                                 None \<Rightarrow> None
                               | Some (None, h2) \<Rightarrow> Some (None, raise_text ''_nexti returned an invalid idx'' h2)
                               | Some (Some v, h2) \<Rightarrow> Some (Some ((itr, v, itr), 1), h2))))
            else Some (None, raise_text (''cannot iterate '' @ GetTypeName o1) h))"

section \<open>Tables in the heap\<close>

definition tables_ok :: "'w accessenv \<Rightarrow> 'w vmheap \<Rightarrow> bool" where
  "tables_ok E h = (\<forall>p t. htables h p = Some t \<longrightarrow> table_ok (strhash (acls E)) (ttab t))"

lemma tables_okD: "tables_ok E h \<Longrightarrow> htables h p = Some t \<Longrightarrow> table_ok (strhash (acls E)) (ttab t)"
  by (simp add: tables_ok_def)

lemma tget_tabs:
  "tables_ok E h \<Longrightarrow> htables h p = Some t \<Longrightarrow> tget E (ttab t) key = Some (map_option (realval (weak (acls E))) (tabs (ttab t) key))"
  unfolding tget_def by (rule TableGet_spec) (rule tables_okD)

text \<open>The value a name has along a chain of delegates, when no metamethod takes part: the nearest binding.\<close>

inductive chain_value :: "'w accessenv \<Rightarrow> 'w vmheap \<Rightarrow> gsobj \<Rightarrow> ptr \<Rightarrow> gsobj option \<Rightarrow> bool" for E h key where
  cv_here: "htables h p = Some t \<Longrightarrow> tabs (ttab t) key = Some v \<Longrightarrow> chain_value E h key p (Some (realval (weak (acls E)) v))"
| cv_end: "htables h p = Some t \<Longrightarrow> tabs (ttab t) key = None \<Longrightarrow> tdelegate t = None \<Longrightarrow> chain_value E h key p None"
| cv_up: "htables h p = Some t \<Longrightarrow> tabs (ttab t) key = None \<Longrightarrow> tdelegate t = Some d \<Longrightarrow> htables h d = Some td
     \<Longrightarrow> tabs (ttab td) (amm E MT_GET) = None \<Longrightarrow> chain_value E h key d r \<Longrightarrow> chain_value E h key p r"

definition default_slot :: "'w accessenv \<Rightarrow> tableobj \<Rightarrow> gsobj \<Rightarrow> gsobj option" where
  "default_slot E dt key = map_option (realval (weak (acls E))) (tabs (ttab dt) key)"

lemma own_slot_table:
  assumes "tables_ok E h" "htables h p = Some t"
  shows "own_slot E h (OTable p) key = Some (probe_of (map_option (realval (weak (acls E))) (tabs (ttab t) key)))"
  using assms tget_tabs[OF assms, of key] by (simp add: own_slot_def)

lemma VGet_chain:
  assumes ok: "tables_ok E h" and dd: "htables h (addel E table_ddel) = Some dt"
  shows "chain_value E h key p r \<Longrightarrow>
     \<exists>n. \<forall>m \<ge> n. \<forall>noerr. VGet m E (OTable p) key False noerr False h =
       (case (case r of Some v \<Rightarrow> Some v | None \<Rightarrow> default_slot E dt key) of
          Some v \<Rightarrow> Some (Some v, h)
        | None \<Rightarrow> missing_slot E key noerr h)"
proof (induction rule: chain_value.induct)
  case (cv_here p t v)
  show ?case
    by (intro exI[of _ 1] allI impI)
       (auto simp: own_slot_table[OF ok cv_here(1)] cv_here(2) probe_of_def less_eq_Suc_le[symmetric] dest!: less_imp_Suc_add)
next
  case (cv_end p t)
  have d: "InvokeDefaultDelegate E h (OTable p) key = Some (default_slot E dt key)"
    using dd tget_tabs[OF ok dd] by (simp add: InvokeDefaultDelegate_def ddel_of_def default_slot_def)
  show ?case
    by (intro exI[of _ 1] allI impI)
       (auto simp: own_slot_table[OF ok cv_end(1)] cv_end d probe_of_def FallBackGet_def delegate_of_def
          less_eq_Suc_le[symmetric] dest!: less_imp_Suc_add split: option.splits)
next
  case (cv_up p t d td r)
  then obtain n where n: "\<And>m noerr. n \<le> m \<Longrightarrow> VGet m E (OTable d) key False noerr False h =
       (case (case r of Some v \<Rightarrow> Some v | None \<Rightarrow> default_slot E dt key) of
          Some v \<Rightarrow> Some (Some v, h) | None \<Rightarrow> missing_slot E key noerr h)" by blast
  have dl: "InvokeDefaultDelegate E h (OTable p) key = Some (default_slot E dt key)"
    using dd tget_tabs[OF ok dd] by (simp add: InvokeDefaultDelegate_def ddel_of_def default_slot_def)
  have mm: "get_metamethod E h (OTable p) MT_GET = Some None"
    using cv_up.hyps tget_tabs[OF ok cv_up.hyps(4)] by (simp add: get_metamethod_def delegate_of_def)
  show ?case
  proof (intro exI[of _ "Suc n"] allI impI)
    fix m noerr assume "Suc n \<le> m"
    then obtain k where k: "m = Suc k" "n \<le> k" by (cases m) auto
    show "VGet m E (OTable p) key False noerr False h =
       (case (case r of Some v \<Rightarrow> Some v | None \<Rightarrow> default_slot E dt key) of
          Some v \<Rightarrow> Some (Some v, h) | None \<Rightarrow> missing_slot E key noerr h)"
      using cv_up.hyps
      by (cases r; cases "default_slot E dt key")
         (simp_all add: k n own_slot_table[OF ok cv_up.hyps(1)] probe_of_def FallBackGet_def delegate_of_def dl
            mm_fallback_def mm missing_slot_def)
  qed
qed

text \<open>
  C16: Reading a name of a table.  With a chain of delegates that ends and no \<open>_get\<close> metamethod on the
  way, \<open>Get\<close> returns (enough fuel is given by the length of the chain) and answers the binding in the
  nearest table of the chain that has one, else the default delegate's, else an index error if errors are
  wanted; it changes nothing else.
\<close>

theorem Get_follows_delegates:
  assumes "tables_ok E h" "htables h (addel E table_ddel) = Some dt" "chain_value E h key p r"
  shows "\<exists>n. \<forall>m \<ge> n. VGet m E (OTable p) key False noerr False h =
       (case (case r of Some v \<Rightarrow> Some v | None \<Rightarrow> default_slot E dt key) of
          Some v \<Rightarrow> Some (Some v, h)
        | None \<Rightarrow> Some (None, if noerr then h else Raise_IdxError E key h))"
  using VGet_chain[OF assms] unfolding missing_slot_def by blast

definition sample_env :: "unit accessenv" where
  "sample_env =
     \<lparr>acls = \<lparr>strhash = (\<lambda>_. 0), schars = (\<lambda>p. if p = 8 then ''a/b'' else if p = 16 then ''a'' else ''b''),
              weak = (\<lambda>_. ONull), ctorname = ONull\<rparr>,
      amm = (\<lambda>_. OString 96), addel = (\<lambda>_. 900), acall = (\<lambda>_ _ h. (None, h)), aload = (\<lambda>_ h. (False, h)),
      astring = (\<lambda>s h. (if s = ''a'' then 16 else if s = ''b'' then 24 else 32, h)), aalloc = (\<lambda>_. 800),
      afmt_g = (\<lambda>_. []), agen_state = (\<lambda>_ _. eDead), agen_resume = (\<lambda>_ h. (ONull, h))\<rparr>"

text \<open>Table 100 delegates to table 200, which holds the name 24; the default delegate 900 is empty.\<close>

definition one_slot :: "gsobj \<Rightarrow> gsobj \<Rightarrow> table" where
  "one_slot key v = (case NewSlot (\<lambda>_. 0) (CreateTable 0) key v of Some (t, _) \<Rightarrow> t | None \<Rightarrow> CreateTable 0)"

definition sample_heap :: "unit vmheap" where
  "sample_heap =
     \<lparr>htables = [100 \<mapsto> \<lparr>ttab = CreateTable 0, tdelegate = Some 200\<rparr>,
                 200 \<mapsto> \<lparr>ttab = one_slot (OString 24) (OTable 5), tdelegate = None\<rparr>,
                 5 \<mapsto> \<lparr>ttab = CreateTable 0, tdelegate = None\<rparr>,
                 900 \<mapsto> \<lparr>ttab = CreateTable 0, tdelegate = None\<rparr>],
      harrays = Map.empty, hudata = Map.empty,
      hclasses = \<lparr>classes = Map.empty, instances = Map.empty, closures = Map.empty\<rparr>,
      hroottable = 200, hclosure_root = ONull, himports = [], hlasterror = None, hworld = ()\<rparr>"

lemma one_slot_ok:
  assumes "key \<noteq> ONull"
  shows "table_ok (\<lambda>_. 0) (one_slot key v)" "tabs (one_slot key v) = [key \<mapsto> v]"
proof -
  from CreateTable_spec[of "\<lambda>_. 0" 0] have "table_ok (\<lambda>_. 0) (CreateTable 0)" "tabs (CreateTable 0) = Map.empty" by auto
  from NewSlot_spec[OF this(1) assms, of v] this(2)
  show "table_ok (\<lambda>_. 0) (one_slot key v)" "tabs (one_slot key v) = [key \<mapsto> v]"
    by (auto simp: one_slot_def)
qed

lemma sample_heap_ok: "tables_ok sample_env sample_heap"
  using CreateTable_spec[of "\<lambda>_. 0" 0] one_slot_ok[of "OString 24" "OTable 5"]
  by (auto simp: tables_ok_def sample_heap_def sample_env_def split: if_splits)

lemma Get_follows_delegates_witness:
  "\<exists>n. VGet n sample_env (OTable 100) (OString 24) False False False sample_heap = Some (Some (OTable 5), sample_heap)"
proof -
  have e: "tabs (CreateTable 0) = Map.empty" using CreateTable_spec[of "\<lambda>_. 0" 0] by simp
  have "chain_value sample_env sample_heap (OString 24) 200 (Some (realval (weak (acls sample_env)) (OTable 5)))"
    by (rule cv_here[of _ _ "\<lparr>ttab = one_slot (OString 24) (OTable 5), tdelegate = None\<rparr>"])
       (simp_all add: sample_heap_def one_slot_ok)
  then have c: "chain_value sample_env sample_heap (OString 24) 100 (Some (realval (weak (acls sample_env)) (OTable 5)))"
    by (rule cv_up[of _ _ "\<lparr>ttab = CreateTable 0, tdelegate = Some 200\<rparr>" _ 200 "\<lparr>ttab = one_slot (OString 24) (OTable 5), tdelegate = None\<rparr>", rotated 5])
       (simp_all add: sample_heap_def one_slot_ok e sample_env_def)
  have d: "htables sample_heap (addel sample_env table_ddel) = Some \<lparr>ttab = CreateTable 0, tdelegate = None\<rparr>"
    by (simp add: sample_heap_def sample_env_def)
  from Get_follows_delegates[OF sample_heap_ok d c, of False] show ?thesis
    by (auto simp: realval_def)
qed

text \<open>Writing: the nearest table of the chain that has the name.\<close>

inductive chain_owner :: "'w vmheap \<Rightarrow> gsobj \<Rightarrow> ptr \<Rightarrow> ptr \<Rightarrow> bool" for h key where
  co_here: "htables h p = Some t \<Longrightarrow> tabs (ttab t) key \<noteq> None \<Longrightarrow> chain_owner h key p p"
| co_up: "htables h p = Some t \<Longrightarrow> tabs (ttab t) key = None \<Longrightarrow> tdelegate t = Some d \<Longrightarrow> chain_owner h key d q
     \<Longrightarrow> chain_owner h key p q"

lemma put_table_same: "htables h p = Some t \<Longrightarrow> put_table p (ttab t) h = h"
  by (simp add: put_table_def fun_upd_idem)

lemma TableSet_missing:
  assumes "table_ok sh t" "key \<noteq> ONull" "tabs t key = None"
  shows "TableSet sh t key v = Some (t, False)"
  using TableSet_spec[OF assms(1,2), of v] assms(3)
  by (auto simp: TableSet_def domIff split: option.splits)

lemma tables_ok_put:
  assumes "tables_ok E h" "table_ok (strhash (acls E)) t"
  shows "tables_ok E (put_table p t h)"
  using assms by (auto simp: tables_ok_def put_table_def)

lemma chain_owner_owns: "chain_owner h key p q \<Longrightarrow> \<exists>t. htables h q = Some t \<and> tabs (ttab t) key \<noteq> None"
  by (induction rule: chain_owner.induct) auto

lemma VSet_chain:
  assumes ok: "tables_ok E h" and key: "key \<noteq> ONull"
    and co: "chain_owner h key p q"
    and tq: "htables h q = Some tq" and s: "TableSet (strhash (acls E)) (ttab tq) key val = Some (t', True)"
  shows "\<exists>n. \<forall>m \<ge> n. \<forall>root. VSet m E (OTable p) key val root h = Some (True, put_table q t' h)"
  using co tq s
proof (induction rule: chain_owner.induct)
  case (co_here p t)
  show ?case
    by (intro exI[of _ 1] allI impI)
       (use co_here in \<open>auto simp: own_set_def table_set_def less_eq_Suc_le[symmetric] dest!: less_imp_Suc_add\<close>)
next
  case (co_up p t d q)
  then obtain n where n: "\<And>m root. n \<le> m \<Longrightarrow> VSet m E (OTable d) key val root h = Some (True, put_table q t' h)" by blast
  have o: "own_set E (OTable p) key val h = Some (None, h)"
    using co_up.hyps TableSet_missing[OF tables_okD[OF ok co_up.hyps(1)] key co_up.hyps(2), of val] put_table_same[OF co_up.hyps(1)]
    by (simp add: own_set_def table_set_def)
  show ?case
  proof (intro exI[of _ "Suc n"] allI impI)
    fix m root assume "Suc n \<le> m"
    then obtain k where k: "m = Suc k" "n \<le> k" by (cases m) auto
    show "VSet m E (OTable p) key val root h = Some (True, put_table q t' h)"
      using co_up.hyps by (simp add: k n o FallBackSet_def delegate_of_def Let_def)
  qed
qed

text \<open>A chain of delegates that ends, on which no table has the name and no metamethod takes part.\<close>

inductive chain_lacks :: "'w accessenv \<Rightarrow> 'w vmheap \<Rightarrow> gsobj \<Rightarrow> ptr \<Rightarrow> bool" for E h key where
  cl_end: "htables h p = Some t \<Longrightarrow> tabs (ttab t) key = None \<Longrightarrow> tdelegate t = None \<Longrightarrow> chain_lacks E h key p"
| cl_up: "htables h p = Some t \<Longrightarrow> tabs (ttab t) key = None \<Longrightarrow> tdelegate t = Some d \<Longrightarrow> htables h d = Some td
     \<Longrightarrow> tabs (ttab td) (amm E MT_SET) = None \<Longrightarrow> chain_lacks E h key d \<Longrightarrow> chain_lacks E h key p"

lemma own_set_missing:
  assumes "tables_ok E h" "key \<noteq> ONull" "htables h p = Some t" "tabs (ttab t) key = None"
  shows "own_set E (OTable p) key val h = Some (None, h)"
  using assms TableSet_missing[OF tables_okD[OF assms(1,3)] assms(2,4), of val] put_table_same[OF assms(3)]
  by (simp add: own_set_def table_set_def)

lemma Raise_IdxError_views [simp]:
  "htables (Raise_IdxError E key h) = htables h" "hroottable (Raise_IdxError E key h) = hroottable h"
  "Raise_IdxError E key (Raise_IdxError E key h) = Raise_IdxError E key h"
  by (simp_all add: Raise_IdxError_def raise_text_def)

text \<open>Such a chain falls through to the root table, with the state as it was up to the error of the chain.\<close>

lemma FallBackSet_lacks:
  assumes ok: "tables_ok E h" and key: "key \<noteq> ONull"
  shows "chain_lacks E h key p \<Longrightarrow>
     \<exists>n h1. (h1 = h \<or> h1 = Raise_IdxError E key h)
       \<and> (\<forall>m \<ge> n. FallBackSet (VSet m E) E (OTable p) key val h = Some (FALLBACK_NO_MATCH, h1))"
proof (induction rule: chain_lacks.induct)
  case (cl_end p t)
  then show ?case
    by (intro exI[of _ 0] exI[of _ h]) (simp add: FallBackSet_def delegate_of_def mm_fallback_def get_metamethod_def Let_def)
next
  case (cl_up p t d td)
  then obtain n h1 where h1: "h1 = h \<or> h1 = Raise_IdxError E key h"
    and n: "\<And>m. n \<le> m \<Longrightarrow> FallBackSet (VSet m E) E (OTable d) key val h = Some (FALLBACK_NO_MATCH, h1)" by blast
  have dn: "tabs (ttab td) key = None" using cl_up.hyps(6,4) by cases auto
  have mm: "get_metamethod E (Raise_IdxError E key h) (OTable p) MT_SET = Some None"
    using cl_up.hyps tget_tabs[OF ok cl_up.hyps(4)] by (simp add: get_metamethod_def delegate_of_def)
  have "FallBackSet (VSet m E) E (OTable p) key val h = Some (FALLBACK_NO_MATCH, Raise_IdxError E key h)" if le: "Suc n \<le> m" for m
  proof -
    obtain k where k: "m = Suc k" "n \<le> k" using le by (cases m) auto
    from n[OF k(2)] h1 have "VSet m E (OTable d) key val False h = Some (False, Raise_IdxError E key h)"
      by (auto simp: k(1) own_set_missing[OF ok key cl_up.hyps(4) dn])
    then show ?thesis using cl_up.hyps(1,3) mm by (simp add: FallBackSet_def delegate_of_def mm_fallback_def Let_def)
  qed
  then show ?case by (intro exI[of _ "Suc n"] exI[of _ "Raise_IdxError E key h"]) simp
qed

lemma VSet_lacks:
  assumes ok: "tables_ok E h" and key: "key \<noteq> ONull" and cl: "chain_lacks E h key p"
    and rt: "htables h (hroottable h) = Some rt"
  shows "\<exists>n ok h'. (\<forall>m \<ge> n. VSet m E (OTable p) key val root h = Some (ok, h')) \<and> tables_ok E h'
          \<and> (if root \<and> key \<in> dom (tabs (ttab rt))
             then ok \<and> (\<exists>t'. htables h' = (htables h)(hroottable h \<mapsto> rt\<lparr>ttab := t'\<rparr>) \<and> tabs t' = (tabs (ttab rt))(key \<mapsto> val))
             else \<not> ok \<and> h' = Raise_IdxError E key h)"
proof -
  from FallBackSet_lacks[OF ok key cl, of val] obtain n h1 where h1: "h1 = h \<or> h1 = Raise_IdxError E key h"
    and n: "\<And>m. n \<le> m \<Longrightarrow> FallBackSet (VSet m E) E (OTable p) key val h = Some (FALLBACK_NO_MATCH, h1)" by blast
  from cl obtain t where t: "htables h p = Some t" "tabs (ttab t) key = None" by cases auto
  note o = own_set_missing[OF ok key t, of val]
  from h1 have v: "htables h1 = htables h" "hroottable h1 = hroottable h" "Raise_IdxError E key h1 = Raise_IdxError E key h" by auto
  from TableSet_spec[OF tables_okD[OF ok rt] key, of val] obtain t' where
    t': "TableSet (strhash (acls E)) (ttab rt) key val = Some (t', key \<in> dom (tabs (ttab rt)))" "table_ok (strhash (acls E)) t'"
      "tabs t' = (if key \<in> dom (tabs (ttab rt)) then (tabs (ttab rt))(key \<mapsto> val) else tabs (ttab rt))" by blast
  show ?thesis
  proof (cases "root \<and> key \<in> dom (tabs (ttab rt))")
    case True
    let ?h = "put_table (hroottable h) t' h1"
    have "VSet m E (OTable p) key val root h = Some (True, ?h)" if le: "Suc n \<le> m" for m
    proof -
      obtain k where k: "m = Suc k" "n \<le> k" using le by (cases m) auto
      show ?thesis using n[OF k(2)] o True rt t'(1) by (simp add: k(1) table_set_def v)
    qed
    moreover have "htables ?h = (htables h)(hroottable h \<mapsto> rt\<lparr>ttab := t'\<rparr>)" using rt by (simp add: put_table_def v)
    moreover have "tables_ok E ?h" by (rule tables_ok_put[OF _ t'(2)]) (use ok in \<open>simp add: tables_ok_def v\<close>)
    ultimately show ?thesis using True t'(3) by (intro exI[of _ "Suc n"] exI[of _ True] exI[of _ ?h]) auto
  next
    case False
    have "VSet m E (OTable p) key val root h = Some (False, Raise_IdxError E key h)" if le: "Suc n \<le> m" for m
    proof -
      obtain k where k: "m = Suc k" "n \<le> k" using le by (cases m) auto
      show ?thesis
      proof (cases root)
        case root: True
        with False have nd: "tabs (ttab rt) key = None" by auto
        have "put_table (hroottable h) (ttab rt) h1 = h1" by (rule put_table_same) (simp add: v rt)
        then show ?thesis
          using n[OF k(2)] o root rt TableSet_missing[OF tables_okD[OF ok rt] key nd, of val] by (simp add: k(1) table_set_def v)
      qed (use n[OF k(2)] o in \<open>simp add: k(1) v\<close>)
    qed
    moreover have "tables_ok E (Raise_IdxError E key h)" using ok by (simp add: tables_ok_def)
    ultimately show ?thesis using False by (intro exI[of _ "Suc n"] exI[of _ False] exI[of _ "Raise_IdxError E key h"]) auto
  qed
qed

text \<open>
  C27: Writing a name of a table.  \<open>Set\<close> never creates a slot.  If a table of the delegation chain has the name, it
  returns true and updates the nearest one, and only that table and that name.  If none has it, the chain ends
  and no \<open>_set\<close> metamethod is on the way, the root table's slot of that name is updated where the root
  table is to be consulted and has one; otherwise \<open>Set\<close> returns false with an index error and changes nothing else.
\<close>

theorem Set_updates_nearest_owner:
  assumes "tables_ok E h" "key \<noteq> ONull" "htables h (hroottable h) = Some rt"
  shows "(chain_owner h key p q \<and> htables h q = Some tq \<longrightarrow>
       (\<exists>n h' t'. (\<forall>m \<ge> n. VSet m E (OTable p) key val root h = Some (True, h'))
          \<and> tables_ok E h' \<and> h' = put_table q t' h \<and> tabs t' = (tabs (ttab tq))(key \<mapsto> val)))
     \<and> (chain_lacks E h key p \<longrightarrow>
       (\<exists>n ok h'. (\<forall>m \<ge> n. VSet m E (OTable p) key val root h = Some (ok, h')) \<and> tables_ok E h'
          \<and> (if root \<and> key \<in> dom (tabs (ttab rt))
             then ok \<and> (\<exists>t'. htables h' = (htables h)(hroottable h \<mapsto> rt\<lparr>ttab := t'\<rparr>) \<and> tabs t' = (tabs (ttab rt))(key \<mapsto> val))
             else \<not> ok \<and> h' = Raise_IdxError E key h)))"
proof (intro conjI impI)
  assume co: "chain_owner h key p q \<and> htables h q = Some tq"
  then have "key \<in> dom (tabs (ttab tq))" using chain_owner_owns[of h key p q] by auto
  with co TableSet_spec[OF tables_okD[OF assms(1)] assms(2), of q tq val] obtain t' where
    t': "TableSet (strhash (acls E)) (ttab tq) key val = Some (t', True)" "table_ok (strhash (acls E)) t'"
      "tabs t' = (tabs (ttab tq))(key \<mapsto> val)" by (auto simp: domIff split: if_splits)
  from co VSet_chain[OF assms(1,2) _ _ t'(1)] obtain n where
    "\<forall>m \<ge> n. VSet m E (OTable p) key val root h = Some (True, put_table q t' h)" by blast
  then show "\<exists>n h' t'. (\<forall>m \<ge> n. VSet m E (OTable p) key val root h = Some (True, h'))
          \<and> tables_ok E h' \<and> h' = put_table q t' h \<and> tabs t' = (tabs (ttab tq))(key \<mapsto> val)"
    using t'(3) tables_ok_put[OF assms(1) t'(2)] by blast
qed (rule VSet_lacks[OF assms(1,2) _ assms(3)])

lemma Set_updates_nearest_owner_witness:
  "\<exists>n h' t'. VSet n sample_env (OTable 100) (OString 24) (OInteger 1) False sample_heap = Some (True, h')
     \<and> h' = put_table 200 t' sample_heap \<and> tabs t' (OString 24) = Some (OInteger 1)
     \<and> VSet n sample_env (OTable 100) (OString 16) (OInteger 1) True sample_heap
        = Some (False, Raise_IdxError sample_env (OString 16) sample_heap)"
proof -
  have e: "tabs (CreateTable 0) = Map.empty" using CreateTable_spec[of "\<lambda>_. 0" 0] by simp
  let ?t = "\<lparr>ttab = one_slot (OString 24) (OTable 5), tdelegate = None\<rparr>"
  have q: "htables sample_heap 200 = Some ?t" by (simp add: sample_heap_def)
  have p: "htables sample_heap 100 = Some \<lparr>ttab = CreateTable 0, tdelegate = Some 200\<rparr>" by (simp add: sample_heap_def)
  have r: "htables sample_heap (hroottable sample_heap) = Some ?t" by (simp add: sample_heap_def)
  have "chain_owner sample_heap (OString 24) 200 200" by (rule co_here[OF q]) (simp add: one_slot_ok)
  then have c: "chain_owner sample_heap (OString 24) 100 200" by (rule co_up[OF p, rotated 2]) (simp_all add: e)
  have "chain_lacks sample_env sample_heap (OString 16) 200" by (rule cl_end[OF q]) (simp_all add: one_slot_ok)
  then have l: "chain_lacks sample_env sample_heap (OString 16) 100"
    by (rule cl_up[OF p _ _ q, rotated 3]) (simp_all add: e one_slot_ok sample_env_def)
  note law = Set_updates_nearest_owner[OF sample_heap_ok _ r]
  from law[of "OString 24" 100 200 ?t "OInteger 1" False, THEN conjunct1] c q obtain n1 h' t' where
    1: "\<forall>m \<ge> n1. VSet m sample_env (OTable 100) (OString 24) (OInteger 1) False sample_heap = Some (True, h')"
      "h' = put_table 200 t' sample_heap" "tabs t' = (tabs (ttab ?t))(OString 24 \<mapsto> OInteger 1)" by blast
  have nd: "OString 16 \<notin> dom (tabs (ttab ?t))" by (simp add: one_slot_ok)
  from law[of "OString 16" 100 100 ?t "OInteger 1" True, THEN conjunct2, rule_format, OF _ l] nd obtain n2 where
    2: "\<forall>m \<ge> n2. VSet m sample_env (OTable 100) (OString 16) (OInteger 1) True sample_heap
        = Some (False, Raise_IdxError sample_env (OString 16) sample_heap)" by (auto simp: one_slot_ok)
  from 1 2 show ?thesis by (intro exI[of _ "max n1 n2"] exI[of _ h'] exI[of _ t']) simp
qed

text \<open>
  C40: Creating, reading and deleting a slot.  On a table whose delegate defines no \<open>_newslot\<close> and no \<open>_delslot\<close>,
  a new slot is read back at once, whatever flags and fuel; deleting it answers the value and
  the name is gone, with the other names of the table as they were.
\<close>

theorem slot_round_trip:
  assumes ok: "tables_ok E h" and t: "htables h p = Some t" and key: "key \<noteq> ONull"
    and mm: "delegated_mm E h (OTable p) MT_NEWSLOT = Some None"
    and dm: "\<And>t'. delegated_mm E (put_table p t' h) (OTable p) MT_DELSLOT = Some None"
  shows "\<exists>h1 h2 t2. VNewSlot E (OTable p) key val bstatic h = Some (True, h1) \<and> tables_ok E h1
     \<and> VGet (Suc n) E (OTable p) key raw noerr root h1 = Some (Some (realval (weak (acls E)) val), h1)
     \<and> VDeleteSlot E (OTable p) key h1 = Some (Some (realval (weak (acls E)) val), h2) \<and> tables_ok E h2
     \<and> htables h2 p = Some (t\<lparr>ttab := t2\<rparr>) \<and> tabs t2 = (tabs (ttab t))(key := None)"
proof -
  from NewSlot_spec[OF tables_okD[OF ok t] key, of val] obtain t1 b where
    t1: "NewSlot (strhash (acls E)) (ttab t) key val = Some (t1, b)" "table_ok (strhash (acls E)) t1"
      "tabs t1 = (tabs (ttab t))(key \<mapsto> val)" by blast
  let ?h1 = "put_table p t1 h"
  have n: "VNewSlot E (OTable p) key val bstatic h = Some (True, ?h1)"
    using t t1(1) key mm tget_tabs[OF ok t, of key] by (auto simp: VNewSlot_def table_newslot_def Let_def split: option.splits)
  note ok1 = tables_ok_put[OF ok t1(2), of p]
  have p1: "htables ?h1 p = Some (t\<lparr>ttab := t1\<rparr>)" using t by (simp add: put_table_def)
  have g: "VGet (Suc n) E (OTable p) key raw noerr root ?h1 = Some (Some (realval (weak (acls E)) val), ?h1)"
    by (simp add: own_slot_table[OF ok1 p1] t1(3) probe_of_def)
  from TableRemove_spec[OF t1(2) key] obtain t2 where
    t2: "TableRemove (strhash (acls E)) t1 key = Some t2" "table_ok (strhash (acls E)) t2" "tabs t2 = (tabs t1)(key := None)" by blast
  have d: "VDeleteSlot E (OTable p) key ?h1 = Some (Some (realval (weak (acls E)) val), put_table p t2 ?h1)"
    using p1 t2(1) tget_tabs[OF ok1 p1, of key] t1(3) dm by (simp add: VDeleteSlot_def)
  have "htables (put_table p t2 ?h1) p = Some (t\<lparr>ttab := t2\<rparr>)" using t by (simp add: put_table_def)
  moreover have "tabs t2 = (tabs (ttab t))(key := None)" using t2(3) t1(3) by simp
  ultimately show ?thesis using n ok1 g d tables_ok_put[OF ok1 t2(2)] by blast
qed

lemma slot_round_trip_witness:
  "\<exists>h1 h2. VNewSlot sample_env (OTable 5) (OString 16) (OInteger 3) False sample_heap = Some (True, h1)
     \<and> VGet (Suc 0) sample_env (OTable 5) (OString 16) False False False h1 = Some (Some (OInteger 3), h1)
     \<and> VDeleteSlot sample_env (OTable 5) (OString 16) h1 = Some (Some (OInteger 3), h2)"
proof -
  have t: "htables sample_heap 5 = Some \<lparr>ttab = CreateTable 0, tdelegate = None\<rparr>" by (simp add: sample_heap_def)
  have mm: "delegated_mm sample_env sample_heap (OTable 5) MT_NEWSLOT = Some None"
    by (simp add: delegated_mm_def has_delegate_link_def t)
  have dm: "delegated_mm sample_env (put_table 5 t' sample_heap) (OTable 5) MT_DELSLOT = Some None" for t'
    by (simp add: delegated_mm_def has_delegate_link_def t put_table_def)
  from slot_round_trip[OF sample_heap_ok t _ mm dm, of "OString 16" "OInteger 3" False 0 False False False]
  show ?thesis by (auto simp: realval_def simp del: VGet.simps)
qed

text \<open>
  Slot operations on the wrong kind of value are errors and nothing else.  Creating a slot named null
  and creating, assigning or deleting slots of values that have none fail with the error text of the code and
  leave everything else alone; so does an assignment outside of the bounds of an array.
\<close>

theorem slot_errors_change_nothing:
  "VNewSlot E self ONull val bstatic h = Some (False, raise_text ''null cannot be used as index'' h)
   \<and> (type_of self \<notin> {OT_TABLE, OT_INSTANCE, OT_CLASS} \<and> key \<noteq> ONull \<longrightarrow>
        VNewSlot E self key val bstatic h = Some (False, raise_text (''indexing '' @ GetTypeName self @ '' with '' @ GetTypeName key) h))
   \<and> (type_of self \<notin> {OT_TABLE, OT_INSTANCE, OT_ARRAY, OT_USERDATA} \<longrightarrow>
        VSet (Suc n) E self key val root h = Some (False, raise_text (''trying to set '' @ [CHR 0x27] @ GetTypeName self @ [CHR 0x27]) h))
   \<and> (type_of self \<notin> {OT_TABLE, OT_INSTANCE, OT_USERDATA} \<longrightarrow>
        VDeleteSlot E self key h = Some (None, raise_text (''attempt to delete a slot from a '' @ GetTypeName self) h))
   \<and> (self = OArray p \<and> key = OInteger i \<and> harrays h p = Some a \<and> \<not> (0 \<le> sint i \<and> sint i < int (length (avalues a))) \<longrightarrow>
        VSet (Suc n) E self key val root h = Some (False, Raise_IdxError E key h))"
proof (intro conjI)
  show "type_of self \<notin> {OT_TABLE, OT_INSTANCE, OT_CLASS} \<and> key \<noteq> ONull \<longrightarrow>
        VNewSlot E self key val bstatic h = Some (False, raise_text (''indexing '' @ GetTypeName self @ '' with '' @ GetTypeName key) h)"
    by (cases self) (simp_all add: VNewSlot_def)
  show "type_of self \<notin> {OT_TABLE, OT_INSTANCE, OT_ARRAY, OT_USERDATA} \<longrightarrow>
        VSet (Suc n) E self key val root h = Some (False, raise_text (''trying to set '' @ [CHR 0x27] @ GetTypeName self @ [CHR 0x27]) h)"
    by (cases self) (simp_all add: own_set_def)
qed (auto simp: VNewSlot_def VDeleteSlot_def own_set_def is_numeric_def is_numeric_type_def tag_flag_defs ArraySet_def)

lemma slot_errors_change_nothing_witness:
  "VSet 1 sample_env (OInteger 3) (OString 8) ONull False sample_heap
     = Some (False, raise_text (''trying to set '' @ [CHR 0x27] @ ''integer'' @ [CHR 0x27]) sample_heap)"
proof -
  have "GetTypeName (OInteger 3) = ''integer''" by code_simp
  with slot_errors_change_nothing[of sample_env "OInteger 3" ONull False sample_heap "OString 8" 0 False] show ?thesis by simp
qed

text \<open>
  Nested namespaces can be captured by the root table.  With a global table \<open>b\<close> and no global \<open>a\<close>, declaring
  the namespace \<open>a/b\<close> creates \<open>a\<close> but answers the global \<open>b\<close> instead of a new table inside of \<open>a\<close>: the table made
  for \<open>a\<close> delegates to the root table, and the look-up of \<open>b\<close> in it follows the delegate.
\<close>

theorem nested_namespace_captured:
  "map_option (\<lambda>(ns, h). (ns, map_option (\<lambda>t. tget sample_env (ttab t) (OString 24)) (htables h 800)))
     (BuildNamespaceTables (VGet 3 sample_env) sample_env (OTable 200) 8 sample_heap)
   = Some (OTable 5, Some (Some None))"
  by code_simp

end
