(* ===== verification/GS_Frame.thy ===== *)
theory GS_Frame
  imports GS_Class GS_FuncState "HOL-Library.Monad_Syntax"
begin

text \<open>
  The call machinery of the virtual machine (GSvm.cpp, GSvm.h, GSobject.cpp, GSclosure.h): the value
  stack and the stack of call frames, starting and leaving calls, variable and default parameters,
  captured variables (outers), exception traps and unwinding, generators, native calls.

  The value stack is a list; an access outside of it is None.  A captured variable is an outer
  that stands for a slot of the stack while the slot lives (\<open>OuterOpen\<close> with the index; the code
  keeps a pointer and the index to move it when the stack is reallocated) and holds the value
  afterwards.  The debug hook is not installed.
\<close>

section \<open>State\<close>

abbreviation MIN_STACK_OVERHEAD :: int where "MIN_STACK_OVERHEAD \<equiv> 15"

definition int32 :: "int \<Rightarrow> int" where
  "int32 i = sint (word_of_int i :: 32 word)"

record callinfo =
  cip :: int
  cclosure :: gsobj
  cgenerator :: "ptr option"
  cetraps :: nat
  cprevstkbase :: int
  cprevtop :: int
  ctarget :: int
  cncalls :: int
  cisroot :: bool

record exceptiontrap =
  xstackbase :: int
  xstacksize :: int
  xip :: int
  xtarget :: int

datatype outer = OuterOpen int | OuterClosed gsobj

datatype genstate = gRunning | gSuspended | gDead

record generator =
  gclosure :: gsobj
  gstack :: "gsobj list"
  gci :: callinfo
  getraps :: "exceptiontrap list"
  gstate :: genstate

record fvm =
  fstack :: "gsobj list"
  fbase :: int
  ftop :: int
  fframes :: "callinfo list"
  ftraps :: "exceptiontrap list"
  fopen :: "ptr list"
  fouters :: "ptr \<Rightarrow> outer option"
  fgens :: "ptr \<Rightarrow> generator option"
  fclosures :: "ptr \<Rightarrow> gsclosure option"
  farrays :: "ptr \<Rightarrow> gsarray option"
  fmetacalls :: int
  fnativecalls :: int
  flasterror :: "vmerr option"

text \<open>Function prototypes and native closures.  \<open>falloc\<close> answers a free address.\<close>

record fproto =
  pnparameters :: int
  pstacksize :: int
  pvarparams :: bool
  pndefaults :: int
  pbgenerator :: bool
  pouters :: "outervar list"
  pdefaultregs :: "int list"

record nativeclosure =
  nfunction :: "fvm \<Rightarrow> int \<times> fvm"
  nparamscheck :: int
  ntypecheck :: "gsint list"
  nouters :: "gsobj list"
  nenv :: "ptr option"

record frameenv =
  eproto :: "ptr \<Rightarrow> fproto"
  enative :: "ptr \<Rightarrow> nativeclosure"
  eweakobj :: "ptr \<Rightarrow> gsobj"
  eweakref :: "gsobj \<Rightarrow> ptr"
  ealloc :: "fvm \<Rightarrow> ptr"

definition peek :: "int \<Rightarrow> fvm \<Rightarrow> gsobj option" where
  "peek i s = (if 0 \<le> i \<and> i < int (length (fstack s)) then Some (fstack s ! nat i) else None)"

definition poke :: "int \<Rightarrow> gsobj \<Rightarrow> fvm \<Rightarrow> fvm option" where
  "poke i v s = (if 0 \<le> i \<and> i < int (length (fstack s)) then Some (s\<lparr>fstack := (fstack s)[nat i := v]\<rparr>) else None)"

definition fail_with :: "string \<Rightarrow> fvm \<Rightarrow> bool \<times> fvm" where
  "fail_with msg s = (False, s\<lparr>flasterror := Some (ErrStr msg)\<rparr>)"

text \<open>\<open>while (last_top >= _top) _stack._vals[last_top--].Null()\<close>.\<close>

function null_down :: "int \<Rightarrow> int \<Rightarrow> fvm \<Rightarrow> fvm option" where
  "null_down hi lo s = (if lo \<le> hi then Option.bind (poke hi ONull s) (null_down (hi - 1) lo) else Some s)"
  by pat_completeness auto
termination by (relation "measure (\<lambda>(hi, lo, s). nat (hi - lo + 1))") auto

declare null_down.simps [simp del]

section \<open>Captured variables\<close>

definition outer_index :: "fvm \<Rightarrow> ptr \<Rightarrow> int option" where
  "outer_index s p = (case fouters s p of Some (OuterOpen i) \<Rightarrow> Some i | _ \<Rightarrow> None)"

text \<open>The walk of \<open>FindOuter\<close>: Inl is an outer that is open for the slot, Inr the list with a new one.\<close>

fun outer_walk :: "fvm \<Rightarrow> int \<Rightarrow> ptr \<Rightarrow> ptr list \<Rightarrow> (ptr + ptr list) option" where
  "outer_walk s idx nw [] = Some (Inr [nw])"
| "outer_walk s idx nw (p # ps) =
     (case outer_index s p of
        None \<Rightarrow> None
      | Some i \<Rightarrow>
          if idx \<le> i then
            (if i = idx then Some (Inl p)
             else map_option (map_sum id ((#) p)) (outer_walk s idx nw ps))
          else Some (Inr (nw # p # ps)))"

definition FindOuter :: "frameenv \<Rightarrow> int \<Rightarrow> fvm \<Rightarrow> (ptr \<times> fvm) option" where
  "FindOuter E idx s =
     (let nw = ealloc E s in
      case outer_walk s idx nw (fopen s) of
        None \<Rightarrow> None
      | Some (Inl p) \<Rightarrow> Some (p, s)
      | Some (Inr ps) \<Rightarrow> Some (nw, s\<lparr>fopen := ps, fouters := (fouters s)(nw \<mapsto> OuterOpen idx)\<rparr>))"

fun close_outers :: "int \<Rightarrow> ptr list \<Rightarrow> fvm \<Rightarrow> fvm option" where
  "close_outers idx [] s = Some (s\<lparr>fopen := []\<rparr>)"
| "close_outers idx (p # ps) s =
     (case outer_index s p of
        None \<Rightarrow> None
      | Some i \<Rightarrow>
          if idx \<le> i then
            (case peek i s of
               None \<Rightarrow> None
             | Some v \<Rightarrow> close_outers idx ps (s\<lparr>fouters := (fouters s)(p \<mapsto> OuterClosed v)\<rparr>))
          else Some (s\<lparr>fopen := p # ps\<rparr>))"

definition CloseOuters :: "int \<Rightarrow> fvm \<Rightarrow> fvm option" where
  "CloseOuters idx s = close_outers idx (fopen s) s"

text \<open>What a captured variable reads: \<open>*(otr->_valptr)\<close>; and its assignment.\<close>

definition outer_value :: "fvm \<Rightarrow> ptr \<Rightarrow> gsobj option" where
  "outer_value s p =
     (case fouters s p of
        None \<Rightarrow> None
      | Some (OuterOpen i) \<Rightarrow> peek i s
      | Some (OuterClosed v) \<Rightarrow> Some v)"

definition outer_assign :: "ptr \<Rightarrow> gsobj \<Rightarrow> fvm \<Rightarrow> fvm option" where
  "outer_assign p v s =
     (case fouters s p of
        None \<Rightarrow> None
      | Some (OuterOpen i) \<Rightarrow> poke i v s
      | Some (OuterClosed _) \<Rightarrow> Some (s\<lparr>fouters := (fouters s)(p \<mapsto> OuterClosed v)\<rparr>))"

section \<open>Frames\<close>

definition new_callinfo :: "int \<Rightarrow> int \<Rightarrow> callinfo" where
  "new_callinfo prevbase prevtop =
     \<lparr>cip = 0, cclosure = ONull, cgenerator = None, cetraps = 0, cprevstkbase = prevbase, cprevtop = prevtop,
      ctarget = 0, cncalls = 1, cisroot = False\<rparr>"

definition upd_ci :: "(callinfo \<Rightarrow> callinfo) \<Rightarrow> fvm \<Rightarrow> fvm option" where
  "upd_ci f s = (case fframes s of [] \<Rightarrow> None | ci # cis \<Rightarrow> Some (s\<lparr>fframes := f ci # cis\<rparr>))"

definition EnterFrame :: "int \<Rightarrow> int \<Rightarrow> bool \<Rightarrow> fvm \<Rightarrow> (bool \<times> fvm) option" where
  "EnterFrame newbase newtop tailcall s =
     do {
       s1 \<leftarrow> (if \<not> tailcall
              then Some (s\<lparr>fframes := new_callinfo (int32 (newbase - fbase s)) (int32 (ftop s - fbase s)) # fframes s\<rparr>)
              else upd_ci (\<lambda>ci. ci\<lparr>cncalls := cncalls ci + 1\<rparr>) s);
       let s2 = s1\<lparr>fbase := newbase, ftop := newtop\<rparr>;
       if int (length (fstack s)) < newtop + MIN_STACK_OVERHEAD then
         (if fmetacalls s \<noteq> 0 then Some (fail_with ''stack overflow, cannot resize stack while in a metamethod'' s2)
          else Some (True, s2\<lparr>fstack := fstack s @ replicate (nat (newtop + 4 * MIN_STACK_OVERHEAD) - length (fstack s)) ONull\<rparr>))
       else Some (True, s2)
     }"

definition LeaveFrame :: "fvm \<Rightarrow> fvm option" where
  "LeaveFrame s =
     (case fframes s of
        [] \<Rightarrow> None
      | ci # cis \<Rightarrow>
          let base = fbase s - cprevstkbase ci; top = base + cprevtop ci in
          Option.bind (CloseOuters (fbase s) (s\<lparr>fframes := cis, fbase := base, ftop := top\<rparr>)) (null_down (ftop s) top))"

text \<open>\<open>Return\<close>: the result goes to the target register of the caller, or out of the interpreter.\<close>

definition Return :: "int \<Rightarrow> int \<Rightarrow> gsobj \<Rightarrow> fvm \<Rightarrow> (bool \<times> gsobj \<times> fvm) option" where
  "Return r0 r1 retval s =
     (case fframes s of
        [] \<Rightarrow> None
      | ci # cis \<Rightarrow>
          do {
            v \<leftarrow> (if r0 \<noteq> 0xFF \<and> (cisroot ci \<or> ctarget ci \<noteq> -1) then peek (fbase s + r1) s else Some ONull);
            s1 \<leftarrow> (if \<not> cisroot ci \<and> ctarget ci \<noteq> -1 then poke (fbase s - cprevstkbase ci + ctarget ci) v s else Some s);
            s2 \<leftarrow> LeaveFrame s1;
            Some (cisroot ci, if cisroot ci then v else retval, s2)
          })"

section \<open>Generators\<close>

fun save_regs :: "nat \<Rightarrow> int \<Rightarrow> fvm \<Rightarrow> gsobj list option" where
  "save_regs 0 i s = Some []"
| "save_regs (Suc n) i s = do { v \<leftarrow> peek i s; vs \<leftarrow> save_regs n (i + 1) s; Some (v # vs) }"

fun null_regs :: "nat \<Rightarrow> int \<Rightarrow> fvm \<Rightarrow> fvm option" where
  "null_regs 0 i s = Some s"
| "null_regs (Suc n) i s = do { s1 \<leftarrow> poke i ONull s; null_regs n (i + 1) s1 }"

fun load_regs :: "gsobj list \<Rightarrow> int \<Rightarrow> fvm \<Rightarrow> fvm option" where
  "load_regs [] i s = Some s"
| "load_regs (v # vs) i s = do { s1 \<leftarrow> poke i v s; load_regs vs (i + 1) s1 }"

definition shift_trap :: "int \<Rightarrow> exceptiontrap \<Rightarrow> exceptiontrap" where
  "shift_trap d t = t\<lparr>xstackbase := xstackbase t + d, xstacksize := xstacksize t + d\<rparr>"

text \<open>\<open>Yield\<close>: the registers 1 to target - 1 are saved and the frame cleared; \<open>this\<close> is kept weakly.  The traps
  of the frame move over, in reverse order and relative to the base.\<close>

definition Yield :: "frameenv \<Rightarrow> ptr \<Rightarrow> int \<Rightarrow> fvm \<Rightarrow> (bool \<times> fvm) option" where
  "Yield E gp target s =
     (case fgens s gp of
        None \<Rightarrow> None
      | Some g \<Rightarrow>
          (case gstate g of
             gSuspended \<Rightarrow> Some (fail_with ''internal vm error, yielding dead generator'' s)
           | gDead \<Rightarrow> Some (fail_with ''internal vm error, yielding a dead generator'' s)
           | gRunning \<Rightarrow>
               (let size = nat (ftop s - fbase s) in
                do {
                  this \<leftarrow> peek (fbase s) s;
                  regs \<leftarrow> save_regs (nat target - 1) (fbase s + 1) s;
                  s1 \<leftarrow> null_regs size (fbase s) s;
                  ci \<leftarrow> (case fframes s of [] \<Rightarrow> None | ci # _ \<Rightarrow> Some ci);
                  (if size < 1 \<or> size < length regs + 1 \<or> length (ftraps s) < cetraps ci then None else
                  (let saved = (if is_refcounted (type_of this) then OWeakRef (eweakref E this) else this) # regs
                              @ replicate (size - (length regs + 1)) ONull;
                      g1 = g\<lparr>gstack := saved, gci := ci\<lparr>cgenerator := None\<rparr>,
                            getraps := rev (map (shift_trap (- fbase s)) (take (cetraps ci) (ftraps s))) @ getraps g,
                            gstate := gSuspended\<rparr> in
                  Some (True, s1\<lparr>ftraps := drop (cetraps ci) (ftraps s), fgens := (fgens s)(gp \<mapsto> g1)\<rparr>)))
                })))"

definition Resume :: "frameenv \<Rightarrow> ptr \<Rightarrow> int \<Rightarrow> fvm \<Rightarrow> (bool \<times> fvm) option" where
  "Resume E gp target s =
     (case fgens s gp of
        None \<Rightarrow> None
      | Some g \<Rightarrow>
          (case gstate g of
             gDead \<Rightarrow> Some (fail_with ''resuming dead generator'' s)
           | gRunning \<Rightarrow> Some (fail_with ''resuming active generator'' s)
           | gSuspended \<Rightarrow>
               (let newbase = ftop s; n = cetraps (gci g) in
                do {
                  (ok, s1) \<leftarrow> EnterFrame newbase (newbase + int (length (gstack g))) False s;
                  (if \<not> ok then Some (False, s1) else
                  if length (getraps g) < n \<or> gstack g = [] then None else
                  do {
                    s2 \<leftarrow> upd_ci (\<lambda>ci. ci\<lparr>cgenerator := Some gp, ctarget := int32 target, cclosure := cclosure (gci g),
                           cip := cip (gci g), cncalls := cncalls (gci g), cetraps := n, cisroot := cisroot (gci g)\<rparr>) s1;
                    s3 \<leftarrow> load_regs ((case hd (gstack g) of OWeakRef w \<Rightarrow> eweakobj E w | v \<Rightarrow> v) # tl (gstack g)) newbase s2;
                    Some (True, s3\<lparr>ftraps := rev (map (shift_trap newbase) (take n (getraps g))) @ ftraps s,
                      fgens := (fgens s)(gp \<mapsto> g\<lparr>getraps := drop n (getraps g), gstate := gRunning,
                        gstack := hd (gstack g) # replicate (length (gstack g) - 1) ONull\<rparr>)\<rparr>)
                  })
                })))"

definition Kill :: "ptr \<Rightarrow> fvm \<Rightarrow> fvm" where
  "Kill gp s = s\<lparr>fgens := (fgens s)(gp := map_option (\<lambda>g. g\<lparr>gstate := gDead, gstack := [], gclosure := ONull\<rparr>) (fgens s gp))\<rparr>"

section \<open>The stack and the outers\<close>

lemma int32_id: "- (2 ^ 31) \<le> i \<Longrightarrow> i < 2 ^ 31 \<Longrightarrow> int32 i = i"
  by (simp add: int32_def sint_sbintrunc' signed_take_bit_int_eq_self)

lemma peek_poke:
  assumes "0 \<le> i" "i < int (length (fstack s))"
  shows "\<exists>s'. poke i v s = Some s' \<and> s' = s\<lparr>fstack := fstack s'\<rparr> \<and> length (fstack s') = length (fstack s)
     \<and> (\<forall>j. peek j s' = (if j = i then Some v else peek j s))"
  using assms by (auto simp: poke_def peek_def nth_list_update)

lemma null_down_ok:
  "0 \<le> lo \<Longrightarrow> hi < int (length (fstack s)) \<Longrightarrow>
     \<exists>s'. null_down hi lo s = Some s' \<and> s' = s\<lparr>fstack := fstack s'\<rparr> \<and> length (fstack s') = length (fstack s)
     \<and> (\<forall>j. peek j s' = (if lo \<le> j \<and> j \<le> hi then Some ONull else peek j s))"
proof (induction hi lo s rule: null_down.induct)
  case (1 hi lo s)
  show ?case
  proof (cases "lo \<le> hi")
    case True
    then obtain s1 where s1: "poke hi ONull s = Some s1" "s1 = s\<lparr>fstack := fstack s1\<rparr>" "length (fstack s1) = length (fstack s)"
      "\<forall>j. peek j s1 = (if j = hi then Some ONull else peek j s)"
      using peek_poke[of hi s ONull] 1(2,3) by auto
    from 1(1)[OF True s1(1) 1(2)] s1(3) 1(3) obtain s' where s': "null_down (hi - 1) lo s1 = Some s'" "s' = s1\<lparr>fstack := fstack s'\<rparr>"
      "length (fstack s') = length (fstack s1)" "\<forall>j. peek j s' = (if lo \<le> j \<and> j \<le> hi - 1 then Some ONull else peek j s1)" by force
    have "s' = s\<lparr>fstack := fstack s'\<rparr>" by (subst s'(2), subst s1(2)) simp
    with s1 s' True show ?thesis by (subst null_down.simps) auto
  next
    case False
    then show ?thesis by (subst null_down.simps) auto
  qed
qed

definition above :: "fvm \<Rightarrow> ptr \<Rightarrow> ptr \<Rightarrow> bool" where
  "above s p q = (\<exists>i j. outer_index s p = Some i \<and> outer_index s q = Some j \<and> j < i)"

text \<open>The open outers are the list, by descending slot, one for a slot, inside of the stack.\<close>

definition outers_ok_list :: "ptr list \<Rightarrow> fvm \<Rightarrow> bool" where
  "outers_ok_list ps s =
     (sorted_wrt (above s) ps \<and> (\<forall>p. p \<in> set ps \<longleftrightarrow> outer_index s p \<noteq> None)
      \<and> (\<forall>p i. outer_index s p = Some i \<longrightarrow> 0 \<le> i \<and> i < int (length (fstack s))))"

abbreviation outers_ok :: "fvm \<Rightarrow> bool" where
  "outers_ok s \<equiv> outers_ok_list (fopen s) s"

lemma outers_ok_list_cong:
  "fouters s' = fouters s \<Longrightarrow> length (fstack s') = length (fstack s) \<Longrightarrow> outers_ok_list ps s' = outers_ok_list ps s"
  by (simp add: outers_ok_list_def above_def[abs_def] outer_index_def)

lemma outer_index_close:
  "outer_index (s\<lparr>fouters := (fouters s)(p \<mapsto> OuterClosed v)\<rparr>) q = (if q = p then None else outer_index s q)"
  by (simp add: outer_index_def)

lemma outer_value_cong:
  "fouters s' p = fouters s p \<Longrightarrow> fstack s' = fstack s \<Longrightarrow> outer_value s' p = outer_value s p"
  by (simp add: outer_value_def peek_def split: option.splits outer.splits)

lemma above_distinct: "sorted_wrt (above s) (p # ps) \<Longrightarrow> p \<notin> set ps"
  by (auto simp: above_def)

lemma close_outers_ok:
  "outers_ok_list ps s \<Longrightarrow> \<exists>s'. close_outers idx ps s = Some s' \<and> s' = s\<lparr>fopen := fopen s', fouters := fouters s'\<rparr> \<and> outers_ok s'
     \<and> (\<forall>p. outer_value s' p = outer_value s p)
     \<and> (\<forall>p i. outer_index s' p = Some i \<longleftrightarrow> outer_index s p = Some i \<and> i < idx)"
proof (induction ps arbitrary: s)
  case Nil
  have "outers_ok_list [] (s\<lparr>fopen := []\<rparr>)" using Nil by (simp add: outers_ok_list_cong[of "s\<lparr>fopen := []\<rparr>" s])
  moreover have "outer_index s p = None" for p using Nil by (auto simp: outers_ok_list_def)
  ultimately show ?case by (auto simp: outer_value_def outer_index_def peek_def split: option.splits outer.splits)
next
  case (Cons p ps)
  have "outer_index s p \<noteq> None" using Cons.prems by (auto simp: outers_ok_list_def dest: spec[of _ p])
  then obtain i where i: "outer_index s p = Some i" by blast
  then have "0 \<le> i" "i < int (length (fstack s))" using Cons.prems by (simp_all add: outers_ok_list_def)
  note i = i this
  show ?case
  proof (cases "idx \<le> i")
    case True
    obtain v where v: "peek i s = Some v" using i by (simp add: peek_def)
    let ?s = "s\<lparr>fouters := (fouters s)(p \<mapsto> OuterClosed v)\<rparr>"
    have np: "p \<notin> set ps" by (rule above_distinct[of s]) (use Cons.prems in \<open>simp add: outers_ok_list_def\<close>)
    have "sorted_wrt (above ?s) ps"
    proof (rule sorted_wrt_mono_rel[of ps "above s"])
      show "above ?s x y" if "x \<in> set ps" "y \<in> set ps" "above s x y" for x y
        using that np unfolding above_def outer_index_close by auto
    qed (use Cons.prems in \<open>simp add: outers_ok_list_def\<close>)
    then have "outers_ok_list ps ?s"
      using Cons.prems np unfolding outers_ok_list_def outer_index_close by auto
    from Cons.IH[OF this] obtain s' where s': "close_outers idx ps ?s = Some s'" "s' = ?s\<lparr>fopen := fopen s', fouters := fouters s'\<rparr>"
      "outers_ok s'" "\<forall>p. outer_value s' p = outer_value ?s p"
      "\<forall>p i. outer_index s' p = Some i \<longleftrightarrow> outer_index ?s p = Some i \<and> i < idx" by blast
    have "outer_value ?s q = outer_value s q" for q
      using i(1) v by (auto simp: outer_value_def outer_index_def peek_def split: option.splits outer.splits)
    moreover have "s' = s\<lparr>fopen := fopen s', fouters := fouters s'\<rparr>" by (subst s'(2)) simp
    moreover have "close_outers idx (p # ps) s = Some s'" using i(1) True v s'(1) by simp
    moreover have "\<forall>q j. outer_index s' q = Some j \<longleftrightarrow> outer_index s q = Some j \<and> j < idx"
      using s'(5) i(1) True unfolding outer_index_close by auto
    ultimately show ?thesis using s'(3,4) by (intro exI[of _ s'] conjI) simp_all
  next
    case False
    let ?s = "s\<lparr>fopen := p # ps\<rparr>"
    have "outers_ok ?s" using Cons.prems by (simp add: outers_ok_list_cong[of ?s s])
    moreover have "j < idx" if "outer_index s q = Some j" for q j
    proof -
      have "q \<in> set (p # ps)" using that Cons.prems unfolding outers_ok_list_def by blast
      then consider "q = p" | "above s p q" using Cons.prems by (auto simp: outers_ok_list_def)
      then show ?thesis using that i(1) False by cases (auto simp: above_def)
    qed
    ultimately show ?thesis using i(1) False
      by (intro exI[of _ ?s]) (auto intro!: outer_value_cong simp: outer_index_def)
  qed
qed

lemma outer_value_stack:
  assumes "fouters s' = fouters s" "\<And>i. outer_index s p = Some i \<Longrightarrow> peek i s' = peek i s"
  shows "outer_value s' p = outer_value s p"
  using assms by (auto simp: outer_value_def outer_index_def split: option.splits outer.splits)

section \<open>Well-formed stacks of frames\<close>

fun frames_ok :: "callinfo list \<Rightarrow> int \<Rightarrow> int \<Rightarrow> bool" where
  "frames_ok [] base len = True"
| "frames_ok (ci # cis) base len =
     (0 \<le> cprevstkbase ci \<and> cprevstkbase ci \<le> cprevtop ci \<and> cprevstkbase ci \<le> base
      \<and> base - cprevstkbase ci + cprevtop ci < len \<and> frames_ok cis (base - cprevstkbase ci) len)"

definition vm_ok :: "fvm \<Rightarrow> bool" where
  "vm_ok s = (outers_ok s \<and> frames_ok (fframes s) (fbase s) (int (length (fstack s)))
              \<and> 0 \<le> fbase s \<and> fbase s \<le> ftop s \<and> ftop s < int (length (fstack s)))"

lemma LeaveFrame_ok:
  assumes ok: "vm_ok s" and f: "fframes s = ci # cis"
  shows "\<exists>s'. LeaveFrame s = Some s' \<and> vm_ok s' \<and> fframes s' = cis \<and> fbase s' = fbase s - cprevstkbase ci
     \<and> ftop s' = fbase s - cprevstkbase ci + cprevtop ci \<and> length (fstack s') = length (fstack s)
     \<and> (\<forall>p. outer_value s' p = outer_value s p)
     \<and> (\<forall>p i. outer_index s' p = Some i \<longleftrightarrow> outer_index s p = Some i \<and> i < fbase s)
     \<and> (\<forall>j. peek j s' = (if ftop s' \<le> j \<and> j \<le> ftop s then Some ONull else peek j s))
     \<and> ftraps s' = ftraps s \<and> fgens s' = fgens s \<and> fmetacalls s' = fmetacalls s \<and> flasterror s' = flasterror s"
proof -
  let ?s = "s\<lparr>fframes := cis, fbase := fbase s - cprevstkbase ci, ftop := fbase s - cprevstkbase ci + cprevtop ci\<rparr>"
  have fr: "0 \<le> cprevstkbase ci" "cprevstkbase ci \<le> cprevtop ci" "cprevstkbase ci \<le> fbase s"
    "fbase s - cprevstkbase ci + cprevtop ci < int (length (fstack s))"
    "frames_ok cis (fbase s - cprevstkbase ci) (int (length (fstack s)))" "ftop s < int (length (fstack s))"
    using ok f by (simp_all add: vm_ok_def)
  have "outers_ok_list (fopen s) ?s" using ok by (simp add: vm_ok_def outers_ok_list_cong[of ?s s])
  from close_outers_ok[OF this, of "fbase s"] obtain s1 where
    s1: "close_outers (fbase s) (fopen s) ?s = Some s1" "s1 = ?s\<lparr>fopen := fopen s1, fouters := fouters s1\<rparr>" "outers_ok s1"
      "\<forall>p. outer_value s1 p = outer_value ?s p"
      "\<forall>p i. outer_index s1 p = Some i \<longleftrightarrow> outer_index ?s p = Some i \<and> i < fbase s" by blast
  have eq: "fstack s1 = fstack s" "fframes s1 = cis" "fbase s1 = fbase ?s" "ftop s1 = ftop ?s" "ftraps s1 = ftraps s"
    "fgens s1 = fgens s" "fmetacalls s1 = fmetacalls s" "flasterror s1 = flasterror s"
    by (subst s1(2), simp)+
  have "0 \<le> ftop ?s" using fr by simp
  from null_down_ok[OF this, of "ftop s" s1] fr(6) eq(1) obtain s2 where
    s2: "null_down (ftop s) (ftop ?s) s1 = Some s2" "s2 = s1\<lparr>fstack := fstack s2\<rparr>" "length (fstack s2) = length (fstack s1)"
      "\<forall>j. peek j s2 = (if ftop ?s \<le> j \<and> j \<le> ftop s then Some ONull else peek j s1)" by auto
  have eq2: "fopen s2 = fopen s1" "fouters s2 = fouters s1" "fframes s2 = fframes s1" "fbase s2 = fbase s1" "ftop s2 = ftop s1"
    "ftraps s2 = ftraps s1" "fgens s2 = fgens s1" "fmetacalls s2 = fmetacalls s1" "flasterror s2 = flasterror s1"
    by (subst s2(2), simp)+
  have oi: "outer_index s2 p = outer_index s1 p" for p by (simp add: outer_index_def eq2)
  have pk: "peek j s1 = peek j s" for j by (simp add: peek_def eq)
  have "outer_value s2 p = outer_value s p" for p
  proof -
    have "outer_value s2 p = outer_value s1 p"
    proof (rule outer_value_stack[OF eq2(2)])
      fix i assume "outer_index s1 p = Some i"
      then have "i < fbase s" using s1(5) by blast
      then show "peek i s2 = peek i s1" using s2(4) fr(2) by simp
    qed
    also have "\<dots> = outer_value s p" using s1(4) by (simp add: outer_value_def peek_def split: option.splits outer.splits)
    finally show ?thesis .
  qed
  moreover have "outers_ok s2" using s1(3) outers_ok_list_cong[OF eq2(2) s2(3)] by (simp add: eq2)
  moreover have "vm_ok s2"
    using \<open>outers_ok s2\<close> fr by (simp add: vm_ok_def eq2 eq s2(3))
  moreover have "LeaveFrame s = Some s2"
    using f s1(1) s2(1) by (simp add: LeaveFrame_def CloseOuters_def Let_def)
  moreover have "\<forall>p i. outer_index s2 p = Some i \<longleftrightarrow> outer_index s p = Some i \<and> i < fbase s"
    using s1(5) by (simp add: oi) (simp add: outer_index_def)
  ultimately show ?thesis using s2(3,4) eq eq2 pk by (intro exI[of _ s2]) simp
qed

text \<open>
  C15: Captured variables outlive their frame.  Leaving a call frame restores the caller's stack base
  and top and the frames below, clears the registers from the caller's top upwards and leaves those below alone; and
  although it does, every captured variable still reads the value it had: the outers of the frame are closed
  with the values of their registers before these are cleared, the others stay open.
\<close>

theorem captured_variables_survive_frame:
  assumes "vm_ok s" "fframes s = ci # cis"
  shows "\<exists>s'. LeaveFrame s = Some s' \<and> vm_ok s' \<and> fframes s' = cis \<and> fbase s' = fbase s - cprevstkbase ci
     \<and> ftop s' = fbase s' + cprevtop ci
     \<and> (\<forall>p. outer_value s' p = outer_value s p)
     \<and> (\<forall>p i. outer_index s' p = Some i \<longleftrightarrow> outer_index s p = Some i \<and> i < fbase s)
     \<and> (\<forall>j. peek j s' = (if ftop s' \<le> j \<and> j \<le> ftop s then Some ONull else peek j s))"
proof -
  from LeaveFrame_ok[OF assms] obtain s' where "LeaveFrame s = Some s'" "vm_ok s'" "fframes s' = cis" "fbase s' = fbase s - cprevstkbase ci"
    "ftop s' = fbase s - cprevstkbase ci + cprevtop ci" "\<forall>p. outer_value s' p = outer_value s p"
    "\<forall>p i. outer_index s' p = Some i \<longleftrightarrow> outer_index s p = Some i \<and> i < fbase s"
    "\<forall>j. peek j s' = (if ftop s' \<le> j \<and> j \<le> ftop s then Some ONull else peek j s)" by blast
  then show ?thesis by (intro exI[of _ s'] conjI) simp_all
qed

definition sample_vm :: fvm where
  "sample_vm =
     \<lparr>fstack = map (\<lambda>i. OInteger (of_nat i)) [0..<40], fbase = 4, ftop = 10,
      fframes = [new_callinfo 3 5, new_callinfo 1 1], ftraps = [], fopen = [80], fouters = [80 \<mapsto> OuterOpen 6],
      fgens = Map.empty, fclosures = Map.empty, farrays = Map.empty, fmetacalls = 0, fnativecalls = 0, flasterror = None\<rparr>"

lemma sample_vm_ok: "vm_ok sample_vm"
  by (auto simp: vm_ok_def sample_vm_def outers_ok_list_def outer_index_def new_callinfo_def split: if_splits)

lemma captured_variables_survive_frame_witness:
  "\<exists>s'. LeaveFrame sample_vm = Some s' \<and> outer_value s' 80 = Some (OInteger 6) \<and> peek 6 s' = Some ONull"
proof -
  have "fframes sample_vm = new_callinfo 3 5 # [new_callinfo 1 1]" by (simp add: sample_vm_def)
  from captured_variables_survive_frame[OF sample_vm_ok this]
  obtain s' where "LeaveFrame sample_vm = Some s'" "fbase s' = 1" "ftop s' = 6"
    "\<forall>p. outer_value s' p = outer_value sample_vm p" "\<forall>j. peek j s' = (if ftop s' \<le> j \<and> j \<le> ftop sample_vm then Some ONull else peek j sample_vm)"
    by (auto simp: new_callinfo_def sample_vm_def)
  moreover have "outer_value sample_vm 80 = Some (OInteger 6)" by (simp add: outer_value_def peek_def sample_vm_def)
  moreover have "ftop sample_vm = 10" by (simp add: sample_vm_def)
  ultimately show ?thesis by auto
qed

lemma outer_index_new:
  "fouters s nw = None \<Longrightarrow> outer_index (s\<lparr>fopen := ps, fouters := (fouters s)(nw \<mapsto> OuterOpen idx)\<rparr>) q
     = (if q = nw then Some idx else outer_index s q)"
  by (simp add: outer_index_def)

text \<open>The walk keeps the order: what is before the new outer is above the slot, what is behind is below.\<close>

lemma outer_walk_ok:
  "sorted_wrt (above s) ps \<Longrightarrow> \<forall>p \<in> set ps. outer_index s p \<noteq> None \<Longrightarrow>
     \<exists>r. outer_walk s idx nw ps = Some r \<and> (case r of
        Inl p \<Rightarrow> p \<in> set ps \<and> outer_index s p = Some idx
      | Inr qs \<Rightarrow> (\<exists>as bs. ps = as @ bs \<and> qs = as @ nw # bs \<and> (\<forall>a \<in> set as. \<exists>i. outer_index s a = Some i \<and> idx < i)
                    \<and> (\<forall>b \<in> set bs. \<exists>i. outer_index s b = Some i \<and> i < idx)))"
proof (induction ps)
  case (Cons p ps)
  then obtain i where i: "outer_index s p = Some i" by auto
  show ?case
  proof (cases "idx \<le> i")
    case True
    show ?thesis
    proof (cases "i = idx")
      case False
      with True have lt: "idx < i" by simp
      from Cons obtain r where r: "outer_walk s idx nw ps = Some r" "case r of
        Inl p \<Rightarrow> p \<in> set ps \<and> outer_index s p = Some idx
      | Inr qs \<Rightarrow> (\<exists>as bs. ps = as @ bs \<and> qs = as @ nw # bs \<and> (\<forall>a \<in> set as. \<exists>i. outer_index s a = Some i \<and> idx < i)
                    \<and> (\<forall>b \<in> set bs. \<exists>i. outer_index s b = Some i \<and> i < idx))" by auto
      show ?thesis
      proof (cases r)
        case (Inl q)
        with r i True False show ?thesis by auto
      next
        case (Inr qs)
        with r(2) obtain as bs where ab: "ps = as @ bs" "qs = as @ nw # bs" "\<forall>a \<in> set as. \<exists>i. outer_index s a = Some i \<and> idx < i"
          "\<forall>b \<in> set bs. \<exists>i. outer_index s b = Some i \<and> i < idx" by auto
        then have "p # ps = (p # as) @ bs \<and> p # qs = (p # as) @ nw # bs \<and> (\<forall>a \<in> set (p # as). \<exists>i. outer_index s a = Some i \<and> idx < i)"
          using i lt by auto
        with ab(4) have ex: "\<exists>as bs. p # ps = as @ bs \<and> p # qs = as @ nw # bs \<and> (\<forall>a \<in> set as. \<exists>i. outer_index s a = Some i \<and> idx < i)
            \<and> (\<forall>b \<in> set bs. \<exists>i. outer_index s b = Some i \<and> i < idx)"
          by (intro exI[of _ "p # as"] exI[of _ bs]) blast
        have "outer_walk s idx nw (p # ps) = Some (Inr (p # qs))" using r(1) Inr i True False by simp
        then show ?thesis using ex by (intro exI[of _ "Inr (p # qs)"]) (simp only: sum.case simp_thms)
      qed
    qed (use i in auto)
  next
    case False
    have "\<forall>b \<in> set (p # ps). \<exists>j. outer_index s b = Some j \<and> j < idx"
      using Cons.prems i False by (auto simp: above_def)
    then have ex: "\<exists>as bs. p # ps = as @ bs \<and> nw # p # ps = as @ nw # bs \<and> (\<forall>a \<in> set as. \<exists>i. outer_index s a = Some i \<and> idx < i)
            \<and> (\<forall>b \<in> set bs. \<exists>i. outer_index s b = Some i \<and> i < idx)"
      by (intro exI[of _ "[]"] exI[of _ "p # ps"]) simp
    have "outer_walk s idx nw (p # ps) = Some (Inr (nw # p # ps))" using i False by simp
    then show ?thesis using ex by (intro exI[of _ "Inr (nw # p # ps)"]) (simp only: sum.case simp_thms)
  qed
qed simp

lemma FindOuter_ok:
  assumes ok: "outers_ok s" and idx: "0 \<le> idx" "idx < int (length (fstack s))" and nw: "fouters s (ealloc E s) = None"
  shows "\<exists>p s'. FindOuter E idx s = Some (p, s') \<and> outers_ok s' \<and> outer_index s' p = Some idx
     \<and> s' = s\<lparr>fopen := fopen s', fouters := fouters s'\<rparr> \<and> (\<forall>q. fouters s q \<noteq> None \<longrightarrow> fouters s' q = fouters s q)"
proof -
  let ?nw = "ealloc E s"
  have srt: "sorted_wrt (above s) (fopen s)" and mem: "\<forall>p \<in> set (fopen s). outer_index s p \<noteq> None"
    using ok by (auto simp: outers_ok_list_def)
  from outer_walk_ok[OF srt mem, of idx ?nw] obtain r where r: "outer_walk s idx ?nw (fopen s) = Some r"
    "case r of Inl p \<Rightarrow> p \<in> set (fopen s) \<and> outer_index s p = Some idx
      | Inr qs \<Rightarrow> (\<exists>as bs. fopen s = as @ bs \<and> qs = as @ ?nw # bs \<and> (\<forall>a \<in> set as. \<exists>i. outer_index s a = Some i \<and> idx < i)
                    \<and> (\<forall>b \<in> set bs. \<exists>i. outer_index s b = Some i \<and> i < idx))" by blast
  show ?thesis
  proof (cases r)
    case (Inl p)
    then show ?thesis using r ok by (intro exI[of _ p] exI[of _ s]) (simp add: FindOuter_def Let_def)
  next
    case (Inr qs)
    with r(2) obtain as bs where ab: "fopen s = as @ bs" "qs = as @ ?nw # bs" "\<forall>a \<in> set as. \<exists>i. outer_index s a = Some i \<and> idx < i"
      "\<forall>b \<in> set bs. \<exists>i. outer_index s b = Some i \<and> i < idx" by auto
    let ?s = "s\<lparr>fopen := qs, fouters := (fouters s)(?nw \<mapsto> OuterOpen idx)\<rparr>"
    note oi = outer_index_new[OF nw, where ps = qs and idx = idx]
    have nin: "?nw \<notin> set as" "?nw \<notin> set bs" using ab(3,4) nw by (auto simp: outer_index_def)
    have old: "above ?s x y" if "above s x y" for x y
      using that nw unfolding above_def oi by (auto simp: outer_index_def)
    have "sorted_wrt (above ?s) (as @ bs)"
      by (rule sorted_wrt_mono_rel[OF old]) (use srt ab(1) in auto)
    moreover have "above ?s a ?nw" if "a \<in> set as" for a
      using that ab(3) nin unfolding above_def oi by auto
    moreover have "above ?s ?nw b" if "b \<in> set bs" for b
      using that ab(4) nin unfolding above_def oi by auto
    ultimately have "sorted_wrt (above ?s) qs" unfolding ab(2) sorted_wrt_append by simp
    moreover have "p \<in> set qs \<longleftrightarrow> outer_index ?s p \<noteq> None" for p
      using ok ab(1,2) unfolding oi outers_ok_list_def by auto
    moreover have "0 \<le> i \<and> i < int (length (fstack ?s))" if "outer_index ?s p = Some i" for p i
      using that ok idx unfolding oi outers_ok_list_def by (auto split: if_splits)
    ultimately have "outers_ok ?s" unfolding outers_ok_list_def by simp
    moreover have "outer_index ?s ?nw = Some idx" unfolding oi by simp
    moreover have "FindOuter E idx s = Some (?nw, ?s)" using r(1) Inr by (simp add: FindOuter_def Let_def)
    ultimately show ?thesis using nw by (intro exI[of _ ?nw] exI[of _ ?s]) auto
  qed
qed

lemma outers_unique:
  assumes "outers_ok s" "outer_index s p = Some i" "outer_index s q = Some i"
  shows "p = q"
proof (rule ccontr)
  assume "p \<noteq> q"
  have "p \<in> set (fopen s)" "q \<in> set (fopen s)" using assms by (auto simp: outers_ok_list_def)
  then obtain m n where mn: "m < length (fopen s)" "fopen s ! m = p" "n < length (fopen s)" "fopen s ! n = q"
    by (auto simp: in_set_conv_nth)
  with \<open>p \<noteq> q\<close> have "m \<noteq> n" by auto
  have "above s (fopen s ! j) (fopen s ! k)" if "j < k" "k < length (fopen s)" for j k
    using assms(1) that by (auto simp: outers_ok_list_def sorted_wrt_iff_nth_less)
  from this[of m n] this[of n m] mn \<open>m \<noteq> n\<close> have "above s p q \<or> above s q p" by (meson linorder_neqE_nat)
  with assms(2,3) show False by (auto simp: above_def)
qed

lemma FindOuter_again:
  assumes ok: "outers_ok s" and p: "outer_index s p = Some idx"
  shows "FindOuter E idx s = Some (p, s)"
proof -
  have srt: "sorted_wrt (above s) (fopen s)" and mem: "\<forall>p \<in> set (fopen s). outer_index s p \<noteq> None" and ps: "p \<in> set (fopen s)"
    using ok p by (auto simp: outers_ok_list_def)
  from outer_walk_ok[OF srt mem, of idx "ealloc E s"] obtain r where r: "outer_walk s idx (ealloc E s) (fopen s) = Some r"
    "case r of Inl p \<Rightarrow> p \<in> set (fopen s) \<and> outer_index s p = Some idx
      | Inr qs \<Rightarrow> (\<exists>as bs. fopen s = as @ bs \<and> qs = as @ ealloc E s # bs \<and> (\<forall>a \<in> set as. \<exists>i. outer_index s a = Some i \<and> idx < i)
                    \<and> (\<forall>b \<in> set bs. \<exists>i. outer_index s b = Some i \<and> i < idx))" by blast
  show ?thesis
  proof (cases r)
    case (Inl q)
    with r(2) outers_unique[OF ok _ p] have "q = p" by auto
    with r(1) Inl show ?thesis by (simp add: FindOuter_def Let_def)
  next
    case (Inr qs)
    with r(2) obtain as bs where "fopen s = as @ bs" "\<forall>a \<in> set as. \<exists>i. outer_index s a = Some i \<and> idx < i"
      "\<forall>b \<in> set bs. \<exists>i. outer_index s b = Some i \<and> i < idx" by auto
    with ps have "\<exists>i. outer_index s p = Some i \<and> i \<noteq> idx" by fastforce
    with p show ?thesis by simp
  qed
qed

text \<open>
  C25: Closures share captured variables.  Asking for the captured variable of a live register answers an outer that
  reads the register, keeps all others as they were, and asking again, for another closure, answers the same outer:
  an assignment through one closure is seen by the register and by the other closures.
\<close>

theorem captured_variables_are_shared:
  assumes "outers_ok s" "0 \<le> idx" "idx < int (length (fstack s))"
    and "fouters s (ealloc E s) = None"
  shows "\<exists>p s'. FindOuter E idx s = Some (p, s') \<and> outers_ok s' \<and> outer_value s' p = peek idx s
     \<and> (\<forall>q. outer_value s q \<noteq> None \<longrightarrow> outer_value s' q = outer_value s q)
     \<and> FindOuter E idx s' = Some (p, s')
     \<and> (\<forall>v. \<exists>s''. outer_assign p v s' = Some s'' \<and> outer_value s'' p = Some v \<and> peek idx s'' = Some v)"
proof -
  from FindOuter_ok[OF assms] obtain p s' where p: "FindOuter E idx s = Some (p, s')" "outers_ok s'"
    "outer_index s' p = Some idx" "s' = s\<lparr>fopen := fopen s', fouters := fouters s'\<rparr>"
    "\<forall>q. fouters s q \<noteq> None \<longrightarrow> fouters s' q = fouters s q" by blast
  have st: "fstack s' = fstack s" by (subst p(4)) simp
  have fo: "fouters s' p = Some (OuterOpen idx)"
    using p(3) by (auto simp: outer_index_def split: option.splits outer.splits)
  have "FindOuter E idx s' = Some (p, s')" by (rule FindOuter_again[OF p(2,3)])
  moreover have "outer_value s' r = outer_value s r" if "outer_value s r \<noteq> None" for r
  proof -
    have "fouters s r \<noteq> None" using that by (cases "fouters s r") (simp_all add: outer_value_def)
    with p(5) show ?thesis by (intro outer_value_cong st) blast
  qed
  moreover have "outer_value s' p = peek idx s" by (simp add: outer_value_def fo peek_def st)
  moreover have "\<exists>s''. outer_assign p v s' = Some s'' \<and> outer_value s'' p = Some v \<and> peek idx s'' = Some v" for v
  proof -
    from peek_poke[of idx s' v] assms(2,3) st obtain s'' where s'': "poke idx v s' = Some s''" "s'' = s'\<lparr>fstack := fstack s''\<rparr>"
      "\<forall>j. peek j s'' = (if j = idx then Some v else peek j s')" by auto
    have "fouters s'' = fouters s'" by (subst s''(2)) simp
    with s'' fo show ?thesis by (simp add: outer_assign_def outer_value_def)
  qed
  ultimately show ?thesis using p(1,2) by auto
qed

definition sample_frameenv :: frameenv where
  "sample_frameenv =
     \<lparr>eproto = (\<lambda>_. \<lparr>pnparameters = 1, pstacksize = 3, pvarparams = False, pndefaults = 0, pbgenerator = True, pouters = [], pdefaultregs = []\<rparr>),
      enative = (\<lambda>_. \<lparr>nfunction = (\<lambda>s. (0, s)), nparamscheck = 0, ntypecheck = [], nouters = [], nenv = None\<rparr>),
      eweakobj = (\<lambda>_. ONull), eweakref = (\<lambda>_. 0),
      ealloc = (\<lambda>s. if fouters s 88 = None then 88 else if fouters s 96 = None then 96 else 104)\<rparr>"

lemma captured_variables_are_shared_witness:
  "\<exists>p s'. FindOuter sample_frameenv 5 sample_vm = Some (p, s') \<and> outer_value s' p = Some (OInteger 5)
     \<and> FindOuter sample_frameenv 5 s' = Some (p, s')"
proof -
  have "outers_ok sample_vm" using sample_vm_ok by (simp add: vm_ok_def)
  moreover have "fouters sample_vm (ealloc sample_frameenv sample_vm) = None" by (simp add: sample_vm_def sample_frameenv_def)
  moreover have "length (fstack sample_vm) = 40" "peek 5 sample_vm = Some (OInteger 5)" by (simp_all add: sample_vm_def peek_def)
  ultimately show ?thesis using captured_variables_are_shared[of sample_vm 5 sample_frameenv] by auto
qed

end
