(* ===== verification/GS_Call.thy ===== *)
theory GS_Call
  imports GS_Frame
begin

text \<open>
  Calls (GSvm.cpp): binding of parameters, starting a script call or a generator, native calls, tail calls,
  exception traps and the unwinding of frames.
\<close>

section \<open>Parameters\<close>

text \<open>The surplus arguments move from the stack into a new array.\<close>

fun take_args :: "nat \<Rightarrow> int \<Rightarrow> fvm \<Rightarrow> (gsobj list \<times> fvm) option" where
  "take_args 0 i s = Some ([], s)"
| "take_args (Suc n) i s =
     do {
       v \<leftarrow> peek i s;
       s1 \<leftarrow> poke i ONull s;
       (vs, s2) \<leftarrow> take_args n (i + 1) s1;
       Some (v # vs, s2)
     }"

definition wrong_parameters :: "int \<Rightarrow> string \<Rightarrow> int \<Rightarrow> string" where
  "wrong_parameters nargs how n =
     ''wrong number of parameters ('' @ int_dec nargs @ '' passed, '' @ how @ int_dec n @ '' required)''"

definition bind_parameters :: "frameenv \<Rightarrow> gsclosure \<Rightarrow> int \<Rightarrow> int \<Rightarrow> fvm \<Rightarrow> (bool \<times> fvm) option" where
  "bind_parameters E c args stackbase s =
     (let f = eproto E (cfunction c) in
      if pvarparams f then
        (let paramssize = pnparameters f - 1 in
         if args < paramssize then Some (fail_with (wrong_parameters args ''at least '' paramssize) s)
         else do {
           (vs, s1) \<leftarrow> take_args (nat (args - paramssize)) (stackbase + paramssize) s;
           let arr = ealloc E s1;
           s2 \<leftarrow> poke (stackbase + paramssize) (OArray arr)
                  (s1\<lparr>farrays := (farrays s1)(arr \<mapsto> \<lparr>avalues = vs, max_capacity = -1, element_type = None\<rparr>)\<rparr>);
           Some (True, s2)
         })
      else if pnparameters f \<noteq> args then
        (let ndef = pndefaults f; diff = pnparameters f - args in
         if ndef \<noteq> 0 \<and> args < pnparameters f \<and> diff \<le> ndef then
           map_option (\<lambda>s1. (True, s1)) (load_regs (drop (nat (ndef - diff)) (cdefaults c)) (stackbase + args) s)
         else Some (fail_with (wrong_parameters args [] (pnparameters f)) s))
      else Some (True, s))"

section \<open>Script calls\<close>

definition new_generator :: "gsobj \<Rightarrow> generator" where
  "new_generator clo = \<lparr>gclosure = clo, gstack = [], gci = new_callinfo 0 0, getraps = [], gstate = gRunning\<rparr>"

definition StartCall :: "frameenv \<Rightarrow> ptr \<Rightarrow> int \<Rightarrow> int \<Rightarrow> int \<Rightarrow> bool \<Rightarrow> fvm \<Rightarrow> (bool \<times> fvm) option" where
  "StartCall E cp target args stackbase tailcall s =
     do {
       c \<leftarrow> fclosures s cp;
       let f = eproto E (cfunction c);
       (ok1, s1) \<leftarrow> bind_parameters E c args stackbase s;
       (if \<not> ok1 then Some (False, s1) else
       do {
         s2 \<leftarrow> (case cenv c of None \<Rightarrow> Some s1 | Some w \<Rightarrow> poke stackbase (eweakobj E w) s1);
         (ok2, s3) \<leftarrow> EnterFrame stackbase (stackbase + pstacksize f) tailcall s2;
         (if \<not> ok2 then Some (False, s3) else
         do {
           s4 \<leftarrow> upd_ci (\<lambda>ci. ci\<lparr>cclosure := OClosure cp, cip := 0, ctarget := int32 target\<rparr>) s3;
           (if \<not> pbgenerator f then Some (True, s4) else
           do {
             let gp = ealloc E s4;
             (ok3, s5) \<leftarrow> Yield E gp (pstacksize f) (s4\<lparr>fgens := (fgens s4)(gp \<mapsto> new_generator (OClosure cp))\<rparr>);
             (if \<not> ok3 then Some (False, s5) else
             do {
               (_, _, s6) \<leftarrow> Return 1 target ONull s5;
               s7 \<leftarrow> poke (fbase s6 + target) (OGenerator gp) s6;
               Some (True, s7)
             })
           })
         })
       })
     }"

definition TailCall :: "frameenv \<Rightarrow> ptr \<Rightarrow> int \<Rightarrow> nat \<Rightarrow> fvm \<Rightarrow> (bool \<times> fvm) option" where
  "TailCall E cp parambase nparams s =
     (case fframes s of
        [] \<Rightarrow> None
      | ci # cis \<Rightarrow>
          if cisroot ci then Some (fail_with ''root calls cannot invoke tailcalls'' s)
          else do {
            vs \<leftarrow> save_regs nparams (fbase s + parambase) s;
            s1 \<leftarrow> load_regs vs (fbase s) s;
            (ok, s2) \<leftarrow> StartCall E cp (ctarget ci) (int nparams) (fbase s) True s1;
            Some (ok, if ftop s2 \<le> ftop s then s2\<lparr>ftop := ftop s\<rparr> else s2)
          })"

section \<open>Native calls\<close>

abbreviation MAX_NATIVE_CALLS :: int where "MAX_NATIVE_CALLS \<equiv> 100"
abbreviation GS_SUSPEND_FLAG :: int where "GS_SUSPEND_FLAG \<equiv> -666"
abbreviation GS_TAILCALL_FLAG :: int where "GS_TAILCALL_FLAG \<equiv> -777"

text \<open>\<open>Raise_ParamTypeError\<close>: the names of the first 16 types of the mask, separated by bars.\<close>

fun join_bar :: "string list \<Rightarrow> string" where
  "join_bar [] = []"
| "join_bar [x] = x"
| "join_bar (x # xs) = x @ ''|'' @ join_bar xs"

definition mask_names :: "gsint \<Rightarrow> string list" where
  "mask_names m = map (\<lambda>i. case IdType2Name (push_bit i 1) of Some n \<Rightarrow> n | None \<Rightarrow> '''') (filter (\<lambda>i. bit m i) [0..<16])"

definition param_type_error :: "nat \<Rightarrow> gsint \<Rightarrow> gsobj \<Rightarrow> string" where
  "param_type_error i m v =
     ''parameter '' @ int_dec (int i) @ '' has an invalid type '' @ [CHR 0x27] @ GetTypeName v @ [CHR 0x27]
       @ '' ; expected: '' @ [CHR 0x27] @ join_bar (mask_names m) @ [CHR 0x27]"

text \<open>The first argument its mask rejects.\<close>

fun check_params :: "nat \<Rightarrow> gsint list \<Rightarrow> gsobj list \<Rightarrow> string option" where
  "check_params i (m # ms) (v # vs) =
     (if typemask_accepts m v then check_params (i + 1) ms vs else Some (param_type_error i m v))"
| "check_params i _ _ = None"

definition params_count_ok :: "int \<Rightarrow> int \<Rightarrow> bool" where
  "params_count_ok check nargs = (check = 0 \<or> \<not> (0 < check \<and> check \<noteq> nargs \<or> check < 0 \<and> nargs < - check))"

record native_result =
  nok :: bool
  nretval :: gsobj
  nsuspend :: bool
  ntailcall :: bool

definition CallNative :: "frameenv \<Rightarrow> ptr \<Rightarrow> int \<Rightarrow> int \<Rightarrow> gsobj \<Rightarrow> int \<Rightarrow> fvm \<Rightarrow> (native_result \<times> fvm) option" where
  "CallNative E np nargs newbase retval target s =
     (let n = enative E np; newtop = newbase + nargs + int (length (nouters n));
          failed = (\<lambda>s'. Some (\<lparr>nok = False, nretval = retval, nsuspend = False, ntailcall = False\<rparr>, s')) in
      if MAX_NATIVE_CALLS < fnativecalls s + 1 then failed (snd (fail_with ''Native stack overflow'' s))
      else if \<not> params_count_ok (nparamscheck n) nargs then failed (snd (fail_with ''wrong number of parameters'' s))
      else do {
        args \<leftarrow> save_regs (nat nargs) newbase s;
        (case check_params 0 (ntypecheck n) args of
           Some msg \<Rightarrow> failed (snd (fail_with msg s))
         | None \<Rightarrow>
             do {
               (ok, s1) \<leftarrow> EnterFrame newbase newtop False s;
               (if \<not> ok then failed s1 else
               do {
                 s2 \<leftarrow> upd_ci (\<lambda>ci. ci\<lparr>cclosure := ONativeClosure np, ctarget := int32 target\<rparr>) s1;
                 s3 \<leftarrow> load_regs (nouters n) (newbase + nargs) s2;
                 s4 \<leftarrow> (case nenv n of None \<Rightarrow> Some s3 | Some w \<Rightarrow> poke newbase (eweakobj E w) s3);
                 let (ret, s5) = nfunction n (s4\<lparr>fnativecalls := fnativecalls s4 + 1\<rparr>);
                 let s6 = s5\<lparr>fnativecalls := fnativecalls s5 - 1\<rparr>;
                 (if ret = GS_TAILCALL_FLAG then
                    Some (\<lparr>nok = True, nretval = retval, nsuspend = False, ntailcall = True\<rparr>, s6)
                  else if ret \<noteq> GS_SUSPEND_FLAG \<and> ret < 0 then
                    do { s7 \<leftarrow> LeaveFrame s6; failed s7 }
                  else do {
                    v \<leftarrow> (if ret \<noteq> 0 then peek (ftop s6 - 1) s6 else Some ONull);
                    s7 \<leftarrow> LeaveFrame s6;
                    Some (\<lparr>nok = True, nretval = v, nsuspend = (ret = GS_SUSPEND_FLAG), ntailcall = False\<rparr>, s7)
                  })
               })
             })
      })"

section \<open>Exception traps\<close>

text \<open>The instructions \<open>PUSHTRAP\<close> and \<open>POPTRAP\<close>, with the counter of the running \<open>Execute\<close>; None when
  a frame pops more traps than it pushed.\<close>

definition op_pushtrap :: "int \<Rightarrow> int \<Rightarrow> fvm \<times> int \<Rightarrow> (fvm \<times> int) option" where
  "op_pushtrap target offset st =
     (case st of (s, traps) \<Rightarrow>
        (case fframes s of
           [] \<Rightarrow> None
         | ci # cis \<Rightarrow>
             Some (s\<lparr>ftraps := \<lparr>xstackbase = fbase s, xstacksize = ftop s, xip = cip ci + offset, xtarget = target\<rparr> # ftraps s,
                     fframes := ci\<lparr>cetraps := cetraps ci + 1\<rparr> # cis\<rparr>, traps + 1)))"

fun op_poptrap :: "nat \<Rightarrow> fvm \<times> int \<Rightarrow> (fvm \<times> int) option" where
  "op_poptrap 0 st = Some st"
| "op_poptrap (Suc n) (s, traps) =
     (case (fframes s, ftraps s) of
        (ci # cis, t # ts) \<Rightarrow>
          if cetraps ci = 0 then None else op_poptrap n (s\<lparr>ftraps := ts, fframes := ci\<lparr>cetraps := cetraps ci - 1\<rparr> # cis\<rparr>, traps - 1)
      | _ \<Rightarrow> None)"

datatype unwound = Caught fvm int | Escaped fvm int

lemma close_outers_frames: "close_outers idx ps s = Some s' \<Longrightarrow> fframes s' = fframes s"
  by (induction ps arbitrary: s) (auto split: option.splits if_splits)

lemma null_down_frames: "null_down hi lo s = Some s' \<Longrightarrow> fframes s' = fframes s"
proof (induction hi lo s rule: null_down.induct)
  case (1 hi lo s)
  show ?case
  proof (cases "lo \<le> hi")
    case True
    with 1(2) obtain s1 where s1: "poke hi ONull s = Some s1" "null_down (hi - 1) lo s1 = Some s'"
      by (subst (asm) null_down.simps) (auto split: bind_splits)
    from 1(1)[OF True this] s1(1) show ?thesis by (auto simp: poke_def split: if_splits)
  next
    case False
    with 1(2) show ?thesis by (subst (asm) null_down.simps) simp
  qed
qed

lemma LeaveFrame_frames: "LeaveFrame s = Some s' \<Longrightarrow> \<exists>ci. fframes s = ci # fframes s'"
  by (auto simp: LeaveFrame_def CloseOuters_def Let_def split: list.splits bind_splits
      dest!: null_down_frames close_outers_frames)

text \<open>The loop at \<open>exception_trap\<close>: frames are left until one has a trap or the root call of this \<open>Execute\<close> has
  been left.\<close>

definition kill_of :: "callinfo \<Rightarrow> fvm \<Rightarrow> fvm" where
  "kill_of ci s = (case cgenerator ci of None \<Rightarrow> s | Some g \<Rightarrow> Kill g s)"

lemma kill_of_frames [simp]: "fframes (kill_of ci s) = fframes s"
  by (simp add: kill_of_def Kill_def split: option.split)

function unwind :: "int \<Rightarrow> gsobj \<Rightarrow> fvm \<Rightarrow> int \<Rightarrow> unwound option" where
  "unwind last_top err s traps =
     (case fframes s of
        [] \<Rightarrow> Some (Escaped s traps)
      | ci # cis \<Rightarrow>
          if 0 < cetraps ci then
            (case ftraps s of
               [] \<Rightarrow> None
             | et # ets \<Rightarrow>
                 do {
                   s1 \<leftarrow> poke (xstackbase et + xtarget et) err
                          (s\<lparr>ftop := xstacksize et, fbase := xstackbase et, ftraps := ets,
                             fframes := ci\<lparr>cip := xip et, cetraps := cetraps ci - 1\<rparr> # cis\<rparr>);
                   s2 \<leftarrow> null_down last_top (xstacksize et) s1;
                   Some (Caught s2 (traps - 1))
                 })
          else (case LeaveFrame (kill_of ci s) of
                  None \<Rightarrow> None
                | Some s1 \<Rightarrow> if cisroot ci then Some (Escaped s1 traps) else unwind last_top err s1 traps))"
  by pat_completeness auto
termination
  by (relation "measure (\<lambda>(_, _, s, _). length (fframes s))") (auto dest!: LeaveFrame_frames)

declare unwind.simps [simp del]

text \<open>\<open>exception_trap\<close>: \<open>errobj\<close> is the object of the error, \<open>handler\<close> the error handler of the script.\<close>

definition exception_trap ::
    "(vmerr option \<Rightarrow> gsobj) \<Rightarrow> (gsobj \<Rightarrow> fvm \<Rightarrow> fvm) \<Rightarrow> bool \<Rightarrow> bool \<Rightarrow> fvm \<Rightarrow> int \<Rightarrow> unwound option" where
  "exception_trap errobj handler notifyall raiseerror s traps =
     (let e = flasterror s; currerror = errobj e; last_top = ftop s;
          s1 = (if notifyall \<or> (traps = 0 \<and> raiseerror) then handler currerror s else s) in
      case unwind last_top currerror s1 traps of
        Some (Escaped s2 n) \<Rightarrow> Some (Escaped (s2\<lparr>flasterror := e\<rparr>) n)
      | r \<Rightarrow> r)"

section \<open>Closures and tail calls\<close>

text \<open>The captured variables of a new closure: a register of this frame, or one of the current closure's.\<close>

fun capture_outers :: "frameenv \<Rightarrow> gsobj list \<Rightarrow> outervar list \<Rightarrow> fvm \<Rightarrow> (gsobj list \<times> fvm) option" where
  "capture_outers E cur [] s = Some ([], s)"
| "capture_outers E cur (v # vs) s =
     do {
       (o1, s1) \<leftarrow> (case otype v of
           otLOCAL \<Rightarrow> map_option (\<lambda>(p, s1). (OOuter p, s1)) (FindOuter E (fbase s + sint (rawval (osrc v))) s)
         | otOUTER \<Rightarrow> if unat (rawval (osrc v)) < length cur then Some (cur ! unat (rawval (osrc v)), s) else None);
       (os, s2) \<leftarrow> capture_outers E cur vs s1;
       Some (o1 # os, s2)
     }"

fun read_regs :: "int list \<Rightarrow> fvm \<Rightarrow> gsobj list option" where
  "read_regs [] s = Some []"
| "read_regs (r # rs) s = do { v \<leftarrow> peek (fbase s + r) s; vs \<leftarrow> read_regs rs s; Some (v # vs) }"

text \<open>\<open>CLOSURE_OP\<close> for a closure of the prototype at \<open>fp\<close>, run by the closure at \<open>cur\<close>: the address of the new
  closure, or None inside for an environment that cannot be bound.\<close>

definition CLOSURE_OP :: "frameenv \<Rightarrow> ptr \<Rightarrow> ptr \<Rightarrow> int \<Rightarrow> fvm \<Rightarrow> (ptr option \<times> fvm) option" where
  "CLOSURE_OP E cur fp boundtarget s =
     do {
       c \<leftarrow> fclosures s cur;
       (os, s1) \<leftarrow> capture_outers E (couters c) (pouters (eproto E fp)) s;
       ds \<leftarrow> read_regs (pdefaultregs (eproto E fp)) s1;
       let nw = ealloc E s1;
       let clo = \<lparr>cfunction = fp, cenv = None, croot = croot c, cbase_class = None, couters = os, cdefaults = ds\<rparr>;
       (if boundtarget = 0xFF then Some (Some nw, s1\<lparr>fclosures := (fclosures s1)(nw \<mapsto> clo)\<rparr>)
        else do {
          v \<leftarrow> peek (fbase s1 + boundtarget) s1;
          (if type_of v \<in> {OT_TABLE, OT_CLASS, OT_INSTANCE, OT_ARRAY}
           then Some (Some nw, s1\<lparr>fclosures := (fclosures s1)(nw \<mapsto> clo\<lparr>cenv := Some (eweakref E v)\<rparr>)\<rparr>)
           else Some (None, snd (fail_with (''cannot bind a '' @ GetTypeName v @ '' as environment object'') s1)))
        })
     }"

text \<open>\<open>TAILCALL\<close> of a script closure that is no generator.\<close>

definition op_tailcall :: "frameenv \<Rightarrow> ptr \<Rightarrow> int \<Rightarrow> nat \<Rightarrow> fvm \<Rightarrow> (bool \<times> fvm) option" where
  "op_tailcall E cp from_reg nargs s =
     do {
       ci \<leftarrow> (case fframes s of [] \<Rightarrow> None | ci # _ \<Rightarrow> Some ci);
       s1 \<leftarrow> (if fopen s \<noteq> [] then CloseOuters (fbase s) s else Some s);
       vs \<leftarrow> save_regs nargs (fbase s + from_reg) s1;
       s2 \<leftarrow> load_regs vs (fbase s) s1;
       (ok, s3) \<leftarrow> StartCall E cp (ctarget ci) (int nargs) (fbase s) True s2;
       Some (ok, if ok \<and> ftop s3 \<le> ftop s then s3\<lparr>ftop := ftop s\<rparr> else s3)
     }"

section \<open>Calls and returns\<close>


lemma frames_ok_mono: "frames_ok cis base len \<Longrightarrow> len \<le> len' \<Longrightarrow> frames_ok cis base len'"
  by (induction cis arbitrary: base) auto

lemma outers_ok_grow:
  assumes "outers_ok_list ps s" "fouters s' = fouters s" "length (fstack s) \<le> length (fstack s')"
  shows "outers_ok_list ps s'"
  using assms by (auto simp: outers_ok_list_def above_def[abs_def] outer_index_def split: option.splits outer.splits)
     (metis (no_types, lifting) less_le_trans of_nat_le_iff option.simps(5) outer.simps(5))+

lemma EnterFrame_ok:
  assumes ok: "vm_ok s" and b: "fbase s \<le> newbase" "newbase \<le> ftop s" "newbase \<le> newtop" "int (length (fstack s)) < 2 ^ 31"
    and fits: "newtop + MIN_STACK_OVERHEAD \<le> int (length (fstack s)) \<or> fmetacalls s = 0"
  shows "\<exists>s1. EnterFrame newbase newtop False s = Some (True, s1) \<and> vm_ok s1
     \<and> fframes s1 = new_callinfo (newbase - fbase s) (ftop s - fbase s) # fframes s \<and> fbase s1 = newbase \<and> ftop s1 = newtop
     \<and> ftraps s1 = ftraps s \<and> fgens s1 = fgens s \<and> fouters s1 = fouters s
     \<and> newtop + MIN_STACK_OVERHEAD \<le> int (length (fstack s1)) \<and> length (fstack s) \<le> length (fstack s1)
     \<and> (\<forall>j < int (length (fstack s)). peek j s1 = peek j s)"
proof -
  have bounds: "0 \<le> fbase s" "fbase s \<le> ftop s" "ftop s < int (length (fstack s))" using ok by (simp_all add: vm_ok_def)
  have i32: "int32 (newbase - fbase s) = newbase - fbase s" "int32 (ftop s - fbase s) = ftop s - fbase s"
    using bounds b by (intro int32_id; simp)+
  let ?ci = "new_callinfo (newbase - fbase s) (ftop s - fbase s)"
  define st where "st = (if int (length (fstack s)) < newtop + MIN_STACK_OVERHEAD
       then fstack s @ replicate (nat (newtop + 4 * MIN_STACK_OVERHEAD) - length (fstack s)) ONull else fstack s)"
  let ?s = "s\<lparr>fframes := ?ci # fframes s, fbase := newbase, ftop := newtop, fstack := st\<rparr>"
  have len: "newtop + MIN_STACK_OVERHEAD \<le> int (length st)" "length (fstack s) \<le> length st" by (auto simp: st_def)
  have e: "EnterFrame newbase newtop False s = Some (True, ?s)"
    using fits by (auto simp: EnterFrame_def i32 Let_def st_def)
  have "outers_ok ?s" by (rule outers_ok_grow[of _ s]) (use ok len(2) in \<open>simp_all add: vm_ok_def\<close>)
  moreover have "frames_ok (?ci # fframes s) newbase (int (length st))"
    using ok b bounds len(2) frames_ok_mono[of "fframes s" "fbase s" "int (length (fstack s))" "int (length st)"]
    by (simp add: new_callinfo_def vm_ok_def)
  ultimately have "vm_ok ?s" using b bounds len(1) by (simp add: vm_ok_def)
  moreover have "\<forall>j < int (length (fstack s)). peek j ?s = peek j s"
    using len(2) by (auto simp: peek_def st_def nth_append)
  ultimately show ?thesis using e len by (intro exI[of _ ?s]) simp
qed



section \<open>Unwinding\<close>

text \<open>The base of the frame below the given ones, and the base of the callee above it.\<close>

fun handler_base :: "int \<Rightarrow> callinfo list \<Rightarrow> int" where
  "handler_base base [] = base"
| "handler_base base (u # us) = handler_base (base - cprevstkbase u) us"

fun callee_base :: "int \<Rightarrow> int \<Rightarrow> callinfo list \<Rightarrow> int" where
  "callee_base lim base [] = lim"
| "callee_base lim base (u # us) = callee_base base (base - cprevstkbase u) us"

lemma callee_base_le:
  "frames_ok (us @ cis) base len \<Longrightarrow> base \<le> lim \<Longrightarrow> callee_base lim base us \<le> lim"
proof (induction us arbitrary: lim base)
  case (Cons u us)
  then have "callee_base base (base - cprevstkbase u) us \<le> base" by simp
  with Cons.prems show ?case by simp
qed simp

lemma handler_base_append: "handler_base base (us @ [u]) = handler_base base us - cprevstkbase u"
  by (induction us arbitrary: base) simp_all

lemma handler_base_le:
  "frames_ok (us @ cis) base len \<Longrightarrow> base \<le> lim \<Longrightarrow> handler_base base us \<le> callee_base lim base us"
  by (induction us arbitrary: lim base) simp_all

lemma kill_of_ok:
  "fbase (kill_of ci s) = fbase s" "ftop (kill_of ci s) = ftop s" "fstack (kill_of ci s) = fstack s"
  "fouters (kill_of ci s) = fouters s" "ftraps (kill_of ci s) = ftraps s" "flasterror (kill_of ci s) = flasterror s"
  "fopen (kill_of ci s) = fopen s"
  by (simp_all add: kill_of_def Kill_def split: option.split)

lemma kill_of_vm_ok: "vm_ok (kill_of ci s) = vm_ok s"
  using outers_ok_list_cong[of "kill_of ci s" s "fopen s"] by (simp add: vm_ok_def kill_of_ok)

lemma kill_of_views [simp]:
  "peek j (kill_of ci s) = peek j s" "outer_index (kill_of ci s) p = outer_index s p" "outer_value (kill_of ci s) p = outer_value s p"
  by (simp_all add: peek_def outer_index_def outer_value_def kill_of_ok split: option.split outer.split)

definition unwound_to :: "int \<Rightarrow> callinfo list \<Rightarrow> fvm \<Rightarrow> fvm \<Rightarrow> bool" where
  "unwound_to lim us s s' =
     (vm_ok s' \<and> fbase s' = handler_base (fbase s) us \<and> ftraps s' = ftraps s \<and> flasterror s' = flasterror s
      \<and> length (fstack s') = length (fstack s)
      \<and> (\<forall>p. outer_value s' p = outer_value s p)
      \<and> (\<forall>p i. outer_index s' p = Some i \<longrightarrow> outer_index s p = Some i \<and> i < callee_base lim (fbase s) us)
      \<and> (\<forall>j < callee_base lim (fbase s) us. peek j s' = peek j s))"

lemma leave_one:
  assumes "vm_ok s" "fframes s = u # cis"
  shows "\<exists>s'. LeaveFrame (kill_of u s) = Some s' \<and> fframes s' = cis \<and> unwound_to lim [u] s s' \<and> fbase s \<le> ftop s'"
proof -
  have k: "vm_ok (kill_of u s)" "fframes (kill_of u s) = u # cis" using assms by (simp_all add: kill_of_vm_ok)
  from LeaveFrame_ok[OF k] obtain s' where s': "LeaveFrame (kill_of u s) = Some s'" "vm_ok s'" "fframes s' = cis"
    "fbase s' = fbase s - cprevstkbase u" "ftop s' = fbase s - cprevstkbase u + cprevtop u" "length (fstack s') = length (fstack s)"
    "\<forall>p. outer_value s' p = outer_value s p" "\<forall>p i. outer_index s' p = Some i \<longleftrightarrow> outer_index s p = Some i \<and> i < fbase s"
    "\<forall>j. peek j s' = (if ftop s' \<le> j \<and> j \<le> ftop s then Some ONull else peek j s)"
    "ftraps s' = ftraps s" "flasterror s' = flasterror s" by (auto simp: kill_of_ok)
  have "cprevstkbase u \<le> cprevtop u" using assms by (simp add: vm_ok_def)
  then have top: "fbase s \<le> ftop s'" using s'(5) by simp
  then have "\<forall>j < fbase s. peek j s' = peek j s" using s'(9) by simp
  with s' top show ?thesis by (intro exI[of _ s']) (simp add: unwound_to_def)
qed

lemma unwound_to_trans:
  assumes u: "unwound_to lim [u] s s1" and us: "unwound_to (fbase s) us s1 s2"
    and fr: "frames_ok (us @ cis) (fbase s1) len" "fbase s1 \<le> fbase s"
  shows "unwound_to lim (u # us) s s2"
proof -
  have "callee_base (fbase s) (fbase s1) us \<le> fbase s" by (rule callee_base_le[OF fr])
  with u us show ?thesis by (auto simp: unwound_to_def)
qed

lemma unwind_frames:
  "vm_ok s \<Longrightarrow> fframes s = us @ cis \<Longrightarrow> \<forall>u \<in> set us. cetraps u = 0 \<and> \<not> cisroot u
     \<Longrightarrow> \<forall>p i. outer_index s p = Some i \<longrightarrow> i < lim
     \<Longrightarrow> \<exists>s'. unwind lt err s n = unwind lt err s' n \<and> fframes s' = cis \<and> unwound_to lim us s s'"
proof (induction us arbitrary: s lim)
  case Nil
  then show ?case by (intro exI[of _ s]) (simp add: unwound_to_def)
next
  case (Cons u us)
  from Cons.prems have f: "fframes s = u # us @ cis" by simp
  from leave_one[OF Cons.prems(1) f] obtain s1 where s1: "LeaveFrame (kill_of u s) = Some s1" "fframes s1 = us @ cis"
    "unwound_to lim [u] s s1" by blast
  have un: "unwind lt err s n = unwind lt err s1 n"
    using f s1(1) Cons.prems(3) by (subst unwind.simps) simp
  have "vm_ok s1" using s1(3) by (simp add: unwound_to_def)
  moreover have "\<forall>p i. outer_index s1 p = Some i \<longrightarrow> i < fbase s" using s1(3) by (simp add: unwound_to_def)
  ultimately obtain s' where s': "unwind lt err s1 n = unwind lt err s' n" "fframes s' = cis" "unwound_to (fbase s) us s1 s'"
    using Cons.IH[OF _ s1(2), of "fbase s"] Cons.prems(3) by auto
  have "frames_ok (us @ cis) (fbase s1) (int (length (fstack s1)))" "fbase s1 \<le> fbase s"
    using \<open>vm_ok s1\<close> s1(2,3) f Cons.prems(1) by (simp_all add: unwound_to_def vm_ok_def)
  from unwound_to_trans[OF s1(3) s'(3) this] show ?case using un s'(1,2) by auto
qed

text \<open>The innermost frame has a trap: the handler's frame and stack.\<close>

lemma catch_ok:
  assumes ok: "vm_ok s" and f: "fframes s = ci # cis" and ci: "0 < cetraps ci" and tr: "ftraps s = et # ets"
    and et: "xstackbase et = fbase s" "0 \<le> xtarget et" "xstackbase et + xtarget et < xstacksize et"
      "xstacksize et < int (length (fstack s))" and lt: "last_top < int (length (fstack s))"
  shows "\<exists>s'. unwind last_top err s traps = Some (Caught s' (traps - 1))
     \<and> fframes s' = ci\<lparr>cip := xip et, cetraps := cetraps ci - 1\<rparr> # cis \<and> ftraps s' = ets
     \<and> fbase s' = xstackbase et \<and> ftop s' = xstacksize et \<and> vm_ok s' \<and> fouters s' = fouters s
     \<and> (\<forall>j. peek j s' = (if xstacksize et \<le> j \<and> j \<le> last_top then Some ONull
          else if j = xstackbase et + xtarget et then Some err else peek j s))"
proof -
  let ?t = "xstackbase et + xtarget et"
  let ?s = "s\<lparr>ftop := xstacksize et, fbase := xstackbase et, ftraps := ets, fframes := ci\<lparr>cip := xip et, cetraps := cetraps ci - 1\<rparr> # cis\<rparr>"
  have b: "0 \<le> xstackbase et" using ok et(1) by (simp add: vm_ok_def)
  with peek_poke[of ?t ?s err] et(2,3,4) obtain s2 where
    s2: "poke ?t err ?s = Some s2" "s2 = ?s\<lparr>fstack := fstack s2\<rparr>" "length (fstack s2) = length (fstack s)"
      "\<forall>j. peek j s2 = (if j = ?t then Some err else peek j ?s)" by auto
  with null_down_ok[of "xstacksize et" last_top s2] b et(2,3) lt obtain s3 where
    s3: "null_down last_top (xstacksize et) s2 = Some s3" "s3 = s2\<lparr>fstack := fstack s3\<rparr>" "length (fstack s3) = length (fstack s2)"
      "\<forall>j. peek j s3 = (if xstacksize et \<le> j \<and> j \<le> last_top then Some ONull else peek j s2)" by auto
  have e2: "fframes s2 = fframes ?s" "fbase s2 = xstackbase et" "ftop s2 = xstacksize et" "ftraps s2 = ets"
    "fopen s2 = fopen s" "fouters s2 = fouters s" by (subst s2(2), simp)+
  have e3: "fframes s3 = ci\<lparr>cip := xip et, cetraps := cetraps ci - 1\<rparr> # cis" "fbase s3 = xstackbase et" "ftop s3 = xstacksize et" "ftraps s3 = ets"
    "fopen s3 = fopen s" "fouters s3 = fouters s" by (subst s3(2), simp add: e2)+
  have pk: "peek j s3 = (if xstacksize et \<le> j \<and> j \<le> last_top then Some ONull else if j = ?t then Some err else peek j s)" for j
  proof -
    have "peek j ?s = peek j s" by (simp add: peek_def)
    with s3(4) s2(4) show ?thesis by simp
  qed
  have "unwind last_top err s traps = Some (Caught s3 (traps - 1))"
    using f ci tr s2(1) s3(1) by (subst unwind.simps) simp
  moreover have "vm_ok s3"
  proof -
    have "outers_ok s3" using ok outers_ok_list_cong[OF e3(6)] s3(3) s2(3) by (simp add: e3(5) vm_ok_def)
    then show ?thesis using ok f et b s3(3) s2(3) by (auto simp: vm_ok_def e3)
  qed
  ultimately show ?thesis using e3 pk by (intro exI[of _ s3]) simp
qed

text \<open>
  C17: Exceptions reach the innermost handler.  When the innermost frames set no trap and the frame below has one,
  an error leaves exactly these frames and runs the handler: the stack base and top are those of the \<open>try\<close>, the
  error is in its variable, the trap is used up, and the registers of the handler's frame below its callee and all
  captured variables other than the error's are as at the throw.
\<close>

theorem exceptions_reach_handler:
  assumes ok: "vm_ok s" and f: "fframes s = us @ ci # cis" and us: "\<forall>u \<in> set us. cetraps u = 0 \<and> \<not> cisroot u"
    and ci: "0 < cetraps ci" and tr: "ftraps s = et # ets"
    and et: "xstackbase et = handler_base (fbase s) us" "0 \<le> xtarget et" "xstackbase et + xtarget et < xstacksize et"
      "callee_base (ftop s) (fbase s) us \<le> xstacksize et" "xstacksize et < int (length (fstack s))"
    and op: "\<forall>p i. outer_index s p = Some i \<longrightarrow> i < ftop s"
    and nh: "\<not> (notifyall \<or> traps = 0 \<and> raiseerror)"
  shows "\<exists>s'. exception_trap errobj handler notifyall raiseerror s traps = Some (Caught s' (traps - 1))
     \<and> fframes s' = ci\<lparr>cip := xip et, cetraps := cetraps ci - 1\<rparr> # cis \<and> ftraps s' = ets
     \<and> fbase s' = xstackbase et \<and> ftop s' = xstacksize et \<and> vm_ok s'
     \<and> peek (fbase s' + xtarget et) s' = Some (errobj (flasterror s))
     \<and> (\<forall>j < callee_base (ftop s) (fbase s) us. j \<noteq> fbase s' + xtarget et \<longrightarrow> peek j s' = peek j s)
     \<and> (\<forall>p. outer_index s p \<noteq> Some (fbase s' + xtarget et) \<longrightarrow> outer_value s' p = outer_value s p)"
proof -
  let ?err = "errobj (flasterror s)" and ?t = "xstackbase et + xtarget et" and ?lim = "callee_base (ftop s) (fbase s) us"
  from unwind_frames[OF ok f us op, of "ftop s" ?err traps] obtain s1 where
    s1: "unwind (ftop s) ?err s traps = unwind (ftop s) ?err s1 traps" "fframes s1 = ci # cis" "unwound_to (ftop s) us s s1" by blast
  note u = s1(3)[unfolded unwound_to_def]
  have "ftop s < int (length (fstack s1))" using ok u by (simp add: vm_ok_def)
  with catch_ok[of s1 ci cis et ets "ftop s" ?err traps] s1(2) u ci tr et obtain s3 where
    s3: "unwind (ftop s) ?err s1 traps = Some (Caught s3 (traps - 1))"
      "fframes s3 = ci\<lparr>cip := xip et, cetraps := cetraps ci - 1\<rparr> # cis" "ftraps s3 = ets" "fbase s3 = xstackbase et"
      "ftop s3 = xstacksize et" "vm_ok s3" "fouters s3 = fouters s1"
      "\<forall>j. peek j s3 = (if xstacksize et \<le> j \<and> j \<le> ftop s then Some ONull else if j = ?t then Some ?err else peek j s1)" by auto
  note pk = s3(8)[rule_format]
  from s1(1) s3(1) have "exception_trap errobj handler notifyall raiseerror s traps = Some (Caught s3 (traps - 1))"
    unfolding exception_trap_def Let_def if_not_P[OF nh] by simp
  moreover have "peek j s3 = peek j s" if "j < ?lim" "j \<noteq> ?t" for j using that u et(4) by (simp add: pk)
  moreover have "outer_value s3 p = outer_value s p" if "outer_index s p \<noteq> Some ?t" for p
  proof -
    have "peek i s3 = peek i s1" if i: "outer_index s1 p = Some i" for i
    proof -
      have "i < ?lim" "outer_index s p = Some i" using u i by blast+
      with \<open>outer_index s p \<noteq> Some ?t\<close> have "i < xstacksize et" "i \<noteq> ?t" using et(4) by auto
      then show ?thesis by (simp add: pk)
    qed
    with outer_value_stack[OF s3(7)] have "outer_value s3 p = outer_value s1 p" by blast
    with u show ?thesis by simp
  qed
  moreover have "peek ?t s3 = Some ?err" using et(3) by (simp add: pk)
  ultimately show ?thesis using s3(2-6) by (intro exI[of _ s3] conjI) simp_all
qed

definition trap_vm :: fvm where
  "trap_vm = sample_vm\<lparr>fframes := [new_callinfo 2 4, (new_callinfo 1 1)\<lparr>cetraps := 1\<rparr>],
     ftraps := [\<lparr>xstackbase = 2, xstacksize = 6, xip = 17, xtarget = 1\<rparr>]\<rparr>"

lemma trap_vm_ok: "vm_ok trap_vm"
  by (auto simp: vm_ok_def trap_vm_def sample_vm_def outers_ok_list_def outer_index_def new_callinfo_def split: if_splits)

lemma exceptions_reach_handler_witness:
  "\<exists>s'. exception_trap (\<lambda>_. OInteger 70) (\<lambda>_ s. s) False True trap_vm 1 = Some (Caught s' 0)
     \<and> fbase s' = 2 \<and> ftop s' = 6 \<and> peek 3 s' = Some (OInteger 70) \<and> outer_value s' 80 = Some (OInteger 6)"
proof -
  have "fframes trap_vm = [new_callinfo 2 4] @ (new_callinfo 1 1)\<lparr>cetraps := 1\<rparr> # []"
    "ftraps trap_vm = \<lparr>xstackbase = 2, xstacksize = 6, xip = 17, xtarget = 1\<rparr> # []"
    "\<forall>p i. outer_index trap_vm p = Some i \<longrightarrow> i < ftop trap_vm" "length (fstack trap_vm) = 40" "fbase trap_vm = 4" "ftop trap_vm = 10"
    "outer_value trap_vm 80 = Some (OInteger 6)" "outer_index trap_vm 80 = Some 6"
    by (simp_all add: trap_vm_def sample_vm_def outer_index_def outer_value_def peek_def)
  note t = this
  from exceptions_reach_handler[OF trap_vm_ok t(1) _ _ t(2) _ _ _ _ _ t(3),
      of False 1 True "\<lambda>_. OInteger 70" "\<lambda>_ s. s"] t(4-8)
  show ?thesis by (auto simp: new_callinfo_def)
qed

text \<open>
  C28: Uncaught exceptions leave the interpreter cleanly.  When no frame up to the root call has a trap, an error
  leaves exactly the frames of this run of the interpreter.  If it is to be reported (all exceptions are, or no
  trap is set and errors are raised), the error handler of the script runs first, on the stack as it is at the throw; it is
  assumed to leave the frames as they are, and what it leaves in the registers is the starting point.  From
  there the caller's frames, base and traps are back, its registers below the root call are untouched and every captured variable
  keeps its value; the last error is the original one again, whatever the handler did.
\<close>

theorem uncaught_exceptions_leave_frames:
  assumes s0: "s0 = (if notifyall \<or> traps = 0 \<and> raiseerror then handler (errobj (flasterror s)) s else s)"
    and ok: "vm_ok s0" and f: "fframes s0 = us @ ci # cis" and us: "\<forall>u \<in> set us. cetraps u = 0 \<and> \<not> cisroot u"
    and ci: "cetraps ci = 0" "cisroot ci"
    and op: "\<forall>p i. outer_index s0 p = Some i \<longrightarrow> i < ftop s0"
  shows "\<exists>s'. exception_trap errobj handler notifyall raiseerror s traps = Some (Escaped s' traps)
     \<and> fframes s' = cis \<and> vm_ok s' \<and> ftraps s' = ftraps s0 \<and> flasterror s' = flasterror s
     \<and> fbase s' = handler_base (fbase s0) (us @ [ci])
     \<and> (\<forall>j < handler_base (fbase s0) us. peek j s' = peek j s0)
     \<and> (\<forall>p. outer_value s' p = outer_value s0 p)"
proof -
  let ?err = "errobj (flasterror s)"
  from unwind_frames[OF ok f us op, of "ftop s" ?err traps] obtain s1 where
    s1: "unwind (ftop s) ?err s0 traps = unwind (ftop s) ?err s1 traps" "fframes s1 = ci # cis" "unwound_to (ftop s0) us s0 s1" by blast
  note u = s1(3)[unfolded unwound_to_def]
  from leave_one[OF _ s1(2)] u obtain s2 where s2: "LeaveFrame (kill_of ci s1) = Some s2" "fframes s2 = cis" "unwound_to (ftop s0) [ci] s1 s2" by blast
  note v = s2(3)[unfolded unwound_to_def]
  let ?s = "s2\<lparr>flasterror := flasterror s\<rparr>"
  have "unwind (ftop s) ?err s1 traps = Some (Escaped s2 traps)"
    using s1(2) ci s2(1) by (subst unwind.simps) simp
  then have "exception_trap errobj handler notifyall raiseerror s traps = Some (Escaped ?s traps)"
    using s1(1) unfolding exception_trap_def Let_def s0[symmetric] by simp
  moreover have "vm_ok s2" using v by blast
  then have "vm_ok ?s" using outers_ok_list_cong[of ?s s2 "fopen s2"] by (simp add: vm_ok_def)
  moreover have pk: "peek j ?s = peek j s2" for j by (simp add: peek_def)
  moreover have "outer_value ?s p = outer_value s2 p" for p
    by (simp add: outer_value_def pk split: option.split outer.split)
  moreover have "handler_base (fbase s0) (us @ [ci]) = handler_base (fbase s0) us - cprevstkbase ci"
    by (rule handler_base_append)
  moreover have "handler_base (fbase s0) us \<le> callee_base (ftop s0) (fbase s0) us"
    by (rule handler_base_le[of _ "ci # cis" _ "int (length (fstack s0))"]) (use ok f in \<open>simp_all add: vm_ok_def\<close>)
  ultimately show ?thesis using u v s2(2) by (intro exI[of _ ?s] conjI) simp_all
qed

lemma uncaught_exceptions_leave_frames_witness:
  "\<exists>s'. exception_trap (\<lambda>_. OInteger 70) (\<lambda>e s. s\<lparr>flasterror := Some (ErrObj e), fstack := (fstack s)[30 := e]\<rparr>) False True
       (sample_vm\<lparr>fframes := [new_callinfo 2 4, (new_callinfo 1 1)\<lparr>cisroot := True\<rparr>], flasterror := Some (ErrStr ''x'')\<rparr>) 0 = Some (Escaped s' 0)
     \<and> fframes s' = [] \<and> fbase s' = 1 \<and> flasterror s' = Some (ErrStr ''x'') \<and> outer_value s' 80 = Some (OInteger 6)"
proof -
  define s where "s = sample_vm\<lparr>fframes := [new_callinfo 2 4, (new_callinfo 1 1)\<lparr>cisroot := True\<rparr>], flasterror := Some (ErrStr ''x'')\<rparr>"
  define h where "h = (\<lambda>e s. s\<lparr>flasterror := Some (ErrObj e), fstack := (fstack s)[30 := e]\<rparr> :: fvm)"
  define s0 where "s0 = h (OInteger 70) s"
  note d = s_def h_def s0_def
  have ok: "vm_ok s0"
    by (auto simp: d vm_ok_def sample_vm_def outers_ok_list_def outer_index_def new_callinfo_def split: if_splits)
  have t: "fframes s0 = [new_callinfo 2 4] @ (new_callinfo 1 1)\<lparr>cisroot := True\<rparr> # []"
    "\<forall>p i. outer_index s0 p = Some i \<longrightarrow> i < ftop s0" "fbase s0 = 4" "outer_value s0 80 = Some (OInteger 6)"
    "flasterror s = Some (ErrStr ''x'')"
    by (simp_all add: d sample_vm_def outer_index_def outer_value_def peek_def)
  from uncaught_exceptions_leave_frames[of s0 False 0 True h "\<lambda>_. OInteger 70" s, OF _ ok t(1) _ _ _ t(2)] t(3-5)
  have "\<exists>s'. exception_trap (\<lambda>_. OInteger 70) h False True s 0 = Some (Escaped s' 0)
     \<and> fframes s' = [] \<and> fbase s' = 1 \<and> flasterror s' = Some (ErrStr ''x'') \<and> outer_value s' 80 = Some (OInteger 6)"
    by (auto simp: new_callinfo_def s0_def)
  then show ?thesis unfolding s_def h_def .
qed

text \<open>
  A caught error overwrites a captured variable.  When the register of the catch variable holds a variable of the
  \<open>try\<close> block that a closure has captured, the jump to the handler does not close it first, so that afterwards the closure
  reads the error in place of its variable.  (Both scopes start at the same stack size, so the compiler gives
  the catch variable the register of the first variable of the block.)
\<close>

theorem caught_error_overwrites_captured:
  assumes ok: "vm_ok s" and f: "fframes s = ci # cis" and ci: "0 < cetraps ci" and tr: "ftraps s = et # ets"
    and et: "xstackbase et = fbase s" "xstacksize et = ftop s" "0 \<le> xtarget et" "fbase s + xtarget et < ftop s"
    and p: "outer_index s p = Some (fbase s + xtarget et)"
    and nh: "\<not> (notifyall \<or> traps = 0 \<and> raiseerror)"
  shows "\<exists>s'. exception_trap errobj handler notifyall raiseerror s traps = Some (Caught s' (traps - 1))
     \<and> outer_value s' p = Some (errobj (flasterror s))"
proof -
  have "ftop s < int (length (fstack s))" using ok by (simp add: vm_ok_def)
  with catch_ok[OF ok f ci tr, of "ftop s" "errobj (flasterror s)" traps] et obtain s' where
    s': "unwind (ftop s) (errobj (flasterror s)) s traps = Some (Caught s' (traps - 1))" "fouters s' = fouters s"
      "peek (fbase s + xtarget et) s' = Some (errobj (flasterror s))" by auto
  have "exception_trap errobj handler notifyall raiseerror s traps = Some (Caught s' (traps - 1))"
    using s'(1) unfolding exception_trap_def Let_def if_not_P[OF nh] by simp
  moreover have "fouters s' p = Some (OuterOpen (fbase s + xtarget et))"
    using p s'(2) by (auto simp: outer_index_def split: option.splits outer.splits)
  ultimately show ?thesis using s'(3) by (intro exI[of _ s']) (simp add: outer_value_def)
qed

lemma caught_error_overwrites_captured_witness:
  "outer_value (sample_vm\<lparr>fframes := [(new_callinfo 1 1)\<lparr>cetraps := 1\<rparr>], ftraps := [\<lparr>xstackbase = 4, xstacksize = 10, xip = 17, xtarget = 2\<rparr>]\<rparr>) 80
     = Some (OInteger 6)
   \<and> (\<exists>s'. exception_trap (\<lambda>_. OInteger 70) (\<lambda>_ s. s) False True
       (sample_vm\<lparr>fframes := [(new_callinfo 1 1)\<lparr>cetraps := 1\<rparr>], ftraps := [\<lparr>xstackbase = 4, xstacksize = 10, xip = 17, xtarget = 2\<rparr>]\<rparr>) 1
         = Some (Caught s' 0) \<and> outer_value s' 80 = Some (OInteger 70))"
proof -
  let ?s = "sample_vm\<lparr>fframes := [(new_callinfo 1 1)\<lparr>cetraps := 1\<rparr>], ftraps := [\<lparr>xstackbase = 4, xstacksize = 10, xip = 17, xtarget = 2\<rparr>]\<rparr>"
  have ok: "vm_ok ?s"
    by (auto simp: vm_ok_def sample_vm_def outers_ok_list_def outer_index_def new_callinfo_def split: if_splits)
  have "fframes ?s = (new_callinfo 1 1)\<lparr>cetraps := 1\<rparr> # []" "ftraps ?s = \<lparr>xstackbase = 4, xstacksize = 10, xip = 17, xtarget = 2\<rparr> # []"
    "fbase ?s = 4" "ftop ?s = 10" "outer_index ?s 80 = Some 6" "outer_value ?s 80 = Some (OInteger 6)"
    by (simp_all add: sample_vm_def outer_index_def outer_value_def peek_def)
  note t = this
  from caught_error_overwrites_captured[OF ok t(1) _ t(2), of 80 False 1 True "\<lambda>_. OInteger 70" "\<lambda>_ s. s"] t(3-6)
  show ?thesis by auto
qed

section \<open>Generators\<close>

lemma save_regs_ok:
  "0 \<le> i \<Longrightarrow> i + int n \<le> int (length (fstack s)) \<Longrightarrow>
     \<exists>vs. save_regs n i s = Some vs \<and> length vs = n \<and> (\<forall>k < n. peek (i + int k) s = Some (vs ! k))"
proof (induction n arbitrary: i)
  case (Suc n)
  from Suc.IH[of "i + 1"] Suc.prems obtain vs where vs: "save_regs n (i + 1) s = Some vs" "length vs = n"
    "\<forall>k < n. peek (i + 1 + int k) s = Some (vs ! k)" by auto
  have p: "peek i s = Some (fstack s ! nat i)" using Suc.prems by (simp add: peek_def)
  have "peek (i + int k) s = Some ((fstack s ! nat i # vs) ! k)" if "k < Suc n" for k
    using that p vs(3) by (cases k) (simp_all add: add.assoc)
  with p vs show ?case by simp
qed simp

lemma null_regs_ok:
  "0 \<le> i \<Longrightarrow> i + int n \<le> int (length (fstack s)) \<Longrightarrow>
     \<exists>s'. null_regs n i s = Some s' \<and> s' = s\<lparr>fstack := fstack s'\<rparr> \<and> length (fstack s') = length (fstack s)
     \<and> (\<forall>j. peek j s' = (if i \<le> j \<and> j < i + int n then Some ONull else peek j s))"
proof (induction n arbitrary: i s)
  case (Suc n)
  from peek_poke[of i s ONull] Suc.prems obtain s1 where s1: "poke i ONull s = Some s1" "s1 = s\<lparr>fstack := fstack s1\<rparr>"
    "length (fstack s1) = length (fstack s)" "\<forall>j. peek j s1 = (if j = i then Some ONull else peek j s)" by auto
  from Suc.IH[of "i + 1" s1] Suc.prems s1(3) obtain s' where s': "null_regs n (i + 1) s1 = Some s'" "s' = s1\<lparr>fstack := fstack s'\<rparr>"
    "length (fstack s') = length (fstack s1)" "\<forall>j. peek j s' = (if i + 1 \<le> j \<and> j < i + 1 + int n then Some ONull else peek j s1)" by auto
  have "s' = s\<lparr>fstack := fstack s'\<rparr>" by (subst s'(2), subst s1(2)) simp
  with s1 s' show ?case by (intro exI[of _ s']) auto
qed auto

lemma load_regs_ok:
  "0 \<le> i \<Longrightarrow> i + int (length vs) \<le> int (length (fstack s)) \<Longrightarrow>
     \<exists>s'. load_regs vs i s = Some s' \<and> s' = s\<lparr>fstack := fstack s'\<rparr> \<and> length (fstack s') = length (fstack s)
     \<and> (\<forall>j. peek j s' = (if i \<le> j \<and> j < i + int (length vs) then Some (vs ! nat (j - i)) else peek j s))"
proof (induction vs arbitrary: i s)
  case (Cons v vs)
  from peek_poke[of i s v] Cons.prems obtain s1 where s1: "poke i v s = Some s1" "s1 = s\<lparr>fstack := fstack s1\<rparr>"
    "length (fstack s1) = length (fstack s)" "\<forall>j. peek j s1 = (if j = i then Some v else peek j s)" by auto
  from Cons.IH[of "i + 1" s1] Cons.prems s1(3) obtain s' where s': "load_regs vs (i + 1) s1 = Some s'" "s' = s1\<lparr>fstack := fstack s'\<rparr>"
    "length (fstack s') = length (fstack s1)"
    "\<forall>j. peek j s' = (if i + 1 \<le> j \<and> j < i + 1 + int (length vs) then Some (vs ! nat (j - (i + 1))) else peek j s1)" by auto
  have "s' = s\<lparr>fstack := fstack s'\<rparr>" by (subst s'(2), subst s1(2)) simp
  moreover have "peek j s' = (if i \<le> j \<and> j < i + int (length (v # vs)) then Some ((v # vs) ! nat (j - i)) else peek j s)" for j
  proof (cases "i + 1 \<le> j")
    case True
    then have "nat (j - i) = Suc (nat (j - (i + 1)))" by simp
    with True show ?thesis by (simp add: s'(4) s1(4))
  qed (auto simp: s'(4) s1(4))
  ultimately show ?case using s1(1,3) s'(1,3) by (intro exI[of _ s']) simp
qed auto

lemma weakref_refcounted: "is_refcounted OT_WEAKREF"
  by code_simp

lemma exI2: "P a b \<Longrightarrow> \<exists>x y. P x y"
  by blast

lemma shift_trap_trans: "shift_trap b (shift_trap a t) = shift_trap (a + b) t"
  by (simp add: shift_trap_def)

lemma Yield_ok:
  assumes ok: "vm_ok s" and f: "fframes s = ci # cis" and g: "fgens s gp = Some g" "gstate g = gRunning" "getraps g = []"
    and n: "cetraps ci \<le> length (ftraps s)" and t: "0 < target" "target \<le> ftop s - fbase s"
  shows "\<exists>th regs s1. Yield E gp target s = Some (True, s1) \<and> peek (fbase s) s = Some th
     \<and> length regs = nat target - 1 \<and> (\<forall>k < nat target - 1. peek (fbase s + 1 + int k) s = Some (regs ! k))
     \<and> (\<forall>j. peek j s1 = (if fbase s \<le> j \<and> j < ftop s then Some ONull else peek j s))
     \<and> ftraps s1 = drop (cetraps ci) (ftraps s)
     \<and> fgens s1 gp = Some (g\<lparr>gstack := (if is_refcounted (type_of th) then OWeakRef (eweakref E th) else th)
                                       # regs @ replicate (nat (ftop s - fbase s - target)) ONull,
                            gci := ci\<lparr>cgenerator := None\<rparr>,
                            getraps := rev (map (shift_trap (- fbase s)) (take (cetraps ci) (ftraps s))), gstate := gSuspended\<rparr>)"
proof -
  have b: "0 \<le> fbase s" "fbase s \<le> ftop s" "ftop s < int (length (fstack s))" using ok by (simp_all add: vm_ok_def)
  obtain th where th: "peek (fbase s) s = Some th" using b by (simp add: peek_def)
  from save_regs_ok[of "fbase s + 1" "nat target - 1" s] b t obtain regs where
    r: "save_regs (nat target - 1) (fbase s + 1) s = Some regs" "length regs = nat target - 1"
      "\<forall>k < nat target - 1. peek (fbase s + 1 + int k) s = Some (regs ! k)" by auto
  let ?size = "nat (ftop s - fbase s)"
  from null_regs_ok[of "fbase s" ?size s] b obtain s1 where
    s1: "null_regs ?size (fbase s) s = Some s1" "\<forall>j. peek j s1 = (if fbase s \<le> j \<and> j < ftop s then Some ONull else peek j s)" by auto
  have sz: "\<not> (?size < 1 \<or> ?size < length regs + 1 \<or> length (ftraps s) < cetraps ci)" using t r(2) n by auto
  have pad: "?size - Suc (length regs) = nat (ftop s - fbase s - target)" using t r(2) by auto
  let ?g = "g\<lparr>gstack := (if is_refcounted (type_of th) then OWeakRef (eweakref E th) else th)
                          # regs @ replicate (nat (ftop s - fbase s - target)) ONull,
              gci := ci\<lparr>cgenerator := None\<rparr>,
              getraps := rev (map (shift_trap (- fbase s)) (take (cetraps ci) (ftraps s))), gstate := gSuspended\<rparr>"
  let ?s = "s1\<lparr>ftraps := drop (cetraps ci) (ftraps s), fgens := (fgens s)(gp \<mapsto> ?g)\<rparr>"
  have "Yield E gp target s = Some (True, ?s)"
    unfolding Yield_def Let_def using g f th r(1) s1(1) sz by (simp add: pad)
  moreover have "peek j ?s = peek j s1" for j by (simp add: peek_def)
  ultimately show ?thesis using th r(2,3) s1(2) by (intro exI[of _ th] exI[of _ regs] exI[of _ ?s]) simp
qed

lemma Resume_ok:
  assumes ok: "vm_ok s" and g: "fgens s gp = Some g" "gstate g = gSuspended" and ne: "gstack g = w # ws"
    and n: "cetraps (gci g) \<le> length (getraps g)" and len: "int (length (fstack s)) < 2 ^ 31"
    and fits: "ftop s + int (length (gstack g)) + MIN_STACK_OVERHEAD \<le> int (length (fstack s)) \<or> fmetacalls s = 0"
  shows "\<exists>s1 c. Resume E gp target s = Some (True, s1) \<and> vm_ok s1 \<and> fbase s1 = ftop s
     \<and> ftop s1 = ftop s + int (length (gstack g)) \<and> fframes s1 = c # fframes s
     \<and> cclosure c = cclosure (gci g) \<and> cip c = cip (gci g) \<and> cetraps c = cetraps (gci g) \<and> cgenerator c = Some gp
     \<and> ctarget c = int32 target
     \<and> ftraps s1 = rev (map (shift_trap (ftop s)) (take (cetraps (gci g)) (getraps g))) @ ftraps s
     \<and> fgens s1 gp = Some (g\<lparr>getraps := drop (cetraps (gci g)) (getraps g), gstate := gRunning,
          gstack := w # replicate (length ws) ONull\<rparr>)
     \<and> (\<forall>j < ftop s. peek j s1 = peek j s)
     \<and> peek (fbase s1) s1 = Some (case w of OWeakRef r \<Rightarrow> eweakobj E r | v \<Rightarrow> v)
     \<and> (\<forall>k < length ws. peek (fbase s1 + 1 + int k) s1 = Some (ws ! k))"
proof -
  have b: "0 \<le> fbase s" "fbase s \<le> ftop s" "ftop s < int (length (fstack s))" using ok by (simp_all add: vm_ok_def)
  let ?nt = "ftop s + int (length (gstack g))"
  from EnterFrame_ok[OF ok b(2) _ _ len fits] obtain s1 where s1: "EnterFrame (ftop s) ?nt False s = Some (True, s1)" "vm_ok s1"
     "fframes s1 = new_callinfo (ftop s - fbase s) (ftop s - fbase s) # fframes s" "fbase s1 = ftop s" "ftop s1 = ?nt"
     "?nt + MIN_STACK_OVERHEAD \<le> int (length (fstack s1))" "\<forall>j < int (length (fstack s)). peek j s1 = peek j s" by auto
  let ?c = "(new_callinfo (ftop s - fbase s) (ftop s - fbase s))\<lparr>cgenerator := Some gp, ctarget := int32 target, cclosure := cclosure (gci g),
                           cip := cip (gci g), cncalls := cncalls (gci g), cetraps := cetraps (gci g), cisroot := cisroot (gci g)\<rparr>"
  let ?s2 = "s1\<lparr>fframes := ?c # fframes s\<rparr>"
  let ?vs = "(case w of OWeakRef r \<Rightarrow> eweakobj E r | v \<Rightarrow> v) # ws"
  have ll: "length ?vs = length (gstack g)" using ne by simp
  from load_regs_ok[of "ftop s" ?vs ?s2] s1(6) b ll obtain s3 where s3: "load_regs ?vs (ftop s) ?s2 = Some s3"
    "s3 = ?s2\<lparr>fstack := fstack s3\<rparr>" "length (fstack s3) = length (fstack s1)"
    "\<forall>j. peek j s3 = (if ftop s \<le> j \<and> j < ?nt then Some (?vs ! nat (j - ftop s)) else peek j ?s2)" by auto
  have e3: "fframes s3 = ?c # fframes s" "fbase s3 = ftop s" "ftop s3 = ?nt" "fopen s3 = fopen s1" "fouters s3 = fouters s1"
    by (subst s3(2), simp add: s1(4,5))+
  let ?s = "s3\<lparr>ftraps := rev (map (shift_trap (ftop s)) (take (cetraps (gci g)) (getraps g))) @ ftraps s,
       fgens := (fgens s)(gp \<mapsto> g\<lparr>getraps := drop (cetraps (gci g)) (getraps g), gstate := gRunning, gstack := w # replicate (length ws) ONull\<rparr>)\<rparr>"
  have "Resume E gp target s = Some (True, ?s)"
    unfolding Resume_def Let_def using g ne n s1(1,3) s3(1) by (simp add: upd_ci_def del: load_regs.simps)
  moreover have "vm_ok ?s"
  proof -
    have "frames_ok (fframes s1) (fbase s1) (int (length (fstack s1)))" "outers_ok s1" using s1(2) by (simp_all add: vm_ok_def)
    then have "frames_ok (?c # fframes s) (ftop s) (int (length (fstack s3)))" "outers_ok ?s"
      using s1(3,4) s3(3) outers_ok_list_cong[of ?s s1 "fopen s1"] e3 by (simp_all add: new_callinfo_def)
    then show ?thesis using b s1(6) s3(3) by (simp add: vm_ok_def e3)
  qed
  moreover have pk: "peek j ?s = (if ftop s \<le> j \<and> j < ?nt then Some (?vs ! nat (j - ftop s)) else peek j s1)" for j
  proof -
    have "peek j ?s = peek j s3" "peek j ?s2 = peek j s1" by (simp_all add: peek_def)
    with s3(4) show ?thesis by simp
  qed
  moreover have "\<forall>j < ftop s. peek j ?s = peek j s" using s1(7) b by (simp add: pk)
  moreover have "peek (ftop s + 1 + int k) ?s = Some (ws ! k)" if "k < length ws" for k
  proof -
    have "nat (ftop s + 1 + int k - ftop s) = Suc k" by simp
    with that ne show ?thesis unfolding pk by simp
  qed
  ultimately show ?thesis using e3 ne by (intro exI[of _ ?s] exI[of _ ?c] conjI) (simp_all add: new_callinfo_def)
qed

text \<open>The generator, resumed on the stack of \<open>s2\<close>, goes on as the frame \<open>ci\<close> did on the stack of \<open>s\<close>.\<close>

definition resumed :: "frameenv \<Rightarrow> ptr \<Rightarrow> int \<Rightarrow> int \<Rightarrow> gsobj \<Rightarrow> callinfo \<Rightarrow> fvm \<Rightarrow> fvm \<Rightarrow> bool" where
  "resumed E gp t2 target th ci s s2 =
     (\<exists>s3 c. Resume E gp t2 s2 = Some (True, s3) \<and> vm_ok s3 \<and> fframes s3 = c # fframes s2
               \<and> cclosure c = cclosure ci \<and> cip c = cip ci \<and> cetraps c = cetraps ci \<and> cgenerator c = Some gp
               \<and> fbase s3 = ftop s2 \<and> ftop s3 = fbase s3 + (ftop s - fbase s)
               \<and> (\<forall>k. 0 < k \<and> k < target \<longrightarrow> peek (fbase s3 + k) s3 = peek (fbase s + k) s)
               \<and> ((is_refcounted (type_of th) \<and> eweakobj E (eweakref E th) = th
                    \<or> \<not> is_refcounted (type_of th)) \<longrightarrow> peek (fbase s3) s3 = Some th)
               \<and> ftraps s3 = map (shift_trap (fbase s3 - fbase s)) (take (cetraps ci) (ftraps s)) @ ftraps s2
               \<and> (\<forall>j < ftop s2. peek j s3 = peek j s2)
               \<and> (\<exists>s4. Resume E gp t2 s3 = Some (False, s4) \<and> flasterror s4 = Some (ErrStr ''resuming active generator'')))"

text \<open>
  C24: Generators keep their registers.  A running generator that yields saves its live registers, its instruction
  pointer and its traps and clears the frame; whenever, on whatever stack, it is resumed, a frame on top of the
  resumer's runs the same closure at the same instruction with the same live registers, the same \<open>this\<close> as long
  as that is alive, and its traps in the same order, moved to the new stack base; the registers of the
  resumer are untouched, and resuming it again while it runs is an error.
\<close>

theorem generators_keep_registers:
  assumes "vm_ok s" "fframes s = ci # cis" "fgens s gp = Some g" "gstate g = gRunning" "getraps g = []"
    and "cetraps ci \<le> length (ftraps s)" "0 < target" "target \<le> ftop s - fbase s"
  shows "\<exists>s1 th. Yield E gp target s = Some (True, s1) \<and> (\<forall>j. fbase s \<le> j \<and> j < ftop s \<longrightarrow> peek j s1 = Some ONull)
     \<and> peek (fbase s) s = Some th
     \<and> (\<forall>s2 t2. vm_ok s2 \<and> fgens s2 gp = fgens s1 gp \<and> int (length (fstack s2)) < 2 ^ 31
           \<and> (ftop s2 + (ftop s - fbase s) + MIN_STACK_OVERHEAD \<le> int (length (fstack s2)) \<or> fmetacalls s2 = 0)
        \<longrightarrow> resumed E gp t2 target th ci s s2)"
proof -
  from Yield_ok[OF assms, of E] obtain th regs s1 where y: "Yield E gp target s = Some (True, s1)" "peek (fbase s) s = Some th"
    "length regs = nat target - 1" "\<forall>k < nat target - 1. peek (fbase s + 1 + int k) s = Some (regs ! k)"
    "\<forall>j. peek j s1 = (if fbase s \<le> j \<and> j < ftop s then Some ONull else peek j s)"
    "fgens s1 gp = Some (g\<lparr>gstack := (if is_refcounted (type_of th) then OWeakRef (eweakref E th) else th)
                                       # regs @ replicate (nat (ftop s - fbase s - target)) ONull,
                            gci := ci\<lparr>cgenerator := None\<rparr>,
                            getraps := rev (map (shift_trap (- fbase s)) (take (cetraps ci) (ftraps s))), gstate := gSuspended\<rparr>)"
    by blast
  let ?w = "if is_refcounted (type_of th) then OWeakRef (eweakref E th) else th"
  let ?ws = "regs @ replicate (nat (ftop s - fbase s - target)) ONull"
  have wl: "int (length (?w # ?ws)) = ftop s - fbase s" using y(3) assms(7,8) by simp
  have all: "\<forall>s2 t2. vm_ok s2 \<and> fgens s2 gp = fgens s1 gp \<and> int (length (fstack s2)) < 2 ^ 31
           \<and> (ftop s2 + (ftop s - fbase s) + MIN_STACK_OVERHEAD \<le> int (length (fstack s2)) \<or> fmetacalls s2 = 0)
        \<longrightarrow> resumed E gp t2 target th ci s s2"
  proof (intro allI impI, elim conjE)
    fix s2 t2
    assume h: "vm_ok s2" "fgens s2 gp = fgens s1 gp" "int (length (fstack s2)) < 2 ^ 31"
      "ftop s2 + (ftop s - fbase s) + MIN_STACK_OVERHEAD \<le> int (length (fstack s2)) \<or> fmetacalls s2 = 0"
    let ?tr = "take (cetraps ci) (ftraps s)"
    from Resume_ok[OF h(1) h(2)[unfolded y(6)], of ?w ?ws E t2] h(3,4) wl assms(6) obtain s3 c where
      r: "Resume E gp t2 s2 = Some (True, s3)" "vm_ok s3" "fbase s3 = ftop s2" "ftop s3 = ftop s2 + (ftop s - fbase s)"
        "fframes s3 = c # fframes s2" "cclosure c = cclosure ci" "cip c = cip ci" "cetraps c = cetraps ci" "cgenerator c = Some gp"
        "ftraps s3 = rev (map (shift_trap (ftop s2)) (take (cetraps ci) (rev (map (shift_trap (- fbase s)) ?tr)))) @ ftraps s2"
        "\<exists>g'. fgens s3 gp = Some g' \<and> gstate g' = gRunning"
        "\<forall>j < ftop s2. peek j s3 = peek j s2"
        "peek (fbase s3) s3 = Some (case ?w of OWeakRef r \<Rightarrow> eweakobj E r | v \<Rightarrow> v)"
        "\<forall>k < length ?ws. peek (fbase s3 + 1 + int k) s3 = Some (?ws ! k)" by auto
    have "take (cetraps ci) (rev (map (shift_trap (- fbase s)) ?tr)) = rev (map (shift_trap (- fbase s)) ?tr)" by simp
    then have traps: "ftraps s3 = map (shift_trap (fbase s3 - fbase s)) ?tr @ ftraps s2"
      using r(3,10) by (simp add: rev_map comp_def shift_trap_trans)
    have regs: "peek (fbase s3 + k) s3 = peek (fbase s + k) s" if "0 < k" "k < target" for k
    proof -
      define m where "m = nat (k - 1)"
      then have m: "k = 1 + int m" using that(1) by simp
      with that have "m < nat target - 1" by simp
      with y(3,4) r(14)[rule_format, of m] have "peek (fbase s3 + 1 + int m) s3 = Some (regs ! m)"
        "peek (fbase s + 1 + int m) s = Some (regs ! m)" by (simp_all add: nth_append)
      then show ?thesis by (simp add: m add.assoc)
    qed
    have "peek (fbase s3) s3 = Some th"
      if "is_refcounted (type_of th) \<and> eweakobj E (eweakref E th) = th \<or> \<not> is_refcounted (type_of th)"
    proof (cases "is_refcounted (type_of th)")
      case False
      with weakref_refcounted have "(case th of OWeakRef r \<Rightarrow> eweakobj E r | v \<Rightarrow> v) = th" by (cases th) simp_all
      with False r(13) show ?thesis by simp
    qed (use that r(13) in simp)
    moreover from r(11) have "\<exists>s4. Resume E gp t2 s3 = Some (False, s4) \<and> flasterror s4 = Some (ErrStr ''resuming active generator'')"
      by (auto simp: Resume_def fail_with_def)
    ultimately show "resumed E gp t2 target th ci s s2"
      unfolding resumed_def using r(1-9,12) regs traps by (intro exI2[of _ s3 c] conjI) simp_all
  qed
  have "\<forall>j. fbase s \<le> j \<and> j < ftop s \<longrightarrow> peek j s1 = Some ONull" using y(5) by simp
  then show ?thesis by (intro exI2[of _ s1 th] conjI y(1,2) all)
qed

definition gen_vm :: fvm where
  "gen_vm = sample_vm\<lparr>fgens := [64 \<mapsto> new_generator (OClosure 8)], fopen := [], fouters := Map.empty\<rparr>"

lemma gen_vm_ok: "vm_ok gen_vm" "vm_ok (gen_vm\<lparr>ftop := 20, fgens := gs\<rparr>)"
  by (auto simp: vm_ok_def gen_vm_def sample_vm_def outers_ok_list_def outer_index_def new_callinfo_def)

lemma generators_keep_registers_witness:
  "\<exists>s1 s3. Yield sample_frameenv 64 3 gen_vm = Some (True, s1)
     \<and> Resume sample_frameenv 64 0 (gen_vm\<lparr>ftop := 20, fgens := fgens s1\<rparr>) = Some (True, s3)
     \<and> fbase s3 = 20 \<and> ftop s3 = 26 \<and> peek 20 s3 = Some (OInteger 4) \<and> peek 22 s3 = Some (OInteger 6)"
proof -
  have v: "fframes gen_vm = new_callinfo 3 5 # [new_callinfo 1 1]" "fgens gen_vm 64 = Some (new_generator (OClosure 8))"
    "fbase gen_vm = 4" "ftop gen_vm = 10" "peek 4 gen_vm = Some (OInteger 4)" "peek 6 gen_vm = Some (OInteger 6)" "fmetacalls gen_vm = 0"
    "length (fstack gen_vm) = 40"
    by (simp_all add: gen_vm_def sample_vm_def peek_def)
  have g: "gstate (new_generator (OClosure 8)) = gRunning" "getraps (new_generator (OClosure 8)) = []"
    "cetraps (new_callinfo 3 5) \<le> length (ftraps gen_vm)" "0 < (3::int)" "3 \<le> ftop gen_vm - fbase gen_vm"
    using v(3,4) by (simp_all add: new_generator_def new_callinfo_def)
  have ni: "\<not> is_refcounted (type_of (OInteger 4))" by code_simp
  from generators_keep_registers[OF gen_vm_ok(1) v(1,2) g, of sample_frameenv] obtain s1 th where
    s1: "Yield sample_frameenv 64 3 gen_vm = Some (True, s1)" "peek (fbase gen_vm) gen_vm = Some th"
    "\<forall>s2 t2. vm_ok s2 \<and> fgens s2 64 = fgens s1 64 \<and> int (length (fstack s2)) < 2 ^ 31
           \<and> (ftop s2 + (ftop gen_vm - fbase gen_vm) + MIN_STACK_OVERHEAD \<le> int (length (fstack s2)) \<or> fmetacalls s2 = 0)
        \<longrightarrow> resumed sample_frameenv 64 t2 3 th (new_callinfo 3 5) gen_vm s2" by blast
  from s1(2) v(3,5) have th: "th = OInteger 4" by simp
  let ?s2 = "gen_vm\<lparr>ftop := 20, fgens := fgens s1\<rparr>"
  have "resumed sample_frameenv 64 0 3 th (new_callinfo 3 5) gen_vm ?s2"
    by (rule s1(3)[rule_format]) (use gen_vm_ok(2) v in simp)
  then obtain s3 where
    s3: "Resume sample_frameenv 64 0 ?s2 = Some (True, s3)" "fbase s3 = 20" "ftop s3 = 26"
      "\<forall>k. 0 < k \<and> k < 3 \<longrightarrow> peek (20 + k) s3 = peek (4 + k) gen_vm" "peek 20 s3 = Some (OInteger 4)"
    using v(3,4) ni th by (auto simp: resumed_def)
  from s3(4)[rule_format, of 2] v(6) have "peek 22 s3 = Some (OInteger 6)" by simp
  with s1(1) s3 show ?thesis by (intro exI2[of _ s1 s3]) simp
qed

section \<open>Yields of the interpreter\<close>

text \<open>\<open>YIELD\<close>: the value of the register is taken out, the captured variables are closed before the frame is
  cleared, and the value returns to the resumer.  \<open>r0\<close> is 0xFF for a yield without a value;
  None outside of a generator, where the code dereferences a null pointer for its message.\<close>

definition op_yield :: "frameenv \<Rightarrow> int \<Rightarrow> int \<Rightarrow> int \<Rightarrow> fvm \<times> int \<Rightarrow> (((bool \<times> gsobj) option \<times> fvm) \<times> int) option" where
  "op_yield E r0 r1 r2 st =
     (case st of (s, traps) \<Rightarrow>
       do {
         ci \<leftarrow> (case fframes s of [] \<Rightarrow> None | ci # _ \<Rightarrow> Some ci);
         (case cgenerator ci of
            None \<Rightarrow> None
          | Some gp \<Rightarrow>
              do {
                v \<leftarrow> (if r1 \<noteq> 0xFF then peek (fbase s + r1) s else Some ONull);
                s1 \<leftarrow> (if fopen s \<noteq> [] then CloseOuters (fbase s) s else Some s);
                (ok, s2) \<leftarrow> Yield E gp r2 s1;
                (if \<not> ok then Some ((None, s2), traps) else
                do {
                  s3 \<leftarrow> (if r1 \<noteq> 0xFF then poke (fbase s2 + r1) v s2 else Some s2);
                  (root, res, s4) \<leftarrow> Return r0 r1 ONull s3;
                  Some ((Some (root, res), s4), traps - int (cetraps ci))
                })
              })
       })"

text \<open>
  A discarded generator overwrites a register of the caller.  A statement that calls a generator function and
  drops the result (target -1, which \<open>Return\<close> respects) still stores the new generator, one register below the
  stack base of the function that made the call.
\<close>

theorem discarded_generator_overwrites_caller:
  assumes "StartCall E cp (-1) args stackbase False s = Some (True, s')" "fclosures s cp = Some c"
    "pbgenerator (eproto E (cfunction c))"
  shows "\<exists>gp. peek (fbase s' - 1) s' = Some (OGenerator gp)"
proof -
  from assms obtain gp s6 where "poke (fbase s6 + -1) (OGenerator gp) s6 = Some s'"
    by (auto simp: StartCall_def Let_def split: bind_splits if_splits)
  then show ?thesis by (auto simp: poke_def peek_def split: if_splits)
qed

definition gencall_vm :: fvm where
  "gencall_vm = sample_vm\<lparr>fclosures := [8 \<mapsto> \<lparr>cfunction = 16, cenv = None, croot = 0, cbase_class = None, couters = [], cdefaults = []\<rparr>]\<rparr>"

lemma discarded_generator_overwrites_caller_witness:
  "\<exists>s' gp. StartCall sample_frameenv 8 (-1) 1 9 False gencall_vm = Some (True, s') \<and> fbase s' = fbase gencall_vm
     \<and> peek 3 gencall_vm = Some (OInteger 3) \<and> peek 3 s' = Some (OGenerator gp)"
proof -
  have "case StartCall sample_frameenv 8 (-1) 1 9 False gencall_vm of Some (True, s') \<Rightarrow> fbase s' = 4 | _ \<Rightarrow> False"
    by code_simp
  then obtain s' where s': "StartCall sample_frameenv 8 (-1) 1 9 False gencall_vm = Some (True, s')" "fbase s' = 4"
    by (auto split: option.splits prod.splits bool.splits)
  from discarded_generator_overwrites_caller[OF s'(1), of "the (fclosures gencall_vm 8)"] s'
  show ?thesis by (simp add: gencall_vm_def sample_vm_def sample_frameenv_def peek_def)
qed

end
