(* ===== verification/GS_Blob.thy ===== *)
theory GS_Blob
  imports GS_Object "HOL-Library.Monad_Syntax"
begin

text \<open>
  Blobs and the stream library (gstdblobimpl.h, gstdblob.cpp, gstdstream.cpp): a growable byte buffer with a
  position, the reading and writing of numbers in fixed formats, and the blob's methods.

  The buffer is the list of the allocated bytes.  The value None is undefined behaviour: a block
  copy outside of the buffer, or an allocation or copy of a negative size.  A native function answers a value, or
  the text of the error it throws.
\<close>

section \<open>The buffer\<close>

type_synonym byte = "8 word"

record blob =
  bsize :: int
  ballocated :: int
  bptr :: int
  bbuf :: "byte list"
  bowns :: bool

definition new_blob :: "int \<Rightarrow> blob option" where
  "new_blob n =
     (if n < 0 then None
      else Some \<lparr>bsize = n, ballocated = n, bptr = 0, bbuf = replicate (nat n) 0, bowns = True\<rparr>)"

definition CanAdvance :: "int \<Rightarrow> blob \<Rightarrow> bool" where
  "CanAdvance n b = (bptr b + n \<le> bsize b)"

definition BlobResize :: "int \<Rightarrow> blob \<Rightarrow> (bool \<times> blob) option" where
  "BlobResize n b =
     (if \<not> bowns b then Some (False, b)
      else if n = ballocated b then Some (True, b)
      else if n < 0 then None
      else
        (let k = (if n < bsize b then n else bsize b) in
         Some (True, b\<lparr>bbuf := take (nat k) (bbuf b) @ replicate (nat (n - k)) 0, ballocated := n,
                       bsize := (if n < bsize b then n else bsize b),
                       bptr := (if n < bptr b then n else bptr b)\<rparr>)))"

definition GrowBufOf :: "int \<Rightarrow> blob \<Rightarrow> (bool \<times> blob) option" where
  "GrowBufOf n b =
     do {
       (ret, b1) \<leftarrow> (if ballocated b < bsize b + n
                     then (if bsize b * 2 < bsize b + n then BlobResize (bsize b + n) b else BlobResize (bsize b * 2) b)
                     else Some (True, b));
       Some (ret, b1\<lparr>bsize := bsize b1 + n\<rparr>)
     }"

definition copy_into :: "int \<Rightarrow> byte list \<Rightarrow> byte list \<Rightarrow> byte list option" where
  "copy_into i bs buf =
     (if 0 \<le> i \<and> i + int (length bs) \<le> int (length buf)
      then Some (take (nat i) buf @ bs @ drop (nat i + length bs) buf) else None)"

definition BlobWrite :: "byte list \<Rightarrow> blob \<Rightarrow> (int \<times> blob) option" where
  "BlobWrite bs b =
     do {
       b1 \<leftarrow> (if \<not> CanAdvance (int (length bs)) b
              then map_option snd (GrowBufOf (bptr b + int (length bs) - bsize b) b) else Some b);
       buf \<leftarrow> copy_into (bptr b1) bs (bbuf b1);
       Some (int (length bs), b1\<lparr>bbuf := buf, bptr := bptr b1 + int (length bs)\<rparr>)
     }"

text \<open>The bytes read and their number.\<close>

definition BlobRead :: "int \<Rightarrow> blob \<Rightarrow> (byte list \<times> blob) option" where
  "BlobRead sz b =
     (if \<not> CanAdvance sz b \<and> bsize b - bptr b \<le> 0 then Some ([], b)
      else
        (let n = (if \<not> CanAdvance sz b then bsize b - bptr b else sz) in
         if n < 0 \<or> bptr b < 0 \<or> int (length (bbuf b)) < bptr b + n then None
         else Some (take (nat n) (drop (nat (bptr b)) (bbuf b)), b\<lparr>bptr := bptr b + n\<rparr>)))"

datatype seek_origin = GS_SEEK_CUR | GS_SEEK_END | GS_SEEK_SET

definition BlobSeek :: "int \<Rightarrow> seek_origin \<Rightarrow> blob \<Rightarrow> int \<times> blob" where
  "BlobSeek offset origin b =
     (case origin of
        GS_SEEK_SET \<Rightarrow> if bsize b < offset \<or> offset < 0 then (-1, b) else (0, b\<lparr>bptr := offset\<rparr>)
      | GS_SEEK_CUR \<Rightarrow> if bsize b < bptr b + offset \<or> bptr b + offset < 0 then (-1, b) else (0, b\<lparr>bptr := bptr b + offset\<rparr>)
      | GS_SEEK_END \<Rightarrow> if bsize b < bsize b + offset \<or> bsize b + offset < 0 then (-1, b) else (0, b\<lparr>bptr := bsize b + offset\<rparr>))"

definition BlobEOS :: "blob \<Rightarrow> bool" where "BlobEOS b = (bptr b = bsize b)"

section \<open>Numbers as bytes\<close>

text \<open>The memory of a little-endian machine.\<close>

fun mem_bytes :: "nat \<Rightarrow> int \<Rightarrow> byte list" where
  "mem_bytes 0 i = []"
| "mem_bytes (Suc n) i = word_of_int i # mem_bytes n (i div 256)"

fun mem_value :: "byte list \<Rightarrow> int" where
  "mem_value [] = 0"
| "mem_value (b # bs) = uint b + 256 * mem_value bs"

text \<open>Conversions between float and double.\<close>

definition to_double :: "gsfloat \<Rightarrow> int" where
  "to_double w =
     (let s = (if f_sign w then 2 ^ 63 else 0) in
      if f_bexp w = 255 then s + 2047 * 2 ^ 52 + f_frac w * 2 ^ 29 + (if f_isnan w \<and> f_frac w < 2 ^ 22 then 2 ^ 51 else 0)
      else if f_iszero w then s
      else if f_bexp w \<noteq> 0 then s + (f_bexp w + 896) * 2 ^ 52 + f_frac w * 2 ^ 29
      else (let k = int (flog2 (nat (f_frac w))) in s + (k + 874) * 2 ^ 52 + (f_frac w - 2 ^ nat k) * 2 ^ nat (52 - k)))"

definition from_double :: "int \<Rightarrow> gsfloat" where
  "from_double d =
     (let s = 2 ^ 63 \<le> d; e = d div 2 ^ 52 mod 2048; fr = d mod 2 ^ 52;
          m = (if e = 0 then fr else fr + 2 ^ 52); x = (if e = 0 then -1074 else e - 1075); sm = (if s then - m else m) in
      if e = 2047 then
        (if fr = 0 then f_inf s else word_of_int ((if s then 2 ^ 31 else 0) + 0x7FC00000 + fr div 2 ^ 29 mod 2 ^ 22))
      else if 0 \<le> x then f_round s (sm * 2 ^ nat x) 1 else f_round s sm (2 ^ nat (- x)))"

section \<open>The stream functions\<close>

text \<open>A native function has one result (Some) or none, or throws; numeric arguments have passed the
  parameter check.  The functions take the stream's virtual methods they call.\<close>

type_synonym 's native = "((string + gsobj option) \<times> 's) option"

definition format_size :: "int \<Rightarrow> nat option" where
  "format_size f =
     (if f = 108 then Some 8 else if f = 105 then Some 4 else if f = 115 then Some 2 else if f = 119 then Some 2
      else if f = 99 then Some 1 else if f = 98 then Some 1 else if f = 102 then Some 4 else if f = 100 then Some 8 else None)"

definition encode_number :: "int \<Rightarrow> gsobj \<Rightarrow> int" where
  "encode_number f v =
     (if f = 102 then uint (tofloat v) else if f = 100 then to_double (tofloat v) else sint (tointeger v))"

definition decode_number :: "int \<Rightarrow> int \<Rightarrow> gsobj" where
  "decode_number f x =
     (if f = 108 then OInteger (word_of_int x)
      else if f = 105 then OInteger (scast (word_of_int x :: 32 word))
      else if f = 115 then OInteger (scast (word_of_int x :: 16 word))
      else if f = 119 then OInteger (ucast (word_of_int x :: 16 word))
      else if f = 99 then OInteger (scast (word_of_int x :: 8 word))
      else if f = 98 then OInteger (ucast (word_of_int x :: 8 word))
      else if f = 102 then OFloat (word_of_int x)
      else OFloat (from_double x))"

definition stream_readn :: "(int \<Rightarrow> 's \<Rightarrow> (byte list \<times> 's) option) \<Rightarrow> gsobj \<Rightarrow> 's \<Rightarrow> 's native" where
  "stream_readn rd format s =
     (let f = sint (tointeger format) in
      case format_size f of
        None \<Rightarrow> Some (Inl ''invalid format'', s)
      | Some n \<Rightarrow>
          do {
            (bs, s1) \<leftarrow> rd (int n) s;
            Some (if length bs \<noteq> n then Inl ''io error'' else Inr (Some (decode_number f (mem_value bs))), s1)
          })"

definition stream_writen :: "(byte list \<Rightarrow> 's \<Rightarrow> (int \<times> 's) option) \<Rightarrow> gsobj \<Rightarrow> gsobj \<Rightarrow> 's \<Rightarrow> 's native" where
  "stream_writen wr v format s =
     (let f = sint (tointeger format) in
      case format_size f of
        None \<Rightarrow> Some (Inl ''invalid format'', s)
      | Some n \<Rightarrow> do { (_, s1) \<leftarrow> wr (mem_bytes n (encode_number f v)) s; Some (Inr None, s1) })"

definition stream_seek ::
    "(int \<Rightarrow> seek_origin \<Rightarrow> 's \<Rightarrow> int \<times> 's) \<Rightarrow> gsobj \<Rightarrow> gsobj option \<Rightarrow> 's \<Rightarrow> 's native" where
  "stream_seek sk offset origin s =
     (let org = (case origin of
                   None \<Rightarrow> Some GS_SEEK_SET
                 | Some t \<Rightarrow> (let c = sint (tointeger t) in
                     if c = 98 then Some GS_SEEK_SET else if c = 99 then Some GS_SEEK_CUR
                     else if c = 101 then Some GS_SEEK_END else None)) in
      case org of
        None \<Rightarrow> Some (Inl ''invalid origin'', s)
      | Some g \<Rightarrow> (let (r, s1) = sk (sint (tointeger offset)) g s in Some (Inr (Some (OInteger (word_of_int r))), s1)))"

definition stream_tell :: "blob \<Rightarrow> gsobj" where "stream_tell b = OInteger (word_of_int (bptr b))"
definition stream_len :: "blob \<Rightarrow> gsobj" where "stream_len b = OInteger (word_of_int (bsize b))"
definition stream_eos :: "blob \<Rightarrow> gsobj" where "stream_eos b = (if BlobEOS b then OInteger 1 else ONull)"

text \<open>A new blob with the bytes read.\<close>

definition stream_readblob :: "gsobj \<Rightarrow> blob \<Rightarrow> ((string + blob) \<times> blob) option" where
  "stream_readblob sz b =
     (let n = (if bsize b < sint (tointeger sz) then bsize b else sint (tointeger sz)) in
      do {
        (bs, b1) \<leftarrow> BlobRead n b;
        (if bs = [] then Some (Inl ''no data left to read'', b1)
         else do {
           nb \<leftarrow> new_blob (int (length bs));
           buf \<leftarrow> copy_into 0 bs (bbuf nb);
           Some (Inr (nb\<lparr>bbuf := buf\<rparr>), b1)
         })
      })"

text \<open>\<open>writeblob\<close> copies out of the buffer of the other blob after it has grown its own: for a blob written into
  itself that is memory just freed when the buffer moves, or an overlapping block copy.\<close>

definition stream_writeblob :: "(ptr \<Rightarrow> blob option) \<Rightarrow> ptr \<Rightarrow> ptr \<Rightarrow> (gsobj \<times> (ptr \<Rightarrow> blob option)) option" where
  "stream_writeblob h self other =
     do {
       b \<leftarrow> h self;
       src \<leftarrow> h other;
       (if self = other \<and> 0 < bsize src \<and> (bptr b < bsize src \<or> ballocated b < bptr b + bsize src) then None
        else do {
          (n, b1) \<leftarrow> BlobWrite (take (nat (bsize src)) (bbuf src)) b;
          Some (OInteger (word_of_int n), h(self \<mapsto> b1))
        })
     }"

section \<open>The methods of a blob\<close>

definition blob_constructor :: "gsobj option \<Rightarrow> (string + blob) option" where
  "blob_constructor sz =
     (let n = (case sz of None \<Rightarrow> 0 | Some v \<Rightarrow> sint (tointeger v)) in
      if n < 0 then Some (Inl ''cannot create blob with negative size'') else map_option Inr (new_blob n))"

definition blob_resize :: "gsobj \<Rightarrow> blob \<Rightarrow> blob native" where
  "blob_resize sz b =
     do { (ok, b1) \<leftarrow> BlobResize (sint (tointeger sz)) b; Some (if ok then Inr None else Inl ''resize failed'', b1) }"

definition swap_dword :: "32 word \<Rightarrow> 32 word" where
  "swap_dword n = drop_bit 24 (n AND 0xFF000000) OR drop_bit 8 (n AND 0x00FF0000)
                  OR push_bit 8 (n AND 0x0000FF00) OR push_bit 24 (n AND 0x000000FF)"

definition swap_word :: "16 word \<Rightarrow> 16 word" where
  "swap_word n = (drop_bit 8 n AND 0x00FF) OR (push_bit 8 n AND 0xFF00)"

fun blob_swap4 :: "nat \<Rightarrow> byte list \<Rightarrow> byte list" where
  "blob_swap4 0 bs = bs"
| "blob_swap4 (Suc n) bs = mem_bytes 4 (uint (swap_dword (word_of_int (mem_value (take 4 bs))))) @ blob_swap4 n (drop 4 bs)"

fun blob_swap2 :: "nat \<Rightarrow> byte list \<Rightarrow> byte list" where
  "blob_swap2 0 bs = bs"
| "blob_swap2 (Suc n) bs = mem_bytes 2 (uint (swap_word (word_of_int (mem_value (take 2 bs))))) @ blob_swap2 n (drop 2 bs)"

definition swap4 :: "blob \<Rightarrow> blob" where
  "swap4 b = b\<lparr>bbuf := blob_swap4 (nat ((bsize b - bsize b mod 4) div 4)) (bbuf b)\<rparr>"

definition swap2 :: "blob \<Rightarrow> blob" where
  "swap2 b = b\<lparr>bbuf := blob_swap2 (nat ((bsize b - bsize b mod 2) div 2)) (bbuf b)\<rparr>"

definition blob_set :: "gsobj \<Rightarrow> gsobj \<Rightarrow> blob \<Rightarrow> blob native" where
  "blob_set idx v b =
     (let i = sint (tointeger idx) in
      if i < 0 \<or> bsize b \<le> i then Some (Inl ''index out of range'', b)
      else if int (length (bbuf b)) \<le> i then None
      else Some (Inr (Some v), b\<lparr>bbuf := (bbuf b)[nat i := ucast (tointeger v)]\<rparr>))"

text \<open>An index that is no number throws null, which means that there is no such slot.\<close>

definition blob_get :: "gsobj \<Rightarrow> blob \<Rightarrow> (string option + gsobj) option" where
  "blob_get idx b =
     (if \<not> is_numeric idx then Some (Inl None)
      else
        (let i = sint (tointeger idx) in
         if i < 0 \<or> bsize b \<le> i then Some (Inl (Some ''index out of range''))
         else if int (length (bbuf b)) \<le> i then None
         else Some (Inr (OInteger (ucast (bbuf b ! nat i))))))"

definition blob_nexti :: "gsobj \<Rightarrow> blob \<Rightarrow> string + gsobj" where
  "blob_nexti prev b =
     (case prev of
        ONull \<Rightarrow> Inr (OInteger 0)
      | OInteger i \<Rightarrow> if sint i + 1 < bsize b then Inr (OInteger (i + 1)) else Inr ONull
      | OFloat f \<Rightarrow> (let i = f_to_int f in if sint i + 1 < bsize b then Inr (OInteger (i + 1)) else Inr ONull)
      | OBool x \<Rightarrow> (let i = (if x then 1 else 0) in if i + 1 < bsize b then Inr (OInteger (word_of_int (i + 1))) else Inr ONull)
      | _ \<Rightarrow> Inl ''internal error (_nexti) wrong argument type'')"

definition blob_cloned :: "blob \<Rightarrow> blob option" where
  "blob_cloned b =
     do {
       nb \<leftarrow> new_blob (bsize b);
       buf \<leftarrow> (if length (bbuf b) < nat (bsize b) then None else copy_into 0 (take (nat (bsize b)) (bbuf b)) (bbuf nb));
       Some (nb\<lparr>bbuf := buf\<rparr>)
     }"

section \<open>Global functions\<close>

definition casti2f :: "gsobj \<Rightarrow> gsobj" where
  "casti2f v = OFloat (ucast (tointeger v))"

text \<open>Eight bytes are read from the four of the float; \<open>upper\<close> is what the stack has behind it.\<close>

definition castf2i :: "32 word \<Rightarrow> gsobj \<Rightarrow> gsobj" where
  "castf2i upper v = OInteger (push_bit 32 (ucast upper) OR ucast (tofloat v))"

definition g_swap2 :: "gsobj \<Rightarrow> gsobj" where
  "g_swap2 v = (let s = (ucast (ucast (tointeger v) :: 16 word) :: 32 word) in
                OInteger (ucast ((push_bit 8 s OR (drop_bit 8 s AND 0x00FF)) AND 0xFFFF)))"

definition g_swap4 :: "gsobj \<Rightarrow> gsobj" where
  "g_swap4 v = OInteger (ucast (swap_dword (ucast (tointeger v))))"

definition g_swapfloat :: "gsobj \<Rightarrow> gsobj" where
  "g_swapfloat v = OFloat (swap_dword (tofloat v))"

section \<open>The interface of a stream\<close>

text \<open>A stream is a sequence of bytes with a position: writing overwrites and extends, reading
  stops at the end, seeking inside of the sequence moves the position.\<close>

locale byte_stream =
  fixes wr :: "byte list \<Rightarrow> 's \<Rightarrow> (int \<times> 's) option"
    and rd :: "int \<Rightarrow> 's \<Rightarrow> (byte list \<times> 's) option"
    and sk :: "int \<Rightarrow> seek_origin \<Rightarrow> 's \<Rightarrow> int \<times> 's"
    and ok :: "'s \<Rightarrow> bool" and content :: "'s \<Rightarrow> byte list" and pos :: "'s \<Rightarrow> nat"
  assumes pos_le: "ok s \<Longrightarrow> pos s \<le> length (content s)"
    and wr_law: "ok s \<Longrightarrow> \<exists>s'. wr bs s = Some (int (length bs), s') \<and> ok s'
       \<and> content s' = take (pos s) (content s) @ bs @ drop (pos s + length bs) (content s) \<and> pos s' = pos s + length bs"
    and rd_law: "ok s \<Longrightarrow> 0 \<le> n \<Longrightarrow> \<exists>s'. rd n s = Some (take (nat n) (drop (pos s) (content s)), s') \<and> ok s'
       \<and> content s' = content s \<and> pos s' = pos s + length (take (nat n) (drop (pos s) (content s)))"
    and sk_law: "ok s \<Longrightarrow> 0 \<le> i \<Longrightarrow> i \<le> int (length (content s)) \<Longrightarrow> \<exists>s'. sk i GS_SEEK_SET s = (0, s') \<and> ok s'
       \<and> content s' = content s \<and> pos s' = nat i"
begin

lemma write_seek_read:
  assumes "ok s"
  shows "\<exists>s1 s2 s3. wr bs s = Some (int (length bs), s1) \<and> ok s1 \<and> sk (int (pos s)) GS_SEEK_SET s1 = (0, s2)
     \<and> rd (int (length bs)) s2 = Some (bs, s3) \<and> ok s3 \<and> content s3 = content s1 \<and> pos s3 = pos s1"
proof -
  from wr_law[OF assms] obtain s1 where s1: "wr bs s = Some (int (length bs), s1)" "ok s1"
    "content s1 = take (pos s) (content s) @ bs @ drop (pos s + length bs) (content s)" "pos s1 = pos s + length bs" by blast
  have l: "pos s \<le> length (content s)" by (rule pos_le[OF assms])
  then have "int (pos s) \<le> int (length (content s1))" by (simp add: s1(3))
  from sk_law[OF s1(2) _ this] obtain s2 where s2: "sk (int (pos s)) GS_SEEK_SET s1 = (0, s2)" "ok s2" "content s2 = content s1" "pos s2 = pos s" by auto
  have c: "take (length bs) (drop (pos s) (content s1)) = bs" using l by (simp add: s1(3))
  from rd_law[OF s2(2), of "int (length bs)"] obtain s3 where "rd (int (length bs)) s2 = Some (bs, s3)" "ok s3" "content s3 = content s1"
    "pos s3 = pos s + length bs" by (auto simp: s2(3,4) c)
  with s1 s2 show ?thesis by auto
qed

lemma read_all_or_less:
  assumes "ok s" "0 \<le> n"
  shows "\<exists>bs s'. rd n s = Some (bs, s') \<and> ok s' \<and> content s' = content s \<and> pos s' = pos s + length bs
     \<and> bs = take (nat n) (drop (pos s) (content s))"
  using rd_law[OF assms] by auto

end

section \<open>A blob is a stream\<close>

definition blob_ok :: "blob \<Rightarrow> bool" where
  "blob_ok b = (bowns b \<and> 0 \<le> bptr b \<and> bptr b \<le> bsize b \<and> bsize b \<le> ballocated b \<and> int (length (bbuf b)) = ballocated b)"

definition blob_data :: "blob \<Rightarrow> byte list" where
  "blob_data b = take (nat (bsize b)) (bbuf b)"

lemma length_blob_data: "blob_ok b \<Longrightarrow> int (length (blob_data b)) = bsize b"
  by (auto simp: blob_ok_def blob_data_def)

lemma new_blob_ok: "0 \<le> n \<Longrightarrow> \<exists>b. new_blob n = Some b \<and> blob_ok b \<and> blob_data b = replicate (nat n) 0 \<and> bptr b = 0 \<and> bsize b = n"
  by (simp add: new_blob_def blob_ok_def blob_data_def)

lemma BlobResize_ok:
  assumes "blob_ok b" "0 \<le> n"
  shows "\<exists>b'. BlobResize n b = Some (True, b') \<and> blob_ok b' \<and> bptr b' = min (bptr b) n \<and> bsize b' = min (bsize b) n
     \<and> ballocated b' = n \<and> blob_data b' = take (nat n) (blob_data b)"
proof (cases "n = ballocated b")
  case True
  with assms show ?thesis by (auto simp: BlobResize_def blob_ok_def blob_data_def min_def)
next
  case False
  have l: "nat (bsize b) \<le> length (bbuf b)" "length (bbuf b) = nat (ballocated b)" using assms by (auto simp: blob_ok_def)
  show ?thesis
  proof (cases "n < bsize b")
    case True
    with False assms l show ?thesis by (auto simp: BlobResize_def blob_ok_def blob_data_def Let_def min_def)
  next
    case nlt: False
    then have "nat (bsize b) \<le> nat n" by simp
    with nlt False assms l show ?thesis by (auto simp: BlobResize_def blob_ok_def blob_data_def Let_def min_def)
  qed
qed

lemma GrowBufOf_ok:
  assumes b: "blob_ok b" and n: "0 < n"
  shows "\<exists>b'. GrowBufOf n b = Some (True, b') \<and> bowns b' \<and> bptr b' = bptr b \<and> bsize b' = bsize b + n \<and> bsize b' \<le> ballocated b'
     \<and> int (length (bbuf b')) = ballocated b' \<and> take (nat (bsize b)) (bbuf b') = blob_data b"
proof (cases "ballocated b < bsize b + n")
  case True
  define m where "m = (if bsize b * 2 < bsize b + n then bsize b + n else bsize b * 2)"
  have m: "bsize b + n \<le> m" "0 \<le> m" using b n by (auto simp: m_def blob_ok_def)
  from BlobResize_ok[OF b m(2)] obtain b1 where b1: "BlobResize m b = Some (True, b1)" "blob_ok b1" "bptr b1 = min (bptr b) m"
    "bsize b1 = min (bsize b) m" "ballocated b1 = m" "blob_data b1 = take (nat m) (blob_data b)" by blast
  have "bptr b1 = bptr b" "bsize b1 = bsize b" using b1(3,4) m b n by (auto simp: blob_ok_def)
  moreover have "GrowBufOf n b = Some (True, b1\<lparr>bsize := bsize b1 + n\<rparr>)"
    using True b1(1) by (auto simp: GrowBufOf_def m_def)
  moreover have "blob_data b1 = blob_data b" using b1(6) m(1) n length_blob_data[OF b] by simp
  ultimately show ?thesis using b1(2,5) m by (auto simp: blob_ok_def blob_data_def)
next
  case False
  with b n show ?thesis by (auto simp: GrowBufOf_def blob_ok_def blob_data_def)
qed

lemma copy_into_ok:
  "0 \<le> i \<Longrightarrow> i + int (length bs) \<le> int (length buf) \<Longrightarrow>
     copy_into i bs buf = Some (take (nat i) buf @ bs @ drop (nat i + length bs) buf)"
  by (simp add: copy_into_def)

lemma take_overwrite:
  assumes "p + length bs \<le> z" "z \<le> length xs"
  shows "take z (take p xs @ bs @ drop (p + length bs) xs) = take p (take z xs) @ bs @ drop (p + length bs) (take z xs)"
proof -
  have "p \<le> z" "p \<le> length xs" using assms by simp_all
  then show ?thesis using assms by (simp add: drop_take min_absorb1 min_absorb2)
qed

lemma BlobWrite_ok:
  assumes b: "blob_ok b"
  shows "\<exists>b'. BlobWrite bs b = Some (int (length bs), b') \<and> blob_ok b' \<and> bptr b' = bptr b + int (length bs)
     \<and> blob_data b' = take (nat (bptr b)) (blob_data b) @ bs @ drop (nat (bptr b) + length bs) (blob_data b)"
proof (cases "CanAdvance (int (length bs)) b")
  case True
  have c: "copy_into (bptr b) bs (bbuf b) = Some (take (nat (bptr b)) (bbuf b) @ bs @ drop (nat (bptr b) + length bs) (bbuf b))"
    by (rule copy_into_ok) (use b True in \<open>auto simp: blob_ok_def CanAdvance_def\<close>)
  have "nat (bptr b) + length bs \<le> nat (bsize b)" "nat (bsize b) \<le> length (bbuf b)" using b True by (auto simp: blob_ok_def CanAdvance_def)
  note t = take_overwrite[OF this] this
  show ?thesis
    using b True c t by (simp add: BlobWrite_def blob_ok_def blob_data_def CanAdvance_def)
next
  case False
  then have n: "0 < bptr b + int (length bs) - bsize b" by (simp add: CanAdvance_def)
  from GrowBufOf_ok[OF b n] obtain b1 where b1: "GrowBufOf (bptr b + int (length bs) - bsize b) b = Some (True, b1)" "bowns b1"
    "bptr b1 = bptr b" "bsize b1 = bptr b + int (length bs)" "bsize b1 \<le> ballocated b1" "int (length (bbuf b1)) = ballocated b1"
    "take (nat (bsize b)) (bbuf b1) = blob_data b" by auto
  have p: "0 \<le> bptr b" "bptr b \<le> bsize b" using b by (auto simp: blob_ok_def)
  have c: "copy_into (bptr b1) bs (bbuf b1) = Some (take (nat (bptr b)) (bbuf b1) @ bs @ drop (nat (bptr b) + length bs) (bbuf b1))"
    unfolding b1(3) by (rule copy_into_ok) (use p b1(4-6) in auto)
  have t: "take (nat (bptr b)) (bbuf b1) = take (nat (bptr b)) (blob_data b)"
    unfolding b1(7)[symmetric] using p by (simp add: min_def)
  have d: "drop (nat (bptr b) + length bs) (blob_data b) = []" using length_blob_data[OF b] n p by simp
  have len: "nat (bptr b) + length bs \<le> length (bbuf b1)" using b1(4-6) p by simp
  then have lt: "length (take (nat (bptr b)) (bbuf b1)) = nat (bptr b)" by simp
  show ?thesis
    using False b1(1-6) p c t d len lt
    by (auto simp: BlobWrite_def blob_ok_def blob_data_def nat_add_distrib)
qed

lemma BlobRead_ok:
  assumes b: "blob_ok b" and n: "0 \<le> n"
  shows "\<exists>b'. BlobRead n b = Some (take (nat n) (drop (nat (bptr b)) (blob_data b)), b') \<and> blob_ok b'
     \<and> blob_data b' = blob_data b \<and> nat (bptr b') = nat (bptr b) + length (take (nat n) (drop (nat (bptr b)) (blob_data b)))"
proof -
  have p: "0 \<le> bptr b" "bptr b \<le> bsize b" "bsize b \<le> int (length (bbuf b))" using b by (auto simp: blob_ok_def)
  have len: "length (blob_data b) = nat (bsize b)" using length_blob_data[OF b] by simp
  consider "CanAdvance n b" | "\<not> CanAdvance n b" "bptr b < bsize b" | "\<not> CanAdvance n b" "bptr b = bsize b" using p by linarith
  then show ?thesis
  proof cases
    case 1
    then have "take (nat n) (drop (nat (bptr b)) (blob_data b)) = take (nat n) (drop (nat (bptr b)) (bbuf b))"
      using p n by (auto simp: blob_data_def CanAdvance_def drop_take min_def)
    with 1 p n b len show ?thesis by (auto simp: BlobRead_def CanAdvance_def blob_ok_def blob_data_def)
  next
    case 2
    have "take (nat n) (drop (nat (bptr b)) (blob_data b)) = take (nat (bsize b - bptr b)) (drop (nat (bptr b)) (bbuf b))"
      using p n 2 by (auto simp: blob_data_def CanAdvance_def drop_take min_def nat_diff_distrib)
    with 2 p n b len show ?thesis by (auto simp: BlobRead_def CanAdvance_def blob_ok_def blob_data_def)
  next
    case 3
    with p n b len show ?thesis by (auto simp: BlobRead_def CanAdvance_def blob_ok_def)
  qed
qed

lemma BlobSeek_ok: "blob_ok b \<Longrightarrow> blob_ok (snd (BlobSeek i g b)) \<and> blob_data (snd (BlobSeek i g b)) = blob_data b"
  by (auto simp: BlobSeek_def blob_ok_def blob_data_def split: seek_origin.split)

interpretation blob_stream: byte_stream BlobWrite BlobRead BlobSeek blob_ok blob_data "nat \<circ> bptr"
proof (unfold_locales, goal_cases)
  case (1 s)
  then show ?case using length_blob_data[OF 1] by (auto simp: blob_ok_def)
next
  case (2 s bs)
  from BlobWrite_ok[OF 2] 2 show ?case by (fastforce simp: blob_ok_def)
next
  case (3 s n)
  from BlobRead_ok[OF 3] show ?case by (simp only: comp_apply)
next
  case (4 s i)
  with length_blob_data[OF 4(1)] show ?case by (auto simp: BlobSeek_def blob_ok_def blob_data_def)
qed

section \<open>Blobs are byte files\<close>

datatype blob_op = BWrite "byte list" | BRead int | BSeek int seek_origin | BResize int
datatype blob_out = BCount int | BBytes "byte list" | BFlag bool

fun blob_step :: "blob_op \<Rightarrow> blob \<Rightarrow> (blob_out \<times> blob) option" where
  "blob_step (BWrite bs) b = map_option (\<lambda>(n, b'). (BCount n, b')) (BlobWrite bs b)"
| "blob_step (BRead n) b = map_option (\<lambda>(bs, b'). (BBytes bs, b')) (BlobRead n b)"
| "blob_step (BSeek i g) b = (case BlobSeek i g b of (r, b') \<Rightarrow> Some (BCount r, b'))"
| "blob_step (BResize n) b = map_option (\<lambda>(r, b'). (BFlag r, b')) (BlobResize n b)"

fun blob_run :: "blob_op list \<Rightarrow> blob \<Rightarrow> (blob_out list \<times> blob) option" where
  "blob_run [] b = Some ([], b)"
| "blob_run (x # xs) b = do { (r, b1) \<leftarrow> blob_step x b; (rs, b2) \<leftarrow> blob_run xs b1; Some (r # rs, b2) }"

text \<open>The specification: a byte sequence with a position inside of it.  \<open>resize\<close> only ever shortens it.\<close>

fun file_step :: "blob_op \<Rightarrow> byte list \<times> nat \<Rightarrow> blob_out \<times> byte list \<times> nat" where
  "file_step (BWrite bs) (d, p) = (BCount (int (length bs)), take p d @ bs @ drop (p + length bs) d, p + length bs)"
| "file_step (BRead n) (d, p) = (let bs = take (nat n) (drop p d) in (BBytes bs, d, p + length bs))"
| "file_step (BSeek i g) (d, p) =
     (let q = i + (case g of GS_SEEK_SET \<Rightarrow> 0 | GS_SEEK_CUR \<Rightarrow> int p | GS_SEEK_END \<Rightarrow> int (length d)) in
      if 0 \<le> q \<and> q \<le> int (length d) then (BCount 0, d, nat q) else (BCount (-1), d, p))"
| "file_step (BResize n) (d, p) = (BFlag True, take (nat n) d, min p (nat n))"

fun file_run :: "blob_op list \<Rightarrow> byte list \<times> nat \<Rightarrow> blob_out list \<times> byte list \<times> nat" where
  "file_run [] f = ([], f)"
| "file_run (x # xs) f = (let (r, f1) = file_step x f; (rs, f2) = file_run xs f1 in (r # rs, f2))"

fun valid_blob_op :: "blob_op \<Rightarrow> bool" where
  "valid_blob_op (BRead n) = (0 \<le> n)"
| "valid_blob_op (BResize n) = (0 \<le> n)"
| "valid_blob_op _ = True"

definition file_of :: "blob \<Rightarrow> byte list \<times> nat" where
  "file_of b = (blob_data b, nat (bptr b))"

lemma blob_step_ok:
  assumes b: "blob_ok b" and v: "valid_blob_op x"
  shows "\<exists>b'. blob_step x b = Some (fst (file_step x (file_of b)), b') \<and> blob_ok b' \<and> file_of b' = snd (file_step x (file_of b))"
proof (cases x)
  case (BWrite bs)
  have "0 \<le> bptr b" using b by (simp add: blob_ok_def)
  with BlobWrite_ok[OF b, of bs] show ?thesis by (auto simp: BWrite file_of_def nat_add_distrib)
next
  case (BRead n)
  with BlobRead_ok[OF b, of n] v show ?thesis by (auto simp: file_of_def Let_def)
next
  case (BSeek i g)
  have p: "0 \<le> bptr b" "bptr b \<le> bsize b" using b by (simp_all add: blob_ok_def)
  have l: "int (length (blob_data b)) = bsize b" by (rule length_blob_data[OF b])
  show ?thesis
    using b p by (cases g) (auto simp: BSeek BlobSeek_def file_of_def Let_def l add.commute blob_ok_def blob_data_def)
next
  case (BResize n)
  have p: "0 \<le> bptr b" using b by (simp add: blob_ok_def)
  from BlobResize_ok[OF b, of n] v obtain b' where "BlobResize n b = Some (True, b')" "blob_ok b'" "bptr b' = min (bptr b) n"
    "blob_data b' = take (nat n) (blob_data b)" by (auto simp: BResize)
  with p v show ?thesis by (auto simp: BResize file_of_def min_def)
qed

text \<open>
  C20: A blob is a byte file.  Any sequence of writes, reads and resizes of sizes that are not negative and of seeks
  stays inside of the allocated buffer and answers what the same operations on a byte sequence with a
  position answer, and leaves that content and position; in particular the growth of the buffer never shows.
\<close>

theorem blob_implements_file:
  assumes "0 \<le> n" "list_all valid_blob_op xs"
  shows "\<exists>b b'. new_blob n = Some b \<and> blob_run xs b = Some (fst (file_run xs (replicate (nat n) 0, 0)), b') \<and> blob_ok b'
     \<and> file_of b' = snd (file_run xs (replicate (nat n) 0, 0))"
proof -
  have run: "\<exists>b'. blob_run ys b = Some (fst (file_run ys (file_of b)), b') \<and> blob_ok b' \<and> file_of b' = snd (file_run ys (file_of b))"
    if "blob_ok b" "list_all valid_blob_op ys" for ys b
    using that
  proof (induction ys arbitrary: b)
    case (Cons x ys)
    then obtain b1 where b1: "blob_step x b = Some (fst (file_step x (file_of b)), b1)" "blob_ok b1"
      "file_of b1 = snd (file_step x (file_of b))" using blob_step_ok[of b x] by auto
    with Cons.IH[OF b1(2)] Cons.prems(2) show ?case by (auto simp: Let_def split: prod.split)
  qed simp
  from new_blob_ok[OF assms(1)] obtain b where b: "new_blob n = Some b" "blob_ok b" "file_of b = (replicate (nat n) 0, 0)"
    by (auto simp: file_of_def)
  from run[OF b(2) assms(2)] b show ?thesis by auto
qed

lemma blob_implements_file_witness:
  "\<exists>b b'. new_blob 1 = Some b
     \<and> blob_run [BWrite [7, 8, 9], BSeek (-2) GS_SEEK_CUR, BRead 5] b = Some ([BCount 3, BCount 0, BBytes [8, 9]], b')
     \<and> blob_ok b'"
  using blob_implements_file[of 1 "[BWrite [7, 8, 9], BSeek (-2) GS_SEEK_CUR, BRead 5]"] by (auto simp: Let_def)

section \<open>Numbers through streams\<close>

lemma length_mem_bytes [simp]: "length (mem_bytes n i) = n"
  by (induction n arbitrary: i) auto

lemma mem_value_bytes: "mem_value (mem_bytes n i) = i mod 256 ^ n"
proof (induction n arbitrary: i)
  case (Suc n)
  have "uint (word_of_int i :: byte) = i mod 256" by (simp add: uint_word_of_int)
  then have "mem_value (mem_bytes (Suc n) i) = i mod 256 + 256 * (i div 256 mod 256 ^ n)" by (simp add: Suc.IH)
  also have "\<dots> = i mod (256 * 256 ^ n)" by (simp add: zmod_zmult2_eq)
  finally show ?case by simp
qed simp

lemma mem_bytes_value: "mem_bytes (length bs) (mem_value bs) = bs"
proof (induction bs)
  case (Cons b bs)
  have "uint b < 256" using uint_lt2p[of b] by simp
  then have "(uint b + 256 * mem_value bs) div 256 = mem_value bs" by (simp add: div_add1_eq)
  moreover have "(word_of_int (uint b + 256 * mem_value bs) :: byte) = b"
  proof -
    have "(word_of_int (uint b + 256 * mem_value bs) :: byte) = word_of_int (uint b)"
      by (simp only: word_of_int_eq_iff take_bit_eq_mod) simp
    then show ?thesis by simp
  qed
  ultimately show ?case using Cons.IH by simp
qed simp

lemma mem_value_bounds: "0 \<le> mem_value bs \<and> mem_value bs < 256 ^ length bs"
proof (induction bs)
  case (Cons b bs)
  have "uint b < 256" "0 \<le> uint b" using uint_lt2p[of b] by simp_all
  with Cons show ?case by simp
qed simp

lemma word_of_mem_value:
  assumes "8 * n = LENGTH('a::len)"
  shows "(word_of_int (mem_value (mem_bytes n i)) :: 'a word) = word_of_int i"
proof -
  have "(256::int) ^ n = 2 ^ LENGTH('a)" by (simp add: assms[symmetric] power_mult)
  then show ?thesis by (simp add: mem_value_bytes word_of_int_eq_iff take_bit_eq_mod)
qed

text \<open>What a format keeps of a number.\<close>

definition format_value :: "int \<Rightarrow> gsobj \<Rightarrow> gsobj" where
  "format_value f v =
     (let i = tointeger v in
      if f = 102 then OFloat (tofloat v)
      else if f = 108 then OInteger i
      else if f = 105 then OInteger (scast (ucast i :: 32 word))
      else if f = 115 then OInteger (scast (ucast i :: 16 word))
      else if f = 119 then OInteger (ucast (ucast i :: 16 word))
      else if f = 99 then OInteger (scast (ucast i :: 8 word))
      else OInteger (ucast (ucast i :: 8 word)))"

lemma word_of_sint: "(word_of_int (sint (i :: gsint)) :: 'a::len word) = scast i"
  by (rule scast_eq[symmetric])

lemma scast_down: "LENGTH('a::len) \<le> LENGTH('b::len) \<Longrightarrow> (scast (w :: 'b word) :: 'a word) = ucast w"
  by transfer (simp add: take_bit_signed_take_bit)

lemma decode_encode:
  assumes "format_size f = Some n" "f \<noteq> 100"
  shows "decode_number f (mem_value (mem_bytes n (encode_number f v))) = format_value f v"
proof -
  consider "f = 108" "n = 8" | "f = 105" "n = 4" | "f = 115" "n = 2" | "f = 119" "n = 2" | "f = 99" "n = 1" | "f = 98" "n = 1" | "f = 102" "n = 4"
    using assms by (auto simp: format_size_def split: if_splits)
  then show ?thesis
    by cases (simp_all del: mem_bytes.simps add: decode_number_def encode_number_def format_value_def word_of_mem_value[where 'a = 64] word_of_mem_value[where 'a = 32]
      word_of_mem_value[where 'a = 16] word_of_mem_value[where 'a = 8] word_of_sint scast_down Let_def)
qed

context byte_stream begin

lemma writen_readn:
  assumes "ok s" "format_size (sint (tointeger format)) = Some n" "sint (tointeger format) \<noteq> 100"
  shows "\<exists>s1 s2 s3. stream_writen wr v format s = Some (Inr None, s1) \<and> sk (int (pos s)) GS_SEEK_SET s1 = (0, s2)
     \<and> stream_readn rd format s2 = Some (Inr (Some (format_value (sint (tointeger format)) v)), s3)
     \<and> ok s3 \<and> content s3 = content s1 \<and> pos s3 = pos s1"
proof -
  let ?f = "sint (tointeger format)"
  from write_seek_read[OF assms(1), of "mem_bytes n (encode_number ?f v)"] obtain s1 s2 s3 where
    s: "wr (mem_bytes n (encode_number ?f v)) s = Some (int n, s1)" "ok s1" "sk (int (pos s)) GS_SEEK_SET s1 = (0, s2)"
      "rd (int n) s2 = Some (mem_bytes n (encode_number ?f v), s3)" "ok s3" "content s3 = content s1" "pos s3 = pos s1" by auto
  then show ?thesis
    by (intro exI[of _ s1] exI[of _ s2] exI[of _ s3]) (simp add: stream_writen_def stream_readn_def assms(2) decode_encode[OF assms(2,3)] Let_def)
qed

end

text \<open>
  C22: Numbers survive a blob.  For every format but double, writing a number, seeking back and reading it answers
  the number as the format keeps it: whole for 64-bit integers and floats, sign or zero extended from the low
  bytes for the shorter integers; the content is as the write left it.
\<close>

theorem number_round_trip:
  assumes "blob_ok b" "format_size (sint (tointeger format)) = Some n" "sint (tointeger format) \<noteq> 100" "bptr b < 2 ^ 63"
  shows "\<exists>b1 b2 b3. stream_writen BlobWrite v format b = Some (Inr None, b1)
     \<and> stream_seek BlobSeek (OInteger (word_of_int (bptr b))) None b1 = Some (Inr (Some (OInteger 0)), b2)
     \<and> stream_readn BlobRead format b2 = Some (Inr (Some (format_value (sint (tointeger format)) v)), b3)
     \<and> blob_ok b3 \<and> blob_data b3 = blob_data b1"
proof -
  from blob_stream.writen_readn[OF assms(1-3), of v] obtain b1 b2 b3 where
    r: "stream_writen BlobWrite v format b = Some (Inr None, b1)" "BlobSeek (int (nat (bptr b))) GS_SEEK_SET b1 = (0, b2)"
      "stream_readn BlobRead format b2 = Some (Inr (Some (format_value (sint (tointeger format)) v)), b3)"
      "blob_ok b3" "blob_data b3 = blob_data b1" by auto
  have "0 \<le> bptr b" using assms(1) by (simp add: blob_ok_def)
  with assms(4) have "sint (word_of_int (bptr b) :: gsint) = bptr b"
    by (simp add: sint_sbintrunc' signed_take_bit_int_eq_self)
  with r(2) \<open>0 \<le> bptr b\<close> have "stream_seek BlobSeek (OInteger (word_of_int (bptr b))) None b1 = Some (Inr (Some (OInteger 0)), b2)"
    by (simp add: stream_seek_def Let_def)
  with r show ?thesis by blast
qed

lemma number_round_trip_witness:
  "\<exists>b b1 b2 b3. new_blob 0 = Some b \<and> stream_writen BlobWrite (OInteger (-2)) (OInteger 115) b = Some (Inr None, b1)
     \<and> stream_seek BlobSeek (OInteger 0) None b1 = Some (Inr (Some (OInteger 0)), b2)
     \<and> stream_readn BlobRead (OInteger 115) b2 = Some (Inr (Some (OInteger (-2))), b3)"
proof -
  from new_blob_ok[of 0] obtain b where b: "new_blob 0 = Some b" "blob_ok b" "bptr b = 0" by auto
  have f: "sint (tointeger (OInteger 115)) = 115" "format_size 115 = Some 2" "format_value 115 (OInteger (-2)) = OInteger (-2)"
    by (simp_all add: format_size_def format_value_def)
  from number_round_trip[OF b(2), of "OInteger 115" 2 "OInteger (-2)"] b f show ?thesis by auto
qed

section \<open>Byte order\<close>

lemma mem_bytes_word: "mem_bytes (Suc n) (uint (w :: 'a::len word)) = ucast w # mem_bytes n (uint (drop_bit 8 w))"
proof -
  have "uint w div 256 = drop_bit 8 (uint w)" by (simp add: drop_bit_eq_div)
  also have "\<dots> = uint (drop_bit 8 w)" by (simp add: unsigned_drop_bit_eq take_bit_int_eq_self)
  finally have "uint w div 256 = uint (drop_bit 8 w)" .
  moreover have "(word_of_int (uint w) :: byte) = ucast w" by simp
  ultimately show ?thesis by simp
qed

lemma lt8_cases: "n < LENGTH(8) \<Longrightarrow> P 0 \<Longrightarrow> P 1 \<Longrightarrow> P 2 \<Longrightarrow> P 3 \<Longrightarrow> P 4 \<Longrightarrow> P 5 \<Longrightarrow> P 6 \<Longrightarrow> P 7 \<Longrightarrow> P (n :: nat)"
  by (cases "n = 0 \<or> n = 1 \<or> n = 2 \<or> n = 3 \<or> n = 4 \<or> n = 5 \<or> n = 6 \<or> n = 7") auto

lemma swap_dword_bytes: "mem_bytes 4 (uint (swap_dword w)) = rev (mem_bytes 4 (uint w))"
proof -
  have b: "mem_bytes 4 (uint (v :: 32 word)) = [ucast v, ucast (drop_bit 8 v), ucast (drop_bit 16 v), ucast (drop_bit 24 v)]" for v
    by (simp add: eval_nat_numeral mem_bytes_word drop_bit_drop_bit del: mem_bytes.simps(2))
  have "(ucast (swap_dword w) :: byte) = ucast (drop_bit 24 w)" "(ucast (drop_bit 8 (swap_dword w)) :: byte) = ucast (drop_bit 16 w)"
    "(ucast (drop_bit 16 (swap_dword w)) :: byte) = ucast (drop_bit 8 w)" "(ucast (drop_bit 24 (swap_dword w)) :: byte) = ucast w"
    by (rule bit_word_eqI, rule lt8_cases, simp_all add: swap_dword_def bit_simps)+
  then show ?thesis by (simp add: b)
qed

lemma length_swap_groups: "4 * n \<le> length bs \<Longrightarrow> length (blob_swap4 n bs) = length bs"
  by (induction n arbitrary: bs) auto

lemma swap_group:
  assumes "length bs = 4"
  shows "mem_bytes 4 (uint (swap_dword (word_of_int (mem_value bs)))) = rev bs"
proof -
  have "uint (word_of_int (mem_value bs) :: 32 word) = mem_value bs"
    using mem_value_bounds[of bs] by (simp add: uint_word_of_int assms)
  with swap_dword_bytes[of "word_of_int (mem_value bs)"] mem_bytes_value[of bs] assms show ?thesis by simp
qed

lemma blob_swap4_twice: "4 * n \<le> length bs \<Longrightarrow> blob_swap4 n (blob_swap4 n bs) = bs"
proof (induction n arbitrary: bs)
  case (Suc n)
  let ?g = "mem_bytes 4 (uint (swap_dword (word_of_int (mem_value (take 4 bs)))))"
  have g: "?g = rev (take 4 bs)" by (rule swap_group) (use Suc.prems in simp)
  have "mem_bytes 4 (uint (swap_dword (word_of_int (mem_value ?g)))) = rev ?g" by (rule swap_group) simp
  moreover have "blob_swap4 n (blob_swap4 n (drop 4 bs)) = drop 4 bs" by (rule Suc.IH) (use Suc.prems in simp)
  moreover have "length (take 4 bs) = 4" using Suc.prems by simp
  ultimately show ?case by (simp add: g del: mem_bytes.simps length_take)
qed simp

section \<open>Boundary cases\<close>

text \<open>
  Boundary cases of blobs.  Reading a blob of a negative size, resizing to a negative size and appending a
  full blob to itself are undefined behaviour (a copy of a negative size, an allocation of one, a copy from the
  buffer just freed); iteration over an empty blob starts with an index that \<open>_get\<close> refuses; \<open>castf2i\<close> of a
  float depends on the four bytes behind it.
\<close>

theorem blob_boundary_cases:
  assumes "blob_ok b" "sint i < 0"
  shows "stream_readblob (OInteger i) b = None \<and> blob_resize (OInteger i) b = None
     \<and> (0 < bsize b \<and> bptr b = bsize b \<and> ballocated b = bsize b \<longrightarrow> stream_writeblob (h(p \<mapsto> b)) p p = None)
     \<and> (bsize b = 0 \<longrightarrow> blob_nexti ONull b = Inr (OInteger 0) \<and> blob_get (OInteger 0) b = Some (Inl (Some ''index out of range'')))
     \<and> (castf2i u v = castf2i u' v \<longleftrightarrow> u = u')"
proof (intro conjI impI)
  show "stream_readblob (OInteger i) b = None"
    using assms by (simp add: stream_readblob_def BlobRead_def CanAdvance_def blob_ok_def Let_def)
  show "blob_resize (OInteger i) b = None"
    using assms by (simp add: blob_resize_def BlobResize_def blob_ok_def)
  show "stream_writeblob (h(p \<mapsto> b)) p p = None" if "0 < bsize b \<and> bptr b = bsize b \<and> ballocated b = bsize b"
    using that by (simp add: stream_writeblob_def)
  have hi: "ucast (drop_bit 32 (push_bit 32 (ucast x) OR ucast (tofloat v) :: gsint)) = x" for x :: "32 word"
    by (rule bit_word_eqI) (auto simp: bit_simps dest: bit_imp_le_length)
  show "castf2i u v = castf2i u' v \<longleftrightarrow> u = u'"
    unfolding castf2i_def gsobj.inject using hi[of u] hi[of u'] by (metis (no_types))
qed (simp_all add: blob_nexti_def blob_get_def is_numeric_cases)

lemma blob_boundary_cases_witness:
  "\<exists>b. new_blob 1 = Some b \<and> stream_readblob (OInteger (-1)) b = None"
proof -
  from new_blob_ok[of 1] obtain b where b: "new_blob 1 = Some b" "blob_ok b" by auto
  from blob_boundary_cases[OF b(2), of "-1"] b(1) show ?thesis by simp
qed

end
