(* ===== verification/GS_Serial.thy ===== *)
theory GS_Serial
  imports GS_Blob GS_FuncState
begin

text \<open>
  Compiled closures as byte streams (GSobject.cpp): \<open>Save\<close> and \<open>Load\<close> of closures and function prototypes.

  The stream is the write and the read function of the caller, over any state; GS_Blob states what a stream
  promises and provides one.  A prototype is a record with the list of its inner prototypes.  Strings are
  addresses; \<open>schars_of\<close> is their text and \<open>sintern\<close> what \<open>GSString::Create\<close> answers for a text.  What the
  format does not keep is indeterminate after a load: the fields of \<open>serialenv\<close> whose names start with
  \<open>junk\<close>, and the bytes of padding behind the type of a captured variable (\<open>padding\<close>).  None is undefined behaviour:
  negative counts or counts beyond every memory, values no enumeration has, or a nesting of functions deeper than the fuel of \<open>LoadProto\<close>.
\<close>

section \<open>Sequencing\<close>

type_synonym ('a, 's) io = "'s \<Rightarrow> ((string + 'a) \<times> 's) option"

definition io_return :: "'a \<Rightarrow> ('a, 's) io" where "io_return x s = Some (Inr x, s)"
definition io_fail :: "string \<Rightarrow> ('a, 's) io" where "io_fail e s = Some (Inl e, s)"
definition io_undefined :: "('a, 's) io" where "io_undefined s = None"

definition io_bind :: "('a, 's) io \<Rightarrow> ('a \<Rightarrow> ('b, 's) io) \<Rightarrow> ('b, 's) io" where
  "io_bind m f s = (case m s of None \<Rightarrow> None | Some (Inl e, s1) \<Rightarrow> Some (Inl e, s1) | Some (Inr x, s1) \<Rightarrow> f x s1)"

fun io_seq :: "(unit, 's) io list \<Rightarrow> (unit, 's) io" where
  "io_seq [] = io_return ()"
| "io_seq (m # ms) = io_bind m (\<lambda>_. io_seq ms)"

fun io_times :: "nat \<Rightarrow> ('a, 's) io \<Rightarrow> ('a list, 's) io" where
  "io_times 0 m = io_return []"
| "io_times (Suc n) m = io_bind m (\<lambda>x. io_bind (io_times n m) (\<lambda>xs. io_return (x # xs)))"

section \<open>Prototypes\<close>

record protohead =
  hsourcename :: gsobj
  hname :: gsobj
  hliterals :: "gsobj list"
  hparameters :: "gsobj list"
  houtervalues :: "outervar list"
  hlocalvarinfos :: "localvar list"
  hlineinfos :: "(gsint \<times> gsint) list"
  hdefaultparams :: "gsint list"
  hinstructions :: "instruction list"
  hstacksize :: gsint
  hbgenerator :: bool
  hvarparams :: gsint
  hrettype :: gsint

datatype funcproto = FuncProto protohead "funcproto list"

record serialenv =
  schars_of :: "ptr \<Rightarrow> string"
  sintern :: "string \<Rightarrow> ptr"
  padding :: "outervar \<Rightarrow> byte list"
  junk_type :: int
  junk_array_size :: int
  junk_rettype :: gsint

definition opcodes :: "GSOpcode list" where
  "opcodes =
    [OP_LINE, OP_LOAD, OP_LOADINT, OP_LOADFLOAT, OP_DLOAD, OP_TAILCALL, OP_CALL, OP_PREPCALL,
     OP_PREPCALLK, OP_GETK, OP_MOVE, OP_NEWSLOT, OP_DELETE, OP_SET, OP_GET, OP_EQ, OP_NE,
     OP_ADD, OP_SUB, OP_MUL, OP_DIV, OP_MOD, OP_BITW, OP_RETURN, OP_LOADNULLS, OP_LOADROOT,
     OP_LOADBOOL, OP_DMOVE, OP_JMP, OP_JCMP, OP_JZ, OP_SETOUTER, OP_GETOUTER, OP_NEWOBJ,
     OP_APPENDARRAY, OP_COMPARITH, OP_INC, OP_INCL, OP_PINC, OP_PINCL, OP_CMP, OP_EXISTS,
     OP_INSTANCEOF, OP_AND, OP_OR, OP_NEG, OP_NOT, OP_BWNOT, OP_CLOSURE, OP_YIELD, OP_RESUME,
     OP_FOREACH, OP_POSTFOREACH, OP_CLONE, OP_TYPEOF, OP_PUSHTRAP, OP_POPTRAP, OP_THROW,
     OP_NEWSLOTA, OP_GETBASE, OP_CLOSE, OP_IMPORT, OP_NAMESPACE, OP_TYPECHECK, OP_MATCHTYPES]"

fun position :: "'a \<Rightarrow> 'a list \<Rightarrow> nat" where
  "position x [] = 0"
| "position x (y # ys) = (if x = y then 0 else Suc (position x ys))"

definition op_byte :: "GSOpcode \<Rightarrow> byte" where "op_byte o1 = word_of_nat (position o1 opcodes)"

definition op_of_byte :: "byte \<Rightarrow> GSOpcode option" where
  "op_of_byte b = (if unat b < length opcodes then Some (opcodes ! unat b) else None)"

section \<open>Writing\<close>

definition SafeWrite :: "(byte list \<Rightarrow> 's \<Rightarrow> (int \<times> 's) option) \<Rightarrow> byte list \<Rightarrow> (unit, 's) io" where
  "SafeWrite wr bs s =
     do {
       (n, s1) \<leftarrow> wr bs s;
       Some (if n \<noteq> int (length bs) then Inl ''io error (write function failure)'' else Inr (), s1)
     }"

abbreviation STREAM_HEAD :: "32 word" where "STREAM_HEAD \<equiv> 0x53514952"
abbreviation STREAM_PART :: "32 word" where "STREAM_PART \<equiv> 0x50415254"
abbreviation STREAM_TAIL :: "32 word" where "STREAM_TAIL \<equiv> 0x5441494C"

definition WriteTag :: "(byte list \<Rightarrow> 's \<Rightarrow> (int \<times> 's) option) \<Rightarrow> 32 word \<Rightarrow> (unit, 's) io" where
  "WriteTag wr tag = SafeWrite wr (mem_bytes 4 (uint tag))"

definition int_bytes :: "gsint \<Rightarrow> byte list" where "int_bytes i = mem_bytes 8 (uint i)"

definition byte_of_char :: "char \<Rightarrow> byte" where "byte_of_char c = word_of_nat (of_char c)"
definition char_of_byte :: "byte \<Rightarrow> char" where "char_of_byte b = char_of (unat b)"

definition WriteObject :: "(byte list \<Rightarrow> 's \<Rightarrow> (int \<times> 's) option) \<Rightarrow> serialenv \<Rightarrow> gsobj \<Rightarrow> (unit, 's) io" where
  "WriteObject wr E v =
     io_bind (SafeWrite wr (mem_bytes 4 (uint (type_code (type_of v))))) (\<lambda>_.
       case v of
         OString p \<Rightarrow>
           io_bind (SafeWrite wr (int_bytes (word_of_nat (length (schars_of E p))))) (\<lambda>_.
             SafeWrite wr (map byte_of_char (schars_of E p)))
       | OBool b \<Rightarrow> SafeWrite wr (int_bytes (if b then 1 else 0))
       | OInteger i \<Rightarrow> SafeWrite wr (int_bytes i)
       | OFloat f \<Rightarrow> SafeWrite wr (mem_bytes 4 (uint f))
       | ONull \<Rightarrow> io_return ()
       | _ \<Rightarrow> io_fail (''cannot serialize a '' @ GetTypeName v))"

definition outer_code :: "GSOuterType \<Rightarrow> 32 word" where
  "outer_code t = (case t of otLOCAL \<Rightarrow> 0 | otOUTER \<Rightarrow> 1)"

definition line_bytes :: "gsint \<times> gsint \<Rightarrow> byte list" where
  "line_bytes l = int_bytes (fst l) @ int_bytes (snd l)"

definition instr_bytes :: "instruction \<Rightarrow> byte list" where
  "instr_bytes i = mem_bytes 4 (uint (a1 i)) @ [op_byte (op i), a0 i, a2 i, a3 i]"

definition write_outer :: "(byte list \<Rightarrow> 's \<Rightarrow> (int \<times> 's) option) \<Rightarrow> serialenv \<Rightarrow> outervar \<Rightarrow> (unit, 's) io" where
  "write_outer wr E o1 =
     io_seq [SafeWrite wr (mem_bytes 4 (uint (outer_code (otype o1))) @ padding E o1),
             WriteObject wr E (osrc o1), WriteObject wr E (oname o1)]"

definition write_local :: "(byte list \<Rightarrow> 's \<Rightarrow> (int \<times> 's) option) \<Rightarrow> serialenv \<Rightarrow> localvar \<Rightarrow> (unit, 's) io" where
  "write_local wr E l =
     io_seq [WriteObject wr E (lname l), SafeWrite wr (int_bytes (lpos l)), SafeWrite wr (int_bytes (start_op l)),
             SafeWrite wr (int_bytes (end_op l))]"

definition count_bytes :: "'a list \<Rightarrow> byte list" where "count_bytes xs = int_bytes (word_of_nat (length xs))"

fun SaveProto :: "(byte list \<Rightarrow> 's \<Rightarrow> (int \<times> 's) option) \<Rightarrow> serialenv \<Rightarrow> funcproto \<Rightarrow> (unit, 's) io" where
  "SaveProto wr E (FuncProto h fs) =
     io_seq
      ([WriteTag wr STREAM_PART, WriteObject wr E (hsourcename h), WriteObject wr E (hname h), WriteTag wr STREAM_PART,
        SafeWrite wr (count_bytes (hliterals h)), SafeWrite wr (count_bytes (hparameters h)),
        SafeWrite wr (count_bytes (houtervalues h)), SafeWrite wr (count_bytes (hlocalvarinfos h)),
        SafeWrite wr (count_bytes (hlineinfos h)), SafeWrite wr (count_bytes (hdefaultparams h)),
        SafeWrite wr (count_bytes (hinstructions h)), SafeWrite wr (count_bytes fs),
        WriteTag wr STREAM_PART, io_seq (map (WriteObject wr E) (hliterals h)),
        WriteTag wr STREAM_PART, io_seq (map (WriteObject wr E) (hparameters h)),
        WriteTag wr STREAM_PART, io_seq (map (write_outer wr E) (houtervalues h)),
        WriteTag wr STREAM_PART, io_seq (map (write_local wr E) (hlocalvarinfos h)),
        WriteTag wr STREAM_PART, SafeWrite wr (concat (map line_bytes (hlineinfos h))),
        WriteTag wr STREAM_PART, SafeWrite wr (concat (map int_bytes (hdefaultparams h))),
        WriteTag wr STREAM_PART, SafeWrite wr (concat (map instr_bytes (hinstructions h))),
        WriteTag wr STREAM_PART, io_seq (map (SaveProto wr E) fs),
        SafeWrite wr (int_bytes (hstacksize h)), SafeWrite wr [if hbgenerator h then 1 else 0],
        SafeWrite wr (int_bytes (hvarparams h))])"

definition SaveClosure :: "(byte list \<Rightarrow> 's \<Rightarrow> (int \<times> 's) option) \<Rightarrow> serialenv \<Rightarrow> funcproto \<Rightarrow> (unit, 's) io" where
  "SaveClosure wr E f =
     io_seq [WriteTag wr STREAM_HEAD, WriteTag wr 1, WriteTag wr 8, WriteTag wr 4, SaveProto wr E f, WriteTag wr STREAM_TAIL]"

section \<open>Reading\<close>

definition read_error :: string where
  "read_error = ''io error, read function failure, the origin stream could be corrupted/trucated''"

definition SafeRead :: "(int \<Rightarrow> 's \<Rightarrow> (byte list \<times> 's) option) \<Rightarrow> int \<Rightarrow> (byte list, 's) io" where
  "SafeRead rd n s =
     (if n = 0 then Some (Inr [], s)
      else do {
        (bs, s1) \<leftarrow> rd n s;
        Some (if int (length bs) \<noteq> n then Inl read_error else Inr bs, s1)
      })"

definition CheckTag :: "(int \<Rightarrow> 's \<Rightarrow> (byte list \<times> 's) option) \<Rightarrow> 32 word \<Rightarrow> (unit, 's) io" where
  "CheckTag rd tag =
     io_bind (SafeRead rd 4) (\<lambda>bs.
       if (word_of_int (mem_value bs) :: 32 word) \<noteq> tag then io_fail ''invalid or corrupted closure stream'' else io_return ())"

definition read_int :: "(int \<Rightarrow> 's \<Rightarrow> (byte list \<times> 's) option) \<Rightarrow> (gsint, 's) io" where
  "read_int rd = io_bind (SafeRead rd 8) (\<lambda>bs. io_return (word_of_int (mem_value bs)))"

text \<open>The switch over the type read; a bool with another payload than 0 and 1 is no value of the model.\<close>

definition read_payload :: "(int \<Rightarrow> 's \<Rightarrow> (byte list \<times> 's) option) \<Rightarrow> serialenv \<Rightarrow> 32 word \<Rightarrow> (gsobj, 's) io" where
  "read_payload rd E t =
     (if t = type_code OT_STRING then
        io_bind (read_int rd) (\<lambda>len.
          io_bind (SafeRead rd (sint len)) (\<lambda>cs. io_return (OString (sintern E (map char_of_byte cs)))))
      else if t = type_code OT_INTEGER then io_bind (read_int rd) (\<lambda>i. io_return (OInteger i))
      else if t = type_code OT_BOOL then
        io_bind (read_int rd) (\<lambda>i. if i = 0 then io_return (OBool False) else if i = 1 then io_return (OBool True) else io_undefined)
      else if t = type_code OT_FLOAT then io_bind (SafeRead rd 4) (\<lambda>cs. io_return (OFloat (word_of_int (mem_value cs))))
      else if t = type_code OT_NULL then io_return ONull
      else (case IdType2Name t of None \<Rightarrow> io_undefined | Some n \<Rightarrow> io_fail (''cannot serialize a '' @ n)))"

definition ReadObject :: "(int \<Rightarrow> 's \<Rightarrow> (byte list \<times> 's) option) \<Rightarrow> serialenv \<Rightarrow> (gsobj, 's) io" where
  "ReadObject rd E = io_bind (SafeRead rd 4) (\<lambda>bs. read_payload rd E (word_of_int (mem_value bs)))"

definition read_outer :: "(int \<Rightarrow> 's \<Rightarrow> (byte list \<times> 's) option) \<Rightarrow> serialenv \<Rightarrow> (outervar, 's) io" where
  "read_outer rd E =
     io_bind (read_int rd) (\<lambda>t. io_bind (ReadObject rd E) (\<lambda>src. io_bind (ReadObject rd E) (\<lambda>nm.
       let c = (ucast t :: 32 word) in
       if c = 0 then io_return \<lparr>oname = nm, osrc = src, otype = otLOCAL\<rparr>
       else if c = 1 then io_return \<lparr>oname = nm, osrc = src, otype = otOUTER\<rparr> else io_undefined)))"

definition read_local :: "(int \<Rightarrow> 's \<Rightarrow> (byte list \<times> 's) option) \<Rightarrow> serialenv \<Rightarrow> (localvar, 's) io" where
  "read_local rd E =
     io_bind (ReadObject rd E) (\<lambda>nm. io_bind (read_int rd) (\<lambda>p. io_bind (read_int rd) (\<lambda>st. io_bind (read_int rd) (\<lambda>en.
       io_return \<lparr>lname = nm, start_op = st, end_op = en, lpos = p, ltype = junk_type E, larray_size = junk_array_size E\<rparr>))))"

text \<open>A block of structures, read at once.\<close>

fun chunks :: "nat \<Rightarrow> nat \<Rightarrow> byte list \<Rightarrow> byte list list" where
  "chunks k 0 bs = []"
| "chunks k (Suc n) bs = take k bs # chunks k n (drop k bs)"

definition int_of_bytes :: "byte list \<Rightarrow> gsint" where "int_of_bytes bs = word_of_int (mem_value bs)"

definition line_of_bytes :: "byte list \<Rightarrow> gsint \<times> gsint" where
  "line_of_bytes bs = (int_of_bytes (take 8 bs), int_of_bytes (drop 8 bs))"

definition instr_of_bytes :: "byte list \<Rightarrow> instruction option" where
  "instr_of_bytes bs =
     map_option (\<lambda>o1. \<lparr>op = o1, a0 = bs ! 5, a1 = word_of_int (mem_value (take 4 bs)), a2 = bs ! 6, a3 = bs ! 7\<rparr>) (op_of_byte (bs ! 4))"

definition io_option :: "'a option \<Rightarrow> ('a, 's) io" where
  "io_option x = (case x of None \<Rightarrow> io_undefined | Some y \<Rightarrow> io_return y)"

primrec LoadProto :: "nat \<Rightarrow> (int \<Rightarrow> 's \<Rightarrow> (byte list \<times> 's) option) \<Rightarrow> serialenv \<Rightarrow> (funcproto, 's) io" where
  "LoadProto 0 rd E = io_undefined"
| "LoadProto (Suc depth) rd E =
     io_bind (CheckTag rd STREAM_PART) (\<lambda>_.
     io_bind (ReadObject rd E) (\<lambda>src.
     io_bind (ReadObject rd E) (\<lambda>nm.
     io_bind (CheckTag rd STREAM_PART) (\<lambda>_.
     io_bind (read_int rd) (\<lambda>nliterals.
     io_bind (read_int rd) (\<lambda>nparameters.
     io_bind (read_int rd) (\<lambda>noutervalues.
     io_bind (read_int rd) (\<lambda>nlocalvarinfos.
     io_bind (read_int rd) (\<lambda>nlineinfos.
     io_bind (read_int rd) (\<lambda>ndefaultparams.
     io_bind (read_int rd) (\<lambda>ninstructions.
     io_bind (read_int rd) (\<lambda>nfunctions.
     if \<exists>n \<in> {nliterals, nparameters, noutervalues, nlocalvarinfos, nlineinfos, ndefaultparams, ninstructions, nfunctions}. 2 ^ 59 \<le> uint n
     then io_undefined else
     io_bind (CheckTag rd STREAM_PART) (\<lambda>_.
     io_bind (io_times (unat nliterals) (ReadObject rd E)) (\<lambda>literals.
     io_bind (CheckTag rd STREAM_PART) (\<lambda>_.
     io_bind (io_times (unat nparameters) (ReadObject rd E)) (\<lambda>parameters.
     io_bind (CheckTag rd STREAM_PART) (\<lambda>_.
     io_bind (io_times (unat noutervalues) (read_outer rd E)) (\<lambda>outervalues.
     io_bind (CheckTag rd STREAM_PART) (\<lambda>_.
     io_bind (io_times (unat nlocalvarinfos) (read_local rd E)) (\<lambda>localvarinfos.
     io_bind (CheckTag rd STREAM_PART) (\<lambda>_.
     io_bind (SafeRead rd (16 * uint nlineinfos)) (\<lambda>lineb.
     io_bind (CheckTag rd STREAM_PART) (\<lambda>_.
     io_bind (SafeRead rd (8 * uint ndefaultparams)) (\<lambda>defb.
     io_bind (CheckTag rd STREAM_PART) (\<lambda>_.
     io_bind (SafeRead rd (8 * uint ninstructions)) (\<lambda>insb.
     io_bind (io_option (those (map instr_of_bytes (chunks 8 (unat ninstructions) insb)))) (\<lambda>instructions.
     io_bind (CheckTag rd STREAM_PART) (\<lambda>_.
     io_bind (io_times (unat nfunctions) (LoadProto depth rd E)) (\<lambda>functions.
     io_bind (read_int rd) (\<lambda>stacksize.
     io_bind (SafeRead rd 1) (\<lambda>genb.
     io_bind (read_int rd) (\<lambda>varparams.
     if genb \<noteq> [0] \<and> genb \<noteq> [1] then io_undefined else
     io_return (FuncProto
       \<lparr>hsourcename = src, hname = nm, hliterals = literals, hparameters = parameters, houtervalues = outervalues,
        hlocalvarinfos = localvarinfos, hlineinfos = map line_of_bytes (chunks 16 (unat nlineinfos) lineb),
        hdefaultparams = map int_of_bytes (chunks 8 (unat ndefaultparams) defb), hinstructions = instructions,
        hstacksize = stacksize, hbgenerator = (genb = [1]), hvarparams = varparams, hrettype = junk_rettype E\<rparr>
       functions)))))))))))))))))))))))))))))))))"

definition LoadClosure :: "nat \<Rightarrow> (int \<Rightarrow> 's \<Rightarrow> (byte list \<times> 's) option) \<Rightarrow> serialenv \<Rightarrow> (funcproto, 's) io" where
  "LoadClosure depth rd E =
     io_bind (CheckTag rd STREAM_HEAD) (\<lambda>_. io_bind (CheckTag rd 1) (\<lambda>_. io_bind (CheckTag rd 8) (\<lambda>_. io_bind (CheckTag rd 4) (\<lambda>_.
       io_bind (LoadProto depth rd E) (\<lambda>f. io_bind (CheckTag rd STREAM_TAIL) (\<lambda>_. io_return f))))))"

section \<open>The format\<close>

definition payload_bytes :: "serialenv \<Rightarrow> gsobj \<Rightarrow> byte list" where
  "payload_bytes E v =
     (case v of
        OString p \<Rightarrow> int_bytes (word_of_nat (length (schars_of E p))) @ map byte_of_char (schars_of E p)
      | OBool b \<Rightarrow> int_bytes (if b then 1 else 0)
      | OInteger i \<Rightarrow> int_bytes i
      | OFloat f \<Rightarrow> mem_bytes 4 (uint f)
      | _ \<Rightarrow> [])"

definition obj_bytes :: "serialenv \<Rightarrow> gsobj \<Rightarrow> byte list" where
  "obj_bytes E v = mem_bytes 4 (uint (type_code (type_of v))) @ payload_bytes E v"

definition outer_bytes :: "serialenv \<Rightarrow> outervar \<Rightarrow> byte list" where
  "outer_bytes E o1 = concat [mem_bytes 4 (uint (outer_code (otype o1))) @ padding E o1, obj_bytes E (osrc o1), obj_bytes E (oname o1)]"

definition local_bytes :: "serialenv \<Rightarrow> localvar \<Rightarrow> byte list" where
  "local_bytes E l = concat [obj_bytes E (lname l), int_bytes (lpos l), int_bytes (start_op l), int_bytes (end_op l)]"

abbreviation part_bytes :: "byte list" where "part_bytes \<equiv> mem_bytes 4 (uint STREAM_PART)"

fun proto_bytes :: "serialenv \<Rightarrow> funcproto \<Rightarrow> byte list" where
  "proto_bytes E (FuncProto h fs) =
     concat
      [part_bytes, obj_bytes E (hsourcename h), obj_bytes E (hname h), part_bytes,
       count_bytes (hliterals h), count_bytes (hparameters h), count_bytes (houtervalues h), count_bytes (hlocalvarinfos h),
       count_bytes (hlineinfos h), count_bytes (hdefaultparams h), count_bytes (hinstructions h), count_bytes fs,
       part_bytes, concat (map (obj_bytes E) (hliterals h)),
       part_bytes, concat (map (obj_bytes E) (hparameters h)),
       part_bytes, concat (map (outer_bytes E) (houtervalues h)),
       part_bytes, concat (map (local_bytes E) (hlocalvarinfos h)),
       part_bytes, concat (map line_bytes (hlineinfos h)),
       part_bytes, concat (map int_bytes (hdefaultparams h)),
       part_bytes, concat (map instr_bytes (hinstructions h)),
       part_bytes, concat (map (proto_bytes E) fs),
       int_bytes (hstacksize h), [if hbgenerator h then 1 else 0], int_bytes (hvarparams h)]"

definition closure_bytes :: "serialenv \<Rightarrow> funcproto \<Rightarrow> byte list" where
  "closure_bytes E f =
     concat [mem_bytes 4 (uint STREAM_HEAD), mem_bytes 4 (uint (1 :: 32 word)), mem_bytes 4 (uint (8 :: 32 word)),
             mem_bytes 4 (uint (4 :: 32 word)), proto_bytes E f, mem_bytes 4 (uint STREAM_TAIL)]"

text \<open>What can be saved: live interned strings and plain values, sizes a GSInteger can count.\<close>

abbreviation countable_len :: "'a list \<Rightarrow> bool" where "countable_len xs \<equiv> int (length xs) < 2 ^ 59"

definition storable :: "serialenv \<Rightarrow> gsobj \<Rightarrow> bool" where
  "storable E v =
     (case v of
        OString p \<Rightarrow> sintern E (schars_of E p) = p \<and> countable_len (schars_of E p)
      | OBool _ \<Rightarrow> True | OInteger _ \<Rightarrow> True | OFloat _ \<Rightarrow> True | ONull \<Rightarrow> True | _ \<Rightarrow> False)"

fun storable_proto :: "serialenv \<Rightarrow> funcproto \<Rightarrow> bool" where
  "storable_proto E (FuncProto h fs) =
     (storable E (hsourcename h) \<and> storable E (hname h) \<and> list_all (storable E) (hliterals h) \<and> list_all (storable E) (hparameters h)
      \<and> list_all (\<lambda>v. storable E (osrc v) \<and> storable E (oname v) \<and> length (padding E v) = 4) (houtervalues h)
      \<and> list_all (\<lambda>v. storable E (lname v)) (hlocalvarinfos h)
      \<and> countable_len (hliterals h) \<and> countable_len (hparameters h) \<and> countable_len (houtervalues h) \<and> countable_len (hlocalvarinfos h)
      \<and> countable_len (hlineinfos h) \<and> countable_len (hdefaultparams h) \<and> countable_len (hinstructions h) \<and> countable_len fs
      \<and> list_all (storable_proto E) fs)"

text \<open>What a load makes of it.\<close>

definition loaded_local :: "serialenv \<Rightarrow> localvar \<Rightarrow> localvar" where
  "loaded_local E l = l\<lparr>ltype := junk_type E, larray_size := junk_array_size E\<rparr>"

fun loaded :: "serialenv \<Rightarrow> funcproto \<Rightarrow> funcproto" where
  "loaded E (FuncProto h fs) =
     FuncProto (h\<lparr>hlocalvarinfos := map (loaded_local E) (hlocalvarinfos h), hrettype := junk_rettype E\<rparr>) (map (loaded E) fs)"

fun proto_depth :: "funcproto \<Rightarrow> nat" where
  "proto_depth (FuncProto h fs) = Suc (fold max (map proto_depth fs) 0)"

lemma fold_max_ge: "x \<le> fold max xs x \<and> (\<forall>y \<in> set xs. y \<le> fold max xs (x :: nat))"
proof (induction xs arbitrary: x)
  case (Cons a xs)
  from Cons[of "max a x"] show ?case by auto
qed simp

lemma proto_depth_child: "f \<in> set fs \<Longrightarrow> proto_depth f < proto_depth (FuncProto h fs)"
  using fold_max_ge[where xs = "map proto_depth fs" and x = 0] by (simp add: less_Suc_eq_le)

section \<open>Bytes\<close>

lemma length_int_bytes [simp]: "length (int_bytes i) = 8"
  by (simp add: int_bytes_def)

lemma int_of_int_bytes [simp]: "int_of_bytes (int_bytes i) = i"
proof -
  have "(word_of_int (mem_value (mem_bytes 8 (uint i))) :: gsint) = word_of_int (uint i)"
    by (rule word_of_mem_value) simp
  then show ?thesis by (simp add: int_of_bytes_def int_bytes_def)
qed

lemma word32_mem_value [simp]: "(word_of_int (mem_value (mem_bytes 4 (uint (w :: 32 word)))) :: 32 word) = w"
proof -
  have "(word_of_int (mem_value (mem_bytes 4 (uint w))) :: 32 word) = word_of_int (uint w)"
    by (rule word_of_mem_value) simp
  then show ?thesis by simp
qed

lemma mem_value_append: "mem_value (xs @ ys) = mem_value xs + 256 ^ length xs * mem_value ys"
  by (induction xs) (simp_all add: algebra_simps)

lemma low_word:
  assumes "length bs = 4" "(word_of_int (mem_value bs) :: 32 word) = w"
  shows "(ucast (int_of_bytes (bs @ cs)) :: 32 word) = w"
proof -
  have "(ucast (int_of_bytes (bs @ cs)) :: 32 word) = word_of_int (take_bit 32 (mem_value (bs @ cs)))"
    by (simp add: int_of_bytes_def unsigned_ucast_eq ucast_eq uint_word_of_int_eq take_bit_take_bit word_of_int_eq_iff)
  also have "\<dots> = word_of_int (mem_value bs)"
    by (simp add: mem_value_append assms(1) word_of_int_eq_iff take_bit_eq_mod)
  finally show ?thesis using assms(2) by simp
qed

lemma char_byte [simp]: "char_of_byte (byte_of_char c) = c"
proof -
  have "of_char c < (256 :: nat)" by simp
  then show ?thesis by (simp add: char_of_byte_def byte_of_char_def unat_of_nat)
qed

lemma char_byte_comp [simp]: "char_of_byte \<circ> byte_of_char = id"
  by (simp add: fun_eq_iff)

lemma position_less: "x \<in> set xs \<Longrightarrow> position x xs < length xs \<and> xs ! position x xs = x"
  by (induction xs) auto

lemma all_opcodes: "o1 \<in> set opcodes"
  by (cases o1) (simp_all add: opcodes_def)

lemma op_of_op_byte [simp]: "op_of_byte (op_byte o1) = Some o1"
proof -
  have l: "length opcodes = 65" by (simp add: opcodes_def)
  from position_less[OF all_opcodes, of o1] l show ?thesis
    by (simp add: op_of_byte_def op_byte_def unat_of_nat)
qed

lemma instr_of_instr_bytes [simp]: "instr_of_bytes (instr_bytes i) = Some i"
  by (simp add: instr_of_bytes_def instr_bytes_def nth_append)

lemma line_of_line_bytes [simp]: "line_of_bytes (line_bytes l) = l"
  by (simp add: line_of_bytes_def line_bytes_def)

lemma chunks_concat: "\<forall>x \<in> set xs. length (g x) = k \<Longrightarrow> chunks k (length xs) (concat (map g xs)) = map g xs"
  by (induction xs) auto

lemma length_concat_const: "\<forall>x \<in> set xs. length (g x) = k \<Longrightarrow> length (concat (map g xs)) = k * length xs"
  by (induction xs) auto

lemma length_instr_bytes [simp]: "length (instr_bytes i) = 8"
  by (simp add: instr_bytes_def)

lemma length_line_bytes [simp]: "length (line_bytes l) = 16"
  by (simp add: line_bytes_def)

lemma those_Some: "those (map Some xs) = Some xs"
  by (induction xs) auto

lemma counted: "countable_len xs \<Longrightarrow> unat (word_of_nat (length xs) :: gsint) = length xs \<and> uint (word_of_nat (length xs) :: gsint) = int (length xs)
     \<and> sint (word_of_nat (length xs) :: gsint) = int (length xs)"
proof -
  assume n: "countable_len xs"
  let ?w = "word_of_nat (length xs) :: gsint"
  have u: "unat ?w = length xs" using n by (simp add: unat_of_nat)
  have "sint (word_of_int (int (length xs)) :: gsint) = int (length xs)"
    using n by (simp add: sint_sbintrunc' signed_take_bit_int_eq_self del: of_int_of_nat_eq)
  then have "sint ?w = int (length xs)" by simp
  moreover have "uint ?w = int (unat ?w)" by simp
  ultimately show ?thesis using u by simp
qed

lemma type_codes:
  "type_code OT_NULL = 0x01000001" "type_code OT_INTEGER = 0x05000002" "type_code OT_FLOAT = 0x05000004"
  "type_code OT_BOOL = 0x01000008" "type_code OT_STRING = 0x08000010"
  by code_simp+

declare type_code.simps [simp del]

section \<open>Saving and loading through a stream\<close>

context byte_stream begin

definition left :: "'s \<Rightarrow> byte list" where
  "left s = drop (pos s) (content s)"

text \<open>\<open>m\<close> appends \<open>bs\<close>; \<open>m\<close> consumes exactly \<open>bs\<close> and answers \<open>x\<close>, and fails on every shorter stream.\<close>

definition writes :: "(unit, 's) io \<Rightarrow> byte list \<Rightarrow> bool" where
  "writes m bs = (\<forall>s. ok s \<and> pos s = length (content s) \<longrightarrow>
     (\<exists>s'. m s = Some (Inr (), s') \<and> ok s' \<and> content s' = content s @ bs \<and> pos s' = length (content s')))"

definition reads :: "('a, 's) io \<Rightarrow> byte list \<Rightarrow> 'a \<Rightarrow> bool" where
  "reads m bs x =
     ((\<forall>s rest. ok s \<and> left s = bs @ rest \<longrightarrow>
         (\<exists>s'. m s = Some (Inr x, s') \<and> ok s' \<and> content s' = content s \<and> pos s' = pos s + length bs))
      \<and> (\<forall>s k. ok s \<and> k < length bs \<and> left s = take k bs \<longrightarrow> (\<exists>s'. m s = Some (Inl read_error, s'))))"

lemma writes_SafeWrite: "writes (SafeWrite wr bs) bs"
  unfolding writes_def
proof (intro allI impI)
  fix s assume "ok s \<and> pos s = length (content s)"
  then show "\<exists>s'. SafeWrite wr bs s = Some (Inr (), s') \<and> ok s' \<and> content s' = content s @ bs \<and> pos s' = length (content s')"
    using wr_law[of s bs] by (auto simp: SafeWrite_def)
qed

lemma writes_bind: "writes m bs \<Longrightarrow> writes (f ()) cs \<Longrightarrow> writes (io_bind m f) (bs @ cs)"
  by (fastforce simp: writes_def io_bind_def)

lemma writes_Nil: "writes (io_seq []) (concat [])"
  by (simp add: writes_def io_return_def)

lemma writes_Cons: "writes m b \<Longrightarrow> writes (io_seq ms) (concat bs) \<Longrightarrow> writes (io_seq (m # ms)) (concat (b # bs))"
  using writes_bind[of m b "\<lambda>_. io_seq ms"] by simp

lemma writes_tag: "writes (WriteTag wr t) (mem_bytes 4 (uint t))"
  unfolding WriteTag_def by (rule writes_SafeWrite)

lemma writes_map: "\<forall>x \<in> set xs. writes (f x) (g x) \<Longrightarrow> writes (io_seq (map f xs)) (concat (map g xs))"
  by (induction xs) (auto intro: writes_Nil[simplified] writes_Cons[simplified])

lemma writes_object: "storable E v \<Longrightarrow> writes (WriteObject wr E v) (obj_bytes E v)"
  unfolding WriteObject_def obj_bytes_def payload_bytes_def
  by (rule writes_bind[OF writes_SafeWrite], cases v)
     (auto simp: storable_def writes_def[of "io_return ()"] io_return_def intro: writes_SafeWrite writes_bind)

lemmas writes_intros = writes_Cons writes_Nil writes_SafeWrite writes_tag writes_map writes_object

lemma writes_proto: "storable_proto E f \<Longrightarrow> writes (SaveProto wr E f) (proto_bytes E f)"
proof (induction f rule: proto_depth.induct)
  case (1 h fs)
  have "\<forall>f \<in> set fs. writes (SaveProto wr E f) (proto_bytes E f)" using 1 by (auto simp: list_all_iff)
  moreover have "\<forall>v \<in> set (houtervalues h). writes (write_outer wr E v) (outer_bytes E v)"
    using 1(2) unfolding write_outer_def outer_bytes_def by (auto simp: list_all_iff simp del: io_seq.simps concat.simps intro!: writes_intros)
  moreover have "\<forall>v \<in> set (hlocalvarinfos h). writes (write_local wr E v) (local_bytes E v)"
    using 1(2) unfolding write_local_def local_bytes_def by (auto simp: list_all_iff simp del: io_seq.simps concat.simps intro!: writes_intros)
  ultimately show ?case
    using 1(2) unfolding SaveProto.simps proto_bytes.simps
    by (intro writes_intros) (auto simp: list_all_iff intro: writes_object)
qed

lemma writes_closure: "storable_proto E f \<Longrightarrow> writes (SaveClosure wr E f) (closure_bytes E f)"
  unfolding SaveClosure_def closure_bytes_def by (intro writes_intros writes_proto) 

lemma reads_return: "x = y \<Longrightarrow> reads (io_return x) [] y"
  by (simp add: reads_def io_return_def)

lemma left_after:
  assumes "content s' = content s" "pos s' = pos s + length bs" "left s = bs @ rest"
  shows "left s' = rest"
proof -
  have "left s' = drop (length bs) (left s)" using assms(1,2) by (simp add: left_def add.commute)
  with assms(3) show ?thesis by simp
qed

lemma reads_bind:
  assumes m: "reads m bs x" and f: "reads (f x) cs y"
  shows "reads (io_bind m f) (bs @ cs) y"
  unfolding reads_def
proof (intro conjI allI impI; elim conjE)
  fix s rest assume s: "ok s" "left s = (bs @ cs) @ rest"
  from m s obtain s1 where s1: "m s = Some (Inr x, s1)" "ok s1" "content s1 = content s" "pos s1 = pos s + length bs"
    by (auto simp: reads_def)
  have "left s1 = cs @ rest" by (rule left_after[OF s1(3,4)]) (simp add: s(2))
  with f s1(2) obtain s2 where "f x s1 = Some (Inr y, s2)" "ok s2" "content s2 = content s1" "pos s2 = pos s1 + length cs"
    by (auto simp: reads_def)
  with s1 show "\<exists>s'. io_bind m f s = Some (Inr y, s') \<and> ok s' \<and> content s' = content s \<and> pos s' = pos s + length (bs @ cs)"
    by (auto simp: io_bind_def)
next
  fix s k assume s: "ok s" "k < length (bs @ cs)" "left s = take k (bs @ cs)"
  show "\<exists>s'. io_bind m f s = Some (Inl read_error, s')"
  proof (cases "k < length bs")
    case True
    with s(3) have "left s = take k bs" by simp
    with m s(1) True obtain s1 where "m s = Some (Inl read_error, s1)" by (auto simp: reads_def)
    then show ?thesis by (simp add: io_bind_def)
  next
    case False
    with s(3) have l: "left s = bs @ take (k - length bs) cs" by simp
    with m s(1) obtain s1 where s1: "m s = Some (Inr x, s1)" "ok s1" "content s1 = content s" "pos s1 = pos s + length bs"
      by (auto simp: reads_def)
    have "left s1 = take (k - length bs) cs" by (rule left_after[OF s1(3,4) l])
    moreover have "k - length bs < length cs" using False s(2) by simp
    ultimately obtain s2 where "f x s1 = Some (Inl read_error, s2)" using f s1(2) by (auto simp: reads_def)
    with s1(1) show ?thesis by (simp add: io_bind_def)
  qed
qed

lemma reads_SafeRead:
  assumes "n = int (length bs)"
  shows "reads (SafeRead rd n) bs bs"
proof (cases "bs = []")
  case True
  with assms show ?thesis by (simp add: reads_def SafeRead_def)
next
  case False
  then have n: "0 < n" using assms by simp
  show ?thesis
    unfolding reads_def
  proof (intro conjI allI impI; elim conjE)
    fix s rest assume s: "ok s" "left s = bs @ rest"
    have "length (left s) = length bs + length rest" using s(2) by simp
    then have "min (length (content s) - pos s) (length bs) = length bs" by (simp add: left_def)
    with rd_law[OF s(1), of n] n s(2) assms
    show "\<exists>s'. SafeRead rd n s = Some (Inr bs, s') \<and> ok s' \<and> content s' = content s \<and> pos s' = pos s + length bs"
      by (auto simp: SafeRead_def left_def)
  next
    fix s k assume s: "ok s" "k < length bs" "left s = take k bs"
    from rd_law[OF s(1), of n] n s(2,3) assms show "\<exists>s'. SafeRead rd n s = Some (Inl read_error, s')"
      by (auto simp: SafeRead_def left_def)
  qed
qed

lemma reads_map:
  assumes "reads m bs x" "\<And>y. f y = io_return (g y)"
  shows "reads (io_bind m f) bs (g x)"
  using reads_bind[OF assms(1), of f "[]"] reads_return[of "g x"] assms(2) by simp

lemma reads_tag: "reads (CheckTag rd t) (mem_bytes 4 (uint t)) ()"
  unfolding CheckTag_def
  by (rule reads_bind[OF reads_SafeRead, where cs = "[]", simplified]) (simp_all add: reads_return)

lemma reads_int: "reads (read_int rd) (int_bytes i) i"
proof -
  have "reads (read_int rd) (int_bytes i) (word_of_int (mem_value (int_bytes i)))"
    unfolding read_int_def by (rule reads_map[OF reads_SafeRead]) simp_all
  then show ?thesis by (simp flip: int_of_bytes_def)
qed

lemma reads_times:
  assumes "\<forall>x \<in> set xs. reads m (g x) (r x)" "n = length xs"
  shows "reads (io_times n m) (concat (map g xs)) (map r xs)"
  using assms
proof (induction xs arbitrary: n)
  case Nil
  then show ?case by (simp add: reads_return)
next
  case (Cons x xs)
  then have IH: "reads (io_times (length xs) m) (concat (map g xs)) (map r xs)" by simp
  have "reads (io_bind m (\<lambda>y. io_bind (io_times (length xs) m) (\<lambda>ys. io_return (y # ys)))) (g x @ concat (map g xs)) (r x # map r xs)"
    by (rule reads_bind[of _ _ "r x"]) (use Cons.prems(1) in simp, rule reads_map[OF IH], simp)
  with Cons.prems(2) show ?case by simp
qed

lemma reads_payload:
  assumes "storable E v"
  shows "reads (read_payload rd E (type_code (type_of v))) (payload_bytes E v) v"
proof (cases v)
  case (OString p)
  let ?cs = "schars_of E p"
  have c: "countable_len ?cs" "sintern E ?cs = p" using assms by (simp_all add: storable_def OString)
  have "reads (SafeRead rd (sint (word_of_nat (length ?cs) :: gsint))) (map byte_of_char ?cs) (map byte_of_char ?cs)"
    by (rule reads_SafeRead) (use counted[OF c(1)] in simp)
  from reads_map[OF this, of "\<lambda>bs. io_return (OString (sintern E (map char_of_byte bs)))" "\<lambda>bs. OString (sintern E (map char_of_byte bs))"] c(2)
  have "reads (io_bind (SafeRead rd (sint (word_of_nat (length ?cs) :: gsint))) (\<lambda>bs. io_return (OString (sintern E (map char_of_byte bs)))))
    (map byte_of_char ?cs) (OString p)" by simp
  then show ?thesis
    by (simp add: OString type_codes read_payload_def payload_bytes_def reads_bind[OF reads_int])
next
  case (OInteger i)
  then show ?thesis by (simp add: type_codes read_payload_def payload_bytes_def reads_map[OF reads_int])
next
  case (OBool b)
  then show ?thesis
    by (cases b) (simp_all add: type_codes read_payload_def payload_bytes_def reads_bind[OF reads_int, where cs = "[]", simplified] reads_return)
next
  case (OFloat f)
  have "reads (SafeRead rd 4) (mem_bytes 4 (uint f)) (mem_bytes 4 (uint f))" by (rule reads_SafeRead) simp
  from reads_map[OF this, of _ "\<lambda>bs. OFloat (word_of_int (mem_value bs))"]
  show ?thesis by (simp add: OFloat type_codes read_payload_def payload_bytes_def)
qed (use assms in \<open>simp_all add: storable_def type_codes read_payload_def payload_bytes_def reads_return\<close>)

lemma reads_object: "storable E v \<Longrightarrow> reads (ReadObject rd E) (obj_bytes E v) v"
  unfolding ReadObject_def obj_bytes_def
  by (rule reads_bind[OF reads_SafeRead]) (simp_all add: reads_payload)

lemma reads_outer:
  assumes "storable E (osrc v)" "storable E (oname v)" "length (padding E v) = 4"
  shows "reads (read_outer rd E) (outer_bytes E v) v"
proof -
  let ?bs = "mem_bytes 4 (uint (outer_code (otype v))) @ padding E v"
  have r: "reads (read_int rd) ?bs (int_of_bytes ?bs)"
    unfolding read_int_def int_of_bytes_def by (rule reads_map[OF reads_SafeRead]) (simp_all add: assms(3))
  have u: "(ucast (int_of_bytes ?bs) :: 32 word) = outer_code (otype v)"
    by (rule low_word[OF length_mem_bytes]) simp
  have eq: "\<lparr>oname = oname v, osrc = osrc v, otype = t\<rparr> = v" if "otype v = t" for t using that by (cases v) simp
  show ?thesis
    unfolding read_outer_def outer_bytes_def concat.simps
    by (intro reads_bind[OF r] reads_bind[OF reads_object] assms(1,2))
       (simp only: u, cases "otype v", simp_all add: outer_code_def Let_def reads_return eq)
qed

lemma reads_local: "storable E (lname l) \<Longrightarrow> reads (read_local rd E) (local_bytes E l) (loaded_local E l)"
  unfolding read_local_def local_bytes_def concat.simps
  by (intro reads_bind[OF reads_object] reads_bind[OF reads_int] reads_return) (simp_all add: loaded_local_def)

lemma reads_undefined_if: "\<not> P \<Longrightarrow> reads m bs x \<Longrightarrow> reads (if P then io_undefined else m) bs x"
  by simp

lemma reads_option: "x = Some y \<Longrightarrow> reads (f y) bs z \<Longrightarrow> reads (io_bind (io_option x) f) bs z"
  by (simp add: reads_def io_bind_def io_option_def io_return_def)

lemma reads_count: "countable_len xs \<Longrightarrow> reads (read_int rd) (count_bytes xs) (word_of_nat (length xs))"
  unfolding count_bytes_def by (rule reads_int)

lemma reads_block:
  assumes "\<forall>x \<in> set xs. length (g x) = k" "n = int k * int (length xs)"
  shows "reads (SafeRead rd n) (concat (map g xs)) (concat (map g xs))"
  by (rule reads_SafeRead) (simp add: length_concat_const[OF assms(1)] assms(2))

lemma reads_proto: "storable_proto E f \<Longrightarrow> proto_depth f \<le> d \<Longrightarrow> reads (LoadProto d rd E) (proto_bytes E f) (loaded E f)"
proof (induction d arbitrary: f)
  case 0
  then show ?case by (cases f) simp
next
  case (Suc d)
  obtain h fs where f: "f = FuncProto h fs" by (cases f)
  note ok = Suc.prems(1)[unfolded f storable_proto.simps list_all_iff]
  have fs: "\<forall>f \<in> set fs. reads (LoadProto d rd E) (proto_bytes E f) (loaded E f)"
  proof
    fix x assume x: "x \<in> set fs"
    from proto_depth_child[OF x, of h] Suc.prems(2) have "proto_depth x \<le> d" by (simp add: f)
    with ok x show "reads (LoadProto d rd E) (proto_bytes E x) (loaded E x)" by (intro Suc.IH) auto
  qed
  have objs: "reads (io_times n (ReadObject rd E)) (concat (map (obj_bytes E) xs)) xs" if "\<forall>x \<in> set xs. storable E x" "n = length xs" for n xs
    using reads_times[of xs "ReadObject rd E" "obj_bytes E" "\<lambda>x. x" n] that by (simp add: reads_object)
  have outs: "reads (io_times n (read_outer rd E)) (concat (map (outer_bytes E) (houtervalues h))) (houtervalues h)" if "n = length (houtervalues h)" for n
    using reads_times[of "houtervalues h" "read_outer rd E" "outer_bytes E" "\<lambda>x. x" n] that ok by (simp add: reads_outer)
  have locs: "reads (io_times n (read_local rd E)) (concat (map (local_bytes E) (hlocalvarinfos h))) (map (loaded_local E) (hlocalvarinfos h))"
    if "n = length (hlocalvarinfos h)" for n
    using reads_times[of "hlocalvarinfos h" "read_local rd E" "local_bytes E" "loaded_local E" n] that ok by (simp add: reads_local)
  have chs: "reads (io_times n (LoadProto d rd E)) (concat (map (proto_bytes E) fs)) (map (loaded E) fs)" if "n = length fs" for n
    using reads_times[of fs "LoadProto d rd E" "proto_bytes E" "loaded E" n] that fs by simp
  have gen: "reads (SafeRead rd 1) [if hbgenerator h then 1 else 0] [if hbgenerator h then 1 else 0]" by (rule reads_SafeRead) simp
  have len: "unat (word_of_nat (length xs) :: gsint) = length xs" "uint (word_of_nat (length xs) :: gsint) = int (length xs)"
    "\<not> 2 ^ 59 \<le> uint (word_of_nat (length xs) :: gsint)" if "countable_len xs" for xs :: "'b list"
    using counted[OF that] that by simp_all
  have blocks:
    "reads (SafeRead rd n) (concat (map line_bytes (hlineinfos h))) (concat (map line_bytes (hlineinfos h)))" if "n = 16 * int (length (hlineinfos h))" for n
    by (rule reads_block[where k = 16]) (simp_all add: that)
  have blocks2:
    "reads (SafeRead rd n) (concat (map int_bytes (hdefaultparams h))) (concat (map int_bytes (hdefaultparams h)))" if "n = 8 * int (length (hdefaultparams h))" for n
    by (rule reads_block[where k = 8]) (simp_all add: that)
  have blocks3:
    "reads (SafeRead rd n) (concat (map instr_bytes (hinstructions h))) (concat (map instr_bytes (hinstructions h)))" if "n = 8 * int (length (hinstructions h))" for n
    by (rule reads_block[where k = 8]) (simp_all add: that)
  show ?case
    unfolding f LoadProto.simps proto_bytes.simps concat.simps
    by (intro reads_bind[OF reads_tag] reads_bind[OF reads_object] reads_bind[OF reads_count] reads_undefined_if
       reads_bind[OF objs] reads_bind[OF outs] reads_bind[OF locs] reads_bind[OF blocks] reads_bind[OF blocks2] reads_bind[OF blocks3]
       reads_option reads_bind[OF chs] reads_bind[OF reads_int] reads_bind[OF gen] reads_return)
      (use ok in \<open>simp_all add: len chunks_concat those_Some comp_def, cases h, simp\<close>)
qed

lemma reads_closure:
  "storable_proto E f \<Longrightarrow> proto_depth f \<le> d \<Longrightarrow> reads (LoadClosure d rd E) (closure_bytes E f) (loaded E f)"
  unfolding LoadClosure_def closure_bytes_def concat.simps
  by (intro reads_bind[OF reads_tag] reads_bind[OF reads_proto] reads_return) simp_all

end

section \<open>Closures in blobs\<close>

text \<open>
  C9: Round trip of compiled closures.  A storable closure saved at the end of a blob appends exactly its bytes,
  and loading it from where the save began answers the same prototype, inner prototypes included, except for what
  the format drops: the declared return type and the types of the local variables are indeterminate.
\<close>

theorem closure_round_trip:
  assumes "blob_ok b" "bptr b = bsize b" "storable_proto E f" "proto_depth f \<le> d"
  shows "\<exists>b1 b2. SaveClosure BlobWrite E f b = Some (Inr (), b1) \<and> blob_ok b1 \<and> blob_data b1 = blob_data b @ closure_bytes E f
     \<and> LoadClosure d BlobRead E (b1\<lparr>bptr := bsize b\<rparr>) = Some (Inr (loaded E f), b2)
     \<and> blob_data b2 = blob_data b1 \<and> bptr b2 = bsize b2"
proof -
  have l: "length (blob_data c) = nat (bsize c)" "0 \<le> bsize c" if "blob_ok c" for c using that by (auto simp: blob_ok_def blob_data_def)
  have e: "blob_ok b" "nat (bptr b) = length (blob_data b)" using assms(1,2) l by auto
  with blob_stream.writes_closure[OF assms(3)] obtain b1 where b1: "SaveClosure BlobWrite E f b = Some (Inr (), b1)" "blob_ok b1"
    "blob_data b1 = blob_data b @ closure_bytes E f"
    by (auto simp: blob_stream.writes_def)
  let ?b = "b1\<lparr>bptr := bsize b\<rparr>"
  have "bsize b \<le> bsize b1" using arg_cong[OF b1(3), of length] l[OF assms(1)] l[OF b1(2)] by simp
  with b1(2) l(2)[OF assms(1)] have ok: "blob_ok ?b" by (simp add: blob_ok_def)
  have d: "blob_data ?b = blob_data b1" by (simp add: blob_data_def)
  have "blob_stream.left ?b = closure_bytes E f @ []"
    using l[OF assms(1)] by (simp add: blob_stream.left_def d b1(3))
  with blob_stream.reads_closure[OF assms(3,4)] ok obtain b2 where b2: "LoadClosure d BlobRead E ?b = Some (Inr (loaded E f), b2)"
    "blob_ok b2" "blob_data b2 = blob_data ?b" "nat (bptr b2) = nat (bptr ?b) + length (closure_bytes E f)"
    unfolding blob_stream.reads_def by fastforce
  have "nat (bptr b2) = nat (bsize b2)"
    using b2(3,4) l[OF b2(2)] l[OF assms(1)] by (simp add: d b1(3))
  moreover have "0 \<le> bptr b2" "0 \<le> bsize b2" using b2(2) by (simp_all add: blob_ok_def)
  ultimately have "bptr b2 = bsize b2" by simp
  with b1 b2 d show ?thesis by auto
qed

text \<open>
  C21: Truncated closures are rejected.  Whatever part of a saved closure is missing at the end of the stream, the
  load reports the read failure; it neither answers a closure nor reaches undefined behaviour.
\<close>

theorem truncated_closure_rejected:
  assumes "blob_ok b" "storable_proto E f" "proto_depth f \<le> d" "k < length (closure_bytes E f)"
    and "drop (nat (bptr b)) (blob_data b) = take k (closure_bytes E f)"
  shows "\<exists>b1. LoadClosure d BlobRead E b = Some (Inl read_error, b1)"
  using blob_stream.reads_closure[OF assms(2,3)] assms(1,4,5)
  by (auto simp: blob_stream.reads_def blob_stream.left_def)

lemma small_proto: "\<exists>E f. storable_proto E f \<and> proto_depth f \<le> 1 \<and> 0 < length (closure_bytes E f)"
proof -
  let ?E = "\<lparr>schars_of = \<lambda>_. ''f'', sintern = \<lambda>_. 5, padding = \<lambda>_. [], junk_type = 0, junk_array_size = 0, junk_rettype = 0\<rparr>"
  let ?h = "\<lparr>hsourcename = OString 5, hname = ONull, hliterals = [OInteger 7, OBool True], hparameters = [], houtervalues = [],
    hlocalvarinfos = [], hlineinfos = [(1, 0)], hdefaultparams = [], hinstructions = [], hstacksize = 3, hbgenerator = False,
    hvarparams = 0, hrettype = 0\<rparr>"
  have "storable_proto ?E (FuncProto ?h [])" by (simp add: storable_def)
  moreover have "0 < length (closure_bytes ?E (FuncProto ?h []))" by (simp add: closure_bytes_def del: proto_bytes.simps)
  ultimately show ?thesis by (intro exI[of _ ?E] exI[of _ "FuncProto ?h []"]) simp
qed

lemma closure_round_trip_witness:
  "\<exists>b E f b1 b2. new_blob 0 = Some b \<and> SaveClosure BlobWrite E f b = Some (Inr (), b1)
     \<and> LoadClosure 1 BlobRead E (b1\<lparr>bptr := 0\<rparr>) = Some (Inr (loaded E f), b2)"
proof -
  from small_proto obtain E f where f: "storable_proto E f" "proto_depth f \<le> 1" by blast
  from new_blob_ok[of 0] obtain b where b: "new_blob 0 = Some b" "blob_ok b" "bptr b = 0" "bsize b = 0"
    by auto
  from closure_round_trip[OF b(2) _ f] b obtain b1 b2 where
    "SaveClosure BlobWrite E f b = Some (Inr (), b1)" "LoadClosure 1 BlobRead E (b1\<lparr>bptr := 0\<rparr>) = Some (Inr (loaded E f), b2)" by auto
  with b(1) show ?thesis by blast
qed

lemma truncated_closure_rejected_witness:
  "\<exists>b E f b1. new_blob 0 = Some b \<and> storable_proto E f \<and> LoadClosure 1 BlobRead E b = Some (Inl read_error, b1)"
proof -
  from small_proto obtain E f where f: "storable_proto E f" "proto_depth f \<le> 1" "0 < length (closure_bytes E f)" by blast
  from new_blob_ok[of 0] obtain b where b: "new_blob 0 = Some b" "blob_ok b" "blob_data b = []"
    by auto
  from truncated_closure_rejected[OF b(2) f] b f show ?thesis by auto
qed

end
