(* ===== verification/GS_Compiler.thy ===== *)
theory GS_Compiler
  imports GS_Lexer GS_Serial
begin

text \<open>
  The compiler (GScompiler.cpp): the recursive descent over tokens that emits instructions into the function
  states of GS_FuncState.

  Every member function of \<open>GSCompiler\<close> is a definition over the state \<open>cstate\<close>.  The functions call each other
  through the argument \<open>call\<close>, which takes a call (\<open>nonterm\<close>: the function and its arguments) and answers its
  \<open>GSInteger\<close> result, 0 for a void function; \<open>parse\<close> ties the knot with the nesting depth as fuel.  The loops that
  contain such calls are calls too; those that only read tokens have what is left of the source as fuel.

  An outcome is \<open>Ok\<close>, the long jump \<open>Error\<close> with its message, \<open>Undef\<close> where the code has undefined behaviour (the top of
  an empty vector, an index outside of one) or \<open>OutOfFuel\<close>.  Arguments of one call are evaluated from left to right;
  the order is visible only in the last operand of a yield.  Strings live as long as the compiler needs them.
\<close>

section \<open>State\<close>

datatype exptype = EXPR | OBJECT | BASE | LOCAL | OUTER

record expstate =
  etype :: exptype
  epos :: int
  donot_get :: bool

record scope =
  sc_outers :: int
  sc_stacksize :: int

text \<open>The fields of \<open>GSFuncState\<close> that only the compiler uses, beside those of GS_FuncState.\<close>

record fctx =
  cfs :: funcstate
  traps :: int
  breaktargets :: "int list"
  continuetargets :: "int list"
  unresolvedbreaks :: "int list"
  unresolvedcontinues :: "int list"
  protos :: "funcproto list"

text \<open>What does not change during a compilation: the options, the strings and their hashes, weak references, the
  addresses of new tables and \<open>strtod\<close>.\<close>

record compenv =
  cintern :: "string \<Rightarrow> ptr"
  cchars :: "ptr \<Rightarrow> string"
  chash :: "ptr \<Rightarrow> gshash"
  cweak :: "ptr \<Rightarrow> gsobj"
  calloc :: "nat \<Rightarrow> ptr"
  cstrtod :: "nat list \<Rightarrow> gsfloat"
  csourcename :: gsobj
  clineinfo :: bool

text \<open>\<open>pending\<close> has the functions whose parameter list is being read, with their generic names.\<close>

record cstate =
  env :: compenv
  lx :: lexer
  token :: int
  funcs :: "fctx list"
  pending :: "(fctx \<times> (gsobj \<times> int list) list) list"
  es :: expstate
  scope :: scope
  constants :: table
  ctables :: "ptr \<rightharpoonup> table"
  nalloc :: nat

datatype 'a cres = Ok 'a cstate | Error string | Undef | OutOfFuel

type_synonym 'a comp = "cstate \<Rightarrow> 'a cres"

definition creturn :: "'a \<Rightarrow> 'a comp" where "creturn x s = Ok x s"

text \<open>\<open>Error\<close> formats into \<open>MAX_COMPILER_ERROR_LEN\<close> characters.\<close>

definition cerror :: "string \<Rightarrow> 'a comp" where "cerror e s = Error (take 255 e)"

definition cundef :: "'a comp" where "cundef s = Undef"
definition cfuel :: "'a comp" where "cfuel s = OutOfFuel"

definition cbind :: "'a comp \<Rightarrow> ('a \<Rightarrow> 'b comp) \<Rightarrow> 'b comp" where
  "cbind m f s = (case m s of Ok x s1 \<Rightarrow> f x s1 | Error e \<Rightarrow> Error e | Undef \<Rightarrow> Undef | OutOfFuel \<Rightarrow> OutOfFuel)"

fun cseq :: "unit comp list \<Rightarrow> unit comp" where
  "cseq [] = creturn ()"
| "cseq [m] = m"
| "cseq (m # ms) = cbind m (\<lambda>_. cseq ms)"

definition cget :: "(cstate \<Rightarrow> 'a) \<Rightarrow> 'a comp" where "cget f s = Ok (f s) s"
definition cput :: "(cstate \<Rightarrow> cstate) \<Rightarrow> unit comp" where "cput f s = Ok () (f s)"

definition cwhen :: "bool \<Rightarrow> unit comp \<Rightarrow> unit comp" where "cwhen b m = (if b then m else creturn ())"
definition cvoid :: "'a comp \<Rightarrow> unit comp" where "cvoid m = cbind m (\<lambda>_. creturn ())"

text \<open>A test of the token, and of the token with the lexer's previous token.\<close>

definition on_token :: "(int \<Rightarrow> 'a comp) \<Rightarrow> 'a comp" where "on_token f s = f (token s) s"

abbreviation tk :: "char \<Rightarrow> int" where "tk c \<equiv> of_char c"

section \<open>The function state\<close>

text \<open>Operations of \<open>_fs\<close>, the innermost function.\<close>

definition fs_get :: "(fctx \<Rightarrow> 'a) \<Rightarrow> 'a comp" where
  "fs_get f s = (case funcs s of [] \<Rightarrow> Undef | c # cs \<Rightarrow> Ok (f c) s)"

definition fs_upd :: "(fctx \<Rightarrow> fctx) \<Rightarrow> unit comp" where
  "fs_upd f s = (case funcs s of [] \<Rightarrow> Undef | c # cs \<Rightarrow> Ok () (s\<lparr>funcs := f c # cs\<rparr>))"

definition fs_try :: "(funcstate \<Rightarrow> (string + (funcstate \<times> 'a)) option) \<Rightarrow> 'a comp" where
  "fs_try f s =
     (case funcs s of
        [] \<Rightarrow> Undef
      | c # cs \<Rightarrow>
          (case f (cfs c) of
             None \<Rightarrow> Undef
           | Some (Inl e) \<Rightarrow> Error e
           | Some (Inr (fs', x)) \<Rightarrow> Ok x (s\<lparr>funcs := c\<lparr>cfs := fs'\<rparr> # cs\<rparr>)))"

abbreviation fs_mod :: "(funcstate \<Rightarrow> funcstate) \<Rightarrow> unit comp" where
  "fs_mod f \<equiv> fs_upd (\<lambda>c. c\<lparr>cfs := f (cfs c)\<rparr>)"

definition emit :: "GSOpcode \<Rightarrow> int \<Rightarrow> int \<Rightarrow> int \<Rightarrow> int \<Rightarrow> unit comp" where
  "emit opc x0 x1 x2 x3 = fs_mod (AddInstruction (Instr opc x0 x1 x2 x3))"

definition push_target :: "int comp" where "push_target = fs_try (\<lambda>fs. Some (PushTarget (-1) fs))"
definition push_reg :: "int \<Rightarrow> unit comp" where "push_reg n = cvoid (fs_try (\<lambda>fs. Some (PushTarget n fs)))"
definition pop_target :: "int comp" where "pop_target = fs_try (\<lambda>fs. map_option Inr (PopTarget fs))"

definition top_target :: "int comp" where
  "top_target = fs_try (\<lambda>fs. map_option (\<lambda>t. Inr (fs, t)) (TopTarget fs))"

definition discard_target :: "unit comp" where
  "discard_target = fs_try (\<lambda>fs. map_option (\<lambda>fs'. Inr (fs', ())) (DiscardTarget fs))"

abbreviation current_pos :: "int comp" where "current_pos \<equiv> fs_get (\<lambda>c. GetCurrentPos (cfs c))"
abbreviation snooze :: "unit comp" where "snooze \<equiv> fs_mod SnoozeOpt"

text \<open>Emission with a result in a new target.\<close>

definition emit_new :: "GSOpcode \<Rightarrow> int \<Rightarrow> int \<Rightarrow> int \<Rightarrow> unit comp" where
  "emit_new opc x1 x2 x3 = cbind push_target (\<lambda>t. emit opc t x1 x2 x3)"

definition set_param :: "int \<Rightarrow> int \<Rightarrow> int \<Rightarrow> unit comp" where
  "set_param pos arg val =
     fs_try (\<lambda>fs. if 0 \<le> pos \<and> pos < int (length (instructions fs)) then Some (Inr (SetInstructionParam (nat pos) arg val fs, ())) else None)"

definition set_params :: "int \<Rightarrow> int \<Rightarrow> int \<Rightarrow> int \<Rightarrow> int \<Rightarrow> unit comp" where
  "set_params pos x0 x1 x2 x3 =
     fs_try (\<lambda>fs. if 0 \<le> pos \<and> pos < int (length (instructions fs)) then Some (Inr (SetInstructionParams (nat pos) x0 x1 x2 x3 fs, ())) else None)"

definition CreateString :: "string \<Rightarrow> gsobj comp" where
  "CreateString str = cget (\<lambda>s. OString (cintern (env s) str))"

definition get_constant :: "gsobj \<Rightarrow> int comp" where
  "get_constant v =
     cbind (cget env) (\<lambda>E. cbind (fs_try (GetConstant (chash E) (cweak E) v)) (\<lambda>i. creturn (sint i)))"

definition push_local :: "gsobj \<Rightarrow> int \<Rightarrow> int \<Rightarrow> int comp" where
  "push_local name typ n = fs_try (\<lambda>fs. Some (Inr (PushLocalVariable name typ n fs)))"

definition set_stack_size :: "int \<Rightarrow> unit comp" where
  "set_stack_size n = fs_mod (SetStackSize (nat n))"

definition stack_size :: "int comp" where "stack_size = fs_get (\<lambda>c. GetStackSize (cfs c))"

text \<open>\<open>IsConstant\<close>.\<close>

definition IsConstant :: "gsobj \<Rightarrow> gsobj option comp" where
  "IsConstant name s =
     (case TableGet (chash (env s)) (cweak (env s)) (constants s) name of None \<Rightarrow> Undef | Some r \<Rightarrow> Ok r s)"

text \<open>\<open>GetOuterVariable\<close> on the chain of functions.\<close>

definition outer_variable :: "gsobj \<Rightarrow> int comp" where
  "outer_variable name s =
     (case GetOuterVariable name (map cfs (funcs s)) of
        (fss, i) \<Rightarrow> Ok i (s\<lparr>funcs := map2 (\<lambda>c fs. c\<lparr>cfs := fs\<rparr>) (funcs s) fss\<rparr>))"

text \<open>\<open>GSFuncState::GSFuncState\<close> and \<open>BuildProto\<close>; the return type is set by the caller.\<close>

definition new_fctx :: "bool \<Rightarrow> gsobj \<Rightarrow> fctx" where
  "new_fctx parent src =
     \<lparr>cfs = (new_funcstate parent)\<lparr>sourcename := src\<rparr>, traps = 0, breaktargets = [], continuetargets = [],
      unresolvedbreaks = [], unresolvedcontinues = [], protos = []\<rparr>"

definition BuildProto :: "gsint \<Rightarrow> fctx \<Rightarrow> funcproto" where
  "BuildProto rettype c =
     (let fs = cfs c in
      FuncProto
       \<lparr>hsourcename = sourcename fs, hname = fname fs, hliterals = collect_literals fs, hparameters = parameters fs,
        houtervalues = outervalues fs, hlocalvarinfos = localvarinfos fs,
        hlineinfos = map (\<lambda>(l, o1). (word_of_int l, word_of_int o1)) (lineinfos fs),
        hdefaultparams = map word_of_int (defaultparams fs), hinstructions = instructions fs,
        hstacksize = word_of_int (stacksize fs), hbgenerator = bgenerator fs, hvarparams = (if varparams fs then 1 else 0),
        hrettype = rettype\<rparr>
       (protos c))"

section \<open>Calls\<close>

text \<open>The functions and loops that call each other.  \<open>SlotItems\<close> to \<open>Parameters\<close> are the loops of
  \<open>ParseTableOrClass\<close>, \<open>FunctionCallArgs\<close>, \<open>Factor\<close>, \<open>LocalDeclStatement\<close>, \<open>SwitchStatement\<close> and \<open>CreateFunction\<close>.\<close>

datatype nonterm =
    NStatement bool | NStatements | NCommaExpr | NCommaRest | NExpression
  | NLogicalOrExp | NLogicalAndExp | NBitwiseOrExp | NBitwiseOrRest | NBitwiseXorExp | NBitwiseXorRest
  | NBitwiseAndExp | NBitwiseAndRest | NEqExp | NEqRest | NCompExp | NCompRest | NShiftExp | NShiftRest
  | NPlusExp | NPlusRest | NMultExp | NMultRest | NPrefixedExpr | NPrefixedRest | NFactor
  | NFunctionCallArgs bool | NCallArgs int | NCallInit int | NArrayItems int
  | NParseTableOrClass int int | NSlotItems int int int
  | NLocalDecls | NCases int bool int int | NParameters int int

type_synonym caller = "nonterm \<Rightarrow> int comp"

section \<open>Tokens\<close>

definition cLex :: "unit comp" where
  "cLex s =
     (case Lex (cstrtod (env s)) (lx s) of
        Inl e \<Rightarrow> Error e
      | Inr (l, t) \<Rightarrow> Ok () (s\<lparr>lx := l, token := t\<rparr>))"

definition token_name :: "int \<Rightarrow> string" where
  "token_name tok =
     (if tok = TK_IDENTIFIER then ''IDENTIFIER''
      else if tok = TK_STRING_LITERAL then ''STRING_LITERAL''
      else if tok = TK_INTEGER then ''INTEGER''
      else if tok = TK_FLOAT then ''FLOAT''
      else case Tok2Str tok of None \<Rightarrow> ''(null)'' | Some n \<Rightarrow> n)"

definition expected :: "int \<Rightarrow> string" where
  "expected tok =
     ''expected '' @ [CHR 0x27] @ (if 255 < tok then token_name tok else [char_of (nat tok)]) @ [CHR 0x27]"

text \<open>The value of the current token.\<close>

definition token_value :: "int \<Rightarrow> gsobj comp" where
  "token_value tok =
     (if tok = TK_IDENTIFIER \<or> tok = TK_STRING_LITERAL then cbind (cget (\<lambda>s. svalue (lx s))) CreateString
      else if tok = TK_INTEGER then cget (\<lambda>s. OInteger (nvalue (lx s)))
      else if tok = TK_FLOAT then cget (\<lambda>s. OFloat (fvalue (lx s)))
      else creturn ONull)"

definition Expect :: "int \<Rightarrow> gsobj comp" where
  "Expect tok = on_token (\<lambda>t.
     if t \<noteq> tok \<and> \<not> (t = TK_CONSTRUCTOR \<and> tok = TK_IDENTIFIER) then cerror (expected tok)
     else cbind (token_value tok) (\<lambda>v. cbind cLex (\<lambda>_. creturn v)))"

abbreviation expect :: "int \<Rightarrow> unit comp" where "expect tok \<equiv> cvoid (Expect tok)"

definition IsEndOfStatement :: "cstate \<Rightarrow> bool" where
  "IsEndOfStatement s \<longleftrightarrow> prevtoken (lx s) = 10 \<or> token s = 0 \<or> token s = tk CHR ''}'' \<or> token s = tk CHR '';''"

definition OptionalSemicolon :: "unit comp" where
  "OptionalSemicolon s =
     (if token s = tk CHR '';'' then cLex s
      else if \<not> IsEndOfStatement s then cerror ''end of statement expected (; or lf)'' s
      else Ok () s)"

text \<open>\<open>if(_lex._prevtoken != '}' && _lex._prevtoken != ';') OptionalSemicolon();\<close>\<close>

definition statement_end :: "unit comp" where
  "statement_end s =
     (if prevtoken (lx s) \<noteq> tk CHR ''}'' \<and> prevtoken (lx s) \<noteq> tk CHR '';'' then OptionalSemicolon s else Ok () s)"

definition MoveIfCurrentTargetIsLocal :: "unit comp" where
  "MoveIfCurrentTargetIsLocal =
     cbind top_target (\<lambda>trg. cbind (fs_get (\<lambda>c. IsLocal (cfs c) trg)) (\<lambda>l.
       cwhen l (cbind pop_target (\<lambda>trg. emit_new OP_MOVE trg 0 0))))"

section \<open>Scopes and loops\<close>

definition BEGIN_SCOPE :: "scope comp" where
  "BEGIN_SCOPE =
     cbind (cget scope) (\<lambda>old. cbind (fs_get (\<lambda>c. \<lparr>sc_outers = outers (cfs c), sc_stacksize = GetStackSize (cfs c)\<rparr>)) (\<lambda>sc.
       cbind (cput (\<lambda>s. s\<lparr>scope := sc\<rparr>)) (\<lambda>_. creturn old)))"

definition RESOLVE_OUTERS :: "unit comp" where
  "RESOLVE_OUTERS =
     cbind (cget (\<lambda>s. sc_stacksize (scope s))) (\<lambda>n. cbind stack_size (\<lambda>m.
       cwhen (m \<noteq> n)
         (cbind (fs_get (\<lambda>c. CountOuters (nat n) (cfs c))) (\<lambda>k. cwhen (k \<noteq> 0) (emit OP_CLOSE 0 n 0 0)))))"

definition END_SCOPE_NO_CLOSE :: "scope \<Rightarrow> unit comp" where
  "END_SCOPE_NO_CLOSE old =
     cbind (cget (\<lambda>s. sc_stacksize (scope s))) (\<lambda>n. cbind stack_size (\<lambda>m.
       cseq [cwhen (m \<noteq> n) (set_stack_size n), cput (\<lambda>s. s\<lparr>scope := old\<rparr>)]))"

definition END_SCOPE :: "scope \<Rightarrow> unit comp" where
  "END_SCOPE old =
     cbind (fs_get (\<lambda>c. outers (cfs c))) (\<lambda>oldouters.
     cbind (cget (\<lambda>s. sc_stacksize (scope s))) (\<lambda>n. cbind stack_size (\<lambda>m.
       cseq [cwhen (m \<noteq> n)
               (cbind (set_stack_size n) (\<lambda>_. cbind (fs_get (\<lambda>c. outers (cfs c))) (\<lambda>o1.
                  cwhen (oldouters \<noteq> o1) (emit OP_CLOSE 0 n 0 0)))),
             cput (\<lambda>s. s\<lparr>scope := old\<rparr>)])))"

text \<open>The numbers of unresolved breaks and continues when a loop begins.\<close>

definition BEGIN_BREAKBLE_BLOCK :: "(nat \<times> nat) comp" where
  "BEGIN_BREAKBLE_BLOCK =
     cbind (fs_get (\<lambda>c. (length (unresolvedbreaks c), length (unresolvedcontinues c)))) (\<lambda>n.
       cbind (fs_upd (\<lambda>c. c\<lparr>breaktargets := breaktargets c @ [0], continuetargets := continuetargets c @ [0]\<rparr>)) (\<lambda>_. creturn n))"

fun ResolveBreaks :: "nat \<Rightarrow> unit comp" where
  "ResolveBreaks 0 = creturn ()"
| "ResolveBreaks (Suc n) =
     cbind (fs_get unresolvedbreaks) (\<lambda>us. if us = [] then cundef else
       cbind (fs_upd (\<lambda>c. c\<lparr>unresolvedbreaks := butlast us\<rparr>)) (\<lambda>_. cbind current_pos (\<lambda>here.
         cbind (set_params (last us) 0 (here - last us) 0 0) (\<lambda>_. ResolveBreaks n))))"

fun ResolveContinues :: "nat \<Rightarrow> int \<Rightarrow> unit comp" where
  "ResolveContinues 0 targetpos = creturn ()"
| "ResolveContinues (Suc n) targetpos =
     cbind (fs_get unresolvedcontinues) (\<lambda>us. if us = [] then cundef else
       cbind (fs_upd (\<lambda>c. c\<lparr>unresolvedcontinues := butlast us\<rparr>)) (\<lambda>_.
         cbind (set_params (last us) 0 (targetpos - last us) 0 0) (\<lambda>_. ResolveContinues n targetpos)))"

text \<open>\<open>pop_back\<close> of a vector.\<close>

definition pop_breaktarget :: "unit comp" where
  "pop_breaktarget = cbind (fs_get breaktargets) (\<lambda>ts. if ts = [] then cundef else fs_upd (\<lambda>c. c\<lparr>breaktargets := butlast ts\<rparr>))"

definition pop_continuetarget :: "unit comp" where
  "pop_continuetarget = cbind (fs_get continuetargets) (\<lambda>ts. if ts = [] then cundef else fs_upd (\<lambda>c. c\<lparr>continuetargets := butlast ts\<rparr>))"

definition END_BREAKBLE_BLOCK :: "nat \<times> nat \<Rightarrow> int \<Rightarrow> unit comp" where
  "END_BREAKBLE_BLOCK n continue_target =
     cbind (fs_get (\<lambda>c. (length (unresolvedbreaks c), length (unresolvedcontinues c)))) (\<lambda>m.
       cseq [ResolveContinues (snd m - snd n) continue_target, ResolveBreaks (fst m - fst n), pop_breaktarget, pop_continuetarget])"

section \<open>Expressions\<close>

abbreviation set_etype :: "exptype \<Rightarrow> unit comp" where "set_etype t \<equiv> cput (\<lambda>s. s\<lparr>es := (es s)\<lparr>etype := t\<rparr>\<rparr>)"
abbreviation set_epos :: "int \<Rightarrow> unit comp" where "set_epos p \<equiv> cput (\<lambda>s. s\<lparr>es := (es s)\<lparr>epos := p\<rparr>\<rparr>)"
abbreviation set_donot_get :: "bool \<Rightarrow> unit comp" where "set_donot_get b \<equiv> cput (\<lambda>s. s\<lparr>es := (es s)\<lparr>donot_get := b\<rparr>\<rparr>)"
abbreviation fresh_es :: expstate where "fresh_es \<equiv> \<lparr>etype = EXPR, epos = -1, donot_get = False\<rparr>"

definition EmitDerefOp :: "GSOpcode \<Rightarrow> unit comp" where
  "EmitDerefOp opc = cbind pop_target (\<lambda>val. cbind pop_target (\<lambda>key. cbind pop_target (\<lambda>src. emit_new opc src key val)))"

definition Emit2ArgsOP :: "GSOpcode \<Rightarrow> int \<Rightarrow> unit comp" where
  "Emit2ArgsOP opc p3 = cbind pop_target (\<lambda>p2. cbind pop_target (\<lambda>p1. emit_new opc p1 p2 p3))"

definition ChooseArithOpByToken :: "int \<Rightarrow> GSOpcode" where
  "ChooseArithOpByToken tok =
     (if tok = TK_PLUSEQ \<or> tok = tk CHR ''+'' then OP_ADD
      else if tok = TK_MINUSEQ \<or> tok = tk CHR ''-'' then OP_SUB
      else if tok = TK_MULEQ \<or> tok = tk CHR ''*'' then OP_MUL
      else if tok = TK_DIVEQ \<or> tok = tk CHR ''/'' then OP_DIV
      else if tok = TK_MODEQ \<or> tok = tk CHR ''%'' then OP_MOD
      else OP_ADD)"

definition ChooseCompArithCharByToken :: "int \<Rightarrow> int" where
  "ChooseCompArithCharByToken tok =
     (if tok = TK_MINUSEQ then tk CHR ''-'' else if tok = TK_PLUSEQ then tk CHR ''+'' else if tok = TK_MULEQ then tk CHR ''*''
      else if tok = TK_DIVEQ then tk CHR ''/'' else if tok = TK_MODEQ then tk CHR ''%'' else 0)"

definition EmitCompoundArith :: "int \<Rightarrow> exptype \<Rightarrow> int \<Rightarrow> unit comp" where
  "EmitCompoundArith tok et pos =
     (case et of
        LOCAL \<Rightarrow> cbind pop_target (\<lambda>p2. cbind pop_target (\<lambda>p1.
          cseq [push_reg p1, emit (ChooseArithOpByToken tok) p1 p2 p1 0, snooze]))
      | OUTER \<Rightarrow> cbind top_target (\<lambda>val. cbind push_target (\<lambda>tmp.
          cseq [emit OP_GETOUTER tmp pos 0 0, emit (ChooseArithOpByToken tok) tmp val tmp 0,
                cvoid pop_target, cvoid pop_target, emit_new OP_SETOUTER pos tmp 0]))
      | EXPR \<Rightarrow> creturn ()
      | _ \<Rightarrow> cbind pop_target (\<lambda>val. cbind pop_target (\<lambda>key. cbind pop_target (\<lambda>src.
          emit_new OP_COMPARITH (push_bit 16 src OR val) key (ChooseCompArithCharByToken tok)))))"

definition CommaExpr :: "caller \<Rightarrow> int comp" where
  "CommaExpr call = cbind (call NExpression) (\<lambda>_. call NCommaRest)"

definition CommaRest :: "caller \<Rightarrow> int comp" where
  "CommaRest call = on_token (\<lambda>t.
     if t = tk CHR '','' then cbind (cseq [cvoid pop_target, cLex, cvoid (call NCommaExpr)]) (\<lambda>_. call NCommaRest) else creturn 0)"

text \<open>The loop over the locals after an assignment to one.\<close>

definition typecheck_local :: "int \<Rightarrow> unit comp" where
  "typecheck_local dst =
     cbind (fs_get (\<lambda>c. find (\<lambda>l. lpos l = word_of_int dst) (vlocals (cfs c)))) (\<lambda>l.
       case l of None \<Rightarrow> creturn ()
       | Some v \<Rightarrow> cwhen (ltype v \<noteq> -1) (emit OP_TYPECHECK dst (ltype v) (larray_size v) 0))"

definition compound_tokens :: "int set" where
  "compound_tokens = {TK_MINUSEQ, TK_PLUSEQ, TK_MULEQ, TK_DIVEQ, TK_MODEQ}"

definition assign_tokens :: "int set" where
  "assign_tokens = {tk CHR ''='', TK_NEWSLOT} \<union> compound_tokens"

definition assignment :: "caller \<Rightarrow> int \<Rightarrow> unit comp" where
  "assignment call tok =
     cbind (cget (\<lambda>s. etype (es s))) (\<lambda>ds. cbind (cget (\<lambda>s. epos (es s))) (\<lambda>pos.
       if ds = EXPR then cerror (''can'' @ [CHR 0x27] @ ''t assign expression'')
       else if ds = BASE then cerror ([CHR 0x27] @ ''base'' @ [CHR 0x27] @ '' cannot be modified'')
       else cseq [cLex, cvoid (call NExpression),
         if tok = TK_NEWSLOT then
           (if ds = OBJECT \<or> ds = BASE then EmitDerefOp OP_NEWSLOT
            else cerror (''can'' @ [CHR 0x27] @ ''t '' @ [CHR 0x27] @ ''create'' @ [CHR 0x27] @ '' a local slot''))
         else if tok = tk CHR ''='' then
           (case ds of
              LOCAL \<Rightarrow> cbind pop_target (\<lambda>src. cbind top_target (\<lambda>dst. cseq [emit OP_MOVE dst src 0 0, typecheck_local dst]))
            | OUTER \<Rightarrow> cbind pop_target (\<lambda>src. emit_new OP_SETOUTER pos src 0)
            | EXPR \<Rightarrow> creturn ()
            | _ \<Rightarrow> EmitDerefOp OP_SET)
         else EmitCompoundArith tok ds pos]))"

definition conditional :: "caller \<Rightarrow> unit comp" where
  "conditional call =
     cseq [cLex, cbind pop_target (\<lambda>c. emit OP_JZ c 0 0 0),
       cbind current_pos (\<lambda>jzpos. cbind push_target (\<lambda>trg. cbind (call NExpression) (\<lambda>_. cbind pop_target (\<lambda>first_exp.
         cbind (cwhen (trg \<noteq> first_exp) (emit OP_MOVE trg first_exp 0 0)) (\<lambda>_. cbind current_pos (\<lambda>endfirstexp.
         cbind (emit OP_JMP 0 0 0 0) (\<lambda>_. cbind (expect (tk CHR '':'')) (\<lambda>_. cbind current_pos (\<lambda>jmppos.
         cbind (call NExpression) (\<lambda>_. cbind pop_target (\<lambda>second_exp.
         cbind (cwhen (trg \<noteq> second_exp) (emit OP_MOVE trg second_exp 0 0)) (\<lambda>_. cbind current_pos (\<lambda>here.
           cseq [set_param jmppos 1 (here - jmppos), set_param jzpos 1 (endfirstexp - jzpos + 1), snooze])))))))))))))]"

definition Expression :: "caller \<Rightarrow> int comp" where
  "Expression call =
     cbind (cget es) (\<lambda>old.
       cbind (cseq [cput (\<lambda>s. s\<lparr>es := fresh_es\<rparr>), cvoid (call NLogicalOrExp),
         on_token (\<lambda>t. if t \<in> assign_tokens then assignment call t
                       else if t = tk CHR ''?'' then conditional call else creturn ()),
         cput (\<lambda>s. s\<lparr>es := old\<rparr>)]) (\<lambda>_. creturn 0))"

section \<open>Binary operators\<close>

definition INVOKE_EXP :: "unit comp \<Rightarrow> unit comp" where
  "INVOKE_EXP f = cbind (cget es) (\<lambda>old. cseq [cput (\<lambda>s. s\<lparr>es := fresh_es\<rparr>), f, cput (\<lambda>s. s\<lparr>es := old\<rparr>)])"

definition BIN_EXP :: "GSOpcode \<Rightarrow> unit comp \<Rightarrow> int \<Rightarrow> unit comp" where
  "BIN_EXP opc f op3 =
     cseq [cLex, INVOKE_EXP f, cbind pop_target (\<lambda>op1. cbind pop_target (\<lambda>op2. emit_new opc op1 op2 op3)), set_etype EXPR]"

text \<open>The code after the operator of \<open>||\<close> and \<open>&&\<close>, which differ in the opcode and the function called.\<close>

definition short_circuit :: "GSOpcode \<Rightarrow> unit comp \<Rightarrow> int comp" where
  "short_circuit opc f =
     cbind pop_target (\<lambda>first_exp. cbind push_target (\<lambda>trg. cbind (emit opc trg 0 first_exp 0) (\<lambda>_. cbind current_pos (\<lambda>jpos.
       cbind (cseq [cwhen (trg \<noteq> first_exp) (emit OP_MOVE trg first_exp 0 0), cLex, INVOKE_EXP f, snooze]) (\<lambda>_.
       cbind pop_target (\<lambda>second_exp.
       cbind (cseq [cwhen (trg \<noteq> second_exp) (emit OP_MOVE trg second_exp 0 0), snooze,
                    cbind current_pos (\<lambda>here. set_param jpos 1 (here - jpos)), set_etype EXPR]) (\<lambda>_. creturn 0)))))))"

definition LogicalOrExp :: "caller \<Rightarrow> int comp" where
  "LogicalOrExp call = cbind (call NLogicalAndExp) (\<lambda>_.
     on_token (\<lambda>t. if t = TK_OR then short_circuit OP_OR (cvoid (call NLogicalOrExp)) else creturn 0))"

definition LogicalAndExp :: "caller \<Rightarrow> int comp" where
  "LogicalAndExp call = cbind (call NBitwiseOrExp) (\<lambda>_.
     on_token (\<lambda>t. if t = TK_AND then short_circuit OP_AND (cvoid (call NLogicalAndExp)) else creturn 0))"

definition BitwiseOrExp :: "caller \<Rightarrow> int comp" where
  "BitwiseOrExp call = cbind (call NBitwiseXorExp) (\<lambda>_. call NBitwiseOrRest)"

definition BitwiseOrRest :: "caller \<Rightarrow> int comp" where
  "BitwiseOrRest call = on_token (\<lambda>t.
     if t = tk CHR ''|'' then cbind (BIN_EXP OP_BITW (cvoid (call NBitwiseXorExp)) 2) (\<lambda>_. call NBitwiseOrRest) else creturn 0)"

definition BitwiseXorExp :: "caller \<Rightarrow> int comp" where
  "BitwiseXorExp call = cbind (call NBitwiseAndExp) (\<lambda>_. call NBitwiseXorRest)"

definition BitwiseXorRest :: "caller \<Rightarrow> int comp" where
  "BitwiseXorRest call = on_token (\<lambda>t.
     if t = tk CHR ''^'' then cbind (BIN_EXP OP_BITW (cvoid (call NBitwiseAndExp)) 3) (\<lambda>_. call NBitwiseXorRest) else creturn 0)"

definition BitwiseAndExp :: "caller \<Rightarrow> int comp" where
  "BitwiseAndExp call = cbind (call NEqExp) (\<lambda>_. call NBitwiseAndRest)"

definition BitwiseAndRest :: "caller \<Rightarrow> int comp" where
  "BitwiseAndRest call = on_token (\<lambda>t.
     if t = tk CHR ''&'' then cbind (BIN_EXP OP_BITW (cvoid (call NEqExp)) 0) (\<lambda>_. call NBitwiseAndRest) else creturn 0)"

text \<open>The operators of the other levels with their opcode and third operand.\<close>

definition eq_ops :: "(int \<times> GSOpcode \<times> int) list" where
  "eq_ops = [(TK_EQ, OP_EQ, 0), (TK_NE, OP_NE, 0), (TK_3WAYSCMP, OP_CMP, 5)]"

definition comp_ops :: "(int \<times> GSOpcode \<times> int) list" where
  "comp_ops = [(tk CHR ''>'', OP_CMP, 0), (tk CHR ''<'', OP_CMP, 3), (TK_GE, OP_CMP, 2), (TK_LE, OP_CMP, 4),
               (TK_IN, OP_EXISTS, 0), (TK_INSTANCEOF, OP_INSTANCEOF, 0)]"

definition shift_ops :: "(int \<times> GSOpcode \<times> int) list" where
  "shift_ops = [(TK_USHIFTR, OP_BITW, 6), (TK_SHIFTL, OP_BITW, 4), (TK_SHIFTR, OP_BITW, 5)]"

definition plus_ops :: "(int \<times> GSOpcode \<times> int) list" where
  "plus_ops = map (\<lambda>t. (t, ChooseArithOpByToken t, 0)) [tk CHR ''+'', tk CHR ''-'']"

definition mult_ops :: "(int \<times> GSOpcode \<times> int) list" where
  "mult_ops = map (\<lambda>t. (t, ChooseArithOpByToken t, 0)) [tk CHR ''*'', tk CHR ''/'', tk CHR ''%'']"

definition operator_rest :: "(int \<times> GSOpcode \<times> int) list \<Rightarrow> caller \<Rightarrow> nonterm \<Rightarrow> nonterm \<Rightarrow> int comp" where
  "operator_rest ops call operand rest = on_token (\<lambda>t.
     case map_of ops t of
       None \<Rightarrow> creturn 0
     | Some (opc, op3) \<Rightarrow> cbind (BIN_EXP opc (cvoid (call operand)) op3) (\<lambda>_. call rest))"

definition EqExp :: "caller \<Rightarrow> int comp" where "EqExp call = cbind (call NCompExp) (\<lambda>_. call NEqRest)"
definition EqRest :: "caller \<Rightarrow> int comp" where "EqRest call = operator_rest eq_ops call NCompExp NEqRest"
definition CompExp :: "caller \<Rightarrow> int comp" where "CompExp call = cbind (call NShiftExp) (\<lambda>_. call NCompRest)"
definition CompRest :: "caller \<Rightarrow> int comp" where "CompRest call = operator_rest comp_ops call NShiftExp NCompRest"
definition ShiftExp :: "caller \<Rightarrow> int comp" where "ShiftExp call = cbind (call NPlusExp) (\<lambda>_. call NShiftRest)"
definition ShiftRest :: "caller \<Rightarrow> int comp" where "ShiftRest call = operator_rest shift_ops call NPlusExp NShiftRest"
definition PlusExp :: "caller \<Rightarrow> int comp" where "PlusExp call = cbind (call NMultExp) (\<lambda>_. call NPlusRest)"
definition PlusRest :: "caller \<Rightarrow> int comp" where "PlusRest call = operator_rest plus_ops call NMultExp NPlusRest"
definition MultExp :: "caller \<Rightarrow> int comp" where "MultExp call = cbind (call NPrefixedExpr) (\<lambda>_. call NMultRest)"
definition MultRest :: "caller \<Rightarrow> int comp" where "MultRest call = operator_rest mult_ops call NPrefixedExpr NMultRest"

section \<open>Prefixed expressions\<close>

definition NeedGet :: "cstate \<Rightarrow> bool" where
  "NeedGet s \<longleftrightarrow>
     (if token s \<in> insert (tk CHR ''('') assign_tokens then False
      else if (token s = TK_PLUSPLUS \<or> token s = TK_MINUSMINUS) \<and> \<not> IsEndOfStatement s then False
      else \<not> donot_get (es s) \<or> token s = tk CHR ''.'' \<or> token s = tk CHR ''['')"

abbreviation type_tokens :: "int set" where
  "type_tokens \<equiv> {GS_Lexer.TK_INT, GS_Lexer.TK_FLOAT, GS_Lexer.TK_STRING, GS_Lexer.TK_BOOL, GS_Lexer.TK_VOID, GS_Lexer.TK_IDENTIFIER}"

text \<open>The arguments of a generic argument list, after \<open><\<close>.\<close>

fun generic_args :: "nat \<Rightarrow> unit comp" where
  "generic_args 0 = cfuel"
| "generic_args (Suc n) = on_token (\<lambda>t.
     if t \<notin> type_tokens then cerror ''expected type name in generic argument list''
     else cbind cLex (\<lambda>_. on_token (\<lambda>t. if t = tk CHR '','' then cbind cLex (\<lambda>_. generic_args n) else creturn ())))"

abbreviation remaining :: "cstate \<Rightarrow> nat" where "remaining s \<equiv> 2 * rem (lx s) + 2"

text \<open>An access through \<open>.\<close> or \<open>[]\<close> when object and key are on the target stack.\<close>

definition access_slot :: "unit comp" where
  "access_slot =
     cbind (cget (\<lambda>s. etype (es s))) (\<lambda>et.
       if et = BASE then
         cseq [Emit2ArgsOP OP_GET 0, cbind top_target (\<lambda>pos. cseq [set_etype EXPR, set_epos pos])]
       else cseq [cbind (cget NeedGet) (\<lambda>b. cwhen b (Emit2ArgsOP OP_GET 0)), set_etype OBJECT])"

text \<open>\<open>_fs->AddInstruction(_OP_LOAD, _fs->PushTarget(), _fs->GetConstant(v))\<close>.\<close>

definition load_constant :: "gsobj comp \<Rightarrow> unit comp" where
  "load_constant m = cbind push_target (\<lambda>t. cbind m (\<lambda>v. cbind (get_constant v) (\<lambda>k. emit OP_LOAD t k 0 0)))"

definition postfix_incdec :: "int \<Rightarrow> unit comp" where
  "postfix_incdec diff =
     cseq [cbind (cget es) (\<lambda>e.
       case etype e of
         EXPR \<Rightarrow> cerror (''can'' @ [CHR 0x27] @ ''t '' @ [CHR 0x27] @ ''++'' @ [CHR 0x27] @ '' or '' @ [CHR 0x27] @ ''--'' @ [CHR 0x27] @ '' an expression'')
       | BASE \<Rightarrow> cerror ([CHR 0x27] @ ''base'' @ [CHR 0x27] @ '' cannot be modified'')
       | OBJECT \<Rightarrow>
           if donot_get e then cerror (''can'' @ [CHR 0x27] @ ''t '' @ [CHR 0x27] @ ''++'' @ [CHR 0x27] @ '' or '' @ [CHR 0x27] @ ''--'' @ [CHR 0x27] @ '' an expression'')
           else Emit2ArgsOP OP_PINC diff
       | LOCAL \<Rightarrow> cbind pop_target (\<lambda>src. emit_new OP_PINCL src 0 diff)
       | OUTER \<Rightarrow> cbind push_target (\<lambda>tmp1. cbind push_target (\<lambda>tmp2.
           cseq [emit OP_GETOUTER tmp2 (epos e) 0 0, emit OP_PINCL tmp1 tmp2 0 diff, emit OP_SETOUTER tmp2 (epos e) tmp2 0,
                 cvoid pop_target]))),
       set_etype EXPR]"

text \<open>The callee and \<open>this\<close> of a call.\<close>

definition prepare_call :: "unit comp" where
  "prepare_call =
     cseq [cbind (cget es) (\<lambda>e.
       case etype e of
         OBJECT \<Rightarrow> cbind pop_target (\<lambda>key. cbind pop_target (\<lambda>table. cbind push_target (\<lambda>closure. cbind push_target (\<lambda>ttarget.
           emit OP_PREPCALL closure key table ttarget))))
       | OUTER \<Rightarrow> cseq [emit_new OP_GETOUTER (epos e) 0 0, emit_new OP_MOVE 0 0 0]
       | _ \<Rightarrow> emit_new OP_MOVE 0 0 0),
       set_etype EXPR]"

definition PrefixedExpr :: "caller \<Rightarrow> int comp" where
  "PrefixedExpr call = cbind (call NFactor) (\<lambda>_. call NPrefixedRest)"

text \<open>The loop of \<open>PrefixedExpr\<close>; its variable \<open>pos\<close> is never read.\<close>

definition PrefixedRest :: "caller \<Rightarrow> int comp" where
  "PrefixedRest call = on_token (\<lambda>t.
     if t = tk CHR ''.'' then
       cbind (cseq [cLex, load_constant (Expect TK_IDENTIFIER), access_slot]) (\<lambda>_. call NPrefixedRest)
     else if t = tk CHR ''['' then
       cbind (cget (\<lambda>s. prevtoken (lx s))) (\<lambda>p.
         if p = 10 then cerror ''cannot break deref/or comma needed after [exp]=exp slot declaration''
         else cbind (cseq [cLex, cvoid (call NExpression), expect (tk CHR '']''), access_slot]) (\<lambda>_. call NPrefixedRest))
     else if t = TK_MINUSMINUS \<or> t = TK_PLUSPLUS then
       cbind (cget IsEndOfStatement) (\<lambda>b.
         if b then creturn 0
         else cbind (cseq [cLex, postfix_incdec (if t = TK_MINUSMINUS then -1 else 1)]) (\<lambda>_. creturn 0))
     else if t = tk CHR ''<'' then
       cbind (cseq [cLex, cbind (cget remaining) generic_args, expect (tk CHR ''>'')]) (\<lambda>_. call NPrefixedRest)
     else if t = tk CHR ''('' then
       cbind (cseq [prepare_call, cLex, cvoid (call (NFunctionCallArgs False))]) (\<lambda>_. call NPrefixedRest)
     else creturn 0)"

definition EmitLoadConstInt :: "gsint \<Rightarrow> int \<Rightarrow> unit comp" where
  "EmitLoadConstInt value target =
     cbind (if target < 0 then push_target else creturn target) (\<lambda>t.
       if sint value \<le> 2147483647 \<and> -2147483648 < sint value then emit OP_LOADINT t (sint value) 0 0
       else cbind (get_constant (OInteger value)) (\<lambda>k. emit OP_LOAD t k 0 0))"

definition EmitLoadConstFloat :: "gsfloat \<Rightarrow> int \<Rightarrow> unit comp" where
  "EmitLoadConstFloat value target =
     cbind (if target < 0 then push_target else creturn target) (\<lambda>t. emit OP_LOADFLOAT t (sint value) 0 0)"

definition UnaryOP :: "caller \<Rightarrow> GSOpcode \<Rightarrow> unit comp" where
  "UnaryOP call opc =
     cbind (call NPrefixedExpr) (\<lambda>_. cbind (fs_get (\<lambda>c. targetstack (cfs c))) (\<lambda>ts.
       if ts = [] then cerror ''cannot evaluate unary operator''
       else cbind pop_target (\<lambda>src. emit_new opc src 0 0)))"

definition DeleteExpr :: "caller \<Rightarrow> unit comp" where
  "DeleteExpr call =
     cbind cLex (\<lambda>_. cbind (cget es) (\<lambda>old.
       cseq [set_donot_get True, cvoid (call NPrefixedExpr),
         cbind (cget (\<lambda>s. etype (es s))) (\<lambda>et.
           if et = EXPR then cerror (''can'' @ [CHR 0x27] @ ''t delete an expression'')
           else if et = BASE then cerror (''can'' @ [CHR 0x27] @ ''t delete '' @ [CHR 0x27] @ ''base'' @ [CHR 0x27])
           else if et = OBJECT then Emit2ArgsOP OP_DELETE 0
           else cerror ''cannot delete an (outer) local''),
         cput (\<lambda>s. s\<lparr>es := old\<rparr>)]))"

definition PrefixIncDec :: "caller \<Rightarrow> int \<Rightarrow> unit comp" where
  "PrefixIncDec call tok =
     (let diff = (if tok = TK_MINUSMINUS then -1 else 1) in
      cbind cLex (\<lambda>_. cbind (cget es) (\<lambda>old.
        cseq [set_donot_get True, cvoid (call NPrefixedExpr),
          cbind (cget es) (\<lambda>e.
            case etype e of
              EXPR \<Rightarrow> cerror (''can'' @ [CHR 0x27] @ ''t '' @ [CHR 0x27] @ ''++'' @ [CHR 0x27] @ '' or '' @ [CHR 0x27] @ ''--'' @ [CHR 0x27] @ '' an expression'')
            | BASE \<Rightarrow> cerror (''can'' @ [CHR 0x27] @ ''t '' @ [CHR 0x27] @ ''++'' @ [CHR 0x27] @ '' or '' @ [CHR 0x27] @ ''--'' @ [CHR 0x27] @ '' a base'')
            | OBJECT \<Rightarrow> Emit2ArgsOP OP_INC diff
            | LOCAL \<Rightarrow> cbind top_target (\<lambda>src. emit OP_INCL src src 0 diff)
            | OUTER \<Rightarrow> cbind push_target (\<lambda>tmp.
                cseq [emit OP_GETOUTER tmp (epos e) 0 0, emit OP_INCL tmp tmp 0 diff, emit OP_SETOUTER tmp (epos e) tmp 0])),
          cput (\<lambda>s. s\<lparr>es := old\<rparr>)])))"

section \<open>Functions\<close>

definition ParseBindEnv :: "caller \<Rightarrow> int comp" where
  "ParseBindEnv call = cbind cLex (\<lambda>_. cbind (call NExpression) (\<lambda>_. cbind top_target (\<lambda>bound. cbind (expect (tk CHR '']'')) (\<lambda>_. creturn bound))))"

definition bind_env :: "caller \<Rightarrow> int comp" where
  "bind_env call = on_token (\<lambda>t. if t = tk CHR ''['' then ParseBindEnv call else creturn 0xFF)"

fun generic_names :: "nat \<Rightarrow> gsobj list comp" where
  "generic_names 0 = cfuel"
| "generic_names (Suc n) =
     cbind (Expect TK_IDENTIFIER) (\<lambda>g. on_token (\<lambda>t.
       if t = tk CHR '','' then cbind cLex (\<lambda>_. cbind (generic_names n) (\<lambda>gs. creturn (g # gs))) else creturn [g]))"

definition generic_parameters :: "gsobj list comp" where
  "generic_parameters = on_token (\<lambda>t.
     if t = tk CHR ''<'' then
       cbind cLex (\<lambda>_. cbind (cget remaining) (\<lambda>n. cbind (generic_names n) (\<lambda>gs. cbind (expect (tk CHR ''>'')) (\<lambda>_. creturn gs))))
     else creturn [])"

text \<open>An array suffix \<open>[n]\<close> of a declared type; the answer is whether there is one, and its size or -1.\<close>

definition array_suffix :: "string \<Rightarrow> (bool \<times> int) comp" where
  "array_suffix msg = on_token (\<lambda>t.
     if t = tk CHR ''['' then
       cbind cLex (\<lambda>_. on_token (\<lambda>t.
         cbind (if t = TK_INTEGER then
                  cbind (cget (\<lambda>s. sint (nvalue (lx s)))) (\<lambda>n.
                    if n \<le> 0 then cerror msg else cbind cLex (\<lambda>_. creturn n))
                else creturn (-1)) (\<lambda>n. cbind (expect (tk CHR '']'')) (\<lambda>_. creturn (True, n)))))
     else creturn (False, -1))"

text \<open>The function whose parameters are being read.\<close>

definition with_pending :: "(fctx \<times> (gsobj \<times> int list) list \<Rightarrow> fctx \<times> (gsobj \<times> int list) list) \<Rightarrow> unit comp" where
  "with_pending f s = (case pending s of [] \<Rightarrow> Undef | p # ps \<Rightarrow> Ok () (s\<lparr>pending := f p # ps\<rparr>))"

definition pending_parameter :: "gsobj \<Rightarrow> unit comp" where
  "pending_parameter name = with_pending (\<lambda>(c, gs). (c\<lparr>cfs := AddParameter name (cfs c)\<rparr>, gs))"

definition type_name :: "int \<Rightarrow> gsobj comp" where
  "type_name t = (if t = TK_IDENTIFIER then cbind (cget (\<lambda>s. svalue (lx s))) CreateString else creturn ONull)"

text \<open>One declared parameter: its name, its type if it is an identifier, and its place among the generics.\<close>

definition declared_parameter :: "int \<Rightarrow> unit comp" where
  "declared_parameter idx =
     cbind (Expect TK_IDENTIFIER) (\<lambda>paramname.
     cbind (on_token (\<lambda>t.
       if t = tk CHR '':'' then
         cbind cLex (\<lambda>_. on_token (\<lambda>t. cbind (type_name t) (\<lambda>ty.
           if t \<notin> type_tokens then cerror (''expected a valid type name after '' @ [CHR 0x27] @ '':'' @ [CHR 0x27])
           else cbind cLex (\<lambda>_. cbind (array_suffix ''type mismatch: parameter array size must be greater than 0'') (\<lambda>_. creturn ty)))))
       else creturn ONull)) (\<lambda>ty.
     cbind (pending_parameter paramname) (\<lambda>_.
       cwhen (type_of ty = OT_STRING)
         (with_pending (\<lambda>(c, gs). (c, map (\<lambda>(g, regs). (g, if g = ty then regs @ [idx] else regs)) gs))))))"

definition Parameters :: "caller \<Rightarrow> int \<Rightarrow> int \<Rightarrow> int comp" where
  "Parameters call defparams idx = on_token (\<lambda>t.
     if t = tk CHR '')'' then creturn defparams
     else if t = TK_VARPARAMS then
       (if 0 < defparams then cerror ''function with default parameters cannot have variable number of parameters''
        else cbind (CreateString ''vargv'') (\<lambda>v. cbind (cseq [pending_parameter v,
          with_pending (\<lambda>(c, gs). (c\<lparr>cfs := (cfs c)\<lparr>varparams := True\<rparr>\<rparr>, gs)), cLex]) (\<lambda>_.
          on_token (\<lambda>t. if t \<noteq> tk CHR '')'' then cerror (''expected '' @ [CHR 0x27] @ '')'' @ [CHR 0x27]) else creturn defparams))))
     else cbind (declared_parameter idx) (\<lambda>_.
       cbind (on_token (\<lambda>t.
         if t = tk CHR ''='' then
           cbind (cseq [cLex, cvoid (call NExpression), cbind top_target (\<lambda>trg.
             with_pending (\<lambda>(c, gs). (c\<lparr>cfs := (cfs c)\<lparr>defaultparams := defaultparams (cfs c) @ [trg]\<rparr>\<rparr>, gs)))]) (\<lambda>_. creturn (defparams + 1))
         else if 0 < defparams then cerror (''expected '' @ [CHR 0x27] @ ''='' @ [CHR 0x27])
         else creturn defparams)) (\<lambda>d.
       cbind (on_token (\<lambda>t.
         if t = tk CHR '','' then cLex
         else if t \<noteq> tk CHR '')'' then cerror (''expected '' @ [CHR 0x27] @ '')'' @ [CHR 0x27] @ '' or '' @ [CHR 0x27] @ '','' @ [CHR 0x27])
         else creturn ())) (\<lambda>_. call (NParameters d (idx + 1))))))"

definition return_type :: "int comp" where
  "return_type = on_token (\<lambda>t.
     if t = TK_ARROW then
       cbind cLex (\<lambda>_. on_token (\<lambda>r.
         if r \<notin> type_tokens then cerror (''expected return type after '' @ [CHR 0x27] @ ''->'' @ [CHR 0x27])
         else cbind cLex (\<lambda>_. cbind (array_suffix ''type mismatch: fixed array size must be greater than 0'') (\<lambda>_. creturn r))))
     else creturn 0)"

fun pop_times :: "nat \<Rightarrow> unit comp" where
  "pop_times 0 = creturn ()"
| "pop_times (Suc n) = cbind pop_target (\<lambda>_. pop_times n)"

definition match_generics :: "(gsobj \<times> int list) list \<Rightarrow> unit comp" where
  "match_generics gs = cseq (concat (map (\<lambda>(g, regs). map (\<lambda>r. emit OP_MATCHTYPES (hd regs) r 0 0) (tl regs)) gs))"

text \<open>The child function becomes the current one; its prototype goes to the enclosing function.\<close>

definition enter_child :: "(gsobj \<times> int list) list comp" where
  "enter_child s =
     (case pending s of [] \<Rightarrow> Undef | (c, gs) # ps \<Rightarrow> Ok gs (s\<lparr>pending := ps, funcs := c # funcs s\<rparr>))"

definition leave_child :: "gsint \<Rightarrow> unit comp" where
  "leave_child rettype s =
     (case funcs s of c # p # cs \<Rightarrow> Ok () (s\<lparr>funcs := p\<lparr>protos := protos p @ [BuildProto rettype c]\<rparr> # cs\<rparr>) | _ \<Rightarrow> Undef)"

definition function_end_line :: "cstate \<Rightarrow> int" where
  "function_end_line s = (if prevtoken (lx s) = 10 then lasttokenline (lx s) else currentline (lx s))"

definition add_line_infos :: "(cstate \<Rightarrow> int) \<Rightarrow> bool \<Rightarrow> unit comp" where
  "add_line_infos line force = cbind (cget line) (\<lambda>l. cbind (cget (\<lambda>s. clineinfo (env s))) (\<lambda>b. fs_mod (AddLineInfos l b force)))"

definition CreateFunction :: "caller \<Rightarrow> gsobj \<Rightarrow> int \<Rightarrow> bool \<Rightarrow> unit comp" where
  "CreateFunction call name boundtarget lambda =
     cbind (CreateString ''this'') (\<lambda>this1. cbind (cget (\<lambda>s. csourcename (env s))) (\<lambda>src.
     let c = new_fctx True src; child = c\<lparr>cfs := AddParameter this1 ((cfs c)\<lparr>fname := name\<rparr>)\<rparr> in
     cbind generic_parameters (\<lambda>gs. cbind (expect (tk CHR ''('')) (\<lambda>_.
     cbind (cput (\<lambda>s. s\<lparr>pending := (child, map (\<lambda>g. (g, [])) gs) # pending s\<rparr>)) (\<lambda>_.
     cbind (call (NParameters 0 1)) (\<lambda>defparams. cbind (expect (tk CHR '')'')) (\<lambda>_. cbind return_type (\<lambda>rettype.
     cbind (cseq [cwhen (boundtarget \<noteq> 0xFF) (cvoid pop_target), pop_times (nat defparams)]) (\<lambda>_. cbind enter_child (\<lambda>gens.
       cseq [match_generics gens,
         if lambda then cseq [cvoid (call NExpression), cbind pop_target (\<lambda>r. emit OP_RETURN 1 r 0 0)]
         else cvoid (call (NStatement False)),
         add_line_infos function_end_line True, emit OP_RETURN (-1) 0 0 0, set_stack_size 0,
         leave_child (word_of_int rettype)]))))))))))"

text \<open>\<open>_fs->AddInstruction(_OP_CLOSURE, _fs->PushTarget(), _fs->_functions.size() - 1, boundtarget)\<close>.\<close>

definition emit_closure :: "int \<Rightarrow> unit comp" where
  "emit_closure bound =
     cbind push_target (\<lambda>t. cbind (fs_get (\<lambda>c. int (length (protos c)) - 1)) (\<lambda>k. emit OP_CLOSURE t k bound 0))"

definition FunctionExp :: "caller \<Rightarrow> bool \<Rightarrow> unit comp" where
  "FunctionExp call lambda =
     cbind cLex (\<lambda>_. cbind (bind_env call) (\<lambda>bound. cseq [CreateFunction call ONull bound lambda, emit_closure bound]))"

section \<open>Calls, tables and classes\<close>

definition FunctionCallArgs :: "caller \<Rightarrow> bool \<Rightarrow> int comp" where
  "FunctionCallArgs call rawcall =
     cbind (call (NCallArgs 1)) (\<lambda>n. cbind cLex (\<lambda>_.
     cbind (if rawcall then (if n < 3 then cerror ''rawcall requires at least 2 parameters (callee and this)'' else creturn (n - 2)) else creturn n) (\<lambda>nargs.
     cbind (pop_times (nat (nargs - 1))) (\<lambda>_. cbind pop_target (\<lambda>stackbase. cbind pop_target (\<lambda>closure.
     cbind (emit_new OP_CALL closure stackbase nargs) (\<lambda>_. on_token (\<lambda>t.
       if t = tk CHR ''{'' then
         cbind top_target (\<lambda>retval. cbind (cseq [cLex, cvoid (call (NCallInit retval)), cLex]) (\<lambda>_. creturn 0))
       else creturn 0))))))))"

text \<open>The arguments; the answer is their number with \<open>this\<close>.\<close>

definition CallArgs :: "caller \<Rightarrow> int \<Rightarrow> int comp" where
  "CallArgs call nargs = on_token (\<lambda>t.
     if t = tk CHR '')'' then creturn nargs
     else cbind (cseq [cvoid (call NExpression), MoveIfCurrentTargetIsLocal,
       on_token (\<lambda>t. if t = tk CHR '','' then
         cbind cLex (\<lambda>_. on_token (\<lambda>t. if t = tk CHR '')'' then cerror (''expression expected, found '' @ [CHR 0x27] @ '')'' @ [CHR 0x27]) else creturn ()))
         else creturn ())]) (\<lambda>_. call (NCallArgs (nargs + 1))))"

text \<open>\<open>[key] = value\<close>, and \<open>name = value\<close>, with key and value left on the target stack.\<close>

definition computed_slot :: "caller \<Rightarrow> unit comp" where
  "computed_slot call = cseq [cLex, cvoid (call NCommaExpr), expect (tk CHR '']''), expect (tk CHR ''=''), cvoid (call NExpression)]"

definition named_slot :: "caller \<Rightarrow> unit comp" where
  "named_slot call = cseq [load_constant (Expect TK_IDENTIFIER), expect (tk CHR ''=''), cvoid (call NExpression)]"

abbreviation skip_token :: "int \<Rightarrow> unit comp" where
  "skip_token tok \<equiv> on_token (\<lambda>t. if t = tok then cLex else creturn ())"

definition CallInit :: "caller \<Rightarrow> int \<Rightarrow> int comp" where
  "CallInit call retval = on_token (\<lambda>t.
     if t = tk CHR ''}'' then creturn 0
     else cbind (cseq [if t = tk CHR ''['' then computed_slot call else named_slot call, skip_token (tk CHR '',''),
       cbind pop_target (\<lambda>val. cbind pop_target (\<lambda>key. emit OP_SET 0xFF retval key val))]) (\<lambda>_. call (NCallInit retval)))"

definition ArrayItems :: "caller \<Rightarrow> int \<Rightarrow> int comp" where
  "ArrayItems call key = on_token (\<lambda>t.
     if t = tk CHR '']'' then creturn key
     else cbind (cseq [cvoid (call NExpression), skip_token (tk CHR '',''),
       cbind pop_target (\<lambda>val. cbind top_target (\<lambda>array. emit OP_APPENDARRAY array val 0 0))]) (\<lambda>_. call (NArrayItems (key + 1))))"

definition ParseTableOrClass :: "caller \<Rightarrow> int \<Rightarrow> int \<Rightarrow> int comp" where
  "ParseTableOrClass call separator terminator =
     cbind current_pos (\<lambda>tpos. cbind (call (NSlotItems separator terminator 0)) (\<lambda>nkeys.
       cbind (cseq [cwhen (separator = tk CHR '','') (set_param tpos 1 nkeys), cLex]) (\<lambda>_. creturn 0)))"

definition method_slot :: "caller \<Rightarrow> int \<Rightarrow> unit comp" where
  "method_slot call t =
     cbind cLex (\<lambda>_. cbind (if t = TK_FUNCTION then Expect TK_IDENTIFIER else CreateString ''constructor'') (\<lambda>name.
       cbind (load_constant (creturn name)) (\<lambda>_. cbind (bind_env call) (\<lambda>bound.
         cseq [CreateFunction call name bound False, emit_closure bound]))))"

text \<open>The attributes and \<open>static\<close> in front of a member of a class.\<close>

definition member_modifiers :: "caller \<Rightarrow> int \<Rightarrow> (bool \<times> bool) comp" where
  "member_modifiers call separator =
     (if separator = tk CHR '';'' then
        cbind (on_token (\<lambda>t. if t = TK_ATTR_OPEN then
            cbind (cseq [emit_new OP_NEWOBJ 0 0 0, cLex, cvoid (call (NParseTableOrClass (tk CHR '','') TK_ATTR_CLOSE))]) (\<lambda>_. creturn True)
          else creturn False)) (\<lambda>hasattrs.
        on_token (\<lambda>t. if t = TK_STATIC then cbind cLex (\<lambda>_. creturn (hasattrs, True)) else creturn (hasattrs, False)))
      else creturn (False, False))"

definition SlotItems :: "caller \<Rightarrow> int \<Rightarrow> int \<Rightarrow> int \<Rightarrow> int comp" where
  "SlotItems call separator terminator nkeys = on_token (\<lambda>t.
     if t = terminator then creturn nkeys
     else cbind (member_modifiers call separator) (\<lambda>(hasattrs, isstatic).
       cbind (cseq [
         on_token (\<lambda>t.
           if t = TK_FUNCTION \<or> t = TK_CONSTRUCTOR then method_slot call t
           else if t = tk CHR ''['' then computed_slot call
           else if t = TK_STRING_LITERAL \<and> separator = tk CHR '','' then
             cseq [load_constant (Expect TK_STRING_LITERAL), expect (tk CHR '':''), cvoid (call NExpression)]
           else named_slot call),
         skip_token separator,
         cbind pop_target (\<lambda>val. cbind pop_target (\<lambda>key.
           cbind (if hasattrs then pop_target else creturn (-1)) (\<lambda>_. cbind top_target (\<lambda>table.
             if separator = tk CHR '','' then emit OP_NEWSLOT 0xFF table key val
             else emit OP_NEWSLOTA ((if hasattrs then 1 else 0) + (if isstatic then 2 else 0)) table key val))))]) (\<lambda>_.
       call (NSlotItems separator terminator (nkeys + 1)))))"

definition ClassExp :: "caller \<Rightarrow> unit comp" where
  "ClassExp call =
     cbind (on_token (\<lambda>t. if t = TK_EXTENDS then cbind (cseq [cLex, cvoid (call NExpression)]) (\<lambda>_. top_target) else creturn (-1))) (\<lambda>base.
     cbind (on_token (\<lambda>t. if t = TK_ATTR_OPEN then
         cbind (cseq [cLex, emit_new OP_NEWOBJ 0 0 0, cvoid (call (NParseTableOrClass (tk CHR '','') TK_ATTR_CLOSE))]) (\<lambda>_. top_target)
       else creturn (-1))) (\<lambda>attrs.
     cseq [expect (tk CHR ''{''), cwhen (attrs \<noteq> -1) (cvoid pop_target), cwhen (base \<noteq> -1) (cvoid pop_target),
           emit_new OP_NEWOBJ base attrs 2, cvoid (call (NParseTableOrClass (tk CHR '';'') (tk CHR ''}'')))]))"

section \<open>Factors\<close>

text \<open>The value of a named constant; \<open>id\<close> is its name.\<close>

definition constant_value :: "gsobj \<Rightarrow> gsobj \<Rightarrow> gsobj comp" where
  "constant_value name c =
     (case c of
        OTable p \<Rightarrow>
          cbind (expect (tk CHR ''.'')) (\<lambda>_. cbind (Expect TK_IDENTIFIER) (\<lambda>k. (\<lambda>s.
            case ctables s p of
              None \<Rightarrow> Undef
            | Some t \<Rightarrow>
                (case TableGet (chash (env s)) (cweak (env s)) t k of
                   None \<Rightarrow> Undef
                 | Some None \<Rightarrow> cerror (''invalid constant ['' @ cchars (env s) (rawval name) @ ''.'' @ cchars (env s) (rawval k) @ '']'') s
                 | Some (Some v) \<Rightarrow> Ok v s))))
      | _ \<Rightarrow> creturn c)"

definition load_named_constant :: "gsobj \<Rightarrow> unit comp" where
  "load_named_constant v =
     cbind push_target (\<lambda>t. cbind (set_epos t) (\<lambda>_.
       cseq [case v of
          OInteger i \<Rightarrow> EmitLoadConstInt i t
        | OFloat f \<Rightarrow> EmitLoadConstFloat f t
        | OBool b \<Rightarrow> emit OP_LOADBOOL t (if b then 1 else 0) 0 0
        | _ \<Rightarrow> cbind (get_constant v) (\<lambda>k. emit OP_LOAD t k 0 0),
        set_etype EXPR]))"

definition identifier_of :: "int \<Rightarrow> gsobj comp" where
  "identifier_of t =
     (if t = TK_IDENTIFIER then cbind (cget (\<lambda>s. svalue (lx s))) CreateString
      else if t = TK_THIS then CreateString ''this'' else CreateString ''constructor'')"

definition identifier_generics :: "unit comp" where
  "identifier_generics = on_token (\<lambda>t.
     if t = tk CHR ''<'' then
       cseq [cLex, cbind (cget remaining) generic_args,
         on_token (\<lambda>t. if t = tk CHR ''>'' then cLex else cerror (''expected '' @ [CHR 0x27] @ ''>'' @ [CHR 0x27] @ '' after generic argument list''))]
     else creturn ())"

text \<open>An identifier is a local variable, a captured one, a named constant or a field of \<open>this\<close>.\<close>

definition resolve_name :: "gsobj \<Rightarrow> unit comp" where
  "resolve_name name =
     cbind (fs_get (\<lambda>c. GetLocalVariable name (cfs c))) (\<lambda>pos.
     if pos \<noteq> -1 then cseq [push_reg pos, set_etype LOCAL, set_epos pos]
     else cbind (outer_variable name) (\<lambda>pos.
     if pos \<noteq> -1 then
       cbind (cget NeedGet) (\<lambda>b.
         if b then cbind push_target (\<lambda>t. cseq [set_epos t, emit OP_GETOUTER t pos 0 0])
         else cseq [set_etype OUTER, set_epos pos])
     else cbind (IsConstant name) (\<lambda>r.
       case r of
         Some c \<Rightarrow> cbind (constant_value name c) load_named_constant
       | None \<Rightarrow>
           cseq [push_reg 0, load_constant (creturn name), cbind (cget NeedGet) (\<lambda>b. cwhen b (Emit2ArgsOP OP_GET 0)), set_etype OBJECT])))"

definition unary_ops :: "(int \<times> GSOpcode) list" where
  "unary_ops = [(tk CHR ''!'', OP_NOT), (TK_TYPEOF, OP_TYPEOF), (TK_RESUME, OP_RESUME), (TK_CLONE, OP_CLONE)]"

text \<open>The factors that leave a value of no assignable kind.\<close>

definition plain_factor :: "caller \<Rightarrow> int \<Rightarrow> unit comp" where
  "plain_factor call t =
     (if t = TK_STRING_LITERAL then cseq [load_constant (cbind (cget (\<lambda>s. svalue (lx s))) CreateString), cLex]
      else if t = TK_NULL then cseq [emit_new OP_LOADNULLS 1 0 0, cLex]
      else if t = TK_INTEGER then cseq [cbind (cget (\<lambda>s. nvalue (lx s))) (\<lambda>n. EmitLoadConstInt n (-1)), cLex]
      else if t = GS_Lexer.TK_FLOAT then cseq [cbind (cget (\<lambda>s. fvalue (lx s))) (\<lambda>f. EmitLoadConstFloat f (-1)), cLex]
      else if t = TK_TRUE \<or> t = TK_FALSE then cseq [emit_new OP_LOADBOOL (if t = TK_TRUE then 1 else 0) 0 0, cLex]
      else if t = tk CHR ''['' then
        cbind (emit_new OP_NEWOBJ 0 0 1) (\<lambda>_. cbind current_pos (\<lambda>apos. cbind cLex (\<lambda>_.
          cbind (call (NArrayItems 0)) (\<lambda>key. cseq [set_param apos 1 key, cLex]))))
      else if t = tk CHR ''{'' then cseq [emit_new OP_NEWOBJ 0 0 0, cLex, cvoid (call (NParseTableOrClass (tk CHR '','') (tk CHR ''}'')))]
      else if t = TK_FUNCTION then FunctionExp call False
      else if t = tk CHR ''@'' then FunctionExp call True
      else if t = TK_CLASS then cseq [cLex, ClassExp call]
      else if t = tk CHR ''-'' then
        cbind cLex (\<lambda>_. on_token (\<lambda>t.
          if t = TK_INTEGER then cseq [cbind (cget (\<lambda>s. nvalue (lx s))) (\<lambda>n. EmitLoadConstInt (- n) (-1)), cLex]
          else if t = GS_Lexer.TK_FLOAT then cseq [cbind (cget (\<lambda>s. fvalue (lx s))) (\<lambda>f. EmitLoadConstFloat (f_neg f) (-1)), cLex]
          else UnaryOP call OP_NEG))
      else if t = tk CHR ''~'' then
        cbind cLex (\<lambda>_. on_token (\<lambda>t.
          if t = TK_INTEGER then cseq [cbind (cget (\<lambda>s. nvalue (lx s))) (\<lambda>n. EmitLoadConstInt (NOT n) (-1)), cLex]
          else UnaryOP call OP_BWNOT))
      else if t = TK_RAWCALL then cseq [cLex, expect (tk CHR ''(''), cvoid (call (NFunctionCallArgs True))]
      else if t = TK_MINUSMINUS \<or> t = TK_PLUSPLUS then PrefixIncDec call t
      else if t = TK_DELETE then DeleteExpr call
      else if t = tk CHR ''('' then cseq [cLex, cvoid (call NCommaExpr), expect (tk CHR '')'')]
      else if t = TK_LINE then cseq [cbind (cget (\<lambda>s. currentline (lx s))) (\<lambda>n. EmitLoadConstInt (word_of_int n) (-1)), cLex]
      else if t = TK_FILE then cseq [load_constant (cget (\<lambda>s. csourcename (env s))), cLex]
      else case map_of unary_ops t of
          Some opc \<Rightarrow> cbind cLex (\<lambda>_. UnaryOP call opc)
        | None \<Rightarrow> cerror ''expression expected'')"

definition Factor :: "caller \<Rightarrow> int comp" where
  "Factor call = on_token (\<lambda>t.
     if t = TK_BASE then
       cbind (cseq [cLex, emit_new OP_GETBASE 0 0 0, set_etype BASE, cbind top_target set_epos]) (\<lambda>_. cget (\<lambda>s. epos (es s)))
     else if t = TK_IDENTIFIER \<or> t = TK_CONSTRUCTOR \<or> t = TK_THIS then
       cbind (identifier_of t) (\<lambda>name. cbind (cseq [cLex, identifier_generics, resolve_name name]) (\<lambda>_. cget (\<lambda>s. epos (es s))))
     else if t = TK_DOUBLE_COLON then
       cbind (cseq [emit_new OP_LOADROOT 0 0 0, set_etype OBJECT, cput (\<lambda>s. s\<lparr>token := tk CHR ''.''\<rparr>), set_epos (-1)]) (\<lambda>_. creturn (-1))
     else cbind (cseq [plain_factor call t, set_etype EXPR]) (\<lambda>_. creturn (-1)))"

section \<open>Statements\<close>

definition LocalDeclStatement :: "caller \<Rightarrow> unit comp" where
  "LocalDeclStatement call =
     cbind cLex (\<lambda>_. on_token (\<lambda>t.
       if t = TK_FUNCTION then
         cbind cLex (\<lambda>_. cbind (Expect TK_IDENTIFIER) (\<lambda>varname. cbind (bind_env call) (\<lambda>bound.
           cseq [CreateFunction call varname 0xFF False, emit_closure bound, cvoid pop_target, cvoid (push_local varname (-1) (-1))])))
       else cvoid (call NLocalDecls)))"

text \<open>The declared type of a local, -1 without one, whether it is an array and its size.\<close>

definition declared_type :: "(int \<times> bool \<times> int) comp" where
  "declared_type = on_token (\<lambda>t.
     if t = tk CHR '':'' then
       cbind cLex (\<lambda>_. on_token (\<lambda>ty.
         if ty \<notin> type_tokens then cerror (''expected a valid type name after '' @ [CHR 0x27] @ '':'' @ [CHR 0x27])
         else cbind cLex (\<lambda>_. cbind (array_suffix ''type mismatch: fixed array size must be greater than 0'') (\<lambda>(a, n). creturn (ty, a, n)))))
     else creturn (-1, False, -1))"

text \<open>The assignment to the type of the last local after \<open>PushLocalVariable\<close>.\<close>

definition force_type :: "int \<Rightarrow> int \<Rightarrow> funcstate \<Rightarrow> funcstate" where
  "force_type ty n fs =
     (if vlocals fs = [] then fs
      else fs\<lparr>vlocals := butlast (vlocals fs) @ [(last (vlocals fs))\<lparr>ltype := ty, larray_size := n\<rparr>]\<rparr>)"

definition LocalDecls :: "caller \<Rightarrow> int comp" where
  "LocalDecls call =
     cbind (Expect TK_IDENTIFIER) (\<lambda>varname. cbind declared_type (\<lambda>(expected_type, is_array, array_size).
     let check_type = (if expected_type \<noteq> -1 then (if is_array then - expected_type else expected_type) else -1) in
     cbind (cseq [on_token (\<lambda>t.
       if t = tk CHR ''='' then
         cbind cLex (\<lambda>_. cbind (call NExpression) (\<lambda>_. cbind pop_target (\<lambda>src. cbind push_target (\<lambda>dest.
           cseq [cwhen (dest \<noteq> src)
                   (cbind (fs_get (\<lambda>c. IsLocal (cfs c) src)) (\<lambda>l. cseq [cwhen l snooze, emit OP_MOVE dest src 0 0])),
                 cwhen (expected_type \<noteq> -1) (emit OP_TYPECHECK dest check_type array_size 0)]))))
       else if expected_type \<noteq> -1 then cerror ''strict type declarations must be initialized (cannot default to null)''
       else emit_new OP_LOADNULLS 1 0 0),
       cvoid pop_target, cvoid (push_local varname check_type array_size), fs_mod (force_type check_type array_size)]) (\<lambda>_.
     on_token (\<lambda>t. if t = tk CHR '','' then cbind cLex (\<lambda>_. call NLocalDecls) else creturn 0))))"

definition Statements :: "caller \<Rightarrow> int comp" where
  "Statements call = on_token (\<lambda>t.
     if t = tk CHR ''}'' \<or> t = TK_DEFAULT \<or> t = TK_CASE then creturn 0
     else cbind (cseq [cvoid (call (NStatement True)), statement_end]) (\<lambda>_. call NStatements))"

definition block :: "caller \<Rightarrow> bool \<Rightarrow> unit comp" where
  "block call closeframe =
     cbind BEGIN_SCOPE (\<lambda>old.
       cseq [cLex, cvoid (call NStatements), expect (tk CHR ''}''), if closeframe then END_SCOPE old else END_SCOPE_NO_CLOSE old])"

definition IfBlock :: "caller \<Rightarrow> unit comp" where
  "IfBlock call = on_token (\<lambda>t.
     if t = tk CHR ''{'' then block call True else cseq [cvoid (call (NStatement True)), statement_end])"

definition condition :: "caller \<Rightarrow> unit comp" where
  "condition call = cseq [expect (tk CHR ''(''), cvoid (call NCommaExpr), expect (tk CHR '')'')]"

definition IfStatement :: "caller \<Rightarrow> unit comp" where
  "IfStatement call =
     cbind (cseq [cLex, condition call, cbind pop_target (\<lambda>c. emit OP_JZ c 0 0 0)]) (\<lambda>_. cbind current_pos (\<lambda>jnepos.
     cbind (IfBlock call) (\<lambda>_. cbind current_pos (\<lambda>endifblock.
     on_token (\<lambda>t.
       if t = TK_ELSE then
         cbind (emit OP_JMP 0 0 0 0) (\<lambda>_. cbind current_pos (\<lambda>jmppos.
           cseq [cLex, IfBlock call, cbind current_pos (\<lambda>here. set_param jmppos 1 (here - jmppos)),
                 set_param jnepos 1 (endifblock - jnepos + 1)]))
       else set_param jnepos 1 (endifblock - jnepos))))))"

definition WhileStatement :: "caller \<Rightarrow> unit comp" where
  "WhileStatement call =
     cbind current_pos (\<lambda>jmppos. cbind (cseq [cLex, condition call]) (\<lambda>_. cbind BEGIN_BREAKBLE_BLOCK (\<lambda>n.
     cbind (cbind pop_target (\<lambda>c. emit OP_JZ c 0 0 0)) (\<lambda>_. cbind current_pos (\<lambda>jzpos. cbind BEGIN_SCOPE (\<lambda>old.
       cseq [cvoid (call (NStatement True)), END_SCOPE old,
             cbind current_pos (\<lambda>here. emit OP_JMP 0 (jmppos - here - 1) 0 0),
             cbind current_pos (\<lambda>here. set_param jzpos 1 (here - jzpos)),
             END_BREAKBLE_BLOCK n jmppos]))))))"

definition DoWhileStatement :: "caller \<Rightarrow> unit comp" where
  "DoWhileStatement call =
     cbind cLex (\<lambda>_. cbind current_pos (\<lambda>jmptrg. cbind BEGIN_BREAKBLE_BLOCK (\<lambda>n. cbind BEGIN_SCOPE (\<lambda>old.
     cbind (cseq [cvoid (call (NStatement True)), END_SCOPE old, expect TK_WHILE]) (\<lambda>_. cbind current_pos (\<lambda>continuetrg.
       cseq [condition call, cbind pop_target (\<lambda>c. emit OP_JZ c 1 0 0),
             cbind current_pos (\<lambda>here. emit OP_JMP 0 (jmptrg - here - 1) 0 0),
             END_BREAKBLE_BLOCK n continuetrg]))))))"

text \<open>The instructions of the third clause of a \<open>for\<close> are taken out and put behind the body.\<close>

definition cut_instructions :: "int \<Rightarrow> int \<Rightarrow> instruction list comp" where
  "cut_instructions start n =
     (if 0 < n then
        cbind (fs_get (\<lambda>c. take (nat n) (drop (nat start) (instructions (cfs c))))) (\<lambda>is.
          cbind (fs_mod (\<lambda>fs. fs\<lparr>instructions := take (length (instructions fs) - nat n) (instructions fs)\<rparr>)) (\<lambda>_. creturn is))
      else creturn [])"

definition ForStatement :: "caller \<Rightarrow> unit comp" where
  "ForStatement call =
     cbind cLex (\<lambda>_. cbind BEGIN_SCOPE (\<lambda>old.
     cbind (cseq [expect (tk CHR ''(''), on_token (\<lambda>t.
         if t = TK_LOCAL then LocalDeclStatement call
         else if t \<noteq> tk CHR '';'' then cseq [cvoid (call NCommaExpr), cvoid pop_target] else creturn ()),
       expect (tk CHR '';''), snooze]) (\<lambda>_.
     cbind current_pos (\<lambda>jmppos.
     cbind (on_token (\<lambda>t. if t \<noteq> tk CHR '';'' then
         cbind (cseq [cvoid (call NCommaExpr), cbind pop_target (\<lambda>c. emit OP_JZ c 0 0 0)]) (\<lambda>_. current_pos)
       else creturn (-1))) (\<lambda>jzpos.
     cbind (cseq [expect (tk CHR '';''), snooze]) (\<lambda>_. cbind current_pos (\<lambda>start.
     cbind (cseq [on_token (\<lambda>t. if t \<noteq> tk CHR '')'' then cseq [cvoid (call NCommaExpr), cvoid pop_target] else creturn ()),
       expect (tk CHR '')''), snooze]) (\<lambda>_. cbind current_pos (\<lambda>expend.
     cbind (cut_instructions (start + 1) (expend - start)) (\<lambda>exp. cbind BEGIN_BREAKBLE_BLOCK (\<lambda>n.
     cbind (call (NStatement True)) (\<lambda>_. cbind current_pos (\<lambda>continuetrg.
       cseq [cseq (map (\<lambda>i. fs_mod (AddInstruction i)) exp),
             cbind current_pos (\<lambda>here. emit OP_JMP 0 (jmppos - here - 1) 0 0),
             cwhen (0 < jzpos) (cbind current_pos (\<lambda>here. set_param jzpos 1 (here - jzpos))),
             END_BREAKBLE_BLOCK n continuetrg, END_SCOPE old])))))))))))))"

definition ForEachStatement :: "caller \<Rightarrow> unit comp" where
  "ForEachStatement call =
     cbind (cseq [cLex, expect (tk CHR ''('')]) (\<lambda>_. cbind (Expect TK_IDENTIFIER) (\<lambda>first.
     cbind (on_token (\<lambda>t. if t = tk CHR '','' then cbind cLex (\<lambda>_. cbind (Expect TK_IDENTIFIER) (\<lambda>v. creturn (first, v)))
                          else cbind (CreateString ''@INDEX@'') (\<lambda>i. creturn (i, first)))) (\<lambda>(idxname, valname).
     cbind (expect TK_IN) (\<lambda>_. cbind BEGIN_SCOPE (\<lambda>old.
     cbind (cseq [cvoid (call NExpression), expect (tk CHR '')'')]) (\<lambda>_. cbind top_target (\<lambda>container.
     cbind (push_local idxname (-1) (-1)) (\<lambda>indexpos. cbind (emit OP_LOADNULLS indexpos 1 0 0) (\<lambda>_.
     cbind (push_local valname (-1) (-1)) (\<lambda>valuepos. cbind (emit OP_LOADNULLS valuepos 1 0 0) (\<lambda>_.
     cbind (CreateString ''@ITERATOR@'') (\<lambda>it. cbind (push_local it (-1) (-1)) (\<lambda>itrpos. cbind (emit OP_LOADNULLS itrpos 1 0 0) (\<lambda>_.
     cbind current_pos (\<lambda>jmppos. cbind (emit OP_FOREACH container 0 indexpos 0) (\<lambda>_. cbind current_pos (\<lambda>foreachpos.
     cbind (emit OP_POSTFOREACH container 0 indexpos 0) (\<lambda>_. cbind BEGIN_BREAKBLE_BLOCK (\<lambda>n.
       cseq [cvoid (call (NStatement True)),
             cbind current_pos (\<lambda>here. emit OP_JMP 0 (jmppos - here - 1) 0 0),
             cbind current_pos (\<lambda>here. cseq [set_param foreachpos 1 (here - foreachpos), set_param (foreachpos + 1) 1 (here - foreachpos)]),
             END_BREAKBLE_BLOCK n (foreachpos - 1),
             cvoid pop_target, END_SCOPE old])))))))))))))))))))"

text \<open>The cases of a switch; the answer is the position of the last conditional jump.\<close>

definition Cases :: "caller \<Rightarrow> int \<Rightarrow> bool \<Rightarrow> int \<Rightarrow> int \<Rightarrow> int comp" where
  "Cases call expr bfirst tonextcondjmp skipcondjmp = on_token (\<lambda>t.
     if t \<noteq> TK_CASE then creturn tonextcondjmp
     else
       cbind (if \<not> bfirst then
           cbind (emit OP_JMP 0 0 0 0) (\<lambda>_. cbind current_pos (\<lambda>skip. cbind (set_param tonextcondjmp 1 (skip - tonextcondjmp)) (\<lambda>_. creturn skip)))
         else creturn skipcondjmp) (\<lambda>skip.
       cbind (cseq [cLex, cvoid (call NExpression), expect (tk CHR '':'')]) (\<lambda>_.
       cbind pop_target (\<lambda>trg. cbind (fs_get (\<lambda>c. IsLocal (cfs c) trg)) (\<lambda>local.
       cbind (if local then push_target else creturn trg) (\<lambda>eqtarget.
       cbind (cseq [emit OP_EQ eqtarget trg expr 0, emit OP_JZ eqtarget 0 0 0, cwhen local (cvoid pop_target),
                    cwhen (skip \<noteq> -1) (cbind current_pos (\<lambda>here. set_param skip 1 (here - skip)))]) (\<lambda>_.
       cbind current_pos (\<lambda>tonext. cbind BEGIN_SCOPE (\<lambda>old.
       cbind (cseq [cvoid (call NStatements), END_SCOPE old]) (\<lambda>_.
       call (NCases expr False tonext skip)))))))))))"

definition SwitchStatement :: "caller \<Rightarrow> unit comp" where
  "SwitchStatement call =
     cbind (cseq [cLex, condition call, expect (tk CHR ''{'')]) (\<lambda>_. cbind top_target (\<lambda>expr.
     cbind (fs_get (\<lambda>c. length (unresolvedbreaks c))) (\<lambda>n.
     cbind (fs_upd (\<lambda>c. c\<lparr>breaktargets := breaktargets c @ [0]\<rparr>)) (\<lambda>_.
     cbind (call (NCases expr True (-1) (-1))) (\<lambda>tonext.
       cseq [cwhen (tonext \<noteq> -1) (cbind current_pos (\<lambda>here. set_param tonext 1 (here - tonext))),
             on_token (\<lambda>t. if t = TK_DEFAULT then
                 cseq [cLex, expect (tk CHR '':''), cbind BEGIN_SCOPE (\<lambda>old. cseq [cvoid (call NStatements), END_SCOPE old])]
               else creturn ()),
             expect (tk CHR ''}''), cvoid pop_target,
             cbind (fs_get (\<lambda>c. length (unresolvedbreaks c))) (\<lambda>m. ResolveBreaks (m - n)),
             pop_breaktarget])))))"

text \<open>The root table or the table of the namespace as the target of a declaration.\<close>

definition declaration_target :: "bool \<Rightarrow> unit comp" where
  "declaration_target is_pub =
     cseq [emit_new OP_LOADROOT 0 0 0,
           cwhen is_pub (cseq [load_constant (CreateString ''__namespace''), Emit2ArgsOP OP_GET 0])]"

fun qualified_name :: "nat \<Rightarrow> gsobj \<Rightarrow> gsobj comp" where
  "qualified_name 0 name = cfuel"
| "qualified_name (Suc n) name = on_token (\<lambda>t.
     if t = TK_DOUBLE_COLON then
       cbind cLex (\<lambda>_. cbind (Expect TK_IDENTIFIER) (\<lambda>name1.
         cbind (cseq [load_constant (creturn name1), on_token (\<lambda>t. cwhen (t = TK_DOUBLE_COLON) (Emit2ArgsOP OP_GET 0))]) (\<lambda>_.
         qualified_name n name1)))
     else creturn name)"

definition FunctionStatement :: "caller \<Rightarrow> bool \<Rightarrow> unit comp" where
  "FunctionStatement call is_pub =
     cbind cLex (\<lambda>_. cbind (Expect TK_IDENTIFIER) (\<lambda>name.
     cbind (cseq [declaration_target is_pub, load_constant (creturn name), on_token (\<lambda>t. cwhen (t = TK_DOUBLE_COLON) (Emit2ArgsOP OP_GET 0))]) (\<lambda>_.
     cbind (cget remaining) (\<lambda>n. cbind (qualified_name n name) (\<lambda>name1. cbind (bind_env call) (\<lambda>bound.
       cseq [CreateFunction call name1 bound False, emit_closure bound, EmitDerefOp OP_NEWSLOT, cvoid pop_target]))))))"

text \<open>The expression type is \<open>OBJECT\<close> when \<open>ClassStatement\<close> tests it.\<close>

definition ClassStatement :: "caller \<Rightarrow> bool \<Rightarrow> unit comp" where
  "ClassStatement call is_pub =
     cbind cLex (\<lambda>_. cbind (cget es) (\<lambda>old. cbind (set_donot_get True) (\<lambda>_. cbind (Expect TK_IDENTIFIER) (\<lambda>name.
       cseq [declaration_target is_pub, load_constant (creturn name), set_etype OBJECT,
             ClassExp call, EmitDerefOp OP_NEWSLOT, cvoid pop_target, cput (\<lambda>s. s\<lparr>es := old\<rparr>)]))))"

definition ExpectScalar :: "gsobj comp" where
  "ExpectScalar = on_token (\<lambda>t.
     cbind (if t = TK_INTEGER \<or> t = GS_Lexer.TK_FLOAT \<or> t = TK_STRING_LITERAL then token_value t
            else if t = TK_TRUE \<or> t = TK_FALSE then creturn (OBool (t = TK_TRUE))
            else if t = tk CHR ''-'' then cbind cLex (\<lambda>_. on_token (\<lambda>t.
              if t = TK_INTEGER then cget (\<lambda>s. OInteger (- nvalue (lx s)))
              else if t = GS_Lexer.TK_FLOAT then cget (\<lambda>s. OFloat (f_neg (fvalue (lx s))))
              else cerror ''scalar expected : integer, float''))
            else cerror ''scalar expected : integer, float, or string'') (\<lambda>v. cbind cLex (\<lambda>_. creturn v)))"

definition table_put :: "gsobj \<Rightarrow> gsobj \<Rightarrow> table \<Rightarrow> table comp" where
  "table_put k v t s = (case NewSlot (chash (env s)) t k v of None \<Rightarrow> Undef | Some (t', _) \<Rightarrow> Ok t' s)"

definition define_constant :: "gsobj \<Rightarrow> gsobj \<Rightarrow> unit comp" where
  "define_constant k v = cbind (cget constants) (\<lambda>t. cbind (table_put k v t) (\<lambda>t'. cput (\<lambda>s. s\<lparr>constants := t'\<rparr>)))"

fun enum_items :: "nat \<Rightarrow> gsint \<Rightarrow> table \<Rightarrow> table comp" where
  "enum_items 0 next1 tab = cfuel"
| "enum_items (Suc n) next1 tab = on_token (\<lambda>t.
     if t = tk CHR ''}'' then creturn tab
     else cbind (Expect TK_IDENTIFIER) (\<lambda>key.
       cbind (on_token (\<lambda>t. if t = tk CHR ''='' then cbind cLex (\<lambda>_. cbind ExpectScalar (\<lambda>v. creturn (v, next1)))
                            else creturn (OInteger next1, next1 + 1))) (\<lambda>(val, next2).
       cbind (table_put key val tab) (\<lambda>tab1. cbind (skip_token (tk CHR '','')) (\<lambda>_. enum_items n next2 tab1)))))"

definition EnumStatement :: "unit comp" where
  "EnumStatement =
     cbind cLex (\<lambda>_. cbind (Expect TK_IDENTIFIER) (\<lambda>name. cbind (expect (tk CHR ''{'')) (\<lambda>_.
     cbind (cget (\<lambda>s. calloc (env s) (nalloc s))) (\<lambda>p. cbind (cput (\<lambda>s. s\<lparr>nalloc := nalloc s + 1\<rparr>)) (\<lambda>_.
     cbind (cget remaining) (\<lambda>n. cbind (enum_items n 0 (CreateTable 0)) (\<lambda>tab.
       cseq [cput (\<lambda>s. s\<lparr>ctables := (ctables s)(p \<mapsto> tab)\<rparr>), define_constant name (OTable p), cLex])))))))"

text \<open>A path of identifiers joined by slashes, in a buffer of 1024 characters.\<close>

fun path_rest :: "nat \<Rightarrow> string \<Rightarrow> string comp" where
  "path_rest 0 buf = cfuel"
| "path_rest (Suc n) buf = on_token (\<lambda>t.
     if t = tk CHR ''/'' then
       cbind cLex (\<lambda>_. cbind (Expect TK_IDENTIFIER) (\<lambda>v. cbind (cget (\<lambda>s. cchars (env s) (rawval v))) (\<lambda>str.
         path_rest n (take 1023 (take 1023 (buf @ ''/'') @ str)))))
     else creturn buf)"

definition path_statement :: "GSOpcode \<Rightarrow> unit comp" where
  "path_statement opc =
     cbind cLex (\<lambda>_. cbind (Expect TK_IDENTIFIER) (\<lambda>v. cbind (cget (\<lambda>s. cchars (env s) (rawval v))) (\<lambda>str.
     cbind (cget remaining) (\<lambda>n. cbind (path_rest n (take 1023 str)) (\<lambda>path.
       cseq [load_constant (CreateString path), cbind pop_target (\<lambda>t. emit opc t 0 0 0)])))))"

definition ImportStatement :: "unit comp" where "ImportStatement = path_statement OP_IMPORT"
definition NamespaceStatement :: "unit comp" where "NamespaceStatement = path_statement OP_NAMESPACE"

text \<open>\<open>if(v.size()) v.top() += d\<close>.\<close>

definition add_top :: "int \<Rightarrow> int list \<Rightarrow> int list" where
  "add_top d ts = (if ts = [] then ts else butlast ts @ [last ts + d])"

definition add_traps :: "int \<Rightarrow> unit comp" where
  "add_traps d = fs_upd (\<lambda>c. c\<lparr>traps := traps c + d, breaktargets := add_top d (breaktargets c), continuetargets := add_top d (continuetargets c)\<rparr>)"

definition TryCatchStatement :: "caller \<Rightarrow> unit comp" where
  "TryCatchStatement call =
     cbind (cseq [cLex, emit OP_PUSHTRAP 0 0 0 0, add_traps 1]) (\<lambda>_. cbind current_pos (\<lambda>trappos.
     cbind (cbind BEGIN_SCOPE (\<lambda>old. cseq [cvoid (call (NStatement True)), END_SCOPE old])) (\<lambda>_.
     cbind (cseq [add_traps (-1), emit OP_POPTRAP 1 0 0 0, emit OP_JMP 0 0 0 0]) (\<lambda>_. cbind current_pos (\<lambda>jmppos.
     cbind (cseq [set_param trappos 1 (jmppos - trappos), expect TK_CATCH, expect (tk CHR ''('')]) (\<lambda>_.
     cbind (Expect TK_IDENTIFIER) (\<lambda>exid. cbind (expect (tk CHR '')'')) (\<lambda>_.
     cbind BEGIN_SCOPE (\<lambda>old. cbind (push_local exid (-1) (-1)) (\<lambda>ex_target.
       cseq [set_param trappos 0 ex_target, cvoid (call (NStatement True)),
             cbind current_pos (\<lambda>here. set_params jmppos 0 (here - jmppos) 0 0), END_SCOPE old]))))))))))"

definition ReturnStatement :: "caller \<Rightarrow> GSOpcode \<Rightarrow> unit comp" where
  "ReturnStatement call opc =
     (let pop_traps = cbind (fs_get traps) (\<lambda>n. cwhen (opc = OP_RETURN \<and> 0 < n) (emit OP_POPTRAP n 0 0 0)) in
      cseq [cwhen (opc = OP_YIELD) (fs_mod (\<lambda>fs. fs\<lparr>bgenerator := True\<rparr>)), cLex,
        cbind (cget IsEndOfStatement) (\<lambda>b.
          if \<not> b then
            cbind current_pos (\<lambda>here. cbind (call NCommaExpr) (\<lambda>_.
              cseq [pop_traps, fs_mod (\<lambda>fs. fs\<lparr>returnexp := here + 1\<rparr>),
                    cbind pop_target (\<lambda>r. cbind stack_size (\<lambda>n. emit opc 1 r n 0))]))
          else cseq [pop_traps, fs_mod (\<lambda>fs. fs\<lparr>returnexp := -1\<rparr>), cbind stack_size (\<lambda>n. emit opc 0xFF 0 n 0)])])"

text \<open>\<open>break\<close> and \<open>continue\<close>.\<close>

definition jump_out :: "string \<Rightarrow> int list \<Rightarrow> (int \<Rightarrow> unit comp) \<Rightarrow> unit comp" where
  "jump_out name targets record_jump =
     (if targets = [] then cerror ([CHR 0x27] @ name @ [CHR 0x27] @ '' has to be in a loop block'')
      else cseq [cwhen (0 < last targets) (emit OP_POPTRAP (last targets) 0 0 0), RESOLVE_OUTERS,
                 emit OP_JMP 0 (-1234) 0 0, cbind current_pos record_jump, cLex])"

definition BreakStatement :: "unit comp" where
  "BreakStatement = cbind (fs_get breaktargets) (\<lambda>ts. jump_out ''break'' ts (\<lambda>p. fs_upd (\<lambda>c. c\<lparr>unresolvedbreaks := unresolvedbreaks c @ [p]\<rparr>)))"

definition ContinueStatement :: "unit comp" where
  "ContinueStatement =
     cbind (fs_get continuetargets) (\<lambda>ts. jump_out ''continue'' ts (\<lambda>p. fs_upd (\<lambda>c. c\<lparr>unresolvedcontinues := unresolvedcontinues c @ [p]\<rparr>)))"

definition PubStatement :: "caller \<Rightarrow> unit comp" where
  "PubStatement call =
     cbind cLex (\<lambda>_. on_token (\<lambda>t.
       if t = TK_FUNCTION then FunctionStatement call True
       else if t = TK_CLASS then ClassStatement call True
       else if t = TK_IDENTIFIER then
         cbind (Expect TK_IDENTIFIER) (\<lambda>name.
           cseq [declaration_target True, load_constant (creturn name), expect (tk CHR ''=''), cvoid (call NExpression),
                 EmitDerefOp OP_NEWSLOT, cvoid pop_target])
       else cerror (''expected '' @ [CHR 0x27] @ ''func'' @ [CHR 0x27] @ '', '' @ [CHR 0x27] @ ''class'' @ [CHR 0x27] @ '', or identifier after ''
                    @ [CHR 0x27] @ ''pub'' @ [CHR 0x27])))"

definition ConstStatement :: "unit comp" where
  "ConstStatement =
     cbind cLex (\<lambda>_. cbind (Expect TK_IDENTIFIER) (\<lambda>name. cbind (expect (tk CHR ''='')) (\<lambda>_. cbind ExpectScalar (\<lambda>val.
       cseq [OptionalSemicolon, define_constant name val]))))"

definition Statement :: "caller \<Rightarrow> bool \<Rightarrow> int comp" where
  "Statement call closeframe =
     cbind (cseq [add_line_infos (\<lambda>s. currentline (lx s)) False, on_token (\<lambda>t.
       if t = tk CHR '';'' then cLex
       else if t = TK_IF then IfStatement call
       else if t = TK_WHILE then WhileStatement call
       else if t = TK_DO then DoWhileStatement call
       else if t = TK_FOR then ForStatement call
       else if t = TK_FOREACH then ForEachStatement call
       else if t = TK_SWITCH then SwitchStatement call
       else if t = TK_LOCAL then LocalDeclStatement call
       else if t = TK_RETURN then ReturnStatement call OP_RETURN
       else if t = TK_YIELD then ReturnStatement call OP_YIELD
       else if t = TK_BREAK then BreakStatement
       else if t = TK_CONTINUE then ContinueStatement
       else if t = TK_FUNCTION then FunctionStatement call False
       else if t = TK_CLASS then ClassStatement call False
       else if t = TK_ENUM then EnumStatement
       else if t = TK_IMPORT then ImportStatement
       else if t = TK_NAMESPACE then NamespaceStatement
       else if t = TK_PUB then PubStatement call
       else if t = tk CHR ''{'' then block call closeframe
       else if t = TK_TRY then TryCatchStatement call
       else if t = TK_THROW then cseq [cLex, cvoid (call NCommaExpr), cbind pop_target (\<lambda>r. emit OP_THROW r 0 0 0)]
       else if t = TK_CONST then ConstStatement
       else cseq [cvoid (call NCommaExpr), discard_target]), snooze]) (\<lambda>_. creturn 0)"

section \<open>The compiler\<close>

definition dispatch :: "caller \<Rightarrow> nonterm \<Rightarrow> int comp" where
  "dispatch call n =
     (case n of
        NStatement b \<Rightarrow> Statement call b
      | NStatements \<Rightarrow> Statements call
      | NCommaExpr \<Rightarrow> CommaExpr call
      | NCommaRest \<Rightarrow> CommaRest call
      | NExpression \<Rightarrow> Expression call
      | NLogicalOrExp \<Rightarrow> LogicalOrExp call
      | NLogicalAndExp \<Rightarrow> LogicalAndExp call
      | NBitwiseOrExp \<Rightarrow> BitwiseOrExp call
      | NBitwiseOrRest \<Rightarrow> BitwiseOrRest call
      | NBitwiseXorExp \<Rightarrow> BitwiseXorExp call
      | NBitwiseXorRest \<Rightarrow> BitwiseXorRest call
      | NBitwiseAndExp \<Rightarrow> BitwiseAndExp call
      | NBitwiseAndRest \<Rightarrow> BitwiseAndRest call
      | NEqExp \<Rightarrow> EqExp call
      | NEqRest \<Rightarrow> EqRest call
      | NCompExp \<Rightarrow> CompExp call
      | NCompRest \<Rightarrow> CompRest call
      | NShiftExp \<Rightarrow> ShiftExp call
      | NShiftRest \<Rightarrow> ShiftRest call
      | NPlusExp \<Rightarrow> PlusExp call
      | NPlusRest \<Rightarrow> PlusRest call
      | NMultExp \<Rightarrow> MultExp call
      | NMultRest \<Rightarrow> MultRest call
      | NPrefixedExpr \<Rightarrow> PrefixedExpr call
      | NPrefixedRest \<Rightarrow> PrefixedRest call
      | NFactor \<Rightarrow> Factor call
      | NFunctionCallArgs b \<Rightarrow> FunctionCallArgs call b
      | NCallArgs k \<Rightarrow> CallArgs call k
      | NCallInit r \<Rightarrow> CallInit call r
      | NArrayItems k \<Rightarrow> ArrayItems call k
      | NParseTableOrClass a b \<Rightarrow> ParseTableOrClass call a b
      | NSlotItems a b k \<Rightarrow> SlotItems call a b k
      | NLocalDecls \<Rightarrow> LocalDecls call
      | NCases e b j k \<Rightarrow> Cases call e b j k
      | NParameters d i \<Rightarrow> Parameters call d i)"

primrec parse :: "nat \<Rightarrow> caller" where
  "parse 0 = (\<lambda>n. cfuel)"
| "parse (Suc depth) = dispatch (parse depth)"

fun main_statements :: "nat \<Rightarrow> caller \<Rightarrow> unit comp" where
  "main_statements 0 call = cfuel"
| "main_statements (Suc n) call = on_token (\<lambda>t.
     if t \<le> 0 then creturn ()
     else cbind (cseq [cvoid (call (NStatement True)), statement_end]) (\<lambda>_. main_statements n call))"

text \<open>\<open>Compile\<close>: the main function has the parameters \<open>this\<close> and \<open>vargv\<close>.  The return type of its prototype is never
  set; \<open>junk\<close> stands for it.\<close>

definition main_function :: "cstate \<Rightarrow> fctx" where
  "main_function s =
     (let c = new_fctx False (csourcename (env s)); str = (\<lambda>x. OString (cintern (env s) x)) in
      c\<lparr>cfs := (AddParameter (str ''vargv'') (AddParameter (str ''this'') ((cfs c)\<lparr>fname := str ''main''\<rparr>)))\<lparr>varparams := True\<rparr>\<rparr>)"

definition compile_main :: "nat \<Rightarrow> gsint \<Rightarrow> funcproto comp" where
  "compile_main depth junk =
     cbind (cget main_function) (\<lambda>c. cbind (cput (\<lambda>s. s\<lparr>funcs := [c]\<rparr>)) (\<lambda>_. cbind stack_size (\<lambda>stacksize1.
     cbind cLex (\<lambda>_. cbind (cget remaining) (\<lambda>n.
     cbind (cseq [main_statements n (parse depth), set_stack_size stacksize1, add_line_infos (\<lambda>s. currentline (lx s)) True,
       emit OP_RETURN 0xFF 0 0 0, set_stack_size 0]) (\<lambda>_. fs_get (BuildProto junk)))))))"

text \<open>The state before \<open>Compile\<close>, from the characters that the reader delivers and the constants of the virtual
  machine; a character that the constructor refuses jumps to a handler that is not set yet.\<close>

definition initial_state :: "compenv \<Rightarrow> lexer \<Rightarrow> table \<Rightarrow> (ptr \<rightharpoonup> table) \<Rightarrow> cstate" where
  "initial_state E l t ts =
     \<lparr>env = E, lx = l, token = 0, funcs = [], pending = [], es = fresh_es, scope = \<lparr>sc_outers = 0, sc_stacksize = 0\<rparr>,
      constants = t, ctables = ts, nalloc = 0\<rparr>"

definition Compile :: "nat \<Rightarrow> gsint \<Rightarrow> compenv \<Rightarrow> int list \<Rightarrow> table \<Rightarrow> (ptr \<rightharpoonup> table) \<Rightarrow> funcproto cres" where
  "Compile depth junk E source t ts =
     (case Init source of Inl e \<Rightarrow> Undef | Inr l \<Rightarrow> compile_main depth junk (initial_state E l t ts))"

end
