(* ===== verification/GS_CompilerRuns.thy ===== *)
theory GS_CompilerRuns
  imports GS_Compiler
begin

text \<open>
  The compiler ends.  \<open>mu\<close> is what is left of the source, the current token included; \<open>runs m k t Q\<close> says that
  \<open>m\<close> does not run out of fuel where \<open>k\<close> is left and the token is \<open>t\<close>, and that \<open>Q\<close> holds of its result, of what is
  left then and of the token.  The rules are applied along the definitions of GS_Compiler.
\<close>

section \<open>A calculus of runs\<close>

definition mu :: "cstate \<Rightarrow> nat" where
  "mu s = 2 * rem (lx s) + (if token s \<noteq> 0 then 1 else 0)"

definition runs :: "'a comp \<Rightarrow> nat \<Rightarrow> int \<Rightarrow> ('a \<Rightarrow> nat \<Rightarrow> int \<Rightarrow> bool) \<Rightarrow> bool" where
  "runs m k t Q \<longleftrightarrow>
     (\<forall>s. mu s = k \<and> token s = t \<longrightarrow>
        (case m s of Ok x s' \<Rightarrow> Q x (mu s') (token s') | OutOfFuel \<Rightarrow> False | _ \<Rightarrow> True))"

lemma runs_mono: "runs m k t P \<Longrightarrow> (\<And>x k' t'. P x k' t' \<Longrightarrow> Q x k' t') \<Longrightarrow> runs m k t Q"
  by (fastforce simp: runs_def split: cres.splits)

lemma runs_bind: "runs m k t (\<lambda>x k' t'. runs (f x) k' t' Q) \<Longrightarrow> runs (cbind m f) k t Q"
  by (fastforce simp: runs_def cbind_def split: cres.splits)

lemma runs_return: "Q x k t \<Longrightarrow> runs (creturn x) k t Q"
  by (simp add: runs_def creturn_def)

lemma runs_error: "runs (cerror e) k t Q"
  and runs_undef: "runs cundef k t Q"
  by (simp_all add: runs_def cerror_def cundef_def)

lemma runs_on_token: "runs (f t) k t Q \<Longrightarrow> runs (on_token f) k t Q"
  by (simp add: runs_def on_token_def)

lemma runs_remaining: "(\<And>n. k < n \<Longrightarrow> Q n k t) \<Longrightarrow> runs (cget remaining) k t Q"
  by (auto simp: runs_def cget_def mu_def)

lemma runs_seq:
  "Q () k t \<Longrightarrow> runs (cseq []) k t Q"
  "runs m k t Q \<Longrightarrow> runs (cseq [m]) k t Q"
  "runs m k t (\<lambda>_ k' t'. runs (cseq (m' # ms)) k' t' Q) \<Longrightarrow> runs (cseq (m # m' # ms)) k t Q"
  by (auto intro: runs_bind runs_return)

lemma runs_void: "runs m k t (\<lambda>_. Q ()) \<Longrightarrow> runs (cvoid m) k t Q"
  unfolding cvoid_def by (rule runs_bind) (auto elim!: runs_mono intro: runs_return)

lemma runs_when: "(b \<Longrightarrow> runs m k t Q) \<Longrightarrow> (\<not> b \<Longrightarrow> Q () k t) \<Longrightarrow> runs (cwhen b m) k t Q"
  by (simp add: cwhen_def runs_return)

lemma runs_if: "(b \<Longrightarrow> runs m k t Q) \<Longrightarrow> (\<not> b \<Longrightarrow> runs m' k t Q) \<Longrightarrow> runs (if b then m else m') k t Q"
  by simp

lemma runs_prod: "(\<And>a b. p = (a, b) \<Longrightarrow> runs (f a b) k t Q) \<Longrightarrow> runs (case p of (a, b) \<Rightarrow> f a b) k t Q"
  by (cases p) simp

lemma runs_let: "(\<And>x. x = a \<Longrightarrow> runs (f x) k t Q) \<Longrightarrow> runs (let x = a in f x) k t Q"
  by simp

lemma runs_exptype:
  "runs e1 k t Q \<Longrightarrow> runs e2 k t Q \<Longrightarrow> runs e3 k t Q \<Longrightarrow> runs e4 k t Q \<Longrightarrow> runs e5 k t Q
    \<Longrightarrow> runs (case et of EXPR \<Rightarrow> e1 | OBJECT \<Rightarrow> e2 | BASE \<Rightarrow> e3 | LOCAL \<Rightarrow> e4 | OUTER \<Rightarrow> e5) k t Q"
  by (cases et) auto

section \<open>Operations that do not read\<close>

definition quiet :: "'a comp \<Rightarrow> bool" where
  "quiet m \<longleftrightarrow> (\<forall>k t. runs m k t (\<lambda>_ k' t'. k' = k \<and> t' = t))"

lemma runs_quiet: "quiet m \<Longrightarrow> (\<And>x. Q x k t) \<Longrightarrow> runs m k t Q"
  unfolding quiet_def by (rule runs_mono[of m k t "\<lambda>_ k' t'. k' = k \<and> t' = t"]) auto

named_theorems quiet_intros \<open>operations that do not read the source\<close>

lemma quiet_bind [quiet_intros]: "quiet m \<Longrightarrow> (\<And>x. quiet (f x)) \<Longrightarrow> quiet (cbind m f)"
  unfolding quiet_def[of "cbind m f"] by (intro allI runs_bind runs_quiet) auto

lemma quiet_state: "(\<And>s. case m s of Ok x s' \<Rightarrow> lx s' = lx s \<and> token s' = token s | OutOfFuel \<Rightarrow> False | _ \<Rightarrow> True) \<Longrightarrow> quiet m"
  by (fastforce simp: quiet_def runs_def mu_def split: cres.splits)

lemma quiet_basic [quiet_intros]:
  "quiet (creturn x)" "quiet (cerror e)" "quiet cundef" "quiet (cget f)" "quiet (fs_get g)" "quiet (fs_upd h)" "quiet (fs_try j)"
  "quiet (with_pending p)" "quiet (outer_variable name)" "quiet (IsConstant name)" "quiet enter_child" "quiet (leave_child r)"
  "quiet (table_put v w tab)"
  by (rule quiet_state, auto simp: creturn_def cerror_def cundef_def cget_def fs_get_def fs_upd_def fs_try_def with_pending_def
      outer_variable_def IsConstant_def enter_child_def leave_child_def table_put_def split: list.splits option.splits sum.splits prod.splits)+

lemma quiet_put [quiet_intros]: "(\<And>s. lx (f s) = lx s \<and> token (f s) = token s) \<Longrightarrow> quiet (cput f)"
  by (rule quiet_state) (simp add: cput_def)

lemma quiet_control [quiet_intros]:
  "quiet m \<Longrightarrow> quiet (cvoid m)" "quiet m1 \<Longrightarrow> quiet (cwhen b m1)" "(b \<Longrightarrow> quiet m) \<Longrightarrow> (\<not> b \<Longrightarrow> quiet m') \<Longrightarrow> quiet (if b then m else m')"
  "(\<And>t. quiet (f t)) \<Longrightarrow> quiet (on_token f)"
  by (auto simp: cvoid_def cwhen_def intro!: quiet_bind quiet_basic) (simp add: quiet_def runs_on_token)

lemma quiet_seq [quiet_intros]: "\<forall>m \<in> set ms. quiet m \<Longrightarrow> quiet (cseq ms)"
  by (induction ms rule: cseq.induct) (auto intro: quiet_intros)

lemma quiet_cases [quiet_intros]:
  "quiet m1 \<Longrightarrow> (\<And>x. quiet (f x)) \<Longrightarrow> quiet (case opt of None \<Rightarrow> m1 | Some x \<Rightarrow> f x)"
  "(\<And>a b. quiet (g a b)) \<Longrightarrow> quiet (case p of (a, b) \<Rightarrow> g a b)"
  "quiet e1 \<Longrightarrow> quiet e2 \<Longrightarrow> quiet e3 \<Longrightarrow> quiet e4 \<Longrightarrow> quiet e5 \<Longrightarrow>
     quiet (case et of EXPR \<Rightarrow> e1 | OBJECT \<Rightarrow> e2 | BASE \<Rightarrow> e3 | LOCAL \<Rightarrow> e4 | OUTER \<Rightarrow> e5)"
  by (auto split: option.split prod.split exptype.split)

lemma quiet_emission [quiet_intros]:
  "quiet (emit opc x0 x1 x2 x3)" "quiet push_target" "quiet (push_reg n)" "quiet pop_target" "quiet top_target" "quiet discard_target"
  "quiet (set_param pos arg val)" "quiet (set_params pos x0 x1 x2 x3)" "quiet (CreateString str)" "quiet (push_local name typ k)"
  "quiet (set_stack_size n)" "quiet stack_size"
  unfolding emit_def push_target_def push_reg_def pop_target_def top_target_def discard_target_def set_param_def set_params_def
    CreateString_def push_local_def set_stack_size_def stack_size_def
  by (intro quiet_intros)+

lemma quiet_emission2 [quiet_intros]:
  "quiet (emit_new opc x1 x2 x3)" "quiet (get_constant v)" "quiet (EmitDerefOp opc)" "quiet (Emit2ArgsOP opc x3)"
  "quiet MoveIfCurrentTargetIsLocal" "quiet BEGIN_SCOPE" "quiet RESOLVE_OUTERS" "quiet (END_SCOPE_NO_CLOSE old)" "quiet (END_SCOPE old)"
  "quiet BEGIN_BREAKBLE_BLOCK" "quiet pop_breaktarget" "quiet pop_continuetarget" "quiet (add_traps d)" "quiet (emit_closure b)"
  "quiet (token_value t)" "quiet (typecheck_local dst)" "quiet (add_line_infos line force)" "quiet (pending_parameter v)"
  "quiet (cut_instructions a n)" "quiet (define_constant v w)" "quiet (type_name t)" "quiet (identifier_of t)"
  "quiet (EmitLoadConstInt i x1)" "quiet (EmitLoadConstFloat f x1)"
  unfolding emit_new_def get_constant_def EmitDerefOp_def Emit2ArgsOP_def MoveIfCurrentTargetIsLocal_def BEGIN_SCOPE_def RESOLVE_OUTERS_def
    END_SCOPE_NO_CLOSE_def END_SCOPE_def BEGIN_BREAKBLE_BLOCK_def pop_breaktarget_def pop_continuetarget_def add_traps_def
    emit_closure_def token_value_def typecheck_local_def add_line_infos_def pending_parameter_def cut_instructions_def define_constant_def
    type_name_def identifier_of_def EmitLoadConstInt_def EmitLoadConstFloat_def
  by (intro quiet_intros ballI; auto intro!: quiet_intros)+

lemma quiet_loops [quiet_intros]: "quiet (ResolveBreaks n)" "quiet (ResolveContinues n pos)" "quiet (pop_times n)"
  by (induction n) (auto intro!: quiet_intros)

lemma quiet_emission3 [quiet_intros]:
  "quiet (END_BREAKBLE_BLOCK n target)" "quiet (EmitCompoundArith tok et pos)" "quiet access_slot" "quiet (postfix_incdec diff)"
  "quiet prepare_call" "quiet (match_generics gs)" "quiet (load_named_constant v)"
  unfolding END_BREAKBLE_BLOCK_def EmitCompoundArith_def access_slot_def postfix_incdec_def prepare_call_def match_generics_def load_named_constant_def
  by (intro quiet_intros ballI; auto intro!: quiet_intros split: gsobj.split)+

lemmas runs_quietly = quiet_emission[THEN runs_quiet] quiet_emission2[THEN runs_quiet] quiet_loops[THEN runs_quiet]
  quiet_emission3[THEN runs_quiet] quiet_basic(4-13)[THEN runs_quiet]

lemma quiet_puts [quiet_intros]:
  "quiet (cput (\<lambda>s. s\<lparr>es := f s\<rparr>))" "quiet (cput (\<lambda>s. s\<lparr>pending := g s\<rparr>))" "quiet (cput (\<lambda>s. s\<lparr>nalloc := h s\<rparr>))"
  "quiet (cput (\<lambda>s. s\<lparr>ctables := i s\<rparr>))" "quiet (cput (\<lambda>s. s\<lparr>funcs := j s\<rparr>))"
  by (rule quiet_put, simp)+

lemmas runs_control = runs_bind runs_return runs_error runs_undef runs_remaining runs_on_token runs_seq runs_void runs_when runs_if
  runs_prod runs_let quiet_puts[THEN runs_quiet]

section \<open>Reading\<close>

lemma runs_cLex: "(\<And>k' t'. k' \<le> k \<Longrightarrow> (t \<noteq> 0 \<Longrightarrow> k' < k) \<Longrightarrow> Q () k' t') \<Longrightarrow> runs cLex k t Q"
proof -
  assume Q: "\<And>k' t'. k' \<le> k \<Longrightarrow> (t \<noteq> 0 \<Longrightarrow> k' < k) \<Longrightarrow> Q () k' t'"
  have "Q () (mu s') (token s')" if "cLex s = Ok () s'" "mu s = k" "token s = t" for s s'
  proof -
    from that(1) obtain l u where l: "Lex (cstrtod (env s)) (lx s) = Inr (l, u)" "s' = s\<lparr>lx := l, token := u\<rparr>"
      by (auto simp: cLex_def split: sum.splits prod.splits)
    from Lex_progress[OF l(1)] that(2,3) show ?thesis by (intro Q) (auto simp: l(2) mu_def split: if_splits)
  qed
  moreover have "cLex s \<noteq> OutOfFuel" for s by (simp add: cLex_def split: sum.split prod.split)
  ultimately show ?thesis by (simp add: runs_def split: cres.split)
qed

lemma runs_Expect:
  assumes "tok \<noteq> 0" "\<And>x k' t'. k' < k \<Longrightarrow> Q x k' t'"
  shows "runs (Expect tok) k t Q"
  unfolding Expect_def
  by (intro runs_control runs_quietly runs_cLex assms(2)) (use assms(1) in auto)

lemmas runs_reading = runs_cLex runs_Expect

lemma quiet_load_constant [quiet_intros]: "quiet m \<Longrightarrow> quiet (load_constant m)"
  unfolding load_constant_def by (intro quiet_intros)

lemma quiet_declaration_target [quiet_intros]: "quiet (declaration_target p)"
  unfolding declaration_target_def by (auto intro!: quiet_intros)

lemmas runs_quietly2 = quiet_load_constant[OF quiet_basic(1), THEN runs_quiet] quiet_load_constant[OF quiet_emission(9), THEN runs_quiet]
  quiet_load_constant[OF quiet_basic(4), THEN runs_quiet] quiet_declaration_target[THEN runs_quiet]

lemma runs_load_Expect:
  assumes "tok \<noteq> 0" "\<And>k' t'. k' < k \<Longrightarrow> Q () k' t'"
  shows "runs (load_constant (Expect tok)) k t Q"
  unfolding load_constant_def
  by (intro runs_control runs_quietly runs_Expect) (auto intro!: assms)

text \<open>The loops that read tokens only; the fuel is more than what is left.\<close>

lemma runs_generic_args: "k < n \<Longrightarrow> (\<And>k' t'. k' < k \<Longrightarrow> Q () k' t') \<Longrightarrow> runs (generic_args n) k t Q"
proof (induction n arbitrary: k t Q)
  case (Suc n)
  show ?case
    unfolding generic_args.simps
    by (intro runs_control runs_quietly runs_cLex Suc.IH Suc.prems(2)) (use Suc.prems(1) in auto)
qed simp

lemma runs_generic_names: "k < n \<Longrightarrow> (\<And>x k' t'. k' < k \<Longrightarrow> Q x k' t') \<Longrightarrow> runs (generic_names n) k t Q"
proof (induction n arbitrary: k t Q)
  case (Suc n)
  show ?case
    unfolding generic_names.simps
    by (intro runs_control runs_quietly runs_Expect runs_cLex Suc.IH Suc.prems(2)) (use Suc.prems(1) in auto)
qed simp

lemma runs_qualified_name: "k < n \<Longrightarrow> (\<And>x k' t'. k' \<le> k \<Longrightarrow> Q x k' t') \<Longrightarrow> runs (qualified_name n name) k t Q"
proof (induction n arbitrary: k t Q name)
  case (Suc n)
  show ?case
    unfolding qualified_name.simps
    by (intro runs_control runs_quietly runs_quietly2 runs_Expect runs_cLex Suc.IH Suc.prems(2)) (use Suc.prems(1) in auto)
qed simp

lemma runs_path_rest: "k < n \<Longrightarrow> (\<And>x k' t'. k' \<le> k \<Longrightarrow> Q x k' t') \<Longrightarrow> runs (path_rest n buf) k t Q"
proof (induction n arbitrary: k t Q buf)
  case (Suc n)
  show ?case
    unfolding path_rest.simps
    by (intro runs_control runs_quietly runs_Expect runs_cLex Suc.IH Suc.prems(2)) (use Suc.prems(1) in auto)
qed simp

lemma runs_ExpectScalar:
  assumes "\<And>x k' t'. k' < k \<Longrightarrow> Q x k' t'"
  shows "runs ExpectScalar k t Q"
  unfolding ExpectScalar_def
  by (intro runs_control runs_quietly runs_cLex assms) auto

lemma runs_enum_items: "k < n \<Longrightarrow> (\<And>x k' t'. k' \<le> k \<Longrightarrow> Q x k' t') \<Longrightarrow> runs (enum_items n j tab) k t Q"
proof (induction n arbitrary: k t Q j tab)
  case (Suc n)
  show ?case
    unfolding enum_items.simps
    by (intro runs_control runs_quietly runs_ExpectScalar runs_Expect runs_cLex Suc.IH Suc.prems(2)) (use Suc.prems(1) in auto)
qed simp

lemma runs_array_suffix: "(\<And>x k' t'. k' \<le> k \<Longrightarrow> Q x k' t') \<Longrightarrow> runs (array_suffix msg) k t Q"
  unfolding array_suffix_def by (intro runs_control runs_quietly runs_Expect runs_cLex) auto

lemma runs_declared_type: "(\<And>x k' t'. k' \<le> k \<Longrightarrow> Q x k' t') \<Longrightarrow> runs declared_type k t Q"
  unfolding declared_type_def by (intro runs_control runs_array_suffix runs_cLex) auto

lemma runs_return_type: "(\<And>x k' t'. k' \<le> k \<Longrightarrow> Q x k' t') \<Longrightarrow> runs return_type k t Q"
  unfolding return_type_def by (intro runs_control runs_array_suffix runs_cLex) auto

lemma runs_generic_parameters: "(\<And>x k' t'. k' \<le> k \<Longrightarrow> Q x k' t') \<Longrightarrow> runs generic_parameters k t Q"
  unfolding generic_parameters_def
  by (intro runs_control runs_Expect runs_cLex runs_generic_names) auto

lemma runs_identifier_generics: "(\<And>k' t'. k' \<le> k \<Longrightarrow> Q () k' t') \<Longrightarrow> runs identifier_generics k t Q"
  unfolding identifier_generics_def
  by (intro runs_control runs_quietly runs_cLex runs_generic_args) auto

lemma runs_declared_parameter: "(\<And>k' t'. k' < k \<Longrightarrow> Q () k' t') \<Longrightarrow> runs (declared_parameter i) k t Q"
  unfolding declared_parameter_def
  by (intro runs_control runs_quietly runs_Expect runs_cLex runs_array_suffix) auto

lemma runs_statement_end:
  assumes "\<And>k' t'. k' \<le> k \<Longrightarrow> Q () k' t'"
  shows "runs statement_end k t Q"
proof -
  have "runs cLex k t Q" "Q () k t" using assms by (auto intro: runs_cLex)
  then show ?thesis by (auto simp: runs_def statement_end_def OptionalSemicolon_def cerror_def)
qed

lemma runs_jump_out:
  assumes "\<And>p. quiet (m p)" "t \<noteq> 0" "\<And>k' t'. k' < k \<Longrightarrow> Q () k' t'"
  shows "runs (jump_out name ts m) k t Q"
  unfolding jump_out_def
  by (intro runs_control runs_quietly runs_quiet[OF assms(1)] runs_cLex) (use assms(2) in \<open>auto intro!: assms(3)\<close>)

section \<open>Calls\<close>

text \<open>Calls that do not read anything before another one go down in \<open>rank\<close>.\<close>

fun rank :: "nonterm \<Rightarrow> nat" where
  "rank (NStatement b) = 30"
| "rank NStatements = 31"
| "rank NCommaExpr = 29"
| "rank NExpression = 28"
| "rank NLogicalOrExp = 27"
| "rank NLogicalAndExp = 26"
| "rank NBitwiseOrExp = 25"
| "rank NBitwiseXorExp = 24"
| "rank NBitwiseAndExp = 23"
| "rank NEqExp = 22"
| "rank NCompExp = 21"
| "rank NShiftExp = 20"
| "rank NPlusExp = 19"
| "rank NMultExp = 18"
| "rank NPrefixedExpr = 17"
| "rank NFactor = 16"
| "rank (NCallArgs k) = 32"
| "rank (NFunctionCallArgs b) = 33"
| "rank (NArrayItems k) = 32"
| "rank (NSlotItems a b k) = 33"
| "rank (NParseTableOrClass a b) = 34"
| "rank n = 15"

fun reads_something :: "nonterm \<Rightarrow> bool" where
  "reads_something NStatements = False"
| "reads_something NCommaRest = False"
| "reads_something NBitwiseOrRest = False"
| "reads_something NBitwiseXorRest = False"
| "reads_something NBitwiseAndRest = False"
| "reads_something NEqRest = False"
| "reads_something NCompRest = False"
| "reads_something NShiftRest = False"
| "reads_something NPlusRest = False"
| "reads_something NMultRest = False"
| "reads_something NPrefixedRest = False"
| "reads_something NFactor = False"
| "reads_something (NFunctionCallArgs b) = False"
| "reads_something (NCallArgs k) = False"
| "reads_something (NCallInit k) = False"
| "reads_something (NArrayItems k) = False"
| "reads_something (NParseTableOrClass a b) = False"
| "reads_something (NSlotItems a b k) = False"
| "reads_something (NCases e b j k) = False"
| "reads_something (NParameters d i) = False"
| "reads_something n = True"

definition post :: "nonterm \<Rightarrow> nat \<Rightarrow> int \<Rightarrow> nat \<Rightarrow> int \<Rightarrow> bool" where
  "post n k t k' t' \<longleftrightarrow> k' \<le> k \<and> (reads_something n \<longrightarrow> k' < k)
     \<and> (n = NFactor \<longrightarrow> k' < k \<or> t' = 46) \<and> (n = NPrefixedRest \<and> t = 46 \<longrightarrow> k' < k)"

definition within :: "caller \<Rightarrow> nat \<Rightarrow> bool" where
  "within call B \<longleftrightarrow> (\<forall>n k t. 40 * k + rank n < B \<longrightarrow> runs (call n) k t (\<lambda>_. post n k t))"

lemma runs_call:
  assumes "within call B" "40 * k + rank n < B" "\<And>x k' t'. post n k t k' t' \<Longrightarrow> Q x k' t'"
  shows "runs (call n) k t Q"
  by (rule runs_mono[where P = "\<lambda>_. post n k t", OF _ assms(3)]) (use assms(1,2) in \<open>simp_all add: within_def\<close>)

lemma post_simps:
  "reads_something n \<Longrightarrow> n \<noteq> NFactor \<Longrightarrow> n \<noteq> NPrefixedRest \<Longrightarrow> post n k t k' t' \<longleftrightarrow> k' < k"
  "\<not> reads_something n \<Longrightarrow> n \<noteq> NFactor \<Longrightarrow> n \<noteq> NPrefixedRest \<Longrightarrow> post n k t k' t' \<longleftrightarrow> k' \<le> k"
  by (auto simp: post_def)

text \<open>The functions that are no calls themselves.\<close>

lemma runs_INVOKE_EXP:
  "within call B \<Longrightarrow> 40 * k + rank n < B \<Longrightarrow> (\<And>k' t'. k' \<le> k \<Longrightarrow> Q () k' t') \<Longrightarrow> runs (INVOKE_EXP (cvoid (call n))) k t Q"
  unfolding INVOKE_EXP_def by (intro runs_control runs_quietly runs_call) (auto simp: post_def)

lemma runs_BIN_EXP:
  "within call B \<Longrightarrow> 40 * k \<le> B \<Longrightarrow> t \<noteq> 0 \<Longrightarrow> rank n < 40 \<Longrightarrow> (\<And>k' t'. k' < k \<Longrightarrow> Q () k' t')
    \<Longrightarrow> runs (BIN_EXP opc (cvoid (call n)) x3) k t Q"
  unfolding BIN_EXP_def by (intro runs_control runs_quietly runs_cLex runs_INVOKE_EXP) auto

lemma runs_short_circuit:
  "within call B \<Longrightarrow> 40 * k \<le> B \<Longrightarrow> t \<noteq> 0 \<Longrightarrow> rank n < 40 \<Longrightarrow> (\<And>x k' t'. k' < k \<Longrightarrow> Q x k' t')
    \<Longrightarrow> runs (short_circuit opc (cvoid (call n))) k t Q"
  unfolding short_circuit_def by (intro runs_control runs_quietly runs_cLex runs_INVOKE_EXP) auto

lemma runs_operator_rest:
  assumes "within call B" "40 * k \<le> B" "0 \<notin> fst ` set ops" "rank n < 40" "rank r < 40" "\<not> reads_something r" "r \<noteq> NPrefixedRest" "r \<noteq> NFactor"
  shows "runs (operator_rest ops call n r) k t (\<lambda>_ k' t'. post r k t k' t')"
proof (cases "map_of ops t")
  case None
  then show ?thesis unfolding operator_rest_def by (intro runs_on_token) (simp add: runs_return post_simps assms)
next
  case (Some p)
  obtain opc x3 where p: "p = (opc, x3)" by (cases p)
  have t: "t \<noteq> 0" using map_of_SomeD[OF Some] assms(3) by force
  have "runs (cbind (BIN_EXP opc (cvoid (call n)) x3) (\<lambda>_. call r)) k t (\<lambda>_ k' t'. post r k t k' t')"
    by (intro runs_control runs_BIN_EXP[OF assms(1)] runs_call[OF assms(1)] t assms) (use assms in \<open>auto simp: post_simps\<close>)
  then show ?thesis unfolding operator_rest_def by (intro runs_on_token) (simp add: Some p)
qed

lemma runs_UnaryOP:
  "within call B \<Longrightarrow> 40 * k + 17 < B \<Longrightarrow> (\<And>k' t'. k' < k \<Longrightarrow> Q () k' t') \<Longrightarrow> runs (UnaryOP call opc) k t Q"
  unfolding UnaryOP_def by (intro runs_control runs_quietly runs_call) (auto simp: post_simps)

lemma runs_DeleteExpr:
  "within call B \<Longrightarrow> 40 * k \<le> B \<Longrightarrow> t \<noteq> 0 \<Longrightarrow> (\<And>k' t'. k' < k \<Longrightarrow> Q () k' t') \<Longrightarrow> runs (DeleteExpr call) k t Q"
  unfolding DeleteExpr_def by (intro runs_control runs_quietly runs_cLex runs_call) (auto simp: post_simps)

lemma runs_PrefixIncDec:
  "within call B \<Longrightarrow> 40 * k \<le> B \<Longrightarrow> t \<noteq> 0 \<Longrightarrow> (\<And>k' t'. k' < k \<Longrightarrow> Q () k' t') \<Longrightarrow> runs (PrefixIncDec call tok) k t Q"
  unfolding PrefixIncDec_def Let_def by (intro runs_control runs_exptype runs_quietly runs_cLex runs_call) (auto simp: post_simps)

lemma runs_bind_env:
  "within call B \<Longrightarrow> 40 * k \<le> B \<Longrightarrow> (\<And>x k' t'. k' \<le> k \<Longrightarrow> Q x k' t') \<Longrightarrow> runs (bind_env call) k t Q"
  unfolding bind_env_def ParseBindEnv_def by (intro runs_control runs_quietly runs_cLex runs_Expect runs_call) (auto simp: post_simps)

lemma quiet_child: "quiet enter_child" "quiet (leave_child r)"
  by (rule quiet_basic)+

lemma runs_CreateFunction:
  "within call B \<Longrightarrow> 40 * k \<le> B \<Longrightarrow> (\<And>k' t'. k' < k \<Longrightarrow> Q () k' t') \<Longrightarrow> runs (CreateFunction call name bound lam) k t Q"
  unfolding CreateFunction_def
  by (intro runs_control runs_quietly runs_cLex runs_Expect runs_generic_parameters runs_return_type runs_call) (auto simp: post_simps)

lemma runs_FunctionExp:
  "within call B \<Longrightarrow> 40 * k \<le> B \<Longrightarrow> (\<And>k' t'. k' < k \<Longrightarrow> Q () k' t') \<Longrightarrow> runs (FunctionExp call lam) k t Q"
  unfolding FunctionExp_def
  by (intro runs_control runs_quietly runs_cLex runs_bind_env runs_CreateFunction) auto

lemma runs_computed_slot:
  "within call B \<Longrightarrow> 40 * k \<le> B \<Longrightarrow> t \<noteq> 0 \<Longrightarrow> (\<And>k' t'. k' < k \<Longrightarrow> Q () k' t') \<Longrightarrow> runs (computed_slot call) k t Q"
  unfolding computed_slot_def by (intro runs_control runs_quietly runs_cLex runs_Expect runs_call) (auto simp: post_simps)

lemma runs_named_slot:
  "within call B \<Longrightarrow> 40 * k \<le> B \<Longrightarrow> (\<And>k' t'. k' < k \<Longrightarrow> Q () k' t') \<Longrightarrow> runs (named_slot call) k t Q"
  unfolding named_slot_def by (intro runs_control runs_quietly runs_load_Expect runs_Expect runs_call) (auto simp: post_simps)

lemma runs_method_slot:
  "within call B \<Longrightarrow> 40 * k \<le> B \<Longrightarrow> (\<And>k' t'. k' < k \<Longrightarrow> Q () k' t') \<Longrightarrow> runs (method_slot call u) k t Q"
  unfolding method_slot_def
  by (intro runs_control runs_quietly runs_quietly2 runs_cLex runs_Expect runs_bind_env runs_CreateFunction) auto

lemma runs_member_modifiers:
  "within call B \<Longrightarrow> 40 * k \<le> B \<Longrightarrow> (\<And>x k' t'. k' \<le> k \<Longrightarrow> Q x k' t') \<Longrightarrow> runs (member_modifiers call sep) k t Q"
  unfolding member_modifiers_def by (intro runs_control runs_quietly runs_cLex runs_call) (auto simp: post_simps)

lemma runs_ClassExp:
  "within call B \<Longrightarrow> 40 * k \<le> B \<Longrightarrow> (\<And>k' t'. k' < k \<Longrightarrow> Q () k' t') \<Longrightarrow> runs (ClassExp call) k t Q"
  unfolding ClassExp_def by (intro runs_control runs_quietly runs_cLex runs_Expect runs_call) (auto simp: post_simps)

lemma runs_constant_value: "(\<And>x k' t'. k' \<le> k \<Longrightarrow> Q x k' t') \<Longrightarrow> runs (constant_value name c) k t Q"
proof -
  assume Q: "\<And>x k' t'. k' \<le> k \<Longrightarrow> Q x k' t'"
  have get: "quiet (\<lambda>s. case ctables s p of None \<Rightarrow> Undef
      | Some tab \<Rightarrow> (case TableGet (chash (env s)) (cweak (env s)) tab key of None \<Rightarrow> Undef
         | Some None \<Rightarrow> cerror (''invalid constant ['' @ cchars (env s) (rawval name) @ ''.'' @ cchars (env s) (rawval key) @ '']'') s
         | Some (Some v) \<Rightarrow> Ok v s))" for p key
    by (rule quiet_state) (auto simp: cerror_def split: option.split)
  show ?thesis
    unfolding constant_value_def
    by (cases c) (auto simp del: Nat.One_nat_def intro!: runs_control runs_Expect runs_quiet[OF get] Q)
qed

lemma runs_resolve_name: "(\<And>k' t'. k' \<le> k \<Longrightarrow> Q () k' t') \<Longrightarrow> runs (resolve_name name) k t Q"
  unfolding resolve_name_def
  by (intro runs_control runs_quietly) (auto split: option.split intro!: runs_control runs_quietly runs_quietly2 runs_constant_value)

lemma runs_plain_factor:
  assumes "within call B" "40 * k \<le> B"
  shows "runs (plain_factor call t) k t (\<lambda>_ k' t'. k' < k)"
proof -
  have unary: "runs (case map_of unary_ops t of Some opc \<Rightarrow> cbind cLex (\<lambda>_. UnaryOP call opc) | None \<Rightarrow> cerror ''expression expected'') k t (\<lambda>_ k' t'. k' < k)"
  proof (cases "map_of unary_ops t")
    case (Some opc)
    then have "t \<noteq> 0" using map_of_SomeD[OF Some] by (auto simp: unary_ops_def)
    with Some assms show ?thesis by (auto intro!: runs_control runs_cLex runs_UnaryOP)
  qed (simp add: runs_error)
  show ?thesis
    unfolding plain_factor_def
    by (intro runs_control runs_quietly runs_quietly2 runs_quiet[OF quiet_load_constant] quiet_bind quiet_basic quiet_emission
          runs_cLex runs_Expect runs_FunctionExp[OF assms(1)]
          runs_ClassExp[OF assms(1)] runs_UnaryOP[OF assms(1)] runs_PrefixIncDec[OF assms(1)] runs_DeleteExpr[OF assms(1)] runs_call[OF assms(1)] unary)
       (use assms in \<open>auto simp: post_simps\<close>)
qed

lemma runs_LocalDeclStatement:
  "within call B \<Longrightarrow> 40 * k \<le> B \<Longrightarrow> t \<noteq> 0 \<Longrightarrow> (\<And>k' t'. k' < k \<Longrightarrow> Q () k' t') \<Longrightarrow> runs (LocalDeclStatement call) k t Q"
  unfolding LocalDeclStatement_def
  by (intro runs_control runs_quietly runs_cLex runs_Expect runs_bind_env runs_CreateFunction runs_call) (auto simp: post_simps)

lemma runs_block:
  "within call B \<Longrightarrow> 40 * k \<le> B \<Longrightarrow> t \<noteq> 0 \<Longrightarrow> (\<And>k' t'. k' < k \<Longrightarrow> Q () k' t') \<Longrightarrow> runs (block call c) k t Q"
  unfolding block_def by (intro runs_control runs_quietly runs_cLex runs_Expect runs_call) (auto simp: post_simps)

lemma runs_IfBlock:
  "within call B \<Longrightarrow> 40 * k + 30 < B \<Longrightarrow> (\<And>k' t'. k' < k \<Longrightarrow> Q () k' t') \<Longrightarrow> runs (IfBlock call) k t Q"
  unfolding IfBlock_def by (intro runs_control runs_block runs_statement_end runs_call) (auto simp: post_simps)

lemma runs_condition:
  "within call B \<Longrightarrow> 40 * k \<le> B \<Longrightarrow> (\<And>k' t'. k' < k \<Longrightarrow> Q () k' t') \<Longrightarrow> runs (condition call) k t Q"
  unfolding condition_def by (intro runs_control runs_quietly runs_Expect runs_call) (auto simp: post_simps)

lemmas runs_statements = runs_LocalDeclStatement runs_block runs_IfBlock runs_condition runs_cLex runs_Expect runs_call runs_bind_env
  runs_CreateFunction runs_ClassExp runs_qualified_name runs_ExpectScalar runs_enum_items runs_path_rest

lemma runs_IfStatement:
  "within call B \<Longrightarrow> 40 * k \<le> B \<Longrightarrow> t \<noteq> 0 \<Longrightarrow> (\<And>k' t'. k' < k \<Longrightarrow> Q () k' t') \<Longrightarrow> runs (IfStatement call) k t Q"
  unfolding IfStatement_def by (intro runs_control runs_quietly runs_statements) auto

lemma runs_WhileStatement:
  "within call B \<Longrightarrow> 40 * k \<le> B \<Longrightarrow> t \<noteq> 0 \<Longrightarrow> (\<And>k' t'. k' < k \<Longrightarrow> Q () k' t') \<Longrightarrow> runs (WhileStatement call) k t Q"
  unfolding WhileStatement_def by (intro runs_control runs_quietly runs_statements) (auto simp: post_simps)

lemma runs_DoWhileStatement:
  "within call B \<Longrightarrow> 40 * k \<le> B \<Longrightarrow> t \<noteq> 0 \<Longrightarrow> (\<And>k' t'. k' < k \<Longrightarrow> Q () k' t') \<Longrightarrow> runs (DoWhileStatement call) k t Q"
  unfolding DoWhileStatement_def by (intro runs_control runs_quietly runs_statements) (auto simp: post_simps)

lemma quiet_instructions: "quiet (cseq (map (\<lambda>i. fs_mod (AddInstruction i)) is))"
  by (auto intro!: quiet_intros)

lemma runs_ForStatement:
  "within call B \<Longrightarrow> 40 * k \<le> B \<Longrightarrow> t \<noteq> 0 \<Longrightarrow> (\<And>k' t'. k' < k \<Longrightarrow> Q () k' t') \<Longrightarrow> runs (ForStatement call) k t Q"
  unfolding ForStatement_def
  by (intro runs_quiet[OF quiet_instructions] runs_control runs_quietly runs_statements) (auto simp: post_simps)

lemma runs_ForEachStatement:
  "within call B \<Longrightarrow> 40 * k \<le> B \<Longrightarrow> t \<noteq> 0 \<Longrightarrow> (\<And>k' t'. k' < k \<Longrightarrow> Q () k' t') \<Longrightarrow> runs (ForEachStatement call) k t Q"
  unfolding ForEachStatement_def by (intro runs_control runs_quietly runs_statements) (auto simp: post_simps)

lemma runs_SwitchStatement:
  "within call B \<Longrightarrow> 40 * k \<le> B \<Longrightarrow> t \<noteq> 0 \<Longrightarrow> (\<And>k' t'. k' < k \<Longrightarrow> Q () k' t') \<Longrightarrow> runs (SwitchStatement call) k t Q"
  unfolding SwitchStatement_def by (intro runs_control runs_quietly runs_statements) (auto simp: post_simps)

lemma runs_FunctionStatement:
  "within call B \<Longrightarrow> 40 * k \<le> B \<Longrightarrow> t \<noteq> 0 \<Longrightarrow> (\<And>k' t'. k' < k \<Longrightarrow> Q () k' t') \<Longrightarrow> runs (FunctionStatement call p) k t Q"
  unfolding FunctionStatement_def
  by (intro runs_control runs_quietly runs_quietly2 runs_statements) auto

lemma runs_ClassStatement:
  "within call B \<Longrightarrow> 40 * k \<le> B \<Longrightarrow> t \<noteq> 0 \<Longrightarrow> (\<And>k' t'. k' < k \<Longrightarrow> Q () k' t') \<Longrightarrow> runs (ClassStatement call p) k t Q"
  unfolding ClassStatement_def by (intro runs_control runs_quietly runs_quietly2 runs_statements) auto

lemma runs_EnumStatement: "t \<noteq> 0 \<Longrightarrow> (\<And>k' t'. k' < k \<Longrightarrow> Q () k' t') \<Longrightarrow> runs EnumStatement k t Q"
  unfolding EnumStatement_def by (intro runs_control runs_quietly runs_statements) auto

lemma runs_path_statement: "t \<noteq> 0 \<Longrightarrow> (\<And>k' t'. k' < k \<Longrightarrow> Q () k' t') \<Longrightarrow> runs (path_statement opc) k t Q"
  unfolding path_statement_def by (intro runs_control runs_quietly runs_quietly2 runs_statements) auto

lemma runs_TryCatchStatement:
  "within call B \<Longrightarrow> 40 * k \<le> B \<Longrightarrow> t \<noteq> 0 \<Longrightarrow> (\<And>k' t'. k' < k \<Longrightarrow> Q () k' t') \<Longrightarrow> runs (TryCatchStatement call) k t Q"
  unfolding TryCatchStatement_def by (intro runs_control runs_quietly runs_statements) (auto simp: post_simps)

lemma runs_ReturnStatement:
  "within call B \<Longrightarrow> 40 * k \<le> B \<Longrightarrow> t \<noteq> 0 \<Longrightarrow> (\<And>k' t'. k' < k \<Longrightarrow> Q () k' t') \<Longrightarrow> runs (ReturnStatement call opc) k t Q"
  unfolding ReturnStatement_def Let_def by (intro runs_control runs_quietly runs_statements) (auto simp: post_simps)

lemma runs_PubStatement:
  "within call B \<Longrightarrow> 40 * k \<le> B \<Longrightarrow> t \<noteq> 0 \<Longrightarrow> (\<And>k' t'. k' < k \<Longrightarrow> Q () k' t') \<Longrightarrow> runs (PubStatement call) k t Q"
  unfolding PubStatement_def
  by (intro runs_control runs_quietly runs_quietly2 runs_FunctionStatement runs_ClassStatement runs_statements) (auto simp: post_simps)

lemma runs_OptionalSemicolon: "(\<And>k' t'. k' \<le> k \<Longrightarrow> Q () k' t') \<Longrightarrow> runs OptionalSemicolon k t Q"
proof -
  assume "\<And>k' t'. k' \<le> k \<Longrightarrow> Q () k' t'"
  then have "runs cLex k t Q" "Q () k t" by (auto intro: runs_cLex)
  then show ?thesis by (auto simp: runs_def OptionalSemicolon_def cerror_def)
qed

lemma runs_ConstStatement: "t \<noteq> 0 \<Longrightarrow> (\<And>k' t'. k' < k \<Longrightarrow> Q () k' t') \<Longrightarrow> runs ConstStatement k t Q"
  unfolding ConstStatement_def by (intro runs_control runs_quietly runs_OptionalSemicolon runs_statements) auto

lemma runs_Statement:
  assumes "within call B" "40 * k + 29 < B"
  shows "runs (Statement call c) k t (\<lambda>_ k' t'. k' < k)"
proof -
  have q: "quiet (fs_upd (h p))" for h :: "int \<Rightarrow> fctx \<Rightarrow> fctx" and p by (rule quiet_basic)
  have brk: "runs BreakStatement k t Q" "runs ContinueStatement k t Q" if "t \<noteq> 0" "\<And>k' t'. k' < k \<Longrightarrow> Q () k' t'" for t Q
    using that unfolding BreakStatement_def ContinueStatement_def
    by (auto intro!: runs_bind runs_quiet[OF quiet_basic(5)] runs_jump_out quiet_basic)
  show ?thesis
    unfolding Statement_def ImportStatement_def NamespaceStatement_def
    by (intro runs_control runs_quietly runs_quiet[OF quiet_basic(6)] runs_IfStatement[OF assms(1)] runs_WhileStatement[OF assms(1)]
        runs_DoWhileStatement[OF assms(1)] runs_ForStatement[OF assms(1)] runs_ForEachStatement[OF assms(1)]
        runs_SwitchStatement[OF assms(1)] runs_LocalDeclStatement[OF assms(1)] runs_ReturnStatement[OF assms(1)] brk
        runs_FunctionStatement[OF assms(1)] runs_ClassStatement[OF assms(1)] runs_EnumStatement runs_path_statement
        runs_PubStatement[OF assms(1)] runs_block[OF assms(1)] runs_TryCatchStatement[OF assms(1)] runs_ConstStatement
        runs_cLex runs_call[OF assms(1)])
      (use assms(2) in \<open>auto simp: post_simps\<close>)
qed

section \<open>Every call ends\<close>

lemma runs_Expression:
  assumes "within call B" "40 * k + 27 < B"
  shows "runs (Expression call) k t (\<lambda>_ k' t'. k' < k)"
proof -
  have asg: "runs (assignment call u) k t Q" if "40 * k \<le> B" "t \<noteq> 0" "\<And>k' t'. k' < k \<Longrightarrow> Q () k' t'" for u k t Q
    unfolding assignment_def
    by (intro runs_control runs_quietly runs_exptype runs_cLex runs_call[OF assms(1)]) (use that in \<open>auto simp: post_simps\<close>)
  have cond: "runs (conditional call) k t Q" if "40 * k \<le> B" "t \<noteq> 0" "\<And>k' t'. k' < k \<Longrightarrow> Q () k' t'" for k t Q
    unfolding conditional_def
    by (intro runs_control runs_quietly runs_quiet[OF quiet_basic(6)] runs_cLex runs_Expect runs_call[OF assms(1)])
       (use that in \<open>auto simp: post_simps\<close>)
  show ?thesis
    unfolding Expression_def
    by (intro runs_control runs_quietly runs_call[OF assms(1)] asg cond)
       (use assms(2) in \<open>auto simp: post_simps assign_tokens_def compound_tokens_def\<close>)
qed

lemma runs_PrefixedRest:
  assumes "within call B" "40 * k \<le> B"
  shows "runs (PrefixedRest call) k t (\<lambda>_ k' t'. k' \<le> k \<and> (t = 46 \<longrightarrow> k' < k))"
  unfolding PrefixedRest_def
  by (intro runs_control runs_quietly runs_cLex runs_Expect runs_load_Expect runs_generic_args runs_call[OF assms(1)])
     (use assms(2) in \<open>auto simp: post_def\<close>)

lemma runs_token_dot: "t \<noteq> 0 \<Longrightarrow> Q () k 46 \<Longrightarrow> runs (cput (\<lambda>s. s\<lparr>token := tk CHR ''.''\<rparr>)) k t Q"
  by (simp add: runs_def cput_def mu_def)

lemma runs_Factor:
  assumes "within call B" "40 * k \<le> B"
  shows "runs (Factor call) k t (\<lambda>_ k' t'. k' \<le> k \<and> (k' < k \<or> t' = 46))"
  unfolding Factor_def
  by (intro runs_bind runs_return runs_on_token runs_if runs_seq runs_quietly runs_token_dot runs_cLex quiet_puts[THEN runs_quiet]
        runs_identifier_generics runs_resolve_name runs_mono[OF runs_plain_factor[OF assms]])
     auto

lemma dispatch_ends:
  assumes "within call (40 * k + rank n)"
  shows "runs (dispatch call n) k t (\<lambda>_. post n k t)"
proof -
  note ctl = runs_control runs_quietly runs_cLex runs_Expect runs_BIN_EXP[OF assms] runs_short_circuit[OF assms] runs_call[OF assms]
    runs_computed_slot[OF assms] runs_named_slot[OF assms] runs_method_slot[OF assms] runs_load_Expect runs_member_modifiers[OF assms]
    runs_declared_type runs_declared_parameter runs_statement_end runs_quiet[OF quiet_basic(8)]
  note ops = eq_ops_def comp_ops_def shift_ops_def plus_ops_def mult_ops_def
  show ?thesis
  proof (cases n)
    case (NStatement b)
    show ?thesis unfolding dispatch_def NStatement nonterm.case
      by (rule runs_mono[OF runs_Statement[OF assms]]) (auto simp: NStatement post_def)
  next
    case NExpression
    show ?thesis unfolding dispatch_def NExpression nonterm.case
      by (rule runs_mono[OF runs_Expression[OF assms]]) (auto simp: NExpression post_def)
  next
    case NPrefixedRest
    show ?thesis unfolding dispatch_def NPrefixedRest nonterm.case
      by (rule runs_mono[OF runs_PrefixedRest[OF assms]]) (auto simp: NPrefixedRest post_def)
  next
    case NFactor
    show ?thesis unfolding dispatch_def NFactor nonterm.case
      by (rule runs_mono[OF runs_Factor[OF assms]]) (auto simp: NFactor post_def)
  next
    case NPrefixedExpr
    show ?thesis unfolding dispatch_def NPrefixedExpr nonterm.case PrefixedExpr_def
      by (intro ctl) (auto simp: NPrefixedExpr post_def)
  next
    case NEqRest
    show ?thesis unfolding dispatch_def NEqRest nonterm.case EqRest_def by (rule runs_operator_rest[OF assms]) (auto simp: NEqRest ops)
  next
    case NCompRest
    show ?thesis unfolding dispatch_def NCompRest nonterm.case CompRest_def by (rule runs_operator_rest[OF assms]) (auto simp: NCompRest ops)
  next
    case NShiftRest
    show ?thesis unfolding dispatch_def NShiftRest nonterm.case ShiftRest_def by (rule runs_operator_rest[OF assms]) (auto simp: NShiftRest ops)
  next
    case NPlusRest
    show ?thesis unfolding dispatch_def NPlusRest nonterm.case PlusRest_def by (rule runs_operator_rest[OF assms]) (auto simp: NPlusRest ops)
  next
    case NMultRest
    show ?thesis unfolding dispatch_def NMultRest nonterm.case MultRest_def by (rule runs_operator_rest[OF assms]) (auto simp: NMultRest ops)
  qed (unfold dispatch_def, simp_all only: nonterm.case, unfold Statements_def CommaExpr_def CommaRest_def LogicalOrExp_def LogicalAndExp_def
      BitwiseOrExp_def BitwiseOrRest_def BitwiseXorExp_def BitwiseXorRest_def BitwiseAndExp_def BitwiseAndRest_def EqExp_def CompExp_def
      ShiftExp_def PlusExp_def MultExp_def FunctionCallArgs_def CallArgs_def CallInit_def ArrayItems_def ParseTableOrClass_def SlotItems_def
      LocalDecls_def Cases_def Parameters_def Let_def,
      (intro ctl; auto simp: post_simps)+)
qed

lemma parse_ends: "40 * k + rank n < d \<Longrightarrow> runs (parse d n) k t (\<lambda>_. post n k t)"
proof (induction d arbitrary: n k t)
  case (Suc d)
  from Suc have "within (parse d) (40 * k + rank n)" by (auto simp: within_def)
  from dispatch_ends[OF this] show ?case by simp
qed simp

section \<open>More fuel changes nothing\<close>

definition refines :: "'a comp \<Rightarrow> 'a comp \<Rightarrow> bool" where
  "refines m m' \<longleftrightarrow> (\<forall>s. m s = OutOfFuel \<or> m' s = m s)"

named_theorems refines_intros \<open>constructs that answer the same with more fuel\<close>

lemma refines_refl [refines_intros]: "refines m m"
  by (simp add: refines_def)

lemma refines_bind [refines_intros]:
  assumes "refines m m'" "\<And>x. refines (f x) (f' x)"
  shows "refines (cbind m f) (cbind m' f')"
  unfolding refines_def
proof
  fix s
  show "cbind m f s = OutOfFuel \<or> cbind m' f' s = cbind m f s"
    using assms(1)[unfolded refines_def, rule_format, of s] assms(2)[unfolded refines_def]
    by (cases "m s") (auto simp: cbind_def)
qed

lemma refines_seq [refines_intros]:
  "refines m m' \<Longrightarrow> refines (cseq [m]) (cseq [m'])"
  "refines m m' \<Longrightarrow> refines (cseq (b # ms)) (cseq (b' # ms')) \<Longrightarrow> refines (cseq (m # b # ms)) (cseq (m' # b' # ms'))"
  by (auto intro: refines_bind)

lemma refines_control [refines_intros]:
  "refines m m' \<Longrightarrow> refines (cvoid m) (cvoid m')"
  "refines w w' \<Longrightarrow> refines (cwhen b w) (cwhen b w')"
  "refines m m' \<Longrightarrow> refines n n' \<Longrightarrow> refines (if b then m else n) (if b then m' else n')"
  "(\<And>x. refines (f x) (f' x)) \<Longrightarrow> refines (let x = a in f x) (let x = a in f' x)"
  "(\<And>x y. refines (g x y) (g' x y)) \<Longrightarrow> refines (case p of (x, y) \<Rightarrow> g x y) (case p of (x, y) \<Rightarrow> g' x y)"
  "refines m m' \<Longrightarrow> (\<And>x. refines (h x) (h' x)) \<Longrightarrow> refines (case opt of None \<Rightarrow> m | Some x \<Rightarrow> h x) (case opt of None \<Rightarrow> m' | Some x \<Rightarrow> h' x)"
  by (auto simp: cvoid_def cwhen_def Let_def intro: refines_bind refines_refl split: prod.split option.split)

lemma refines_on_token [refines_intros]: "(\<And>t. refines (f t) (f' t)) \<Longrightarrow> refines (on_token f) (on_token f')"
  by (simp add: refines_def on_token_def)

lemma refines_parts [refines_intros]:
  assumes c [refines_intros]: "\<And>n. refines (call n) (call' n)"
  shows "refines (INVOKE_EXP (cvoid (call n))) (INVOKE_EXP (cvoid (call' n)))"
    "refines (UnaryOP call opc) (UnaryOP call' opc)" "refines (DeleteExpr call) (DeleteExpr call')"
    "refines (PrefixIncDec call tok) (PrefixIncDec call' tok)" "refines (bind_env call) (bind_env call')"
    "refines (CreateFunction call name b lam) (CreateFunction call' name b lam)"
    "refines (computed_slot call) (computed_slot call')" "refines (named_slot call) (named_slot call')"
    "refines (member_modifiers call j) (member_modifiers call' j)" "refines (ClassExp call) (ClassExp call')"
    "refines (assignment call tok) (assignment call' tok)" "refines (conditional call) (conditional call')"
    "refines (block call cf) (block call' cf)" "refines (condition call) (condition call')"
    "refines (TryCatchStatement call) (TryCatchStatement call')" "refines (ReturnStatement call opc) (ReturnStatement call' opc)"
    "refines (ForEachStatement call) (ForEachStatement call')" "refines (SwitchStatement call) (SwitchStatement call')"
    "refines (WhileStatement call) (WhileStatement call')" 
  unfolding INVOKE_EXP_def UnaryOP_def DeleteExpr_def PrefixIncDec_def bind_env_def ParseBindEnv_def CreateFunction_def computed_slot_def
    named_slot_def member_modifiers_def ClassExp_def assignment_def conditional_def block_def condition_def TryCatchStatement_def
    ReturnStatement_def ForEachStatement_def SwitchStatement_def WhileStatement_def
  by (intro refines_intros)+

lemma refines_parts2 [refines_intros]:
  assumes c [refines_intros]: "\<And>n. refines (call n) (call' n)"
  shows "refines (BIN_EXP opc (cvoid (call n)) x3) (BIN_EXP opc (cvoid (call' n)) x3)"
    "refines (short_circuit opc (cvoid (call n))) (short_circuit opc (cvoid (call' n)))"
    "refines (FunctionExp call lam) (FunctionExp call' lam)" "refines (method_slot call tok) (method_slot call' tok)"
    "refines (LocalDeclStatement call) (LocalDeclStatement call')" "refines (IfBlock call) (IfBlock call')"
    "refines (DoWhileStatement call) (DoWhileStatement call')" 
    "refines (FunctionStatement call p) (FunctionStatement call' p)" "refines (ClassStatement call p) (ClassStatement call' p)"
    "refines (operator_rest ops call n r) (operator_rest ops call' n r)"
  unfolding BIN_EXP_def short_circuit_def FunctionExp_def method_slot_def LocalDeclStatement_def IfBlock_def DoWhileStatement_def
    FunctionStatement_def ClassStatement_def operator_rest_def
  by (intro refines_intros c)+

lemma refines_parts3 [refines_intros]:
  assumes c [refines_intros]: "\<And>n. refines (call n) (call' n)"
  shows "refines (IfStatement call) (IfStatement call')" "refines (ForStatement call) (ForStatement call')"
    "refines (PubStatement call) (PubStatement call')" "refines (plain_factor call tok) (plain_factor call' tok)"
  unfolding IfStatement_def ForStatement_def PubStatement_def plain_factor_def
  by (intro refines_intros c)+

lemma refines_dispatch:
  assumes c [refines_intros]: "\<And>n. refines (call n) (call' n)"
  shows "refines (dispatch call n) (dispatch call' n)"
  by (cases n; hypsubst; unfold dispatch_def nonterm.case Statement_def Statements_def CommaExpr_def CommaRest_def Expression_def LogicalOrExp_def LogicalAndExp_def
      BitwiseOrExp_def BitwiseOrRest_def BitwiseXorExp_def BitwiseXorRest_def BitwiseAndExp_def BitwiseAndRest_def EqExp_def EqRest_def CompExp_def
      CompRest_def ShiftExp_def ShiftRest_def PlusExp_def PlusRest_def MultExp_def MultRest_def PrefixedExpr_def PrefixedRest_def Factor_def
      FunctionCallArgs_def CallArgs_def CallInit_def ArrayItems_def ParseTableOrClass_def SlotItems_def
      LocalDecls_def Cases_def Parameters_def; intro refines_intros c)

lemma parse_refines: "d \<le> d' \<Longrightarrow> refines (parse d n) (parse d' n)"
proof (induction d arbitrary: d' n)
  case (Suc d)
  then obtain e where "d' = Suc e" "d \<le> e" by (cases d') auto
  with Suc.IH show ?case by (simp add: refines_dispatch)
qed (simp add: refines_def cfuel_def)

lemma refines_main: "(\<And>n. refines (call n) (call' n)) \<Longrightarrow> refines (main_statements j call) (main_statements j call')"
  by (induction j) (auto intro!: refines_intros)

lemma runs_main_statements:
  assumes "k < j" "40 * k + 40 \<le> d"
  shows "runs (main_statements j (parse d)) k t (\<lambda>_ _ _. True)"
  using assms
proof (induction j arbitrary: k t)
  case (Suc j)
  have W: "within (parse d) d" by (simp add: within_def parse_ends)
  show ?case
    unfolding main_statements.simps
    by (intro runs_control runs_call[OF W] runs_statement_end runs_mono[OF Suc.IH]) (use Suc.prems in \<open>auto simp: post_simps\<close>)
qed simp

text \<open>
  C37: The compiler ends.  With a nesting depth of 80 times the length of the source it never runs out of fuel, for
  every source: it answers a prototype, an error, or reaches undefined behaviour; and every greater depth
  gives the same outcome.
\<close>

theorem compile_terminates:
  assumes "80 * length source + 40 \<le> depth"
  shows "Compile depth junk E source tab heap \<noteq> OutOfFuel
     \<and> (\<forall>depth' \<ge> depth. Compile depth' junk E source tab heap = Compile depth junk E source tab heap)"
proof (cases "Init source")
  case (Inl e)
  then show ?thesis by (simp add: Compile_def)
next
  case (Inr l)
  let ?s = "initial_state E l tab heap"
  have l: "rem l \<le> length source"
    using Inr by (auto simp: Init_def Next_char_def rem_def split: list.splits if_splits)
  have q: "quiet (set_stack_size n)" "quiet (add_line_infos f b)" "quiet (emit opc x0 x1 x2 x3)" "quiet (fs_get (BuildProto junk))"
    for n f b opc x0 x1 x2 x3 by (intro quiet_intros)+
  have "runs (compile_main depth junk) (2 * rem l) 0 (\<lambda>_ _ _. True)"
    unfolding compile_main_def
    by (intro runs_control runs_quietly runs_cLex runs_mono[OF runs_main_statements] runs_quiet[OF q(4)]) (use l assms in auto)
  moreover have "mu ?s = 2 * rem l" "token ?s = 0" by (simp_all add: mu_def initial_state_def)
  ultimately have ends: "compile_main depth junk ?s \<noteq> OutOfFuel" by (auto simp: runs_def)
  have "compile_main depth' junk ?s = compile_main depth junk ?s" if "depth \<le> depth'" for depth'
  proof -
    have "refines (compile_main depth junk) (compile_main depth' junk)"
      unfolding compile_main_def by (intro refines_intros refines_main parse_refines that)
    then have "compile_main depth junk ?s = OutOfFuel \<or> compile_main depth' junk ?s = compile_main depth junk ?s"
      unfolding refines_def by (rule spec)
    with ends show ?thesis by blast
  qed
  with ends show ?thesis unfolding Compile_def Inr sum.case by blast
qed

lemma compile_terminates_witness: "\<exists>E. Compile 40 0 E [] (CreateTable 0) Map.empty \<noteq> OutOfFuel"
  by (rule exI, rule conjunct1[OF compile_terminates]) simp

end
