(* ===== verification/GS_CompilerCode.thy ===== *)
theory GS_CompilerCode
  imports GS_CompilerRuns
begin

text \<open>
  The code that the compiler emits for arithmetic computes the expression: the lexer's tokens of a parenthesised
  expression over integer literals and local variables, the parser of GS_Compiler, the emission of GS_FuncState and
  the interpreter of GS_Exec agree with an evaluator.  The operands and operators are those on which the
  interpreter calls no metamethod.
\<close>

section \<open>Expressions\<close>

datatype aop = APlus | AMinus | ATimes | ADivide | ABitAnd | ABitOr | ABitXor

datatype aexp = ANum gsint | AVar string | ABin aop aexp aexp

fun aop_apply :: "aop \<Rightarrow> gsint \<Rightarrow> gsint \<Rightarrow> gsint outcome" where
  "aop_apply APlus x y = Done (x + y)"
| "aop_apply AMinus x y = Done (x - y)"
| "aop_apply ATimes x y = Done (x * y)"
| "aop_apply ADivide x y =
     (if y = 0 then Fail (ErrStr ''division by zero'') else case idiv x y of None \<Rightarrow> Trap | Some q \<Rightarrow> Done q)"
| "aop_apply ABitAnd x y = Done (x AND y)"
| "aop_apply ABitOr x y = Done (x OR y)"
| "aop_apply ABitXor x y = Done (x XOR y)"

fun aeval :: "(string \<Rightarrow> gsint) \<Rightarrow> aexp \<Rightarrow> gsint outcome" where
  "aeval \<rho> (ANum i) = Done i"
| "aeval \<rho> (AVar x) = Done (\<rho> x)"
| "aeval \<rho> (ABin o1 a b) =
     (case aeval \<rho> a of
        Done i \<Rightarrow> (case aeval \<rho> b of Done j \<Rightarrow> aop_apply o1 i j | r \<Rightarrow> r)
      | r \<Rightarrow> r)"

fun avars :: "aexp \<Rightarrow> string set" where
  "avars (ANum i) = {}"
| "avars (AVar x) = {x}"
| "avars (ABin o1 a b) = avars a \<union> avars b"

fun anums :: "aexp \<Rightarrow> gsint set" where
  "anums (ANum i) = {i}"
| "anums (AVar x) = {}"
| "anums (ABin o1 a b) = anums a \<union> anums b"

text \<open>The number of registers needed.\<close>

fun aregs :: "aexp \<Rightarrow> nat" where
  "aregs (ANum i) = 1"
| "aregs (AVar x) = 0"
| "aregs (ABin o1 a b) = max (aregs a) (Suc (aregs b))"

fun aop_token :: "aop \<Rightarrow> int" where
  "aop_token APlus = tk CHR ''+''"
| "aop_token AMinus = tk CHR ''-''"
| "aop_token ATimes = tk CHR ''*''"
| "aop_token ADivide = tk CHR ''/''"
| "aop_token ABitAnd = tk CHR ''&''"
| "aop_token ABitOr = tk CHR ''|''"
| "aop_token ABitXor = tk CHR ''^''"

datatype aitem = TTok int | TNum gsint | TName string

fun atokens :: "aexp \<Rightarrow> aitem list" where
  "atokens (ANum i) = [TNum i]"
| "atokens (AVar x) = [TName x]"
| "atokens (ABin o1 a b) = TTok (tk CHR ''('') # atokens a @ TTok (aop_token o1) # atokens b @ [TTok (tk CHR '')'')]"

text \<open>The tokens from the current one on.\<close>

fun is_item :: "aitem \<Rightarrow> lexer \<Rightarrow> int \<Rightarrow> bool" where
  "is_item (TTok u) l t \<longleftrightarrow> t = u"
| "is_item (TNum i) l t \<longleftrightarrow> t = TK_INTEGER \<and> nvalue l = i"
| "is_item (TName x) l t \<longleftrightarrow> t = TK_IDENTIFIER \<and> svalue l = x"

fun ahead :: "(nat list \<Rightarrow> gsfloat) \<Rightarrow> lexer \<Rightarrow> int \<Rightarrow> aitem list \<Rightarrow> bool" where
  "ahead sd l t [] \<longleftrightarrow> False"
| "ahead sd l t [i] \<longleftrightarrow> is_item i l t"
| "ahead sd l t (i # j # is) \<longleftrightarrow> 
     is_item i l t \<and> (case Lex sd l of Inl e \<Rightarrow> False | Inr (l1, t1) \<Rightarrow> ahead sd l1 t1 (j # is))"

abbreviation coming :: "cstate \<Rightarrow> aitem list \<Rightarrow> bool" where
  "coming s is \<equiv> ahead (cstrtod (env s)) (lx s) (token s) is"

section \<open>Answers of the parser\<close>

definition answers :: "nonterm \<Rightarrow> cstate \<Rightarrow> cstate \<Rightarrow> bool" where
  "answers n s s' \<longleftrightarrow> (\<exists>d x. parse d n s = Ok x s')"

lemma parse_more: "parse d n s = Ok x s' \<Longrightarrow> d \<le> d' \<Longrightarrow> parse d' n s = Ok x s'"
  using parse_refines[of d d' n] unfolding refines_def by (metis cres.distinct(5))

lemma answersE:
  assumes "answers n s s'"
  obtains d x where "\<And>e. d \<le> e \<Longrightarrow> parse e n s = Ok x s'"
  using assms parse_more unfolding answers_def by blast

lemma answers_pair:
  assumes "\<And>call. dispatch call n = cbind (call a) (\<lambda>_. call b)" "answers a s s1" "answers b s1 s2"
  shows "answers n s s2"
proof -
  from assms(2) obtain d x where d: "\<And>e. d \<le> e \<Longrightarrow> parse e a s = Ok x s1" by (rule answersE) blast
  from assms(3) obtain d' y where d': "\<And>e. d' \<le> e \<Longrightarrow> parse e b s1 = Ok y s2" by (rule answersE) blast
  have "parse (Suc (max d d')) n s = Ok y s2" by (simp add: assms(1) cbind_def d d')
  then show ?thesis unfolding answers_def by blast
qed

lemma cres_simps [simp]:
  "creturn x s = Ok x s" "cget f s = Ok (f s) s" "cput g s = Ok () (g s)" "cwhen b m = (if b then m else creturn ())"
  "on_token h s = h (token s) s"
  by (simp_all add: creturn_def cget_def cput_def cwhen_def on_token_def)

lemma cbind_simps [simp]: "m s = Ok x s1 \<Longrightarrow> cbind m f s = f x s1" "m s = Ok x s1 \<Longrightarrow> cvoid m s = Ok () s1"
  by (simp_all add: cbind_def cvoid_def)

section \<open>Levels of operators\<close>

fun sub :: "nonterm \<Rightarrow> nonterm" where
  "sub NMultExp = NPrefixedExpr"
| "sub NPlusExp = NMultExp"
| "sub NShiftExp = NPlusExp"
| "sub NCompExp = NShiftExp"
| "sub NEqExp = NCompExp"
| "sub NBitwiseAndExp = NEqExp"
| "sub NBitwiseXorExp = NBitwiseAndExp"
| "sub NBitwiseOrExp = NBitwiseXorExp"
| "sub NLogicalAndExp = NBitwiseOrExp"
| "sub n = NLogicalAndExp"

fun rest :: "nonterm \<Rightarrow> nonterm" where
  "rest NMultExp = NMultRest"
| "rest NPlusExp = NPlusRest"
| "rest NShiftExp = NShiftRest"
| "rest NCompExp = NCompRest"
| "rest NEqExp = NEqRest"
| "rest NBitwiseAndExp = NBitwiseAndRest"
| "rest NBitwiseXorExp = NBitwiseXorRest"
| "rest n = NBitwiseOrRest"

fun bin_ops :: "nonterm \<Rightarrow> (int \<times> GSOpcode \<times> int) list" where
  "bin_ops NMultExp = mult_ops"
| "bin_ops NPlusExp = plus_ops"
| "bin_ops NShiftExp = shift_ops"
| "bin_ops NCompExp = comp_ops"
| "bin_ops NEqExp = eq_ops"
| "bin_ops NBitwiseAndExp = [(tk CHR ''&'', OP_BITW, 0)]"
| "bin_ops NBitwiseXorExp = [(tk CHR ''^'', OP_BITW, 3)]"
| "bin_ops n = [(tk CHR ''|'', OP_BITW, 2)]"

definition bin_levels :: "nonterm set" where
  "bin_levels = {NMultExp, NPlusExp, NShiftExp, NCompExp, NEqExp, NBitwiseAndExp, NBitwiseXorExp, NBitwiseOrExp}"

lemma dispatch_level: "n \<in> bin_levels \<Longrightarrow> dispatch call n = cbind (call (sub n)) (\<lambda>_. call (rest n))"
  by (auto simp: bin_levels_def dispatch_def BitwiseOrExp_def BitwiseXorExp_def BitwiseAndExp_def EqExp_def CompExp_def ShiftExp_def
      PlusExp_def MultExp_def)

lemma dispatch_rest: "n \<in> bin_levels \<Longrightarrow> dispatch call (rest n) = operator_rest (bin_ops n) call (sub n) (rest n)"
  by (auto simp: bin_levels_def dispatch_def BitwiseOrRest_def BitwiseXorRest_def BitwiseAndRest_def EqRest_def CompRest_def ShiftRest_def
      PlusRest_def MultRest_def operator_rest_def fun_eq_iff split: option.split)

lemma answers_level: "n \<in> bin_levels \<Longrightarrow> answers (sub n) s s1 \<Longrightarrow> answers (rest n) s1 s2 \<Longrightarrow> answers n s s2"
  by (rule answers_pair[OF dispatch_level])

lemma answers_stop: "n \<in> bin_levels \<Longrightarrow> token s \<notin> fst ` set (bin_ops n) \<Longrightarrow> answers (rest n) s s"
  unfolding answers_def
  by (rule exI[of _ "Suc 0"]) (simp add: dispatch_rest operator_rest_def map_of_eq_None_iff[THEN iffD2])

definition binary_code :: "GSOpcode \<Rightarrow> int \<Rightarrow> unit comp" where
  "binary_code opc x3 = cbind pop_target (\<lambda>op1. cbind pop_target (\<lambda>op2. emit_new opc op1 op2 x3))"

lemma answers_operator:
  assumes "n \<in> bin_levels" "map_of (bin_ops n) (token s) = Some (opc, x3)" "cLex s = Ok () s1"
    "answers (sub n) (s1\<lparr>es := fresh_es\<rparr>) s2" "binary_code opc x3 (s2\<lparr>es := es s1\<rparr>) = Ok () s3"
    "answers (rest n) (s3\<lparr>es := (es s3)\<lparr>etype := EXPR\<rparr>\<rparr>) s4"
  shows "answers (rest n) s s4"
proof -
  from assms(4) obtain d x where d: "\<And>e. d \<le> e \<Longrightarrow> parse e (sub n) (s1\<lparr>es := fresh_es\<rparr>) = Ok x s2" by (rule answersE) blast
  from assms(6) obtain d' y where d': "\<And>e. d' \<le> e \<Longrightarrow> parse e (rest n) (s3\<lparr>es := (es s3)\<lparr>etype := EXPR\<rparr>\<rparr>) = Ok y s4" by (rule answersE) blast
  let ?e = "max d d'"
  have "INVOKE_EXP (cvoid (parse ?e (sub n))) s1 = Ok () (s2\<lparr>es := es s1\<rparr>)"
    by (simp add: INVOKE_EXP_def d)
  then have "BIN_EXP opc (cvoid (parse ?e (sub n))) x3 s = Ok () (s3\<lparr>es := (es s3)\<lparr>etype := EXPR\<rparr>\<rparr>)"
    using assms(3,5) by (simp add: BIN_EXP_def flip: binary_code_def)
  then have "parse (Suc ?e) (rest n) s = Ok y s4"
    by (simp add: dispatch_rest[OF assms(1)] operator_rest_def assms(2) d')
  then show ?thesis unfolding answers_def by blast
qed

text \<open>An operand that no operator follows is an expression of every level.\<close>

lemma answers_through: "n \<in> bin_levels \<Longrightarrow> answers (sub n) s s1 \<Longrightarrow> token s1 \<notin> fst ` set (bin_ops n) \<Longrightarrow> answers n s s1"
  by (blast intro: answers_level answers_stop)

lemma answers_logical:
  assumes "answers NBitwiseOrExp s s1" "token s1 \<noteq> TK_AND" "token s1 \<noteq> TK_OR"
  shows "answers NLogicalOrExp s s1"
proof -
  from assms(1) obtain d x where d: "\<And>e. d \<le> e \<Longrightarrow> parse e NBitwiseOrExp s = Ok x s1" by (rule answersE) blast
  have "parse (Suc (Suc d)) NLogicalOrExp s = Ok 0 s1"
    by (simp add: dispatch_def LogicalOrExp_def LogicalAndExp_def d assms(2,3))
  then show ?thesis unfolding answers_def by blast
qed

definition stop_tokens :: "int set" where
  "stop_tokens = {0, tk CHR '';'', tk CHR '')'', tk CHR ''}'', tk CHR '']'', tk CHR '':''}"

lemma stop_not_op: "t \<in> stop_tokens \<Longrightarrow> t \<notin> fst ` set (bin_ops n)"
  by (cases n) (auto simp: stop_tokens_def mult_ops_def plus_ops_def shift_ops_def comp_ops_def eq_ops_def)

lemma answers_climb: "answers n s s1 \<Longrightarrow> n \<in> insert NPrefixedExpr bin_levels \<Longrightarrow> token s1 \<in> stop_tokens \<Longrightarrow> answers NLogicalOrExp s s1"
proof -
  assume a: "answers n s s1" "n \<in> insert NPrefixedExpr bin_levels" "token s1 \<in> stop_tokens"
  have step: "m \<in> bin_levels \<Longrightarrow> answers (sub m) s s1 \<Longrightarrow> answers m s s1" for m by (rule answers_through) (use a(3) stop_not_op in auto)
  note steps = step[of NMultExp] step[of NPlusExp] step[of NShiftExp] step[of NCompExp] step[of NEqExp] step[of NBitwiseAndExp]
    step[of NBitwiseXorExp] step[of NBitwiseOrExp]
  have "answers NBitwiseOrExp s s1" using a(1,2) steps by (auto simp: bin_levels_def)
  then show ?thesis by (rule answers_logical) (use a(3) in \<open>auto simp: stop_tokens_def\<close>)
qed

lemma answers_Expression:
  assumes "answers NLogicalOrExp (s\<lparr>es := fresh_es\<rparr>) s1" "token s1 \<in> stop_tokens"
  shows "answers NExpression s (s1\<lparr>es := es s\<rparr>)"
proof -
  from assms(1) obtain d x where d: "\<And>e. d \<le> e \<Longrightarrow> parse e NLogicalOrExp (s\<lparr>es := fresh_es\<rparr>) = Ok x s1" by (rule answersE) blast
  have "token s1 \<notin> assign_tokens" "token s1 \<noteq> tk CHR ''?''"
    using assms(2) by (auto simp: stop_tokens_def assign_tokens_def compound_tokens_def)
  then have "parse (Suc d) NExpression s = Ok 0 (s1\<lparr>es := es s\<rparr>)"
    by (simp add: dispatch_def Expression_def d)
  then show ?thesis unfolding answers_def by blast
qed

section \<open>Registers and code\<close>

text \<open>An operand: a new temporary register behind the locals \<open>L\<close>, or one of them.\<close>

definition operand :: "localvar list \<Rightarrow> localvar list \<Rightarrow> int \<Rightarrow> bool" where
  "operand L w r \<longleftrightarrow>
     (w = [temp_localvar] \<and> r = int (length L)) \<or> (w = [] \<and> 0 \<le> r \<and> r < int (length L) \<and> lname (L ! nat r) \<noteq> ONull)"

lemma operand_bounds: "operand L w r \<Longrightarrow> 0 \<le> r \<and> r < int (length (L @ w))"
  by (auto simp: operand_def)

definition emitted :: "cstate \<Rightarrow> cstate \<Rightarrow> localvar list \<Rightarrow> int list \<Rightarrow> instruction list \<Rightarrow> bool" where
  "emitted s s' ws ts code \<longleftrightarrow>
     env s' = env s \<and>
     (\<exists>c c' cs. funcs s = c # cs \<and> funcs s' = c' # cs \<and> vlocals (cfs c') = vlocals (cfs c) @ ws
        \<and> targetstack (cfs c') = targetstack (cfs c) @ ts \<and> instructions (cfs c') = instructions (cfs c) @ code
        \<and> stacksize (cfs c') \<le> 255)"

abbreviation current :: "cstate \<Rightarrow> funcstate" where "current s \<equiv> cfs (hd (funcs s))"

lemma emitted_trans:
  "emitted s s1 ws ts code \<Longrightarrow> emitted s1 s2 ws' ts' code' \<Longrightarrow> emitted s s2 (ws @ ws') (ts @ ts') (code @ code')"
  by (auto simp: emitted_def)

lemma emitted_other [simp]:
  "emitted s (s'\<lparr>es := e\<rparr>) ws ts code = emitted s s' ws ts code"
  "emitted (s\<lparr>es := e\<rparr>) s' ws ts code = emitted s s' ws ts code"
  "emitted s (s'\<lparr>lx := l, token := tok\<rparr>) ws ts code = emitted s s' ws ts code"
  "emitted (s\<lparr>lx := l, token := tok\<rparr>) s' ws ts code = emitted s s' ws ts code"
  by (simp_all add: emitted_def)

lemma PopTarget_operand:
  "vlocals fs = M @ w \<Longrightarrow> targetstack fs = T @ [r] \<Longrightarrow> operand M w r \<Longrightarrow> PopTarget fs = Some (fs\<lparr>vlocals := M, targetstack := T\<rparr>, r)"
  by (auto simp: PopTarget_def operand_def temp_localvar_def nth_append)

lemma push_target_ok:
  assumes "funcs s = c # cs" "stacksize (cfs c) \<le> 255" "int (length (vlocals (cfs c))) < 255"
  shows "\<exists>k \<le> 255. push_target s = Ok (int (length (vlocals (cfs c))))
     (s\<lparr>funcs := c\<lparr>cfs := (cfs c)\<lparr>vlocals := vlocals (cfs c) @ [temp_localvar], stacksize := k,
          targetstack := targetstack (cfs c) @ [int (length (vlocals (cfs c)))]\<rparr>\<rparr> # cs\<rparr>)"
proof (cases "stacksize (cfs c) < int (length (vlocals (cfs c))) + 1")
  case True
  with assms show ?thesis
    by (intro exI[of _ "int (length (vlocals (cfs c))) + 1"]) (simp add: push_target_def fs_try_def PushTarget_def AllocStackPos_def Let_def)
next
  case False
  with assms show ?thesis
    by (intro exI[of _ "stacksize (cfs c)"]) (simp add: push_target_def fs_try_def PushTarget_def AllocStackPos_def Let_def)
qed

text \<open>The instructions that the optimiser never merges with the one before.\<close>

lemma AddInstruction_plain:
  "op i \<in> {OP_LOADINT, OP_ADD, OP_SUB, OP_MUL, OP_DIV, OP_BITW} \<Longrightarrow>
     AddInstruction i fs = fs\<lparr>instructions := instructions fs @ [i], optimization := True\<rparr>"
  by (elim insertE emptyE) (simp_all add: AddInstruction_def merged_def drop_result_def Let_def)

lemma emit_plain:
  assumes "opc \<in> {OP_LOADINT, OP_ADD, OP_SUB, OP_MUL, OP_DIV, OP_BITW}" "funcs s = c # cs"
  shows "emit opc x0 x1 x2 x3 s =
     Ok () (s\<lparr>funcs := c\<lparr>cfs := (cfs c)\<lparr>instructions := instructions (cfs c) @ [Instr opc x0 x1 x2 x3], optimization := True\<rparr>\<rparr> # cs\<rparr>)"
proof -
  have "op (Instr opc x0 x1 x2 x3) = opc" by (simp add: Instr_def)
  with assms(1) show ?thesis by (simp add: emit_def fs_upd_def assms(2) AddInstruction_plain)
qed

lemma emit_new_plain:
  assumes "opc \<in> {OP_LOADINT, OP_ADD, OP_SUB, OP_MUL, OP_DIV, OP_BITW}" "funcs s = c # cs" "stacksize (cfs c) \<le> 255"
    "int (length (vlocals (cfs c))) < 255"
  shows "\<exists>s'. emit_new opc x1 x2 x3 s = Ok () s' \<and> lx s' = lx s \<and> token s' = token s \<and> es s' = es s
     \<and> emitted s s' [temp_localvar] [int (length (vlocals (cfs c)))] [Instr opc (int (length (vlocals (cfs c)))) x1 x2 x3]"
proof -
  from push_target_ok[OF assms(2-4)] obtain k where k: "k \<le> 255" "push_target s = Ok (int (length (vlocals (cfs c))))
     (s\<lparr>funcs := c\<lparr>cfs := (cfs c)\<lparr>vlocals := vlocals (cfs c) @ [temp_localvar], stacksize := k,
          targetstack := targetstack (cfs c) @ [int (length (vlocals (cfs c)))]\<rparr>\<rparr> # cs\<rparr>)" by blast
  show ?thesis
    using k(1) by (simp add: emit_new_def cbind_simps(1)[where m = push_target, OF k(2)] emit_plain[OF assms(1)] emitted_def assms(2))
qed

lemma binary_code_ok:
  assumes opc: "opc \<in> {OP_ADD, OP_SUB, OP_MUL, OP_DIV, OP_BITW}"
    and e: "emitted s s2 (wa @ wb) [ra, rb] code" and a: "operand (vlocals (current s)) wa ra"
    and b: "operand (vlocals (current s) @ wa) wb rb" and n: "int (length (vlocals (current s))) < 255"
  shows "\<exists>s3. binary_code opc x3 s2 = Ok () s3 \<and> lx s3 = lx s2 \<and> token s3 = token s2
     \<and> emitted s s3 [temp_localvar] [int (length (vlocals (current s)))] (code @ [Instr opc (int (length (vlocals (current s)))) rb ra x3])"
proof -
  from e obtain c c' cs where s: "funcs s = c # cs" "funcs s2 = c' # cs" "vlocals (cfs c') = (vlocals (cfs c) @ wa) @ wb"
    "targetstack (cfs c') = (targetstack (cfs c) @ [ra]) @ [rb]" "instructions (cfs c') = instructions (cfs c) @ code"
    "stacksize (cfs c') \<le> 255" "env s2 = env s" by (auto simp: emitted_def)
  let ?f1 = "(cfs c')\<lparr>vlocals := vlocals (cfs c) @ wa, targetstack := targetstack (cfs c) @ [ra]\<rparr>"
  let ?s1 = "s2\<lparr>funcs := c'\<lparr>cfs := ?f1\<rparr> # cs\<rparr>"
  let ?s2 = "s2\<lparr>funcs := c'\<lparr>cfs := ?f1\<lparr>vlocals := vlocals (cfs c), targetstack := targetstack (cfs c)\<rparr>\<rparr> # cs\<rparr>"
  have "PopTarget (cfs c') = Some (?f1, rb)" by (rule PopTarget_operand[OF s(3,4)]) (use b s(1) in simp)
  then have p1: "pop_target s2 = Ok rb ?s1" by (simp add: pop_target_def fs_try_def s(2))
  have "PopTarget ?f1 = Some (?f1\<lparr>vlocals := vlocals (cfs c), targetstack := targetstack (cfs c)\<rparr>, ra)"
    by (rule PopTarget_operand) (use a s(1) in simp_all)
  then have p2: "pop_target ?s1 = Ok ra ?s2" by (simp add: pop_target_def fs_try_def)
  have "\<exists>s'. emit_new opc rb ra x3 ?s2 = Ok () s' \<and> lx s' = lx ?s2 \<and> token s' = token ?s2 \<and> es s' = es ?s2
     \<and> emitted ?s2 s' [temp_localvar] [int (length (vlocals (cfs c)))] [Instr opc (int (length (vlocals (cfs c)))) rb ra x3]"
    using emit_new_plain[of opc ?s2 "c'\<lparr>cfs := ?f1\<lparr>vlocals := vlocals (cfs c), targetstack := targetstack (cfs c)\<rparr>\<rparr>" cs rb ra x3] opc s(1,6) n
    by auto
  then obtain s' where s': "emit_new opc rb ra x3 ?s2 = Ok () s'" "lx s' = lx s2" "token s' = token s2"
    "emitted ?s2 s' [temp_localvar] [int (length (vlocals (cfs c)))] [Instr opc (int (length (vlocals (cfs c)))) rb ra x3]" by auto
  have "binary_code opc x3 s2 = Ok () s'"
    unfolding binary_code_def cbind_simps(1)[where m = pop_target, OF p1] cbind_simps(1)[where m = pop_target, OF p2] by (rule s'(1))
  moreover have "emitted s s' [temp_localvar] [int (length (vlocals (cfs c)))] (code @ [Instr opc (int (length (vlocals (cfs c)))) rb ra x3])"
    using s'(4) s by (auto simp: emitted_def)
  ultimately show ?thesis using s' s(1) by auto
qed

section \<open>Operands\<close>

definition reg_of :: "compenv \<Rightarrow> localvar list \<Rightarrow> string \<Rightarrow> int" where
  "reg_of E L x = find_local L (length L) (OString (cintern E x))"

lemma find_local_temp: "n \<le> length L \<Longrightarrow> find_local (L @ ws) n (OString p) = find_local L n (OString p)"
  by (induction n) (auto simp: nth_append)

lemma find_local_name: "find_local L n (OString p) \<noteq> -1 \<Longrightarrow> lname (L ! nat (find_local L n (OString p))) = OString p"
  by (induction n) auto

lemma reg_of_operand: "reg_of E L x \<noteq> -1 \<Longrightarrow> operand L [] (reg_of E L x)"
  using find_local_bounds[of L "length L" "OString (cintern E x)"] find_local_name[of L "length L" "cintern E x"]
  unfolding reg_of_def operand_def by auto

lemma reg_of_append: "operand L w r \<Longrightarrow> reg_of E (L @ w) x = reg_of E L x"
  by (auto simp: reg_of_def operand_def nth_append temp_localvar_def find_local_temp)

text \<open>The variables are registers, the literals have 32 bits and the temporaries fit.\<close>

definition compilable :: "compenv \<Rightarrow> localvar list \<Rightarrow> aexp \<Rightarrow> bool" where
  "compilable E L e \<longleftrightarrow>
     (\<forall>x \<in> avars e. reg_of E L x \<noteq> -1) \<and> (\<forall>i \<in> anums e. -2147483648 < sint i \<and> sint i \<le> 2147483647) \<and> length L + aregs e \<le> 255"

section \<open>What the code computes\<close>

text \<open>The outcome of the code in a state where the registers of the variables hold \<open>\<rho>\<close>: the value in register \<open>r\<close>
  and every register of a local or an earlier temporary unchanged, the error, or the processor fault.\<close>

definition outcome_in :: "nat \<Rightarrow> int \<Rightarrow> gsint outcome \<Rightarrow> 'x vmstate \<Rightarrow> 'x vmstate step option \<Rightarrow> bool" where
  "outcome_in n r v m res \<longleftrightarrow>
     (case v of
        Done i \<Rightarrow> \<exists>f. res = Some (Continue (m\<lparr>regs := f\<rparr>)) \<and> f r = OInteger i \<and> (\<forall>k < int n. f k = regs m k)
      | Fail e \<Rightarrow> \<exists>f. res = Some (Thrown (m\<lparr>regs := f, lasterror := Some e\<rparr>))
      | Trap \<Rightarrow> res = Some Crash)"

definition computes :: "compenv \<Rightarrow> localvar list \<Rightarrow> aexp \<Rightarrow> int \<Rightarrow> instruction list \<Rightarrow> 'x vmstate itself \<Rightarrow> bool" where
  "computes E L e r code T \<longleftrightarrow>
     (\<forall>(V :: 'x vmstate vmenv) \<rho> m. (\<forall>x \<in> avars e. regs m (reg_of E L x) = OInteger (\<rho> x)) \<longrightarrow>
        outcome_in (length L) r (aeval \<rho> e) m (exec_seq V code m))"

fun aop_code :: "aop \<Rightarrow> GSOpcode \<times> int" where
  "aop_code APlus = (OP_ADD, 0)"
| "aop_code AMinus = (OP_SUB, 0)"
| "aop_code ATimes = (OP_MUL, 0)"
| "aop_code ADivide = (OP_DIV, 0)"
| "aop_code ABitAnd = (OP_BITW, 0)"
| "aop_code ABitOr = (OP_BITW, 2)"
| "aop_code ABitXor = (OP_BITW, 3)"

lemma Instr_args:
  "0 \<le> x0 \<Longrightarrow> x0 < 256 \<Longrightarrow> arg0 (Instr opc x0 x1 x2 x3) = x0"
  "0 \<le> x1 \<Longrightarrow> x1 < 256 \<Longrightarrow> arg1 (Instr opc x0 x1 x2 x3) = x1"
  "0 \<le> x2 \<Longrightarrow> x2 < 256 \<Longrightarrow> arg2 (Instr opc x0 x1 x2 x3) = x2"
  "0 \<le> x3 \<Longrightarrow> x3 < 256 \<Longrightarrow> arg3 (Instr opc x0 x1 x2 x3) = x3"
  by (simp_all add: Instr_def arg_defs uint_word_of_int sint_sbintrunc' signed_take_bit_int_eq_self)

lemma op_Instr [simp]: "op (Instr opc x0 x1 x2 x3) = opc"
  by (simp add: Instr_def)

lemma regs_kept [simp]: "\<exists>f. m\<lparr>lasterror := x\<rparr> = m\<lparr>regs := f, lasterror := x\<rparr>"
  by (rule exI[of _ "regs m"]) simp

lemma exec_aop:
  assumes "aop_code o1 = (opc, x3)" "regs m ra = OInteger i" "regs m rb = OInteger j"
    "0 \<le> t" "t < 256" "0 \<le> ra" "ra < 256" "0 \<le> rb" "rb < 256" "int n \<le> t"
  shows "outcome_in n t (aop_apply o1 i j) m (exec_seq V [Instr opc t rb ra x3] m)"
  using assms
  by (cases o1) (auto simp: outcome_in_def exec_seq1 exec1_def exec_move_def exec_arith_def Instr_args into_def guard_def ARITH_fast_def DIV_fast_def
      BW_OP_def put_def trapping_def Raise_Error_def Let_def split: option.splits)

lemma computes_bin:
  fixes T :: "'x vmstate itself"
  assumes a: "computes E L a ra ca T" and b: "computes E (L @ wa) b rb cb T"
    and oa: "operand L wa ra" and ob: "operand (L @ wa) wb rb" and o1: "aop_code o1 = (opc, x3)" and n: "length L < 255"
  shows "computes E L (ABin o1 a b) (int (length L)) (ca @ cb @ [Instr opc (int (length L)) rb ra x3]) T"
  unfolding computes_def
proof (intro allI impI)
  fix V :: "'x vmstate vmenv" and \<rho> and m :: "'x vmstate"
  assume v: "\<forall>x \<in> avars (ABin o1 a b). regs m (reg_of E L x) = OInteger (\<rho> x)"
  let ?i = "Instr opc (int (length L)) rb ra x3"
  have A: "outcome_in (length L) ra (aeval \<rho> a) m (exec_seq V ca m)" using a v by (simp add: computes_def)
  have ra: "0 \<le> ra" "ra < int (length (L @ wa))" using operand_bounds[OF oa] by auto
  have rb: "0 \<le> rb" "rb < 257" using operand_bounds[OF ob] n oa ob by (auto simp: operand_def)
  have lt: "reg_of E L x < int (length L)" for x
    unfolding reg_of_def using find_local_bounds[of L "length L"] by auto
  show "outcome_in (length L) (int (length L)) (aeval \<rho> (ABin o1 a b)) m (exec_seq V (ca @ cb @ [?i]) m)"
  proof (cases "aeval \<rho> a")
    case (Done i)
    with A obtain f where f: "exec_seq V ca m = Some (Continue (m\<lparr>regs := f\<rparr>))" "f ra = OInteger i" "\<forall>k < int (length L). f k = regs m k"
      by (auto simp: outcome_in_def)
    have "\<forall>x \<in> avars b. regs (m\<lparr>regs := f\<rparr>) (reg_of E (L @ wa) x) = OInteger (\<rho> x)"
      using v f(3) lt by (simp add: reg_of_append[OF oa])
    then have B: "outcome_in (length (L @ wa)) rb (aeval \<rho> b) (m\<lparr>regs := f\<rparr>) (exec_seq V cb (m\<lparr>regs := f\<rparr>))"
      using b unfolding computes_def by blast
    show ?thesis
    proof (cases "aeval \<rho> b")
      case (Done j)
      with B obtain g where g: "exec_seq V cb (m\<lparr>regs := f\<rparr>) = Some (Continue (m\<lparr>regs := g\<rparr>))" "g rb = OInteger j"
        "\<forall>k < int (length (L @ wa)). g k = f k" by (auto simp: outcome_in_def)
      have "outcome_in (length L) (int (length L)) (aop_apply o1 i j) (m\<lparr>regs := g\<rparr>) (exec_seq V [?i] (m\<lparr>regs := g\<rparr>))"
        by (rule exec_aop[OF o1]) (use g f ra rb n oa ob in \<open>auto simp: operand_def\<close>)
      then show ?thesis
        using Done \<open>aeval \<rho> a = Done i\<close> f g by (auto simp: outcome_in_def exec_seq_append split: outcome.splits)
    qed (use B \<open>aeval \<rho> a = Done i\<close> f(1) in \<open>auto simp: outcome_in_def exec_seq_append\<close>)
  qed (use A in \<open>auto simp: outcome_in_def exec_seq_append\<close>)
qed

section \<open>The parser on an expression\<close>

lemma ahead_Cons: "js \<noteq> [] \<Longrightarrow> ahead sd l t (i # js) \<longleftrightarrow> is_item i l t \<and> (\<exists>l1 t1. Lex sd l = Inr (l1, t1) \<and> ahead sd l1 t1 js)"
  by (cases js) (auto split: sum.split)

lemma coming_item: "coming s (i # js) \<Longrightarrow> is_item i (lx s) (token s)"
  by (cases js) auto

lemma coming_step:
  assumes "coming s (i # js)" "js \<noteq> []"
  obtains l t where "Lex (cstrtod (env s)) (lx s) = Inr (l, t)" "ahead (cstrtod (env s)) l t js"
  using assms by (auto simp: ahead_Cons)

lemma cLex_ok: "Lex (cstrtod (env s)) (lx s) = Inr (l, t) \<Longrightarrow> cLex s = Ok () (s\<lparr>lx := l, token := t\<rparr>)"
  by (simp add: cLex_def)

definition prefix_tokens :: "int set" where
  "prefix_tokens = {tk CHR ''.'', tk CHR ''['', tk CHR ''<'', tk CHR ''('', TK_MINUSMINUS, TK_PLUSPLUS}"

lemma answers_Prefixed:
  assumes "answers NFactor s s1" "token s1 \<notin> prefix_tokens"
  shows "answers NPrefixedExpr s s1"
proof (rule answers_pair[OF _ assms(1)])
  show "dispatch call NPrefixedExpr = cbind (call NFactor) (\<lambda>_. call NPrefixedRest)" for call
    by (simp add: dispatch_def PrefixedExpr_def)
  have "parse (Suc 0) NPrefixedRest s1 = Ok 0 s1"
    using assms(2) by (simp add: dispatch_def PrefixedRest_def prefix_tokens_def)
  then show "answers NPrefixedRest s1 s1" unfolding answers_def by blast
qed

fun level :: "aop \<Rightarrow> nonterm" where
  "level APlus = NPlusExp"
| "level AMinus = NPlusExp"
| "level ATimes = NMultExp"
| "level ADivide = NMultExp"
| "level ABitAnd = NBitwiseAndExp"
| "level ABitOr = NBitwiseOrExp"
| "level ABitXor = NBitwiseXorExp"

lemma level_bin: "level o1 \<in> bin_levels"
  by (cases o1) (simp_all add: bin_levels_def)

lemma level_ops: "aop_code o1 = (opc, x3) \<Longrightarrow> map_of (bin_ops (level o1)) (aop_token o1) = Some (opc, x3)"
  by (cases o1) (simp_all add: plus_ops_def mult_ops_def ChooseArithOpByToken_def)

lemma answers_operand:
  assumes "answers NPrefixedExpr s s1" "token s1 = aop_token o1 \<or> token s1 \<in> stop_tokens"
  shows "answers (sub (level o1)) s s1"
proof -
  have step: "answers n s s1" if "answers (sub n) s s1" "n \<in> bin_levels" "aop_token o1 \<notin> fst ` set (bin_ops n)" for n
    using answers_through[OF that(2,1)] assms(2) that(3) stop_not_op by auto
  have M: "o1 \<notin> {ATimes, ADivide} \<Longrightarrow> answers NMultExp s s1"
    by (rule step) (use assms(1) in \<open>cases o1; simp add: bin_levels_def mult_ops_def\<close>)+
  have P: "o1 \<in> {ABitAnd, ABitOr, ABitXor} \<Longrightarrow> answers NPlusExp s s1"
    by (rule step) (use M in \<open>auto simp: bin_levels_def plus_ops_def\<close>)
  have S: "o1 \<in> {ABitAnd, ABitOr, ABitXor} \<Longrightarrow> answers NShiftExp s s1"
    by (rule step) (use P in \<open>auto simp: bin_levels_def shift_ops_def\<close>)
  have C: "o1 \<in> {ABitAnd, ABitOr, ABitXor} \<Longrightarrow> answers NCompExp s s1"
    by (rule step) (use S in \<open>auto simp: bin_levels_def comp_ops_def\<close>)
  have Q: "o1 \<in> {ABitAnd, ABitOr, ABitXor} \<Longrightarrow> answers NEqExp s s1"
    by (rule step) (use C in \<open>auto simp: bin_levels_def eq_ops_def\<close>)
  have A: "o1 \<in> {ABitOr, ABitXor} \<Longrightarrow> answers NBitwiseAndExp s s1"
    by (rule step) (use Q in \<open>auto simp: bin_levels_def\<close>)
  have X: "o1 = ABitOr \<Longrightarrow> answers NBitwiseXorExp s s1"
    by (rule step) (use A in \<open>auto simp: bin_levels_def\<close>)
  show ?thesis using assms(1) M Q A X by (cases o1) simp_all
qed

section \<open>Literals and variables\<close>

lemma EmitLoadConstInt_small:
  "-2147483648 < sint i \<Longrightarrow> sint i \<le> 2147483647 \<Longrightarrow> EmitLoadConstInt i (-1) = emit_new OP_LOADINT (sint i) 0 0"
  by (simp add: EmitLoadConstInt_def emit_new_def)

lemma computes_num:
  assumes "-2147483648 < sint i" "sint i \<le> 2147483647" "length L < 256"
  shows "computes E L (ANum i) (int (length L)) [Instr OP_LOADINT (int (length L)) (sint i) 0 0] T"
proof -
  have "sint (word_of_int (sint i) :: 32 word) = sint i"
    unfolding sint_sbintrunc' using assms by (simp add: signed_take_bit_int_eq_self)
  then have "scast (word_of_int (sint i) :: 32 word) = (i :: gsint)"
    by (simp only: scast_eq) simp
  then show ?thesis
    using assms(3) by (auto simp: computes_def outcome_in_def exec_seq1 exec1_moves Instr_args put_def) (auto simp: Instr_def)
qed

lemma computes_var: "computes E L (AVar x) (reg_of E L x) [] T"
  unfolding computes_def
proof (intro allI impI)
  fix V :: "'a vmstate vmenv" and \<rho> and m :: "'a vmstate"
  assume "\<forall>y \<in> avars (AVar x). regs m (reg_of E L y) = OInteger (\<rho> y)"
  then show "outcome_in (length L) (reg_of E L x) (aeval \<rho> (AVar x)) m (exec_seq V [] m)"
    by (auto simp: outcome_in_def exec_seq.simps intro!: exI[of _ "regs m"])
qed

lemma compile_num:
  assumes c: "compilable (env s) (vlocals (current s)) (ANum i)" and t: "coming s (TNum i # js)" "js \<noteq> []"
    and s: "funcs s \<noteq> []" "stacksize (current s) \<le> 255"
  shows "\<exists>s'. answers NFactor s s' \<and> coming s' js
    \<and> emitted s s' [temp_localvar] [int (length (vlocals (current s)))]
        [Instr OP_LOADINT (int (length (vlocals (current s)))) (sint i) 0 0]"
proof -
  obtain c cs where f: "funcs s = c # cs" using s(1) by (cases "funcs s") auto
  from t obtain l tok where n: "Lex (cstrtod (env s)) (lx s) = Inr (l, tok)" "ahead (cstrtod (env s)) l tok js"
    by (rule coming_step)
  let ?t = "int (length (vlocals (cfs c)))"
  have "opc \<in> {OP_LOADINT, OP_ADD, OP_SUB, OP_MUL, OP_DIV, OP_BITW} \<Longrightarrow> ?t < 255" for opc
    using c by (simp add: compilable_def f)
  with emit_new_plain[of OP_LOADINT s c cs "sint i" 0 0] f s(2) obtain s1 where s1: "emit_new OP_LOADINT (sint i) 0 0 s = Ok () s1"
    "lx s1 = lx s" "token s1 = token s" "emitted s s1 [temp_localvar] [?t] [Instr OP_LOADINT ?t (sint i) 0 0]" by auto
  have e: "env s1 = env s" using s1(4) by (simp add: emitted_def)
  let ?s2 = "s1\<lparr>lx := l, token := tok\<rparr>"
  have n1: "cLex s1 = Ok () ?s2" using n(1) s1(2) e by (simp add: cLex_ok)
  have i: "token s = TK_INTEGER" "nvalue (lx s) = i" using coming_item[OF t(1)] by auto
  have "EmitLoadConstInt i (-1) s = Ok () s1" using c by (simp add: EmitLoadConstInt_small compilable_def s1(1))
  then have "plain_factor call TK_INTEGER s = Ok () ?s2" for call
    by (simp add: plain_factor_def cbind_def i(2) n1 del: cbind_simps)
  then have "parse (Suc 0) NFactor s = Ok (-1) (?s2\<lparr>es := (es ?s2)\<lparr>etype := EXPR\<rparr>\<rparr>)"
    by (simp add: dispatch_def Factor_def i(1))
  then have "answers NFactor s (?s2\<lparr>es := (es ?s2)\<lparr>etype := EXPR\<rparr>\<rparr>)" unfolding answers_def by blast
  moreover have "coming (?s2\<lparr>es := (es ?s2)\<lparr>etype := EXPR\<rparr>\<rparr>) js" using n(2) e by simp
  ultimately show ?thesis using s1(4) f by (intro exI[of _ "?s2\<lparr>es := (es ?s2)\<lparr>etype := EXPR\<rparr>\<rparr>"]) simp
qed

lemma compile_var:
  assumes c: "compilable (env s) (vlocals (current s)) (AVar x)" and t: "coming s (TName x # TTok u # js)" "u \<noteq> tk CHR ''<''"
    and s: "funcs s \<noteq> []" "stacksize (current s) \<le> 255"
  shows "\<exists>s'. answers NFactor s s' \<and> coming s' (TTok u # js) \<and> emitted s s' [] [reg_of (env s) (vlocals (current s)) x] []"
proof -
  obtain c cs where f: "funcs s = c # cs" using s(1) by (cases "funcs s") auto
  from t(1) obtain l tok where n: "Lex (cstrtod (env s)) (lx s) = Inr (l, tok)" "ahead (cstrtod (env s)) l tok (TTok u # js)"
    by (rule coming_step) auto
  let ?r = "reg_of (env s) (vlocals (current s)) x"
  let ?c = "c\<lparr>cfs := (cfs c)\<lparr>targetstack := targetstack (cfs c) @ [?r]\<rparr>\<rparr>"
  let ?e = "(es s)\<lparr>etype := LOCAL, epos := ?r\<rparr>"
  let ?s' = "s\<lparr>lx := l, token := tok, funcs := ?c # cs, es := ?e\<rparr>"
  have i: "token s = TK_IDENTIFIER" "svalue (lx s) = x" using coming_item[OF t(1)] by auto
  have u: "tok = u" using n(2) by (cases js) auto
  have u': "u \<noteq> 60" using t(2) by simp
  have r: "?r \<noteq> -1" using c by (simp add: compilable_def)
  have g: "GetLocalVariable (OString (cintern (env s) x)) (cfs c) = ?r" by (simp add: GetLocalVariable_def reg_of_def f)
  have "parse (Suc 0) NFactor s = Ok ?r ?s'"
    using r by (simp add: dispatch_def Factor_def i identifier_of_def CreateString_def cbind_def cLex_ok[OF n(1)] identifier_generics_def u u'
        resolve_name_def fs_get_def f g push_reg_def cvoid_def fs_try_def PushTarget_def del: cbind_simps)
  then have "answers NFactor s ?s'" unfolding answers_def by blast
  moreover have "coming ?s' (TTok u # js)" using n(2) by simp
  ultimately show ?thesis using s f by (intro exI[of _ ?s']) (auto simp: emitted_def)
qed

section \<open>Parentheses\<close>

lemma answers_parens:
  assumes "token s = tk CHR ''(''" "cLex s = Ok () s1" "answers NExpression s1 s2" "token s2 = tk CHR '')''" "cLex s2 = Ok () s3"
  shows "answers NFactor s (s3\<lparr>es := (es s3)\<lparr>etype := EXPR\<rparr>\<rparr>)"
proof -
  from assms(3) obtain d x where d: "\<And>e. d \<le> e \<Longrightarrow> parse e NExpression s1 = Ok x s2" by (rule answersE) blast
  have "parse (Suc 0) NCommaRest s2 = Ok 0 s2" using assms(4) by (simp add: dispatch_def CommaRest_def)
  then have "parse (Suc d) NCommaRest s2 = Ok 0 s2" by (rule parse_more) simp
  moreover have "parse (Suc d) NExpression s1 = Ok x s2" by (rule d) simp
  ultimately obtain e where e: "parse e NExpression s1 = Ok x s2" "parse e NCommaRest s2 = Ok 0 s2" by blast
  then have c: "parse (Suc e) NCommaExpr s1 = Ok 0 s2" by (simp add: dispatch_def CommaExpr_def)
  have "expect (tk CHR '')'') s2 = Ok () s3"
    using assms(4,5) by (simp add: Expect_def token_value_def cvoid_def cbind_def)
  with c assms(2) have "plain_factor (parse (Suc e)) (tk CHR ''('') s = Ok () s3"
    by (simp add: plain_factor_def cbind_def cvoid_def del: cbind_simps parse.simps)
  then have "parse (Suc (Suc e)) NFactor s = Ok (-1) (s3\<lparr>es := (es s3)\<lparr>etype := EXPR\<rparr>\<rparr>)"
    unfolding parse.simps(2)[of "Suc e"] using assms(1) by (simp add: dispatch_def Factor_def cbind_def del: cbind_simps parse.simps)
  then show ?thesis unfolding answers_def by blast
qed

lemma answers_binary:
  assumes "aop_code o1 = (opc, x3)" "answers NPrefixedExpr (s\<lparr>es := fresh_es\<rparr>) s1" "token s1 = aop_token o1" "cLex s1 = Ok () s2"
    "answers NPrefixedExpr (s2\<lparr>es := fresh_es\<rparr>) s3" "token s3 \<in> stop_tokens" "binary_code opc x3 (s3\<lparr>es := es s2\<rparr>) = Ok () s4"
    "token s4 = token s3"
  shows "answers NExpression s (s4\<lparr>es := es s\<rparr>)"
proof -
  let ?n = "level o1" and ?s4 = "s4\<lparr>es := (es s4)\<lparr>etype := EXPR\<rparr>\<rparr>"
  have stop: "token ?s4 \<in> stop_tokens" using assms(6,8) by simp
  have "answers (rest ?n) s1 ?s4"
  proof (rule answers_operator[OF level_bin _ assms(4) _ assms(7)])
    show "map_of (bin_ops ?n) (token s1) = Some (opc, x3)" using level_ops assms(1,3) by simp
    show "answers (sub ?n) (s2\<lparr>es := fresh_es\<rparr>) s3" using answers_operand assms(5,6) by blast
    show "answers (rest ?n) ?s4 ?s4" by (rule answers_stop[OF level_bin]) (use stop stop_not_op in auto)
  qed
  moreover have "answers (sub ?n) (s\<lparr>es := fresh_es\<rparr>) s1" using answers_operand assms(2,3) by blast
  ultimately have "answers ?n (s\<lparr>es := fresh_es\<rparr>) ?s4" by (blast intro: answers_level level_bin)
  then have "answers NLogicalOrExp (s\<lparr>es := fresh_es\<rparr>) ?s4" by (rule answers_climb) (use stop level_bin in auto)
  from answers_Expression[OF this stop] show ?thesis by simp
qed

section \<open>Compiling an expression\<close>

text \<open>The parser, started on the tokens of \<open>e\<close>, stops at the rest with the result in register \<open>r\<close>.\<close>

definition compiles_to :: "nonterm \<Rightarrow> cstate \<Rightarrow> aexp \<Rightarrow> aitem list \<Rightarrow> cstate \<Rightarrow> localvar list \<Rightarrow> int \<Rightarrow> instruction list \<Rightarrow> 'x vmstate itself \<Rightarrow> bool" where
  "compiles_to n s e js s' w r code T \<longleftrightarrow>
     answers n s s' \<and> coming s' js \<and> emitted s s' w [r] code \<and> operand (vlocals (current s)) w r
     \<and> computes (env s) (vlocals (current s)) e r code T"

lemma emittedD:
  assumes "emitted s s' ws ts code"
  shows "env s' = env s" "funcs s' \<noteq> []" "vlocals (current s') = vlocals (current s) @ ws" "stacksize (current s') \<le> 255"
  using assms by (auto simp: emitted_def)

lemma prefix_tokens_simps: "aop_token o1 \<notin> prefix_tokens" "tk CHR '')'' \<notin> prefix_tokens" "tk CHR '')'' \<in> stop_tokens"
  by (cases o1) (simp_all add: prefix_tokens_def stop_tokens_def)

lemma compile_bin:
  fixes T :: "'x vmstate itself"
  assumes A: "compiles_to NPrefixedExpr (s1\<lparr>es := fresh_es\<rparr>) a (TTok (aop_token o1) # atokens b @ TTok (tk CHR '')'') # js) s2 wa ra ca T"
    and B: "\<And>s'. vlocals (current s') = vlocals (current s1) @ wa \<Longrightarrow> env s' = env s1 \<Longrightarrow> funcs s' \<noteq> [] \<Longrightarrow> stacksize (current s') \<le> 255
        \<Longrightarrow> coming s' (atokens b @ TTok (tk CHR '')'') # js)
        \<Longrightarrow> \<exists>s3 wb rb cb. compiles_to NPrefixedExpr s' b (TTok (tk CHR '')'') # js) s3 wb rb cb T"
    and n: "length (vlocals (current s1)) < 255"
  shows "\<exists>s4 code. compiles_to NExpression s1 (ABin o1 a b) (TTok (tk CHR '')'') # js) s4 [temp_localvar] (int (length (vlocals (current s1)))) code T"
proof -
  let ?L = "vlocals (current s1)"
  obtain opc x3 where o1: "aop_code o1 = (opc, x3)" by force
  have opc: "opc \<in> {OP_ADD, OP_SUB, OP_MUL, OP_DIV, OP_BITW}" using o1 by (cases o1) auto
  have a: "answers NPrefixedExpr (s1\<lparr>es := fresh_es\<rparr>) s2" "coming s2 (TTok (aop_token o1) # atokens b @ TTok (tk CHR '')'') # js)"
    "emitted s1 s2 wa [ra] ca" "operand ?L wa ra" "computes (env s1) ?L a ra ca T"
    using A by (simp_all add: compiles_to_def)
  have t2: "token s2 = aop_token o1" using coming_item[OF a(2)] by simp
  from a(2) obtain l tok where l: "Lex (cstrtod (env s2)) (lx s2) = Inr (l, tok)" "ahead (cstrtod (env s2)) l tok (atokens b @ TTok (tk CHR '')'') # js)"
    by (rule coming_step) simp
  let ?s2 = "s2\<lparr>lx := l, token := tok\<rparr>"
  have "\<exists>s3 wb rb cb. compiles_to NPrefixedExpr (?s2\<lparr>es := fresh_es\<rparr>) b (TTok (tk CHR '')'') # js) s3 wb rb cb T"
    by (rule B) (use l emittedD[OF a(3)] in simp_all)
  then obtain s3 wb rb cb where b: "answers NPrefixedExpr (?s2\<lparr>es := fresh_es\<rparr>) s3" "coming s3 (TTok (tk CHR '')'') # js)"
    "emitted s2 s3 wb [rb] cb" "operand (?L @ wa) wb rb" "computes (env s1) (?L @ wa) b rb cb T"
    using emittedD[OF a(3)] by (auto simp: compiles_to_def)
  have t3: "token s3 = tk CHR '')''" using coming_item[OF b(2)] by simp
  have "emitted s1 (s3\<lparr>es := es ?s2\<rparr>) (wa @ wb) [ra, rb] (ca @ cb)" using emitted_trans[OF a(3) b(3)] by simp
  from binary_code_ok[OF opc this a(4) b(4), of x3] n obtain s4 where s4: "binary_code opc x3 (s3\<lparr>es := es ?s2\<rparr>) = Ok () s4" "lx s4 = lx s3"
    "token s4 = token s3" "emitted s1 s4 [temp_localvar] [int (length ?L)] ((ca @ cb) @ [Instr opc (int (length ?L)) rb ra x3])" by auto
  have "answers NExpression s1 (s4\<lparr>es := es s1\<rparr>)"
    by (rule answers_binary[OF o1 _ t2 cLex_ok[OF l(1)] b(1) _ s4(1,3)]) (use a(1) t3 prefix_tokens_simps in simp_all)
  moreover have "coming (s4\<lparr>es := es s1\<rparr>) (TTok (tk CHR '')'') # js)" 
    using b(2) s4(2,3) emittedD(1)[OF s4(4)] emittedD(1)[OF b(3)] emittedD(1)[OF a(3)] by simp
  moreover have "computes (env s1) ?L (ABin o1 a b) (int (length ?L)) (ca @ cb @ [Instr opc (int (length ?L)) rb ra x3]) T"
    by (rule computes_bin[OF a(5) b(5) a(4) b(4) o1 n])
  moreover have "operand ?L [temp_localvar] (int (length ?L))" by (simp add: operand_def)
  ultimately show ?thesis
    unfolding compiles_to_def using s4(4)
    by (intro exI[of _ "s4\<lparr>es := es s1\<rparr>"] exI[of _ "ca @ cb @ [Instr opc (int (length ?L)) rb ra x3]"]) simp
qed

lemma compilable_parts:
  assumes "compilable E L (ABin o1 a b)"
  shows "compilable E L a" "operand L w r \<Longrightarrow> compilable E (L @ w) b" "length L < 255"
  using assms reg_of_append[of L w r E] by (auto simp: compilable_def operand_def)

text \<open>Behind \<open>(\<close> and an expression comes the rest of a factor.\<close>

lemma close_parens:
  assumes t: "coming s (TTok (tk CHR ''('') # is)" "cLex s = Ok () s1"
    and e: "compiles_to NExpression s1 e (TTok (tk CHR '')'') # TTok u # js) s2 w r code T"
    and s1: "s1 = s\<lparr>lx := l, token := tok\<rparr>" and u: "u \<notin> prefix_tokens"
  shows "\<exists>s3. compiles_to NPrefixedExpr s e (TTok u # js) s3 w r code T"
proof -
  have a: "answers NExpression s1 s2" "coming s2 (TTok (tk CHR '')'') # TTok u # js)" "emitted s1 s2 w [r] code"
    "operand (vlocals (current s)) w r" "computes (env s) (vlocals (current s)) e r code T"
    using e s1 by (simp_all add: compiles_to_def)
  from a(2) obtain l' tok' where l: "Lex (cstrtod (env s2)) (lx s2) = Inr (l', tok')" "ahead (cstrtod (env s2)) l' tok' (TTok u # js)"
    by (rule coming_step) simp
  let ?s3 = "s2\<lparr>lx := l', token := tok', es := (es s2)\<lparr>etype := EXPR\<rparr>\<rparr>"
  have c: "coming ?s3 (TTok u # js)" using l(2) by simp
  have "answers NFactor s ?s3"
    using answers_parens[OF _ t(2) a(1) _ cLex_ok[OF l(1)]] coming_item[OF t(1)] coming_item[OF a(2)] by simp
  moreover have "token ?s3 \<notin> prefix_tokens" using coming_item[OF c] u by simp
  ultimately have "answers NPrefixedExpr s ?s3" by (rule answers_Prefixed)
  moreover have "emitted s ?s3 w [r] code" using a(3) s1 by (simp add: emitted_def)
  ultimately show ?thesis unfolding compiles_to_def using c a(4,5) by (intro exI[of _ ?s3]) simp
qed

lemma compile_prefixed:
  fixes T :: "'x vmstate itself"
  assumes "compilable (env s) (vlocals (current s)) e" "coming s (atokens e @ TTok u # js)" "u \<notin> prefix_tokens" "funcs s \<noteq> []"
    "stacksize (current s) \<le> 255"
  shows "\<exists>s' w r code. compiles_to NPrefixedExpr s e (TTok u # js) s' w r code T"
  using assms
proof (induction e arbitrary: s u js)
  case (ANum i)
  let ?L = "vlocals (current s)"
  from compile_num[OF ANum(1) _ _ ANum(4,5), of "TTok u # js"] ANum(2) obtain s' where s': "answers NFactor s s'" "coming s' (TTok u # js)"
    "emitted s s' [temp_localvar] [int (length ?L)] [Instr OP_LOADINT (int (length ?L)) (sint i) 0 0]" by auto
  have "token s' \<notin> prefix_tokens" using coming_item[OF s'(2)] ANum(3) by simp
  then have "answers NPrefixedExpr s s'" by (rule answers_Prefixed[OF s'(1)])
  moreover have "computes (env s) ?L (ANum i) (int (length ?L)) [Instr OP_LOADINT (int (length ?L)) (sint i) 0 0] T"
    by (rule computes_num) (use ANum(1) in \<open>auto simp: compilable_def\<close>)
  ultimately show ?case using s' by (fastforce simp: compiles_to_def operand_def)
next
  case (AVar x)
  let ?L = "vlocals (current s)"
  have "u \<noteq> tk CHR ''<''" using AVar(3) by (auto simp: prefix_tokens_def)
  from compile_var[OF AVar(1) _ this AVar(4,5), of js] AVar(2) obtain s' where s': "answers NFactor s s'" "coming s' (TTok u # js)"
    "emitted s s' [] [reg_of (env s) ?L x] []" by auto
  have "token s' \<notin> prefix_tokens" using coming_item[OF s'(2)] AVar(3) by simp
  then have "answers NPrefixedExpr s s'" by (rule answers_Prefixed[OF s'(1)])
  moreover have "operand ?L [] (reg_of (env s) ?L x)" using AVar(1) by (simp add: compilable_def reg_of_operand)
  ultimately show ?case using s' computes_var[of "env s" ?L x T] by (fastforce simp: compiles_to_def)
next
  case (ABin o1 a b)
  let ?L = "vlocals (current s)" and ?js = "TTok (tk CHR '')'') # TTok u # js"
  have t: "coming s (TTok (tk CHR ''('') # atokens a @ TTok (aop_token o1) # atokens b @ ?js)" using ABin.prems(2) by simp
  then obtain l tok where l: "Lex (cstrtod (env s)) (lx s) = Inr (l, tok)"
    "ahead (cstrtod (env s)) l tok (atokens a @ TTok (aop_token o1) # atokens b @ ?js)" by (rule coming_step) simp
  let ?s1 = "s\<lparr>lx := l, token := tok\<rparr>"
  have "\<exists>s2 wa ra ca. compiles_to NPrefixedExpr (?s1\<lparr>es := fresh_es\<rparr>) a (TTok (aop_token o1) # atokens b @ ?js) s2 wa ra ca T"
    by (rule ABin.IH(1)) (use l(2) ABin.prems compilable_parts(1)[OF ABin.prems(1)] prefix_tokens_simps in simp_all)
  then obtain s2 wa ra ca where a: "compiles_to NPrefixedExpr (?s1\<lparr>es := fresh_es\<rparr>) a (TTok (aop_token o1) # atokens b @ ?js) s2 wa ra ca T" by blast
  then have w: "operand ?L wa ra" by (simp add: compiles_to_def)
  have "\<exists>s4 code. compiles_to NExpression ?s1 (ABin o1 a b) ?js s4 [temp_localvar] (int (length (vlocals (current ?s1)))) code T"
  proof (rule compile_bin[OF a])
    fix s' assume s': "vlocals (current s') = vlocals (current ?s1) @ wa" "env s' = env ?s1" "funcs s' \<noteq> []" "stacksize (current s') \<le> 255"
      "coming s' (atokens b @ ?js)"
    show "\<exists>s3 wb rb cb. compiles_to NPrefixedExpr s' b ?js s3 wb rb cb T"
      by (rule ABin.IH(2)) (use s' compilable_parts(2)[OF ABin.prems(1) w] prefix_tokens_simps in simp_all)
  qed (use compilable_parts(3)[OF ABin.prems(1)] in simp)
  then obtain s4 code where e: "compiles_to NExpression ?s1 (ABin o1 a b) ?js s4 [temp_localvar] (int (length (vlocals (current ?s1)))) code T" by blast
  from close_parens[OF t cLex_ok[OF l(1)] e refl ABin.prems(3)] show ?case by blast
qed

text \<open>
  C3: The code that is compiled for an arithmetic expression computes it.  From the tokens of a parenthesised
  expression over 32-bit literals and local variables, followed by a token that ends expressions, the parser
  reaches that token, has emitted code after the present one and pushed one target; run on registers that
  hold the variables, the code leaves the value in that register and every register of a local unchanged, or
  raises the division error, or faults, as the expression does.
\<close>

theorem compiled_arithmetic_correct:
  assumes "compilable (env s) (vlocals (current s)) e" "coming s (atokens e @ TTok u # js)" "u \<in> stop_tokens" "funcs s \<noteq> []"
    "stacksize (current s) \<le> 255"
  shows "\<exists>depth s' r code. (\<forall>d \<ge> depth. \<exists>x. parse d NExpression s = Ok x s') \<and> coming s' (TTok u # js)
     \<and> instructions (current s') = instructions (current s) @ code \<and> targetstack (current s') = targetstack (current s) @ [r]
     \<and> (\<forall>(V :: 'x vmstate vmenv) \<rho> m. (\<forall>x \<in> avars e. regs m (reg_of (env s) (vlocals (current s)) x) = OInteger (\<rho> x)) \<longrightarrow>
          (case aeval \<rho> e of
             Done i \<Rightarrow> \<exists>f. exec_seq V code m = Some (Continue (m\<lparr>regs := f\<rparr>)) \<and> f r = OInteger i
                        \<and> (\<forall>k < int (length (vlocals (current s))). f k = regs m k)
           | Fail err \<Rightarrow> \<exists>f. exec_seq V code m = Some (Thrown (m\<lparr>regs := f, lasterror := Some err\<rparr>))
           | Trap \<Rightarrow> exec_seq V code m = Some Crash))"
proof -
  let ?s = "s\<lparr>es := fresh_es\<rparr>"
  have u: "u \<notin> prefix_tokens" using assms(3) by (auto simp: stop_tokens_def prefix_tokens_def)
  obtain s1 w r code where c: "compiles_to NPrefixedExpr ?s e (TTok u # js) s1 w r code (TYPE('x vmstate))"
    using compile_prefixed[of ?s e u js "TYPE('x vmstate)"] assms u by auto
  then have a: "answers NPrefixedExpr ?s s1" "coming s1 (TTok u # js)" "emitted s s1 w [r] code"
    "computes (env s) (vlocals (current s)) e r code (TYPE('x vmstate))" by (simp_all add: compiles_to_def)
  have t: "token s1 \<in> stop_tokens" using coming_item[OF a(2)] assms(3) by simp
  then have "answers NLogicalOrExp ?s s1" by (intro answers_climb[OF a(1)]) auto
  then have "answers NExpression s (s1\<lparr>es := es s\<rparr>)" by (rule answers_Expression[OF _ t])
  then obtain depth x where "\<And>d. depth \<le> d \<Longrightarrow> parse d NExpression s = Ok x (s1\<lparr>es := es s\<rparr>)" by (rule answersE) blast
  then have p: "\<forall>d \<ge> depth. \<exists>x. parse d NExpression s = Ok x (s1\<lparr>es := es s\<rparr>)" by blast
  have i: "instructions (current s1) = instructions (current s) @ code" "targetstack (current s1) = targetstack (current s) @ [r]"
    using a(3) by (auto simp: emitted_def)
  show ?thesis
    by (rule exI[of _ depth], rule exI[of _ "s1\<lparr>es := es s\<rparr>"], rule exI[of _ r], rule exI[of _ code])
       (use p i a(2,4) in \<open>simp add: computes_def outcome_in_def\<close>)
qed

text \<open>The source \<open>((1 + x) * 3);\<close> with \<open>x\<close> in register 1; strings are their lengths.\<close>

definition sample_env :: compenv where
  "sample_env =
     \<lparr>cintern = (\<lambda>x. of_nat (length x)), cchars = (\<lambda>p. ''''), chash = (\<lambda>p. 0), cweak = (\<lambda>p. ONull), calloc = of_nat,
      cstrtod = (\<lambda>x. 0), csourcename = ONull, clineinfo = False\<rparr>"

definition sample_exp :: aexp where
  "sample_exp = ABin ATimes (ABin APlus (ANum 1) (AVar ''x'')) (ANum 3)"

definition sample_locals :: "localvar list" where
  "sample_locals = [temp_localvar\<lparr>lname := OString 4\<rparr>, temp_localvar\<lparr>lname := OString 1\<rparr>]"

definition first_token :: "string \<Rightarrow> (lexer \<times> int) option" where
  "first_token src =
     (case Init (map of_char src) of Inl e \<Rightarrow> None
      | Inr l \<Rightarrow> (case Lex (\<lambda>x. 0) l of Inl e \<Rightarrow> None | Inr r \<Rightarrow> Some r))"

definition at_start :: "string \<Rightarrow> cstate" where
  "at_start src =
     (case first_token src of
        None \<Rightarrow> initial_state sample_env undefined (CreateTable 0) Map.empty
      | Some (l, t) \<Rightarrow> (initial_state sample_env l (CreateTable 0) Map.empty)
          \<lparr>token := t, funcs := [(new_fctx False ONull)\<lparr>cfs := (new_funcstate False)\<lparr>vlocals := sample_locals, stacksize := 2\<rparr>\<rparr>]\<rparr>)"

lemma lexed:
  assumes "case first_token src of None \<Rightarrow> False | Some (l, t) \<Rightarrow> ahead (\<lambda>x. 0) l t js"
  shows "coming (at_start src) js" "funcs (at_start src) \<noteq> []" "vlocals (current (at_start src)) = sample_locals"
    "stacksize (current (at_start src)) = 2" "env (at_start src) = sample_env"
  using assms by (auto simp: at_start_def sample_env_def initial_state_def split: option.splits)

lemma sample_reg: "reg_of sample_env sample_locals ''x'' = 1"
  by code_simp

lemma compiled_arithmetic_correct_witness:
  "\<exists>r code. \<forall>(V :: unit vmstate vmenv) m. regs m 1 = OInteger 13 \<longrightarrow>
     (\<exists>f. exec_seq V code m = Some (Continue (m\<lparr>regs := f\<rparr>)) \<and> f r = OInteger 42 \<and> f 1 = OInteger 13)"
proof -
  let ?s = "at_start ''((1 + x) * 3);''"
  note s = lexed[where src = "''((1 + x) * 3);''" and js = "atokens sample_exp @ [TTok (tk CHR '';'')]"]
  have l: "case first_token ''((1 + x) * 3);'' of None \<Rightarrow> False
     | Some (l, t) \<Rightarrow> ahead (\<lambda>x. 0) l t (atokens sample_exp @ [TTok (tk CHR '';'')])" by code_simp
  have c: "compilable (env ?s) (vlocals (current ?s)) sample_exp"
    by (simp add: s[OF l] compilable_def sample_exp_def sample_reg) (simp add: sample_locals_def)
  obtain r code where "\<forall>(V :: unit vmstate vmenv) \<rho> m.
     (\<forall>x \<in> avars sample_exp. regs m (reg_of (env ?s) (vlocals (current ?s)) x) = OInteger (\<rho> x)) \<longrightarrow>
     (case aeval \<rho> sample_exp of
        Done i \<Rightarrow> \<exists>f. exec_seq V code m = Some (Continue (m\<lparr>regs := f\<rparr>)) \<and> f r = OInteger i
                   \<and> (\<forall>k < int (length (vlocals (current ?s))). f k = regs m k)
      | Fail err \<Rightarrow> \<exists>f. exec_seq V code m = Some (Thrown (m\<lparr>regs := f, lasterror := Some err\<rparr>))
      | Trap \<Rightarrow> exec_seq V code m = Some Crash)"
    using compiled_arithmetic_correct[OF c s(1)[OF l], where 'x = unit] s(2,4)[OF l] by (auto simp: stop_tokens_def)
  note run = this[rule_format, of _ "\<lambda>x. 13", unfolded s(3,5)[OF l]]
  have v: "avars sample_exp = {''x''}" "aeval (\<lambda>x. 13) sample_exp = Done 42" by (simp_all add: sample_exp_def)
  have n: "length sample_locals = 2" by (simp add: sample_locals_def)
  have "\<exists>f. exec_seq V code m = Some (Continue (m\<lparr>regs := f\<rparr>)) \<and> f r = OInteger 42 \<and> f 1 = OInteger 13"
    if "regs m 1 = OInteger 13" for V :: "unit vmstate vmenv" and m
    using run[of m V] that by (auto simp: v sample_reg n)
  then show ?thesis by blast
qed

section \<open>Less than\<close>

definition fails :: "nonterm \<Rightarrow> cstate \<Rightarrow> string \<Rightarrow> bool" where
  "fails n s e \<longleftrightarrow> (\<exists>depth. \<forall>d \<ge> depth. parse d n s = Error e)"

lemma failsI:
  assumes "\<And>call. call a s1 = Error e \<Longrightarrow> dispatch call n s = Error e" "fails a s1 e"
  shows "fails n s e"
proof -
  from assms(2) obtain depth where "\<And>d. depth \<le> d \<Longrightarrow> parse d a s1 = Error e" unfolding fails_def by blast
  then have "parse d n s = Error e" if "Suc depth \<le> d" for d using that assms(1) by (cases d) auto
  then show ?thesis unfolding fails_def by blast
qed

lemma fails_level: "n \<in> bin_levels \<Longrightarrow> fails (sub n) s e \<Longrightarrow> fails n s e"
  by (rule failsI[of "sub n" s]) (simp add: dispatch_level cbind_def)

lemma Expression_fails:
  assumes "fails NFactor (s\<lparr>es := fresh_es\<rparr>) e"
  shows "fails NExpression s e"
proof -
  let ?s = "s\<lparr>es := fresh_es\<rparr>"
  have "fails NPrefixedExpr ?s e"
    by (rule failsI[OF _ assms]) (simp add: dispatch_def PrefixedExpr_def cbind_def)
  then have "fails NBitwiseOrExp ?s e"
    using fails_level[of NMultExp] fails_level[of NPlusExp] fails_level[of NShiftExp] fails_level[of NCompExp] fails_level[of NEqExp]
      fails_level[of NBitwiseAndExp] fails_level[of NBitwiseXorExp] fails_level[of NBitwiseOrExp] by (simp add: bin_levels_def)
  then have "fails NLogicalAndExp ?s e" by (rule failsI[rotated]) (simp add: dispatch_def LogicalAndExp_def cbind_def)
  then have "fails NLogicalOrExp ?s e" by (rule failsI[rotated]) (simp add: dispatch_def LogicalOrExp_def cbind_def)
  then show ?thesis by (rule failsI[rotated]) (simp add: dispatch_def Expression_def cbind_def cvoid_def del: cbind_simps)
qed

lemma dispatch_Factor: "dispatch call NFactor = Factor call"
  by (simp add: dispatch_def)

lemma Factor_fails: "(\<And>call. Factor call s = Error e) \<Longrightarrow> fails NFactor s e"
  unfolding fails_def by (rule exI[of _ 1]) (metis Suc_le_D One_nat_def dispatch_Factor parse.simps(2))

lemma remaining_Suc: "2 * n + 2 = Suc (Suc (2 * n))"
  by simp

text \<open>
  C38: Less than cannot be used.  As an expression, a name followed by \<open><\<close> and an integer literal is an error about
  generic argument lists, and so is a name followed by \<open><\<close> and a second name, unless \<open>,\<close> or \<open>>\<close> comes next.
\<close>

theorem less_than_rejected:
  "(coming s [TName x, TTok (tk CHR ''<''), TNum i] \<longrightarrow>
      (\<exists>depth. \<forall>d \<ge> depth. parse d NExpression s = Error ''expected type name in generic argument list''))
    \<and> (coming s [TName x, TTok (tk CHR ''<''), TName y, TTok u] \<and> u \<notin> {tk CHR '','', tk CHR ''>''} \<longrightarrow>
      (\<exists>depth. \<forall>d \<ge> depth. parse d NExpression s = Error (''expected '' @ [CHR 0x27] @ ''>'' @ [CHR 0x27] @ '' after generic argument list'')))"
  unfolding fails_def [symmetric]
proof (intro conjI impI)
  let ?e = "''expected type name in generic argument list''"
  assume t: "coming s [TName x, TTok (tk CHR ''<''), TNum i]"
  then obtain l t1 where l: "Lex (cstrtod (env s)) (lx s) = Inr (l, t1)" "ahead (cstrtod (env s)) l t1 [TTok (tk CHR ''<''), TNum i]"
    by (rule coming_step) simp
  then obtain l' t2 where l': "Lex (cstrtod (env s)) l = Inr (l', t2)" "t1 = 60" "t2 = TK_INTEGER"
    by (auto split: sum.splits)
  have "Factor call (s\<lparr>es := fresh_es\<rparr>) = Error ?e" for call
    using coming_item[OF t] by (simp add: Factor_def identifier_of_def CreateString_def cbind_def cLex_def l(1) l'
        identifier_generics_def cerror_def remaining_Suc del: cbind_simps)
  then show "fails NExpression s ?e" by (intro Expression_fails Factor_fails)
next
  let ?e = "''expected '' @ [CHR 0x27] @ ''>'' @ [CHR 0x27] @ '' after generic argument list''"
  assume t: "coming s [TName x, TTok (tk CHR ''<''), TName y, TTok u] \<and> u \<notin> {tk CHR '','', tk CHR ''>''}"
  then obtain l t1 where l: "Lex (cstrtod (env s)) (lx s) = Inr (l, t1)"
    "ahead (cstrtod (env s)) l t1 [TTok (tk CHR ''<''), TName y, TTok u]" using coming_step[of s "TName x"] by blast
  then obtain l2 t2 l3 where l': "Lex (cstrtod (env s)) l = Inr (l2, t2)" "t1 = 60" "t2 = TK_IDENTIFIER"
    "Lex (cstrtod (env s)) l2 = Inr (l3, u)" by (auto split: sum.splits)
  have u: "u \<noteq> 44" "u \<noteq> 62" using t by auto
  have "token s = TK_IDENTIFIER" using t coming_item[of s "TName x"] by auto
  then have "Factor call (s\<lparr>es := fresh_es\<rparr>) = Error ?e" for call
    by (simp add: Factor_def identifier_of_def CreateString_def cbind_def cLex_def l(1) l' u
        identifier_generics_def cerror_def remaining_Suc del: cbind_simps)
  then show "fails NExpression s ?e" by (intro Expression_fails Factor_fails)
qed

lemma less_than_rejected_witness:
  "\<exists>d. parse d NExpression (at_start ''n < 1'') = Error ''expected type name in generic argument list''"
proof -
  have l: "case first_token ''n < 1'' of None \<Rightarrow> False
     | Some (l, t) \<Rightarrow> ahead (\<lambda>x. 0) l t [TName ''n'', TTok (tk CHR ''<''), TNum 1]" by code_simp
  have "coming (at_start ''n < 1'') [TName ''n'', TTok (tk CHR ''<''), TNum 1]" by (rule lexed(1)[OF l])
  with less_than_rejected[of "at_start ''n < 1''" "''n''" 1] show ?thesis by blast
qed

end
