(* ===== verification/GS_Rex.thy ===== *)
theory GS_Rex
  imports GS_Prelude
begin

text \<open>
  The regular expressions of the standard library (gstdrex.cpp): the parser, which builds a vector of nodes linked by
  indices, and the matcher, which walks it.

  A pattern or text is the list of its characters (signed) before the terminating zero; reading the zero is fine,
  reading behind it is \<open>RUndef\<close>, and so is a node outside of the vector.  Pointers into a text are positions,
  None is the null pointer; -1 is the null index, also for the null \<open>GSRexNode *\<close>.  An outcome is \<open>ROk\<close>, the
  long jump \<open>RError\<close>, \<open>RUndef\<close>, or \<open>RFuel\<close> where the recursion is cut off.  The character classes are those of
  the C locale.
\<close>

section \<open>Outcomes\<close>

datatype ('a, 's) rx = ROk 'a 's | RError string | RUndef | RFuel

type_synonym ('a, 's) rxm = "'s \<Rightarrow> ('a, 's) rx"

definition rreturn :: "'a \<Rightarrow> ('a, 's) rxm" where "rreturn x s = ROk x s"
definition rerror :: "string \<Rightarrow> ('a, 's) rxm" where "rerror e s = RError e"
definition rundef :: "('a, 's) rxm" where "rundef s = RUndef"
definition rfuel :: "('a, 's) rxm" where "rfuel s = RFuel"

definition rbind :: "('a, 's) rxm \<Rightarrow> ('a \<Rightarrow> ('b, 's) rxm) \<Rightarrow> ('b, 's) rxm" where
  "rbind m f s = (case m s of ROk x s1 \<Rightarrow> f x s1 | RError e \<Rightarrow> RError e | RUndef \<Rightarrow> RUndef | RFuel \<Rightarrow> RFuel)"

definition rget :: "('s \<Rightarrow> 'a) \<Rightarrow> ('a, 's) rxm" where "rget f s = ROk (f s) s"
definition rput :: "('s \<Rightarrow> 's) \<Rightarrow> (unit, 's) rxm" where "rput f s = ROk () (f s)"

text \<open>A character of a C string.\<close>

definition char_at :: "int list \<Rightarrow> nat \<Rightarrow> (int, 's) rxm" where
  "char_at str i = (if i < length str then rreturn (str ! i) else if i = length str then rreturn 0 else rundef)"

abbreviation ch :: "char \<Rightarrow> int" where "ch c \<equiv> of_char c"

section \<open>Character classes\<close>

definition c_space :: "int \<Rightarrow> bool" where "c_space c \<longleftrightarrow> c = 32 \<or> (9 \<le> c \<and> c \<le> 13)"
definition c_digit :: "int \<Rightarrow> bool" where "c_digit c \<longleftrightarrow> 48 \<le> c \<and> c \<le> 57"
definition c_lower :: "int \<Rightarrow> bool" where "c_lower c \<longleftrightarrow> 97 \<le> c \<and> c \<le> 122"
definition c_upper :: "int \<Rightarrow> bool" where "c_upper c \<longleftrightarrow> 65 \<le> c \<and> c \<le> 90"
definition c_alpha :: "int \<Rightarrow> bool" where "c_alpha c \<longleftrightarrow> c_lower c \<or> c_upper c"
definition c_alnum :: "int \<Rightarrow> bool" where "c_alnum c \<longleftrightarrow> c_alpha c \<or> c_digit c"
definition c_xdigit :: "int \<Rightarrow> bool" where "c_xdigit c \<longleftrightarrow> c_digit c \<or> (65 \<le> c \<and> c \<le> 70) \<or> (97 \<le> c \<and> c \<le> 102)"
definition c_print :: "int \<Rightarrow> bool" where "c_print c \<longleftrightarrow> 32 \<le> c \<and> c \<le> 126"
definition c_cntrl :: "int \<Rightarrow> bool" where "c_cntrl c \<longleftrightarrow> (0 \<le> c \<and> c \<le> 31) \<or> c = 127"
definition c_punct :: "int \<Rightarrow> bool" where "c_punct c \<longleftrightarrow> c_print c \<and> c \<noteq> 32 \<and> \<not> c_alnum c"

definition matchcclass :: "int \<Rightarrow> int \<Rightarrow> bool" where
  "matchcclass cclass c =
     (if cclass = ch CHR ''a'' then c_alpha c
      else if cclass = ch CHR ''A'' then \<not> c_alpha c
      else if cclass = ch CHR ''w'' then c_alnum c \<or> c = ch CHR ''_''
      else if cclass = ch CHR ''W'' then \<not> c_alnum c \<and> c \<noteq> ch CHR ''_''
      else if cclass = ch CHR ''s'' then c_space c
      else if cclass = ch CHR ''S'' then \<not> c_space c
      else if cclass = ch CHR ''d'' then c_digit c
      else if cclass = ch CHR ''D'' then \<not> c_digit c
      else if cclass = ch CHR ''x'' then c_xdigit c
      else if cclass = ch CHR ''X'' then \<not> c_xdigit c
      else if cclass = ch CHR ''c'' then c_cntrl c
      else if cclass = ch CHR ''C'' then \<not> c_cntrl c
      else if cclass = ch CHR ''p'' then c_punct c
      else if cclass = ch CHR ''P'' then \<not> c_punct c
      else if cclass = ch CHR ''l'' then c_lower c
      else if cclass = ch CHR ''u'' then c_upper c
      else False)"

section \<open>Nodes\<close>

definition OP_GREEDY :: int where "OP_GREEDY = 256"
definition OP_OR :: int where "OP_OR = 257"
definition OP_EXPR :: int where "OP_EXPR = 258"
definition OP_NOCAPEXPR :: int where "OP_NOCAPEXPR = 259"
definition OP_DOT :: int where "OP_DOT = 260"
definition OP_CLASS :: int where "OP_CLASS = 261"
definition OP_CCLASS :: int where "OP_CCLASS = 262"
definition OP_NCLASS :: int where "OP_NCLASS = 263"
definition OP_RANGE :: int where "OP_RANGE = 264"
definition OP_EOL :: int where "OP_EOL = 266"
definition OP_BOL :: int where "OP_BOL = 267"
definition OP_WB :: int where "OP_WB = 268"
definition OP_MB :: int where "OP_MB = 269"

lemmas rex_ops = OP_GREEDY_def OP_OR_def OP_EXPR_def OP_NOCAPEXPR_def OP_DOT_def OP_CLASS_def OP_CCLASS_def OP_NCLASS_def
  OP_RANGE_def OP_EOL_def OP_BOL_def OP_WB_def OP_MB_def

record rexnode =
  rtype :: int
  rleft :: int
  rright :: int
  rnext :: int

text \<open>The parser: \<open>rpos\<close> is \<open>_p\<close>.\<close>

record rexp =
  rpos :: nat
  rnodes :: "rexnode list"
  rallocated :: nat
  rsubexpr :: int

type_synonym 'a rparse = "('a, rexp) rxm"

text \<open>\<open>gstd_rex_newnode\<close>: the vector doubles when it is full; a vector of size 0 stays as it is, and the node
  is written behind its end.\<close>

definition newnode :: "int \<Rightarrow> int rparse" where
  "newnode typ s =
     (let n = \<lparr>rtype = typ, rleft = -1, rright = (if typ = OP_EXPR then rsubexpr s else -1), rnext = -1\<rparr>;
          k = (if typ = OP_EXPR then rsubexpr s + 1 else rsubexpr s);
          a = (if rallocated s < length (rnodes s) + 1 then 2 * rallocated s else rallocated s) in
      if a < length (rnodes s) + 1 then RUndef
      else ROk (int (length (rnodes s))) (s\<lparr>rnodes := rnodes s @ [n], rallocated := a, rsubexpr := k\<rparr>))"

definition rnode :: "int \<Rightarrow> rexnode rparse" where
  "rnode i s = (if 0 \<le> i \<and> i < int (length (rnodes s)) then ROk (rnodes s ! nat i) s else RUndef)"

definition set_node :: "int \<Rightarrow> (rexnode \<Rightarrow> rexnode) \<Rightarrow> unit rparse" where
  "set_node i f s =
     (if 0 \<le> i \<and> i < int (length (rnodes s)) then ROk () (s\<lparr>rnodes := (rnodes s)[nat i := f (rnodes s ! nat i)]\<rparr>) else RUndef)"

abbreviation set_left :: "int \<Rightarrow> int \<Rightarrow> unit rparse" where "set_left i v \<equiv> set_node i (\<lambda>n. n\<lparr>rleft := v\<rparr>)"
abbreviation set_right :: "int \<Rightarrow> int \<Rightarrow> unit rparse" where "set_right i v \<equiv> set_node i (\<lambda>n. n\<lparr>rright := v\<rparr>)"
abbreviation set_next :: "int \<Rightarrow> int \<Rightarrow> unit rparse" where "set_next i v \<equiv> set_node i (\<lambda>n. n\<lparr>rnext := v\<rparr>)"

section \<open>Parser\<close>

text \<open>\<open>*exp->_p\<close> and \<open>exp->_p++\<close>.\<close>

definition peek_char :: "int list \<Rightarrow> int rparse" where "peek_char pat s = char_at pat (rpos s) s"
definition advance :: "unit rparse" where "advance = rput (\<lambda>s. s\<lparr>rpos := rpos s + 1\<rparr>)"

definition take_char :: "int list \<Rightarrow> int rparse" where
  "take_char pat = rbind (peek_char pat) (\<lambda>c. rbind advance (\<lambda>_. rreturn c))"

definition rex_expect :: "int list \<Rightarrow> int \<Rightarrow> unit rparse" where
  "rex_expect pat n = rbind (peek_char pat) (\<lambda>c. if c \<noteq> n then rerror ''expected paren'' else advance)"

text \<open>The control characters of the escapes v, n, t, r and f.\<close>

definition control_escape :: "int \<Rightarrow> int option" where
  "control_escape c = map_of [(ch CHR ''v'', 11), (ch CHR ''n'', 10), (ch CHR ''t'', 9), (ch CHR ''r'', 13), (ch CHR ''f'', 12)] c"

definition escapechar :: "int list \<Rightarrow> int rparse" where
  "escapechar pat =
     rbind (peek_char pat) (\<lambda>c.
       if c = 92 then
         rbind advance (\<lambda>_. rbind (take_char pat) (\<lambda>e.
           rreturn (case control_escape e of Some k \<Rightarrow> k | None \<Rightarrow> e)))
       else if \<not> c_print c then rerror ''letter expected''
       else take_char pat)"

definition charclass :: "int \<Rightarrow> int rparse" where
  "charclass classid = rbind (newnode OP_CCLASS) (\<lambda>n. rbind (set_left n classid) (\<lambda>_. rreturn n))"

definition class_letters :: "int set" where
  "class_letters = of_char ` set ''aAwWsSdDxXcCpPlu''"

text \<open>The escapes \<open>\mXY\<close> and \<open>\b\<close>, \<open>\B\<close>, and all escapes.\<close>

definition balanced_node :: "int list \<Rightarrow> int rparse" where
  "balanced_node pat =
     rbind advance (\<lambda>_. rbind (take_char pat) (\<lambda>cb. rbind (take_char pat) (\<lambda>ce.
       if cb = 0 \<or> ce = 0 then rerror ''balanced chars expected''
       else if cb = ce then rerror ''open/close char can't be the same''
       else rbind (newnode OP_MB) (\<lambda>n. rbind (set_left n cb) (\<lambda>_. rbind (set_right n ce) (\<lambda>_. rreturn n))))))"

definition boundary_node :: "int \<Rightarrow> int rparse" where
  "boundary_node e = rbind (newnode OP_WB) (\<lambda>n. rbind (set_left n e) (\<lambda>_. rbind advance (\<lambda>_. rreturn n)))"

definition escape_node :: "int list \<Rightarrow> bool \<Rightarrow> int rparse" where
  "escape_node pat isclass =
     rbind (peek_char pat) (\<lambda>e.
       case control_escape e of
         Some k \<Rightarrow> rbind advance (\<lambda>_. newnode k)
       | None \<Rightarrow>
           if e \<in> class_letters then rbind advance (\<lambda>_. charclass e)
           else if e = ch CHR ''m'' then balanced_node pat
           else if e = 0 then rerror ''letter expected for argument of escape sequence''
           else if (e = ch CHR ''b'' \<or> e = ch CHR ''B'') \<and> \<not> isclass then boundary_node e
           else rbind advance (\<lambda>_. newnode e))"

definition charnode :: "int list \<Rightarrow> bool \<Rightarrow> int rparse" where
  "charnode pat isclass =
     rbind (peek_char pat) (\<lambda>c.
       if c = 92 then rbind advance (\<lambda>_. escape_node pat isclass)
       else if \<not> c_print c then rerror ''letter expected''
       else rbind advance (\<lambda>_. newnode c))"

text \<open>A range in a class, after the dash; \<open>first\<close> is the node of its lower end, \<open>chain\<close> the last item.  The test for the
  bracket after the dash looks at the dash.\<close>

definition close_range :: "int list \<Rightarrow> int \<Rightarrow> rexnode \<Rightarrow> int \<Rightarrow> int rparse" where
  "close_range pat r f chain =
     rbind (peek_char pat) (\<lambda>c1.
       if c1 < rtype f then rerror ''invalid range''
       else if rtype f = OP_CCLASS then rerror ''cannot use character classes in ranges''
       else rbind (set_left r (rtype f)) (\<lambda>_. rbind (escapechar pat) (\<lambda>t.
              rbind (set_right r t) (\<lambda>_. rbind (set_next chain r) (\<lambda>_. rreturn r)))))"

definition range_item :: "int list \<Rightarrow> int \<Rightarrow> int \<Rightarrow> int rparse" where
  "range_item pat first chain =
     rbind advance (\<lambda>_. rbind (newnode OP_RANGE) (\<lambda>r. rbind (rnode first) (\<lambda>f. close_range pat r f chain)))"

text \<open>The items of a class up to the bracket; \<open>first\<close> is the last character, which may begin a range.  The other test of
  the loop compares with \<open>_eol\<close>, which is null while a pattern is compiled.\<close>

fun class_items :: "nat \<Rightarrow> int list \<Rightarrow> int \<Rightarrow> int \<Rightarrow> (int \<times> int) rparse" where
  "class_items 0 pat first chain = rfuel"
| "class_items (Suc k) pat first chain =
     rbind (peek_char pat) (\<lambda>c.
       if c = ch CHR '']'' then rreturn (first, chain)
       else if c = ch CHR ''-'' \<and> first \<noteq> -1 then rbind (range_item pat first chain) (\<lambda>r. class_items k pat (-1) r)
       else if first \<noteq> -1 then
         rbind (set_next chain first) (\<lambda>_. rbind (charnode pat True) (\<lambda>n. class_items k pat n first))
       else rbind (charnode pat True) (\<lambda>n. class_items k pat n chain))"

definition class_end :: "int \<Rightarrow> int \<Rightarrow> int \<Rightarrow> int rparse" where
  "class_end ret first chain =
     rbind (if first \<noteq> -1 then set_next chain first else rreturn ()) (\<lambda>_.
     rbind (rnode ret) (\<lambda>n. rbind (set_left ret (rnext n)) (\<lambda>_. rbind (set_next ret (-1)) (\<lambda>_. rreturn ret))))"

definition class_body :: "int list \<Rightarrow> int \<Rightarrow> int rparse" where
  "class_body pat ret =
     rbind (peek_char pat) (\<lambda>c. if c = ch CHR '']'' then rerror ''empty class'' else
     rbind (rget (\<lambda>s. length pat + 2 - rpos s)) (\<lambda>k. rbind (class_items k pat (-1) ret) (\<lambda>fc. class_end ret (fst fc) (snd fc))))"

definition rex_class :: "int list \<Rightarrow> int rparse" where
  "rex_class pat =
     rbind (peek_char pat) (\<lambda>c.
     rbind (if c = ch CHR ''^'' then rbind (newnode OP_NCLASS) (\<lambda>n. rbind advance (\<lambda>_. rreturn n)) else newnode OP_CLASS) (class_body pat))"

fun number_digits :: "nat \<Rightarrow> int list \<Rightarrow> int \<Rightarrow> int \<Rightarrow> int rparse" where
  "number_digits 0 pat ret positions = rfuel"
| "number_digits (Suc k) pat ret positions =
     rbind (peek_char pat) (\<lambda>c.
       if c_digit c then
         rbind advance (\<lambda>_. if positions = 1000000000 then rerror ''overflow in numeric constant''
                            else number_digits k pat (ret * 10 + (c - 48)) (positions * 10))
       else rreturn ret)"

definition parsenumber :: "int list \<Rightarrow> int rparse" where
  "parsenumber pat =
     rbind (take_char pat) (\<lambda>c. rbind (rget (\<lambda>s. length pat + 2 - rpos s)) (\<lambda>k. number_digits k pat (c - 48) 10))"

text \<open>The repetition after an element, as the 16-bit bounds \<open>p0\<close> and \<open>p1\<close>.\<close>

definition upper_bound :: "int list \<Rightarrow> int \<Rightarrow> (int \<times> int) option rparse" where
  "upper_bound pat p0 =
     rbind (peek_char pat) (\<lambda>g.
     rbind (if c_digit g then rbind (parsenumber pat) (\<lambda>n1. rreturn (n1 mod 65536)) else rreturn 0xFFFF) (\<lambda>p1.
     rbind (rex_expect pat (ch CHR ''}'')) (\<lambda>_. rreturn (Some (p0, p1)))))"

definition after_lower :: "int list \<Rightarrow> int \<Rightarrow> (int \<times> int) option rparse" where
  "after_lower pat p0 =
     rbind (peek_char pat) (\<lambda>e.
       if e = ch CHR ''}'' then rbind advance (\<lambda>_. rreturn (Some (p0, p0)))
       else if e = ch CHR '','' then rbind advance (\<lambda>_. upper_bound pat p0)
       else rerror '', or } expected'')"

definition braces :: "int list \<Rightarrow> (int \<times> int) option rparse" where
  "braces pat =
     rbind (peek_char pat) (\<lambda>d.
       if \<not> c_digit d then rerror ''number expected''
       else rbind (parsenumber pat) (\<lambda>n0. after_lower pat (n0 mod 65536)))"

definition repetition :: "int list \<Rightarrow> (int \<times> int) option rparse" where
  "repetition pat =
     rbind (peek_char pat) (\<lambda>c.
       if c = ch CHR ''*'' then rbind advance (\<lambda>_. rreturn (Some (0, 0xFFFF)))
       else if c = ch CHR ''+'' then rbind advance (\<lambda>_. rreturn (Some (1, 0xFFFF)))
       else if c = ch CHR ''?'' then rbind advance (\<lambda>_. rreturn (Some (0, 1)))
       else if c = ch CHR ''{'' then rbind advance (\<lambda>_. braces pat)
       else rreturn None)"

text \<open>\<open>gstd_rex_list\<close> and \<open>gstd_rex_element\<close> call each other; the fuel bounds the nesting of their calls.\<close>

definition group_rest :: "int list \<Rightarrow> int rparse \<Rightarrow> int \<Rightarrow> int rparse" where
  "group_rest pat inner expr =
     rbind inner (\<lambda>newn. rbind (set_left expr newn) (\<lambda>_. rbind (rex_expect pat (ch CHR '')'')) (\<lambda>_. rreturn expr)))"

definition bracketed :: "int list \<Rightarrow> int rparse \<Rightarrow> int rparse" where
  "bracketed pat inner =
     rbind advance (\<lambda>_. rbind (peek_char pat) (\<lambda>c.
     rbind (if c = ch CHR ''?'' then rbind advance (\<lambda>_. rbind (rex_expect pat (ch CHR '':'')) (\<lambda>_. newnode OP_NOCAPEXPR))
            else newnode OP_EXPR) (group_rest pat inner)))"

definition element_head :: "int list \<Rightarrow> int rparse \<Rightarrow> int rparse" where
  "element_head pat inner =
     rbind (peek_char pat) (\<lambda>c.
       if c = ch CHR ''('' then bracketed pat inner
       else if c = ch CHR ''['' then
         rbind advance (\<lambda>_. rbind (rex_class pat) (\<lambda>ret. rbind (rex_expect pat (ch CHR '']'')) (\<lambda>_. rreturn ret)))
       else if c = ch CHR ''$'' then rbind advance (\<lambda>_. newnode OP_EOL)
       else if c = ch CHR ''.'' then rbind advance (\<lambda>_. newnode OP_DOT)
       else charnode pat False)"

definition repeated :: "int list \<Rightarrow> int \<Rightarrow> int rparse" where
  "repeated pat ret =
     rbind (repetition pat) (\<lambda>r.
       case r of
         None \<Rightarrow> rreturn ret
       | Some (p0, p1) \<Rightarrow>
           rbind (newnode OP_GREEDY) (\<lambda>n. rbind (set_left n ret) (\<lambda>_. rbind (set_right n (p0 * 65536 + p1)) (\<lambda>_. rreturn n))))"

definition alternative :: "int rparse \<Rightarrow> int \<Rightarrow> int rparse" where
  "alternative inner ret =
     rbind (newnode OP_OR) (\<lambda>temp. rbind (set_left temp ret) (\<lambda>_. rbind inner (\<lambda>tright.
       rbind (set_right temp tright) (\<lambda>_. rreturn temp))))"

definition list_rest :: "int list \<Rightarrow> int rparse \<Rightarrow> int rparse \<Rightarrow> int \<Rightarrow> int rparse" where
  "list_rest pat inner element bol =
     rbind element (\<lambda>e.
     rbind (if bol \<noteq> -1 then rbind (set_next bol e) (\<lambda>_. rreturn bol) else rreturn e) (\<lambda>ret.
     rbind (peek_char pat) (\<lambda>c. if c = ch CHR ''|'' then rbind advance (\<lambda>_. alternative inner ret) else rreturn ret)))"

fun rex_list :: "nat \<Rightarrow> int list \<Rightarrow> int rparse"
and rex_element :: "nat \<Rightarrow> int list \<Rightarrow> int rparse" where
  "rex_list 0 pat = rfuel"
| "rex_list (Suc k) pat =
     rbind (peek_char pat) (\<lambda>c.
     rbind (if c = ch CHR ''^'' then rbind advance (\<lambda>_. newnode OP_BOL) else rreturn (-1))
       (list_rest pat (rex_list k pat) (rex_element k pat)))"
| "rex_element 0 pat = rfuel"
| "rex_element (Suc k) pat =
     rbind (element_head pat (rex_list k pat)) (\<lambda>ret0. rbind (repeated pat ret0) (\<lambda>ret.
     rbind (peek_char pat) (\<lambda>c.
       if c \<notin> {ch CHR ''|'', ch CHR '')'', ch CHR ''*'', ch CHR ''+'', 0} then
         rbind (rex_element k pat) (\<lambda>nnode. rbind (set_next ret nnode) (\<lambda>_. rreturn ret))
       else rreturn ret)))"

text \<open>\<open>gstd_rex_compile\<close>; node 0 is \<open>_first\<close>.\<close>

definition rex_compile :: "nat \<Rightarrow> int list \<Rightarrow> (unit, rexp) rx" where
  "rex_compile fuel pat =
     rbind (newnode OP_EXPR) (\<lambda>first.
     rbind (rex_list fuel pat) (\<lambda>res. rbind (set_left first res) (\<lambda>_. rbind (peek_char pat) (\<lambda>c.
       if c \<noteq> 0 then rerror ''unexpected character'' else rreturn ()))))
     \<lparr>rpos = 0, rnodes = [], rallocated = length pat, rsubexpr = 0\<rparr>"

section \<open>Matcher\<close>

text \<open>A compiled expression with the text to match; \<open>_bol\<close> and \<open>_eol\<close> are positions in the text.\<close>

record rexenv =
  enodes :: "rexnode list"
  etext :: "int list"
  ebol :: nat
  eeol :: nat

record rexmatch =
  mbegin :: "nat option"
  mlen :: int

record rexstate =
  currsubexp :: int
  rmatches :: "rexmatch list"

type_synonym 'a rmatch = "('a, rexstate) rxm"
type_synonym matcher = "int \<Rightarrow> nat \<Rightarrow> int \<Rightarrow> nat option rmatch"

definition node_at :: "rexenv \<Rightarrow> int \<Rightarrow> rexnode rmatch" where
  "node_at E i = (if 0 \<le> i \<and> i < int (length (enodes E)) then rreturn (enodes E ! nat i) else rundef)"

definition deref :: "rexenv \<Rightarrow> nat \<Rightarrow> int rmatch" where
  "deref E i = char_at (etext E) i"

text \<open>The items of a class, linked by \<open>next\<close>.\<close>

definition item_matches :: "rexnode \<Rightarrow> int \<Rightarrow> bool" where
  "item_matches n c \<longleftrightarrow>
     (if rtype n = OP_RANGE then rleft n \<le> c \<and> c \<le> rright n
      else if rtype n = OP_CCLASS then matchcclass (rleft n) c
      else c = rtype n)"

fun matchclass :: "nat \<Rightarrow> rexenv \<Rightarrow> int \<Rightarrow> int \<Rightarrow> bool rmatch" where
  "matchclass 0 E i c = rfuel"
| "matchclass (Suc k) E i c =
     rbind (node_at E i) (\<lambda>n.
       if item_matches n c then rreturn True
       else if rnext n \<noteq> -1 then matchclass k E (rnext n) c
       else rreturn False)"

definition bound0 :: "rexnode \<Rightarrow> nat" where "bound0 n = nat ((rright n div 65536) mod 65536)"
definition bound1 :: "rexnode \<Rightarrow> nat" where "bound1 n = nat (rright n mod 65536)"

definition enough :: "nat \<Rightarrow> nat \<Rightarrow> nat \<Rightarrow> bool" where
  "enough p0 p1 n \<longleftrightarrow> (p0 = p1 \<and> p0 = n) \<or> (p0 \<le> n \<and> p1 = 0xFFFF) \<or> (p0 \<le> n \<and> n \<le> p1)"

text \<open>Whether what follows matches at \<open>s\<close>, so that the repetition stops.\<close>

definition stops_here :: "rexenv \<Rightarrow> matcher \<Rightarrow> int \<Rightarrow> int \<Rightarrow> nat \<Rightarrow> nat \<Rightarrow> nat \<Rightarrow> nat \<Rightarrow> bool rmatch" where
  "stops_here E call stop next p0 p1 n s =
     (if stop = -1 then rreturn False
      else rbind (node_at E stop) (\<lambda>g.
        if rtype g \<noteq> OP_GREEDY \<or> bound0 g \<noteq> 0 then
          rbind (if rnext g \<noteq> -1 then rreturn (rnext g)
                 else if next \<noteq> -1 then rbind (node_at E next) (\<lambda>x. rreturn (rnext x)) else rreturn (-1)) (\<lambda>gnext.
          rbind (call stop s gnext) (\<lambda>r. rreturn (r \<noteq> None \<and> enough p0 p1 n)))
        else rreturn False))"

text \<open>The loop of a repetition; the answer is the last position and the number of matches.\<close>

function greedy_loop :: "rexenv \<Rightarrow> matcher \<Rightarrow> int \<Rightarrow> int \<Rightarrow> int \<Rightarrow> nat \<Rightarrow> nat \<Rightarrow> nat \<Rightarrow> nat \<Rightarrow> (nat \<times> nat) rmatch" where
  "greedy_loop E call body stop next p0 p1 n s =
     (if n = 0xFFFF \<or> n < p1 then
        rbind (call body s stop) (\<lambda>r.
          case r of
            None \<Rightarrow> rreturn (s, n)
          | Some s1 \<Rightarrow>
              rbind (stops_here E call stop next p0 p1 (n + 1) s1) (\<lambda>b.
                if b \<or> eeol E \<le> s1 then rreturn (s1, n + 1)
                else greedy_loop E call body stop next p0 p1 (n + 1) s1))
      else rreturn (s, n))"
  by auto
termination
  by (relation "measure (\<lambda>(E, call, body, stop, next, p0, p1, n, s). max p1 0x10000 - n)") auto

declare greedy_loop.simps [simp del]

text \<open>The nodes of one branch of an alternative, one after the other.\<close>

fun branch :: "nat \<Rightarrow> rexenv \<Rightarrow> matcher \<Rightarrow> int \<Rightarrow> nat \<Rightarrow> nat option rmatch" where
  "branch 0 E call temp asd = rfuel"
| "branch (Suc k) E call temp asd =
     rbind (call temp asd (-1)) (\<lambda>r.
       case r of
         None \<Rightarrow> rreturn None
       | Some a \<Rightarrow> rbind (node_at E temp) (\<lambda>t. if rnext t \<noteq> -1 then branch k E call (rnext t) a else rreturn (Some a)))"

text \<open>The nodes of a group.\<close>

fun group_items :: "nat \<Rightarrow> rexenv \<Rightarrow> matcher \<Rightarrow> int \<Rightarrow> int \<Rightarrow> nat \<Rightarrow> nat option rmatch" where
  "group_items 0 E call next n cur = rfuel"
| "group_items (Suc k) E call next n cur =
     rbind (node_at E n) (\<lambda>m.
     rbind (call n cur (if rnext m \<noteq> -1 then rnext m else next)) (\<lambda>r.
       case r of
         None \<Rightarrow> rreturn None
       | Some a \<Rightarrow> if rnext m \<noteq> -1 then group_items k E call next (rnext m) a else rreturn (Some a)))"

definition set_match :: "int \<Rightarrow> (rexmatch \<Rightarrow> rexmatch) \<Rightarrow> unit rmatch" where
  "set_match i f s =
     (if 0 \<le> i \<and> i < int (length (rmatches s)) then ROk () (s\<lparr>rmatches := (rmatches s)[nat i := f (rmatches s ! nat i)]\<rparr>) else RUndef)"

definition end_group :: "int \<Rightarrow> int \<Rightarrow> nat option \<Rightarrow> nat option rmatch" where
  "end_group capture tempcap r =
     (case r of
        None \<Rightarrow>
          rbind (if capture \<noteq> -1 then set_match capture (\<lambda>m. m\<lparr>mbegin := None, mlen := 0\<rparr>) else rreturn ()) (\<lambda>_. rreturn None)
      | Some cur \<Rightarrow>
          rbind (rput (\<lambda>s. s\<lparr>currsubexp := tempcap\<rparr>)) (\<lambda>_.
          rbind (if capture \<noteq> -1 then
                   set_match capture (\<lambda>m. m\<lparr>mlen := int cur - int (case mbegin m of None \<Rightarrow> 0 | Some b \<Rightarrow> b)\<rparr>)
                 else rreturn ()) (\<lambda>_. rreturn (Some cur))))"

definition match_group :: "rexenv \<Rightarrow> matcher \<Rightarrow> rexnode \<Rightarrow> nat \<Rightarrow> int \<Rightarrow> nat option rmatch" where
  "match_group E call node str next =
     rbind (rget currsubexp) (\<lambda>curr.
     let capture = (if rtype node \<noteq> OP_NOCAPEXPR \<and> rright node = curr then curr else -1) in
     rbind (if capture \<noteq> -1 then
              rbind (set_match capture (\<lambda>m. m\<lparr>mbegin := Some str\<rparr>)) (\<lambda>_. rput (\<lambda>s. s\<lparr>currsubexp := currsubexp s + 1\<rparr>))
            else rreturn ()) (\<lambda>_.
     rbind (rget currsubexp) (\<lambda>tempcap.
     rbind (group_items (Suc (length (enodes E))) E call next (rleft node) str) (end_group capture tempcap))))"

text \<open>\<open>OP_WB\<close>: the disjuncts are tried in turn, and so are the reads in them.\<close>

definition spaces :: "rexenv \<Rightarrow> nat \<Rightarrow> bool rmatch" where
  "spaces E i = rbind (deref E i) (\<lambda>c. rreturn (c_space c))"

definition word_boundary :: "rexenv \<Rightarrow> nat \<Rightarrow> bool rmatch" where
  "word_boundary E str =
     rbind (if str = ebol E then rbind (spaces E str) (\<lambda>b. rreturn (\<not> b)) else rreturn False) (\<lambda>d1.
     if d1 then rreturn True
     else rbind (if str = eeol E then (if str = 0 then rundef else rbind (spaces E (str - 1)) (\<lambda>b. rreturn (\<not> b))) else rreturn False) (\<lambda>d2.
       if d2 then rreturn True
       else rbind (spaces E str) (\<lambda>here. rbind (spaces E (str + 1)) (\<lambda>there. rreturn (here \<noteq> there)))))"

text \<open>\<open>OP_MB\<close> after the opening character: the loop \<open>while (++str < streol)\<close>.\<close>

fun balanced :: "nat \<Rightarrow> rexenv \<Rightarrow> int \<Rightarrow> int \<Rightarrow> int \<Rightarrow> nat \<Rightarrow> nat option rmatch" where
  "balanced 0 E cb ce cont str = rfuel"
| "balanced (Suc k) E cb ce cont str =
     (if str + 1 < eeol E then
        rbind (deref E (str + 1)) (\<lambda>c.
          if c = ce then (if cont - 1 = 0 then rreturn (Some (str + 2)) else balanced k E cb ce (cont - 1) (str + 1))
          else balanced k E cb ce (if c = cb then cont + 1 else cont) (str + 1))
      else rreturn None)"

text \<open>The nodes for one character; the first test is that for the end of the text.\<close>

definition one_char :: "rexenv \<Rightarrow> nat \<Rightarrow> (int \<Rightarrow> bool rmatch) \<Rightarrow> nat option rmatch" where
  "one_char E str test =
     (if str = eeol E then rreturn None
      else rbind (deref E str) (\<lambda>c. rbind (test c) (\<lambda>b. rreturn (if b then Some (str + 1) else None))))"

definition match_leaf :: "rexenv \<Rightarrow> rexnode \<Rightarrow> nat \<Rightarrow> nat option rmatch" where
  "match_leaf E node str =
     (if rtype node = OP_WB then
        rbind (word_boundary E str) (\<lambda>b. rreturn (if b = (rleft node = ch CHR ''b'') then Some str else None))
      else if rtype node = OP_BOL then rreturn (if str = ebol E then Some str else None)
      else if rtype node = OP_EOL then rreturn (if str = eeol E then Some str else None)
      else if rtype node = OP_DOT then rreturn (if str = eeol E then None else Some (str + 1))
      else if rtype node = OP_NCLASS \<or> rtype node = OP_CLASS then
        one_char E str (\<lambda>c. rbind (matchclass (Suc (length (enodes E))) E (rleft node) c) (\<lambda>b. rreturn (b = (rtype node = OP_CLASS))))
      else if rtype node = OP_CCLASS then one_char E str (\<lambda>c. rreturn (matchcclass (rleft node) c))
      else if rtype node = OP_MB then
        rbind (deref E str) (\<lambda>c.
          if c \<noteq> rleft node then rreturn None else balanced (Suc (eeol E)) E (rleft node) (rright node) 1 str)
      else one_char E str (\<lambda>c. rreturn (c = rtype node)))"

text \<open>\<open>gstd_rex_matchnode\<close> with its calls to itself.\<close>

definition match_step :: "rexenv \<Rightarrow> matcher \<Rightarrow> matcher" where
  "match_step E call i str next =
     rbind (node_at E i) (\<lambda>node.
       if rtype node = OP_GREEDY then
         let stop = (if rnext node \<noteq> -1 then rnext node else next); p0 = bound0 node; p1 = bound1 node in
         rbind (greedy_loop E call (rleft node) stop next p0 p1 0 str) (\<lambda>(good, n).
           rreturn (if enough p0 p1 n then Some good else None))
       else if rtype node = OP_OR then
         rbind (branch (Suc (length (enodes E))) E call (rleft node) str) (\<lambda>r.
           case r of
             Some a \<Rightarrow> rreturn (Some a)
           | None \<Rightarrow> branch (Suc (length (enodes E))) E call (rright node) str)
       else if rtype node = OP_EXPR \<or> rtype node = OP_NOCAPEXPR then match_group E call node str next
       else match_leaf E node str)"

primrec matchnode :: "nat \<Rightarrow> rexenv \<Rightarrow> matcher" where
  "matchnode 0 E = (\<lambda>i str next. rfuel)"
| "matchnode (Suc k) E = match_step E (matchnode k E)"

section \<open>Matching and searching\<close>

definition no_matches :: "int \<Rightarrow> rexstate" where
  "no_matches k = \<lparr>currsubexp = 0, rmatches = replicate (nat k) \<lparr>mbegin = None, mlen = 0\<rparr>\<rparr>"

text \<open>\<open>gstd_rex_match\<close>.\<close>

definition rex_match :: "nat \<Rightarrow> rexnode list \<Rightarrow> int list \<Rightarrow> bool rmatch" where
  "rex_match fuel nodes text =
     rbind (rput (\<lambda>s. s\<lparr>currsubexp := 0\<rparr>)) (\<lambda>_.
     rbind (matchnode fuel \<lparr>enodes = nodes, etext = text, ebol = 0, eeol = length text\<rparr> 0 0 (-1)) (\<lambda>r.
       rreturn (r = Some (length text))))"

text \<open>\<open>gstd_rex_searchrange\<close>: \<open>node\<close> is not reset when a start fails, and the first node has no \<open>next\<close>, so that the
  inner loop ends after it.\<close>

fun search_nodes :: "nat \<Rightarrow> rexenv \<Rightarrow> matcher \<Rightarrow> int \<Rightarrow> nat \<Rightarrow> (int \<times> nat option) rmatch" where
  "search_nodes 0 E call node cur = rfuel"
| "search_nodes (Suc k) E call node cur =
     (if node = -1 then rreturn (node, Some cur)
      else rbind (rput (\<lambda>s. s\<lparr>currsubexp := 0\<rparr>)) (\<lambda>_. rbind (call node cur (-1)) (\<lambda>r.
        case r of
          None \<Rightarrow> rreturn (node, None)
        | Some c \<Rightarrow> rbind (node_at E node) (\<lambda>n. search_nodes k E call (rnext n) c))))"

fun search_from :: "nat \<Rightarrow> rexenv \<Rightarrow> matcher \<Rightarrow> int \<Rightarrow> nat \<Rightarrow> nat \<Rightarrow> (nat \<times> nat) option rmatch" where
  "search_from 0 E call node beg fin = rfuel"
| "search_from (Suc k) E call node beg fin =
     rbind (search_nodes (Suc (length (enodes E))) E call node beg) (\<lambda>(node', cur).
       case cur of
         Some e \<Rightarrow> rreturn (Some (beg, e))
       | None \<Rightarrow> if beg + 1 = fin then rreturn None else search_from k E call node' (beg + 1) fin)"

definition searchrange :: "nat \<Rightarrow> rexnode list \<Rightarrow> int list \<Rightarrow> nat \<Rightarrow> nat \<Rightarrow> (nat \<times> nat) option rmatch" where
  "searchrange fuel nodes text beg fin =
     (let E = \<lparr>enodes = nodes, etext = text, ebol = beg, eeol = fin\<rparr> in
      if fin \<le> beg then rreturn None
      else search_from (Suc fin) E (matchnode fuel E) 0 beg fin)"

definition rex_search :: "nat \<Rightarrow> rexnode list \<Rightarrow> int list \<Rightarrow> (nat \<times> nat) option rmatch" where
  "rex_search fuel nodes text = searchrange fuel nodes text 0 (length text)"

text \<open>\<open>gstd_rex_getsubexp\<close>.\<close>

definition getsubexp :: "int \<Rightarrow> rexstate \<Rightarrow> rexmatch option" where
  "getsubexp n s = (if n < 0 \<or> int (length (rmatches s)) \<le> n then None else Some (rmatches s ! nat n))"

end
