(* ===== verification/GS_RexParse.thy ===== *)
theory GS_RexParse
  imports GS_Rex
begin

text \<open>
  The parser of regular expressions leaves a well-formed tree: the order of the nodes in the vector, rules for the parsing
  monad, and one lemma per function of the parser.
\<close>

section \<open>The nodes of an expression\<close>

text \<open>The indices of the items of a class.\<close>

fun links :: "rexnode list \<Rightarrow> nat list \<Rightarrow> bool" where
  "links ns [] \<longleftrightarrow> False"
| "links ns [i] \<longleftrightarrow> i < length ns \<and> rnext (ns ! i) = -1"
| "links ns (i # j # js) \<longleftrightarrow> i < length ns \<and> i < j \<and> rnext (ns ! i) = int j \<and> links ns (j # js)"

definition inner_types :: "int set" where
  "inner_types = {OP_GREEDY, OP_OR, OP_EXPR, OP_NOCAPEXPR, OP_CLASS, OP_NCLASS}"

text \<open>The node \<open>i\<close>, or the chain of siblings from \<open>i\<close> on, occupies the indices from \<open>lo\<close> to \<open>hi\<close>; \<open>K\<close> bounds the
  numbers of the captures.\<close>

inductive wf_node :: "int \<Rightarrow> rexnode list \<Rightarrow> nat \<Rightarrow> nat \<Rightarrow> nat \<Rightarrow> bool"
  and wf_chain :: "int \<Rightarrow> rexnode list \<Rightarrow> nat \<Rightarrow> nat \<Rightarrow> nat \<Rightarrow> bool" for K ns where
  wf_leaf: "lo \<le> i \<Longrightarrow> i < hi \<Longrightarrow> hi \<le> length ns \<Longrightarrow> rtype (ns ! i) \<notin> inner_types \<Longrightarrow> wf_node K ns lo hi i"
| wf_class: "lo \<le> i \<Longrightarrow> i < hi \<Longrightarrow> hi \<le> length ns \<Longrightarrow> rtype (ns ! i) \<in> {OP_CLASS, OP_NCLASS} \<Longrightarrow> rleft (ns ! i) = int j \<Longrightarrow>
    links ns (j # js) \<Longrightarrow> set (j # js) \<subseteq> {i<..<hi} \<Longrightarrow> wf_node K ns lo hi i"
| wf_greedy: "i < hi \<Longrightarrow> hi \<le> length ns \<Longrightarrow> rtype (ns ! i) = OP_GREEDY \<Longrightarrow> rleft (ns ! i) = int l \<Longrightarrow> wf_chain K ns lo i l \<Longrightarrow>
    rnext (ns ! l) = -1 \<Longrightarrow> wf_node K ns lo hi i"
| wf_or: "i < hi \<Longrightarrow> hi \<le> length ns \<Longrightarrow> rtype (ns ! i) = OP_OR \<Longrightarrow> rleft (ns ! i) = int l \<Longrightarrow> wf_chain K ns lo i l \<Longrightarrow>
    rright (ns ! i) = int r \<Longrightarrow> wf_chain K ns (Suc i) hi r \<Longrightarrow> wf_node K ns lo hi i"
| wf_expr: "lo \<le> i \<Longrightarrow> i < hi \<Longrightarrow> hi \<le> length ns \<Longrightarrow> rtype (ns ! i) \<in> {OP_EXPR, OP_NOCAPEXPR} \<Longrightarrow> rleft (ns ! i) = int l \<Longrightarrow>
    wf_chain K ns (Suc i) hi l \<Longrightarrow> (rtype (ns ! i) = OP_EXPR \<Longrightarrow> 0 \<le> rright (ns ! i) \<and> rright (ns ! i) < K) \<Longrightarrow> wf_node K ns lo hi i"
| wf_last: "wf_node K ns lo mid i \<Longrightarrow> rnext (ns ! i) = -1 \<Longrightarrow> mid \<le> hi \<Longrightarrow> hi \<le> length ns \<Longrightarrow> wf_chain K ns lo hi i"
| wf_more: "wf_node K ns lo mid i \<Longrightarrow> rnext (ns ! i) = int j \<Longrightarrow> wf_chain K ns mid hi j \<Longrightarrow> wf_chain K ns lo hi i"

lemma wf_range:
  "wf_node K ns lo hi i \<Longrightarrow> lo \<le> i \<and> i < hi \<and> hi \<le> length ns"
  "wf_chain K ns lo hi i \<Longrightarrow> lo \<le> i \<and> i < hi \<and> hi \<le> length ns"
  by (induction rule: wf_node_wf_chain.inducts) auto

text \<open>Only the nodes of the range matter.\<close>

lemma links_cong: "links ns js \<Longrightarrow> \<forall>j \<in> set js. j < length ns' \<and> ns' ! j = ns ! j \<Longrightarrow> links ns' js"
  by (induction ns js rule: links.induct) auto

abbreviation same_range :: "nat \<Rightarrow> nat \<Rightarrow> rexnode list \<Rightarrow> rexnode list \<Rightarrow> bool" where
  "same_range lo hi ns ns' \<equiv> hi \<le> length ns' \<and> (\<forall>j. lo \<le> j \<and> j < hi \<longrightarrow> ns' ! j = ns ! j)"

lemma wf_cong:
  "wf_node K ns lo hi i \<Longrightarrow> K \<le> K' \<Longrightarrow> same_range lo hi ns ns' \<Longrightarrow> wf_node K' ns' lo hi i"
  "wf_chain K ns lo hi i \<Longrightarrow> K \<le> K' \<Longrightarrow> same_range lo hi ns ns' \<Longrightarrow> wf_chain K' ns' lo hi i"
proof (induction rule: wf_node_wf_chain.inducts)
  case (wf_leaf lo i hi)
  then show ?case by (intro wf_node_wf_chain.wf_leaf) auto
next
  case (wf_class lo i hi j js)
  have "links ns' (j # js)" by (rule links_cong[of ns]) (use wf_class in auto)
  then show ?case by (rule wf_node_wf_chain.wf_class[rotated 5]) (use wf_class in auto)
next
  case (wf_greedy i hi l lo)
  then show ?case using wf_range(2)[OF wf_greedy(5)] by (intro wf_node_wf_chain.wf_greedy) auto
next
  case (wf_or i hi l lo r)
  then show ?case using wf_range(2)[OF wf_or(5)] wf_range(2)[OF wf_or(8)] by (intro wf_node_wf_chain.wf_or[of i hi _ l]) auto
next
  case (wf_expr lo i hi l)
  then show ?case by (intro wf_node_wf_chain.wf_expr) auto
next
  case (wf_last lo mid i hi)
  then show ?case using wf_range(1)[OF wf_last(1)] by (intro wf_node_wf_chain.wf_last[of _ _ lo mid]) auto
next
  case (wf_more lo mid i j hi)
  then show ?case using wf_range(1)[OF wf_more(1)] wf_range(2)[OF wf_more(4)] by (intro wf_node_wf_chain.wf_more[of _ _ lo mid]) auto
qed

lemma wf_widen:
  "wf_node K ns lo hi i \<Longrightarrow> lo' \<le> lo \<Longrightarrow> wf_node K ns lo' hi i"
  "wf_chain K ns lo hi i \<Longrightarrow> lo' \<le> lo \<Longrightarrow> wf_chain K ns lo' hi i"
proof (induction rule: wf_node_wf_chain.inducts)
  case (wf_class lo i hi j js)
  then show ?case by (intro wf_node_wf_chain.wf_class[where j = j and js = js]) simp_all
qed (auto intro: wf_node_wf_chain.intros)

lemma wf_chain_node: "wf_chain K ns lo hi i \<Longrightarrow> rnext (ns ! i) = -1 \<Longrightarrow> \<exists>mid \<le> hi. wf_node K ns lo mid i"
  by (cases rule: wf_chain.cases) auto

lemma wf_set_next:
  assumes "wf_node K ns lo hi i"
  shows "wf_node K (ns[i := (ns ! i)\<lparr>rnext := v\<rparr>]) lo hi i"
proof -
  let ?ns = "ns[i := (ns ! i)\<lparr>rnext := v\<rparr>]"
  have i: "i < length ns" "hi \<le> length ns" using wf_range(1)[OF assms] by auto
  have n: "rtype (?ns ! i) = rtype (ns ! i)" "rleft (?ns ! i) = rleft (ns ! i)" "rright (?ns ! i) = rright (ns ! i)" using i by simp_all
  have c: "wf_chain K ns a b l \<Longrightarrow> b \<le> i \<or> i < a \<Longrightarrow> wf_chain K ?ns a b l" for a b l
    using wf_range(2)[of K ns a b l] wf_cong(2)[of K ns a b l K ?ns] by auto
  show ?thesis
    using assms
  proof (cases rule: wf_node.cases)
    case wf_leaf
    then show ?thesis by (intro wf_node_wf_chain.wf_leaf) (simp_all add: n)
  next
    case (wf_class j js)
    have "links ?ns (j # js)" by (rule links_cong[OF wf_class(6)]) (use wf_class i in auto)
    with wf_class show ?thesis by (intro wf_node_wf_chain.wf_class[where j = j and js = js]) (simp_all add: n)
  next
    case (wf_greedy l)
    have "l < i" using wf_range(2)[OF wf_greedy(5)] by simp
    with wf_greedy show ?thesis by (intro wf_node_wf_chain.wf_greedy[where l = l]) (simp_all add: n c)
  next
    case (wf_or l r)
    then show ?thesis by (intro wf_node_wf_chain.wf_or[where l = l and r = r]) (simp_all add: n c)
  next
    case (wf_expr l)
    then show ?thesis by (intro wf_node_wf_chain.wf_expr[where l = l]) (simp_all add: n c)
  qed
qed

lemma wf_attach:
  assumes "wf_chain K ns lo mid i" "rnext (ns ! i) = -1" "wf_chain K' ns mid hi j" "K \<le> K'"
  shows "wf_chain K' (ns[i := (ns ! i)\<lparr>rnext := int j\<rparr>]) lo hi i"
proof -
  let ?ns = "ns[i := (ns ! i)\<lparr>rnext := int j\<rparr>]"
  from wf_chain_node[OF assms(1,2)] obtain m where m: "m \<le> mid" "wf_node K ns lo m i" by blast
  note r = wf_range(1)[OF m(2)] wf_range(2)[OF assms(3)]
  have "wf_node K' ?ns lo m i" by (rule wf_set_next[OF wf_cong(1)[OF m(2) assms(4)]]) (use r in simp)
  moreover have "wf_chain K' ?ns mid hi j" by (rule wf_cong(2)[OF assms(3)]) (use r m(1) in auto)
  then have "wf_chain K' ?ns m hi j" using m(1) by (rule wf_widen(2))
  ultimately show ?thesis by (intro wf_more[of _ _ lo m i j hi]) (use r in simp_all)
qed

section \<open>The parser, by what it leaves\<close>

definition c_string :: "int list \<Rightarrow> bool" where
  "c_string str \<longleftrightarrow> (\<forall>c \<in> set str. c \<noteq> 0 \<and> -128 \<le> c \<and> c \<le> 127)"

text \<open>The patterns on which the parser may step over the zero at the end: those that end in a backslash or in \<open>\m\<close>.\<close>

definition dangling :: "int list \<Rightarrow> bool" where
  "dangling pat \<longleftrightarrow> (\<exists>p. pat = p @ [92] \<or> pat = p @ [92, ch CHR ''m''])"

lemma dangling_backslash:
  assumes "i < length pat" "pat ! i = 92" "Suc i = length pat"
  shows "dangling pat"
proof -
  have "pat = take i pat @ [pat ! i]" using assms take_Suc_conv_app_nth[of i pat] by simp
  then show ?thesis using assms(2) unfolding dangling_def by metis
qed

lemma dangling_m:
  assumes "Suc i < length pat" "pat ! i = 92" "pat ! Suc i = ch CHR ''m''" "Suc (Suc i) = length pat"
  shows "dangling pat"
proof -
  have "pat = take (Suc i) pat @ [pat ! Suc i]" using assms take_Suc_conv_app_nth[of "Suc i" pat] by simp
  also have "take (Suc i) pat = take i pat @ [pat ! i]" using assms by (intro take_Suc_conv_app_nth) simp
  finally show ?thesis using assms(2,3) unfolding dangling_def by (metis append.assoc append_Cons append_Nil)
qed

text \<open>The weakest condition under which \<open>m\<close> does not run out of fuel, has no undefined behaviour but on a dangling
  pattern, and leaves \<open>Q\<close>.\<close>

definition parses :: "int list \<Rightarrow> 'a rparse \<Rightarrow> rexp \<Rightarrow> ('a \<Rightarrow> rexp \<Rightarrow> bool) \<Rightarrow> bool" where
  "parses pat m s Q \<longleftrightarrow>
     (case m s of ROk x s' \<Rightarrow> Q x s' | RError e \<Rightarrow> True | RUndef \<Rightarrow> dangling pat | RFuel \<Rightarrow> False)"

definition parsing :: "int list \<Rightarrow> rexp \<Rightarrow> bool" where
  "parsing pat s \<longleftrightarrow> length (rnodes s) \<le> rallocated s \<and> 0 < rallocated s \<and> 0 \<le> rsubexpr s
     \<and> rpos s \<le> length pat + (if dangling pat then 1 else 0)"

lemma parses_mono: "parses pat m s Q \<Longrightarrow> (\<And>x s'. Q x s' \<Longrightarrow> Q' x s') \<Longrightarrow> parses pat m s Q'"
  by (auto simp: parses_def split: rx.splits)

lemma parses_simps [simp]:
  "parses pat (rbind m f) s Q \<longleftrightarrow> parses pat m s (\<lambda>x s1. parses pat (f x) s1 Q)"
  "parses pat (rreturn x) s Q \<longleftrightarrow> Q x s"
  "parses pat (rerror e) s Q"
  by (auto simp: parses_def rbind_def rreturn_def rerror_def split: rx.split)

lemma parses_state [simp]:
  "parses pat (rget g) s Q \<longleftrightarrow> Q (g s) s" "parses pat advance s R \<longleftrightarrow> R () (s\<lparr>rpos := rpos s + 1\<rparr>)"
  by (simp_all add: parses_def rget_def rput_def advance_def)

lemma parses_if [simp]: "parses pat (if b then m else m') s Q \<longleftrightarrow> (if b then parses pat m s Q else parses pat m' s Q)"
  by simp

lemma parses_peek:
  assumes "parsing pat s" "rpos s < length pat \<Longrightarrow> Q (pat ! rpos s) s" "rpos s = length pat \<Longrightarrow> Q 0 s"
  shows "parses pat (peek_char pat) s Q"
  using assms by (auto simp: parses_def peek_char_def char_at_def rreturn_def rundef_def parsing_def split: if_splits)

lemma parses_newnode [simp]:
  "parsing pat s \<Longrightarrow> parses pat (newnode typ) s Q \<longleftrightarrow>
     Q (int (length (rnodes s)))
       (s\<lparr>rnodes := rnodes s @ [\<lparr>rtype = typ, rleft = -1, rright = (if typ = OP_EXPR then rsubexpr s else -1), rnext = -1\<rparr>],
          rallocated := (if rallocated s < length (rnodes s) + 1 then 2 * rallocated s else rallocated s),
          rsubexpr := (if typ = OP_EXPR then rsubexpr s + 1 else rsubexpr s)\<rparr>)"
  by (auto simp: parses_def newnode_def parsing_def Let_def)

lemma parses_node [simp]:
  "0 \<le> i \<Longrightarrow> i < int (length (rnodes s)) \<Longrightarrow> parses pat (rnode i) s R \<longleftrightarrow> R (rnodes s ! nat i) s"
  "0 \<le> i \<Longrightarrow> i < int (length (rnodes s)) \<Longrightarrow>
     parses pat (set_node i f) s Q \<longleftrightarrow> Q () (s\<lparr>rnodes := (rnodes s)[nat i := f (rnodes s ! nat i)]\<rparr>)"
  by (simp_all add: parses_def rnode_def set_node_def)

lemma parses_peek_wp:
  "parses pat (peek_char pat) s Q \<longleftrightarrow>
     (if rpos s < length pat then Q (pat ! rpos s) s else if rpos s = length pat then Q 0 s else dangling pat)"
  by (simp add: parses_def peek_char_def char_at_def rreturn_def rundef_def)

definition grew :: "int list \<Rightarrow> rexp \<Rightarrow> rexp \<Rightarrow> bool" where
  "grew pat s s' \<longleftrightarrow> parsing pat s' \<and> rpos s \<le> rpos s' \<and> rsubexpr s \<le> rsubexpr s'
     \<and> length (rnodes s) \<le> length (rnodes s') \<and> (\<forall>j < length (rnodes s). rnodes s' ! j = rnodes s ! j)"

lemma grew_trans: "grew pat s s1 \<Longrightarrow> grew pat s1 s2 \<Longrightarrow> grew pat s s2"
  unfolding grew_def by (auto dest: less_le_trans)

text \<open>A node that is a leaf, in front of the rest.\<close>

definition new_leaf :: "rexp \<Rightarrow> int \<Rightarrow> rexp \<Rightarrow> bool" where
  "new_leaf s n s' \<longleftrightarrow> n = int (length (rnodes s)) \<and> length (rnodes s') = Suc (length (rnodes s))
     \<and> rnext (rnodes s' ! length (rnodes s)) = -1 \<and> rtype (rnodes s' ! length (rnodes s)) \<notin> inner_types"

lemma c_string_nth: "c_string pat \<Longrightarrow> i < length pat \<Longrightarrow> pat ! i \<noteq> 0 \<and> -128 \<le> pat ! i \<and> pat ! i \<le> 127"
  by (auto simp: c_string_def)

lemma control_escape_range: "control_escape c = Some k \<Longrightarrow> 9 \<le> k \<and> k \<le> 13"
  by (auto simp: control_escape_def split: if_splits)

lemma leaf_types: "-128 \<le> c \<Longrightarrow> c \<le> 255 \<Longrightarrow> c \<notin> inner_types" "OP_CCLASS \<notin> inner_types" "OP_MB \<notin> inner_types"
  "OP_WB \<notin> inner_types" "OP_EOL \<notin> inner_types" "OP_BOL \<notin> inner_types" "OP_DOT \<notin> inner_types" "OP_RANGE \<notin> inner_types"
  by (auto simp: inner_types_def rex_ops)

lemma parsing_advance:
  "parsing pat s \<Longrightarrow> rpos s < length pat \<or> dangling pat \<and> rpos s \<le> length pat \<Longrightarrow> parsing pat (s\<lparr>rpos := Suc (rpos s)\<rparr>)"
  by (auto simp: parsing_def)

text \<open>What the parsers of one node leave.\<close>

definition leaf_at :: "int list \<Rightarrow> rexp \<Rightarrow> int \<Rightarrow> rexp \<Rightarrow> bool" where
  "leaf_at pat s n s' \<longleftrightarrow> grew pat s s' \<and> rpos s < rpos s' \<and> new_leaf s n s'"

lemma parses_newleaf:
  assumes "parsing pat s" "typ \<notin> inner_types"
    and "\<And>s'. parsing pat s' \<Longrightarrow> grew pat s s' \<Longrightarrow> new_leaf s (int (length (rnodes s))) s' \<Longrightarrow> rpos s' = rpos s \<Longrightarrow> Q (int (length (rnodes s))) s'"
  shows "parses pat (newnode typ) s Q"
proof -
  have "typ \<noteq> OP_EXPR" using assms(2) by (auto simp: inner_types_def)
  with assms(1,2) show ?thesis by (auto intro!: assms(3) simp: grew_def new_leaf_def parsing_def nth_append)
qed

lemma new_leaf_advanced: "new_leaf (s\<lparr>rpos := k\<rparr>) n s' \<longleftrightarrow> new_leaf s n s'" "new_leaf s n (s'\<lparr>rpos := k\<rparr>) \<longleftrightarrow> new_leaf s n s'"
  "grew pat (s\<lparr>rpos := k\<rparr>) s' \<Longrightarrow> rpos s \<le> k \<Longrightarrow> grew pat s s'"
  by (auto simp: new_leaf_def grew_def)

lemma parses_set_leaf:
  assumes "grew pat s s1" "new_leaf s n s1" "\<And>m. rnext (f m) = rnext m" "\<And>m. rtype (f m) = rtype m"
    and "\<And>s2. grew pat s s2 \<Longrightarrow> new_leaf s n s2 \<Longrightarrow> rpos s2 = rpos s1 \<Longrightarrow> Q () s2"
  shows "parses pat (set_node n f) s1 Q"
  using assms(1-4) by (auto simp: grew_def new_leaf_def parsing_def nth_list_update intro!: assms(5))

lemma charclass_leaf:
  assumes "parsing pat s"
  shows "parses pat (charclass c) s (\<lambda>n s'. grew pat s s' \<and> new_leaf s n s' \<and> rpos s' = rpos s)"
  unfolding charclass_def parses_simps
  by (rule parses_newleaf[OF assms leaf_types(2)], rule parses_set_leaf) simp_all

lemma grew_refl [simp]: "parsing pat s \<Longrightarrow> grew pat s s"
  by (simp add: grew_def)

lemma grew_advance: "grew pat s (s\<lparr>rpos := k\<rparr>) \<longleftrightarrow> parsing pat (s\<lparr>rpos := k\<rparr>) \<and> rpos s \<le> k"
  by (auto simp: grew_def)

lemma parses_take_char:
  assumes "parsing pat s" "dangling pat \<or> rpos s < length pat"
    and "\<And>c. parsing pat (s\<lparr>rpos := Suc (rpos s)\<rparr>) \<Longrightarrow> rpos s < length pat \<and> c = pat ! rpos s \<or> rpos s = length pat \<and> c = 0
           \<Longrightarrow> Q c (s\<lparr>rpos := Suc (rpos s)\<rparr>)"
  shows "parses pat (take_char pat) s Q"
  using assms parsing_advance[OF assms(1)] by (auto simp: take_char_def parses_peek_wp)

lemma parses_take_char_wp:
  "parses pat (take_char pat) s Q \<longleftrightarrow>
     (if rpos s < length pat then Q (pat ! rpos s) (s\<lparr>rpos := Suc (rpos s)\<rparr>)
      else if rpos s = length pat then Q 0 (s\<lparr>rpos := Suc (rpos s)\<rparr>) else dangling pat)"
  by (simp add: take_char_def parses_peek_wp)

lemma balanced_leaf:
  assumes "parsing pat s" "Suc i = rpos s" "pat ! i = 92" "rpos s < length pat" "pat ! rpos s = ch CHR ''m''"
  shows "parses pat (balanced_node pat) s (leaf_at pat s)"
proof -
  let ?s = "s\<lparr>rpos := Suc (rpos s)\<rparr>"
  define R where "R = (\<lambda>cb ce. if cb = 0 \<or> ce = 0 then rerror ''balanced chars expected''
       else if cb = ce then rerror ''open/close char can't be the same''
       else rbind (newnode OP_MB) (\<lambda>n. rbind (set_left n cb) (\<lambda>_. rbind (set_right n ce) (\<lambda>_. rreturn n))) :: int rparse)"
  have new: "parses pat (rbind (newnode OP_MB) (\<lambda>n. rbind (set_left n cb) (\<lambda>_. rbind (set_right n ce) (\<lambda>_. rreturn n)))) (s\<lparr>rpos := k\<rparr>) (leaf_at pat s)"
    if "parsing pat (s\<lparr>rpos := k\<rparr>)" "rpos s < k" for k cb ce
    unfolding parses_simps
    by (rule parses_newleaf[OF that(1) leaf_types(3)], rule parses_set_leaf[where s = "s\<lparr>rpos := k\<rparr>"], simp_all,
        rule parses_set_leaf[where s = "s\<lparr>rpos := k\<rparr>"]) (use that(2) in \<open>auto simp: leaf_at_def new_leaf_advanced\<close>)
  have rest: "parses pat (R cb ce) (s\<lparr>rpos := k\<rparr>) (leaf_at pat s)"
    if "ce \<noteq> 0 \<Longrightarrow> k \<le> length pat" "rpos s < k" for cb ce k
  proof (cases "cb = 0 \<or> ce = 0 \<or> cb = ce")
    case False
    then have "parsing pat (s\<lparr>rpos := k\<rparr>)" using assms(1) that(1) by (simp add: parsing_def)
    from new[OF this that(2)] False show ?thesis by (simp add: R_def del: parses_simps(1))
  qed (auto simp: R_def)
  have tail: "parses pat (take_char pat) (s\<lparr>rpos := Suc (Suc (rpos s))\<rparr>) (\<lambda>ce s1. parses pat (R cb ce) s1 (leaf_at pat s))"
    if "Suc (rpos s) < length pat" for cb
    using that rest[of _ "Suc (Suc (Suc (rpos s)))" cb] by (auto simp: parses_take_char_wp)
  have "dangling pat" if "Suc (rpos s) = length pat"
    using assms(2-5) that by (intro dangling_m[of i]) auto
  then have "parses pat (take_char pat) ?s (\<lambda>cb s1. parses pat (take_char pat) s1 (\<lambda>ce s1. parses pat (R cb ce) s1 (leaf_at pat s)))"
    using tail assms(4) by (subst parses_take_char_wp)
      (cases "Suc (rpos s) < length pat", auto simp: parses_take_char_wp[where s = "s\<lparr>rpos := Suc (Suc (rpos s))\<rparr>"])
  then show ?thesis
    unfolding balanced_node_def parses_simps(1)[of _ advance] parses_state(2) Suc_eq_plus1[symmetric]
    unfolding parses_simps(1)[of _ "take_char pat"] R_def .
qed

lemma boundary_leaf:
  assumes "parsing pat s" "rpos s < length pat"
  shows "parses pat (boundary_node e) s (leaf_at pat s)"
  unfolding boundary_node_def parses_simps
  by (rule parses_newleaf[OF assms(1) leaf_types(4)], rule parses_set_leaf[where s = s])
     (use assms(2) in \<open>auto simp: leaf_at_def new_leaf_advanced grew_def parsing_def\<close>)

lemma advanced_leaf:
  assumes "parsing pat s" "rpos s < length pat"
    and "\<And>s1. parsing pat s1 \<Longrightarrow> parses pat m s1 (\<lambda>n s'. grew pat s1 s' \<and> new_leaf s1 n s' \<and> rpos s' = rpos s1)"
  shows "parses pat (rbind advance (\<lambda>_. m)) s (leaf_at pat s)"
proof -
  have "parsing pat (s\<lparr>rpos := Suc (rpos s)\<rparr>)" using assms(1,2) by (simp add: parsing_advance)
  then have "parses pat m (s\<lparr>rpos := Suc (rpos s)\<rparr>) (leaf_at pat s)"
    by (rule parses_mono[OF assms(3)]) (auto simp: leaf_at_def new_leaf_advanced(1) dest: new_leaf_advanced(3))
  then show ?thesis by simp
qed

lemma newnode_leaf:
  assumes "typ \<notin> inner_types" "parsing pat s"
  shows "parses pat (newnode typ) s (\<lambda>n s'. grew pat s s' \<and> new_leaf s n s' \<and> rpos s' = rpos s)"
  by (rule parses_newleaf[OF assms(2,1)]) simp

lemma escape_leaf:
  assumes "c_string pat" "parsing pat s" "Suc i = rpos s" "pat ! i = 92"
  shows "parses pat (escape_node pat b) s (leaf_at pat s)"
proof -
  have e: "rpos s < length pat \<Longrightarrow> pat ! rpos s \<notin> inner_types"
    using c_string_nth[OF assms(1), of "rpos s"] leaf_types(1)[of "pat ! rpos s"] by simp
  have k: "control_escape c = Some k \<Longrightarrow> k \<notin> inner_types" for c k
    using control_escape_range[of c k] leaf_types(1)[of k] by simp
  have z: "control_escape 0 = None" "0 \<notin> class_letters" by (simp_all add: control_escape_def class_letters_def)
  have "parses pat (case control_escape c of
         Some k \<Rightarrow> rbind advance (\<lambda>_. newnode k)
       | None \<Rightarrow>
           if c \<in> class_letters then rbind advance (\<lambda>_. charclass c)
           else if c = ch CHR ''m'' then balanced_node pat
           else if c = 0 then rerror ''letter expected for argument of escape sequence''
           else if (c = ch CHR ''b'' \<or> c = ch CHR ''B'') \<and> \<not> b then boundary_node c
           else rbind advance (\<lambda>_. newnode c)) s (leaf_at pat s)"
    if "rpos s < length pat" "c = pat ! rpos s" for c
    using that assms(2-4) e k[of c]
    by (auto split: option.split simp del: parses_simps(1)
        intro!: advanced_leaf newnode_leaf charclass_leaf balanced_leaf boundary_leaf)
  then show ?thesis using assms(2) z by (auto simp: escape_node_def parses_peek_wp parsing_def split: if_splits)
qed

lemma charnode_leaf:
  assumes "c_string pat" "parsing pat s"
  shows "parses pat (charnode pat b) s (leaf_at pat s)"
proof -
  have e: "rpos s < length pat \<Longrightarrow> pat ! rpos s \<notin> inner_types"
    using c_string_nth[OF assms(1), of "rpos s"] leaf_types(1)[of "pat ! rpos s"] by simp
  have p: "rpos s < length pat \<Longrightarrow> parsing pat (s\<lparr>rpos := Suc (rpos s)\<rparr>)" using assms(2) by (simp add: parsing_advance)
  have "parses pat (rbind advance (\<lambda>_. escape_node pat b)) s (leaf_at pat s)" if "rpos s < length pat" "pat ! rpos s = 92"
  proof -
    have "parses pat (escape_node pat b) (s\<lparr>rpos := Suc (rpos s)\<rparr>) (leaf_at pat s)"
      by (rule parses_mono[OF escape_leaf[OF assms(1) p[OF that(1)], of "rpos s"]])
         (use that in \<open>auto simp: leaf_at_def new_leaf_advanced(1) dest: new_leaf_advanced(3)\<close>)
    then show ?thesis by simp
  qed
  moreover have "parses pat (rbind advance (\<lambda>_. newnode (pat ! rpos s))) s (leaf_at pat s)" if "rpos s < length pat"
    by (rule advanced_leaf[OF assms(2) that newnode_leaf[OF e[OF that]]])
  ultimately show ?thesis
    using assms(2) by (auto simp: charnode_def parses_peek_wp c_print_def parsing_def split: if_splits)
qed

lemma escapechar_ok:
  assumes "parsing pat s"
    and "\<And>t k. rpos s < k \<Longrightarrow> parsing pat (s\<lparr>rpos := k\<rparr>) \<Longrightarrow> Q t (s\<lparr>rpos := k\<rparr>)"
  shows "parses pat (escapechar pat) s Q"
proof -
  have a: "rpos s < length pat \<Longrightarrow> parsing pat (s\<lparr>rpos := Suc (rpos s)\<rparr>)" using assms(1) by (simp add: parsing_advance)
  have "parses pat (take_char pat) (s\<lparr>rpos := Suc (rpos s)\<rparr>) (\<lambda>e. Q (case control_escape e of Some k \<Rightarrow> k | None \<Rightarrow> e))"
    if "rpos s < length pat" "pat ! rpos s = 92"
    by (rule parses_take_char[OF a[OF that(1)]]) (use that dangling_backslash[OF that] in \<open>auto intro!: assms(2)\<close>)
  moreover have "parses pat (take_char pat) s Q" if "rpos s < length pat"
    by (rule parses_take_char[OF assms(1)]) (use that in \<open>auto intro!: assms(2)\<close>)
  ultimately show ?thesis
    using assms(1) by (auto simp: escapechar_def parses_peek_wp c_print_def parsing_def split: if_splits)
qed

lemma links_sorted: "links ns xs \<Longrightarrow> sorted_wrt (<) xs \<and> set xs \<subseteq> {..<length ns} \<and> xs \<noteq> []"
proof (induction ns xs rule: links.induct)
  case (3 ns i j js)
  then show ?case by (auto dest: less_trans)
qed auto

lemma links_append:
  "links ns xs \<Longrightarrow> c = last xs \<Longrightarrow> c < f \<Longrightarrow> f < length ns \<Longrightarrow> rnext (ns ! f) = -1 \<Longrightarrow>
     links (ns[c := (ns ! c)\<lparr>rnext := int f\<rparr>]) (xs @ [f])"
proof (induction ns xs rule: links.induct)
  case (3 ns i j js)
  have "i < last (j # js)" using links_sorted[OF 3(2)] by auto
  then have "i \<noteq> c" using 3(3) by simp
  then show ?case using 3 by simp
qed auto

text \<open>A class under construction: its node \<open>p\<close> and the linked items.\<close>

definition class_inv :: "int list \<Rightarrow> rexp \<Rightarrow> int \<Rightarrow> nat list \<Rightarrow> rexp \<Rightarrow> bool" where
  "class_inv pat s0 typ xs s \<longleftrightarrow>
     parsing pat s \<and> rpos s0 \<le> rpos s \<and> rsubexpr s0 \<le> rsubexpr s \<and> length (rnodes s0) < length (rnodes s)
     \<and> (\<forall>j < length (rnodes s0). rnodes s ! j = rnodes s0 ! j)
     \<and> rtype (rnodes s ! length (rnodes s0)) = typ \<and> links (rnodes s) xs \<and> hd xs = length (rnodes s0)"

definition pending_item :: "nat list \<Rightarrow> int \<Rightarrow> rexp \<Rightarrow> bool" where
  "pending_item xs first s \<longleftrightarrow>
     first = -1 \<or> (int (last xs) < first \<and> first < int (length (rnodes s)) \<and> rnext (rnodes s ! nat first) = -1)"

lemma class_inv_bounds:
  assumes "class_inv pat s0 typ xs s"
  shows "length (rnodes s0) \<le> last xs" "last xs < length (rnodes s)" "xs \<noteq> []"
proof -
  have l: "sorted_wrt (<) xs" "set xs \<subseteq> {..<length (rnodes s)}" "xs \<noteq> []" "hd xs = length (rnodes s0)"
    using assms links_sorted[of "rnodes s" xs] by (auto simp: class_inv_def)
  then show "length (rnodes s0) \<le> last xs" by (cases xs) (auto dest: less_imp_le)
  show "last xs < length (rnodes s)" using l(2) last_in_set[OF l(3)] by auto
  show "xs \<noteq> []" by (rule l(3))
qed

lemma class_inv_leaf:
  assumes "class_inv pat s0 typ xs s" "grew pat s s'" "new_leaf s n s'"
  shows "class_inv pat s0 typ xs s'" "pending_item xs n s'"
proof -
  have "links (rnodes s') xs"
    by (rule links_cong[of "rnodes s"]) (use assms links_sorted[of "rnodes s" xs] in \<open>auto simp: class_inv_def grew_def\<close>)
  then show "class_inv pat s0 typ xs s'" using assms(1,2) by (auto simp: class_inv_def grew_def)
  show "pending_item xs n s'" using class_inv_bounds[OF assms(1)] assms(3) by (simp add: pending_item_def new_leaf_def)
qed

lemma class_inv_link:
  assumes "class_inv pat s0 typ xs s" "pending_item xs f s" "f \<noteq> -1"
  shows "class_inv pat s0 typ (xs @ [nat f]) (s\<lparr>rnodes := (rnodes s)[last xs := (rnodes s ! last xs)\<lparr>rnext := f\<rparr>]\<rparr>)"
proof -
  note b = class_inv_bounds[OF assms(1)]
  have f: "int (last xs) < f" "f < int (length (rnodes s))" "rnext (rnodes s ! nat f) = -1" using assms(2,3) by (auto simp: pending_item_def)
  have "links ((rnodes s)[last xs := (rnodes s ! last xs)\<lparr>rnext := int (nat f)\<rparr>]) (xs @ [nat f])"
    by (rule links_append) (use assms(1) f in \<open>auto simp: class_inv_def\<close>)
  then show ?thesis using assms(1) b f by (auto simp: class_inv_def parsing_def nth_list_update)
qed

lemma class_inv_advance:
  "class_inv pat s0 typ xs s \<Longrightarrow> parsing pat (s\<lparr>rpos := k\<rparr>) \<Longrightarrow> rpos s \<le> k \<Longrightarrow> class_inv pat s0 typ xs (s\<lparr>rpos := k\<rparr>)"
  "pending_item xs f (s\<lparr>rpos := k\<rparr>) \<longleftrightarrow> pending_item xs f s"
  by (auto simp: class_inv_def pending_item_def)

lemma last_greatest: "sorted_wrt (<) xs \<Longrightarrow> i \<in> set xs \<Longrightarrow> i \<le> last (xs :: nat list)"
  by (induction xs rule: rev_induct) (auto simp: sorted_wrt_append dest: less_imp_le)

lemma class_inv_set:
  assumes "class_inv pat s0 typ xs s" "i < length (rnodes s)" "last xs < i" "\<And>m. rnext (g m) = rnext m" "rnext (rnodes s ! i) = -1"
  shows "class_inv pat s0 typ xs (s\<lparr>rnodes := (rnodes s)[i := g (rnodes s ! i)]\<rparr>)"
    "pending_item xs (int i) (s\<lparr>rnodes := (rnodes s)[i := g (rnodes s ! i)]\<rparr>)"
proof -
  note b = class_inv_bounds[OF assms(1)]
  have "sorted_wrt (<) xs" using assms(1) links_sorted[of "rnodes s" xs] by (auto simp: class_inv_def)
  then have "i \<notin> set xs" using last_greatest[of xs i] assms(3) by auto
  moreover have "\<forall>j \<in> set xs. j < length (rnodes s)" using assms(1) links_sorted[of "rnodes s" xs] by (auto simp: class_inv_def)
  ultimately have same: "\<forall>j \<in> set xs. j < length ((rnodes s)[i := g (rnodes s ! i)]) \<and> (rnodes s)[i := g (rnodes s ! i)] ! j = rnodes s ! j"
    by (metis length_list_update nth_list_update_neq)
  have "links (rnodes s) xs" using assms(1) by (simp add: class_inv_def)
  from links_cong[OF this same] have "links ((rnodes s)[i := g (rnodes s ! i)]) xs" .
  then show "class_inv pat s0 typ xs (s\<lparr>rnodes := (rnodes s)[i := g (rnodes s ! i)]\<rparr>)"
    using assms(1,3) b(1) by (auto simp: class_inv_def parsing_def)
  show "pending_item xs (int i) (s\<lparr>rnodes := (rnodes s)[i := g (rnodes s ! i)]\<rparr>)" using assms(2-5) by (simp add: pending_item_def)
qed

text \<open>A range takes the place of the pending item.\<close>

lemma close_range_ok:
  assumes "class_inv pat s0 typ xs s1" "pending_item xs (int r) s1" "rnext (rnodes s1 ! r) = -1"
    and Q: "\<And>s'. class_inv pat s0 typ (xs @ [r]) s' \<Longrightarrow> rpos s1 < rpos s' \<Longrightarrow> Q (int r) s'"
  shows "parses pat (close_range pat (int r) f (int (last xs))) s1 Q"
proof -
  note b = class_inv_bounds[OF assms(1)]
  have p: "parsing pat s1" using assms(1) by (simp add: class_inv_def)
  have r: "last xs < r" "r < length (rnodes s1)" using assms(2) by (auto simp: pending_item_def)
  let ?s2 = "s1\<lparr>rnodes := (rnodes s1)[r := (rnodes s1 ! r)\<lparr>rleft := rtype f\<rparr>]\<rparr>"
  have c2: "class_inv pat s0 typ xs ?s2" "pending_item xs (int r) ?s2"
    using class_inv_set[OF assms(1), of r "\<lambda>m. m\<lparr>rleft := rtype f\<rparr>"] r assms(3) by auto
  have "parses pat (escapechar pat) ?s2 (\<lambda>t s. parses pat (set_right (int r) t) s (\<lambda>_ s. parses pat (set_next (int (last xs)) (int r)) s (\<lambda>_. Q (int r))))"
  proof (rule escapechar_ok)
    show "parsing pat ?s2" using c2(1) by (simp add: class_inv_def)
    fix t k assume k: "rpos ?s2 < k" "parsing pat (?s2\<lparr>rpos := k\<rparr>)"
    let ?s3 = "?s2\<lparr>rpos := k\<rparr>"
    have c3: "class_inv pat s0 typ xs ?s3" using class_inv_advance(1)[OF c2(1) k(2)] k(1) by simp
    let ?s4 = "?s3\<lparr>rnodes := (rnodes ?s3)[r := (rnodes ?s3 ! r)\<lparr>rright := t\<rparr>]\<rparr>"
    have "class_inv pat s0 typ xs ?s4" "pending_item xs (int r) ?s4"
      using class_inv_set[OF c3, of r "\<lambda>m. m\<lparr>rright := t\<rparr>"] r assms(3) by auto
    from class_inv_link[OF this] have "class_inv pat s0 typ (xs @ [r])
        (?s4\<lparr>rnodes := (rnodes ?s4)[last xs := (rnodes ?s4 ! last xs)\<lparr>rnext := int r\<rparr>]\<rparr>)" by simp
    from Q[OF this] show "parses pat (set_right (int r) t) ?s3 (\<lambda>_ s. parses pat (set_next (int (last xs)) (int r)) s (\<lambda>_. Q (int r)))"
      using r b k(1) by simp
  qed
  then have "parses pat (set_left (int r) (rtype f)) s1 (\<lambda>_ s. parses pat (escapechar pat) s (\<lambda>t s.
      parses pat (set_right (int r) t) s (\<lambda>_ s. parses pat (set_next (int (last xs)) (int r)) s (\<lambda>_. Q (int r)))))" using r by simp
  then show ?thesis unfolding close_range_def parses_simps(1)[of _ "peek_char pat"] by (intro parses_peek[OF p]) simp_all
qed

lemma range_item_ok:
  assumes "class_inv pat s0 typ xs s" "pending_item xs first s" "first \<noteq> -1" "rpos s < length pat"
    and Q: "\<And>s' r. class_inv pat s0 typ (xs @ [r]) s' \<Longrightarrow> rpos s < rpos s' \<Longrightarrow> Q (int r) s'"
  shows "parses pat (range_item pat first (int (last xs))) s Q"
proof -
  let ?s = "s\<lparr>rpos := Suc (rpos s)\<rparr>" and ?r = "length (rnodes s)"
  have p: "parsing pat ?s" using assms(1,4) by (intro parsing_advance) (auto simp: class_inv_def)
  have i: "class_inv pat s0 typ xs ?s" using assms(1,2) p by (auto intro: class_inv_advance)
  have f: "0 \<le> first" "first < int ?r" using assms(2,3) by (auto simp: pending_item_def)
  have "parses pat (newnode OP_RANGE) ?s (\<lambda>r s1. parses pat (rnode first) s1 (\<lambda>f s1. parses pat (close_range pat r f (int (last xs))) s1 Q))"
  proof (rule parses_newleaf[OF p leaf_types(8)])
    fix s1 assume s1: "grew pat ?s s1" "new_leaf ?s (int (length (rnodes ?s))) s1" "rpos s1 = rpos ?s"
    note l = class_inv_leaf[OF i s1(1,2)]
    have "parses pat (close_range pat (int ?r) f (int (last xs))) s1 Q" for f
      by (rule close_range_ok[OF l(1)]) (use l(2) s1 in \<open>auto simp: new_leaf_def intro!: Q\<close>)
    then show "parses pat (rnode first) s1 (\<lambda>f s1. parses pat (close_range pat (int (length (rnodes ?s))) f (int (last xs))) s1 Q)"
      using f s1(2) by (simp add: new_leaf_def)
  qed
  then show ?thesis by (simp add: range_item_def)
qed

text \<open>All items, up to the bracket.\<close>

lemma class_items_ok:
  assumes "c_string pat" "class_inv pat s0 typ xs s" "pending_item xs first s" "length pat + 2 - rpos s \<le> k"
    "first \<noteq> -1 \<or> 1 < length xs \<or> (rpos s < length pat \<longrightarrow> pat ! rpos s \<noteq> 93)"
  shows "parses pat (class_items k pat first (int (last xs))) s (\<lambda>(f, c) s'.
     \<exists>ys. class_inv pat s0 typ ys s' \<and> pending_item ys f s' \<and> c = int (last ys) \<and> (f \<noteq> -1 \<or> 1 < length ys))"
    (is "parses pat _ _ ?Q")
  using assms(2-5)
proof (induction k arbitrary: xs s first)
  case 0
  then show ?case by (simp add: class_inv_def parsing_def split: if_splits)
next
  case (Suc k)
  have p: "parsing pat s" using Suc.prems(1) by (simp add: class_inv_def)
  note leaf = charnode_leaf[OF assms(1), of _ True]
  have item: "parses pat (rbind (charnode pat True) (\<lambda>n. class_items k pat n (int (last ys)))) s1 ?Q"
    if "class_inv pat s0 typ ys s1" "rpos s1 = rpos s" for ys s1
    unfolding parses_simps
  proof (rule parses_mono[OF leaf])
    show "parsing pat s1" using that(1) by (simp add: class_inv_def)
    fix n s' assume "leaf_at pat s1 n s'"
    then have l: "grew pat s1 s'" "rpos s1 < rpos s'" "new_leaf s1 n s'" by (auto simp: leaf_at_def)
    show "parses pat (class_items k pat n (int (last ys))) s' ?Q"
      by (rule Suc.IH[OF class_inv_leaf[OF that(1) l(1,3)]]) (use l that(2) Suc.prems(3) in \<open>auto simp: new_leaf_def\<close>)
  qed
  have link: "parses pat (rbind (set_next (int (last xs)) first) (\<lambda>_. rbind (charnode pat True) (\<lambda>n. class_items k pat n first))) s ?Q" if "first \<noteq> -1"
  proof -
    from Suc.prems(2) that have "0 \<le> first" by (simp add: pending_item_def)
    then show ?thesis
      using item[OF class_inv_link[OF Suc.prems(1,2) that]] class_inv_bounds[OF Suc.prems(1)] by simp
  qed
  have range: "parses pat (rbind (range_item pat first (int (last xs))) (\<lambda>r. class_items k pat (-1) r)) s ?Q"
    if "first \<noteq> -1" "rpos s < length pat"
    unfolding parses_simps
  proof (rule range_item_ok[OF Suc.prems(1,2) that])
    fix s' r assume "class_inv pat s0 typ (xs @ [r]) s'" "rpos s < rpos s'"
    then show "parses pat (class_items k pat (-1) (int r)) s' ?Q"
      using Suc.IH[of "xs @ [r]" s' "-1"] Suc.prems(3) class_inv_bounds(3)[OF Suc.prems(1)] by (auto simp: pending_item_def Suc_lessI)
  qed
  have stop: "?Q (first, int (last xs)) s" if "first \<noteq> -1 \<or> 1 < length xs"
    using Suc.prems that by auto
  show ?case
    unfolding class_items.simps parses_simps(1)[of _ "peek_char pat"]
    by (rule parses_peek[OF p]) (use Suc.prems(4) item[OF Suc.prems(1)] link range stop in \<open>auto simp del: parses_simps(1)\<close>)
qed

text \<open>What the parsers of elements and alternatives leave: a tree of the new nodes.\<close>

definition subtree :: "int list \<Rightarrow> rexp \<Rightarrow> int \<Rightarrow> rexp \<Rightarrow> bool" where
  "subtree pat s n s' \<longleftrightarrow> grew pat s s' \<and> (\<exists>i. n = int i \<and> rnext (rnodes s' ! i) = -1
     \<and> wf_chain (rsubexpr s') (rnodes s') (length (rnodes s)) (length (rnodes s')) i)"

lemma leaf_subtree: "leaf_at pat s n s' \<Longrightarrow> subtree pat s n s' \<and> rpos s < rpos s'"
  unfolding leaf_at_def subtree_def new_leaf_def
  by (auto intro!: wf_last[OF wf_leaf])

lemma subtree_grew: "grew pat s s1 \<Longrightarrow> subtree pat s1 n s' \<Longrightarrow> subtree pat s n s'"
  by (auto simp: subtree_def grew_def dest: less_le_trans intro: wf_widen(2))

lemma class_closed:
  assumes "class_inv pat s0 typ ys s" "1 < length ys" "typ \<in> {OP_CLASS, OP_NCLASS}"
  defines "p \<equiv> length (rnodes s0)"
  shows "subtree pat s0 (int p) (s\<lparr>rnodes := (rnodes s)[p := (rnodes s ! p)\<lparr>rleft := rnext (rnodes s ! p), rnext := -1\<rparr>]\<rparr>)"
proof -
  let ?ns = "(rnodes s)[p := (rnodes s ! p)\<lparr>rleft := rnext (rnodes s ! p), rnext := -1\<rparr>]"
  have i: "links (rnodes s) ys" "hd ys = p" "rtype (rnodes s ! p) = typ" "p < length (rnodes s)"
    using assms(1) by (auto simp: class_inv_def p_def)
  obtain j js where ys: "ys = p # j # js" using i(2) assms(2) by (cases ys; cases "tl ys") auto
  have l: "rnext (rnodes s ! p) = int j" "links (rnodes s) (j # js)" "p < j" using i(1) ys by auto
  have so: "sorted_wrt (<) (j # js)" "set (j # js) \<subseteq> {..<length (rnodes s)}" using links_sorted[OF l(2)] by simp_all
  then have above_p: "set (j # js) \<subseteq> {p<..<length (rnodes s)}" using l(3) by (auto simp: subset_iff intro: less_trans)
  have "links ?ns (j # js)" by (rule links_cong[OF l(2)]) (use above_p in \<open>auto simp: subset_iff\<close>)
  then have "wf_node (rsubexpr s) ?ns p (length (rnodes s)) p"
    by (intro wf_class[where j = j and js = js]) (use i l(1) above_p assms(3) in simp_all)
  then have "wf_chain (rsubexpr s) ?ns p (length (rnodes s)) p" by (rule wf_last) (use i in simp_all)
  moreover have "grew pat s0 (s\<lparr>rnodes := ?ns\<rparr>)"
    using assms(1) by (auto simp: grew_def class_inv_def parsing_def p_def)
  ultimately show ?thesis using i(4) by (simp add: subtree_def p_def)
qed

lemma new_class:
  assumes "parsing pat s" "typ \<in> {OP_CLASS, OP_NCLASS}"
    and "\<And>s'. class_inv pat s typ [length (rnodes s)] s' \<Longrightarrow> rpos s' = rpos s \<Longrightarrow> Q (int (length (rnodes s))) s'"
  shows "parses pat (newnode typ) s Q"
  using assms(1,2) by (auto intro!: assms(3) simp: class_inv_def parsing_def nth_append rex_ops)

lemma class_end_ok:
  assumes "class_inv pat s0 typ ys s" "pending_item ys f s" "f \<noteq> -1 \<or> 1 < length ys" "typ \<in> {OP_CLASS, OP_NCLASS}"
  shows "parses pat (class_end (int (length (rnodes s0))) f (int (last ys))) s (subtree pat s0)"
proof -
  let ?p = "int (length (rnodes s0))"
  have tail: "parses pat (rbind (rnode ?p) (\<lambda>n. rbind (set_left ?p (rnext n)) (\<lambda>_. rbind (set_next ?p (-1)) (\<lambda>_. rreturn ?p))))
      s1 (subtree pat s0)" if "class_inv pat s0 typ zs s1" "1 < length zs" for zs s1
    using class_closed[OF that assms(4)] that(1) by (simp add: class_inv_def)
  show ?thesis
  proof (cases "f = -1")
    case True
    with tail[OF assms(1)] assms(3) show ?thesis by (simp add: class_end_def)
  next
    case False
    note c = class_inv_link[OF assms(1,2) False] and b = class_inv_bounds[OF assms(1)]
    have "1 < length (ys @ [nat f])" using b(3) by (cases ys) simp_all
    from tail[OF c this] show ?thesis unfolding class_end_def parses_simps(1)[of _ "if _ then _ else _"] using False b(2) by (simp del: parses_simps(1))
  qed
qed

lemma class_body_ok:
  assumes "c_string pat" "class_inv pat s typ [length (rnodes s)] s1" "typ \<in> {OP_CLASS, OP_NCLASS}"
  shows "parses pat (class_body pat (int (length (rnodes s)))) s1 (subtree pat s)"
proof -
  let ?p = "int (length (rnodes s))"
  have p: "parsing pat s1" using assms(2) by (simp add: class_inv_def)
  have "parses pat (class_items (length pat + 2 - rpos s1) pat (-1) ?p) s1
      (\<lambda>fc s2. parses pat (class_end ?p (fst fc) (snd fc)) s2 (subtree pat s))"
    if "rpos s1 < length pat \<longrightarrow> pat ! rpos s1 \<noteq> 93"
  proof (rule parses_mono)
    show "parses pat (class_items (length pat + 2 - rpos s1) pat (-1) ?p) s1 (\<lambda>(f, c) s'.
       \<exists>ys. class_inv pat s typ ys s' \<and> pending_item ys f s' \<and> c = int (last ys) \<and> (f \<noteq> -1 \<or> 1 < length ys))"
      using class_items_ok[OF assms(1,2), of "-1" "length pat + 2 - rpos s1"] that by (simp add: pending_item_def)
  next
    fix fc s' assume "(case fc of (f, c) \<Rightarrow> \<lambda>s'. \<exists>ys. class_inv pat s typ ys s' \<and> pending_item ys f s' \<and> c = int (last ys) \<and> (f \<noteq> -1 \<or> 1 < length ys)) s'"
    then show "parses pat (class_end ?p (fst fc) (snd fc)) s' (subtree pat s)"
      using class_end_ok[OF _ _ _ assms(3)] by auto
  qed
  then show ?thesis
    unfolding class_body_def parses_simps(1)[of _ "peek_char pat"] by (intro parses_peek[OF p]) auto
qed

lemma rex_class_ok:
  assumes "c_string pat" "parsing pat s"
  shows "parses pat (rex_class pat) s (subtree pat s)"
proof -
  have nclass: "parses pat (rbind (newnode OP_NCLASS) (\<lambda>n. rbind advance (\<lambda>_. rreturn n))) s (\<lambda>n s'. parses pat (class_body pat n) s' (subtree pat s))"
    if "rpos s < length pat"
    unfolding parses_simps
  proof (rule new_class[OF assms(2)])
    fix s' assume s': "class_inv pat s OP_NCLASS [length (rnodes s)] s'" "rpos s' = rpos s"
    then have "parsing pat (s'\<lparr>rpos := Suc (rpos s')\<rparr>)" using that by (intro parsing_advance) (auto simp: class_inv_def)
    with s' have "class_inv pat s OP_NCLASS [length (rnodes s)] (s'\<lparr>rpos := Suc (rpos s')\<rparr>)" by (intro class_inv_advance) simp_all
    from class_body_ok[OF assms(1) this]
    show "parses pat advance s' (\<lambda>_ s'. parses pat (class_body pat (int (length (rnodes s)))) s' (subtree pat s))" by simp
  qed simp
  have class': "parses pat (newnode OP_CLASS) s (\<lambda>n s'. parses pat (class_body pat n) s' (subtree pat s))"
    by (rule new_class[OF assms(2)]) (use class_body_ok[OF assms(1)] in simp_all)
  show ?thesis
    unfolding rex_class_def parses_simps(1)[of _ "peek_char pat"]
    by (rule parses_peek[OF assms(2)]; subst parses_simps(1)) (use nclass class' in \<open>simp_all del: parses_simps(1)\<close>)
qed

lemma rex_expect_ok:
  assumes "parsing pat s" "c \<noteq> 0" "\<And>k. rpos s < k \<Longrightarrow> parsing pat (s\<lparr>rpos := k\<rparr>) \<Longrightarrow> Q () (s\<lparr>rpos := k\<rparr>)"
  shows "parses pat (rex_expect pat c) s Q"
proof -
  have "rpos s < length pat \<Longrightarrow> parsing pat (s\<lparr>rpos := Suc (rpos s)\<rparr>)" using assms(1) by (simp add: parsing_advance)
  then show ?thesis
    unfolding rex_expect_def parses_simps(1) by (intro parses_peek[OF assms(1)]) (use assms(2) in \<open>auto intro: assms(3)\<close>)
qed

lemma number_digits_ok:
  assumes "parsing pat s" "length pat + 1 - rpos s \<le> k"
    and "\<And>x j. rpos s \<le> j \<Longrightarrow> parsing pat (s\<lparr>rpos := j\<rparr>) \<Longrightarrow> Q x (s\<lparr>rpos := j\<rparr>)" "rpos s \<le> length pat"
  shows "parses pat (number_digits k pat ret positions) s Q"
  using assms
proof (induction k arbitrary: s ret positions)
  case (Suc k)
  have stop: "Q ret s" using Suc.prems(3)[of "rpos s"] Suc.prems(1) by simp
  have step: "parses pat (number_digits k pat r p) (s\<lparr>rpos := Suc (rpos s)\<rparr>) Q" if "rpos s < length pat" for r p
  proof (rule Suc.IH)
    show "parsing pat (s\<lparr>rpos := Suc (rpos s)\<rparr>)" using Suc.prems(1) that by (simp add: parsing_advance)
  qed (use Suc.prems that in auto)
  show ?case
    unfolding number_digits.simps parses_simps(1) by (rule parses_peek[OF Suc.prems(1)]) (use stop step in \<open>auto simp: c_digit_def\<close>)
qed simp

lemma parsenumber_ok:
  assumes "parsing pat s" "rpos s < length pat" "\<And>x j. rpos s < j \<Longrightarrow> parsing pat (s\<lparr>rpos := j\<rparr>) \<Longrightarrow> Q x (s\<lparr>rpos := j\<rparr>)"
  shows "parses pat (parsenumber pat) s Q"
  unfolding parsenumber_def parses_simps(1)
  by (rule parses_take_char[OF assms(1)]) (use assms(2) in \<open>auto intro!: number_digits_ok assms(3)\<close>)

text \<open>Parsers that only move on.\<close>

definition moves_on :: "int list \<Rightarrow> rexp \<Rightarrow> 'a rparse \<Rightarrow> bool" where
  "moves_on pat s m \<longleftrightarrow> parses pat m s (\<lambda>x s'. \<exists>j \<ge> rpos s. s' = s\<lparr>rpos := j\<rparr> \<and> parsing pat s')"

lemma moves_onI:
  "(\<And>Q. (\<And>x j. rpos s \<le> j \<Longrightarrow> parsing pat (s\<lparr>rpos := j\<rparr>) \<Longrightarrow> Q x (s\<lparr>rpos := j\<rparr>)) \<Longrightarrow> parses pat m s Q) \<Longrightarrow> moves_on pat s m"
  unfolding moves_on_def by (drule meta_spec, erule meta_mp) blast

lemma moves_on_advance: "parsing pat s \<Longrightarrow> rpos s < length pat \<Longrightarrow> moves_on pat s advance"
  by (rule moves_onI) (use parsing_advance[of pat s] in simp)

lemma moves_on_return: "parsing pat s \<Longrightarrow> moves_on pat s (rreturn x)"
  by (auto simp: moves_on_def intro: exI[of _ "rpos s"])

lemma moves_on_bind:
  assumes "moves_on pat s m" "\<And>x s'. parsing pat s' \<Longrightarrow> moves_on pat s' (f x)"
  shows "moves_on pat s (rbind m f)"
  using assms(1) unfolding moves_on_def parses_simps
proof (rule parses_mono)
  fix x s' assume "\<exists>j \<ge> rpos s. s' = s\<lparr>rpos := j\<rparr> \<and> parsing pat s'"
  then obtain j where j: "rpos s \<le> j" "s' = s\<lparr>rpos := j\<rparr>" "parsing pat s'" by blast
  show "parses pat (f x) s' (\<lambda>x s'. \<exists>j \<ge> rpos s. s' = s\<lparr>rpos := j\<rparr> \<and> parsing pat s')"
    using assms(2)[OF j(3), of x] unfolding moves_on_def by (rule parses_mono) (use j order.trans[OF j(1)] in auto)
qed

lemma moves_on_peek:
  assumes "parsing pat s" "rpos s < length pat \<Longrightarrow> moves_on pat s (f (pat ! rpos s))" "rpos s = length pat \<Longrightarrow> moves_on pat s (f 0)"
  shows "moves_on pat s (rbind (peek_char pat) f)"
  unfolding moves_on_def parses_simps by (rule parses_peek[OF assms(1)]) (use assms(2,3) in \<open>auto simp: moves_on_def\<close>)

lemma moves_on_expect: "parsing pat s \<Longrightarrow> c \<noteq> 0 \<Longrightarrow> moves_on pat s (rex_expect pat c)"
  by (rule moves_onI, rule rex_expect_ok) auto

lemma moves_on_number: "parsing pat s \<Longrightarrow> rpos s < length pat \<Longrightarrow> moves_on pat s (parsenumber pat)"
  by (rule moves_onI, rule parsenumber_ok) auto

lemma moves_on_error: "moves_on pat s (rerror e)"
  by (simp add: moves_on_def)

lemmas moves_on = moves_on_advance moves_on_return moves_on_bind moves_on_expect moves_on_number moves_on_error

lemma upper_bound_moves: "parsing pat s \<Longrightarrow> moves_on pat s (upper_bound pat p0)"
  unfolding upper_bound_def by (rule moves_on_peek) (auto intro!: moves_on simp: c_digit_def)

lemma after_lower_moves: "parsing pat s \<Longrightarrow> moves_on pat s (after_lower pat p0)"
  unfolding after_lower_def by (rule moves_on_peek) (auto intro!: moves_on upper_bound_moves)

lemma braces_moves: "parsing pat s \<Longrightarrow> moves_on pat s (braces pat)"
  unfolding braces_def by (rule moves_on_peek) (auto intro!: moves_on after_lower_moves simp: c_digit_def)

lemma repetition_moves: "parsing pat s \<Longrightarrow> moves_on pat s (repetition pat)"
  unfolding repetition_def by (rule moves_on_peek) (auto intro!: moves_on braces_moves)

text \<open>New nodes and changes of nodes, by the fields.\<close>

lemma parses_new:
  assumes "parsing pat s"
    and "\<And>s'. parsing pat s' \<Longrightarrow> rpos s' = rpos s \<Longrightarrow> rsubexpr s' = (if typ = OP_EXPR then rsubexpr s + 1 else rsubexpr s) \<Longrightarrow>
           rnodes s' = rnodes s @ [\<lparr>rtype = typ, rleft = -1, rright = (if typ = OP_EXPR then rsubexpr s else -1), rnext = -1\<rparr>] \<Longrightarrow>
           Q (int (length (rnodes s))) s'"
  shows "parses pat (newnode typ) s Q"
  unfolding parses_newnode[OF assms(1)]
  by (rule assms(2)) (use assms(1) in \<open>auto simp: parsing_def\<close>)

lemma parses_set:
  assumes "parsing pat s" "0 \<le> i" "i < int (length (rnodes s))"
    and "\<And>s'. parsing pat s' \<Longrightarrow> rpos s' = rpos s \<Longrightarrow> rsubexpr s' = rsubexpr s \<Longrightarrow>
           rnodes s' = (rnodes s)[nat i := f (rnodes s ! nat i)] \<Longrightarrow> Q () s'"
  shows "parses pat (set_node i f) s Q"
  unfolding parses_node(2)[OF assms(2,3)]
  by (rule assms(4)) (use assms(1) in \<open>auto simp: parsing_def\<close>)

lemma greedy_ok:
  assumes "subtree pat s n s1" "grew pat s s2" "rnodes s2 = rnodes s1" "rsubexpr s2 = rsubexpr s1" "rpos s1 \<le> rpos s2"
  shows "parses pat (rbind (newnode OP_GREEDY) (\<lambda>m. rbind (set_left m n) (\<lambda>_. rbind (set_right m r) (\<lambda>_. rreturn m)))) s2
      (\<lambda>n' s'. subtree pat s n' s' \<and> rpos s1 \<le> rpos s')"
  unfolding parses_simps
proof (rule parses_new)
  show p2: "parsing pat s2" using assms(2) by (simp add: grew_def)
  obtain i where i: "n = int i" "rnext (rnodes s1 ! i) = -1" and c: "wf_chain (rsubexpr s1) (rnodes s1) (length (rnodes s)) (length (rnodes s1)) i"
    using assms(1) by (auto simp: subtree_def)
  note il = wf_range(2)[OF c]
  let ?m = "length (rnodes s1)"
  fix s3 assume s3: "parsing pat s3" "rpos s3 = rpos s2" "rsubexpr s3 = (if OP_GREEDY = OP_EXPR then rsubexpr s2 + 1 else rsubexpr s2)"
    "rnodes s3 = rnodes s2 @ [\<lparr>rtype = OP_GREEDY, rleft = -1, rright = (if OP_GREEDY = OP_EXPR then rsubexpr s2 else -1), rnext = -1\<rparr>]"
  have fin: "subtree pat s (int (length (rnodes s2))) s5 \<and> rpos s1 \<le> rpos s5"
    if s5: "parsing pat s5" "rpos s5 = rpos s2" "rsubexpr s5 = rsubexpr s2"
      and ns: "rnodes s5 = rnodes s1 @ [\<lparr>rtype = OP_GREEDY, rleft = n, rright = r, rnext = -1\<rparr>]" for s5
  proof -
    have c': "wf_chain (rsubexpr s1) (rnodes s5) (length (rnodes s)) ?m i" by (rule wf_cong(2)[OF c]) (simp_all add: nth_append ns)
    have "wf_node (rsubexpr s1) (rnodes s5) (length (rnodes s)) (Suc ?m) ?m" by (rule wf_greedy[where l = i]) (use c' i il in \<open>simp_all add: ns nth_append\<close>)
    then have "wf_chain (rsubexpr s1) (rnodes s5) (length (rnodes s)) (Suc ?m) ?m" by (rule wf_last) (simp_all add: ns)
    moreover have "grew pat s s5" using assms(2,3,4) s5 ns by (auto simp: grew_def nth_append)
    ultimately show ?thesis using assms(3-5) s5 by (simp add: subtree_def ns)
  qed
  have "OP_GREEDY \<noteq> OP_EXPR" by (simp add: rex_ops)
  then show "parses pat (set_left (int (length (rnodes s2))) n) s3 (\<lambda>_ t. parses pat (set_right (int (length (rnodes s2))) r) t
      (\<lambda>_ s'. subtree pat s (int (length (rnodes s2))) s' \<and> rpos s1 \<le> rpos s'))"
    by (intro parses_set fin) (use s3 assms(3) in simp_all)
qed

lemma repeated_ok:
  assumes "subtree pat s n s1"
  shows "parses pat (repeated pat n) s1 (\<lambda>n' s'. subtree pat s n' s' \<and> rpos s1 \<le> rpos s')"
proof -
  have p1: "parsing pat s1" using assms by (simp add: subtree_def grew_def)
  have moved: "grew pat s (s1\<lparr>rpos := j\<rparr>)" "subtree pat s n (s1\<lparr>rpos := j\<rparr>)" if "rpos s1 \<le> j" "parsing pat (s1\<lparr>rpos := j\<rparr>)" for j
    using assms that by (auto simp: subtree_def grew_def)
  have greedy: "parses pat (rbind (newnode OP_GREEDY) (\<lambda>m. rbind (set_left m n) (\<lambda>_. rbind (set_right m r) (\<lambda>_. rreturn m)))) (s1\<lparr>rpos := j\<rparr>)
      (\<lambda>n' s'. subtree pat s n' s' \<and> rpos s1 \<le> rpos s')" if "rpos s1 \<le> j" "parsing pat (s1\<lparr>rpos := j\<rparr>)" for j r
    by (rule greedy_ok[OF assms moved(1)[OF that]]) (use that in simp_all)
  show ?thesis
    unfolding repeated_def parses_simps(1)[of _ "repetition pat"]
  proof (rule parses_mono[OF repetition_moves[OF p1, unfolded moves_on_def]])
    fix x s' assume "\<exists>j \<ge> rpos s1. s' = s1\<lparr>rpos := j\<rparr> \<and> parsing pat s'"
    then obtain j where j: "rpos s1 \<le> j" "s' = s1\<lparr>rpos := j\<rparr>" "parsing pat (s1\<lparr>rpos := j\<rparr>)" by blast
    show "parses pat (case x of None \<Rightarrow> rreturn n | Some (p0, p1) \<Rightarrow> rbind (newnode OP_GREEDY) (\<lambda>n'. rbind (set_left n' n)
        (\<lambda>_. rbind (set_right n' (p0 * 65536 + p1)) (\<lambda>_. rreturn n')))) s' (\<lambda>n' s'. subtree pat s n' s' \<and> rpos s1 \<le> rpos s')"
      using moved(2)[OF j(1,3)] greedy[OF j(1,3)] j(1,2) by (auto split: option.split simp del: parses_simps(1))
  qed
qed

declare parses_newnode [simp del]

definition sequence :: "int list \<Rightarrow> rexp \<Rightarrow> int \<Rightarrow> rexp \<Rightarrow> bool" where
  "sequence pat s n s' \<longleftrightarrow> grew pat s s' \<and> (\<exists>i. n = int i
     \<and> wf_chain (rsubexpr s') (rnodes s') (length (rnodes s)) (length (rnodes s')) i)"

lemma subtree_sequence: "subtree pat s n s' \<Longrightarrow> sequence pat s n s'"
  by (auto simp: subtree_def sequence_def)

lemma sequence_grew: "grew pat s s1 \<Longrightarrow> sequence pat s1 n s' \<Longrightarrow> sequence pat s n s'"
  by (auto simp: sequence_def grew_def dest: less_le_trans intro: wf_widen(2))

lemma group_ok:
  assumes "parsing pat t" "tp \<in> {OP_EXPR, OP_NOCAPEXPR}" and inner: "\<And>t1. parsing pat t1 \<Longrightarrow> rpos t1 = rpos t \<Longrightarrow> parses pat inner t1 (sequence pat t1)"
  shows "parses pat (newnode tp) t (\<lambda>expr t1. parses pat (group_rest pat inner expr) t1 (\<lambda>n s'. subtree pat t n s' \<and> rpos t < rpos s'))"
proof (rule parses_new[OF assms(1)])
  let ?m = "length (rnodes t)"
  fix t1 assume t1: "parsing pat t1" "rpos t1 = rpos t" "rsubexpr t1 = (if tp = OP_EXPR then rsubexpr t + 1 else rsubexpr t)"
    "rnodes t1 = rnodes t @ [\<lparr>rtype = tp, rleft = -1, rright = (if tp = OP_EXPR then rsubexpr t else -1), rnext = -1\<rparr>]"
  have g1: "grew pat t t1" using t1 by (auto simp: grew_def nth_append)
  have fin: "subtree pat t (int ?m) s4 \<and> rpos t < rpos s4"
    if s2: "sequence pat t1 n s2" and s4: "parsing pat s4" "rpos s2 < rpos s4" "rsubexpr s4 = rsubexpr s2"
      "rnodes s4 = (rnodes s2)[?m := (rnodes s2 ! ?m)\<lparr>rleft := n\<rparr>]" for n s2 s4
  proof -
    obtain i where i: "n = int i" and c: "wf_chain (rsubexpr s2) (rnodes s2) (Suc ?m) (length (rnodes s2)) i"
      using s2 t1(4) by (auto simp: sequence_def)
    have g: "grew pat t1 s2" using s2 by (simp add: sequence_def)
    then have m: "?m < length (rnodes s2)" "rnodes s2 ! ?m = rnodes t1 ! ?m" by (auto simp: grew_def t1(4))
    have old: "rnodes s4 ! ?m = \<lparr>rtype = tp, rleft = n, rright = (if tp = OP_EXPR then rsubexpr t else -1), rnext = -1\<rparr>"
      using m by (simp add: s4(4) t1(4) nth_append)
    have len: "length (rnodes s4) = length (rnodes s2)" by (simp add: s4(4))
    have c4: "wf_chain (rsubexpr s4) (rnodes s4) (Suc ?m) (length (rnodes s4)) i"
      unfolding len by (rule wf_cong(2)[OF c]) (simp_all add: s4)
    have "rsubexpr t < rsubexpr s2" if "tp = OP_EXPR" using g t1(3) that by (simp add: grew_def)
    then have "wf_node (rsubexpr s4) (rnodes s4) ?m (length (rnodes s4)) ?m"
      by (intro wf_expr[where l = i]) (use assms(1,2) c4 i m(1) s4(3) in \<open>auto simp: old len parsing_def\<close>)
    then have "wf_chain (rsubexpr s4) (rnodes s4) ?m (length (rnodes s4)) ?m" by (rule wf_last) (simp_all add: old)
    moreover have "grew pat t1 s2" using s2 by (simp add: sequence_def)
    with g1 have "grew pat t s2" by (rule grew_trans)
    then have "grew pat t s4" using s4 by (simp add: grew_def)
    ultimately show ?thesis using old s4(2) \<open>grew pat t s2\<close> by (simp add: subtree_def grew_def)
  qed
  show "parses pat (group_rest pat inner (int (length (rnodes t)))) t1 (\<lambda>n s'. subtree pat t n s' \<and> rpos t < rpos s')"
    unfolding group_rest_def parses_simps
  proof (rule parses_mono[OF inner[OF t1(1,2)]])
    fix n s2 assume s2: "sequence pat t1 n s2"
    then have b: "parsing pat s2" "?m < length (rnodes s2)" by (auto simp: sequence_def grew_def t1(4))
    show "parses pat (set_left (int ?m) n) s2 (\<lambda>_ s3. parses pat (rex_expect pat (ch CHR '')'')) s3
        (\<lambda>_ s'. subtree pat t (int ?m) s' \<and> rpos t < rpos s'))"
      by (intro parses_set[OF b(1)] rex_expect_ok fin[OF s2]) (use b in simp_all)
  qed
qed

lemma bracketed_ok:
  assumes "parsing pat s" "rpos s < length pat"
    and inner: "\<And>t. parsing pat t \<Longrightarrow> rpos s < rpos t \<Longrightarrow> parses pat inner t (sequence pat t)"
  shows "parses pat (bracketed pat inner) s (\<lambda>n s'. subtree pat s n s' \<and> rpos s < rpos s')"
proof -
  have group: "parses pat (newnode tp) (s\<lparr>rpos := j\<rparr>) (\<lambda>expr t1. parses pat (group_rest pat inner expr) t1 (\<lambda>n s'. subtree pat s n s' \<and> rpos s < rpos s'))"
    if j: "parsing pat (s\<lparr>rpos := j\<rparr>)" "rpos s < j" "tp \<in> {OP_EXPR, OP_NOCAPEXPR}" for j tp
  proof (rule parses_mono[OF group_ok[OF j(1,3)]])
    fix t1 assume "parsing pat t1" "rpos t1 = rpos (s\<lparr>rpos := j\<rparr>)"
    then show "parses pat inner t1 (sequence pat t1)" using inner j(2) by simp
  next
    have g: "grew pat s (s\<lparr>rpos := j\<rparr>)" using j by (simp add: grew_def)
    fix expr t1 assume "parses pat (group_rest pat inner expr) t1 (\<lambda>n s'. subtree pat (s\<lparr>rpos := j\<rparr>) n s' \<and> rpos (s\<lparr>rpos := j\<rparr>) < rpos s')"
    then show "parses pat (group_rest pat inner expr) t1 (\<lambda>n s'. subtree pat s n s' \<and> rpos s < rpos s')"
      by (rule parses_mono) (use subtree_grew[OF g] j(2) in auto)
  qed
  let ?s = "s\<lparr>rpos := Suc (rpos s)\<rparr>"
  have p: "parsing pat ?s" using assms(1,2) by (simp add: parsing_advance)
  have nocap: "parses pat (rex_expect pat (ch CHR '':'')) (s\<lparr>rpos := Suc (Suc (rpos s))\<rparr>)
      (\<lambda>_ t. parses pat (newnode OP_NOCAPEXPR) t (\<lambda>expr t1. parses pat (group_rest pat inner expr) t1 (\<lambda>n s'. subtree pat s n s' \<and> rpos s < rpos s')))"
    if "Suc (rpos s) < length pat"
    by (rule rex_expect_ok) (use parsing_advance[OF p] that in \<open>auto intro!: group\<close>)
  show ?thesis
    unfolding bracketed_def parses_simps(1)[of _ advance "\<lambda>_. rbind (peek_char pat) _"] parses_state(2) Suc_eq_plus1[symmetric] parses_simps(1)[of _ "peek_char pat"]
    by (rule parses_peek[OF p]) (use nocap group[OF p] in auto)
qed

lemma element_head_ok:
  assumes "c_string pat" "parsing pat s"
    and inner: "\<And>t. parsing pat t \<Longrightarrow> rpos s < rpos t \<Longrightarrow> parses pat inner t (sequence pat t)"
  shows "parses pat (element_head pat inner) s (\<lambda>n s'. subtree pat s n s' \<and> rpos s < rpos s')" (is "parses _ _ _ ?Q")
proof -
  let ?s = "s\<lparr>rpos := Suc (rpos s)\<rparr>"
  have char: "parses pat (charnode pat False) s ?Q"
    by (rule parses_mono[OF charnode_leaf[OF assms(1,2)] leaf_subtree])
  have leaf: "parses pat (newnode tp) ?s ?Q" if "rpos s < length pat" "tp \<notin> inner_types" for tp
    using advanced_leaf[OF assms(2) that(1) newnode_leaf[OF that(2)]] by (simp add: parses_mono[OF _ leaf_subtree])
  have cls: "parses pat (rex_class pat) ?s (\<lambda>n t. parses pat (rex_expect pat (ch CHR '']'')) t (\<lambda>_. ?Q n))" if "rpos s < length pat"
  proof -
    have p: "parsing pat ?s" using assms(2) that by (simp add: parsing_advance)
    show ?thesis
    proof (rule parses_mono[OF rex_class_ok[OF assms(1) p]])
      fix n t assume t: "subtree pat ?s n t"
      then have "parsing pat t" "rpos s < rpos t" by (auto simp: subtree_def grew_def)
      then show "parses pat (rex_expect pat (ch CHR '']'')) t (\<lambda>_. ?Q n)"
        by (intro rex_expect_ok) (use t in \<open>auto simp: subtree_def grew_def\<close>)
    qed
  qed
  show ?thesis
    unfolding element_head_def parses_simps(1)[of _ "peek_char pat"]
    by (rule parses_peek[OF assms(2)]) (use bracketed_ok[OF assms(2) _ inner] char leaf cls leaf_types in auto)
qed

lemma attach_ok:
  assumes "subtree pat s n s1" "sequence pat s1 n2 s2"
  shows "parses pat (set_next n n2) s2 (\<lambda>_ s3. sequence pat s n s3 \<and> rpos s3 = rpos s2)"
proof -
  obtain i where i: "n = int i" "rnext (rnodes s1 ! i) = -1" "wf_chain (rsubexpr s1) (rnodes s1) (length (rnodes s)) (length (rnodes s1)) i"
    and g: "grew pat s s1" using assms(1) by (auto simp: subtree_def)
  obtain j where j: "n2 = int j" "wf_chain (rsubexpr s2) (rnodes s2) (length (rnodes s1)) (length (rnodes s2)) j"
    and g2: "grew pat s1 s2" using assms(2) by (auto simp: sequence_def)
  note r = wf_range(2)[OF i(3)]
  have p2: "parsing pat s2" "length (rnodes s1) \<le> length (rnodes s2)" using g2 by (auto simp: grew_def)
  have c: "wf_chain (rsubexpr s1) (rnodes s2) (length (rnodes s)) (length (rnodes s1)) i"
    by (rule wf_cong(2)[OF i(3)]) (use g2 in \<open>auto simp: grew_def\<close>)
  have fin: "sequence pat s n s3 \<and> rpos s3 = rpos s2"
    if s3: "parsing pat s3" "rpos s3 = rpos s2" "rsubexpr s3 = rsubexpr s2" "rnodes s3 = (rnodes s2)[i := (rnodes s2 ! i)\<lparr>rnext := n2\<rparr>]" for s3
  proof -
    have "rnext (rnodes s2 ! i) = -1" using i(2) r g2 by (simp add: grew_def)
    from wf_attach[OF c this j(2)] g2 have "wf_chain (rsubexpr s3) (rnodes s3) (length (rnodes s)) (length (rnodes s3)) i"
      by (simp add: s3 j(1) grew_def)
    moreover have "grew pat s s3" using grew_trans[OF g g2] s3 r by (simp add: grew_def)
    ultimately show ?thesis using s3(2) i(1) by (simp add: sequence_def)
  qed
  show ?thesis by (intro parses_set[OF p2(1)] fin) (use i(1) r p2(2) in simp_all)
qed

lemma alternative_ok:
  assumes "sequence pat s n s1" and inner: "\<And>t. parsing pat t \<Longrightarrow> rpos t = rpos s1 \<Longrightarrow> parses pat inner t (sequence pat t)"
  shows "parses pat (alternative inner n) s1 (\<lambda>n' s'. sequence pat s n' s' \<and> rpos s1 \<le> rpos s')"
  unfolding alternative_def parses_simps
proof (rule parses_new)
  obtain i where i: "n = int i" and c: "wf_chain (rsubexpr s1) (rnodes s1) (length (rnodes s)) (length (rnodes s1)) i"
    and g: "grew pat s s1" using assms(1) by (auto simp: sequence_def)
  then show "parsing pat s1" by (simp add: grew_def)
  let ?m = "length (rnodes s1)"
  fix s2 assume s2: "parsing pat s2" "rpos s2 = rpos s1" "rsubexpr s2 = (if OP_OR = OP_EXPR then rsubexpr s1 + 1 else rsubexpr s1)"
    "rnodes s2 = rnodes s1 @ [\<lparr>rtype = OP_OR, rleft = -1, rright = (if OP_OR = OP_EXPR then rsubexpr s1 else -1), rnext = -1\<rparr>]"
  have ops: "OP_OR \<noteq> OP_EXPR" by (simp add: rex_ops)
  have fin: "sequence pat s (int ?m) s5 \<and> rpos s1 \<le> rpos s5"
    if s3: "parsing pat s3" "rpos s3 = rpos s1" "rsubexpr s3 = rsubexpr s1" "rnodes s3 = rnodes s1 @ [\<lparr>rtype = OP_OR, rleft = n, rright = -1, rnext = -1\<rparr>]"
      and s4: "sequence pat s3 r s4"
      and s5: "parsing pat s5" "rpos s5 = rpos s4" "rsubexpr s5 = rsubexpr s4" "rnodes s5 = (rnodes s4)[?m := (rnodes s4 ! ?m)\<lparr>rright := r\<rparr>]"
    for r s3 s4 s5
  proof -
    obtain j where j: "r = int j" and cj: "wf_chain (rsubexpr s4) (rnodes s4) (Suc ?m) (length (rnodes s4)) j"
      and g4: "grew pat s3 s4" using s4 s3(4) by (auto simp: sequence_def)
    have m: "?m < length (rnodes s4)" and old: "rnodes s4 ! ?m = \<lparr>rtype = OP_OR, rleft = n, rright = -1, rnext = -1\<rparr>"
      using g4 by (auto simp: grew_def s3(4))
    have len: "length (rnodes s5) = length (rnodes s4)" by (simp add: s5(4))
    have new: "rnodes s5 ! ?m = \<lparr>rtype = OP_OR, rleft = n, rright = r, rnext = -1\<rparr>" using m by (simp add: s5(4) old)
    have k: "rsubexpr s1 \<le> rsubexpr s5" using g4 by (simp add: s5(3) s3(3) grew_def)
    have same: "rnodes s5 ! x = rnodes s1 ! x" if "x < ?m" for x
      using g4 that by (auto simp: s5(4) grew_def s3(4) nth_append)
    have ci: "wf_chain (rsubexpr s5) (rnodes s5) (length (rnodes s)) ?m i"
      by (rule wf_cong(2)[OF c k]) (use m same len in auto)
    have "wf_chain (rsubexpr s5) (rnodes s5) (Suc ?m) (length (rnodes s5)) j"
      unfolding len by (rule wf_cong(2)[OF cj]) (simp_all add: s5)
    with ci have "wf_node (rsubexpr s5) (rnodes s5) (length (rnodes s)) (length (rnodes s5)) ?m"
      by (intro wf_or[where l = i and r = j]) (use i j m in \<open>simp_all add: new len\<close>)
    then have "wf_chain (rsubexpr s5) (rnodes s5) (length (rnodes s)) (length (rnodes s5)) ?m" by (rule wf_last) (simp_all add: new)
    moreover have "grew pat s1 s3" using s3 by (auto simp: grew_def nth_append)
    from grew_trans[OF grew_trans[OF g this] g4] have "grew pat s s5"
      using s5 wf_range(2)[OF c] by (auto simp: grew_def)
    moreover have "rpos s1 \<le> rpos s5" using g4 s3(2) s5(2) by (simp add: grew_def)
    ultimately show ?thesis by (simp add: sequence_def)
  qed
  show "parses pat (set_left (int (length (rnodes s1))) n) s2 (\<lambda>_ t. parses pat inner t (\<lambda>r t.
     parses pat (set_right (int (length (rnodes s1))) r) t (\<lambda>_ t. sequence pat s (int (length (rnodes s1))) t \<and> rpos s1 \<le> rpos t)))"
  proof (rule parses_set[OF s2(1)])
    fix s3 assume s3: "parsing pat s3" "rpos s3 = rpos s2" "rsubexpr s3 = rsubexpr s2"
      "rnodes s3 = (rnodes s2)[nat (int ?m) := (rnodes s2 ! nat (int ?m))\<lparr>rleft := n\<rparr>]"
    have e3: "rpos s3 = rpos s1" "rsubexpr s3 = rsubexpr s1" "rnodes s3 = rnodes s1 @ [\<lparr>rtype = OP_OR, rleft = n, rright = -1, rnext = -1\<rparr>]"
      using s2 s3 ops by simp_all
    show "parses pat inner s3 (\<lambda>r t. parses pat (set_right (int ?m) r) t (\<lambda>_ t. sequence pat s (int ?m) t \<and> rpos s1 \<le> rpos t))"
    proof (rule parses_mono[OF inner[OF s3(1) e3(1)]])
      fix r s4 assume s4: "sequence pat s3 r s4"
      then have p4: "parsing pat s4" "?m < length (rnodes s4)" by (auto simp: sequence_def grew_def e3(3))
      show "parses pat (set_right (int ?m) r) s4 (\<lambda>_ t. sequence pat s (int ?m) t \<and> rpos s1 \<le> rpos t)"
        by (intro parses_set[OF p4(1)] fin[OF s3(1) e3 s4]) (use p4(2) in simp_all)
    qed
  qed (use s2 in simp_all)
qed

text \<open>\<open>m\<close> parses at least a character into a sequence.\<close>

definition parses_sequence :: "int list \<Rightarrow> nat \<Rightarrow> int rparse \<Rightarrow> bool" where
  "parses_sequence pat p m \<longleftrightarrow> (\<forall>t. parsing pat t \<and> p \<le> rpos t \<longrightarrow> parses pat m t (\<lambda>n s'. sequence pat t n s' \<and> rpos t < rpos s'))"

lemma parses_sequenceD: "parses_sequence pat p m \<Longrightarrow> parsing pat t \<Longrightarrow> p \<le> rpos t \<Longrightarrow> parses pat m t (\<lambda>n s'. sequence pat t n s' \<and> rpos t < rpos s')"
  by (simp add: parses_sequence_def)

lemma rex_element_step:
  assumes "c_string pat" "parsing pat s" "parses_sequence pat (Suc (rpos s)) (rex_list k pat)" "parses_sequence pat (Suc (rpos s)) (rex_element k pat)"
  shows "parses pat (rex_element (Suc k) pat) s (\<lambda>n s'. sequence pat s n s' \<and> rpos s < rpos s')"
  unfolding rex_element.simps parses_simps(1)[of _ "element_head _ _"]
proof (rule parses_mono[OF element_head_ok[OF assms(1,2)]])
  fix t assume "parsing pat t" "rpos s < rpos t"
  then show "parses pat (rex_list k pat) t (sequence pat t)"
    by (intro parses_mono[OF parses_sequenceD[OF assms(3)]]) auto
next
  fix n s1 assume s1: "subtree pat s n s1 \<and> rpos s < rpos s1"
  show "parses pat (rbind (repeated pat n) (\<lambda>ret. rbind (peek_char pat) (\<lambda>c.
       if c \<notin> {ch CHR ''|'', ch CHR '')'', ch CHR ''*'', ch CHR ''+'', 0} then
         rbind (rex_element k pat) (\<lambda>nnode. rbind (set_next ret nnode) (\<lambda>_. rreturn ret))
       else rreturn ret))) s1 (\<lambda>n s'. sequence pat s n s' \<and> rpos s < rpos s')"
    unfolding parses_simps(1)[of _ "repeated _ _"]
  proof (rule parses_mono[OF repeated_ok])
    show "subtree pat s n s1" using s1 by simp
    fix n2 s2 assume s2: "subtree pat s n2 s2 \<and> rpos s1 \<le> rpos s2"
    then have p2: "parsing pat s2" "rpos s < rpos s2" using s1 by (auto simp: subtree_def grew_def)
    have more: "parses pat (rex_element k pat) s2 (\<lambda>n3 s3. parses pat (set_next n2 n3) s3 (\<lambda>_ s'. sequence pat s n2 s' \<and> rpos s < rpos s'))"
    proof (rule parses_mono[OF parses_sequenceD[OF assms(4) p2(1)]])
      fix n3 s3 assume s3: "sequence pat s2 n3 s3 \<and> rpos s2 < rpos s3"
      show "parses pat (set_next n2 n3) s3 (\<lambda>_ s'. sequence pat s n2 s' \<and> rpos s < rpos s')"
        by (rule parses_mono[OF attach_ok]) (use s2 s3 p2(2) in auto)
    qed (use p2(2) in simp)
    show "parses pat (rbind (peek_char pat) (\<lambda>c.
       if c \<notin> {ch CHR ''|'', ch CHR '')'', ch CHR ''*'', ch CHR ''+'', 0} then
         rbind (rex_element k pat) (\<lambda>nnode. rbind (set_next n2 nnode) (\<lambda>_. rreturn n2))
       else rreturn n2)) s2 (\<lambda>n s'. sequence pat s n s' \<and> rpos s < rpos s')"
      unfolding parses_simps(1)[of _ "peek_char pat"]
      by (rule parses_peek[OF p2(1)]) (use more s2 p2(2) in \<open>auto dest: subtree_sequence\<close>)
  qed
qed

lemma rex_list_step:
  assumes "c_string pat" "parsing pat s" "parses_sequence pat (Suc (rpos s)) (rex_list k pat)" "parses_sequence pat (rpos s) (rex_element k pat)"
  shows "parses pat (rex_list (Suc k) pat) s (\<lambda>n s'. sequence pat s n s' \<and> rpos s < rpos s')"
proof -
  let ?rest = "\<lambda>ret. rbind (peek_char pat) (\<lambda>c. if c = ch CHR ''|'' then rbind advance (\<lambda>_. alternative (rex_list k pat) ret) else rreturn ret)"
  have rest: "parses pat (?rest n) s1 (\<lambda>n s'. sequence pat s n s' \<and> rpos s < rpos s')" if s1: "sequence pat s n s1" "rpos s < rpos s1" for n s1
  proof -
    let ?s = "s1\<lparr>rpos := Suc (rpos s1)\<rparr>"
    have p1: "parsing pat s1" using s1(1) by (simp add: sequence_def grew_def)
    have alt: "parses pat (alternative (rex_list k pat) n) ?s (\<lambda>n s'. sequence pat s n s' \<and> rpos s < rpos s')" if "rpos s1 < length pat"
    proof -
      have p: "parsing pat ?s" using p1 that by (simp add: parsing_advance)
      then have q: "sequence pat s n ?s" using s1 by (auto simp: sequence_def grew_def)
      show ?thesis
      proof (rule parses_mono[OF alternative_ok[OF q]])
        fix t assume "parsing pat t" "rpos t = rpos ?s"
        then show "parses pat (rex_list k pat) t (sequence pat t)"
          using s1(2) by (intro parses_mono[OF parses_sequenceD[OF assms(3)]]) auto
      qed (use s1(2) in auto)
    qed
    show ?thesis
      unfolding parses_simps(1)[of _ "peek_char pat"] by (rule parses_peek[OF p1]) (use alt s1 in auto)
  qed
  have plain: "parses pat (list_rest pat (rex_list k pat) (rex_element k pat) (-1)) s (\<lambda>n s'. sequence pat s n s' \<and> rpos s < rpos s')"
    unfolding list_rest_def parses_simps(1)[of _ "rex_element _ _"]
    by (rule parses_mono[OF parses_sequenceD[OF assms(4,2)]]) (use rest in \<open>auto simp: parses_simps(1)[of _ "rreturn _"] simp del: parses_simps(1)\<close>)
  have bol: "parses pat (newnode OP_BOL) (s\<lparr>rpos := Suc (rpos s)\<rparr>) (\<lambda>b s1.
      parses pat (list_rest pat (rex_list k pat) (rex_element k pat) b) s1 (\<lambda>n s'. sequence pat s n s' \<and> rpos s < rpos s'))" if "rpos s < length pat"
  proof -
    let ?s = "s\<lparr>rpos := Suc (rpos s)\<rparr>"
    have p: "parsing pat ?s" using assms(2) that by (simp add: parsing_advance)
    then have g: "grew pat s ?s" by (simp add: grew_def)
    show ?thesis
    proof (rule parses_mono[OF newnode_leaf[OF leaf_types(6) p]], goal_cases)
      case (1 b s1)
      then have "leaf_at pat s b s1" using g by (auto simp: leaf_at_def new_leaf_advanced grew_def)
      then have sub: "subtree pat s b s1" "rpos s < rpos s1" using leaf_subtree by auto
      then have p1: "parsing pat s1" by (simp add: subtree_def grew_def)
      have b: "b \<noteq> -1" using 1 by (simp add: new_leaf_def)
      show ?case
        unfolding list_rest_def parses_simps(1)[of _ "rex_element _ _"]
      proof (rule parses_mono[OF parses_sequenceD[OF assms(4) p1]], goal_cases)
        case (2 e s2)
        have "parses pat (set_next b e) s2 (\<lambda>_ s3. parses pat (?rest b) s3 (\<lambda>n s'. sequence pat s n s' \<and> rpos s < rpos s'))"
          by (rule parses_mono[OF attach_ok[OF sub(1)]]) (use 2 rest sub(2) in \<open>auto simp del: parses_simps(1)\<close>)
        then show ?case using b by (simp add: parses_simps(1)[of _ "if _ then _ else _"] parses_simps(1)[of _ "set_node _ _"] parses_simps(1)[of _ "rbind _ _"] del: parses_simps(1))
      qed (use sub(2) in simp)
    qed
  qed
  show ?thesis
    unfolding rex_list.simps parses_simps(1)[of _ "peek_char pat"]
    by (rule parses_peek[OF assms(2)]; subst parses_simps(1)) (use plain bol in auto)
qed

lemma rex_list_element_ok:
  assumes "c_string pat"
  shows "parsing pat s \<Longrightarrow> 2 * (length pat + 2 - rpos s) + 1 \<le> k \<Longrightarrow> parses pat (rex_list k pat) s (\<lambda>n s'. sequence pat s n s' \<and> rpos s < rpos s')"
    and "parsing pat s \<Longrightarrow> 2 * (length pat + 2 - rpos s) \<le> k \<Longrightarrow> parses pat (rex_element k pat) s (\<lambda>n s'. sequence pat s n s' \<and> rpos s < rpos s')"
proof (induction k arbitrary: s)
  case 0
  { case 1 then show ?case by simp }
  { case 2 then show ?case by (simp add: parsing_def split: if_splits) }
next
  case (Suc k)
  have le: "rpos s \<le> length pat + 1" if "parsing pat s" for s using that by (simp add: parsing_def split: if_splits)
  have lists: "parses_sequence pat p (rex_list k pat)" if "2 * (length pat + 2 - p) + 1 \<le> k" for p
    unfolding parses_sequence_def using that by (auto intro!: Suc.IH(1))
  have elements: "parses_sequence pat p (rex_element k pat)" if "2 * (length pat + 2 - p) \<le> k" for p
    unfolding parses_sequence_def using that by (auto intro!: Suc.IH(2))
  { case 1
    show ?case by (rule rex_list_step[OF assms 1(1)]) (use 1(2) le[OF 1(1)] in \<open>auto intro!: lists elements\<close>)
  }
  { case 2
    show ?case by (rule rex_element_step[OF assms 2(1)]) (use 2(2) le[OF 2(1)] in \<open>auto intro!: lists elements\<close>)
  }
qed

text \<open>A compiled expression.\<close>

definition wf_rex :: "rexnode list \<Rightarrow> int \<Rightarrow> bool" where
  "wf_rex ns K \<longleftrightarrow> wf_node K ns 0 (length ns) 0 \<and> rtype (ns ! 0) = OP_EXPR \<and> rnext (ns ! 0) = -1"

lemma rex_compile_empty: "rex_compile fuel [] = RUndef"
  by (simp add: rex_compile_def rbind_def newnode_def)

lemma rex_compile_parses:
  assumes "c_string pat" "2 * length pat + 5 \<le> fuel"
  shows "case rex_compile fuel pat of ROk u s \<Rightarrow> wf_rex (rnodes s) (rsubexpr s) | RError e \<Rightarrow> True
    | RUndef \<Rightarrow> pat = [] \<or> dangling pat | RFuel \<Rightarrow> False"
proof (cases "pat = []")
  case False
  let ?s = "\<lparr>rpos = 0, rnodes = [], rallocated = length pat, rsubexpr = 0\<rparr>"
  have p: "parsing pat ?s" using False by (simp add: parsing_def)
  have "parses pat (rbind (newnode OP_EXPR) (\<lambda>first.
     rbind (rex_list fuel pat) (\<lambda>res. rbind (set_left first res) (\<lambda>_. rbind (peek_char pat) (\<lambda>c.
       if c \<noteq> 0 then rerror ''unexpected character'' else rreturn ()))))) ?s (\<lambda>_ s. wf_rex (rnodes s) (rsubexpr s))"
    unfolding parses_simps(1)
  proof (rule parses_new[OF p])
    fix s1 assume s1: "parsing pat s1" "rpos s1 = rpos ?s" "rsubexpr s1 = (if OP_EXPR = OP_EXPR then rsubexpr ?s + 1 else rsubexpr ?s)"
      "rnodes s1 = rnodes ?s @ [\<lparr>rtype = OP_EXPR, rleft = -1, rright = (if OP_EXPR = OP_EXPR then rsubexpr ?s else -1), rnext = -1\<rparr>]"
    show "parses pat (rex_list fuel pat) s1 (\<lambda>res s. parses pat (set_left (int (length (rnodes ?s))) res) s (\<lambda>_ s.
        parses pat (peek_char pat) s (\<lambda>c s. parses pat (if c \<noteq> 0 then rerror ''unexpected character'' else rreturn ()) s (\<lambda>_ s. wf_rex (rnodes s) (rsubexpr s)))))"
    proof (rule parses_mono[OF rex_list_element_ok(1)[OF assms(1) s1(1)]])
      show "2 * (length pat + 2 - rpos s1) + 1 \<le> fuel" using assms(2) s1(2) by simp
      fix r s2 assume s2: "sequence pat s1 r s2 \<and> rpos s1 < rpos s2"
      then obtain i where i: "r = int i" "wf_chain (rsubexpr s2) (rnodes s2) 1 (length (rnodes s2)) i" and g: "grew pat s1 s2"
        using s1(4) by (auto simp: sequence_def)
      have p2: "parsing pat s2" "0 < length (rnodes s2)" "0 < rsubexpr s2" "rnodes s2 ! 0 = rnodes s1 ! 0"
        using g s1(3,4) by (auto simp: grew_def)
      show "parses pat (set_left (int (length (rnodes ?s))) r) s2 (\<lambda>_ s.
        parses pat (peek_char pat) s (\<lambda>c s. parses pat (if c \<noteq> 0 then rerror ''unexpected character'' else rreturn ()) s (\<lambda>_ s. wf_rex (rnodes s) (rsubexpr s))))"
      proof (rule parses_set[OF p2(1)])
        fix s3 assume s3: "parsing pat s3" "rsubexpr s3 = rsubexpr s2"
          "rnodes s3 = (rnodes s2)[nat (int (length (rnodes ?s))) := (rnodes s2 ! nat (int (length (rnodes ?s))))\<lparr>rleft := r\<rparr>]"
        have n: "rnodes s3 ! 0 = \<lparr>rtype = OP_EXPR, rleft = int i, rright = 0, rnext = -1\<rparr>"
          using s3(3) p2(2,4) s1(3,4) i(1) by simp
        have len: "length (rnodes s3) = length (rnodes s2)" using s3(3) by simp
        have "wf_chain (rsubexpr s3) (rnodes s3) (Suc 0) (length (rnodes s3)) i"
          unfolding len by (rule wf_cong(2)) (use i(2) s3 in auto)
        then have "wf_node (rsubexpr s3) (rnodes s3) 0 (length (rnodes s3)) 0"
          by (intro wf_expr[where l = i]) (use n p2(2,3) len s3(2) in simp_all)
        then have "wf_rex (rnodes s3) (rsubexpr s3)" using n by (simp add: wf_rex_def)
        then show "parses pat (peek_char pat) s3 (\<lambda>c s. parses pat (if c \<noteq> 0 then rerror ''unexpected character'' else rreturn ()) s (\<lambda>_ s. wf_rex (rnodes s) (rsubexpr s)))"
          by (intro parses_peek[OF s3(1)]) simp_all
      qed (use p2 in simp_all)
    qed
  qed
  then show ?thesis by (auto simp: parses_def rex_compile_def split: rx.splits)
qed (simp add: rex_compile_empty)

end
