(* ===== verification/GS_RexMatch.thy ===== *)
theory GS_RexMatch
  imports GS_RexParse
begin

text \<open>
  The matcher on well-formed expressions: it ends, what it reports lies in the text, and it is sound for a relational
  reading of the nodes.
\<close>

section \<open>The matcher stays in bounds\<close>

definition rx_rank :: "nat \<Rightarrow> nat \<Rightarrow> nat \<Rightarrow> nat" where
  "rx_rank N lo hi = (N - lo) * (N + 1) + (hi - lo)"

lemma rank_inner: "lo \<le> lo' \<Longrightarrow> hi' < hi \<Longrightarrow> lo' < hi' \<Longrightarrow> hi \<le> N \<Longrightarrow> rx_rank N lo' hi' < rx_rank N lo hi"
proof -
  assume a: "lo \<le> lo'" "hi' < hi" "lo' < hi'" "hi \<le> N"
  have "(N - lo') * (N + 1) \<le> (N - lo) * (N + 1)" using a by (intro mult_right_mono) auto
  then show ?thesis using a by (simp add: rx_rank_def)
qed

lemma rank_after:
  assumes "lo < lo'" "lo' < hi'" "hi' \<le> N" "lo < hi"
  shows "rx_rank N lo' hi' < rx_rank N lo hi"
proof -
  have "(N - lo') * (N + 1) + (N + 1) = (N - lo' + 1) * (N + 1)" by simp
  also have "\<dots> \<le> (N - lo) * (N + 1)" using assms by (intro mult_right_mono) auto
  finally show ?thesis using assms by (simp add: rx_rank_def)
qed

lemma rank_mono: "lo \<le> mid \<Longrightarrow> rx_rank N mid h \<le> rx_rank N lo h"
proof -
  assume a: "lo \<le> mid"
  have "(N - mid) * (N + 1) \<le> (N - lo) * (N + 1)" using a by (intro mult_right_mono) auto
  moreover have "h - mid \<le> h - lo" using a by simp
  ultimately show ?thesis unfolding rx_rank_def by linarith
qed

lemma rank_bound: "hi \<le> N \<Longrightarrow> rx_rank N lo hi < (N + 1) * (N + 1)"
proof -
  assume "hi \<le> N"
  have "(N - lo) * (N + 1) \<le> N * (N + 1)" by (intro mult_right_mono) auto
  moreover have "hi - lo < N + 1" using \<open>hi \<le> N\<close> by simp
  ultimately show ?thesis by (simp add: rx_rank_def)
qed

text \<open>The node that follows a range of nodes.\<close>

definition after :: "int \<Rightarrow> rexnode list \<Rightarrow> nat \<Rightarrow> int \<Rightarrow> bool" where
  "after K ns hi next \<longleftrightarrow> next = -1 \<or> (\<exists>j h. next = int j \<and> wf_chain K ns hi h j)"

lemma after_none [simp]: "after K ns hi (-1)" by (simp add: after_def)
lemma after_le: "after K ns hi next \<Longrightarrow> hi' \<le> hi \<Longrightarrow> after K ns hi' next"
  by (auto simp: after_def intro: wf_widen(2))

lemma wf_chain_split:
  assumes "wf_chain K ns lo hi i"
  shows "\<exists>mid \<le> hi. wf_node K ns lo mid i \<and> (rnext (ns ! i) = -1 \<or> (\<exists>j. rnext (ns ! i) = int j \<and> wf_chain K ns mid hi j))"
  using assms
proof (cases rule: wf_chain.cases)
  case (wf_more mid j)
  then show ?thesis using wf_range(2)[OF wf_more(3)] by (intro exI[of _ mid]) auto
qed auto

lemma wf_chain_after:
  assumes "wf_chain K ns lo hi i"
  obtains mid where "mid \<le> hi" "wf_node K ns lo mid i" "after K ns mid (rnext (ns ! i))"
  using wf_chain_split[OF assms] that by (auto simp: after_def)

text \<open>What follows node \<open>i\<close>: its successor, and the node the caller hands over.\<close>

definition continues :: "int \<Rightarrow> rexnode list \<Rightarrow> nat \<Rightarrow> nat \<Rightarrow> int \<Rightarrow> bool" where
  "continues K ns hi i next \<longleftrightarrow> after K ns hi next \<and> after K ns hi (rnext (ns ! i))
     \<and> (rnext (ns ! i) = -1 \<or> next \<in> {-1, rnext (ns ! i)})"

text \<open>What a call of the matcher does to the captures: those below the current one stay, the others stay or are in the text.\<close>

definition capture_ok :: "rexenv \<Rightarrow> rexmatch \<Rightarrow> bool" where
  "capture_ok E m \<longleftrightarrow> (case mbegin m of None \<Rightarrow> True | Some b \<Rightarrow> 0 \<le> mlen m \<and> int b + mlen m \<le> int (eeol E))"

definition captured :: "rexenv \<Rightarrow> rexstate \<Rightarrow> rexstate \<Rightarrow> bool" where
  "captured E s s' \<longleftrightarrow> length (rmatches s') = length (rmatches s) \<and> currsubexp s \<le> currsubexp s'
     \<and> (\<forall>c < length (rmatches s). if int c < currsubexp s then rmatches s' ! c = rmatches s ! c
          else rmatches s' ! c = rmatches s ! c \<or> capture_ok E (rmatches s' ! c))"

lemma captured_refl [simp]: "captured E s s"
  by (simp add: captured_def)

lemma captured_trans: "captured E s s1 \<Longrightarrow> captured E s1 s2 \<Longrightarrow> captured E s s2"
  unfolding captured_def by (auto split: if_splits) (metis order.strict_trans2 linorder_not_less)+

definition rx_runs :: "rexenv \<Rightarrow> 'a rmatch \<Rightarrow> rexstate \<Rightarrow> ('a \<Rightarrow> rexstate \<Rightarrow> bool) \<Rightarrow> bool" where
  "rx_runs E m s Q \<longleftrightarrow>
     (case m s of ROk x s' \<Rightarrow> Q x s' | RUndef \<Rightarrow> \<exists>n \<in> set (enodes E). rtype n = OP_WB | _ \<Rightarrow> False)"

lemma rx_runs_mono: "rx_runs E m s Q \<Longrightarrow> (\<And>x s'. Q x s' \<Longrightarrow> Q' x s') \<Longrightarrow> rx_runs E m s Q'"
  by (auto simp: rx_runs_def split: rx.splits)

lemma rx_runs_simps [simp]:
  "rx_runs E (rbind m f) s Q \<longleftrightarrow> rx_runs E m s (\<lambda>x s1. rx_runs E (f x) s1 Q)"
  "rx_runs E (rreturn x) s Q \<longleftrightarrow> Q x s"
  "rx_runs E (rget g) s R \<longleftrightarrow> R (g s) s"
  "rx_runs E (rput h) s S \<longleftrightarrow> S () (h s)"
  by (auto simp: rx_runs_def rbind_def rreturn_def rget_def rput_def split: rx.split)

lemma rx_runs_ifI: "(b \<Longrightarrow> rx_runs E m s Q) \<Longrightarrow> (\<not> b \<Longrightarrow> rx_runs E m' s Q) \<Longrightarrow> rx_runs E (if b then m else m') s Q"
  by simp

lemma rx_runs_node [simp]: "i < length (enodes E) \<Longrightarrow> rx_runs E (node_at E (int i)) s Q \<longleftrightarrow> Q (enodes E ! i) s"
  by (simp add: node_at_def)

lemma rx_runs_deref: "i \<le> length (etext E) \<Longrightarrow> (\<And>c. Q c s) \<Longrightarrow> rx_runs E (deref E i) s Q"
  by (simp add: deref_def char_at_def)

text \<open>An answer: a position from \<open>str\<close> to the end.\<close>

definition rx_answers :: "rexenv \<Rightarrow> nat \<Rightarrow> rexstate \<Rightarrow> nat option \<Rightarrow> rexstate \<Rightarrow> bool" where
  "rx_answers E str s r s' \<longleftrightarrow> captured E s s' \<and> (\<forall>e. r = Some e \<longrightarrow> str \<le> e \<and> e \<le> eeol E)"

lemma answers_none [simp]: "rx_answers E str s None s' \<longleftrightarrow> captured E s s'"
  by (simp add: rx_answers_def)

lemma answers_trans: "captured E s s1 \<Longrightarrow> str \<le> str' \<Longrightarrow> rx_answers E str' s1 r s2 \<Longrightarrow> rx_answers E str s r s2"
  by (auto simp: rx_answers_def intro: captured_trans)

definition rex_state :: "int \<Rightarrow> rexstate \<Rightarrow> bool" where
  "rex_state K s \<longleftrightarrow> int (length (rmatches s)) = K"

lemma rex_state_captured: "captured E s s' \<Longrightarrow> rex_state K s \<Longrightarrow> rex_state K s'"
  by (simp add: captured_def rex_state_def)

definition matcher_ok :: "rexenv \<Rightarrow> int \<Rightarrow> matcher \<Rightarrow> nat \<Rightarrow> bool" where
  "matcher_ok E K call k \<longleftrightarrow> (\<forall>lo hi i str next s. wf_node K (enodes E) lo hi i \<and> continues K (enodes E) hi i next
     \<and> rx_rank (length (enodes E)) lo hi < k \<and> str \<le> eeol E \<and> rex_state K s \<longrightarrow> rx_runs E (call (int i) str next) s (rx_answers E str s))"

lemma matcher_okD:
  "matcher_ok E K call k \<Longrightarrow> wf_node K (enodes E) lo hi i \<Longrightarrow> continues K (enodes E) hi i next \<Longrightarrow>
     rx_rank (length (enodes E)) lo hi < k \<Longrightarrow> str \<le> eeol E \<Longrightarrow> rex_state K s \<Longrightarrow> rx_runs E (call (int i) str next) s (rx_answers E str s)"
  unfolding matcher_ok_def by blast

subsection \<open>Leaves\<close>

lemma matchclass_ok:
  "links (enodes E) (j # js) \<Longrightarrow> length js < k \<Longrightarrow> rx_runs E (matchclass k E (int j) c) s (\<lambda>_ s'. s' = s)"
proof (induction js arbitrary: j k)
  case Nil
  then show ?case by (cases k) auto
next
  case (Cons j' js)
  then show ?case by (cases k) auto
qed

lemma links_length: "links ns xs \<Longrightarrow> length xs \<le> length ns"
proof -
  assume "links ns xs"
  then have "distinct xs" "set xs \<subseteq> {..<length ns}" using links_sorted[of ns xs] by (auto simp: strict_sorted_iff)
  then show ?thesis by (metis card_lessThan card_mono distinct_card finite_lessThan)
qed

lemma balanced_ok:
  assumes "eeol E \<le> length (etext E)"
  shows "eeol E < str + k \<Longrightarrow> str \<le> eeol E \<Longrightarrow> rx_runs E (balanced k E cb ce n str) s (rx_answers E str s)"
proof (induction k arbitrary: str n)
  case (Suc k)
  have IH: "rx_runs E (balanced k E cb ce m (Suc str)) s (rx_answers E str s)" if "Suc str < eeol E" for m
    by (rule rx_runs_mono[OF Suc.IH]) (use Suc.prems that in \<open>auto simp: rx_answers_def\<close>)
  have "Suc str < eeol E \<Longrightarrow> rx_answers E str s (Some (Suc (Suc str))) s" by (simp add: rx_answers_def)
  then show ?case using assms IH by (auto intro!: rx_runs_deref)
qed simp

lemma word_boundary_ok:
  assumes "n \<in> set (enodes E)" "rtype n = OP_WB"
  shows "rx_runs E (word_boundary E str) s (\<lambda>_ s'. s' = s)"
proof -
  have any: "rx_runs E (rundef :: 'a rmatch) s Q" for Q using assms by (auto simp: rx_runs_def rundef_def)
  have sp: "rx_runs E (spaces E i) s Q" if "\<And>b. Q b s" for i Q
    unfolding spaces_def rx_runs_simps deref_def char_at_def using that any by auto
  show ?thesis unfolding word_boundary_def rx_runs_simps
    by (auto intro!: sp any)
qed

lemma match_leaf_ok:
  assumes "wf_node K (enodes E) lo hi i" "rtype (enodes E ! i) \<notin> {OP_GREEDY, OP_OR, OP_EXPR, OP_NOCAPEXPR}"
    and e: "eeol E \<le> length (etext E)" "str \<le> eeol E"
  shows "rx_runs E (match_leaf E (enodes E ! i) str) s (rx_answers E str s)"
proof -
  let ?n = "enodes E ! i"
  have i: "i < length (enodes E)" using wf_range(1)[OF assms(1)] by simp
  then have n: "?n \<in> set (enodes E)" by simp
  have one: "rx_runs E (one_char E str test) s (rx_answers E str s)" if "\<And>c. rx_runs E (test c) s (\<lambda>_ s'. s' = s)" for test
  proof -
    have "rx_runs E (test c) s (\<lambda>b s'. rx_answers E str s (if b then Some (str + 1) else None) s')" if "str \<noteq> eeol E" for c
      by (rule rx_runs_mono[OF \<open>\<And>c. rx_runs E (test c) s (\<lambda>_ s'. s' = s)\<close>]) (use that e(2) in \<open>auto simp: rx_answers_def\<close>)
    then show ?thesis using e by (auto simp: one_char_def intro!: rx_runs_deref)
  qed
  have cls: "rx_runs E (matchclass (Suc (length (enodes E))) E (rleft ?n) c) s (\<lambda>_ s'. s' = s)" if c: "rtype ?n \<in> {OP_CLASS, OP_NCLASS}" for c
    using assms(1)
  proof (cases rule: wf_node.cases)
    case (wf_class j js)
    then show ?thesis using matchclass_ok[of E j js "Suc (length (enodes E))" c s] links_length[of "enodes E" "j # js"] by simp
  qed (use assms(2) c in \<open>auto simp: inner_types_def\<close>)
  have mb: "rx_runs E (balanced (Suc (eeol E)) E (rleft ?n) (rright ?n) 1 str) s (rx_answers E str s)"
    by (rule balanced_ok[OF e(1)]) (use e(2) in simp_all)
  have wb: "rx_runs E (word_boundary E str) s (\<lambda>b s'. rx_answers E str s (if b = (rleft ?n = ch CHR ''b'') then Some str else None) s')" if "rtype ?n = OP_WB"
    by (rule rx_runs_mono[OF word_boundary_ok[OF n that]]) (use e(2) in \<open>auto simp: rx_answers_def\<close>)
  have cc: "rx_runs E (one_char E str (\<lambda>c. rbind (matchclass (Suc (length (enodes E))) E (rleft ?n) c) (\<lambda>b. rreturn (b = (rtype ?n = OP_CLASS))))) s (rx_answers E str s)"
    if "rtype ?n \<in> {OP_CLASS, OP_NCLASS}"
    by (rule one, unfold rx_runs_simps, rule cls[OF that])
  have mb': "rx_runs E (rbind (deref E str) (\<lambda>c. if c \<noteq> rleft ?n then rreturn None else balanced (Suc (eeol E)) E (rleft ?n) (rright ?n) 1 str)) s (rx_answers E str s)"
    unfolding rx_runs_simps using e mb by (intro rx_runs_deref) auto
  have plain: "rx_answers E str s (if b then Some str else None) s" "str \<noteq> eeol E \<Longrightarrow> rx_answers E str s (Some (str + 1)) s" for b
    using e by (auto simp: rx_answers_def)
  show ?thesis
    unfolding match_leaf_def
    by (intro rx_runs_ifI)
      (use wb cc mb' plain one[of "\<lambda>c. rreturn (matchcclass (rleft ?n) c)"] one[of "\<lambda>c. rreturn (c = rtype ?n)"] in
        \<open>auto simp del: rx_runs_simps(1) matchclass.simps simp: rx_runs_simps(1)[of _ "word_boundary _ _"]\<close>)
qed

subsection \<open>Inner nodes\<close>

lemma branch_ok:
  assumes "matcher_ok E K call k"
  shows "wf_chain K (enodes E) lo hi i \<Longrightarrow> hi - lo < f \<Longrightarrow> (\<And>h. h \<le> hi \<Longrightarrow> rx_rank (length (enodes E)) lo h < k) \<Longrightarrow> str \<le> eeol E \<Longrightarrow> rex_state K s \<Longrightarrow>
    rx_runs E (branch f E call (int i) str) s (rx_answers E str s)"
proof (induction f arbitrary: lo i str s)
  case (Suc f)
  from Suc.prems(1) obtain mid where mid: "mid \<le> hi" "wf_node K (enodes E) lo mid i"
    and nx: "rnext (enodes E ! i) = -1 \<or> (\<exists>j. rnext (enodes E ! i) = int j \<and> wf_chain K (enodes E) mid hi j)"
    using wf_chain_split by blast
  note r = wf_range(1)[OF mid(2)]
  have i: "i < length (enodes E)" using r by simp
  have c0: "continues K (enodes E) mid i (-1)" using nx by (auto simp: continues_def after_def)
  show ?case
    unfolding branch.simps rx_runs_simps(1)[of _ "call _ _ _"]
  proof (rule rx_runs_mono[OF matcher_okD[OF assms mid(2) c0 Suc.prems(3)[OF mid(1)] Suc.prems(4,5)]])
    fix x s' assume a: "rx_answers E str s x s'"
    show "rx_runs E (case x of None \<Rightarrow> rreturn None | Some a \<Rightarrow> rbind (node_at E (int i)) (\<lambda>t. if rnext t \<noteq> -1 then branch f E call (rnext t) a else rreturn (Some a))) s' (rx_answers E str s)"
    proof (cases x)
      case (Some e)
      with a have e: "str \<le> e" "e \<le> eeol E" "captured E s s'" by (auto simp: rx_answers_def)
      have st: "rex_state K s'" using rex_state_captured[OF e(3) Suc.prems(5)] .
      have "rx_runs E (branch f E call (int j) e) s' (rx_answers E str s)" if c: "wf_chain K (enodes E) mid hi j" for j
      proof (rule rx_runs_mono[OF Suc.IH[OF c _ _ e(2) st]])
        show "hi - mid < f" using Suc.prems(2) r mid(1) wf_range(2)[OF c] by linarith
        show "rx_rank (length (enodes E)) mid h < k" if "h \<le> hi" for h
          using Suc.prems(3)[OF that] rank_mono[of lo mid "length (enodes E)" h] r by simp
      qed (use e in \<open>auto intro: answers_trans\<close>)
      then show ?thesis using nx i a Some by auto
    qed (use a in simp)
  qed
qed simp

lemma group_items_ok:
  assumes "matcher_ok E K call k" and "after K (enodes E) hi next"
  shows "wf_chain K (enodes E) lo hi i \<Longrightarrow> hi - lo < f \<Longrightarrow> (\<And>h. h \<le> hi \<Longrightarrow> rx_rank (length (enodes E)) lo h < k) \<Longrightarrow> str \<le> eeol E \<Longrightarrow> rex_state K s \<Longrightarrow>
    rx_runs E (group_items f E call next (int i) str) s (rx_answers E str s)"
proof (induction f arbitrary: lo i str s)
  case (Suc f)
  from Suc.prems(1) obtain mid where mid: "mid \<le> hi" "wf_node K (enodes E) lo mid i"
    and nx: "rnext (enodes E ! i) = -1 \<or> (\<exists>j. rnext (enodes E ! i) = int j \<and> wf_chain K (enodes E) mid hi j)"
    using wf_chain_split by blast
  note r = wf_range(1)[OF mid(2)]
  have i: "i < length (enodes E)" using r by simp
  have nxt: "continues K (enodes E) mid i (if rnext (enodes E ! i) \<noteq> -1 then rnext (enodes E ! i) else next)"
    using nx after_le[OF assms(2) mid(1)] by (auto simp: continues_def after_def)
  have rest: "rx_runs E (case x of None \<Rightarrow> rreturn None
        | Some a \<Rightarrow> if rnext (enodes E ! i) \<noteq> -1 then group_items f E call next (rnext (enodes E ! i)) a else rreturn (Some a)) s' (rx_answers E str s)"
    if a: "rx_answers E str s x s'" for x s'
  proof (cases x)
    case (Some e)
    with a have e: "str \<le> e" "e \<le> eeol E" "captured E s s'" by (auto simp: rx_answers_def)
    have st: "rex_state K s'" using rex_state_captured[OF e(3) Suc.prems(5)] .
    have "rx_runs E (group_items f E call next (int j) e) s' (rx_answers E str s)" if c: "wf_chain K (enodes E) mid hi j" for j
    proof (rule rx_runs_mono[OF Suc.IH[OF c _ _ e(2) st]])
      show "hi - mid < f" using Suc.prems(2) r mid(1) wf_range(2)[OF c] by linarith
      show "rx_rank (length (enodes E)) mid h < k" if "h \<le> hi" for h
        using Suc.prems(3)[OF that] rank_mono[of lo mid "length (enodes E)" h] r by simp
    qed (use e in \<open>auto intro: answers_trans\<close>)
    then show ?thesis using nx i a Some by auto
  qed (use a in simp)
  show ?case
    unfolding group_items.simps rx_runs_simps(1)
    using i rx_runs_mono[OF matcher_okD[OF assms(1) mid(2) nxt Suc.prems(3)[OF mid(1)] Suc.prems(4,5)] rest] by simp
qed simp

lemma stops_here_ok:
  assumes "matcher_ok E K call k" "after K (enodes E) hi stop" "next \<in> {-1, stop}" "str \<le> eeol E" "rex_state K s"
    and "\<And>lo h. hi \<le> lo \<Longrightarrow> lo < h \<Longrightarrow> h \<le> length (enodes E) \<Longrightarrow> rx_rank (length (enodes E)) lo h < k"
  shows "rx_runs E (stops_here E call stop next p0 p1 n str) s (\<lambda>_ s'. captured E s s')"
proof (cases "stop = -1")
  case False
  then obtain j h where j: "stop = int j" "wf_chain K (enodes E) hi h j" using assms(2) by (auto simp: after_def)
  obtain mid where mid: "mid \<le> h" "wf_node K (enodes E) hi mid j" "after K (enodes E) mid (rnext (enodes E ! j))"
    using wf_chain_after[OF j(2)] by blast
  have jl: "j < length (enodes E)" using wf_range(1)[OF mid(2)] by simp
  have "continues K (enodes E) mid j (rnext (enodes E ! j))" using mid(3) by (simp add: continues_def)
  then have call: "rx_runs E (call stop str (rnext (enodes E ! j))) s (\<lambda>r s1. captured E s s1)"
    unfolding j(1) by (intro rx_runs_mono[OF matcher_okD[OF assms(1) mid(2)]])
      (use assms(4,5,6) wf_range(1)[OF mid(2)] in \<open>auto simp: rx_answers_def\<close>)
  show ?thesis
    unfolding stops_here_def using call assms(3) jl False by (auto simp: j(1))
qed (simp add: stops_here_def)

lemma greedy_loop_ok:
  assumes call: "matcher_ok E K call k" and stop: "after K (enodes E) hi stop" "next \<in> {-1, stop}"
    and body: "wf_node K (enodes E) lo mid l" "continues K (enodes E) mid l stop" "rx_rank (length (enodes E)) lo mid < k"
    and later: "\<And>lo h. hi \<le> lo \<Longrightarrow> lo < h \<Longrightarrow> h \<le> length (enodes E) \<Longrightarrow> rx_rank (length (enodes E)) lo h < k"
  shows "str \<le> eeol E \<Longrightarrow> rex_state K s \<Longrightarrow>
    rx_runs E (greedy_loop E call (int l) stop next p0 p1 n str) s (\<lambda>(e, m) s'. captured E s s' \<and> str \<le> e \<and> e \<le> eeol E)"
proof (induction "max p1 0x10000 - n" arbitrary: n str s rule: less_induct)
  case less
  have step: "rx_runs E (case r of None \<Rightarrow> rreturn (str, n)
      | Some s1 \<Rightarrow> rbind (stops_here E call stop next p0 p1 (n + 1) s1) (\<lambda>b.
          if b \<or> eeol E \<le> s1 then rreturn (s1, n + 1) else greedy_loop E call (int l) stop next p0 p1 (n + 1) s1)) s'
      (\<lambda>(e, m) s'. captured E s s' \<and> str \<le> e \<and> e \<le> eeol E)"
    if n: "n = 0xFFFF \<or> n < p1" and a: "rx_answers E str s r s'" for r s'
  proof (cases r)
    case None
    then show ?thesis using a less.prems by simp
  next
    case (Some s1)
    with a have e: "str \<le> s1" "s1 \<le> eeol E" "captured E s s'" by (auto simp: rx_answers_def)
    have st: "rex_state K s'" using rex_state_captured[OF e(3) less.prems(2)] .
    have "rx_runs E (if b \<or> eeol E \<le> s1 then rreturn (s1, n + 1) else greedy_loop E call (int l) stop next p0 p1 (n + 1) s1) s2
        (\<lambda>(e, m) s'. captured E s s' \<and> str \<le> e \<and> e \<le> eeol E)" if c: "captured E s' s2" for b s2
    proof -
      have m: "max p1 0x10000 - (n + 1) < max p1 0x10000 - n" using n by auto
      have c2: "captured E s s2" using captured_trans[OF e(3) c] .
      have "rx_runs E (greedy_loop E call (int l) stop next p0 p1 (n + 1) s1) s2 (\<lambda>(e, m) s'. captured E s s' \<and> str \<le> e \<and> e \<le> eeol E)"
        by (rule rx_runs_mono[OF less.hyps[OF m e(2) rex_state_captured[OF c st]]]) (use e captured_trans[OF c2] in auto)
      then show ?thesis using e c2 by simp
    qed
    then show ?thesis
      using Some by (simp, intro rx_runs_mono[OF stops_here_ok[OF call stop e(2) st later]]) auto
  qed
  show ?case
    unfolding greedy_loop.simps[of E call "int l" stop "next" p0 p1 n str]
    by (intro rx_runs_ifI, unfold rx_runs_simps(1), rule rx_runs_mono[OF matcher_okD[OF call body less.prems]], rule step)
      (use less.prems in simp_all)
qed

lemma after_node:
  "continues K ns hi i next \<Longrightarrow> after K ns hi (if rnext (ns ! i) \<noteq> -1 then rnext (ns ! i) else next)"
  "continues K ns hi i next \<Longrightarrow> next \<in> {-1, if rnext (ns ! i) \<noteq> -1 then rnext (ns ! i) else next}"
  by (auto simp: continues_def)

lemma set_match_ok:
  assumes "rex_state K s" "0 \<le> c" "c < K" "Q () (s\<lparr>rmatches := (rmatches s)[nat c := f (rmatches s ! nat c)]\<rparr>)"
  shows "rx_runs E (set_match c f) s Q"
  using assms by (simp add: rx_runs_def set_match_def rex_state_def)

text \<open>A group between its first and its last step.\<close>

definition open_group :: "nat \<Rightarrow> rexstate \<Rightarrow> rexstate" where
  "open_group str s = s\<lparr>rmatches := (rmatches s)[nat (currsubexp s) := (rmatches s ! nat (currsubexp s))\<lparr>mbegin := Some str\<rparr>],
     currsubexp := currsubexp s + 1\<rparr>"

lemma captured_group:
  assumes "0 \<le> currsubexp s" "nat (currsubexp s) < length (rmatches s)" "captured E (open_group str s) s2"
  shows "mbegin (rmatches s2 ! nat (currsubexp s)) = Some str" "length (rmatches s2) = length (rmatches s)"
    "capture_ok E m \<Longrightarrow> currsubexp s \<le> k \<Longrightarrow> captured E s (s2\<lparr>currsubexp := k, rmatches := (rmatches s2)[nat (currsubexp s) := m]\<rparr>)"
    "capture_ok E m \<Longrightarrow> captured E s (s2\<lparr>rmatches := (rmatches s2)[nat (currsubexp s) := m]\<rparr>)"
proof -
  let ?c = "nat (currsubexp s)" and ?s1 = "open_group str s"
  have len: "length (rmatches s2) = length (rmatches s)" and cur: "currsubexp s < currsubexp s2"
    using assms(3) by (auto simp: captured_def open_group_def)
  have old: "rmatches s2 ! j = rmatches ?s1 ! j" if "int j \<le> currsubexp s" "j < length (rmatches s)" for j
    using assms(3) that by (auto simp: captured_def open_group_def split: if_splits)
  then show "mbegin (rmatches s2 ! ?c) = Some str" using assms(1,2) by (simp add: open_group_def)
  have new: "rmatches s2 ! j = rmatches s ! j \<or> capture_ok E (rmatches s2 ! j)" if "currsubexp s < int j" "j < length (rmatches s)" for j
  proof -
    have "rmatches (open_group str s) ! j = rmatches s ! j" using that(1) assms(1) by (auto simp: open_group_def)
    then show ?thesis using assms(3) that by (simp add: captured_def) (auto simp: open_group_def)
  qed
  have old': "rmatches s2 ! j = rmatches s ! j" if "int j < currsubexp s" "j < length (rmatches s)" for j
    using old[of j] that by (simp add: open_group_def)
  show "length (rmatches s2) = length (rmatches s)" by (rule len)
  have all: "captured E s (t\<lparr>rmatches := (rmatches s2)[?c := m]\<rparr>)" if "capture_ok E m" "currsubexp s \<le> currsubexp t" for t m
    using that len old' new assms(1) by (auto simp: captured_def nth_list_update)
  show "captured E s (s2\<lparr>currsubexp := k, rmatches := (rmatches s2)[?c := m]\<rparr>)" if "capture_ok E m" "currsubexp s \<le> k"
    using all[OF that(1), of "s2\<lparr>currsubexp := k\<rparr>"] that(2) by simp
  show "captured E s (s2\<lparr>rmatches := (rmatches s2)[?c := m]\<rparr>)" if "capture_ok E m"
    using all[OF that, of s2] cur by simp
qed

lemma captured_reset: "captured E s s2 \<Longrightarrow> currsubexp s \<le> k \<Longrightarrow> captured E s (s2\<lparr>currsubexp := k\<rparr>)"
  by (auto simp: captured_def)

lemma match_group_ok:
  assumes call: "matcher_ok E K call k" and n: "wf_node K (enodes E) lo hi i" "rtype (enodes E ! i) \<in> {OP_EXPR, OP_NOCAPEXPR}" "after K (enodes E) hi next"
    and r: "rx_rank (length (enodes E)) lo hi \<le> k" and s: "str \<le> eeol E" "rex_state K s"
  shows "rx_runs E (match_group E call (enodes E ! i) str next) s (rx_answers E str s)"
proof -
  let ?n = "enodes E ! i" and ?N = "length (enodes E)"
  obtain l where l: "lo \<le> i" "i < hi" "hi \<le> ?N" "rleft ?n = int l" "wf_chain K (enodes E) (Suc i) hi l"
    and cap: "rtype ?n = OP_EXPR \<Longrightarrow> 0 \<le> rright ?n \<and> rright ?n < K"
    using n(1) by (cases rule: wf_node.cases) (use n(2) in \<open>auto simp: inner_types_def rex_ops\<close>)
  have rk: "rx_rank ?N (Suc i) h < k" if "h \<le> hi" "Suc i < h" for h
    using rank_after[of lo "Suc i" h ?N hi] that l r by simp
  have items: "rx_runs E (group_items (Suc ?N) E call next (rleft ?n) str) t (rx_answers E str t)" if "rex_state K t" for t
    unfolding l(4)
  proof (rule group_items_ok[OF call n(3) l(5) _ _ s(1) that])
    show "hi - Suc i < Suc ?N" using l by simp
    show "rx_rank ?N (Suc i) h < k" if "h \<le> hi" for h
    proof (cases "Suc i < h")
      case False
      then have "rx_rank ?N (Suc i) h \<le> rx_rank ?N (Suc i) hi" by (simp add: rx_rank_def)
      then show ?thesis using rk[of hi] wf_range(2)[OF l(5)] by simp
    qed (use rk that in simp)
  qed
  show ?thesis
  proof (cases "rtype ?n \<noteq> OP_NOCAPEXPR \<and> rright ?n = currsubexp s")
    case True
    then have c: "0 \<le> currsubexp s" "currsubexp s < K" "nat (currsubexp s) < length (rmatches s)" using cap n(2) s(2) by (auto simp: rex_state_def)
    have st: "rex_state K (open_group str s)" using s(2) by (simp add: rex_state_def open_group_def)
    have rest: "rx_runs E (end_group (currsubexp s) (currsubexp s + 1) r) t (rx_answers E str s)" if a: "rx_answers E str (open_group str s) r t" for r t
    proof -
      have ct: "captured E (open_group str s) t" using a by (simp add: rx_answers_def)
      note cg = captured_group[OF c(1,3) ct]
      have kt: "rex_state K (t\<lparr>currsubexp := k\<rparr>)" "rex_state K t" for k using cg(2) s(2) by (simp_all add: rex_state_def)
      show ?thesis
      proof (cases r)
        case None
        have "rx_runs E (set_match (currsubexp s) (\<lambda>m. m\<lparr>mbegin := None, mlen := 0\<rparr>)) t (\<lambda>_. captured E s)"
          by (rule set_match_ok[OF kt(2) c(1,2)]) (simp add: cg(4) capture_ok_def)
        then show ?thesis using None c(1) by (simp add: end_group_def)
      next
        case (Some cur)
        then have e: "str \<le> cur" "cur \<le> eeol E" using a by (auto simp: rx_answers_def)
        have "rx_runs E (set_match (currsubexp s) (\<lambda>m. m\<lparr>mlen := int cur - int (case mbegin m of None \<Rightarrow> 0 | Some b \<Rightarrow> b)\<rparr>))
            (t\<lparr>currsubexp := currsubexp s + 1\<rparr>) (\<lambda>_. rx_answers E str s (Some cur))"
          by (rule set_match_ok[OF kt(1) c(1,2)]) (use e in \<open>simp add: rx_answers_def cg(1) cg(3) capture_ok_def\<close>)
        then show ?thesis using Some c(1) by (simp add: end_group_def)
      qed
    qed
    have "rx_runs E (rbind (group_items (Suc ?N) E call next (rleft ?n) str) (end_group (currsubexp s) (currsubexp s + 1))) (open_group str s) (rx_answers E str s)"
      unfolding rx_runs_simps by (rule rx_runs_mono[OF items[OF st] rest])
    then have "rx_runs E (set_match (currsubexp s) (\<lambda>m. m\<lparr>mbegin := Some str\<rparr>)) s (\<lambda>_ t. rx_runs E (rbind (group_items (Suc ?N) E call next (rleft ?n) str)
        (end_group (currsubexp s) (currsubexp s + 1))) (t\<lparr>currsubexp := currsubexp t + 1\<rparr>) (rx_answers E str s))"
      by (intro set_match_ok[OF s(2) c(1,2)]) (simp add: open_group_def del: rx_runs_simps(1))
    moreover have "set_match c f s = ROk u t \<Longrightarrow> currsubexp t = currsubexp s" for c f u t by (auto simp: set_match_def split: if_splits)
    ultimately have "rx_runs E (set_match (currsubexp s) (\<lambda>m. m\<lparr>mbegin := Some str\<rparr>)) s (\<lambda>_ t. rx_runs E (rbind (group_items (Suc ?N) E call next (rleft ?n) str)
        (end_group (currsubexp s) (currsubexp t + 1))) (t\<lparr>currsubexp := currsubexp t + 1\<rparr>) (rx_answers E str s))"
      by (auto simp: rx_runs_def split: rx.splits)
    then show ?thesis using True c(1) by (simp add: match_group_def Let_def del: group_items.simps)
  next
    case False
    have "rx_runs E (end_group (-1) (currsubexp s) r) t (rx_answers E str s)" if a: "rx_answers E str s r t" for r t
      using a by (cases r) (auto simp: end_group_def rx_answers_def intro: captured_reset)
    then have "rx_runs E (group_items (Suc ?N) E call next (rleft ?n) str) s (\<lambda>r t. rx_runs E (end_group (-1) (currsubexp s) r) t (rx_answers E str s))"
      by (rule rx_runs_mono[OF items[OF s(2)]])
    moreover have "(if rtype ?n \<noteq> OP_NOCAPEXPR \<and> rright ?n = currsubexp s then currsubexp s else -1) = -1" using False by auto
    ultimately show ?thesis by (simp add: match_group_def Let_def del: group_items.simps)
  qed
qed

subsection \<open>All nodes\<close>

lemma match_step_ok:
  assumes call: "matcher_ok E K call k" and e: "eeol E \<le> length (etext E)"
  shows "matcher_ok E K (match_step E call) (Suc k)"
  unfolding matcher_ok_def
proof (intro allI impI, elim conjE)
  fix lo hi i str "next" s
  assume n: "wf_node K (enodes E) lo hi i" and c: "continues K (enodes E) hi i next" and r: "rx_rank (length (enodes E)) lo hi < Suc k"
    and s: "str \<le> eeol E" "rex_state K s"
  let ?n = "enodes E ! i" and ?N = "length (enodes E)"
  note wr = wf_range(1)[OF n]
  have aft: "after K (enodes E) hi next" using c by (simp add: continues_def)
  have leaf: "rx_runs E (match_leaf E ?n str) s (rx_answers E str s)" if "rtype ?n \<notin> {OP_GREEDY, OP_OR, OP_EXPR, OP_NOCAPEXPR}"
    by (rule match_leaf_ok[OF n that e s(1)])
  have group: "rx_runs E (match_group E call ?n str next) s (rx_answers E str s)" if "rtype ?n \<in> {OP_EXPR, OP_NOCAPEXPR}"
    by (rule match_group_ok[OF call n that aft _ s]) (use r in simp)
  have later: "rx_rank ?N lo' h < k" if "lo < lo'" "lo' < h" "h \<le> ?N" for lo' h
    using rank_after[of lo lo' h ?N hi] that wr r by simp
  have greedy: "rx_runs E (let stop = (if rnext ?n \<noteq> -1 then rnext ?n else next); p0 = bound0 ?n; p1 = bound1 ?n in
         rbind (greedy_loop E call (rleft ?n) stop next p0 p1 0 str) (\<lambda>(good, n). rreturn (if enough p0 p1 n then Some good else None)))
      s (rx_answers E str s)" if g: "rtype ?n = OP_GREEDY"
    using n
  proof (cases rule: wf_node.cases)
    case (wf_greedy l)
    let ?stop = "if rnext ?n \<noteq> -1 then rnext ?n else next"
    obtain mid where mid: "mid \<le> i" "wf_node K (enodes E) lo mid l" using wf_chain_after[OF wf_greedy(5)] by blast
    have cl: "continues K (enodes E) mid l ?stop"
      using after_node(1)[OF c] mid(1) wr wf_greedy(6) by (auto simp: continues_def intro: after_le)
    have rl: "rx_rank ?N lo mid < k" using rank_inner[of lo lo mid hi ?N] mid wf_range(1)[OF mid(2)] wr r by simp
    have "rx_runs E (greedy_loop E call (int l) ?stop next (bound0 ?n) (bound1 ?n) 0 str) s (\<lambda>(e, m) s'. captured E s s' \<and> str \<le> e \<and> e \<le> eeol E)"
      by (rule greedy_loop_ok[OF call after_node[OF c] mid(2) cl rl _ s]) (use later wr in auto)
    then show ?thesis
      unfolding Let_def wf_greedy(4) rx_runs_simps(1) by (rule rx_runs_mono) (auto simp: rx_answers_def)
  qed (use g in \<open>auto simp: inner_types_def rex_ops\<close>)
  have alt: "rx_runs E (rbind (branch (Suc ?N) E call (rleft ?n) str) (\<lambda>r.
         case r of Some a \<Rightarrow> rreturn (Some a) | None \<Rightarrow> branch (Suc ?N) E call (rright ?n) str)) s (rx_answers E str s)" if g: "rtype ?n = OP_OR"
    using n
  proof (cases rule: wf_node.cases)
    case (wf_or l rt)
    have rl: "rx_rank ?N lo h < k" if "h \<le> i" for h
    proof -
      have "h - lo < hi - lo" using that wr by linarith
      then have "rx_rank ?N lo h < rx_rank ?N lo hi" by (simp only: rx_rank_def nat_add_left_cancel_less)
      then show ?thesis using r by simp
    qed
    have rr: "rx_rank ?N (Suc i) h < k" if "h \<le> hi" for h
    proof (cases "Suc i < h")
      case False
      then have "rx_rank ?N (Suc i) h \<le> rx_rank ?N (Suc i) hi" by (simp add: rx_rank_def)
      then show ?thesis using later[of "Suc i" hi] wf_range(2)[OF wf_or(7)] wr by simp
    qed (use later that wr in simp)
    have right: "rx_runs E (branch (Suc ?N) E call (int rt) str) t (rx_answers E str s)" if t: "captured E s t" for t
      by (rule rx_runs_mono[OF branch_ok[OF call wf_or(7) _ rr s(1) rex_state_captured[OF t s(2)]]]) (use wr t in \<open>auto intro: answers_trans\<close>)
    have left: "rx_runs E (branch (Suc ?N) E call (int l) str) s (rx_answers E str s)"
      by (rule branch_ok[OF call wf_or(5) _ rl s]) (use wr in auto)
    show ?thesis
      unfolding wf_or(4,6) rx_runs_simps(1)
      by (rule rx_runs_mono[OF left]) (use right in \<open>auto split: option.split simp del: branch.simps simp: rx_answers_def\<close>)
  qed (use g in \<open>auto simp: inner_types_def rex_ops\<close>)
  show "rx_runs E (match_step E call (int i) str next) s (rx_answers E str s)"
    unfolding match_step_def rx_runs_simps(1)[of _ "node_at _ _"] rx_runs_node[OF order.strict_trans2[OF conjunct1[OF conjunct2[OF wr]] conjunct2[OF conjunct2[OF wr]]]]
    by (intro rx_runs_ifI) (use leaf group greedy alt in \<open>simp_all del: rx_runs_simps branch.simps\<close>)
qed

lemma matchnode_ok:
  "eeol E \<le> length (etext E) \<Longrightarrow> matcher_ok E K (matchnode k E) k"
  by (induction k) (simp add: matcher_ok_def, simp add: match_step_ok)

section \<open>Compiled expressions are safe to match\<close>

lemma wf_first:
  assumes "wf_rex ns K"
  shows "wf_node K ns 0 (length ns) 0" "continues K ns (length ns) 0 (-1)" "0 < length ns" "rnext (ns ! 0) = -1"
  using assms wf_range(1)[of K ns 0 "length ns" 0] by (auto simp: wf_rex_def continues_def)

lemma search_nodes_ok:
  assumes "wf_rex (enodes E) K" "eeol E \<le> length (etext E)" "(length (enodes E) + 1) * (length (enodes E) + 1) \<le> fuel"
    "beg \<le> eeol E" "rex_state K s"
  shows "rx_runs E (search_nodes (Suc (length (enodes E))) E (matchnode fuel E) 0 beg) s
    (\<lambda>(node, cur) s'. rex_state K s' \<and> captured E (s\<lparr>currsubexp := 0\<rparr>) s' \<and> (case cur of None \<Rightarrow> node = 0 | Some e \<Rightarrow> beg \<le> e \<and> e \<le> eeol E))"
proof -
  note w = wf_first[OF assms(1)]
  obtain k where k: "length (enodes E) = Suc k" using w(3) by (cases "enodes E") auto
  have st: "rex_state K (s\<lparr>currsubexp := 0\<rparr>)" using assms(5) by (simp add: rex_state_def)
  have "rx_runs E (matchnode fuel E (int 0) beg (-1)) (s\<lparr>currsubexp := 0\<rparr>) (rx_answers E beg (s\<lparr>currsubexp := 0\<rparr>))"
    by (rule matcher_okD[OF matchnode_ok[OF assms(2)] w(1,2) _ assms(4) st])
       (use rank_bound[of "length (enodes E)" "length (enodes E)" 0] assms(3) in simp)
  then have "rx_runs E (matchnode fuel E 0 beg (-1)) (s\<lparr>currsubexp := 0\<rparr>) (rx_answers E beg (s\<lparr>currsubexp := 0\<rparr>))" by simp
  then show ?thesis
    unfolding k search_nodes.simps
    using w(4) rx_runs_node[of 0 E, OF w(3)]
    by (simp, elim rx_runs_mono) (auto simp: rx_answers_def split: option.split intro: rex_state_captured[OF _ st])
qed

text \<open>The captures after a search: from before, or in the text.\<close>

definition captures_from :: "rexenv \<Rightarrow> rexstate \<Rightarrow> rexstate \<Rightarrow> bool" where
  "captures_from E s0 s \<longleftrightarrow> length (rmatches s) = length (rmatches s0)
     \<and> (\<forall>g < length (rmatches s0). rmatches s ! g = rmatches s0 ! g \<or> capture_ok E (rmatches s ! g))"

lemma captures_from_refl [simp]: "captures_from E s s"
  by (simp add: captures_from_def)

lemma captures_from_captured: "captured E (s\<lparr>currsubexp := 0\<rparr>) s' \<Longrightarrow> captures_from E s0 s \<Longrightarrow> captures_from E s0 s'"
  unfolding captured_def captures_from_def by (auto split: if_splits) metis

lemma search_from_ok:
  assumes "wf_rex (enodes E) K" "eeol E \<le> length (etext E)" "(length (enodes E) + 1) * (length (enodes E) + 1) \<le> fuel"
  shows "eeol E < beg + k \<Longrightarrow> beg < eeol E \<Longrightarrow> rex_state K s \<Longrightarrow> captures_from E s0 s \<Longrightarrow>
    rx_runs E (search_from k E (matchnode fuel E) 0 beg (eeol E)) s
      (\<lambda>r s'. captures_from E s0 s' \<and> (\<forall>b e. r = Some (b, e) \<longrightarrow> beg \<le> b \<and> b \<le> e \<and> e \<le> eeol E))"
proof (induction k arbitrary: beg s)
  case (Suc k)
  have rest: "rx_runs E (case c of Some e \<Rightarrow> rreturn (Some (beg, e))
      | None \<Rightarrow> if beg + 1 = eeol E then rreturn None else search_from k E (matchnode fuel E) node (beg + 1) (eeol E)) s'
      (\<lambda>r s'. captures_from E s0 s' \<and> (\<forall>b e. r = Some (b, e) \<longrightarrow> beg \<le> b \<and> b \<le> e \<and> e \<le> eeol E))"
    if a: "rex_state K s'" "captured E (s\<lparr>currsubexp := 0\<rparr>) s'" "case c of None \<Rightarrow> node = 0 | Some e \<Rightarrow> beg \<le> e \<and> e \<le> eeol E" for node c s'
  proof (cases c)
    case None
    have "rx_runs E (search_from k E (matchnode fuel E) 0 (Suc beg) (eeol E)) s'
        (\<lambda>r s'. captures_from E s0 s' \<and> (\<forall>b e. r = Some (b, e) \<longrightarrow> beg \<le> b \<and> b \<le> e \<and> e \<le> eeol E))" if "Suc beg \<noteq> eeol E"
      by (rule rx_runs_mono[OF Suc.IH[OF _ _ a(1)]]) (use Suc.prems that captures_from_captured[OF a(2)] in auto)
    then show ?thesis using None a captures_from_captured[OF a(2) Suc.prems(4)] by simp
  next
    case (Some e)
    then show ?thesis using a captures_from_captured[OF a(2) Suc.prems(4)] by simp
  qed
  show ?case
    unfolding search_from.simps rx_runs_simps(1)
  proof (rule rx_runs_mono[OF search_nodes_ok[OF assms _ Suc.prems(3)]], goal_cases)
    case (2 x s')
    obtain node c where x: "x = (node, c)" by (cases x)
    show ?case unfolding x prod.case by (rule rest) (use 2 in \<open>auto simp: x\<close>)
  qed (use Suc.prems(2) in simp)
qed simp

text \<open>Searching and matching with a compiled expression.\<close>

definition rex_fuel :: "rexnode list \<Rightarrow> nat" where
  "rex_fuel ns = (length ns + 1) * (length ns + 1)"

lemma searchrange_ok:
  assumes "wf_rex ns K" "beg \<le> length text" "fin \<le> length text" "rex_fuel ns \<le> fuel" "rex_state K s"
  shows "rx_runs \<lparr>enodes = ns, etext = text, ebol = beg, eeol = fin\<rparr> (searchrange fuel ns text beg fin) s
    (\<lambda>r s'. (\<forall>b e. r = Some (b, e) \<longrightarrow> beg \<le> b \<and> b \<le> e \<and> e \<le> fin)
       \<and> captures_from \<lparr>enodes = ns, etext = text, ebol = beg, eeol = fin\<rparr> s s')"
proof -
  let ?E = "\<lparr>enodes = ns, etext = text, ebol = beg, eeol = fin\<rparr>"
  have "rx_runs ?E (search_from (Suc fin) ?E (matchnode fuel ?E) 0 beg fin) s
      (\<lambda>r s'. captures_from ?E s s' \<and> (\<forall>b e. r = Some (b, e) \<longrightarrow> beg \<le> b \<and> b \<le> e \<and> e \<le> fin))" if "beg < fin"
    using search_from_ok[of ?E K fuel beg "Suc fin" s s] assms that by (simp add: rex_fuel_def)
  then show ?thesis
    unfolding searchrange_def Let_def
    by (intro rx_runs_ifI) (auto elim!: rx_runs_mono simp del: search_from.simps)
qed

lemma rex_match_ok:
  assumes "wf_rex ns K" "rex_fuel ns \<le> fuel" "rex_state K s"
  shows "rx_runs \<lparr>enodes = ns, etext = text, ebol = 0, eeol = length text\<rparr> (rex_match fuel ns text) s
    (\<lambda>_ s'. captures_from \<lparr>enodes = ns, etext = text, ebol = 0, eeol = length text\<rparr> s s')"
proof -
  let ?E = "\<lparr>enodes = ns, etext = text, ebol = 0, eeol = length text\<rparr>" and ?s = "s\<lparr>currsubexp := 0\<rparr>"
  note w = wf_first[OF assms(1)]
  have st: "rex_state K ?s" using assms(3) by (simp add: rex_state_def)
  have w': "wf_node K (enodes ?E) 0 (length ns) 0" "continues K (enodes ?E) (length ns) 0 (-1)" using w(1,2) by simp_all
  have "rx_runs ?E (matchnode fuel ?E (int 0) 0 (-1)) ?s (rx_answers ?E 0 ?s)"
    by (rule matcher_okD[OF matchnode_ok w' _ _ st])
       (use rank_bound[of "length ns" "length ns" 0] assms(2) in \<open>simp_all add: rex_fuel_def\<close>)
  then have "rx_runs ?E (matchnode fuel ?E 0 0 (-1)) ?s (\<lambda>_ s'. captures_from ?E s s')"
    by (auto elim!: rx_runs_mono simp: rx_answers_def intro: captures_from_captured)
  then show ?thesis
    unfolding rex_match_def rx_runs_simps by (auto elim!: rx_runs_mono)
qed

section \<open>What a match means\<close>

text \<open>The characters of the classes.\<close>

definition letters :: "int set" where "letters = {65..90} \<union> {97..122}"
definition digits :: "int set" where "digits = {48..57}"

definition category :: "int \<Rightarrow> int set" where
  "category k =
     (if k = ch CHR ''a'' then letters else if k = ch CHR ''A'' then - letters
      else if k = ch CHR ''w'' then letters \<union> digits \<union> {ch CHR ''_''} else if k = ch CHR ''W'' then - (letters \<union> digits \<union> {ch CHR ''_''})
      else if k = ch CHR ''s'' then {9..13} \<union> {32} else if k = ch CHR ''S'' then - ({9..13} \<union> {32})
      else if k = ch CHR ''d'' then digits else if k = ch CHR ''D'' then - digits
      else if k = ch CHR ''x'' then digits \<union> {65..70} \<union> {97..102} else if k = ch CHR ''X'' then - (digits \<union> {65..70} \<union> {97..102})
      else if k = ch CHR ''c'' then {0..31} \<union> {127} else if k = ch CHR ''C'' then - ({0..31} \<union> {127})
      else if k = ch CHR ''p'' then {33..47} \<union> {58..64} \<union> {91..96} \<union> {123..126}
      else if k = ch CHR ''P'' then - ({33..47} \<union> {58..64} \<union> {91..96} \<union> {123..126})
      else if k = ch CHR ''l'' then {97..122} else if k = ch CHR ''u'' then {65..90}
      else {})"

definition item_chars :: "rexnode \<Rightarrow> int set" where
  "item_chars n = (if rtype n = OP_RANGE then {rleft n..rright n} else if rtype n = OP_CCLASS then category (rleft n) else {rtype n})"

text \<open>The characters of a class: those of its items, which are linked.\<close>

inductive in_class :: "rexnode list \<Rightarrow> int \<Rightarrow> int \<Rightarrow> bool" for ns where
  ic_here: "c \<in> item_chars (ns ! nat i) \<Longrightarrow> in_class ns i c"
| ic_next: "rnext (ns ! nat i) \<noteq> -1 \<Longrightarrow> in_class ns (rnext (ns ! nat i)) c \<Longrightarrow> in_class ns i c"

text \<open>The character at a position, with the zero at the end; the word boundaries of the program, which compare
  the characters at a position and after it; and a balanced range, whose closing characters outweigh the opening ones
  at its end and not before.\<close>

definition text_char :: "rexenv \<Rightarrow> nat \<Rightarrow> int" where
  "text_char E i = (if i < length (etext E) then etext E ! i else 0)"

definition white :: "rexenv \<Rightarrow> nat \<Rightarrow> bool" where "white E i \<longleftrightarrow> text_char E i \<in> {9..13} \<union> {32}"

definition at_boundary :: "rexenv \<Rightarrow> nat \<Rightarrow> bool" where
  "at_boundary E str \<longleftrightarrow> (str = ebol E \<and> \<not> white E str) \<or> (str = eeol E \<and> \<not> white E (str - 1)) \<or> white E str \<noteq> white E (str + 1)"

definition weight :: "rexenv \<Rightarrow> int \<Rightarrow> int \<Rightarrow> nat \<Rightarrow> int" where
  "weight E cb ce i = (if text_char E i = ce then -1 else if text_char E i = cb then 1 else 0)"

definition balanced_range :: "rexenv \<Rightarrow> int \<Rightarrow> int \<Rightarrow> nat \<Rightarrow> nat \<Rightarrow> bool" where
  "balanced_range E cb ce str e \<longleftrightarrow> str < e \<and> text_char E str = cb \<and> 1 + (\<Sum>i \<in> {str<..<e}. weight E cb ce i) = 0
     \<and> (\<forall>k. str < k \<and> k < e \<longrightarrow> 0 < 1 + (\<Sum>i \<in> {str<..<k}. weight E cb ce i))"

text \<open>The number of repetitions a node allows: the lower and the upper half of \<open>right\<close>, where 0xFFFF is no upper bound.\<close>

definition repeats :: "rexnode \<Rightarrow> nat \<Rightarrow> bool" where
  "repeats m n \<longleftrightarrow> rright m div 0x10000 mod 0x10000 \<le> int n \<and> (rright m mod 0x10000 = 0xFFFF \<or> int n \<le> rright m mod 0x10000)"

text \<open>The ranges that a node, a list of siblings and a number of repetitions of a node may match.\<close>

definition special_types :: "int set" where
  "special_types = {OP_GREEDY, OP_OR, OP_EXPR, OP_NOCAPEXPR, OP_WB, OP_BOL, OP_EOL, OP_DOT, OP_NCLASS, OP_CLASS, OP_CCLASS, OP_MB}"

inductive rx_node :: "rexenv \<Rightarrow> int \<Rightarrow> nat \<Rightarrow> nat \<Rightarrow> bool"
  and rx_seq :: "rexenv \<Rightarrow> int \<Rightarrow> nat \<Rightarrow> nat \<Rightarrow> bool"
  and rx_many :: "rexenv \<Rightarrow> int \<Rightarrow> nat \<Rightarrow> nat \<Rightarrow> nat \<Rightarrow> bool" for E where
  rx_char: "rtype (enodes E ! nat i) \<notin> special_types \<Longrightarrow> str < eeol E \<Longrightarrow> text_char E str = rtype (enodes E ! nat i) \<Longrightarrow> rx_node E i str (Suc str)"
| rx_dot: "rtype (enodes E ! nat i) = OP_DOT \<Longrightarrow> str < eeol E \<Longrightarrow> rx_node E i str (Suc str)"
| rx_begin: "rtype (enodes E ! nat i) = OP_BOL \<Longrightarrow> str = ebol E \<Longrightarrow> rx_node E i str str"
| rx_end: "rtype (enodes E ! nat i) = OP_EOL \<Longrightarrow> str = eeol E \<Longrightarrow> rx_node E i str str"
| rx_class: "rtype (enodes E ! nat i) = OP_CLASS \<Longrightarrow> str < eeol E \<Longrightarrow> in_class (enodes E) (rleft (enodes E ! nat i)) (text_char E str) \<Longrightarrow>
    rx_node E i str (Suc str)"
| rx_nclass: "rtype (enodes E ! nat i) = OP_NCLASS \<Longrightarrow> str < eeol E \<Longrightarrow> \<not> in_class (enodes E) (rleft (enodes E ! nat i)) (text_char E str) \<Longrightarrow>
    rx_node E i str (Suc str)"
| rx_cclass: "rtype (enodes E ! nat i) = OP_CCLASS \<Longrightarrow> str < eeol E \<Longrightarrow> text_char E str \<in> category (rleft (enodes E ! nat i)) \<Longrightarrow>
    rx_node E i str (Suc str)"
| rx_boundary: "rtype (enodes E ! nat i) = OP_WB \<Longrightarrow> at_boundary E str = (rleft (enodes E ! nat i) = ch CHR ''b'') \<Longrightarrow> rx_node E i str str"
| rx_balanced: "rtype (enodes E ! nat i) = OP_MB \<Longrightarrow> e \<le> eeol E \<Longrightarrow>
    balanced_range E (rleft (enodes E ! nat i)) (rright (enodes E ! nat i)) str e \<Longrightarrow> rx_node E i str e"
| rx_greedy: "rtype (enodes E ! nat i) = OP_GREEDY \<Longrightarrow> rx_many E (rleft (enodes E ! nat i)) n str e \<Longrightarrow> repeats (enodes E ! nat i) n \<Longrightarrow>
    rx_node E i str e"
| rx_left: "rtype (enodes E ! nat i) = OP_OR \<Longrightarrow> rx_seq E (rleft (enodes E ! nat i)) str e \<Longrightarrow> rx_node E i str e"
| rx_right: "rtype (enodes E ! nat i) = OP_OR \<Longrightarrow> rx_seq E (rright (enodes E ! nat i)) str e \<Longrightarrow> rx_node E i str e"
| rx_group: "rtype (enodes E ! nat i) \<in> {OP_EXPR, OP_NOCAPEXPR} \<Longrightarrow> rx_seq E (rleft (enodes E ! nat i)) str e \<Longrightarrow> rx_node E i str e"
| rx_last: "rx_node E i str e \<Longrightarrow> rnext (enodes E ! nat i) = -1 \<Longrightarrow> rx_seq E i str e"
| rx_more: "rx_node E i str m \<Longrightarrow> rnext (enodes E ! nat i) \<noteq> -1 \<Longrightarrow> rx_seq E (rnext (enodes E ! nat i)) m e \<Longrightarrow> rx_seq E i str e"
| rx_none: "rx_many E i 0 str str"
| rx_again: "rx_many E i n str m \<Longrightarrow> rx_node E i m e \<Longrightarrow> rx_many E i (Suc n) str e"

lemma rbind_ok: "rbind m f s = ROk y s' \<longleftrightarrow> (\<exists>x s1. m s = ROk x s1 \<and> f x s1 = ROk y s')"
  by (auto simp: rbind_def split: rx.splits)

lemma node_at_ok: "node_at E i s = ROk n s' \<longleftrightarrow> 0 \<le> i \<and> i < int (length (enodes E)) \<and> n = enodes E ! nat i \<and> s' = s"
  by (auto simp: node_at_def rreturn_def rundef_def)

lemma deref_ok: "deref E i s = ROk c s' \<longleftrightarrow> i \<le> length (etext E) \<and> c = text_char E i \<and> s' = s"
  by (auto simp: deref_def char_at_def text_char_def rreturn_def rundef_def)

lemmas rx_ok = rbind_ok node_at_ok deref_ok rreturn_def rget_def rput_def

subsection \<open>Leaves\<close>

lemma ctype_sets:
  "c_alpha c \<longleftrightarrow> c \<in> letters" "c_digit c \<longleftrightarrow> c \<in> digits" "c_alnum c \<longleftrightarrow> c \<in> letters \<union> digits"
  "c_space c \<longleftrightarrow> c \<in> {9..13} \<union> {32}" "c_xdigit c \<longleftrightarrow> c \<in> digits \<union> {65..70} \<union> {97..102}" "c_cntrl c \<longleftrightarrow> c \<in> {0..31} \<union> {127}"
  "c_lower c \<longleftrightarrow> c \<in> {97..122}" "c_upper c \<longleftrightarrow> c \<in> {65..90}"
  by (auto simp: c_alpha_def c_lower_def c_upper_def letters_def c_digit_def digits_def c_alnum_def c_space_def c_xdigit_def c_cntrl_def)

lemma punct_set: "c_punct c \<longleftrightarrow> c \<in> {33..47} \<union> {58..64} \<union> {91..96} \<union> {123..126}"
  unfolding c_punct_def c_print_def c_alnum_def c_alpha_def c_lower_def c_upper_def c_digit_def Un_iff atLeastAtMost_iff
  by presburger

lemma matchcclass_category: "matchcclass k c \<longleftrightarrow> c \<in> category k"
proof -
  have mem: "c \<in> (if b then A else B) \<longleftrightarrow> (if b then c \<in> A else c \<in> B)" for b and A B :: "int set" by simp
  show ?thesis
    unfolding matchcclass_def category_def mem ctype_sets punct_set Compl_iff Un_iff insert_iff empty_iff
    by (intro if_cong) blast+
qed

lemma item_matches_chars: "item_matches n c \<longleftrightarrow> c \<in> item_chars n"
  by (simp add: item_matches_def item_chars_def matchcclass_category)

lemma matchclass_sound: "matchclass k E i c s = ROk b s' \<Longrightarrow> b \<longleftrightarrow> in_class (enodes E) i c"
proof (induction k arbitrary: i)
  case (Suc k)
  let ?n = "enodes E ! nat i"
  from Suc.prems have h: "(if item_matches ?n c then rreturn True
       else if rnext ?n \<noteq> -1 then matchclass k E (rnext ?n) c else rreturn False) s = ROk b s'"
    unfolding matchclass.simps rbind_ok node_at_ok by auto
  have "in_class (enodes E) i c \<longleftrightarrow> c \<in> item_chars ?n \<or> rnext ?n \<noteq> -1 \<and> in_class (enodes E) (rnext ?n) c"
    by (subst in_class.simps) auto
  with h Suc.IH[of "rnext ?n"] show ?case
    by (auto simp: item_matches_chars rreturn_def split: if_splits)
qed (simp add: rfuel_def)

lemma spaces_ok: "spaces E i s = ROk b s' \<longleftrightarrow> i \<le> length (etext E) \<and> b = white E i \<and> s' = s"
  by (auto simp: spaces_def rx_ok white_def c_space_def)

lemma word_boundary_sound: "word_boundary E str s = ROk b s' \<Longrightarrow> b \<longleftrightarrow> at_boundary E str"
  by (auto simp: word_boundary_def at_boundary_def rbind_ok spaces_ok rreturn_def rundef_def split: if_splits)

lemma balanced_sound:
  assumes "balanced k E cb ce cont q s = ROk (Some e) s'" "0 < cont"
  shows "q < e \<and> e \<le> eeol E \<and> cont + (\<Sum>i \<in> {q<..<e}. weight E cb ce i) = 0
     \<and> (\<forall>k. q < k \<and> k < e \<longrightarrow> 0 < cont + (\<Sum>i \<in> {q<..<k}. weight E cb ce i))"
  using assms
proof (induction k arbitrary: cont q)
  case (Suc k)
  let ?w = "weight E cb ce"
  from Suc.prems(1) have q: "q + 1 < eeol E" by (auto simp: rreturn_def split: if_splits)
  with Suc.prems(1) have h: "(if text_char E (q + 1) = ce then (if cont - 1 = 0 then rreturn (Some (q + 2)) else balanced k E cb ce (cont - 1) (q + 1))
          else balanced k E cb ce (if text_char E (q + 1) = cb then cont + 1 else cont) (q + 1)) s = ROk (Some e) s'"
    by (auto simp: rbind_ok deref_ok)
  have split: "(\<Sum>i \<in> {q<..<x}. ?w i) = ?w (q + 1) + (\<Sum>i \<in> {q + 1<..<x}. ?w i)" if "q + 1 < x" for x
  proof -
    have "{q<..<x} = insert (q + 1) {q + 1<..<x}" using that by auto
    then show ?thesis by simp
  qed
  have none: "{q<..<Suc q} = {}" by auto
  show ?case
  proof (cases "text_char E (q + 1) = ce \<and> cont - 1 = 0")
    case True
    then have e: "e = q + 2" using h by (simp add: rreturn_def)
    have "{q + 1<..<q + 2} = {}" by auto
    then have "(\<Sum>i \<in> {q<..<q + 2}. ?w i) = -1" using split[of "q + 2"] True by (simp add: weight_def)
    moreover have "0 < cont + (\<Sum>i \<in> {q<..<k}. ?w i)" if "q < k" "k < q + 2" for k
    proof -
      have "k = Suc q" using that by simp
      then show ?thesis using none Suc.prems(2) by simp
    qed
    ultimately show ?thesis using q True unfolding e by auto
  next
    case False
    let ?c = "cont + ?w (q + 1)"
    have r: "balanced k E cb ce ?c (q + 1) s = ROk (Some e) s'" "0 < ?c"
      using h False Suc.prems(2) by (auto simp: weight_def split: if_splits)
    note ih = Suc.IH[OF r]
    have "0 < cont + (\<Sum>i \<in> {q<..<k}. ?w i)" if k: "q < k" "k < e" for k
    proof (cases "k = q + 1")
      case False
      then have k': "q + 1 < k" using k by simp
      with ih k have "0 < ?c + (\<Sum>i \<in> {q + 1<..<k}. ?w i)" by blast
      then show ?thesis using split[OF k'] by simp
    qed (use Suc.prems(2) in \<open>simp add: none\<close>)
    then show ?thesis using ih split[of e] by auto
  qed
qed (simp add: rfuel_def)

lemma one_char_sound:
  "one_char E str test s = ROk (Some e) s' \<Longrightarrow> str \<le> eeol E \<Longrightarrow>
     str < eeol E \<and> e = Suc str \<and> (\<exists>s1. test (text_char E str) s = ROk True s1)"
  by (auto simp: one_char_def rx_ok split: if_splits)

lemma class_char_sound:
  assumes "one_char E str (\<lambda>c. rbind (matchclass k E i c) (\<lambda>b. rreturn (b = p))) s = ROk (Some e) s'" "str \<le> eeol E"
  shows "str < eeol E \<and> e = Suc str \<and> in_class (enodes E) i (text_char E str) = p"
proof -
  from one_char_sound[OF assms] obtain s1 where a: "str < eeol E" "e = Suc str"
    "rbind (matchclass k E i (text_char E str)) (\<lambda>b. rreturn (b = p)) s = ROk True s1" by blast
  from a(3)[unfolded rbind_ok] obtain b s2 where b: "matchclass k E i (text_char E str) s = ROk b s2" "rreturn (b = p) s2 = ROk True s1"
    by blast
  have "b = p" using b(2) by (simp add: rreturn_def)
  with matchclass_sound[OF b(1)] a show ?thesis by simp
qed

lemma match_leaf_sound:
  assumes "match_leaf E (enodes E ! nat i) str s = ROk (Some e) s'" "str \<le> eeol E"
    and t: "rtype (enodes E ! nat i) \<notin> {OP_GREEDY, OP_OR, OP_EXPR, OP_NOCAPEXPR}"
  shows "rx_node E i str e \<and> str \<le> e \<and> e \<le> eeol E"
proof -
  let ?n = "enodes E ! nat i"
  note m = assms(1)[unfolded match_leaf_def]
  consider (wb) "rtype ?n = OP_WB" | (bol) "rtype ?n = OP_BOL" | (eol) "rtype ?n = OP_EOL" | (dot) "rtype ?n = OP_DOT"
    | (nclass) "rtype ?n = OP_NCLASS" | (cls) "rtype ?n = OP_CLASS" | (cclass) "rtype ?n = OP_CCLASS" | (mb) "rtype ?n = OP_MB"
    | (chr) "rtype ?n \<notin> special_types"
    using t by (auto simp: special_types_def)
  then show ?thesis
  proof cases
    case wb
    from m[unfolded if_P[OF wb] rbind_ok] obtain b s1 where b: "word_boundary E str s = ROk b s1"
      "rreturn (if b = (rleft ?n = ch CHR ''b'') then Some str else None) s1 = ROk (Some e) s'" by blast
    have "b = (rleft ?n = ch CHR ''b'')" "e = str" using b(2) by (simp_all add: rreturn_def split: if_splits)
    with rx_boundary[OF wb, of str] word_boundary_sound[OF b(1)] assms(2) show ?thesis by blast
  next
    case bol
    then show ?thesis using m rx_begin[OF bol] assms(2) by (auto simp: rex_ops rreturn_def split: if_splits)
  next
    case eol
    then show ?thesis using m rx_end[OF eol] assms(2) by (auto simp: rex_ops rreturn_def split: if_splits)
  next
    case dot
    then show ?thesis using m rx_dot[OF dot, of str] assms(2) by (auto simp: rex_ops rreturn_def split: if_splits)
  next
    case nclass
    then have "one_char E str (\<lambda>c. rbind (matchclass (Suc (length (enodes E))) E (rleft ?n) c) (\<lambda>b. rreturn (b = (rtype ?n = OP_CLASS)))) s = ROk (Some e) s'"
      using m by (simp add: rex_ops del: matchclass.simps)
    from class_char_sound[OF this assms(2)] rx_nclass[OF nclass, of str] nclass show ?thesis by (simp add: rex_ops)
  next
    case cls
    then have "one_char E str (\<lambda>c. rbind (matchclass (Suc (length (enodes E))) E (rleft ?n) c) (\<lambda>b. rreturn (b = (rtype ?n = OP_CLASS)))) s = ROk (Some e) s'"
      using m by (simp add: rex_ops del: matchclass.simps)
    from class_char_sound[OF this assms(2)] rx_class[OF cls, of str] cls show ?thesis by simp
  next
    case cclass
    then have "one_char E str (\<lambda>c. rreturn (matchcclass (rleft ?n) c)) s = ROk (Some e) s'" using m by (simp add: rex_ops)
    from one_char_sound[OF this assms(2)] rx_cclass[OF cclass] show ?thesis by (auto simp: rreturn_def matchcclass_category)
  next
    case mb
    then have "rbind (deref E str) (\<lambda>c. if c \<noteq> rleft ?n then rreturn None
        else balanced (Suc (eeol E)) E (rleft ?n) (rright ?n) 1 str) s = ROk (Some e) s'"
      using m by (simp add: rex_ops del: balanced.simps)
    then have c: "text_char E str = rleft ?n" "balanced (Suc (eeol E)) E (rleft ?n) (rright ?n) 1 str s = ROk (Some e) s'"
      by (auto simp: rbind_ok deref_ok rreturn_def simp del: balanced.simps split: if_splits)
    from balanced_sound[OF c(2)] c(1) rx_balanced[OF mb, of e str] show ?thesis by (auto simp: balanced_range_def)
  next
    case chr
    then have "one_char E str (\<lambda>c. rreturn (c = rtype ?n)) s = ROk (Some e) s'" using m by (simp add: special_types_def)
    from one_char_sound[OF this assms(2)] rx_char[OF chr] show ?thesis by (auto simp: rreturn_def)
  qed
qed

lemma enough_repeats: "enough (bound0 m) (bound1 m) n \<Longrightarrow> repeats m n"
proof -
  have "0 \<le> rright m div 65536 mod 65536" "0 \<le> rright m mod 65536" by simp_all
  moreover assume "enough (bound0 m) (bound1 m) n"
  ultimately show ?thesis
    unfolding enough_def bound0_def bound1_def repeats_def by (simp add: nat_le_iff le_nat_iff eq_nat_nat_iff) linarith
qed

subsection \<open>Inner nodes\<close>

definition sound_matcher :: "rexenv \<Rightarrow> matcher \<Rightarrow> bool" where
  "sound_matcher E call \<longleftrightarrow>
     (\<forall>i str next s e s'. call i str next s = ROk (Some e) s' \<and> str \<le> eeol E \<longrightarrow> rx_node E i str e \<and> str \<le> e \<and> e \<le> eeol E)"

lemma sound_matcherD:
  assumes "sound_matcher E call" "call i str next s = ROk (Some e) s'" "str \<le> eeol E"
  shows "rx_node E i str e" "str \<le> e" "e \<le> eeol E"
  using assms unfolding sound_matcher_def by blast+

lemma branch_sound:
  "sound_matcher E call \<Longrightarrow> branch k E call i str s = ROk (Some e) s' \<Longrightarrow> str \<le> eeol E \<Longrightarrow> rx_seq E i str e \<and> str \<le> e \<and> e \<le> eeol E"
proof (induction k arbitrary: i str s)
  case (Suc k)
  from Suc.prems(2) obtain a s1 where a: "call i str (-1) s = ROk (Some a) s1"
    and r: "if rnext (enodes E ! nat i) \<noteq> -1 then branch k E call (rnext (enodes E ! nat i)) a s1 = ROk (Some e) s' else a = e"
    by (auto simp: rx_ok split: option.splits if_splits)
  note n = sound_matcherD[OF Suc.prems(1) a Suc.prems(3)]
  show ?case using r n Suc.IH[OF Suc.prems(1) _ n(3)] by (fastforce split: if_splits intro: rx_last rx_more)
qed (simp add: rfuel_def)

lemma group_items_sound:
  "sound_matcher E call \<Longrightarrow> group_items k E call next i str s = ROk (Some e) s' \<Longrightarrow> str \<le> eeol E \<Longrightarrow> rx_seq E i str e \<and> str \<le> e \<and> e \<le> eeol E"
proof (induction k arbitrary: i str s)
  case (Suc k)
  from Suc.prems(2) obtain a nx s1 where a: "call i str nx s = ROk (Some a) s1"
    and r: "if rnext (enodes E ! nat i) \<noteq> -1 then group_items k E call next (rnext (enodes E ! nat i)) a s1 = ROk (Some e) s' else a = e"
    by (auto simp: rx_ok split: option.splits if_splits)
  note n = sound_matcherD[OF Suc.prems(1) a Suc.prems(3)]
  show ?case using r n Suc.IH[OF Suc.prems(1) _ n(3)] by (fastforce split: if_splits intro: rx_last rx_more)
qed (simp add: rfuel_def)

lemma greedy_loop_sound:
  assumes "sound_matcher E call"
  shows "greedy_loop E call body stop next p0 p1 n str s = ROk (e, m) s' \<Longrightarrow> rx_many E body n beg str \<Longrightarrow> beg \<le> str \<Longrightarrow> str \<le> eeol E \<Longrightarrow>
    rx_many E body m beg e \<and> beg \<le> e \<and> e \<le> eeol E"
proof (induction "max p1 0x10000 - n" arbitrary: n str s rule: less_induct)
  case less
  show ?case
  proof (cases "n = 0xFFFF \<or> n < p1")
    case False
    then show ?thesis using less.prems greedy_loop.simps[of E call body stop "next" p0 p1 n str] by (auto simp: rreturn_def)
  next
    case True
    then obtain r s1 where c: "call body str stop s = ROk r s1" and rest: "(case r of None \<Rightarrow> rreturn (str, n)
        | Some s1 \<Rightarrow> rbind (stops_here E call stop next p0 p1 (n + 1) s1) (\<lambda>b.
            if b \<or> eeol E \<le> s1 then rreturn (s1, n + 1) else greedy_loop E call body stop next p0 p1 (n + 1) s1)) s1 = ROk (e, m) s'"
      using less.prems(1) unfolding greedy_loop.simps[of E call body stop "next" p0 p1 n str] if_P[OF True] rbind_ok by blast
    show ?thesis
    proof (cases r)
      case None
      then show ?thesis using rest less.prems(2-4) by (auto simp: rreturn_def)
    next
      case (Some a)
      note a = sound_matcherD[OF assms c[unfolded Some] less.prems(4)]
      have many: "rx_many E body (n + 1) beg a" using rx_again[OF less.prems(2) a(1)] by simp
      have b: "beg \<le> a" using a(2) less.prems(3) by simp
      have d: "max p1 0x10000 - (n + 1) < max p1 0x10000 - n" using True by auto
      from rest Some obtain s2 where "a = e \<and> n + 1 = m \<or> greedy_loop E call body stop next p0 p1 (n + 1) a s2 = ROk (e, m) s'"
        by (auto simp: rbind_ok rreturn_def split: if_splits)
      then show ?thesis using less.hyps[OF d _ many b a(3)] many b a(3) by blast
    qed
  qed
qed

lemma end_group_some: "end_group c k r s = ROk (Some e) s' \<Longrightarrow> r = Some e"
  by (auto simp: end_group_def rx_ok split: option.splits)

lemma match_step_sound:
  assumes "sound_matcher E call"
  shows "sound_matcher E (match_step E call)"
  unfolding sound_matcher_def
proof (intro allI impI, elim conjE)
  fix i str "next" s e s'
  let ?n = "enodes E ! nat i"
  assume "match_step E call i str next s = ROk (Some e) s'" and str: "str \<le> eeol E"
  then have m: "(if rtype ?n = OP_GREEDY then
         let stop = (if rnext ?n \<noteq> -1 then rnext ?n else next); p0 = bound0 ?n; p1 = bound1 ?n in
         rbind (greedy_loop E call (rleft ?n) stop next p0 p1 0 str) (\<lambda>(good, n). rreturn (if enough p0 p1 n then Some good else None))
       else if rtype ?n = OP_OR then
         rbind (branch (Suc (length (enodes E))) E call (rleft ?n) str) (\<lambda>r.
           case r of Some a \<Rightarrow> rreturn (Some a) | None \<Rightarrow> branch (Suc (length (enodes E))) E call (rright ?n) str)
       else if rtype ?n = OP_EXPR \<or> rtype ?n = OP_NOCAPEXPR then match_group E call ?n str next
       else match_leaf E ?n str) s = ROk (Some e) s'"
    unfolding match_step_def rbind_ok node_at_ok by auto
  consider (greedy) "rtype ?n = OP_GREEDY" | (alt) "rtype ?n = OP_OR"
    | (group) "rtype ?n \<in> {OP_EXPR, OP_NOCAPEXPR}" | (leaf) "rtype ?n \<notin> {OP_GREEDY, OP_OR, OP_EXPR, OP_NOCAPEXPR}"
    by blast
  then show "rx_node E i str e \<and> str \<le> e \<and> e \<le> eeol E"
  proof cases
    case greedy
    let ?stop = "if rnext ?n \<noteq> -1 then rnext ?n else next"
    from greedy m obtain n s1 where
      g: "greedy_loop E call (rleft ?n) ?stop next (bound0 ?n) (bound1 ?n) 0 str s = ROk (e, n) s1"
      and en: "enough (bound0 ?n) (bound1 ?n) n"
      by (auto simp: Let_def rbind_ok rreturn_def split: if_splits)
    from greedy_loop_sound[OF assms g rx_none order_refl str] rx_greedy[OF greedy _ enough_repeats[OF en]] show ?thesis by blast
  next
    case alt
    then have "rtype ?n \<noteq> OP_GREEDY" by (simp add: rex_ops)
    with alt m obtain k s1 where "branch k E call (rleft ?n) str s = ROk (Some e) s1 \<or> branch k E call (rright ?n) str s1 = ROk (Some e) s'"
      by (auto simp: rbind_ok rreturn_def simp del: branch.simps split: option.splits)
    then show ?thesis using branch_sound[OF assms _ str] rx_left[OF alt] rx_right[OF alt] by blast
  next
    case group
    then have o: "rtype ?n \<notin> {OP_GREEDY, OP_OR}" by (auto simp: rex_ops)
    with group m have "match_group E call ?n str next s = ROk (Some e) s'" by auto
    then obtain r s1 s2 where "group_items (Suc (length (enodes E))) E call next (rleft ?n) str s1 = ROk (Some e) s2"
      unfolding match_group_def Let_def rbind_ok by (blast dest: end_group_some)
    from group_items_sound[OF assms this str] rx_group[OF group] show ?thesis by blast
  next
    case leaf
    then show ?thesis using m match_leaf_sound[OF _ str leaf] by auto
  qed
qed

lemma matchnode_sound: "sound_matcher E (matchnode k E)"
  by (induction k) (simp add: sound_matcher_def rfuel_def, simp add: match_step_sound)

lemma search_nodes_sound:
  "search_nodes k E (matchnode fuel E) i beg s = ROk (i', Some e) s' \<Longrightarrow> i \<noteq> -1 \<Longrightarrow> beg \<le> eeol E \<Longrightarrow> rx_seq E i beg e \<and> e \<le> eeol E"
proof (induction k arbitrary: i beg s)
  case (Suc k)
  from Suc.prems obtain a s1 where a: "matchnode fuel E i beg (-1) (s\<lparr>currsubexp := 0\<rparr>) = ROk (Some a) s1"
    and r: "search_nodes k E (matchnode fuel E) (rnext (enodes E ! nat i)) a s1 = ROk (i', Some e) s'"
    by (auto simp: rx_ok split: option.splits)
  note n = sound_matcherD[OF matchnode_sound a Suc.prems(3)]
  show ?case
  proof (cases "rnext (enodes E ! nat i) = -1")
    case True
    then have "a = e" using r by (cases k) (auto simp: rfuel_def rreturn_def)
    then show ?thesis using n True by (auto intro: rx_last)
  next
    case False
    then show ?thesis using Suc.IH[OF r False n(3)] n(1) by (auto intro: rx_more)
  qed
qed (simp add: rfuel_def)

lemma search_from_sound:
  assumes "rnext (enodes E ! 0) = -1"
  shows "search_from k E (matchnode fuel E) 0 beg (eeol E) s = ROk (Some (b, e)) s' \<Longrightarrow> beg < eeol E \<Longrightarrow>
    beg \<le> b \<and> e \<le> eeol E \<and> rx_node E 0 b e"
proof (induction k arbitrary: beg s)
  case (Suc k)
  from Suc.prems obtain x s1 where x: "search_nodes (Suc (length (enodes E))) E (matchnode fuel E) 0 beg s = ROk x s1"
    "(case x of (n, c) \<Rightarrow> case c of Some e \<Rightarrow> rreturn (Some (beg, e))
        | None \<Rightarrow> if beg + 1 = eeol E then rreturn None else search_from k E (matchnode fuel E) n (beg + 1) (eeol E)) s1 = ROk (Some (b, e)) s'"
    unfolding search_from.simps rbind_ok by blast
  obtain n c where nc: "x = (n, c)" by (cases x)
  note n = x(1)[unfolded nc] and r = x(2)[unfolded nc prod.case]
  show ?case
  proof (cases c)
    case None
    have "n = 0"
    proof -
      from n None obtain r s2 where "(case r of None \<Rightarrow> rreturn (0, None) | Some a \<Rightarrow> rbind (node_at E 0) (\<lambda>m. search_nodes (length (enodes E)) E (matchnode fuel E) (rnext m) a)) s2
          = ROk (n, None :: nat option) s1"
        unfolding search_nodes.simps by (auto simp: rbind_ok)
      then show ?thesis
        using assms by (cases "length (enodes E)") (auto simp: rx_ok rfuel_def split: option.splits)
    qed
    then have "search_from k E (matchnode fuel E) 0 (beg + 1) (eeol E) s1 = ROk (Some (b, e)) s'" "beg + 1 \<noteq> eeol E"
      using r None by (auto simp: rreturn_def split: if_splits)
    from Suc.IH[OF this(1)] this(2) Suc.prems(2) show ?thesis by simp
  next
    case (Some a)
    then have q: "rx_seq E 0 beg a" "a \<le> eeol E" using search_nodes_sound[OF n[unfolded Some]] Suc.prems(2) by simp_all
    then have "rx_node E 0 beg a" using assms by (cases rule: rx_seq.cases) auto
    then show ?thesis using r Some q(2) by (simp add: rreturn_def)
  qed
qed (simp add: rfuel_def)

section \<open>Properties\<close>

text \<open>C34: Compiling a pattern ends, with \<open>2 * length pat + 5\<close> nested calls at most: it reports an error or leaves a
  well-formed expression, whose nodes form a tree over the vector with every link inside of it and every group number below
  the number of groups.  It reads behind the pattern, or writes behind its vector, at most for the empty pattern and for
  those that end in a backslash or in \<open>\m\<close>.\<close>

theorem regex_compile_well_formed:
  assumes "c_string pat" "2 * length pat + 5 \<le> fuel"
  shows "case rex_compile fuel pat of
      ROk u s \<Rightarrow> wf_rex (rnodes s) (rsubexpr s)
    | RError e \<Rightarrow> True
    | RUndef \<Rightarrow> pat = [] \<or> (\<exists>p. pat = p @ [92] \<or> pat = p @ [92, ch CHR ''m''])
    | RFuel \<Rightarrow> False"
  using rex_compile_parses[OF assms] unfolding dangling_def .

lemma compiled_example:
  "rex_compile 11 [40, 98, 41] = ROk () \<lparr>rpos = 3, rnodes =
     [\<lparr>rtype = 258, rleft = 1, rright = 0, rnext = -1\<rparr>, \<lparr>rtype = 258, rleft = 2, rright = 1, rnext = -1\<rparr>,
      \<lparr>rtype = 98, rleft = -1, rright = -1, rnext = -1\<rparr>], rallocated = 3, rsubexpr = 2\<rparr>"
  by code_simp

lemma regex_compile_well_formed_witness:
  "wf_rex [\<lparr>rtype = 258, rleft = 1, rright = 0, rnext = -1\<rparr>, \<lparr>rtype = 258, rleft = 2, rright = 1, rnext = -1\<rparr>,
      \<lparr>rtype = 98, rleft = -1, rright = -1, rnext = -1\<rparr>] 2"
  using regex_compile_well_formed[of "[40, 98, 41]" 11] by (simp add: c_string_def compiled_example)

text \<open>These exceptions are there: the empty pattern has no room for its first node, and a backslash that ends a range and
  a final \<open>\m\<close> make the parser step over the zero.\<close>

lemma regex_compile_leaves_pattern:
  "rex_compile 5 [] = RUndef"
  by (rule rex_compile_empty)

lemma regex_compile_leaves_range: "rex_compile 13 [91, 33, 45, 92] = RUndef"
  by code_simp

lemma regex_compile_leaves_balanced: "rex_compile 9 [92, 109] = RUndef"
  by code_simp

text \<open>C35: Searching a text with a compiled expression ends, whatever captures earlier searches have left.  The range found lies
  in the text, and so does the range of every group, unless the group took no part in the search and still has the
  capture from before (after a first search, none).  It reads outside of the text only for an expression with
  \<open>\b\<close> or \<open>\B\<close>, which looks at the character after the next.\<close>

theorem regex_search_in_bounds:
  assumes "c_string pat" "2 * length pat + 5 \<le> fuel" "rex_compile fuel pat = ROk u c"
    and "beg \<le> length txt" "fin \<le> length txt" "rex_fuel (rnodes c) \<le> k" "int (length (rmatches s)) = rsubexpr c"
  shows "case searchrange k (rnodes c) txt beg fin s of
      ROk r s' \<Rightarrow> (\<forall>b e. r = Some (b, e) \<longrightarrow> beg \<le> b \<and> b \<le> e \<and> e \<le> fin)
        \<and> length (rmatches s') = length (rmatches s)
        \<and> (\<forall>g < length (rmatches s). rmatches s' ! g = rmatches s ! g
             \<or> (\<forall>b. mbegin (rmatches s' ! g) = Some b \<longrightarrow> 0 \<le> mlen (rmatches s' ! g) \<and> int b + mlen (rmatches s' ! g) \<le> int fin))
    | RUndef \<Rightarrow> \<exists>n \<in> set (rnodes c). rtype n = OP_WB
    | RError e \<Rightarrow> False | RFuel \<Rightarrow> False"
proof -
  have "wf_rex (rnodes c) (rsubexpr c)" using rex_compile_parses[OF assms(1,2)] assms(3) by simp
  from searchrange_ok[OF this assms(4-6)] assms(7)
  have "rx_runs \<lparr>enodes = rnodes c, etext = txt, ebol = beg, eeol = fin\<rparr> (searchrange k (rnodes c) txt beg fin) s
    (\<lambda>r s'. (\<forall>b e. r = Some (b, e) \<longrightarrow> beg \<le> b \<and> b \<le> e \<and> e \<le> fin)
       \<and> captures_from \<lparr>enodes = rnodes c, etext = txt, ebol = beg, eeol = fin\<rparr> s s')" by (simp add: rex_state_def)
  then show ?thesis
    by (auto simp: rx_runs_def captures_from_def capture_ok_def split: rx.splits option.splits)
qed

lemma searched_example:
  "searchrange 16 [\<lparr>rtype = 258, rleft = 1, rright = 0, rnext = -1\<rparr>, \<lparr>rtype = 258, rleft = 2, rright = 1, rnext = -1\<rparr>,
      \<lparr>rtype = 98, rleft = -1, rright = -1, rnext = -1\<rparr>] [97, 98] 0 2 (no_matches 2)
     = ROk (Some (1, 2)) \<lparr>currsubexp = 1, rmatches = [\<lparr>mbegin = Some 1, mlen = 1\<rparr>, \<lparr>mbegin = Some 1, mlen = 1\<rparr>]\<rparr>"
  by code_simp

lemma regex_search_in_bounds_witness:
  "\<exists>s'. searchrange 16 [\<lparr>rtype = 258, rleft = 1, rright = 0, rnext = -1\<rparr>, \<lparr>rtype = 258, rleft = 2, rright = 1, rnext = -1\<rparr>,
      \<lparr>rtype = 98, rleft = -1, rright = -1, rnext = -1\<rparr>] [97, 98] 0 2 (no_matches 2) = ROk (Some (1, 2)) s'
     \<and> (\<forall>g < 2. \<forall>b. mbegin (rmatches s' ! g) = Some b \<longrightarrow> int b + mlen (rmatches s' ! g) \<le> 2)"
proof -
  define s' where "s' = \<lparr>currsubexp = 1, rmatches = [\<lparr>mbegin = Some 1, mlen = 1\<rparr>, \<lparr>mbegin = Some 1, mlen = 1\<rparr>]\<rparr>"
  note e = searched_example[folded s'_def]
  have n: "rmatches (no_matches 2) = replicate 2 \<lparr>mbegin = None, mlen = 0\<rparr>" by (simp add: no_matches_def)
  have "\<forall>g < 2. rmatches s' ! g = rmatches (no_matches 2) ! g
      \<or> (\<forall>b. mbegin (rmatches s' ! g) = Some b \<longrightarrow> 0 \<le> mlen (rmatches s' ! g) \<and> int b + mlen (rmatches s' ! g) \<le> 2)"
    using regex_search_in_bounds[OF _ _ compiled_example, of 0 "[97, 98]" 2 16 "no_matches 2"]
    by (simp add: c_string_def e rex_fuel_def n)
  then have "int b + mlen (rmatches s' ! g) \<le> 2" if "g < 2" "mbegin (rmatches s' ! g) = Some b" for g b
    using that by (auto simp: n)
  then show ?thesis unfolding e by (intro exI[of _ s'] conjI refl allI impI)
qed

text \<open>C36: Every range a search reports is one that the compiled expression stands for: a character, class or boundary node
  stands for the ranges it names, a repetition for a number of matches within its bounds one after the other, an
  alternative for those of its sides, and a group for its nodes one after the other.\<close>

theorem regex_search_sound:
  assumes "c_string pat" "2 * length pat + 5 \<le> fuel" "rex_compile fuel pat = ROk u c"
    and "searchrange k (rnodes c) txt beg fin s = ROk (Some (b, e)) s'"
  shows "beg \<le> b \<and> e \<le> fin \<and> rx_node \<lparr>enodes = rnodes c, etext = txt, ebol = beg, eeol = fin\<rparr> 0 b e"
proof -
  have "wf_rex (rnodes c) (rsubexpr c)" using rex_compile_parses[OF assms(1,2)] assms(3) by simp
  from wf_first(4)[OF this] show ?thesis
    using search_from_sound[of "\<lparr>enodes = rnodes c, etext = txt, ebol = beg, eeol = fin\<rparr>"] assms(4)
    by (auto simp: searchrange_def Let_def rreturn_def split: if_splits simp del: search_from.simps)
qed

lemma regex_search_sound_witness:
  "rx_node \<lparr>enodes = [\<lparr>rtype = 258, rleft = 1, rright = 0, rnext = -1\<rparr>, \<lparr>rtype = 258, rleft = 2, rright = 1, rnext = -1\<rparr>,
      \<lparr>rtype = 98, rleft = -1, rright = -1, rnext = -1\<rparr>], etext = [97, 98], ebol = 0, eeol = 2\<rparr> 0 1 2"
  using regex_search_sound[OF _ _ compiled_example, of "16" "[97, 98]" "0" "2" "no_matches 2"]
  by (simp add: c_string_def searched_example)

end
