(* ===== verification/GS_Collector.thy ===== *)
theory GS_Collector
  imports GS_Object
begin

text \<open>
  The mark phase of the garbage collector (GSobject.cpp, GSobject.h, GSstate.cpp) and the operation of the collector that
  frees nothing, \<open>ResurrectUnreachable\<close>.

  A collectable object has its reference count with the mark in bit 31, its links in the list of all objects or in the list
  of the marked ones, and a body, which holds the fields that its \<open>Mark\<close> follows.  The value None of an operation
  stands for a dangling pointer or a vector read out of bounds.
\<close>

section \<open>Collectable objects\<close>

text \<open>One constructor per class with a \<open>Mark\<close> function; pointers to objects that are followed without a test for null are
  plain, the others options.  A closed captured variable holds its value, an open one nothing to follow.\<close>

datatype gcbody =
    GcVM gsobj gsobj gsobj gsobj gsobj "gsobj list" "gsobj list"
  | GcArray "gsobj list"
  | GcTable "ptr option" "(gsobj \<times> gsobj) list"
  | GcClass ptr "ptr option" gsobj "(gsobj \<times> gsobj) list" "(gsobj \<times> gsobj) list" "gsobj list"
  | GcInstance ptr "gsobj list"
  | GcGenerator "gsobj list" gsobj
  | GcFuncProto "gsobj list" "gsobj list" nat nat
  | GcClosure "ptr option" ptr "gsobj list" "gsobj list"
  | GcNativeClosure "gsobj list"
  | GcOuter "gsobj option"
  | GcUserData "ptr option"

record collectable =
  cuiRef :: "64 word"
  cnext :: "ptr option"
  cprev :: "ptr option"
  cbody :: gcbody

type_synonym gcheap = "ptr \<Rightarrow> collectable option"

record gcstate =
  gobjs :: gcheap
  ggc_chain :: "ptr option"
  gtchain :: "ptr option"

definition MARK_FLAG :: "64 word" where "MARK_FLAG = 0x80000000"

definition has_mark :: "collectable \<Rightarrow> bool" where
  "has_mark c \<longleftrightarrow> and (cuiRef c) MARK_FLAG \<noteq> 0"

definition SetMark :: "collectable \<Rightarrow> collectable" where
  "SetMark c = c\<lparr>cuiRef := or (cuiRef c) MARK_FLAG\<rparr>"

text \<open>The complement of the flag is taken in 32 bits.\<close>

definition UnMark :: "collectable \<Rightarrow> collectable" where
  "UnMark c = c\<lparr>cuiRef := and (cuiRef c) 0x7FFFFFFF\<rparr>"

definition update :: "ptr \<Rightarrow> (collectable \<Rightarrow> collectable) \<Rightarrow> gcheap \<Rightarrow> gcheap option" where
  "update p f h = (case h p of None \<Rightarrow> None | Some c \<Rightarrow> Some (h(p \<mapsto> f c)))"

section \<open>Chains\<close>

text \<open>\<open>AddToChain\<close> and \<open>RemoveFromChain\<close>, on the heap and the head of the chain.\<close>

definition AddToChain :: "gcheap \<Rightarrow> ptr option \<Rightarrow> ptr \<Rightarrow> (gcheap \<times> ptr option) option" where
  "AddToChain h chain c =
     Option.bind (update c (\<lambda>x. x\<lparr>cprev := None, cnext := chain\<rparr>) h) (\<lambda>h1.
     Option.bind (case chain of None \<Rightarrow> Some h1 | Some q \<Rightarrow> update q (\<lambda>x. x\<lparr>cprev := Some c\<rparr>) h1) (\<lambda>h2. Some (h2, Some c)))"

definition RemoveFromChain :: "gcheap \<Rightarrow> ptr option \<Rightarrow> ptr \<Rightarrow> (gcheap \<times> ptr option) option" where
  "RemoveFromChain h chain c =
     (case h c of
        None \<Rightarrow> None
      | Some x \<Rightarrow>
          Option.bind (case cprev x of None \<Rightarrow> Some (h, cnext x)
                       | Some q \<Rightarrow> map_option (\<lambda>h1. (h1, chain)) (update q (\<lambda>y. y\<lparr>cnext := cnext x\<rparr>) h)) (\<lambda>(h1, chain1).
          Option.bind (case cnext x of None \<Rightarrow> Some h1 | Some q \<Rightarrow> update q (\<lambda>y. y\<lparr>cprev := cprev x\<rparr>) h1) (\<lambda>h2.
          Option.bind (update c (\<lambda>y. y\<lparr>cnext := None, cprev := None\<rparr>) h2) (\<lambda>h3. Some (h3, chain1)))))"

section \<open>Marking\<close>

text \<open>The object a value refers to, if \<open>MarkObject\<close> follows it.\<close>

fun mark_target :: "gsobj \<Rightarrow> ptr option" where
  "mark_target (OTable p) = Some p"
| "mark_target (OArray p) = Some p"
| "mark_target (OUserData p) = Some p"
| "mark_target (OClosure p) = Some p"
| "mark_target (ONativeClosure p) = Some p"
| "mark_target (OGenerator p) = Some p"
| "mark_target (OThread p) = Some p"
| "mark_target (OClass p) = Some p"
| "mark_target (OInstance p) = Some p"
| "mark_target (OOuter p) = Some p"
| "mark_target (OFuncProto p) = Some p"
| "mark_target _ = None"

abbreviation opt_obj :: "(ptr \<Rightarrow> gsobj) \<Rightarrow> ptr option \<Rightarrow> gsobj list" where
  "opt_obj f p \<equiv> (case p of None \<Rightarrow> [] | Some q \<Rightarrow> [f q])"

abbreviation pairs :: "(gsobj \<times> gsobj) list \<Rightarrow> gsobj list" where
  "pairs xs \<equiv> concat (map (\<lambda>(a, b). [a, b]) xs)"

text \<open>What the \<open>Mark\<close> function of each class marks, in its order.\<close>

fun marks :: "gcheap \<Rightarrow> gcbody \<Rightarrow> gsobj list option" where
  "marks h (GcVM lasterror errorhandler debughook roottable temp_reg stack closures) =
     Some ([lasterror, errorhandler, debughook, roottable, temp_reg] @ stack @ closures)"
| "marks h (GcArray values) = Some values"
| "marks h (GcTable delegate nodes) = Some (opt_obj OTable delegate @ pairs nodes)"
| "marks h (GcClass members base attributes defaults methods metas) =
     Some (OTable members # opt_obj OClass base @ [attributes] @ pairs defaults @ pairs methods @ metas)"
| "marks h (GcInstance cls values) =
     (case map_option cbody (h cls) of
        Some (GcClass _ _ _ defaults _ _) \<Rightarrow>
          if length defaults \<le> length values then Some (OClass cls # take (length defaults) values) else None
      | _ \<Rightarrow> None)"
| "marks h (GcGenerator stack closure) = Some (stack @ [closure])"
| "marks h (GcFuncProto literals protos nouters ndefaults) = Some (literals @ protos)"
| "marks h (GcClosure base f outers defaults) =
     (case map_option cbody (h f) of
        Some (GcFuncProto _ _ nouters ndefaults) \<Rightarrow>
          if nouters \<le> length outers \<and> ndefaults \<le> length defaults
          then Some (opt_obj OClass base @ [OFuncProto f] @ take nouters outers @ take ndefaults defaults) else None
      | _ \<Rightarrow> None)"
| "marks h (GcNativeClosure outers) = Some outers"
| "marks h (GcOuter v) = Some (case v of None \<Rightarrow> [] | Some x \<Rightarrow> [x])"
| "marks h (GcUserData delegate) = Some (opt_obj OTable delegate)"

text \<open>\<open>MarkObject\<close>, one object after the other.\<close>

fun mark_objects :: "(ptr \<Rightarrow> gcstate \<Rightarrow> gcstate option) \<Rightarrow> gsobj list \<Rightarrow> gcstate \<Rightarrow> gcstate option" where
  "mark_objects m [] s = Some s"
| "mark_objects m (x # xs) s =
     Option.bind (case mark_target x of None \<Rightarrow> Some s | Some p \<Rightarrow> m p s) (mark_objects m xs)"

definition start_mark :: "ptr \<Rightarrow> gcstate \<Rightarrow> gcstate option" where
  "start_mark p s = map_option (\<lambda>h. s\<lparr>gobjs := h\<rparr>) (update p SetMark (gobjs s))"

definition end_mark :: "ptr \<Rightarrow> gcstate \<Rightarrow> gcstate option" where
  "end_mark p s =
     Option.bind (RemoveFromChain (gobjs s) (ggc_chain s) p) (\<lambda>(h1, gc).
     Option.bind (AddToChain h1 (gtchain s) p) (\<lambda>(h2, tc). Some \<lparr>gobjs = h2, ggc_chain = gc, gtchain = tc\<rparr>))"

primrec Mark :: "nat \<Rightarrow> ptr \<Rightarrow> gcstate \<Rightarrow> gcstate option" where
  "Mark 0 = (\<lambda>p s. None)"
| "Mark (Suc k) = (\<lambda>p s.
     case gobjs s p of
       None \<Rightarrow> None
     | Some c \<Rightarrow>
         if has_mark c then Some s
         else Option.bind (marks (gobjs s) (cbody c)) (\<lambda>os.
              Option.bind (start_mark p s) (\<lambda>s1. Option.bind (mark_objects (Mark k) os s1) (end_mark p))))"

text \<open>The roots: the main thread, the objects of the nodes of the reference table, and the tables of the shared state; the
  default delegates are those of tables, arrays, strings, numbers, generators, threads, closures, classes, instances
  and weak references.\<close>

record gcroots =
  root_vm :: ptr
  refs_table :: "gsobj list"
  registry :: gsobj
  const_table :: gsobj
  metamethodsmap :: gsobj
  default_delegates :: "gsobj list"

definition root_objects :: "gcroots \<Rightarrow> gsobj list" where
  "root_objects r = OThread (root_vm r) # refs_table r @ [registry r, const_table r, metamethodsmap r] @ default_delegates r"

definition RunMark :: "nat \<Rightarrow> gcroots \<Rightarrow> gcstate \<Rightarrow> gcstate option" where
  "RunMark k r s = mark_objects (Mark k) (root_objects r) s"

section \<open>ResurrectUnreachable\<close>

fun object_of :: "ptr \<Rightarrow> gcbody \<Rightarrow> gsobj" where
  "object_of p (GcVM _ _ _ _ _ _ _) = OThread p"
| "object_of p (GcArray _) = OArray p"
| "object_of p (GcTable _ _) = OTable p"
| "object_of p (GcClass _ _ _ _ _ _) = OClass p"
| "object_of p (GcInstance _ _) = OInstance p"
| "object_of p (GcGenerator _ _) = OGenerator p"
| "object_of p (GcFuncProto _ _ _ _) = OFuncProto p"
| "object_of p (GcClosure _ _ _ _) = OClosure p"
| "object_of p (GcNativeClosure _) = ONativeClosure p"
| "object_of p (GcOuter _) = OOuter p"
| "object_of p (GcUserData _) = OUserData p"

definition reported :: "gsobj \<Rightarrow> bool" where
  "reported x \<longleftrightarrow> type_of x \<noteq> OT_FUNCPROTO \<and> type_of x \<noteq> OT_OUTER"

text \<open>The first loop, over the chain from \<open>t\<close>: the objects that go into the array, whose reference counts grow by one,
  the number of all, and the last one.\<close>

fun resurrect_loop :: "nat \<Rightarrow> ptr option \<Rightarrow> ptr option \<Rightarrow> gcheap \<Rightarrow> gsobj list \<Rightarrow> nat \<Rightarrow> (gcheap \<times> gsobj list \<times> nat \<times> ptr option) option" where
  "resurrect_loop k None rlast h ret n = Some (h, ret, n, rlast)"
| "resurrect_loop 0 (Some t) rlast h ret n = None"
| "resurrect_loop (Suc k) (Some t) rlast h ret n =
     (case h t of
        None \<Rightarrow> None
      | Some c \<Rightarrow>
          let x = object_of t (cbody c) in
          if reported x then resurrect_loop k (cnext c) (Some t) (h(t \<mapsto> c\<lparr>cuiRef := cuiRef c + 1\<rparr>)) (ret @ [x]) (n + 1)
          else resurrect_loop k (cnext c) (Some t) h ret (n + 1))"

fun unmark_loop :: "nat \<Rightarrow> ptr option \<Rightarrow> gcheap \<Rightarrow> gcheap option" where
  "unmark_loop k None h = Some h"
| "unmark_loop 0 (Some t) h = None"
| "unmark_loop (Suc k) (Some t) h =
     (case h t of None \<Rightarrow> None | Some c \<Rightarrow> unmark_loop k (cnext c) (h(t \<mapsto> UnMark c)))"

text \<open>\<open>ap\<close> is the address of the new array, which \<open>GSArray::Create\<close> adds to the chain; the answer is the number of
  unreachable objects and what is pushed on the stack.\<close>

definition splice :: "ptr \<Rightarrow> ptr option \<Rightarrow> gcheap \<Rightarrow> gcheap option" where
  "splice rlast chain h =
     Option.bind (update rlast (\<lambda>x. x\<lparr>cnext := chain\<rparr>) h) (\<lambda>h1.
       case chain of None \<Rightarrow> Some h1 | Some q \<Rightarrow> update q (\<lambda>x. x\<lparr>cprev := Some rlast\<rparr>) h1)"

definition new_array :: "ptr \<Rightarrow> gcstate \<Rightarrow> (gcheap \<times> ptr option) option" where
  "new_array ap s = AddToChain ((gobjs s)(ap \<mapsto> \<lparr>cuiRef = 1, cnext = None, cprev = None, cbody = GcArray []\<rparr>)) (gtchain s) ap"

definition ResurrectUnreachable :: "nat \<Rightarrow> ptr \<Rightarrow> gcroots \<Rightarrow> gcstate \<Rightarrow> (nat \<times> gsobj \<times> gcstate) option" where
  "ResurrectUnreachable k ap r s0 =
     Option.bind (RunMark k r (s0\<lparr>gtchain := None\<rparr>)) (\<lambda>s.
     case ggc_chain s of
       None \<Rightarrow> Option.bind (unmark_loop k (gtchain s) (gobjs s)) (\<lambda>h. Some (0, ONull, \<lparr>gobjs = h, ggc_chain = gtchain s, gtchain = gtchain s\<rparr>))
     | Some t \<Rightarrow>
         Option.bind (new_array ap s) (\<lambda>(h1, gc).
         Option.bind (resurrect_loop k (Some t) None h1 [] 0) (\<lambda>(h2, ret, n, rlast).
         Option.bind (update ap (\<lambda>x. x\<lparr>cbody := GcArray ret\<rparr>) h2) (\<lambda>h3.
         Option.bind (case rlast of None \<Rightarrow> None | Some l \<Rightarrow> splice l gc h3) (\<lambda>h4.
         Option.bind (unmark_loop (Suc k) (Some t) h4) (\<lambda>h5.
           Some (n, OArray ap, \<lparr>gobjs = h5, ggc_chain = Some t, gtchain = gtchain s\<rparr>)))))))"

section \<open>Doubly linked lists\<close>

text \<open>The segment from \<open>start\<close> up to \<open>stop\<close>, with \<open>pv\<close> before it.\<close>

fun dseg :: "gcheap \<Rightarrow> ptr option \<Rightarrow> ptr option \<Rightarrow> ptr list \<Rightarrow> ptr option \<Rightarrow> bool" where
  "dseg h pv start [] stop \<longleftrightarrow> start = stop"
| "dseg h pv start (x # xs) stop \<longleftrightarrow> start = Some x \<and> (\<exists>c. h x = Some c \<and> cprev c = pv \<and> dseg h (Some x) (cnext c) xs stop)"

abbreviation chain_of :: "gcheap \<Rightarrow> ptr option \<Rightarrow> ptr list \<Rightarrow> bool" where
  "chain_of h start xs \<equiv> dseg h None start xs None"

abbreviation before :: "ptr option \<Rightarrow> ptr list \<Rightarrow> ptr option" where
  "before pv xs \<equiv> (if xs = [] then pv else Some (last xs))"

lemma dseg_append:
  "dseg h pv start (xs @ ys) stop \<longleftrightarrow> (\<exists>m. dseg h pv start xs m \<and> dseg h (before pv xs) m ys stop)"
  by (induction h pv start xs stop rule: dseg.induct) auto

text \<open>Heaps with the same links on a set of objects.\<close>

definition same_links :: "ptr set \<Rightarrow> gcheap \<Rightarrow> gcheap \<Rightarrow> bool" where
  "same_links A h h' \<longleftrightarrow> (\<forall>p \<in> A. map_option cnext (h' p) = map_option cnext (h p) \<and> map_option cprev (h' p) = map_option cprev (h p))"

lemma same_linksD: "same_links A h h' \<Longrightarrow> p \<in> A \<Longrightarrow> h p = Some c \<Longrightarrow> \<exists>c'. h' p = Some c' \<and> cnext c' = cnext c \<and> cprev c' = cprev c"
  unfolding same_links_def by (drule bspec, assumption) (auto simp: map_option_eq_Some)

lemma same_links_upd: "same_links A h h' \<Longrightarrow> p \<notin> A \<Longrightarrow> same_links A h (h'(p \<mapsto> c))"
  by (auto simp: same_links_def)

lemma same_links_refl [simp]: "same_links A h h"
  by (simp add: same_links_def)

lemma same_links_mono: "same_links A h h' \<Longrightarrow> B \<subseteq> A \<Longrightarrow> same_links B h h'"
  by (auto simp: same_links_def)

lemma dseg_cong: "dseg h pv start xs stop \<Longrightarrow> same_links (set xs) h h' \<Longrightarrow> dseg h' pv start xs stop"
proof (induction h pv start xs stop rule: dseg.induct)
  case (2 h pv start x xs stop)
  then obtain c where c: "h x = Some c" "cprev c = pv" "dseg h (Some x) (cnext c) xs stop" "start = Some x" by auto
  obtain c' where "h' x = Some c'" "cnext c' = cnext c" "cprev c' = cprev c" using same_linksD[OF 2(3) _ c(1)] by auto
  moreover have "dseg h' (Some x) (cnext c) xs stop" by (rule 2(1)[OF c(3)]) (use 2(3) in \<open>auto intro: same_links_mono\<close>)
  ultimately show ?case using c by auto
qed simp

lemma dseg_dom: "dseg h pv start xs stop \<Longrightarrow> x \<in> set xs \<Longrightarrow> \<exists>c. h x = Some c"
  by (induction h pv start xs stop rule: dseg.induct) auto

lemma dseg_front:
  assumes "dseg h pv start (x # xs) stop" "same_links (set xs) h h'" "h x = Some c" "h' x = Some c'" "cnext c' = cnext c" "cprev c' = pv'"
  shows "dseg h' pv' start (x # xs) stop"
  using assms dseg_cong[of h "Some x" "cnext c" xs stop h'] by auto

lemma dseg_back:
  assumes "dseg h pv start (xs @ [x]) stop" "same_links (set xs) h h'" "h x = Some c" "h' x = Some c'" "cprev c' = cprev c" "cnext c' = stop'"
  shows "dseg h' pv start (xs @ [x]) stop'"
proof -
  obtain m where m: "dseg h pv start xs m" "dseg h (before pv xs) m [x] stop" using assms(1) by (auto simp: dseg_append)
  have "dseg h' pv start xs m" by (rule dseg_cong[OF m(1) assms(2)])
  moreover have "dseg h' (before pv xs) m [x] stop'" using m(2) assms(3-6) by auto
  ultimately show ?thesis by (auto simp: dseg_append)
qed

lemma update_some: "h p = Some c \<Longrightarrow> update p f h = Some (h(p \<mapsto> f c))"
  by (simp add: update_def)

text \<open>Everything but the links.\<close>

definition same_bodies :: "gcheap \<Rightarrow> gcheap \<Rightarrow> bool" where
  "same_bodies h h' \<longleftrightarrow> (\<forall>p. map_option cbody (h' p) = map_option cbody (h p) \<and> map_option cuiRef (h' p) = map_option cuiRef (h p))"

lemma same_bodies_upd:
  "same_bodies h h' \<Longrightarrow> h' p = Some c \<Longrightarrow> cbody c' = cbody c \<Longrightarrow> cuiRef c' = cuiRef c \<Longrightarrow> same_bodies h (h'(p \<mapsto> c'))"
  unfolding same_bodies_def by (metis fun_upd_apply option.simps(9))

lemma same_bodies_refl [simp]: "same_bodies h h"
  by (simp add: same_bodies_def)

lemma same_bodies_dom: "same_bodies h h' \<Longrightarrow> dom h' = dom h"
  unfolding same_bodies_def by (metis (no_types, lifting) map_option_is_None domIff subsetI subset_antisym)

text \<open>Adding at the front.\<close>

lemma AddToChain_ok:
  assumes "chain_of h chain xs" "h c = Some x" "c \<notin> set xs" "distinct xs"
  obtains h' where "AddToChain h chain c = Some (h', Some c)" "chain_of h' (Some c) (c # xs)"
    "same_links (- set (c # xs)) h h'" "same_bodies h h'"
proof (cases xs)
  case Nil
  then have "AddToChain h chain c = Some (h(c \<mapsto> x\<lparr>cprev := None, cnext := None\<rparr>), Some c)" using assms by (simp add: AddToChain_def update_some)
  then show thesis
    by (rule that) (use assms Nil in \<open>auto intro: same_links_upd same_bodies_upd\<close>)
next
  case (Cons q ys)
  let ?h1 = "h(c \<mapsto> x\<lparr>cprev := None, cnext := chain\<rparr>)"
  from assms(1) Cons obtain y where y: "chain = Some q" "h q = Some y" "cprev y = None" "dseg h (Some q) (cnext y) ys None" by auto
  have q: "q \<noteq> c" "q \<notin> set ys" "c \<notin> set ys" using assms(3,4) Cons by auto
  let ?h2 = "?h1(q \<mapsto> y\<lparr>cprev := Some c\<rparr>)"
  have a: "AddToChain h chain c = Some (?h2, Some c)" using assms(2) y q by (simp add: AddToChain_def update_some)
  have "dseg ?h2 (Some c) (Some q) (q # ys) None"
    by (rule dseg_front[OF assms(1)[unfolded Cons y(1)], where c = y and c' = "y\<lparr>cprev := Some c\<rparr>"]) (use y q in \<open>auto intro!: same_links_upd\<close>)
  then have "chain_of ?h2 (Some c) (c # xs)" using y q Cons by simp
  with a show thesis
    by (rule that) (use Cons assms(2) y q in \<open>auto intro!: same_links_upd same_bodies_upd\<close>)
qed

text \<open>Removing from anywhere.\<close>

lemma RemoveFromChain_ok:
  assumes "chain_of h chain (as @ c # bs)" "distinct (as @ c # bs)"
  obtains h' chain' where "RemoveFromChain h chain c = Some (h', chain')" "chain_of h' chain' (as @ bs)"
    "same_links (- set (as @ c # bs)) h h'" "same_bodies h h'"
proof -
  obtain m where m: "dseg h None chain as m" "dseg h (before None as) m (c # bs) None" using assms(1) by (auto simp: dseg_append)
  then obtain x where x: "m = Some c" "h c = Some x" "cprev x = before None as" "dseg h (Some c) (cnext x) bs None" by auto
  have d: "c \<notin> set as" "c \<notin> set bs" "distinct as" "distinct bs" "set as \<inter> set bs = {}" using assms(2) by auto
  obtain h1 chain1 where h1: "(case cprev x of None \<Rightarrow> Some (h, cnext x)
        | Some q \<Rightarrow> map_option (\<lambda>h1. (h1, chain)) (update q (\<lambda>y. y\<lparr>cnext := cnext x\<rparr>) h)) = Some (h1, chain1)"
    "dseg h1 None chain1 as (cnext x)" "same_links (- set as) h h1" "same_bodies h h1"
  proof (cases as rule: rev_cases)
    case Nil
    then show thesis using that[of h "cnext x"] x(3) by simp
  next
    case (snoc as' q)
    obtain y where y: "h q = Some y" using dseg_dom[OF m(1), of q] snoc by auto
    have "dseg (h(q \<mapsto> y\<lparr>cnext := cnext x\<rparr>)) None chain as (cnext x)"
      unfolding snoc by (rule dseg_back[OF m(1)[unfolded snoc], where c = y and c' = "y\<lparr>cnext := cnext x\<rparr>"]) (use y d snoc in \<open>auto intro!: same_links_upd\<close>)
    moreover have "same_links (- set as) h (h(q \<mapsto> y\<lparr>cnext := cnext x\<rparr>))" using snoc by (intro same_links_upd) auto
    moreover have "same_bodies h (h(q \<mapsto> y\<lparr>cnext := cnext x\<rparr>))" by (rule same_bodies_upd[where c = y]) (simp_all add: y)
    ultimately show thesis
      using that[of "h(q \<mapsto> y\<lparr>cnext := cnext x\<rparr>)" chain] x(3) y snoc by (simp add: update_some)
  qed
  have bs1: "dseg h1 (Some c) (cnext x) bs None" by (rule dseg_cong[OF x(4)]) (use h1(3) d in \<open>auto elim!: same_links_mono\<close>)
  obtain h2 where h2: "(case cnext x of None \<Rightarrow> Some h1 | Some q \<Rightarrow> update q (\<lambda>y. y\<lparr>cprev := cprev x\<rparr>) h1) = Some h2"
    "dseg h2 (before None as) (cnext x) bs None" "same_links (- set bs) h1 h2" "same_bodies h1 h2"
  proof (cases bs)
    case Nil
    then show thesis using that[of h1] bs1 by simp
  next
    case (Cons b bs')
    then obtain y where y: "cnext x = Some b" "h1 b = Some y" using bs1 by auto
    have "dseg (h1(b \<mapsto> y\<lparr>cprev := before None as\<rparr>)) (before None as) (cnext x) bs None"
      unfolding Cons by (rule dseg_front[OF bs1[unfolded Cons], where c = y and c' = "y\<lparr>cprev := before None as\<rparr>"]) (use y d Cons in \<open>auto intro!: same_links_upd\<close>)
    moreover have "same_links (- set bs) h1 (h1(b \<mapsto> y\<lparr>cprev := before None as\<rparr>))" using Cons by (intro same_links_upd) auto
    moreover have "same_bodies h1 (h1(b \<mapsto> y\<lparr>cprev := before None as\<rparr>))" by (rule same_bodies_upd[where c = y]) (simp_all add: y)
    ultimately show thesis
      using that[of "h1(b \<mapsto> y\<lparr>cprev := before None as\<rparr>)"] y x(3) Cons by (simp add: update_some)
  qed
  have as2: "dseg h2 None chain1 as (cnext x)" by (rule dseg_cong[OF h1(2)]) (use h2(3) d in \<open>auto elim!: same_links_mono\<close>)
  have "same_bodies h h2" using h1(4) h2(4) by (simp add: same_bodies_def)
  then obtain z where z: "h2 c = Some z" using x(2) unfolding same_bodies_def by (metis map_option_is_None not_None_eq option.distinct(1))
  let ?h3 = "h2(c \<mapsto> z\<lparr>cnext := None, cprev := None\<rparr>)"
  have "RemoveFromChain h chain c = Some (?h3, chain1)" using x(2) h1(1) h2(1) z by (simp add: RemoveFromChain_def update_some)
  moreover have "chain_of ?h3 chain1 (as @ bs)"
  proof -
    have "dseg ?h3 None chain1 as (cnext x)" by (rule dseg_cong[OF as2]) (use d in \<open>simp add: same_links_upd\<close>)
    moreover have "dseg ?h3 (before None as) (cnext x) bs None" by (rule dseg_cong[OF h2(2)]) (use d in \<open>simp add: same_links_upd\<close>)
    ultimately show ?thesis unfolding dseg_append by blast
  qed
  moreover have "same_links (- set (as @ c # bs)) h ?h3"
    using h1(3) h2(3) by (auto simp: same_links_def)
  moreover have "same_bodies h ?h3" using \<open>same_bodies h h2\<close> z by (rule same_bodies_upd) simp_all
  ultimately show thesis by (rule that)
qed

section \<open>Reachability\<close>

text \<open>What an object marks, and what can be reached from a set of objects.\<close>

definition targets :: "gsobj list \<Rightarrow> ptr set" where
  "targets os = {q. \<exists>x \<in> set os. mark_target x = Some q}"

definition points_to :: "gcheap \<Rightarrow> ptr \<Rightarrow> ptr set" where
  "points_to h p = (case h p of None \<Rightarrow> {} | Some c \<Rightarrow> (case marks h (cbody c) of None \<Rightarrow> {} | Some os \<Rightarrow> targets os))"

inductive_set reach :: "gcheap \<Rightarrow> ptr set \<Rightarrow> ptr set" for h R where
  reach_root: "p \<in> R \<Longrightarrow> p \<in> reach h R"
| reach_step: "p \<in> reach h R \<Longrightarrow> q \<in> points_to h p \<Longrightarrow> q \<in> reach h R"

lemma reach_closed:
  assumes "R \<subseteq> M" "\<And>p. p \<in> M \<Longrightarrow> points_to h p \<subseteq> M"
  shows "reach h R \<subseteq> M"
proof
  fix p assume "p \<in> reach h R"
  then show "p \<in> M" by induction (use assms in auto)
qed

lemma reach_trans: "R \<subseteq> reach h R' \<Longrightarrow> reach h R \<subseteq> reach h R'"
  by (rule reach_closed) (auto intro: reach_step)

text \<open>A closed heap without marks: what an object marks exists.\<close>

definition gc_heap :: "gcheap \<Rightarrow> bool" where
  "gc_heap h \<longleftrightarrow> (\<forall>p c. h p = Some c \<longrightarrow> (\<exists>os. marks h (cbody c) = Some os \<and> targets os \<subseteq> dom h) \<and> cuiRef c < 0x80000000)"

definition marked :: "gcheap \<Rightarrow> ptr set" where
  "marked h = {p. \<exists>c. h p = Some c \<and> has_mark c}"

text \<open>A state during the mark phase: \<open>xs\<close> is the chain of all objects, \<open>ys\<close> that of the marked ones.\<close>

definition marking :: "gcheap \<Rightarrow> ptr list \<Rightarrow> ptr list \<Rightarrow> gcstate \<Rightarrow> bool" where
  "marking h0 xs ys s \<longleftrightarrow> chain_of (gobjs s) (ggc_chain s) xs \<and> chain_of (gobjs s) (gtchain s) ys \<and> distinct (xs @ ys)
     \<and> set (xs @ ys) = dom h0 \<and> set ys \<subseteq> marked (gobjs s)
     \<and> (\<forall>p. map_option cbody (gobjs s p) = map_option cbody (h0 p))
     \<and> (\<forall>p c0. h0 p = Some c0 \<longrightarrow> (\<exists>c. gobjs s p = Some c \<and> (cuiRef c = cuiRef c0 \<or> cuiRef c = or (cuiRef c0) MARK_FLAG)))"

lemma marking_refs:
  assumes "marking h0 xs ys s" "h0 p = Some c0"
  obtains c where "gobjs s p = Some c" "cuiRef c = cuiRef c0 \<or> cuiRef c = or (cuiRef c0) MARK_FLAG"
  using assms unfolding marking_def by blast

lemma marks_cong:
  assumes "\<forall>p. map_option cbody (h' p) = map_option cbody (h p)"
  shows "marks h' b = marks h b"
  using assms by (cases "(h, b)" rule: marks.cases) simp_all

lemma marking_dom: "marking h0 xs ys s \<Longrightarrow> dom (gobjs s) = dom h0"
  unfolding marking_def by (metis (no_types, lifting) map_option_is_None domIff subsetI subset_antisym)

lemma marking_marks: "marking h0 xs ys s \<Longrightarrow> marks (gobjs s) b = marks h0 b"
  by (rule marks_cong) (simp add: marking_def)

lemma marking_body: "marking h0 xs ys s \<Longrightarrow> gobjs s p = Some c \<Longrightarrow> \<exists>c0. h0 p = Some c0 \<and> cbody c0 = cbody c"
  unfolding marking_def by (metis (no_types, lifting) map_option_eq_Some option.simps(9))

lemma flag_bits:
  fixes x :: "64 word"
  assumes "x < 0x80000000"
  shows "and x MARK_FLAG = 0" "and (or x MARK_FLAG) 0x7FFFFFFF = x" "and x 0x7FFFFFFF = x"
proof -
  have m: "(0x7FFFFFFF :: 64 word) = mask 31" by (simp add: mask_eq_exp_minus_1)
  have f: "MARK_FLAG = push_bit 31 1" by (simp add: MARK_FLAG_def push_bit_eq_mult)
  have "unat (take_bit 31 x) = unat x"
    using assms by (simp add: unsigned_take_bit_eq take_bit_nat_eq_self word_less_nat_alt)
  then have t: "take_bit 31 x = x" by (simp add: word_unat_eq_iff)
  have b: "\<not> bit x n" if "31 \<le> n" for n using t that by (metis bit_take_bit_iff leD)
  then have b': "bit x n \<Longrightarrow> n < 31" for n using not_less by blast
  have fb: "bit MARK_FLAG n \<longleftrightarrow> n = 31" for n unfolding f by (simp only: bit_push_bit_iff bit_1_iff possible_bit_word) auto
  show "and x MARK_FLAG = 0" by (rule bit_eqI) (use b in \<open>auto simp: fb bit_and_iff\<close>)
  show "and (or x MARK_FLAG) 0x7FFFFFFF = x" by (rule bit_eqI) (use b' in \<open>auto simp: fb m bit_and_iff bit_or_iff bit_mask_iff\<close>)
  show "and x 0x7FFFFFFF = x" by (simp add: m t flip: take_bit_eq_mask)
qed

lemma flag_set: "and (or x MARK_FLAG) MARK_FLAG \<noteq> 0"
proof -
  have "and (or x MARK_FLAG) MARK_FLAG = MARK_FLAG" by (rule bit_eqI) (auto simp: bit_simps)
  then show ?thesis by (simp add: MARK_FLAG_def)
qed

subsection \<open>One object\<close>

lemma start_mark_ok:
  assumes "marking h0 xs ys s" "gobjs s p = Some c" "p \<notin> marked (gobjs s)"
  obtains s1 where "start_mark p s = Some s1" "marking h0 xs ys s1" "marked (gobjs s1) = insert p (marked (gobjs s))"
proof -
  let ?h = "(gobjs s)(p \<mapsto> SetMark c)"
  have e: "start_mark p s = Some (s\<lparr>gobjs := ?h\<rparr>)" using assms(2) by (simp add: start_mark_def update_some)
  have l: "same_links A (gobjs s) ?h" for A using assms(2) by (auto simp: same_links_def SetMark_def)
  have m: "marked ?h = insert p (marked (gobjs s))" using assms(2) flag_set by (auto simp: marked_def has_mark_def SetMark_def)
  have "\<exists>c'. ?h q = Some c' \<and> (cuiRef c' = cuiRef c0 \<or> cuiRef c' = or (cuiRef c0) MARK_FLAG)" if "h0 q = Some c0" for q c0
  proof -
    obtain c1 where c1: "gobjs s q = Some c1" "cuiRef c1 = cuiRef c0 \<or> cuiRef c1 = or (cuiRef c0) MARK_FLAG"
      by (rule marking_refs[OF assms(1) \<open>h0 q = Some c0\<close>])
    then show ?thesis using assms(2) by (auto simp: SetMark_def or.assoc)
  qed
  moreover have body: "map_option cbody (?h q) = map_option cbody (h0 q)" for q
  proof -
    have "map_option cbody (gobjs s q) = map_option cbody (h0 q)" for q using assms(1) by (simp add: marking_def)
    from this[of q] show ?thesis using assms(2) by (auto simp: SetMark_def)
  qed
  ultimately have "marking h0 xs ys (s\<lparr>gobjs := ?h\<rparr>)"
    using assms(1) m dseg_cong[OF _ l] body by (auto simp: marking_def simp del: fun_upd_apply)
  with e show thesis by (rule that) (simp add: m)
qed

lemma end_mark_ok:
  assumes "marking h0 xs ys s" "p \<in> set xs" "p \<in> marked (gobjs s)"
  obtains s1 where "end_mark p s = Some s1" "marking h0 (remove1 p xs) (p # ys) s1" "marked (gobjs s1) = marked (gobjs s)"
proof -
  obtain as bs where xs: "xs = as @ p # bs" using assms(2) split_list by metis
  have inv: "chain_of (gobjs s) (ggc_chain s) xs" "chain_of (gobjs s) (gtchain s) ys" "distinct (xs @ ys)" using assms(1) by (auto simp: marking_def)
  obtain h1 gc where r: "RemoveFromChain (gobjs s) (ggc_chain s) p = Some (h1, gc)" "chain_of h1 gc (as @ bs)"
    "same_links (- set xs) (gobjs s) h1" "same_bodies (gobjs s) h1"
    unfolding xs by (rule RemoveFromChain_ok[of "gobjs s" "ggc_chain s" as p bs]) (use inv xs in auto)
  have ys1: "chain_of h1 (gtchain s) ys" by (rule dseg_cong[OF inv(2)]) (use r(3) inv(3) in \<open>auto elim!: same_links_mono\<close>)
  obtain x where x: "h1 p = Some x" using r(4) dseg_dom[OF inv(1) assms(2)] unfolding same_bodies_def by (metis map_option_eq_Some)
  have p: "p \<notin> set ys" "distinct ys" "p \<notin> set as" "p \<notin> set bs" using inv(3) xs by auto
  obtain h2 where a: "AddToChain h1 (gtchain s) p = Some (h2, Some p)" "chain_of h2 (Some p) (p # ys)"
    "same_links (- set (p # ys)) h1 h2" "same_bodies h1 h2"
    using AddToChain_ok[OF ys1 x p(1,2)] by blast
  have xs2: "chain_of h2 gc (as @ bs)" by (rule dseg_cong[OF r(2)]) (use a(3) inv(3) xs in \<open>auto elim!: same_links_mono\<close>)
  have sb: "same_bodies (gobjs s) h2" using r(4) a(4) by (simp add: same_bodies_def)
  then have body: "map_option cbody (h2 q) = map_option cbody (gobjs s q)" and ref: "map_option cuiRef (h2 q) = map_option cuiRef (gobjs s q)" for q
    by (auto simp: same_bodies_def)
  have "h2 q = Some c \<and> has_mark c \<Longrightarrow> q \<in> marked (gobjs s)" "gobjs s q = Some c \<and> has_mark c \<Longrightarrow> q \<in> marked h2" for q c
    using ref[of q] by (cases "h2 q"; cases "gobjs s q"; auto simp: marked_def has_mark_def)+
  then have mk: "marked h2 = marked (gobjs s)" unfolding marked_def by blast
  have rm: "remove1 p xs = as @ bs" using xs p by (simp add: remove1_append)
  have refs: "\<exists>c. h2 q = Some c \<and> (cuiRef c = cuiRef c0 \<or> cuiRef c = or (cuiRef c0) MARK_FLAG)" if "h0 q = Some c0" for q c0
  proof -
    obtain c1 where c1: "gobjs s q = Some c1" "cuiRef c1 = cuiRef c0 \<or> cuiRef c1 = or (cuiRef c0) MARK_FLAG"
      by (rule marking_refs[OF assms(1) \<open>h0 q = Some c0\<close>])
    then show ?thesis using ref[of q] by (cases "h2 q") auto
  qed
  have "end_mark p s = Some \<lparr>gobjs = h2, ggc_chain = gc, gtchain = Some p\<rparr>" using r(1) a(1) by (simp add: end_mark_def)
  moreover have "marking h0 (remove1 p xs) (p # ys) \<lparr>gobjs = h2, ggc_chain = gc, gtchain = Some p\<rparr>"
  proof -
    have "map_option cbody (h2 q) = map_option cbody (h0 q)" for q using body[of q] assms(1) by (simp add: marking_def)
    moreover have "distinct ((as @ bs) @ p # ys)" "set ((as @ bs) @ p # ys) = dom h0" using assms(1) by (auto simp: marking_def xs)
    moreover have "set (p # ys) \<subseteq> marked h2" using assms(1,3) by (simp add: marking_def mk)
    ultimately show ?thesis using xs2 a(2) refs unfolding marking_def rm by (simp del: dseg.simps)
  qed
  ultimately show thesis by (rule that) (simp add: mk)
qed

subsection \<open>All objects\<close>

text \<open>What marking from the objects \<open>os\<close> leaves: the targets are marked, and so is what the newly marked objects mark;
  only reachable objects are newly marked, and those left the chain of all objects.\<close>

definition marks_from :: "gcheap \<Rightarrow> ptr set \<Rightarrow> ptr list \<Rightarrow> ptr set \<Rightarrow> ptr list \<Rightarrow> ptr list \<Rightarrow> gcstate \<Rightarrow> bool" where
  "marks_from h0 R xs M xs' ys' s' \<longleftrightarrow> marking h0 xs' ys' s' \<and> M \<union> R \<subseteq> marked (gobjs s')
     \<and> marked (gobjs s') - M \<subseteq> reach h0 R \<and> (\<forall>p \<in> marked (gobjs s') - M. points_to h0 p \<subseteq> marked (gobjs s'))
     \<and> xs' = filter (\<lambda>p. p \<notin> marked (gobjs s') - M) xs"

lemma marked_dom: "marked h \<subseteq> dom h"
  by (auto simp: marked_def)

lemma marks_from_none: "marking h0 xs ys s \<Longrightarrow> marks_from h0 {} xs (marked (gobjs s)) xs ys s"
  by (simp add: marks_from_def)

lemma marks_from_trans:
  assumes "marks_from h0 R xs M xs1 ys1 s1" "marks_from h0 R' xs1 (marked (gobjs s1)) xs2 ys2 s2"
  shows "marks_from h0 (R \<union> R') xs M xs2 ys2 s2"
proof -
  let ?M1 = "marked (gobjs s1)" and ?M2 = "marked (gobjs s2)"
  have m: "M \<union> R \<subseteq> ?M1" "?M1 \<union> R' \<subseteq> ?M2" using assms by (auto simp: marks_from_def)
  have r: "reach h0 R \<subseteq> reach h0 (R \<union> R')" "reach h0 R' \<subseteq> reach h0 (R \<union> R')"
    by (rule reach_trans; auto intro: reach_root)+
  have "?M1 - M \<subseteq> reach h0 R" "?M2 - ?M1 \<subseteq> reach h0 R'" using assms by (auto simp: marks_from_def)
  moreover have "?M2 - M \<subseteq> (?M1 - M) \<union> (?M2 - ?M1)" by auto
  ultimately have "?M2 - M \<subseteq> reach h0 (R \<union> R')" using r by blast
  moreover have "\<forall>p \<in> ?M2 - M. points_to h0 p \<subseteq> ?M2" using assms m by (auto simp: marks_from_def) blast
  moreover have "xs2 = filter (\<lambda>p. p \<notin> ?M2 - M) xs"
  proof -
    have "xs2 = filter (\<lambda>p. p \<notin> ?M2 - ?M1) (filter (\<lambda>p. p \<notin> ?M1 - M) xs)" using assms by (simp add: marks_from_def)
    also have "\<dots> = filter (\<lambda>p. p \<notin> ?M2 - M) xs" using m by (auto intro!: filter_cong)
    finally show ?thesis .
  qed
  ultimately show ?thesis using assms m by (auto simp: marks_from_def)
qed

lemma mark_objects_ok:
  assumes m: "\<And>p xs ys s. marking h0 xs ys s \<Longrightarrow> p \<in> dom h0 \<Longrightarrow> N \<subseteq> marked (gobjs s) \<Longrightarrow>
      \<exists>s' xs' ys'. m p s = Some s' \<and> marks_from h0 {p} xs (marked (gobjs s)) xs' ys' s'"
  shows "marking h0 xs ys s \<Longrightarrow> targets os \<subseteq> dom h0 \<Longrightarrow> N \<subseteq> marked (gobjs s) \<Longrightarrow>
      \<exists>s' xs' ys'. mark_objects m os s = Some s' \<and> marks_from h0 (targets os) xs (marked (gobjs s)) xs' ys' s'"
proof (induction os arbitrary: xs ys s)
  case Nil
  then show ?case using marks_from_none[OF Nil(1)] by (auto simp: targets_def)
next
  case (Cons x os)
  have t: "targets (x # os) = set_option (mark_target x) \<union> targets os" by (auto simp: targets_def)
  obtain s1 xs1 ys1 where s1: "(case mark_target x of None \<Rightarrow> Some s | Some p \<Rightarrow> m p s) = Some s1"
    "marks_from h0 (set_option (mark_target x)) xs (marked (gobjs s)) xs1 ys1 s1"
  proof (cases "mark_target x")
    case None
    then show thesis using that[of s xs ys] marks_from_none[OF Cons.prems(1)] by simp
  next
    case (Some p)
    then show thesis using m[OF Cons.prems(1), of p] Cons.prems(2,3) t that by (auto)
  qed
  have i1: "marking h0 xs1 ys1 s1" "N \<subseteq> marked (gobjs s1)" using s1(2) Cons.prems(3) by (auto simp: marks_from_def)
  obtain s2 xs2 ys2 where s2: "mark_objects m os s1 = Some s2" "marks_from h0 (targets os) xs1 (marked (gobjs s1)) xs2 ys2 s2"
    using Cons.IH[OF i1(1) _ i1(2)] Cons.prems(2) t by auto
  show ?case using s1(1) s2(1) marks_from_trans[OF s1(2) s2(2)] t by auto
qed

lemma Mark_ok:
  assumes "gc_heap h0" "finite (dom h0)"
  shows "marking h0 xs ys s \<Longrightarrow> p \<in> dom h0 \<Longrightarrow> card (dom h0 - marked (gobjs s)) < k \<Longrightarrow>
    \<exists>s' xs' ys'. Mark k p s = Some s' \<and> marks_from h0 {p} xs (marked (gobjs s)) xs' ys' s'"
proof (induction k arbitrary: p xs ys s)
  case (Suc k)
  let ?M = "marked (gobjs s)"
  obtain c where c: "gobjs s p = Some c" using Suc.prems(2) marking_dom[OF Suc.prems(1)] by blast
  show ?case
  proof (cases "has_mark c")
    case True
    then have "p \<in> ?M" using c by (auto simp: marked_def)
    then show ?thesis using c True marks_from_none[OF Suc.prems(1)] by (auto simp: marks_from_def)
  next
    case False
    then have p: "p \<notin> ?M" using c by (auto simp: marked_def)
    obtain c0 where c0: "h0 p = Some c0" "cbody c0 = cbody c" using marking_body[OF Suc.prems(1) c] by blast
    obtain os where os: "marks h0 (cbody c) = Some os" "targets os \<subseteq> dom h0"
      using assms(1) c0 unfolding gc_heap_def by metis
    have pt: "points_to h0 p = targets os" using c0 os(1) by (simp add: points_to_def)
    obtain s1 where s1: "start_mark p s = Some s1" "marking h0 xs ys s1" "marked (gobjs s1) = insert p ?M"
      by (rule start_mark_ok[OF Suc.prems(1) c p])
    have sub: "\<exists>s' xs' ys'. Mark k q t = Some s' \<and> marks_from h0 {q} zs (marked (gobjs t)) xs' ys' s'"
      if t: "marking h0 zs ws t" "q \<in> dom h0" "insert p ?M \<subseteq> marked (gobjs t)" for q zs ws t
    proof (rule Suc.IH[OF t(1,2)])
      have "card (dom h0 - marked (gobjs t)) \<le> card (dom h0 - insert p ?M)" by (rule card_mono) (use t(3) assms(2) in auto)
      also have "\<dots> < card (dom h0 - ?M)" using Suc.prems(2) p assms(2) by (intro psubset_card_mono) auto
      finally show "card (dom h0 - marked (gobjs t)) < k" using Suc.prems(3) by simp
    qed
    obtain s2 xs2 ys2 where s2: "mark_objects (Mark k) os s1 = Some s2" "marks_from h0 (targets os) xs (insert p ?M) xs2 ys2 s2"
    proof -
      have "\<exists>s' xs' ys'. mark_objects (Mark k) os s1 = Some s' \<and> marks_from h0 (targets os) xs (marked (gobjs s1)) xs' ys' s'"
        by (rule mark_objects_ok[where m = "Mark k" and N = "insert p ?M", OF sub s1(2) os(2)]) (use s1(3) in auto)
      then show thesis using that s1(3) by auto
    qed
    have i2: "marking h0 xs2 ys2 s2" "p \<in> marked (gobjs s2)" using s2(2) by (auto simp: marks_from_def)
    have "set (xs @ ys) = dom h0" "set ys \<subseteq> ?M" using Suc.prems(1) by (simp_all add: marking_def)
    then have "p \<in> set xs" using Suc.prems(2) p by auto
    then have "p \<in> set xs2" using s2(2) by (auto simp: marks_from_def)
    obtain s3 where s3: "end_mark p s2 = Some s3" "marking h0 (remove1 p xs2) (p # ys2) s3" "marked (gobjs s3) = marked (gobjs s2)"
      by (rule end_mark_ok[OF i2(1) \<open>p \<in> set xs2\<close> i2(2)])
    have dist: "distinct xs2" using i2(1) by (simp add: marking_def)
    have "Mark (Suc k) p s = Some s3" using c False marking_marks[OF Suc.prems(1)] os(1) s1(1) s2(1) s3(1) by simp
    moreover have "marks_from h0 {p} xs ?M (remove1 p xs2) (p # ys2) s3"
    proof -
      have rp: "targets os \<subseteq> reach h0 {p}" using pt by (auto intro: reach_step reach_root)
      have "marked (gobjs s3) - ?M \<subseteq> reach h0 {p}"
        using s2(2) reach_trans[OF rp] unfolding s3(3) by (auto simp: marks_from_def intro: reach_root)
      moreover have "\<forall>q \<in> marked (gobjs s3) - ?M. points_to h0 q \<subseteq> marked (gobjs s3)"
      proof
        fix q assume q: "q \<in> marked (gobjs s3) - ?M"
        show "points_to h0 q \<subseteq> marked (gobjs s3)"
        proof (cases "q = p")
          case True
          then show ?thesis using s2(2) pt by (simp add: s3(3) marks_from_def)
        next
          case False
          then show ?thesis using s2(2) q unfolding s3(3) marks_from_def by blast
        qed
      qed
      moreover have "remove1 p xs2 = filter (\<lambda>q. q \<notin> marked (gobjs s3) - ?M) xs"
      proof -
        have "remove1 p xs2 = filter (\<lambda>q. q \<noteq> p) xs2" using dist by (simp add: distinct_remove1_removeAll removeAll_filter_not_eq) (metis (mono_tags))
        also have "\<dots> = filter (\<lambda>q. q \<notin> marked (gobjs s3) - ?M) xs"
          using s2(2) i2(2) p unfolding s3(3) marks_from_def by (auto intro!: filter_cong)
        finally show ?thesis .
      qed
      ultimately show ?thesis using s3(2,3) s2(2) by (auto simp: marks_from_def)
    qed
    ultimately show ?thesis by blast
  qed
qed simp

text \<open>The whole mark phase.\<close>

lemma RunMark_ok:
  assumes "gc_heap (gobjs s)" "chain_of (gobjs s) (ggc_chain s) xs" "distinct xs" "set xs = dom (gobjs s)" "gtchain s = None"
    and roots: "targets (root_objects r) \<subseteq> dom (gobjs s)" and k: "card (dom (gobjs s)) < k"
  defines "R \<equiv> reach (gobjs s) (targets (root_objects r))"
  obtains s' ys where "RunMark k r s = Some s'" "marking (gobjs s) (filter (\<lambda>p. p \<notin> R) xs) ys s'" "marked (gobjs s') = R" "set ys = R"
proof -
  let ?h = "gobjs s"
  have fin: "finite (dom ?h)" using assms(4) by (metis finite_set)
  have none: "marked ?h = {}" using assms(1) by (auto simp: marked_def has_mark_def gc_heap_def flag_bits(1))
  have i0: "marking ?h xs [] s" using assms(2-5) none by (auto simp: marking_def)
  have "\<exists>s' xs' ys'. mark_objects (Mark k) (root_objects r) s = Some s' \<and> marks_from ?h (targets (root_objects r)) xs (marked ?h) xs' ys' s'"
  proof (rule mark_objects_ok[where m = "Mark k" and N = "{}", OF Mark_ok[OF assms(1) fin] i0 roots])
    fix t show "card (dom ?h - marked (gobjs t)) < k" using k fin by (meson Diff_subset card_mono le_less_trans)
  qed auto
  then obtain s' xs' ys' where s': "RunMark k r s = Some s'" and m: "marks_from ?h (targets (root_objects r)) xs {} xs' ys' s'"
    unfolding RunMark_def none by blast
  have R: "marked (gobjs s') = R"
    unfolding R_def
  proof (rule subset_antisym)
    show "marked (gobjs s') \<subseteq> reach ?h (targets (root_objects r))" using m by (auto simp: marks_from_def)
    show "reach ?h (targets (root_objects r)) \<subseteq> marked (gobjs s')" by (rule reach_closed) (use m in \<open>auto simp: marks_from_def\<close>)
  qed
  have xs': "xs' = filter (\<lambda>p. p \<notin> R) xs" using m by (simp add: marks_from_def R)
  have mk: "marking ?h (filter (\<lambda>p. p \<notin> R) xs) ys' s'" using m unfolding marks_from_def xs'[symmetric] by blast
  have d: "set (filter (\<lambda>p. p \<notin> R) xs @ ys') = dom ?h" "set ys' \<subseteq> R" using mk R unfolding marking_def by blast+
  have "R \<subseteq> dom ?h" using marked_dom[of "gobjs s'"] marking_dom[OF mk] R by simp
  then have "set ys' = R" using d by auto
  with s' mk R that show thesis by blast
qed

subsection \<open>Loops over a chain\<close>

lemma unmark_loop_ok:
  "dseg h pv start xs None \<Longrightarrow> distinct xs \<Longrightarrow> length xs \<le> k \<Longrightarrow>
     unmark_loop k start h = Some (\<lambda>p. if p \<in> set xs then map_option UnMark (h p) else h p)"
proof (induction xs arbitrary: pv start k h)
  case Nil
  then show ?case by (cases k) simp_all
next
  case (Cons x xs)
  then obtain c k' where c: "start = Some x" "h x = Some c" "dseg h (Some x) (cnext c) xs None" "k = Suc k'" by (cases k) auto
  have "dseg (h(x \<mapsto> UnMark c)) (Some x) (cnext c) xs None"
    by (rule dseg_cong[OF c(3)]) (use Cons.prems(2) in \<open>auto intro!: same_links_upd\<close>)
  from Cons.IH[OF this] have "unmark_loop k' (cnext c) (h(x \<mapsto> UnMark c)) =
      Some (\<lambda>p. if p \<in> set xs then map_option UnMark ((h(x \<mapsto> UnMark c)) p) else (h(x \<mapsto> UnMark c)) p)"
    using Cons.prems(2,3) c(4) by (simp del: fun_upd_apply)
  then show ?case using c Cons.prems(2) by (auto simp: fun_eq_iff)
qed

definition objects :: "gcheap \<Rightarrow> ptr list \<Rightarrow> gsobj list" where
  "objects h xs = map (\<lambda>p. object_of p (cbody (the (h p)))) xs"

lemma resurrect_loop_ok:
  "dseg h pv start xs None \<Longrightarrow> distinct xs \<Longrightarrow> length xs \<le> k \<Longrightarrow>
     resurrect_loop k start rlast h ret n = Some
       (\<lambda>p. if p \<in> set xs \<and> reported (object_of p (cbody (the (h p)))) then map_option (\<lambda>c. c\<lparr>cuiRef := cuiRef c + 1\<rparr>) (h p) else h p,
        ret @ filter reported (objects h xs), n + length xs, if xs = [] then rlast else Some (last xs))"
proof (induction xs arbitrary: pv start k h rlast ret n)
  case Nil
  then show ?case by (cases k) (simp_all add: objects_def)
next
  case (Cons x xs)
  then obtain c k' where c: "start = Some x" "h x = Some c" "dseg h (Some x) (cnext c) xs None" "k = Suc k'" by (cases k) auto
  let ?h = "if reported (object_of x (cbody c)) then h(x \<mapsto> c\<lparr>cuiRef := cuiRef c + 1\<rparr>) else h"
  have "dseg ?h (Some x) (cnext c) xs None"
    by (rule dseg_cong[OF c(3)]) (use Cons.prems(2) in \<open>auto intro!: same_links_upd\<close>)
  note IH = Cons.IH[OF this, of k' "Some x" "if reported (object_of x (cbody c)) then ret @ [object_of x (cbody c)] else ret" "n + 1"]
  have o: "objects ?h xs = objects h xs" using Cons.prems(2) by (auto simp: objects_def)
  have x: "objects h (x # xs) = object_of x (cbody c) # objects h xs" using c(2) by (simp add: objects_def)
  have e: "(\<lambda>p. if p \<in> set xs \<and> reported (object_of p (cbody (the (?h p)))) then map_option (\<lambda>c. c\<lparr>cuiRef := cuiRef c + 1\<rparr>) (?h p) else ?h p)
      = (\<lambda>p. if p \<in> set (x # xs) \<and> reported (object_of p (cbody (the (h p)))) then map_option (\<lambda>c. c\<lparr>cuiRef := cuiRef c + 1\<rparr>) (h p) else h p)"
    using Cons.prems(2) c(2) by (auto simp: fun_eq_iff)
  show ?case
    using IH[unfolded e o] Cons.prems(2,3) c x by (auto simp: Let_def)
qed

section \<open>Resurrecting unreachable objects\<close>

lemma marking_unmark:
  assumes "marking h0 xs ys s" "gc_heap h0"
  shows "map_option (\<lambda>c. (cuiRef (UnMark c), cbody c)) (gobjs s p) = map_option (\<lambda>c. (cuiRef c, cbody c)) (h0 p)"
proof (cases "h0 p")
  case None
  then have "p \<notin> dom (gobjs s)" unfolding marking_dom[OF assms(1)] by blast
  with None show ?thesis by (simp add: domIff)
next
  case (Some c0)
  obtain c where c: "gobjs s p = Some c" "cuiRef c = cuiRef c0 \<or> cuiRef c = or (cuiRef c0) MARK_FLAG"
    by (rule marking_refs[OF assms(1) Some])
  have "cuiRef c0 < 0x80000000" using assms(2) Some by (auto simp: gc_heap_def)
  then have "cuiRef (UnMark c) = cuiRef c0" using c(2) flag_bits(2,3)[of "cuiRef c0"] by (auto simp: UnMark_def)
  moreover have "cbody c = cbody c0" using marking_body[OF assms(1) c(1)] Some by auto
  ultimately show ?thesis using c(1) Some by simp
qed

text \<open>Splicing the chain of unreachable objects in front of the other.\<close>

lemma splice_ok:
  assumes "chain_of h (Some t) xs" "xs \<noteq> []" "chain_of h gc ys" "distinct (xs @ ys)"
  obtains h' where "splice (last xs) gc h = Some h'" "chain_of h' (Some t) (xs @ ys)"
    "same_bodies h h'"
proof -
  obtain as l where xs: "xs = as @ [l]" using assms(2) by (metis append_butlast_last_id)
  obtain cl where cl: "h l = Some cl" using dseg_dom[OF assms(1), of l] xs by auto
  let ?h1 = "h(l \<mapsto> cl\<lparr>cnext := gc\<rparr>)"
  have d: "l \<notin> set as" "l \<notin> set ys" "distinct ys" "set as \<inter> set ys = {}" using assms(4) xs by auto
  have x1: "dseg ?h1 None (Some t) xs gc"
    unfolding xs by (rule dseg_back[OF assms(1)[unfolded xs], where c = cl and c' = "cl\<lparr>cnext := gc\<rparr>"]) (use cl d in \<open>auto intro!: same_links_upd\<close>)
  have y1: "chain_of ?h1 gc ys" by (rule dseg_cong[OF assms(3)]) (use d in \<open>auto intro!: same_links_upd\<close>)
  have b1: "same_bodies h ?h1" by (rule same_bodies_upd[where c = cl]) (simp_all add: cl)
  show thesis
  proof (cases ys)
    case Nil
    then have "splice (last xs) gc h = Some ?h1" using y1 cl xs by (simp add: splice_def update_some)
    then show thesis by (rule that) (use x1 y1 Nil b1 in auto)
  next
    case (Cons q ys')
    then obtain cq where cq: "gc = Some q" "?h1 q = Some cq" using y1 by auto
    let ?h2 = "?h1(q \<mapsto> cq\<lparr>cprev := Some l\<rparr>)"
    have "splice (last xs) gc h = Some ?h2" using cq cl xs by (simp add: splice_def update_some del: fun_upd_apply)
    moreover have "dseg ?h2 (Some l) gc ys None"
      unfolding Cons by (rule dseg_front[OF y1[unfolded Cons] _ cq(2), where c' = "cq\<lparr>cprev := Some l\<rparr>"]) (use d Cons in \<open>simp_all add: same_links_upd del: fun_upd_apply\<close>, simp)
    moreover have "dseg ?h2 None (Some t) xs gc" by (rule dseg_cong[OF x1], rule same_links_upd) (use d Cons xs in auto)
    ultimately show thesis
    proof (rule_tac that)
      show "chain_of ?h2 (Some t) (xs @ ys)" if "dseg ?h2 (Some l) gc ys None" "dseg ?h2 None (Some t) xs gc"
        using that xs unfolding dseg_append by auto
      show "same_bodies h ?h2" by (rule same_bodies_upd[OF b1 cq(2)]) simp_all
    qed
  qed
qed

text \<open>The heap afterwards: links apart, the objects are what they were, with one more reference to each reported one.\<close>

definition references :: "gcheap \<Rightarrow> ptr \<Rightarrow> (64 word \<times> gcbody) option" where
  "references h p = map_option (\<lambda>c. (cuiRef c, cbody c)) (h p)"

lemma references_bodies: "same_bodies h h' \<Longrightarrow> references h' p = references h p"
  unfolding same_bodies_def references_def by (cases "h p"; cases "h' p") (auto dest!: spec[of _ p])

definition unflag :: "64 word \<times> gcbody \<Rightarrow> 64 word \<times> gcbody" where
  "unflag nb = (and (fst nb) 0x7FFFFFFF, snd nb)"

lemma unmark_all:
  assumes "chain_of h start xs" "distinct xs" "set xs = dom h" "length xs \<le> k"
  obtains h' where "unmark_loop k start h = Some h'" "chain_of h' start xs" "dom h' = dom h" "\<And>p. references h' p = map_option unflag (references h p)"
proof -
  let ?h = "\<lambda>p. if p \<in> set xs then map_option UnMark (h p) else h p"
  have e: "unmark_loop k start h = Some ?h" by (rule unmark_loop_ok[OF assms(1,2,4)])
  moreover have "chain_of ?h start xs"
    by (rule dseg_cong[OF assms(1)]) (auto simp: same_links_def UnMark_def option.map_comp comp_def)
  moreover have "dom ?h = dom h" by (auto simp: dom_def)
  moreover have "references ?h p = map_option unflag (references h p)" for p
    using assms(3) by (cases "h p") (auto simp: references_def UnMark_def unflag_def)
  ultimately show thesis by (rule that)
qed

lemma marking_unflag:
  assumes "marking h0 xs ys s" "gc_heap h0"
  shows "map_option unflag (references (gobjs s) p) = references h0 p"
proof -
  have "map_option unflag (references (gobjs s) p) = map_option (\<lambda>c. (cuiRef (UnMark c), cbody c)) (gobjs s p)"
    by (simp add: references_def unflag_def UnMark_def option.map_comp comp_def)
  with marking_unmark[OF assms, of p] show ?thesis by (simp add: references_def)
qed

lemma marking_unmarked:
  assumes "marking h0 xs ys s" "p \<notin> marked (gobjs s)"
  shows "references (gobjs s) p = references h0 p"
proof (cases "gobjs s p")
  case None
  then have "p \<notin> dom h0" using marking_dom[OF assms(1)] by blast
  with None show ?thesis by (simp add: references_def domIff)
next
  case (Some c)
  obtain c0 where c0: "h0 p = Some c0" "cbody c0 = cbody c" using marking_body[OF assms(1) Some] by blast
  obtain c' where "gobjs s p = Some c'" "cuiRef c' = cuiRef c0 \<or> cuiRef c' = or (cuiRef c0) MARK_FLAG"
    by (rule marking_refs[OF assms(1) c0(1)])
  then have "cuiRef c = cuiRef c0" using Some assms(2) flag_set[of "cuiRef c0"] by (auto simp: marked_def has_mark_def)
  then show ?thesis using Some c0 by (simp add: references_def)
qed

lemma resurrect_ok:
  assumes gc: "gc_heap (gobjs s)" and chain: "chain_of (gobjs s) (ggc_chain s) xs" "distinct xs" "set xs = dom (gobjs s)"
    and roots: "targets (root_objects r) \<subseteq> dom (gobjs s)" and k: "length xs + 1 < k" and ap: "gobjs s ap = None"
    and refs: "\<And>p c. gobjs s p = Some c \<Longrightarrow> cuiRef c < 0x7FFFFFFF"
  defines "dead \<equiv> filter (\<lambda>p. p \<notin> reach (gobjs s) (targets (root_objects r))) xs"
  defines "ret \<equiv> filter reported (objects (gobjs s) dead)"
  shows "\<exists>s'. ResurrectUnreachable k ap r s = Some (length dead, if dead = [] then ONull else OArray ap, s')
     \<and> (\<exists>zs. chain_of (gobjs s') (ggc_chain s') zs \<and> distinct zs \<and> set zs = dom (gobjs s'))
     \<and> (\<forall>p. references (gobjs s') p =
          (if dead \<noteq> [] \<and> p = ap then Some (1, GcArray ret)
           else if p \<in> set dead \<and> reported (object_of p (cbody (the (gobjs s p)))) then map_option (\<lambda>(n, b). (n + 1, b)) (references (gobjs s) p)
           else references (gobjs s) p))"
proof -
  let ?h = "gobjs s" and ?s0 = "s\<lparr>gtchain := None\<rparr>"
  let ?R = "reach ?h (targets (root_objects r))"
  have card: "card (dom ?h) = length xs" using chain(2,3) by (metis distinct_card)
  obtain s1 ys where run: "RunMark k r ?s0 = Some s1" and mk: "marking ?h dead ys s1" and R: "marked (gobjs s1) = ?R" "set ys = ?R"
    using RunMark_ok[of ?s0 xs r k] gc chain roots k card by (auto simp: dead_def)
  have d: "chain_of (gobjs s1) (ggc_chain s1) dead" "chain_of (gobjs s1) (gtchain s1) ys" "distinct (dead @ ys)" "set (dead @ ys) = dom ?h"
    using mk by (simp_all add: marking_def)
  have dom1: "dom (gobjs s1) = dom ?h" by (rule marking_dom[OF mk])
  have len: "length (dead @ ys) = length xs" using d(3,4) card by (metis distinct_card)
  have unf: "map_option unflag (references (gobjs s1) p) = references ?h p" for p by (rule marking_unflag[OF mk gc])
  show ?thesis
  proof (cases dead)
    case Nil
    then have "ggc_chain s1 = None" "set ys = dom (gobjs s1)" "length ys \<le> k" using d(1,4) dom1 len k by auto
    moreover obtain h' where h': "unmark_loop k (gtchain s1) (gobjs s1) = Some h'" "chain_of h' (gtchain s1) ys" "dom h' = dom (gobjs s1)"
      "\<And>p. references h' p = map_option unflag (references (gobjs s1) p)"
      using unmark_all[OF d(2)] d(3) calculation by auto
    ultimately have "ResurrectUnreachable k ap r s = Some (0, ONull, \<lparr>gobjs = h', ggc_chain = gtchain s1, gtchain = gtchain s1\<rparr>)"
      using run by (simp add: ResurrectUnreachable_def)
    moreover have "chain_of h' (gtchain s1) ys \<and> distinct ys \<and> set ys = dom h'" using h' d(3,4) dom1 Nil by auto
    ultimately show ?thesis using Nil h'(4) unf by fastforce
  next
    case (Cons t dead')
    then have t: "ggc_chain s1 = Some t" using d(1) by auto
    have apd: "ap \<notin> set (dead @ ys)" using ap d(4) by auto
    let ?h1 = "(gobjs s1)(ap \<mapsto> \<lparr>cuiRef = 1, cnext = None, cprev = None, cbody = GcArray []\<rparr>)"
    have ys1: "chain_of ?h1 (gtchain s1) ys" by (rule dseg_cong[OF d(2)]) (use apd in \<open>simp add: same_links_upd\<close>)
    obtain h2 where h2: "new_array ap s1 = Some (h2, Some ap)" "chain_of h2 (Some ap) (ap # ys)"
      "same_links (- set (ap # ys)) ?h1 h2" "same_bodies ?h1 h2"
      using AddToChain_ok[OF ys1, of ap] apd d(3) by (auto simp: new_array_def)
    have refs2: "references h2 p = references ?h1 p" for p by (rule references_bodies[OF h2(4)])
    have dead1: "chain_of ?h1 (Some t) dead" by (rule dseg_cong[OF d(1)[unfolded t]]) (use apd in \<open>simp add: same_links_upd\<close>)
    have dead2: "chain_of h2 (Some t) dead" by (rule dseg_cong[OF dead1]) (use h2(3) d(3) apd in \<open>auto elim!: same_links_mono\<close>)
    have body2: "cbody (the (h2 p)) = cbody (the (?h p))" if "p \<in> set dead" for p
    proof -
      have "map_option cbody (h2 p) = map_option cbody (?h1 p)" using h2(4) by (simp add: same_bodies_def)
      also have "\<dots> = map_option cbody (?h p)" using mk apd that by (auto simp: marking_def)
      finally show ?thesis using that d(4) by (cases "h2 p"; cases "?h p") auto
    qed
    let ?h3 = "\<lambda>p. if p \<in> set dead \<and> reported (object_of p (cbody (the (h2 p)))) then map_option (\<lambda>c. c\<lparr>cuiRef := cuiRef c + 1\<rparr>) (h2 p) else h2 p"
    have "objects h2 dead = objects ?h dead" using body2 by (simp add: objects_def)
    then have loop: "resurrect_loop k (Some t) None h2 [] 0 = Some (?h3, ret, length dead, Some (last dead))"
      using resurrect_loop_ok[OF dead2, of k None "[]" 0] d(3) len k Cons by (simp add: ret_def)
    have l3: "same_links A h2 ?h3" for A by (auto simp: same_links_def option.map_comp comp_def)
    obtain ca where ca: "h2 ap = Some ca" using dseg_dom[OF h2(2), of ap] by auto
    then have ca3: "?h3 ap = Some ca" using apd by simp
    let ?h4 = "?h3(ap \<mapsto> ca\<lparr>cbody := GcArray ret\<rparr>)"
    have l4: "same_links A h2 ?h4" for A using l3[of A] ca by (auto simp: same_links_def)
    have upd: "update ap (\<lambda>x. x\<lparr>cbody := GcArray ret\<rparr>) ?h3 = Some ?h4" using ca3 by (simp add: update_def)
    have dead4: "chain_of ?h4 (Some t) dead" by (rule dseg_cong[OF dead2 l4])
    have ys4: "chain_of ?h4 (Some ap) (ap # ys)" by (rule dseg_cong[OF h2(2) l4])
    obtain h5 where h5: "splice (last dead) (Some ap) ?h4 = Some h5" "chain_of h5 (Some t) (dead @ ap # ys)" "same_bodies ?h4 h5"
      by (rule splice_ok[OF dead4 _ ys4]) (use Cons apd d(3) in auto)
    have dom5: "dom h5 = insert ap (dom ?h)"
    proof -
      have "dom h2 = insert ap (dom ?h)" using same_bodies_dom[OF h2(4)] dom1 by simp
      moreover have "dom ?h3 = dom h2" by (auto simp: dom_def)
      ultimately have "dom ?h4 = insert ap (dom ?h)" unfolding dom_fun_upd by simp
      then show ?thesis using same_bodies_dom[OF h5(3)] by simp
    qed
    obtain h6 where h6: "unmark_loop (Suc k) (Some t) h5 = Some h6" "chain_of h6 (Some t) (dead @ ap # ys)" "dom h6 = dom h5"
      "\<And>p. references h6 p = map_option unflag (references h5 p)"
      by (rule unmark_all[OF h5(2), of "Suc k"]) (use apd d(3,4) dom5 len k in auto)
    have res: "ResurrectUnreachable k ap r s = Some (length dead, OArray ap, \<lparr>gobjs = h6, ggc_chain = Some t, gtchain = gtchain s1\<rparr>)"
      using run t h2(1) loop upd h5(1) h6(1) by (simp add: ResurrectUnreachable_def)
    have ref4: "references h5 p = references ?h4 p" for p by (rule references_bodies[OF h5(3)])
    have final: "references h6 p = (if p = ap then Some (1, GcArray ret)
           else if p \<in> set dead \<and> reported (object_of p (cbody (the (?h p)))) then map_option (\<lambda>(n, b). (n + 1, b)) (references ?h p)
           else references ?h p)" for p
    proof -
      consider "p = ap" | "p \<noteq> ap" "p \<in> set dead" "reported (object_of p (cbody (the (?h p))))" | "p \<noteq> ap" "\<not> (p \<in> set dead \<and> reported (object_of p (cbody (the (?h p)))))" by blast
      then show ?thesis
      proof cases
        case 1
        have "cuiRef ca = 1" using refs2[of ap] ca by (simp add: references_def)
        then have "references ?h4 ap = Some (1, GcArray ret)" by (simp add: references_def)
        then show ?thesis using 1 by (simp add: h6(4) ref4 unflag_def)
      next
        case 2
        then have "p \<notin> marked (gobjs s1)" using d(3) R by auto
        then have r1: "references (gobjs s1) p = references ?h p" by (rule marking_unmarked[OF mk])
        have "references ?h4 p = map_option (\<lambda>(n, b). (n + 1, b)) (references h2 p)"
          using 2 body2[OF 2(2)] by (simp add: references_def option.map_comp comp_def)
        also have "references h2 p = references ?h p" using refs2[of p] r1 2(1) by (simp add: references_def)
        finally have r5: "references h5 p = map_option (\<lambda>(n, b). (n + 1, b)) (references ?h p)" unfolding ref4 .
        obtain c where c: "?h p = Some c" using 2(2) d(4) by auto
        have "cuiRef c + 1 < 0x80000000" using refs[OF c] by unat_arith
        then have "and (cuiRef c + 1) 0x7FFFFFFF = cuiRef c + 1" by (rule flag_bits(3))
        moreover have "references ?h p = Some (cuiRef c, cbody c)" using c by (simp add: references_def)
        ultimately show ?thesis using 2 by (simp add: h6(4) r5 unflag_def)
      next
        case 3
        have "references ?h4 p = references h2 p" using 3 body2[of p] by (auto simp: references_def)
        also have "\<dots> = references (gobjs s1) p" using refs2[of p] 3(1) by (simp add: references_def)
        finally have "references h6 p = references ?h p" by (simp add: h6(4) ref4 unf)
        then show ?thesis using 3 by auto
      qed
    qed
    let ?s = "\<lparr>gobjs = h6, ggc_chain = Some t, gtchain = gtchain s1\<rparr>"
    have zs: "chain_of (gobjs ?s) (ggc_chain ?s) (dead @ ap # ys) \<and> distinct (dead @ ap # ys) \<and> set (dead @ ap # ys) = dom (gobjs ?s)"
      using h6(2,3) apd d(3,4) dom5 by auto
    have ne: "dead \<noteq> []" using Cons by simp
    show ?thesis
    proof (rule exI[of _ ?s], intro conjI allI)
      show "ResurrectUnreachable k ap r s = Some (length dead, if dead = [] then ONull else OArray ap, ?s)" using res ne by (simp only: if_False)
      show "\<exists>zs. chain_of (gobjs ?s) (ggc_chain ?s) zs \<and> distinct zs \<and> set zs = dom (gobjs ?s)" using zs by blast
    qed (simp only: gcstate.simps final ne simp_thms)
  qed
qed

section \<open>Properties\<close>

text \<open>A heap in order: the chain holds every object once, what the objects and the roots mark exists, no object is marked,
  and the reference counts leave room for one more below the mark.\<close>

definition collector_ok :: "gcroots \<Rightarrow> ptr list \<Rightarrow> gcstate \<Rightarrow> bool" where
  "collector_ok r xs s \<longleftrightarrow> gc_heap (gobjs s) \<and> chain_of (gobjs s) (ggc_chain s) xs \<and> distinct xs \<and> set xs = dom (gobjs s)
     \<and> targets (root_objects r) \<subseteq> dom (gobjs s) \<and> (\<forall>p c. gobjs s p = Some c \<longrightarrow> cuiRef c < 0x7FFFFFFF)"

text \<open>The objects of the chain that no path of marks from the roots reaches.\<close>

definition unreachable :: "gcroots \<Rightarrow> ptr list \<Rightarrow> gcstate \<Rightarrow> ptr list" where
  "unreachable r xs s = filter (\<lambda>p. p \<notin> reach (gobjs s) (targets (root_objects r))) xs"

text \<open>C6: \<open>ResurrectUnreachable\<close> returns and finds every unreachable object and no other: it answers their number and an array of
  them (prototypes and captured variables apart) in the order of the chain, or null when there is none.  Afterwards the chain
  holds all objects and the new array, no mark is left, the objects are what they were, and only those in the array have
  one more reference.\<close>

theorem resurrect_finds_unreachable:
  assumes "collector_ok r xs s" "length xs + 1 < k" "gobjs s ap = None"
  shows "\<exists>s'. ResurrectUnreachable k ap r s = Some (length (unreachable r xs s), if unreachable r xs s = [] then ONull else OArray ap, s')
     \<and> (\<exists>zs. chain_of (gobjs s') (ggc_chain s') zs \<and> distinct zs \<and> set zs = dom (gobjs s'))
     \<and> (\<forall>p. references (gobjs s') p =
          (if unreachable r xs s \<noteq> [] \<and> p = ap then Some (1, GcArray (filter reported (objects (gobjs s) (unreachable r xs s))))
           else if p \<in> set (unreachable r xs s) \<and> reported (object_of p (cbody (the (gobjs s p))))
             then map_option (\<lambda>(n, b). (n + 1, b)) (references (gobjs s) p)
           else references (gobjs s) p))"
  using resurrect_ok[of s xs r k ap] assms unfolding collector_ok_def unreachable_def by blast

text \<open>A thread with its root table, an array that nothing refers to.\<close>

definition gc_example :: gcstate where
  "gc_example = \<lparr>gobjs = [1 \<mapsto> \<lparr>cuiRef = 1, cnext = None, cprev = Some 2, cbody = GcVM ONull ONull ONull (OTable 2) ONull [] []\<rparr>,
     2 \<mapsto> \<lparr>cuiRef = 1, cnext = Some 1, cprev = Some 3, cbody = GcTable None [(OInteger 1, OTable 2)]\<rparr>,
     3 \<mapsto> \<lparr>cuiRef = 1, cnext = Some 2, cprev = None, cbody = GcArray [OArray 3]\<rparr>], ggc_chain = Some 3, gtchain = None\<rparr>"

definition gc_example_roots :: gcroots where
  "gc_example_roots = \<lparr>root_vm = 1, refs_table = [ONull], registry = OTable 2, const_table = OTable 2, metamethodsmap = OTable 2, default_delegates = []\<rparr>"

lemma gc_example_ok: "collector_ok gc_example_roots [3, 2, 1] gc_example"
proof -
  have d: "dom (gobjs gc_example) = {1, 2, 3}" by (auto simp: gc_example_def dom_def split: if_splits)
  have "gc_heap (gobjs gc_example)" by (auto simp: gc_heap_def gc_example_def targets_def split: if_splits)
  moreover have "targets (root_objects gc_example_roots) \<subseteq> {1, 2, 3}" by (auto simp: targets_def root_objects_def gc_example_roots_def)
  moreover have "chain_of (gobjs gc_example) (ggc_chain gc_example) [3, 2, 1]" by (simp add: gc_example_def)
  moreover have "\<forall>p c. gobjs gc_example p = Some c \<longrightarrow> cuiRef c < 0x7FFFFFFF" by (auto simp: gc_example_def split: if_splits)
  ultimately show ?thesis unfolding collector_ok_def d by (simp add: insert_commute)
qed

lemma gc_example_run: "map_option (\<lambda>(n, x, _). (n, x)) (ResurrectUnreachable 5 9 gc_example_roots gc_example) = Some (1, OArray 9)"
  by code_simp

lemma resurrect_finds_unreachable_witness: "length (unreachable gc_example_roots [3, 2, 1] gc_example) = 1"
  using resurrect_finds_unreachable[OF gc_example_ok, of 5 9] gc_example_run
  by (auto simp: gc_example_def)

end
