(* ===== verification/GS_RefTable.thy ===== *)
theory GS_RefTable
  imports GS_Table
begin

text \<open>
  The table of references the host holds (\<open>RefTable\<close> of GSstate.h and GSstate.cpp, \<open>GS_addref\<close> and its companions of
  GSapi.cpp): an array of nodes, chained from buckets by the hash of their object or from the list of free nodes.

  Nodes are numbers, None is the null pointer; an operation is None where the code follows a null or wild pointer or
  a chain has no end.  \<open>ref_inv\<close> is the invariant, \<open>held\<close> the multiset of references; the locale
  \<open>reference_counter\<close> states what a counter of references promises.
\<close>

section \<open>State\<close>

record refnode =
  refobj :: gsobj
  refs :: "64 word"
  refnext :: "nat option"

record reftable =
  rbuckets :: "nat option list"
  rtnodes :: "refnode list"
  rfreelist :: "nat option"
  rslotused :: nat
  rnumofslots :: nat

section \<open>Operations\<close>

definition RefAllocNodes :: "nat \<Rightarrow> reftable" where
  "RefAllocNodes size' =
     \<lparr>rbuckets = replicate size' None,
      rtnodes = map (\<lambda>i. \<lparr>refobj = ONull, refs = 0, refnext = (if i + 1 < size' then Some (i + 1) else None)\<rparr>) [0..<size'],
      rfreelist = Some 0, rslotused = 0, rnumofslots = size'\<rparr>"

definition new_reftable :: reftable where
  "new_reftable = RefAllocNodes 4"

definition ref_mainpos :: "(ptr \<Rightarrow> gshash) \<Rightarrow> nat \<Rightarrow> gsobj \<Rightarrow> nat" where
  "ref_mainpos sh n obj = unat (HashObj sh obj AND of_nat (n - 1))"

text \<open>The loop of \<open>Get\<close>; the answer is \<open>prev\<close> and \<open>ref\<close>.\<close>

fun ref_walk :: "nat \<Rightarrow> refnode list \<Rightarrow> gsobj \<Rightarrow> nat option \<Rightarrow> nat option \<Rightarrow> (nat option \<times> nat option) option" where
  "ref_walk 0 ns obj prev ref = None"
| "ref_walk (Suc k) ns obj prev ref =
     (case ref of
        None \<Rightarrow> Some (prev, None)
      | Some r \<Rightarrow>
          if \<not> r < length ns then None
          else if same_raw (refobj (ns ! r)) obj then Some (prev, Some r)
          else ref_walk k ns obj (Some r) (refnext (ns ! r)))"

definition RefAdd :: "nat \<Rightarrow> gsobj \<Rightarrow> reftable \<Rightarrow> (reftable \<times> nat) option" where
  "RefAdd mpos obj t =
     (case rfreelist t of
        None \<Rightarrow> None
      | Some n \<Rightarrow>
          if n < length (rtnodes t) \<and> mpos < length (rbuckets t) then
            Some (t\<lparr>rbuckets := (rbuckets t)[mpos := Some n],
                    rfreelist := refnext (rtnodes t ! n),
                    rtnodes := (rtnodes t)[n := (rtnodes t ! n)\<lparr>refobj := obj, refnext := rbuckets t ! mpos\<rparr>],
                    rslotused := rslotused t + 1\<rparr>, n)
          else None)"

definition set_refs :: "nat \<Rightarrow> 64 word \<Rightarrow> reftable \<Rightarrow> reftable" where
  "set_refs i c t = t\<lparr>rtnodes := (rtnodes t)[i := (rtnodes t ! i)\<lparr>refs := c\<rparr>]\<rparr>"

fun ref_rehash :: "(ptr \<Rightarrow> gshash) \<Rightarrow> refnode list \<Rightarrow> reftable \<Rightarrow> reftable option" where
  "ref_rehash sh [] t = Some t"
| "ref_rehash sh (nd # ns) t =
     (if type_of (refobj nd) \<noteq> OT_NULL then
        (case RefAdd (ref_mainpos sh (rnumofslots t) (refobj nd)) (refobj nd) t of
           None \<Rightarrow> None
         | Some (t1, nn) \<Rightarrow> ref_rehash sh ns (set_refs nn (refs nd) t1))
      else ref_rehash sh ns t)"

definition RefResize :: "(ptr \<Rightarrow> gshash) \<Rightarrow> nat \<Rightarrow> reftable \<Rightarrow> reftable option" where
  "RefResize sh size' t = ref_rehash sh (rtnodes t) (RefAllocNodes size')"

text \<open>\<open>Get\<close>: the table, \<open>mainpos\<close>, \<open>prev\<close> and the node.\<close>

definition RefGet :: "(ptr \<Rightarrow> gshash) \<Rightarrow> gsobj \<Rightarrow> bool \<Rightarrow> reftable \<Rightarrow> (reftable \<times> nat \<times> nat option \<times> nat option) option" where
  "RefGet sh obj add t =
     (let mp = ref_mainpos sh (rnumofslots t) obj in
      if \<not> mp < length (rbuckets t) then None
      else case ref_walk (Suc (length (rtnodes t))) (rtnodes t) obj None (rbuckets t ! mp) of
        None \<Rightarrow> None
      | Some (prev, ref) \<Rightarrow>
          if ref = None \<and> add then
            (if rnumofslots t = rslotused t then
               (case RefResize sh (rnumofslots t * 2) t of
                  None \<Rightarrow> None
                | Some t1 \<Rightarrow>
                    let mp1 = ref_mainpos sh (rnumofslots t1) obj in
                    map_option (\<lambda>(t2, i). (t2, mp1, prev, Some i)) (RefAdd mp1 obj t1))
             else map_option (\<lambda>(t2, i). (t2, mp, prev, Some i)) (RefAdd mp obj t))
          else Some (t, mp, prev, ref))"

definition RefAddRef :: "(ptr \<Rightarrow> gshash) \<Rightarrow> gsobj \<Rightarrow> reftable \<Rightarrow> reftable option" where
  "RefAddRef sh obj t =
     (case RefGet sh obj True t of
        Some (t1, _, _, Some i) \<Rightarrow> Some (set_refs i (refs (rtnodes t1 ! i) + 1) t1)
      | _ \<Rightarrow> None)"

definition RefGetRefCount :: "(ptr \<Rightarrow> gshash) \<Rightarrow> gsobj \<Rightarrow> reftable \<Rightarrow> (64 word) option" where
  "RefGetRefCount sh obj t =
     map_option (\<lambda>(t1, _, _, ref). case ref of Some i \<Rightarrow> refs (rtnodes t1 ! i) | None \<Rightarrow> 0) (RefGet sh obj False t)"

text \<open>\<open>Release\<close>; without assertions an object that is not in the table changes nothing.\<close>

definition RefRelease :: "(ptr \<Rightarrow> gshash) \<Rightarrow> gsobj \<Rightarrow> reftable \<Rightarrow> (reftable \<times> bool) option" where
  "RefRelease sh obj t =
     map_option (\<lambda>(t1, mp, prev, ref).
       case ref of
         None \<Rightarrow> (t1, False)
       | Some i \<Rightarrow>
           let c = refs (rtnodes t1 ! i) - 1; t2 = set_refs i c t1 in
           if c = 0 then
             let next' = refnext (rtnodes t2 ! i);
                 t3 = (case prev of
                         Some q \<Rightarrow> t2\<lparr>rtnodes := (rtnodes t2)[q := (rtnodes t2 ! q)\<lparr>refnext := next'\<rparr>]\<rparr>
                       | None \<Rightarrow> t2\<lparr>rbuckets := (rbuckets t2)[mp := next']\<rparr>)
             in (t3\<lparr>rtnodes := (rtnodes t3)[i := (rtnodes t3 ! i)\<lparr>refnext := rfreelist t3, refobj := ONull\<rparr>],
                    rfreelist := Some i, rslotused := rslotused t3 - 1\<rparr>, True)
           else (t2, False)) (RefGet sh obj False t)"

text \<open>What \<open>Mark\<close> passes to the collector, and \<open>Finalize\<close>.\<close>

definition RefMark :: "reftable \<Rightarrow> gsobj list" where
  "RefMark t = filter (\<lambda>obj. type_of obj \<noteq> OT_NULL) (map refobj (rtnodes t))"

definition RefFinalize :: "reftable \<Rightarrow> reftable" where
  "RefFinalize t = t\<lparr>rtnodes := map (\<lambda>nd. nd\<lparr>refobj := ONull\<rparr>) (rtnodes t)\<rparr>"

text \<open>The functions of the API: only objects that are counted take part.\<close>

definition GS_addref :: "(ptr \<Rightarrow> gshash) \<Rightarrow> gsobj \<Rightarrow> reftable \<Rightarrow> reftable option" where
  "GS_addref sh po t = (if \<not> is_refcounted (type_of po) then Some t else RefAddRef sh po t)"

definition GS_getrefcount :: "(ptr \<Rightarrow> gshash) \<Rightarrow> gsobj \<Rightarrow> reftable \<Rightarrow> (64 word) option" where
  "GS_getrefcount sh po t = (if \<not> is_refcounted (type_of po) then Some 0 else RefGetRefCount sh po t)"

definition GS_release :: "(ptr \<Rightarrow> gshash) \<Rightarrow> gsobj \<Rightarrow> reftable \<Rightarrow> (reftable \<times> bool) option" where
  "GS_release sh po t = (if \<not> is_refcounted (type_of po) then Some (t, True) else RefRelease sh po t)"

section \<open>Chains\<close>

fun linked :: "refnode list \<Rightarrow> nat option \<Rightarrow> nat list \<Rightarrow> bool" where
  "linked ns p [] = (p = None)"
| "linked ns p (x # xs) = (p = Some x \<and> x < length ns \<and> linked ns (refnext (ns ! x)) xs)"

lemma linked_bound: "linked ns p xs \<Longrightarrow> x \<in> set xs \<Longrightarrow> x < length ns"
  by (induction xs arbitrary: p) auto

lemma linked_outside: "x \<notin> set xs \<Longrightarrow> linked (ns[x := nd]) p xs = linked ns p xs"
  by (induction xs arbitrary: p) auto

lemma linked_next: "refnext nd = refnext (ns ! x) \<Longrightarrow> linked (ns[x := nd]) p xs = linked ns p xs"
proof -
  assume "refnext nd = refnext (ns ! x)"
  then have n: "y < length ns \<Longrightarrow> refnext (ns[x := nd] ! y) = refnext (ns ! y)" for y
    by (cases "x = y") simp_all
  show ?thesis
  proof (induction xs arbitrary: p)
    case (Cons y xs)
    then show ?case using n[of y] by (cases "y < length ns") simp_all
  qed simp
qed

text \<open>Taking a node out of a chain.\<close>

lemma linked_cut:
  assumes "linked ns p (ys @ x # zs)" "distinct (ys @ x # zs)" "ys \<noteq> []" "refnext nd = refnext (ns ! x)"
  shows "linked (ns[last ys := nd]) p (ys @ zs)"
  using assms(1-3)
proof (induction ys arbitrary: p)
  case (Cons y ys)
  show ?case
  proof (cases "ys = []")
    case True
    with Cons.prems assms(4) show ?thesis by (auto simp: linked_outside)
  next
    case False
    then have "y \<noteq> last ys" using Cons.prems(2) last_in_set[OF False] by auto
    with Cons False show ?thesis by auto
  qed
qed simp


lemma ref_walk_linked:
  "linked ns p xs \<Longrightarrow> length xs < k \<Longrightarrow>
   (if \<exists>x \<in> set xs. refobj (ns ! x) = obj
    then \<exists>ys x zs. xs = ys @ x # zs \<and> refobj (ns ! x) = obj \<and>
           ref_walk k ns obj prev p = Some (if ys = [] then prev else Some (last ys), Some x)
    else \<exists>q. ref_walk k ns obj prev p = Some (q, None))"
proof (induction xs arbitrary: k p prev)
  case Nil
  then show ?case by (cases k) auto
next
  case (Cons x xs)
  then obtain k' where k: "k = Suc k'" by (cases k) auto
  show ?case
  proof (cases "refobj (ns ! x) = obj")
    case True
    with Cons.prems k show ?thesis by (auto intro!: exI[of _ "[]"])
  next
    case False
    with Cons.prems k have w: "ref_walk k ns obj prev p = ref_walk k' ns obj (Some x) (refnext (ns ! x))" by simp
    have l: "linked ns (refnext (ns ! x)) xs" "length xs < k'" using Cons.prems k by auto
    show ?thesis
    proof (cases "\<exists>y \<in> set xs. refobj (ns ! y) = obj")
      case True
      with Cons.IH[OF l, of "Some x"] obtain ys y zs where
        "xs = ys @ y # zs" "refobj (ns ! y) = obj" "ref_walk k' ns obj (Some x) (refnext (ns ! x)) = Some (if ys = [] then Some x else Some (last ys), Some y)"
        by auto
      moreover from True have ex: "\<exists>z \<in> set (x # xs). refobj (ns ! z) = obj" by auto
      ultimately show ?thesis unfolding if_P[OF ex] w
        by (intro exI[of _ "x # ys"] exI[of _ y] exI[of _ zs]) simp
    next
      case none: False
      with Cons.IH[OF l, of "Some x"] False show ?thesis unfolding w by auto
    qed
  qed
qed

section \<open>Invariant\<close>

text \<open>\<open>cs i\<close> are the nodes chained from bucket \<open>i\<close>, \<open>fl\<close> the free ones; \<open>N\<close>, \<open>B\<close> and \<open>n\<close> are the nodes, the buckets
  and the number of slots.\<close>

definition chains_ok :: "(ptr \<Rightarrow> gshash) \<Rightarrow> refnode list \<Rightarrow> nat option list \<Rightarrow> nat \<Rightarrow> (nat \<Rightarrow> nat list) \<Rightarrow> bool" where
  "chains_ok sh N B n cs \<longleftrightarrow>
     (\<forall>i < n. linked N (B ! i) (cs i) \<and> distinct (cs i) \<and>
        set (cs i) = {x. x < n \<and> refobj (N ! x) \<noteq> ONull \<and> ref_mainpos sh n (refobj (N ! x)) = i})"

definition free_ok :: "refnode list \<Rightarrow> nat option \<Rightarrow> nat \<Rightarrow> nat list \<Rightarrow> bool" where
  "free_ok N p n fl \<longleftrightarrow> linked N p fl \<and> distinct fl \<and> set fl = {x. x < n \<and> refobj (N ! x) = ONull}"

definition nodes_ok :: "refnode list \<Rightarrow> nat \<Rightarrow> bool" where
  "nodes_ok N n \<longleftrightarrow>
     (\<forall>x < n. refobj (N ! x) = ONull \<longleftrightarrow> refs (N ! x) = 0) \<and>
     (\<forall>x < n. \<forall>y < n. refobj (N ! x) = refobj (N ! y) \<longrightarrow> refobj (N ! x) \<noteq> ONull \<longrightarrow> x = y)"

definition ref_inv :: "(ptr \<Rightarrow> gshash) \<Rightarrow> reftable \<Rightarrow> (nat \<Rightarrow> nat list) \<Rightarrow> nat list \<Rightarrow> bool" where
  "ref_inv sh t cs fl \<longleftrightarrow>
     length (rbuckets t) = rnumofslots t \<and> length (rtnodes t) = rnumofslots t \<and> 0 < rnumofslots t \<and>
     chains_ok sh (rtnodes t) (rbuckets t) (rnumofslots t) cs \<and>
     free_ok (rtnodes t) (rfreelist t) (rnumofslots t) fl \<and>
     nodes_ok (rtnodes t) (rnumofslots t) \<and>
     rslotused t + length fl = rnumofslots t"

definition ref_ok :: "(ptr \<Rightarrow> gshash) \<Rightarrow> reftable \<Rightarrow> bool" where
  "ref_ok sh t \<longleftrightarrow> (\<exists>cs fl. ref_inv sh t cs fl)"

text \<open>The references a table stands for.\<close>

definition node_refs :: "refnode \<Rightarrow> gsobj multiset" where
  "node_refs nd = replicate_mset (unat (refs nd)) (refobj nd)"

definition held :: "reftable \<Rightarrow> gsobj multiset" where
  "held t = sum_list (map node_refs (rtnodes t))"

lemma ref_mainpos_less: "0 < n \<Longrightarrow> ref_mainpos sh n obj < n"
proof -
  assume n: "0 < n"
  have "unat (HashObj sh obj AND of_nat (n - 1)) \<le> unat (of_nat (n - 1) :: 64 word)"
    using word_and_le1[of "HashObj sh obj" "of_nat (n - 1)"] by (simp only: word_le_nat_alt)
  also have "\<dots> \<le> n - 1" by (simp add: unat_of_nat)
  finally show ?thesis using n by (simp add: ref_mainpos_def)
qed

lemma count_sum_list: "count (sum_list (map f xs)) a = sum_list (map (\<lambda>x. count (f x) a) xs)"
  by (induction xs) auto

lemma count_held_at:
  assumes "nodes_ok (rtnodes t) n" "length (rtnodes t) = n" "x < n" "refobj (rtnodes t ! x) = obj" "obj \<noteq> ONull"
  shows "count (held t) obj = unat (refs (rtnodes t ! x))"
proof -
  let ?g = "\<lambda>i. count (node_refs (rtnodes t ! i)) obj"
  have "count (held t) obj = (\<Sum>i = 0..<n. ?g i)"
    unfolding held_def count_sum_list by (subst sum_list_sum_nth) (simp add: assms(2))
  also have "\<dots> = ?g x + (\<Sum>i \<in> {0..<n} - {x}. ?g i)"
    using assms(3) by (intro sum.remove) simp_all
  also have "(\<Sum>i \<in> {0..<n} - {x}. ?g i) = 0"
  proof (rule sum.neutral, intro ballI)
    fix i assume i: "i \<in> {0..<n} - {x}"
    then have "refobj (rtnodes t ! i) \<noteq> obj"
      using assms(1,3-5) unfolding nodes_ok_def by (metis DiffE atLeastLessThan_iff insertI1)
    then show "?g i = 0" by (simp add: node_refs_def)
  qed
  finally show ?thesis using assms(4) by (simp add: node_refs_def)
qed

lemma count_held_none:
  assumes "\<forall>nd \<in> set (rtnodes t). refobj nd \<noteq> obj"
  shows "count (held t) obj = 0"
proof -
  have "\<forall>nd \<in> set (rtnodes t). count (node_refs nd) obj = 0"
    using assms by (auto simp: node_refs_def)
  then have "sum_list (map (\<lambda>nd. count (node_refs nd) obj) (rtnodes t)) = 0"
    by (induction "rtnodes t" arbitrary: t) (auto simp: sum_list_eq_0_iff)
  then show ?thesis by (simp add: held_def count_sum_list)
qed

lemma held_update:
  assumes "i < length ns"
  shows "sum_list (map node_refs (ns[i := nd])) = sum_list (map node_refs ns) - node_refs (ns ! i) + node_refs nd"
proof -
  have 1: "ns = take i ns @ ns ! i # drop (Suc i) ns" by (rule id_take_nth_drop[OF assms])
  have 2: "ns[i := nd] = take i ns @ nd # drop (Suc i) ns" by (rule upd_conv_take_nth_drop[OF assms])
  have a: "sum_list (map node_refs ns) =
      sum_list (map node_refs (take i ns)) + (node_refs (ns ! i) + sum_list (map node_refs (drop (Suc i) ns)))"
    by (subst 1) simp
  show ?thesis unfolding 2 a by (simp add: ac_simps)
qed

section \<open>A new table\<close>

lemma linked_upto:
  "m \<le> n \<Longrightarrow> linked (map (\<lambda>i. \<lparr>refobj = ONull, refs = 0, refnext = (if i + 1 < n then Some (i + 1) else None)\<rparr>) [0..<n])
     (if m < n then Some m else None) [m..<n]"
proof (induction "n - m" arbitrary: m)
  case (Suc k)
  then have m: "m < n" "k = n - Suc m" by simp_all
  with Suc(1)[OF m(2)] show ?case by (cases "Suc m < n") (simp_all add: upt_conv_Cons[OF m(1)])
qed simp

lemma RefAllocNodes_inv:
  assumes "0 < n"
  shows "ref_inv sh (RefAllocNodes n) (\<lambda>_. []) [0..<n]" "held (RefAllocNodes n) = {#}" "rnumofslots (RefAllocNodes n) = n"
proof -
  have "linked (rtnodes (RefAllocNodes n)) (Some 0) [0..<n]"
    using linked_upto[of 0 n] assms by (simp add: RefAllocNodes_def)
  then show "ref_inv sh (RefAllocNodes n) (\<lambda>_. []) [0..<n]"
    using assms by (auto simp: ref_inv_def chains_ok_def free_ok_def nodes_ok_def RefAllocNodes_def)
  show "held (RefAllocNodes n) = {#}"
    by (simp add: held_def RefAllocNodes_def node_refs_def comp_def)
  show "rnumofslots (RefAllocNodes n) = n" by (simp add: RefAllocNodes_def)
qed

section \<open>Adding\<close>

lemma RefAdd_inv:
  assumes inv: "ref_inv sh t cs (i # fl)" and o: "obj \<noteq> ONull" "\<forall>nd \<in> set (rtnodes t). refobj nd \<noteq> obj" and c: "c \<noteq> 0"
    and t1: "RefAdd (ref_mainpos sh (rnumofslots t) obj) obj t = Some (t1, i')"
  shows "ref_inv sh (set_refs i' c t1) (cs(ref_mainpos sh (rnumofslots t) obj := i # cs (ref_mainpos sh (rnumofslots t) obj))) fl"
    and "held (set_refs i' c t1) = held t + replicate_mset (unat c) obj"
    and "refs (rtnodes t1 ! i') = 0"
    and "refobj ` set (rtnodes (set_refs i' c t1)) \<subseteq> insert obj (refobj ` set (rtnodes t))"
proof -
  let ?n = "rnumofslots t" and ?N = "rtnodes t"
  let ?m = "ref_mainpos sh ?n obj"
  from inv have len: "length (rbuckets t) = ?n" "length ?N = ?n" "0 < ?n"
    and ch: "chains_ok sh ?N (rbuckets t) ?n cs" and fr: "free_ok ?N (rfreelist t) ?n (i # fl)"
    and nd: "nodes_ok ?N ?n" and used: "rslotused t + length (i # fl) = ?n"
    by (simp_all add: ref_inv_def)
  from fr have i: "rfreelist t = Some i" "i < ?n" "refobj (?N ! i) = ONull" "i \<notin> set fl" "linked ?N (refnext (?N ! i)) fl"
    and fl: "distinct fl" "set fl = {x. x < ?n \<and> refobj (?N ! x) = ONull} - {i}"
    using len by (auto simp: free_ok_def)
  have m: "?m < ?n" using ref_mainpos_less[OF len(3)] .
  let ?nd = "\<lparr>refobj = obj, refs = c, refnext = rbuckets t ! ?m\<rparr>"
  let ?N' = "?N[i := ?nd]" and ?B' = "(rbuckets t)[?m := Some i]"
  let ?cs = "cs(?m := i # cs ?m)"
  from nd i have r0: "refs (?N ! i) = 0" by (simp add: nodes_ok_def)
  have i': "i' = i" and t1': "t1 = t\<lparr>rbuckets := ?B', rfreelist := refnext (?N ! i),
      rtnodes := ?N[i := (?N ! i)\<lparr>refobj := obj, refnext := rbuckets t ! ?m\<rparr>], rslotused := rslotused t + 1\<rparr>"
    using t1 i(1,2) m len by (auto simp: RefAdd_def)
  show "refs (rtnodes t1 ! i') = 0" using r0 i(2) len by (simp add: i' t1')
  have "set_refs i' c t1 = t\<lparr>rbuckets := ?B', rfreelist := refnext (?N ! i), rtnodes := ?N', rslotused := rslotused t + 1\<rparr>"
    using i(2) len by (cases "?N ! i") (simp add: set_refs_def i' t1')
  note new = this
  show "refobj ` set (rtnodes (set_refs i' c t1)) \<subseteq> insert obj (refobj ` set ?N)"
    using set_update_subset_insert[of ?N i ?nd] unfolding new by auto
  have at: "x < ?n \<Longrightarrow> ?N' ! x = (if x = i then ?nd else ?N ! x)" for x
    using len by (simp add: nth_list_update)
  have fresh: "x < ?n \<Longrightarrow> refobj (?N ! x) \<noteq> obj" for x using o(2) len by (metis nth_mem)
  have "chains_ok sh ?N' ?B' ?n ?cs"
    unfolding chains_ok_def
  proof (intro allI impI conjI)
    fix j assume j: "j < ?n"
    from ch j have cj: "linked ?N (rbuckets t ! j) (cs j)" "distinct (cs j)"
      "set (cs j) = {x. x < ?n \<and> refobj (?N ! x) \<noteq> ONull \<and> ref_mainpos sh ?n (refobj (?N ! x)) = j}"
      by (simp_all add: chains_ok_def)
    then have ni: "i \<notin> set (cs j)" using i(3) by simp
    show "linked ?N' (?B' ! j) (?cs j)"
      using cj(1) ni i(2) len j by (cases "j = ?m") (simp_all add: linked_outside)
    show "distinct (?cs j)" using cj(2) ni by (cases "j = ?m") auto
    show "set (?cs j) = {x. x < ?n \<and> refobj (?N' ! x) \<noteq> ONull \<and> ref_mainpos sh ?n (refobj (?N' ! x)) = j}"
      using cj(3) ni o(1) i(2,3) len(2) by (auto simp: nth_list_update split: if_splits)
  qed
  moreover have "free_ok ?N' (refnext (?N ! i)) ?n fl"
    unfolding free_ok_def using i(2,4,5) fl o(1) len(2) by (auto simp: linked_outside nth_list_update split: if_splits)
  moreover have "nodes_ok ?N' ?n"
    unfolding nodes_ok_def
  proof (intro conjI allI impI)
    fix x assume "x < ?n"
    then show "(refobj (?N' ! x) = ONull) = (refs (?N' ! x) = 0)"
      using nd c o(1) at[of x] by (cases "x = i") (simp_all add: nodes_ok_def)
  next
    fix x y assume "x < ?n" "y < ?n" "refobj (?N' ! x) = refobj (?N' ! y)" "refobj (?N' ! x) \<noteq> ONull"
    then show "x = y"
      using nd at[of x] at[of y] fresh[of x] fresh[of y] by (cases "x = i"; cases "y = i") (auto simp: nodes_ok_def)
  qed
  ultimately show "ref_inv sh (set_refs i' c t1) ?cs fl"
    unfolding new ref_inv_def using len used by simp
  show "held (set_refs i' c t1) = held t + replicate_mset (unat c) obj"
    unfolding new held_def using held_update[of i ?N ?nd] i(2) len r0 by (simp add: node_refs_def)
qed

lemma RefAdd_some:
  assumes "ref_inv sh t cs fl" "rslotused t < rnumofslots t"
  obtains i fl' t1 where "fl = i # fl'" "RefAdd (ref_mainpos sh (rnumofslots t) obj) obj t = Some (t1, i)"
    "rnumofslots t1 = rnumofslots t"
proof -
  from assms obtain i fl' where fl: "fl = i # fl'" by (cases fl) (auto simp: ref_inv_def)
  then have "rfreelist t = Some i" "i < length (rtnodes t)" "ref_mainpos sh (rnumofslots t) obj < length (rbuckets t)"
    using assms ref_mainpos_less by (auto simp: ref_inv_def free_ok_def)
  with that[OF fl] show ?thesis by (simp add: RefAdd_def)
qed

section \<open>Resizing\<close>

lemma ref_inv_fields:
  assumes "ref_inv sh t cs fl"
  shows "length (rbuckets t) = rnumofslots t" "length (rtnodes t) = rnumofslots t" "0 < rnumofslots t"
    "chains_ok sh (rtnodes t) (rbuckets t) (rnumofslots t) cs" "free_ok (rtnodes t) (rfreelist t) (rnumofslots t) fl"
    "nodes_ok (rtnodes t) (rnumofslots t)" "rslotused t + length fl = rnumofslots t"
  using assms by (simp_all add: ref_inv_def)

lemma absent_iff:
  assumes "ref_inv sh t cs fl" "obj \<noteq> ONull"
  shows "(\<forall>nd \<in> set (rtnodes t). refobj nd \<noteq> obj) \<longleftrightarrow> obj \<notin># held t"
proof
  assume "\<forall>nd \<in> set (rtnodes t). refobj nd \<noteq> obj"
  then show "obj \<notin># held t" using count_held_none by (simp add: not_in_iff)
next
  assume h: "obj \<notin># held t"
  show "\<forall>nd \<in> set (rtnodes t). refobj nd \<noteq> obj"
  proof
    fix nd assume "nd \<in> set (rtnodes t)"
    then obtain x where x: "x < rnumofslots t" "rtnodes t ! x = nd"
      using ref_inv_fields(2)[OF assms(1)] by (auto simp: in_set_conv_nth)
    show "refobj nd \<noteq> obj"
    proof
      assume "refobj nd = obj"
      with x assms(2) have "count (held t) obj = unat (refs nd)" "refs nd \<noteq> 0"
        using count_held_at[OF ref_inv_fields(6,2)[OF assms(1)], of x obj] ref_inv_fields(6)[OF assms(1)]
        by (auto simp: nodes_ok_def)
      with h show False by (simp add: not_in_iff unat_eq_zero)
    qed
  qed
qed

lemma ref_rehash_inv:
  assumes "ref_inv sh t cs fl" "length (filter (\<lambda>nd. refobj nd \<noteq> ONull) ns) \<le> length fl"
    and "distinct (map refobj (filter (\<lambda>nd. refobj nd \<noteq> ONull) ns))"
    and "\<forall>nd \<in> set ns. refobj nd \<noteq> ONull \<longrightarrow> refobj nd \<notin> refobj ` set (rtnodes t)"
    and "\<forall>nd \<in> set ns. refobj nd = ONull \<longleftrightarrow> refs nd = 0"
  shows "\<exists>t' cs' fl'. ref_rehash sh ns t = Some t' \<and> ref_inv sh t' cs' fl' \<and>
    held t' = held t + sum_list (map node_refs ns) \<and> rnumofslots t' = rnumofslots t \<and>
    length fl' + length (filter (\<lambda>nd. refobj nd \<noteq> ONull) ns) = length fl"
  using assms
proof (induction ns arbitrary: t cs fl)
  case (Cons nd ns)
  show ?case
  proof (cases "refobj nd = ONull")
    case True
    then have "refs nd = 0" using Cons.prems(5) by simp
    with True Cons.IH[of t cs fl] Cons.prems show ?thesis by (auto simp: node_refs_def)
  next
    case False
    let ?m = "ref_mainpos sh (rnumofslots t) (refobj nd)"
    have "rslotused t < rnumofslots t" using ref_inv_fields(7)[OF Cons.prems(1)] Cons.prems(2) False by simp
    then obtain i fl' t1 where fl: "fl = i # fl'" and a: "RefAdd ?m (refobj nd) t = Some (t1, i)" "rnumofslots t1 = rnumofslots t"
      by (rule RefAdd_some[OF Cons.prems(1)])
    have n: "\<forall>n2 \<in> set (rtnodes t). refobj n2 \<noteq> refobj nd"
      using Cons.prems(4) False by (metis image_eqI list.set_intros(1))
    have c: "refs nd \<noteq> 0" using Cons.prems(5) False by simp
    note add = RefAdd_inv[OF Cons.prems(1)[unfolded fl] False n c a(1)]
    have step: "ref_rehash sh (nd # ns) t = ref_rehash sh ns (set_refs i (refs nd) t1)"
      using a(1) False by simp
    have slots: "rnumofslots (set_refs i (refs nd) t1) = rnumofslots t" using a(2) by (simp add: set_refs_def)
    have "\<forall>n2 \<in> set ns. refobj n2 \<noteq> ONull \<longrightarrow> refobj n2 \<notin> refobj ` set (rtnodes (set_refs i (refs nd) t1))"
    proof (intro ballI impI notI)
      fix n2 assume n2: "n2 \<in> set ns" "refobj n2 \<noteq> ONull" "refobj n2 \<in> refobj ` set (rtnodes (set_refs i (refs nd) t1))"
      then have "refobj n2 = refobj nd \<or> refobj n2 \<in> refobj ` set (rtnodes t)" using add(4) by blast
      moreover have "refobj n2 \<notin> refobj ` set (rtnodes t)" using n2(1,2) Cons.prems(4) by (metis list.set_intros(2))
      moreover have "refobj n2 \<noteq> refobj nd"
      proof
        assume "refobj n2 = refobj nd"
        then have "refobj nd \<in> set (map refobj (filter (\<lambda>nd. refobj nd \<noteq> ONull) ns))" using n2(1,2) by (auto simp: image_iff)
        with Cons.prems(3) False show False by simp
      qed
      ultimately show False by blast
    qed
    from Cons.IH[OF add(1) _ _ this] Cons.prems(2,3,5) False fl obtain t' cs' fl'' where
      "ref_rehash sh ns (set_refs i (refs nd) t1) = Some t'" "ref_inv sh t' cs' fl''"
      "held t' = held (set_refs i (refs nd) t1) + sum_list (map node_refs ns)"
      "rnumofslots t' = rnumofslots (set_refs i (refs nd) t1)"
      "length fl'' + length (filter (\<lambda>nd. refobj nd \<noteq> ONull) ns) = length fl'" by auto
    then show ?thesis using step add(2) slots fl False
      by (intro exI[of _ t'] exI[of _ cs'] exI[of _ fl'']) (simp add: node_refs_def[of nd])
  qed
qed auto

lemma distinct_objs:
  assumes "\<forall>x < length ns. \<forall>y < length ns. refobj (ns ! x) = refobj (ns ! y) \<longrightarrow> refobj (ns ! x) \<noteq> ONull \<longrightarrow> x = y"
  shows "distinct (map refobj (filter (\<lambda>nd. refobj nd \<noteq> ONull) ns))"
  using assms
proof (induction ns)
  case (Cons nd ns)
  have "\<forall>x < length ns. \<forall>y < length ns. refobj (ns ! x) = refobj (ns ! y) \<longrightarrow> refobj (ns ! x) \<noteq> ONull \<longrightarrow> x = y"
  proof (intro allI impI)
    fix x y assume "x < length ns" "y < length ns" "refobj (ns ! x) = refobj (ns ! y)" "refobj (ns ! x) \<noteq> ONull"
    then show "x = y" using Cons.prems[rule_format, of "Suc x" "Suc y"] by simp
  qed
  note ih = Cons.IH[OF this]
  have "refobj nd \<notin> refobj ` set ns" if "refobj nd \<noteq> ONull"
  proof
    assume "refobj nd \<in> refobj ` set ns"
    then obtain x where "x < length ns" "refobj (ns ! x) = refobj nd" by (auto simp: in_set_conv_nth)
    with that Cons.prems[rule_format, of 0 "Suc x"] show False by simp
  qed
  with ih show ?case by auto
qed simp

lemma RefResize_inv:
  assumes inv: "ref_inv sh t cs fl" and size: "rnumofslots t < size'"
  shows "\<exists>t' cs' fl'. RefResize sh size' t = Some t' \<and> ref_inv sh t' cs' fl' \<and> held t' = held t \<and>
    rnumofslots t' = size' \<and> rslotused t' < size'"
proof -
  note f = ref_inv_fields[OF inv]
  have s0: "0 < size'" using size by simp
  note new = RefAllocNodes_inv[OF s0]
  let ?used = "filter (\<lambda>nd. refobj nd \<noteq> ONull) (rtnodes t)"
  have u: "length ?used \<le> rnumofslots t" using f(2) by (metis length_filter_le)
  have "\<forall>nd \<in> set (rtnodes (RefAllocNodes size')). refobj nd = ONull" by (auto simp: RefAllocNodes_def)
  then have fresh: "\<forall>nd \<in> set (rtnodes t). refobj nd \<noteq> ONull \<longrightarrow> refobj nd \<notin> refobj ` set (rtnodes (RefAllocNodes size'))" by auto
  have z: "\<forall>nd \<in> set (rtnodes t). refobj nd = ONull \<longleftrightarrow> refs nd = 0"
    using f(6) f(2) by (auto simp: nodes_ok_def in_set_conv_nth)
  have d: "distinct (map refobj ?used)" using f(6) f(2) by (intro distinct_objs) (simp add: nodes_ok_def)
  have l: "length ?used \<le> length [0..<size']" using u size by simp
  from ref_rehash_inv[OF new(1)[of sh] l d fresh z] obtain t' cs' fl' where
    r: "ref_rehash sh (rtnodes t) (RefAllocNodes size') = Some t'" "ref_inv sh t' cs' fl'" "held t' = held t"
      "rnumofslots t' = size'" "length fl' + length ?used = size'"
    using new(2,3) by (auto simp: held_def)
  moreover have "rslotused t' < size'"
    using ref_inv_fields(7)[OF r(2)] r(4,5) u size by linarith
  ultimately show ?thesis by (auto simp: RefResize_def)
qed

section \<open>Looking up\<close>

lemma chain_lookup:
  assumes inv: "ref_inv sh t cs fl" and o: "obj \<noteq> ONull"
  defines "m \<equiv> ref_mainpos sh (rnumofslots t) obj"
  shows "linked (rtnodes t) (rbuckets t ! m) (cs m)" "length (cs m) < Suc (length (rtnodes t))" "m < length (rbuckets t)"
    "(\<exists>x \<in> set (cs m). refobj (rtnodes t ! x) = obj) \<longleftrightarrow> obj \<in># held t"
proof -
  note f = ref_inv_fields[OF inv]
  have m: "m < rnumofslots t" unfolding m_def by (rule ref_mainpos_less[OF f(3)])
  with f(4) have c: "linked (rtnodes t) (rbuckets t ! m) (cs m)" "distinct (cs m)"
    "set (cs m) = {x. x < rnumofslots t \<and> refobj (rtnodes t ! x) \<noteq> ONull \<and> ref_mainpos sh (rnumofslots t) (refobj (rtnodes t ! x)) = m}"
    by (simp_all add: chains_ok_def)
  show "linked (rtnodes t) (rbuckets t ! m) (cs m)" by (rule c(1))
  have "card (set (cs m)) \<le> card {..<rnumofslots t}" using c(3) by (intro card_mono) auto
  then show "length (cs m) < Suc (length (rtnodes t))" using distinct_card[OF c(2)] f(2) by simp
  show "m < length (rbuckets t)" using m f(1) by simp
  have "obj \<in># held t \<longleftrightarrow> (\<exists>nd \<in> set (rtnodes t). refobj nd = obj)" using absent_iff[OF inv o] by blast
  also have "\<dots> \<longleftrightarrow> (\<exists>x < rnumofslots t. refobj (rtnodes t ! x) = obj)" using f(2) by (metis in_set_conv_nth)
  also have "\<dots> \<longleftrightarrow> (\<exists>x \<in> set (cs m). refobj (rtnodes t ! x) = obj)" using c(3) o by (auto simp: m_def)
  finally show "(\<exists>x \<in> set (cs m). refobj (rtnodes t ! x) = obj) \<longleftrightarrow> obj \<in># held t" by simp
qed

lemma RefGet_found:
  assumes inv: "ref_inv sh t cs fl" and o: "obj \<noteq> ONull" "obj \<in># held t"
  obtains ys x zs where "cs (ref_mainpos sh (rnumofslots t) obj) = ys @ x # zs" "refobj (rtnodes t ! x) = obj"
    "RefGet sh obj add t = Some (t, ref_mainpos sh (rnumofslots t) obj, if ys = [] then None else Some (last ys), Some x)"
proof -
  note l = chain_lookup[OF inv o(1)]
  from ref_walk_linked[OF l(1,2), of obj None] l(4) o(2) obtain ys x zs where
    "cs (ref_mainpos sh (rnumofslots t) obj) = ys @ x # zs" "refobj (rtnodes t ! x) = obj"
    "ref_walk (Suc (length (rtnodes t))) (rtnodes t) obj None (rbuckets t ! ref_mainpos sh (rnumofslots t) obj) =
       Some (if ys = [] then None else Some (last ys), Some x)" by (auto simp del: ref_walk.simps)
  with that[of ys x zs] l(3) show ?thesis by (simp add: RefGet_def Let_def del: ref_walk.simps)
qed

lemma RefGet_absent:
  assumes inv: "ref_inv sh t cs fl" and o: "obj \<noteq> ONull" "obj \<notin># held t"
  obtains q where "RefGet sh obj False t = Some (t, ref_mainpos sh (rnumofslots t) obj, q, None)"
    "ref_walk (Suc (length (rtnodes t))) (rtnodes t) obj None (rbuckets t ! ref_mainpos sh (rnumofslots t) obj) = Some (q, None)"
proof -
  note l = chain_lookup[OF inv o(1)]
  from ref_walk_linked[OF l(1,2), of obj None] l(4) o(2) obtain q where
    "ref_walk (Suc (length (rtnodes t))) (rtnodes t) obj None (rbuckets t ! ref_mainpos sh (rnumofslots t) obj) = Some (q, None)"
    by (auto simp del: ref_walk.simps)
  with that[of q] l(3) show ?thesis by (simp add: RefGet_def Let_def del: ref_walk.simps)
qed

section \<open>Counting\<close>

lemma set_refs_inv:
  assumes inv: "ref_inv sh t cs fl" and x: "x < rnumofslots t" "refobj (rtnodes t ! x) = obj" "obj \<noteq> ONull" and c: "c \<noteq> 0"
  shows "ref_inv sh (set_refs x c t) cs fl"
    and "held (set_refs x c t) = held t - replicate_mset (unat (refs (rtnodes t ! x))) obj + replicate_mset (unat c) obj"
proof -
  note f = ref_inv_fields[OF inv]
  let ?N' = "(rtnodes t)[x := (rtnodes t ! x)\<lparr>refs := c\<rparr>]"
  have at: "y < rnumofslots t \<Longrightarrow> refobj (?N' ! y) = refobj (rtnodes t ! y)" for y
    using f(2) by (cases "y = x") simp_all
  have lk: "linked ?N' p xs = linked (rtnodes t) p xs" for p xs by (rule linked_next) simp
  have sets: "{y. y < rnumofslots t \<and> P (refobj (?N' ! y))} = {y. y < rnumofslots t \<and> P (refobj (rtnodes t ! y))}" for P
    using at by auto
  have "chains_ok sh ?N' (rbuckets t) (rnumofslots t) cs"
    using f(4) unfolding chains_ok_def lk
    by (simp only: sets[of "\<lambda>o'. o' \<noteq> ONull \<and> ref_mainpos sh (rnumofslots t) o' = i" for i])
  moreover have "free_ok ?N' (rfreelist t) (rnumofslots t) fl"
    using f(5) unfolding free_ok_def lk by (simp only: sets[of "\<lambda>o'. o' = ONull"])
  moreover have "nodes_ok ?N' (rnumofslots t)"
    unfolding nodes_ok_def
  proof (intro conjI allI impI)
    fix y assume "y < rnumofslots t"
    then show "(refobj (?N' ! y) = ONull) = (refs (?N' ! y) = 0)"
      using f(6) c x f(2) at[of y] by (cases "y = x") (simp_all add: nodes_ok_def)
  next
    fix y z assume "y < rnumofslots t" "z < rnumofslots t" "refobj (?N' ! y) = refobj (?N' ! z)" "refobj (?N' ! y) \<noteq> ONull"
    then show "y = z" using f(6) at[of y] at[of z] by (simp add: nodes_ok_def)
  qed
  ultimately show "ref_inv sh (set_refs x c t) cs fl"
    using f by (simp add: ref_inv_def set_refs_def)
  show "held (set_refs x c t) = held t - replicate_mset (unat (refs (rtnodes t ! x))) obj + replicate_mset (unat c) obj"
    unfolding held_def set_refs_def using held_update[of x "rtnodes t"] x f(2) by (simp add: node_refs_def)
qed

lemma RefGetRefCount_spec:
  assumes "ref_ok sh t" "obj \<noteq> ONull"
  shows "\<exists>c. RefGetRefCount sh obj t = Some c \<and> unat c = count (held t) obj"
proof -
  from assms obtain cs fl where inv: "ref_inv sh t cs fl" by (auto simp: ref_ok_def)
  show ?thesis
  proof (cases "obj \<in># held t")
    case True
    from RefGet_found[OF inv assms(2) this, where add = False] obtain ys x zs where
      g: "cs (ref_mainpos sh (rnumofslots t) obj) = ys @ x # zs" "refobj (rtnodes t ! x) = obj"
        "RefGet sh obj False t = Some (t, ref_mainpos sh (rnumofslots t) obj, if ys = [] then None else Some (last ys), Some x)" .
    have "x < length (rtnodes t)" using chain_lookup(1)[OF inv assms(2)] g(1) linked_bound by fastforce
    with count_held_at[OF ref_inv_fields(6,2)[OF inv] _ g(2) assms(2)] g(3) ref_inv_fields(2)[OF inv] show ?thesis
      by (simp add: RefGetRefCount_def)
  next
    case False
    from RefGet_absent[OF inv assms(2) False] obtain q where
      "RefGet sh obj False t = Some (t, ref_mainpos sh (rnumofslots t) obj, q, None)" by blast
    with False show ?thesis by (simp add: RefGetRefCount_def not_in_iff)
  qed
qed

lemma RefAddRef_spec:
  assumes "ref_ok sh t" "obj \<noteq> ONull" "count (held t) obj < 2 ^ 64 - 1"
  shows "\<exists>t'. RefAddRef sh obj t = Some t' \<and> ref_ok sh t' \<and> held t' = add_mset obj (held t)"
proof -
  from assms obtain cs fl where inv: "ref_inv sh t cs fl" by (auto simp: ref_ok_def)
  note f = ref_inv_fields[OF inv]
  show ?thesis
  proof (cases "obj \<in># held t")
    case True
    from RefGet_found[OF inv assms(2) this, where add = True] obtain ys x zs where
      g: "cs (ref_mainpos sh (rnumofslots t) obj) = ys @ x # zs" "refobj (rtnodes t ! x) = obj"
        "RefGet sh obj True t = Some (t, ref_mainpos sh (rnumofslots t) obj, if ys = [] then None else Some (last ys), Some x)" .
    have x: "x < rnumofslots t" using chain_lookup(1)[OF inv assms(2)] g(1) linked_bound f(2) by fastforce
    let ?r = "refs (rtnodes t ! x)"
    have cnt: "count (held t) obj = unat ?r" using count_held_at[OF f(6,2) x g(2) assms(2)] .
    have u: "unat (?r + 1) = unat ?r + 1" using assms(3) cnt by (simp add: unat_word_ariths)
    then have c: "?r + 1 \<noteq> 0" by (metis add_is_0 one_neq_zero unat_0)
    note s = set_refs_inv[OF inv x g(2) assms(2) c]
    have "held t = held t - replicate_mset (unat ?r) obj + replicate_mset (unat ?r) obj"
      using cnt by (simp add: count_le_replicate_mset_subset_eq[symmetric])
    then have "held (set_refs x (?r + 1) t) = add_mset obj (held t)" using s(2) u by simp
    with s(1) g(3) show ?thesis by (auto simp: RefAddRef_def ref_ok_def)
  next
    case False
    from RefGet_absent[OF inv assms(2) False] obtain q where
      w: "ref_walk (Suc (length (rtnodes t))) (rtnodes t) obj None (rbuckets t ! ref_mainpos sh (rnumofslots t) obj) = Some (q, None)"
      by blast
    note m = chain_lookup(3)[OF inv assms(2)]
    have "\<exists>t1 cs1 fl1. (if rnumofslots t = rslotused t then RefResize sh (rnumofslots t * 2) t else Some t) = Some t1 \<and>
        ref_inv sh t1 cs1 fl1 \<and> held t1 = held t \<and> rslotused t1 < rnumofslots t1"
    proof (cases "rnumofslots t = rslotused t")
      case True
      have "rnumofslots t < rnumofslots t * 2" using f(3) by simp
      from RefResize_inv[OF inv this] obtain t' cs' fl' where "RefResize sh (rnumofslots t * 2) t = Some t'"
        "ref_inv sh t' cs' fl'" "held t' = held t" "rnumofslots t' = rnumofslots t * 2" "rslotused t' < rnumofslots t * 2" by blast
      with True show ?thesis by (intro exI[of _ t'] exI[of _ cs'] exI[of _ fl']) simp
    next
      case False
      with f(7) inv show ?thesis by auto
    qed
    then obtain t1 cs1 fl1 where t1: "(if rnumofslots t = rslotused t then RefResize sh (rnumofslots t * 2) t else Some t) = Some t1"
      "ref_inv sh t1 cs1 fl1" "held t1 = held t" "rslotused t1 < rnumofslots t1" by blast
    from RefAdd_some[OF t1(2,4)] obtain i fl' t2 where
      fl: "fl1 = i # fl'" and a: "RefAdd (ref_mainpos sh (rnumofslots t1) obj) obj t1 = Some (t2, i)" by metis
    have fresh: "\<forall>nd \<in> set (rtnodes t1). refobj nd \<noteq> obj" using absent_iff[OF t1(2) assms(2)] False t1(3) by simp
    note add = RefAdd_inv[OF t1(2)[unfolded fl] assms(2) fresh one_neq_zero a]
    have "\<exists>mp. RefGet sh obj True t = Some (t2, mp, q, Some i)"
      using m w a t1(1) by (auto simp: RefGet_def Let_def simp del: ref_walk.simps split: if_splits)
    then have "RefAddRef sh obj t = Some (set_refs i 1 t2)" using add(3) by (auto simp: RefAddRef_def)
    with add(1,2) t1(3) show ?thesis by (auto simp: ref_ok_def)
  qed
qed

section \<open>Releasing\<close>

lemma unlink_inv:
  assumes inv: "ref_inv sh t cs fl" and chain: "cs m = ys @ x # zs" "m = ref_mainpos sh (rnumofslots t) (refobj (rtnodes t ! x))"
    and x: "x < rnumofslots t" "refobj (rtnodes t ! x) \<noteq> ONull"
  defines "N1 \<equiv> (if ys = [] then rtnodes t
      else (rtnodes t)[last ys := (rtnodes t ! last ys)\<lparr>refnext := refnext (rtnodes t ! x)\<rparr>])"
    and "B1 \<equiv> (if ys = [] then (rbuckets t)[m := refnext (rtnodes t ! x)] else rbuckets t)"
    and "nd \<equiv> \<lparr>refobj = ONull, refs = 0, refnext = rfreelist t\<rparr>"
  shows "ref_inv sh (t\<lparr>rtnodes := N1[x := nd], rbuckets := B1, rfreelist := Some x, rslotused := rslotused t - 1\<rparr>)
      (cs(m := ys @ zs)) (x # fl)"
    and "sum_list (map node_refs (N1[x := nd])) = held t - replicate_mset (unat (refs (rtnodes t ! x))) (refobj (rtnodes t ! x))"
proof -
  note f = ref_inv_fields[OF inv]
  let ?n = "rnumofslots t" and ?N = "rtnodes t" and ?N2 = "N1[x := nd]"
  have m: "m < ?n" unfolding chain(2) by (rule ref_mainpos_less[OF f(3)])
  have ch: "linked ?N (rbuckets t ! j) (cs j)" "distinct (cs j)"
    "set (cs j) = {y. y < ?n \<and> refobj (?N ! y) \<noteq> ONull \<and> ref_mainpos sh ?n (refobj (?N ! y)) = j}" if "j < ?n" for j
    using f(4) that by (simp_all add: chains_ok_def)
  from f(5) have fr: "linked ?N (rfreelist t) fl" "distinct fl" "set fl = {y. y < ?n \<and> refobj (?N ! y) = ONull}"
    by (simp_all add: free_ok_def)
  have dist: "distinct (ys @ x # zs)" and lk: "linked ?N (rbuckets t ! m) (ys @ x # zs)"
    using ch(1,2)[OF m] chain(1) by simp_all
  have last: "last ys < ?n" "last ys \<noteq> x" "last ys \<notin> set fl" "j < ?n \<Longrightarrow> j \<noteq> m \<Longrightarrow> last ys \<notin> set (cs j)" if "ys \<noteq> []" for j
  proof -
    have "last ys \<in> set (cs m)" using that chain(1) by simp
    then have l: "last ys < ?n" "refobj (?N ! last ys) \<noteq> ONull" "ref_mainpos sh ?n (refobj (?N ! last ys)) = m"
      using ch(3)[OF m] by simp_all
    then show "last ys < ?n" "last ys \<notin> set fl" using fr(3) by simp_all
    show "last ys \<noteq> x" using dist that by auto
    assume "j < ?n" "j \<noteq> m"
    then show "last ys \<notin> set (cs j)" using l(3) ch(3)[of j] by simp
  qed
  have len1: "length N1 = ?n" by (simp add: N1_def f(2))
  have at1: "refobj (N1 ! y) = refobj (?N ! y)" "refs (N1 ! y) = refs (?N ! y)" if "y < ?n" for y
    unfolding N1_def using that f(2) by (cases "ys = []"; cases "y = last ys"; simp)+
  have at: "y < ?n \<Longrightarrow> refobj (?N2 ! y) = (if y = x then ONull else refobj (?N ! y)) \<and> refs (?N2 ! y) = (if y = x then 0 else refs (?N ! y))" for y
    using len1 at1[of y] by (cases "y = x") (simp_all add: nd_def)
  have lk1: "linked N1 p xs = linked ?N p xs" if "ys \<noteq> [] \<Longrightarrow> last ys \<notin> set xs" for p xs
    using that unfolding N1_def by (auto simp: linked_outside)
  have "chains_ok sh ?N2 B1 ?n (cs(m := ys @ zs))"
    unfolding chains_ok_def
  proof (intro allI impI conjI)
    fix j assume j: "j < ?n"
    show "linked ?N2 (B1 ! j) ((cs(m := ys @ zs)) j)"
    proof (cases "j = m")
      case True
      have "linked N1 (B1 ! m) (ys @ zs)"
      proof (cases "ys = []")
        case True
        then show ?thesis using lk m f(1) by (simp add: N1_def B1_def)
      next
        case False
        have "linked (?N[last ys := (?N ! last ys)\<lparr>refnext := refnext (?N ! x)\<rparr>]) (rbuckets t ! m) (ys @ zs)"
          by (rule linked_cut[OF lk dist False]) simp
        then show ?thesis using False by (simp add: N1_def B1_def)
      qed
      with True dist show ?thesis by (simp add: linked_outside)
    next
      case False
      have "x \<notin> set (cs j)" using ch(3)[OF j] chain(2) False by simp
      moreover have "linked N1 (rbuckets t ! j) (cs j)" using ch(1)[OF j] lk1[of "cs j"] last(4)[OF _ j False] by blast
      moreover have "B1 ! j = rbuckets t ! j" using False by (simp add: B1_def)
      ultimately show ?thesis using False by (simp add: linked_outside)
    qed
    show "distinct ((cs(m := ys @ zs)) j)" using ch(2)[OF j] dist by simp
    have "set ((cs(m := ys @ zs)) j) = set (cs j) - {x}"
      using dist chain ch(3)[OF j] by (cases "j = m") auto
    also have "\<dots> = {y. y < ?n \<and> refobj (?N2 ! y) \<noteq> ONull \<and> ref_mainpos sh ?n (refobj (?N2 ! y)) = j}"
      using ch(3)[OF j] at by (auto simp: at1 split: if_splits)
    finally show "set ((cs(m := ys @ zs)) j) = {y. y < ?n \<and> refobj (?N2 ! y) \<noteq> ONull \<and> ref_mainpos sh ?n (refobj (?N2 ! y)) = j}" .
  qed
  moreover have "free_ok ?N2 (Some x) ?n (x # fl)"
  proof -
    have xf: "x \<notin> set fl" using fr(3) x(2) by simp
    have "linked N1 (rfreelist t) fl" using fr(1) lk1[of fl] last(3) by blast
    then have "linked ?N2 (Some x) (x # fl)" using xf x(1) len1 by (simp add: linked_outside nd_def)
    moreover have "set (x # fl) = {y. y < ?n \<and> refobj (?N2 ! y) = ONull}" using fr(3) at x(1) by (auto simp: at1)
    ultimately show ?thesis using fr(2) xf unfolding free_ok_def distinct.simps by blast
  qed
  moreover have "nodes_ok ?N2 ?n"
    unfolding nodes_ok_def
  proof (intro conjI allI impI)
    fix y assume "y < ?n"
    then show "(refobj (?N2 ! y) = ONull) = (refs (?N2 ! y) = 0)" using f(6) at[of y] by (simp add: nodes_ok_def)
  next
    fix y z assume yz: "y < ?n" "z < ?n" "refobj (?N2 ! y) = refobj (?N2 ! z)" "refobj (?N2 ! y) \<noteq> ONull"
    then have "refobj (?N ! y) = refobj (?N ! z)" "refobj (?N ! y) \<noteq> ONull"
      using at[OF yz(1)] at[OF yz(2)] by (auto split: if_splits)
    with yz(1,2) f(6) show "y = z" by (simp add: nodes_ok_def)
  qed
  moreover have "rslotused t - 1 + length (x # fl) = ?n"
  proof -
    have "x \<notin> set fl" "set fl \<subseteq> {..<?n}" using fr(3) x(2) by auto
    then have "set fl \<subseteq> {..<?n} - {x}" by blast
    then have "length fl \<le> card ({..<?n} - {x})" using distinct_card[OF fr(2)] card_mono[of "{..<?n} - {x}" "set fl"] by simp
    then show ?thesis using x(1) f(7) by simp
  qed
  ultimately show "ref_inv sh (t\<lparr>rtnodes := ?N2, rbuckets := B1, rfreelist := Some x, rslotused := rslotused t - 1\<rparr>)
      (cs(m := ys @ zs)) (x # fl)"
    using f(1,3) len1 by (simp add: ref_inv_def B1_def)
  have "sum_list (map node_refs N1) = held t"
  proof -
    have "map node_refs N1 = map node_refs ?N"
      using len1 f(2) at1 by (intro nth_equalityI) (simp_all add: node_refs_def)
    then show ?thesis by (simp add: held_def)
  qed
  then show "sum_list (map node_refs ?N2) = held t - replicate_mset (unat (refs (?N ! x))) (refobj (?N ! x))"
    using held_update[of x N1 nd] x(1) len1 at1[OF x(1)] by (simp add: node_refs_def nd_def)
qed

lemma ref_okI: "ref_inv sh t cs fl \<Longrightarrow> ref_ok sh t"
  unfolding ref_ok_def by blast

lemma RefRelease_spec:
  assumes "ref_ok sh t" "obj \<noteq> ONull"
  shows "\<exists>t'. RefRelease sh obj t = Some (t', count (held t) obj = 1) \<and> ref_ok sh t' \<and> held t' = held t - {#obj#}"
proof -
  from assms obtain cs fl where inv: "ref_inv sh t cs fl" by (auto simp: ref_ok_def)
  note f = ref_inv_fields[OF inv]
  show ?thesis
  proof (cases "obj \<in># held t")
    case False
    from RefGet_absent[OF inv assms(2) False] obtain q where
      "RefGet sh obj False t = Some (t, ref_mainpos sh (rnumofslots t) obj, q, None)" by blast
    with False assms(1) show ?thesis by (auto simp: RefRelease_def not_in_iff diff_single_trivial)
  next
    case True
    let ?m = "ref_mainpos sh (rnumofslots t) obj"
    from RefGet_found[OF inv assms(2) True, where add = False] obtain ys x zs where
      g: "cs ?m = ys @ x # zs" "refobj (rtnodes t ! x) = obj"
        "RefGet sh obj False t = Some (t, ?m, if ys = [] then None else Some (last ys), Some x)" .
    have x: "x < rnumofslots t" using chain_lookup(1)[OF inv assms(2)] g(1) linked_bound f(2) by fastforce
    have m: "?m < rnumofslots t" by (rule ref_mainpos_less[OF f(3)])
    let ?r = "refs (rtnodes t ! x)"
    have cnt: "count (held t) obj = unat ?r" using count_held_at[OF f(6,2) x g(2) assms(2)] .
    then have "unat ?r \<noteq> 0" using True by (metis not_in_iff)
    then have dec: "unat (?r - 1) = unat ?r - 1" by (metis unat_eq_zero unat_minus_one)
    show ?thesis
    proof (cases "?r = 1")
      case False
      then have c: "?r - 1 \<noteq> 0" by simp
      note s = set_refs_inv[OF inv x g(2) assms(2) c]
      have "held (set_refs x (?r - 1) t) = held t - {#obj#}"
        unfolding s(2) using cnt dec \<open>unat ?r \<noteq> 0\<close>
        by (intro multiset_eqI) (auto simp: count_replicate_mset)
      moreover have "count (held t) obj \<noteq> 1" using False cnt by (metis unat_1 word_unat_eq_iff)
      ultimately show ?thesis using s(1) g(3) c by (auto simp: RefRelease_def ref_ok_def Let_def)
    next
      case one: True
      then have c: "?r - 1 = 0" by simp
      let ?N1 = "if ys = [] then rtnodes t
          else (rtnodes t)[last ys := (rtnodes t ! last ys)\<lparr>refnext := refnext (rtnodes t ! x)\<rparr>]"
      let ?B1 = "if ys = [] then (rbuckets t)[?m := refnext (rtnodes t ! x)] else rbuckets t"
      let ?nd = "\<lparr>refobj = ONull, refs = 0 :: 64 word, refnext = rfreelist t\<rparr>"
      have u: "ref_inv sh (t\<lparr>rtnodes := ?N1[x := ?nd], rbuckets := ?B1, rfreelist := Some x, rslotused := rslotused t - 1\<rparr>)
          (cs(?m := ys @ zs)) (x # fl)"
        "sum_list (map node_refs (?N1[x := ?nd])) = held t - replicate_mset (unat ?r) obj"
        using unlink_inv[OF inv g(1) _ x] g(2) assms(2) by simp_all
      have "distinct (cs ?m)" using f(4) m by (simp add: chains_ok_def)
      then have dist: "distinct (ys @ x # zs)" using g(1) by simp
      then have lx: "ys \<noteq> [] \<Longrightarrow> last ys \<noteq> x" by auto
      let ?t = "t\<lparr>rtnodes := ?N1[x := ?nd], rbuckets := ?B1, rfreelist := Some x, rslotused := rslotused t - 1\<rparr>"
      have "RefRelease sh obj t = Some (?t, True)"
        using g(3) c lx x f(2)
        by (cases "rtnodes t ! x") (auto simp: RefRelease_def set_refs_def Let_def list_update_swap)
      moreover have "held ?t = held t - {#obj#}"
        using u(2) one by (simp add: held_def)
      moreover have "(count (held t) obj = 1) = True" using cnt one by simp
      ultimately show ?thesis using ref_okI[OF u(1)] by (intro exI[of _ ?t]) (simp only: simp_thms)
    qed
  qed
qed

section \<open>The interface\<close>

text \<open>A counter of references: \<open>counted\<close> says which objects take part, \<open>holds\<close> is the multiset a state stands for.\<close>

locale reference_counter =
  fixes addref :: "gsobj \<Rightarrow> 's \<Rightarrow> 's option"
    and release :: "gsobj \<Rightarrow> 's \<Rightarrow> ('s \<times> bool) option"
    and ok :: "'s \<Rightarrow> bool"
    and holds :: "'s \<Rightarrow> gsobj multiset"
    and counted :: "gsobj \<Rightarrow> bool"
  assumes addref_counted: "ok s \<Longrightarrow> counted obj \<Longrightarrow> count (holds s) obj < 2 ^ 64 - 1 \<Longrightarrow>
      \<exists>s'. addref obj s = Some s' \<and> ok s' \<and> holds s' = add_mset obj (holds s)"
    and addref_other: "\<not> counted obj \<Longrightarrow> addref obj s = Some s"
    and release_counted: "ok s \<Longrightarrow> counted obj \<Longrightarrow>
      \<exists>s'. release obj s = Some (s', count (holds s) obj = 1) \<and> ok s' \<and> holds s' = holds s - {#obj#}"
    and release_other: "\<not> counted obj \<Longrightarrow> release obj s = Some (s, True)"

text \<open>A host that holds and drops references; the answers are those of the drops.\<close>

datatype refop = Hold gsobj | Drop gsobj

fun run_refs :: "(gsobj \<Rightarrow> 's \<Rightarrow> 's option) \<Rightarrow> (gsobj \<Rightarrow> 's \<Rightarrow> ('s \<times> bool) option) \<Rightarrow> refop list \<Rightarrow> 's \<Rightarrow> ('s \<times> bool list) option" where
  "run_refs addref release [] s = Some (s, [])"
| "run_refs addref release (Hold obj # ops) s =
     (case addref obj s of None \<Rightarrow> None | Some s1 \<Rightarrow> run_refs addref release ops s1)"
| "run_refs addref release (Drop obj # ops) s =
     (case release obj s of
        None \<Rightarrow> None
      | Some (s1, b) \<Rightarrow> map_option (\<lambda>(s2, bs). (s2, b # bs)) (run_refs addref release ops s1))"

fun run_multiset :: "(gsobj \<Rightarrow> bool) \<Rightarrow> refop list \<Rightarrow> gsobj multiset \<Rightarrow> gsobj multiset \<times> bool list" where
  "run_multiset counted [] M = (M, [])"
| "run_multiset counted (Hold obj # ops) M = run_multiset counted ops (if counted obj then add_mset obj M else M)"
| "run_multiset counted (Drop obj # ops) M =
     (case run_multiset counted ops (if counted obj then M - {#obj#} else M) of
        (M', bs) \<Rightarrow> (M', (if counted obj then count M obj = 1 else True) # bs))"

context reference_counter begin

lemma run_simulates:
  "ok s \<Longrightarrow> size (holds s) + length ops < 2 ^ 64 \<Longrightarrow>
   \<exists>s' bs. run_refs addref release ops s = Some (s', bs) \<and> ok s' \<and> run_multiset counted ops (holds s) = (holds s', bs)"
proof (induction ops arbitrary: s)
  case (Cons a ops)
  show ?case
  proof (cases a)
    case (Hold obj)
    show ?thesis
    proof (cases "counted obj")
      case True
      have "count (holds s) obj \<le> size (holds s)" by (rule count_le_size)
      then have "count (holds s) obj < 2 ^ 64 - 1" using Cons.prems(2) by simp
      from addref_counted[OF Cons.prems(1) True this] obtain s1 where
        s1: "addref obj s = Some s1" "ok s1" "holds s1 = add_mset obj (holds s)" by blast
      from Cons.IH[OF s1(2)] Cons.prems(2) s1 Hold True show ?thesis by simp
    next
      case False
      with addref_other[OF False] Cons.IH[OF Cons.prems(1)] Cons.prems(2) Hold show ?thesis by simp
    qed
  next
    case (Drop obj)
    show ?thesis
    proof (cases "counted obj")
      case True
      from release_counted[OF Cons.prems(1) True] obtain s1 where
        s1: "release obj s = Some (s1, count (holds s) obj = 1)" "ok s1" "holds s1 = holds s - {#obj#}" by blast
      have "size (holds s1) \<le> size (holds s)" unfolding s1(3) by (simp add: size_mset_mono)
      then have "size (holds s1) + length ops < 2 ^ 64" using Cons.prems(2) by simp
      from Cons.IH[OF s1(2) this] obtain s' bs where
        "run_refs addref release ops s1 = Some (s', bs)" "ok s'" "run_multiset counted ops (holds s1) = (holds s', bs)" by blast
      with s1 Drop True show ?thesis by simp
    next
      case False
      have "size (holds s) + length ops < 2 ^ 64" using Cons.prems(2) by simp
      from Cons.IH[OF Cons.prems(1) this] obtain s' bs where
        "run_refs addref release ops s = Some (s', bs)" "ok s'" "run_multiset counted ops (holds s) = (holds s', bs)" by blast
      with release_other[OF False] Drop False show ?thesis by simp
    qed
  qed
qed simp

end

lemma refcounted_not_null: "is_refcounted (type_of obj) \<Longrightarrow> obj \<noteq> ONull"
  by (auto simp: is_refcounted_def GSOBJECT_REF_COUNTED_def GSOBJECT_CANBEFALSE_def)

interpretation refs_table: reference_counter "GS_addref sh" "GS_release sh" "ref_ok sh" held "\<lambda>obj. is_refcounted (type_of obj)"
  for sh
proof
  fix s obj
  assume "ref_ok sh s" "is_refcounted (type_of obj)" "count (held s) obj < 2 ^ 64 - 1"
  then show "\<exists>s'. GS_addref sh obj s = Some s' \<and> ref_ok sh s' \<and> held s' = add_mset obj (held s)"
    using RefAddRef_spec[of sh s obj] refcounted_not_null[of obj] by (simp add: GS_addref_def)
next
  fix s obj
  assume "ref_ok sh s" "is_refcounted (type_of obj)"
  then show "\<exists>s'. GS_release sh obj s = Some (s', count (held s) obj = 1) \<and> ref_ok sh s' \<and> held s' = held s - {#obj#}"
    using RefRelease_spec[of sh s obj] refcounted_not_null[of obj] by (simp add: GS_release_def)
qed (simp_all add: GS_addref_def GS_release_def)

section \<open>The host's references\<close>

lemma new_reftable_ok: "ref_ok sh new_reftable" "held new_reftable = {#}"
  using RefAllocNodes_inv(1)[of 4 sh] RefAllocNodes_inv(2)[of 4] by (auto simp: new_reftable_def ref_ok_def)

lemma RefMark_held: "ref_ok sh t \<Longrightarrow> set (RefMark t) = set_mset (held t)"
proof -
  assume "ref_ok sh t"
  then obtain cs fl where inv: "ref_inv sh t cs fl" by (auto simp: ref_ok_def)
  have null: "ONull \<notin># held t"
  proof -
    have "ONull \<notin># node_refs nd" if nd: "nd \<in> set (rtnodes t)" for nd
    proof -
      from nd obtain x where "x < rnumofslots t" "rtnodes t ! x = nd"
        using ref_inv_fields(2)[OF inv] by (auto simp: in_set_conv_nth)
      then have "refobj nd = ONull \<longrightarrow> refs nd = 0" using ref_inv_fields(6)[OF inv] by (auto simp: nodes_ok_def)
      then show ?thesis by (auto simp: node_refs_def)
    qed
    then have "\<forall>nd \<in> set (rtnodes t). count (node_refs nd) ONull = 0" by (simp add: not_in_iff)
    then have "sum_list (map (\<lambda>nd. count (node_refs nd) ONull) (rtnodes t)) = 0" by (simp add: sum_list_eq_0_iff)
    then show ?thesis by (simp add: not_in_iff held_def count_sum_list)
  qed
  show ?thesis
  proof (rule set_eqI)
    fix obj
    show "obj \<in> set (RefMark t) \<longleftrightarrow> obj \<in># held t"
      using absent_iff[OF inv, of obj] null by (cases "obj = ONull") (auto simp: RefMark_def)
  qed
qed

text \<open>
  C7: The host's references are counted correctly: whatever sequence of \<open>GS_addref\<close> and \<open>GS_release\<close> it calls on a new
  table, every call returns, a release answers whether it was the last reference, \<open>GS_getrefcount\<close> answers the number
  of references held, and the objects the collector takes as roots are exactly those that are held.
\<close>

theorem host_references_counted:
  assumes "length ops < 2 ^ 64"
  shows "\<exists>t answers. run_refs (GS_addref sh) (GS_release sh) ops new_reftable = Some (t, answers) \<and>
    run_multiset (\<lambda>obj. is_refcounted (type_of obj)) ops {#} = (held t, answers) \<and>
    (\<forall>obj. is_refcounted (type_of obj) \<longrightarrow>
       (\<exists>c. GS_getrefcount sh obj t = Some c \<and> unat c = count (held t) obj)) \<and>
    set (RefMark t) = set_mset (held t)"
proof -
  from refs_table.run_simulates[OF new_reftable_ok(1)] assms new_reftable_ok(2) obtain t answers where
    r: "run_refs (GS_addref sh) (GS_release sh) ops new_reftable = Some (t, answers)" "ref_ok sh t"
      "run_multiset (\<lambda>obj. is_refcounted (type_of obj)) ops {#} = (held t, answers)" by fastforce
  have "\<exists>c. GS_getrefcount sh obj t = Some c \<and> unat c = count (held t) obj" if "is_refcounted (type_of obj)" for obj
    using RefGetRefCount_spec[OF r(2) refcounted_not_null[OF that]] that by (simp add: GS_getrefcount_def)
  with r RefMark_held show ?thesis by blast
qed

lemma host_references_counted_witness:
  "\<exists>t. run_refs (GS_addref (\<lambda>_. 0)) (GS_release (\<lambda>_. 0)) [Hold (OTable 8), Hold (OTable 8), Drop (OTable 8), Drop (OTable 8)] new_reftable =
     Some (t, [False, True]) \<and> RefMark t = []"
proof -
  let ?ops = "[Hold (OTable 8), Hold (OTable 8), Drop (OTable 8), Drop (OTable 8)]"
  have c: "is_refcounted (type_of (OTable 8))" by (simp add: is_refcounted_def GSOBJECT_REF_COUNTED_def GSOBJECT_DELEGABLE_def)
  have m: "run_multiset (\<lambda>obj. is_refcounted (type_of obj)) ?ops {#} = ({#}, [False, True])" using c by simp
  have "length ?ops < 2 ^ 64" by simp
  from host_references_counted[OF this, of "\<lambda>_. 0"] m show ?thesis by fastforce
qed


end
