(* ===== verification/GS_StringLib.thy ===== *)
theory GS_StringLib
  imports GS_Lexer GS_Array GS_Rex "HOL-Library.Code_Target_Numeral"
begin

text \<open>
  The string library (gstdstring.cpp) and the string methods of the base library (GSbaselib.cpp).

  A string is the list of its characters; in memory a zero follows them, which ends the string for the functions of
  the C library even where the list goes on.  \<open>cstr\<close> is what such a function sees.  Arguments the parameter check
  (\<open>GS_setparamscheck\<close>) has let through are strings here; numbers and the optional arguments are objects.
\<close>

section \<open>Strings of the host\<close>

definition gschar :: "char \<Rightarrow> int" where
  "gschar c = (if (of_char c :: int) < 128 then of_char c else of_char c - 256)"

definition scisspace :: "char \<Rightarrow> bool" where "scisspace c = c_space (gschar c)"
definition scisprint :: "char \<Rightarrow> bool" where "scisprint c = c_print (gschar c)"

definition cstr :: "string \<Rightarrow> string" where
  "cstr s = takeWhile (\<lambda>c. c \<noteq> CHR 0x00) s"

text \<open>\<open>GS_pushstring\<close> of a pointer to \<open>s\<close>: a negative length stands for the length the C library finds.\<close>

definition pushstring :: "string \<Rightarrow> int \<Rightarrow> string" where
  "pushstring s len = (if len < 0 then cstr s else take (nat len) s)"

section \<open>Stripping\<close>

text \<open>\<open>__strip_l\<close> and \<open>__strip_r\<close>: the positions of \<open>start\<close> and \<open>end\<close>.\<close>

fun strip_l :: "string \<Rightarrow> nat" where
  "strip_l [] = 0"
| "strip_l (c # s) = (if c \<noteq> CHR 0x00 \<and> scisspace c then Suc (strip_l s) else 0)"

fun strip_down :: "string \<Rightarrow> nat \<Rightarrow> nat" where
  "strip_down s 0 = 0"
| "strip_down s (Suc t) = (if scisspace (s ! t) then strip_down s t else Suc t)"

definition strip_r :: "string \<Rightarrow> nat \<Rightarrow> nat" where
  "strip_r s len = (if len = 0 then 0 else strip_down s len)"

definition string_strip :: "string \<Rightarrow> string" where
  "string_strip s =
     (let start = strip_l s; end' = strip_r s (length s)
      in pushstring (drop start s) (int end' - int start))"

definition string_lstrip :: "string \<Rightarrow> string" where
  "string_lstrip s = pushstring (drop (strip_l s) s) (-1)"

definition string_rstrip :: "string \<Rightarrow> string" where
  "string_rstrip s = pushstring s (int (strip_r s (length s)))"

lemma nul_not_space [simp]: "\<not> scisspace CHR 0x00"
  by (simp add: scisspace_def gschar_def c_space_def)

lemma strip_l_le: "strip_l s \<le> length s"
  by (induction s) auto

lemma drop_strip_l: "drop (strip_l s) s = dropWhile scisspace s"
  by (induction s) auto

lemma strip_down_le: "strip_down s t \<le> t"
  by (induction t) auto

lemma take_strip_down:
  "t \<le> length s \<Longrightarrow> take (strip_down s t) s = rev (dropWhile scisspace (rev (take t s)))"
  by (induction t) (auto simp: take_Suc_conv_app_nth)

lemma take_strip_r: "take (strip_r s (length s)) s = rev (dropWhile scisspace (rev s))"
  using take_strip_down[of "length s" s] by (simp add: strip_r_def)

definition trim :: "string \<Rightarrow> string" where
  "trim s = rev (dropWhile scisspace (rev (dropWhile scisspace s)))"

lemma rev_dropWhile_dropWhile:
  "rev (dropWhile P (rev (dropWhile P s))) = dropWhile P (rev (dropWhile P (rev s)))"
proof (induction s)
  case (Cons a s)
  show ?case
  proof (cases "\<forall>x\<in>set s. P x")
    case True
    then have "dropWhile P (rev s) = []" "dropWhile P s = []" by (simp_all add: dropWhile_eq_Nil_conv)
    then show ?thesis using True by (auto simp: dropWhile_append dest: set_dropWhileD)
  next
    case False
    then have "dropWhile P (rev s) \<noteq> []" by (auto simp: dropWhile_eq_Nil_conv)
    then show ?thesis using Cons False by (auto simp: dropWhile_append)
  qed
qed simp

text \<open>Only white space before the end of a string of white space: the length is negative then, and the C
  library finds the empty string.\<close>

lemma string_strip_trim: "string_strip s = trim s"
proof -
  let ?l = "strip_l s" and ?r = "strip_r s (length s)"
  have mid: "dropWhile scisspace (rev (dropWhile scisspace (rev s))) = take (?r - ?l) (drop ?l s)" if "?l \<le> ?r"
  proof -
    have "drop ?l s = dropWhile scisspace s" by (rule drop_strip_l)
    have le: "?r \<le> length s" using strip_down_le[of s "length s"] by (simp add: strip_r_def)
    define p where "p = take ?r s"
    have p: "p = rev (dropWhile scisspace (rev s))" using take_strip_r p_def by simp
    have "strip_l p = ?l"
    proof -
      have "strip_l (take n s) = strip_l s" if "strip_l s \<le> n" for n
        using that
      proof (induction s arbitrary: n)
        case (Cons a s)
        then show ?case by (cases n) auto
      qed simp
      with \<open>?l \<le> ?r\<close> show ?thesis unfolding p_def by blast
    qed
    then have "dropWhile scisspace p = drop ?l p" using drop_strip_l[of p] by simp
    then show ?thesis unfolding p[symmetric] by (simp add: p_def drop_take)
  qed
  show ?thesis
  proof (cases "?l \<le> ?r")
    case True
    then show ?thesis
      by (simp add: string_strip_def pushstring_def trim_def rev_dropWhile_dropWhile mid nat_diff_distrib' Let_def)
  next
    case False
    have "trim s = []"
    proof (rule ccontr)
      assume "trim s \<noteq> []"
      then have ne: "dropWhile scisspace (rev (dropWhile scisspace s)) \<noteq> []" by (simp add: trim_def)
      then obtain x where x: "x \<in> set (dropWhile scisspace s)" "\<not> scisspace x" by (auto simp: dropWhile_eq_Nil_conv)
      have sp: "s = take ?l s @ drop ?l s" by simp
      have "dropWhile scisspace (rev s) = dropWhile scisspace (rev (drop ?l s)) @ rev (take ?l s)"
        by (subst sp, simp only: rev_append, subst dropWhile_append1[of x]) (use x drop_strip_l in auto)
      then have "length (dropWhile scisspace (rev s)) \<ge> ?l" using strip_l_le[of s] by simp
      moreover have "length (take ?r s) = length (dropWhile scisspace (rev s))" by (simp add: take_strip_r)
      ultimately show False using False by simp
    qed
    moreover have d: "dropWhile scisspace s = []"
    proof (rule ccontr)
      assume ne: "dropWhile scisspace s \<noteq> []"
      then have "\<not> scisspace (hd (dropWhile scisspace s))" by (rule hd_dropWhile)
      with ne have "dropWhile scisspace (rev (dropWhile scisspace s)) \<noteq> []"
        using hd_in_set[OF ne] by (simp only: dropWhile_eq_Nil_conv set_rev) blast
      with calculation show False by (simp add: trim_def)
    qed
    ultimately show ?thesis using False by (simp add: string_strip_def pushstring_def cstr_def Let_def drop_strip_l del: dropWhile_eq_Nil_conv)
  qed
qed

lemma string_rstrip_spec: "string_rstrip s = rev (dropWhile scisspace (rev s))"
  using take_strip_r[of s] by (simp add: string_rstrip_def pushstring_def)

text \<open>\<open>lstrip\<close> passes -1 and so cuts a string at a zero inside of it, which the other two keep.\<close>

lemma string_lstrip_spec: "string_lstrip s = cstr (dropWhile scisspace s)"
  by (simp add: string_lstrip_def pushstring_def drop_strip_l)

lemma lstrip_cuts_at_nul:
  "string_lstrip [CHR ''a'', CHR 0x00, CHR ''b''] = ''a'' \<and>
   string_rstrip [CHR ''a'', CHR 0x00, CHR ''b''] = [CHR ''a'', CHR 0x00, CHR ''b'']"
  by (simp add: string_lstrip_spec string_rstrip_spec cstr_def scisspace_def gschar_def c_space_def)

section \<open>Splitting\<close>

text \<open>The loop of \<open>_string_split\<close>: \<open>start\<close> and \<open>e\<close> are the pointers \<open>start\<close> and \<open>end\<close>, \<open>acc\<close> the array on the
  stack.  The text ends at its first zero.\<close>

function split_loop :: "string \<Rightarrow> string \<Rightarrow> bool \<Rightarrow> nat \<Rightarrow> nat \<Rightarrow> string list \<Rightarrow> nat \<times> nat \<times> string list" where
  "split_loop s seps skipempty start e acc =
     (if e < length s \<and> s ! e \<noteq> CHR 0x00 then
        (if list_ex (\<lambda>c. s ! e = c) seps then
           split_loop s seps skipempty (e + 1) (e + 1)
             (if \<not> skipempty \<or> e \<noteq> start then acc @ [pushstring (drop start s) (int e - int start)] else acc)
         else split_loop s seps skipempty start (e + 1) acc)
      else (start, e, acc))"
  by pat_completeness auto
termination by (relation "measure (\<lambda>(s, seps, skipempty, start, e, acc). length s - e)") auto

declare split_loop.simps [simp del]

text \<open>\<open>skipempty\<close> is the fourth argument, when it is there.\<close>

definition string_split :: "string \<Rightarrow> string \<Rightarrow> bool option \<Rightarrow> string list outcome" where
  "string_split s seps skip =
     (if length seps = 0 then Fail (ErrStr ''empty separators string'')
      else let skipempty = (case skip of Some b \<Rightarrow> b | None \<Rightarrow> False) in
        case split_loop s seps skipempty 0 0 [] of
          (start, e, acc) \<Rightarrow>
            Done (if e \<noteq> start then acc @ [pushstring (drop start s) (int e - int start)] else acc))"

text \<open>What it promises: the runs between separators; the piece behind the last separator only if it is not empty.\<close>

function pieces :: "(char \<Rightarrow> bool) \<Rightarrow> string \<Rightarrow> string list" where
  "pieces P s =
     (case dropWhile (\<lambda>c. \<not> P c) s of
        [] \<Rightarrow> if s = [] then [] else [s]
      | _ # rest \<Rightarrow> takeWhile (\<lambda>c. \<not> P c) s # pieces P rest)"
  by pat_completeness auto
termination
proof (relation "measure (\<lambda>(P, s). length s)")
  fix P :: "char \<Rightarrow> bool" and s c rest
  assume "dropWhile (\<lambda>c. \<not> P c) s = c # rest"
  then have "length (c # rest) \<le> length s" by (metis length_dropWhile_le)
  then show "((P, rest), P, s) \<in> measure (\<lambda>(P, s). length s)" by simp
qed simp

declare pieces.simps [simp del]

lemma pieces_free: "\<forall>c\<in>set s. \<not> P c \<Longrightarrow> pieces P s = (if s = [] then [] else [s])"
  by (simp add: pieces.simps dropWhile_eq_Nil_conv[THEN iffD2])

lemma pieces_sep: "\<forall>c\<in>set p. \<not> P c \<Longrightarrow> P c \<Longrightarrow> pieces P (p @ c # r) = p # pieces P r"
  by (subst pieces.simps) simp

lemma cstr_take: "n \<le> length (cstr s) \<Longrightarrow> take n s = take n (cstr s)"
  unfolding cstr_def by (induction s arbitrary: n) (auto simp: take_Cons split: nat.splits if_splits)

lemma cstr_nth: "n < length (cstr s) \<Longrightarrow> cstr s ! n = s ! n"
  by (simp add: cstr_def takeWhile_nth)

lemma cstr_in: "n \<le> length (cstr s) \<Longrightarrow> (n < length s \<and> s ! n \<noteq> CHR 0x00) = (n < length (cstr s))"
  unfolding cstr_def by (induction s arbitrary: n) (auto simp: nth_Cons split: nat.splits if_splits)

text \<open>The loop with \<open>p\<close> read since the last separator.\<close>

lemma split_loop_pieces:
  assumes "start \<le> e" "e \<le> length (cstr s)" "\<forall>c \<in> set (drop start (take e s)). c \<notin> set seps"
    and "split_loop s seps sk start e acc = (st', e', acc')"
  shows "(if e' \<noteq> st' then acc' @ [pushstring (drop st' s) (int e' - int st')] else acc') =
           acc @ filter (\<lambda>p. \<not> sk \<or> p \<noteq> []) (pieces (\<lambda>c. c \<in> set seps) (drop start (cstr s)))"
  using assms
proof (induction s seps sk start e acc rule: split_loop.induct)
  case (1 s seps sk start e acc)
  let ?P = "\<lambda>c. c \<in> set seps" and ?p = "drop start (take e s)"
  note in_c = cstr_in[OF 1(4)] and tk = cstr_take
  have pushed: "pushstring (drop start s) (int e - int start) = ?p"
  proof -
    have "\<not> int e - int start < 0" "nat (int e - int start) = e - start" using 1(3) by linarith+
    then show ?thesis by (simp only: pushstring_def drop_take if_False)
  qed
  have free: "\<forall>c\<in>set ?p. \<not> ?P c" using 1(5) by simp
  have "length (cstr s) \<le> length s" by (simp add: cstr_def length_takeWhile_le)
  then have nil: "?p = [] \<longleftrightarrow> e = start" using 1(3,4) by auto
  show ?case
  proof (cases "e < length (cstr s)")
    case end': False
    with 1(4) have "drop start (cstr s) = ?p" using tk[of e] by simp
    moreover have "st' = start" "e' = e" "acc' = acc"
      using 1(6) end' in_c by (subst (asm) split_loop.simps, simp)+
    ultimately show ?thesis using pieces_free[OF free] pushed nil by auto
  next
    case more: True
    then have ein: "e < length s" "s ! e = cstr s ! e" "s ! e \<noteq> CHR 0x00"
      using in_c cstr_nth[OF more] by auto
    have whole: "drop start (cstr s) = ?p @ s ! e # drop (e + 1) (cstr s)"
    proof -
      have "drop start (cstr s) = drop start (take e (cstr s) @ cstr s ! e # drop (Suc e) (cstr s))"
        using id_take_nth_drop[OF more] by simp
      also have "\<dots> = drop start (take e (cstr s)) @ s ! e # drop (e + 1) (cstr s)"
        using 1(3,4) ein(2) by simp
      finally show ?thesis using tk[OF 1(4)] by simp
    qed
    show ?thesis
    proof (cases "list_ex (\<lambda>c. s ! e = c) seps")
      case True
      then have P: "?P (s ! e)" by (auto simp: list_ex_iff)
      have step: "split_loop s seps sk start e acc = split_loop s seps sk (e + 1) (e + 1) (if \<not> sk \<or> e \<noteq> start then acc @ [?p] else acc)"
        using True ein pushed by (subst split_loop.simps) simp
      from nil 1(1)[OF conjI[OF ein(1,3)] True] 1(6) more step pushed show ?thesis
        unfolding whole pieces_sep[of ?p ?P, OF free P] by (auto split: if_splits)
    next
      case False
      then have P: "\<not> ?P (s ! e)" by (auto simp: list_ex_iff)
      have step: "split_loop s seps sk start e acc = split_loop s seps sk start (e + 1) acc"
        using False ein by (subst split_loop.simps) simp
      have "\<forall>c \<in> set (drop start (take (e + 1) s)). c \<notin> set seps"
        using free P 1(3) ein(1) by (auto simp: take_Suc_conv_app_nth)
      with 1(2)[OF conjI[OF ein(1,3)] False] 1(3,6) more step show ?thesis by simp
    qed
  qed
qed

lemma string_split_pieces:
  "string_split s seps skip = (if seps = [] then Fail (ErrStr ''empty separators string'')
     else Done (filter (\<lambda>p. skip \<noteq> Some True \<or> p \<noteq> []) (pieces (\<lambda>c. c \<in> set seps) (cstr s))))"
proof -
  obtain st' e' acc' where l: "split_loop s seps (case skip of Some b \<Rightarrow> b | None \<Rightarrow> False) 0 0 [] = (st', e', acc')"
    using prod_cases3 by blast
  from split_loop_pieces[OF _ _ _ l] show ?thesis
    using l by (auto simp: string_split_def Let_def split: option.splits)
qed

text \<open>Splitting at one character.\<close>

lemma separated_induct:
  assumes "\<And>s. c \<notin> set s \<Longrightarrow> Q s" and "\<And>p r. c \<notin> set p \<Longrightarrow> Q r \<Longrightarrow> Q (p @ c # r)"
  shows "Q s"
proof (induction "length s" arbitrary: s rule: less_induct)
  case less
  show ?case
  proof (cases "c \<in> set s")
    case True
    then obtain p r where "s = p @ c # r" "c \<notin> set p" by (metis split_list_first)
    with assms(2)[of p r] less[of r] show ?thesis by simp
  qed (use assms(1) in blast)
qed

lemma pieces_one:
  "c \<notin> set s \<Longrightarrow> pieces (\<lambda>x. x = c) s = (if s = [] then [] else [s])"
  "c \<notin> set s \<Longrightarrow> pieces (\<lambda>x. x = c) (s @ c # r) = s # pieces (\<lambda>x. x = c) r"
  by (rule pieces_free, blast) (rule pieces_sep, auto)

lemma pieces_join:
  "concat (map (\<lambda>p. p @ [c]) (pieces (\<lambda>x. x = c) s)) = s @ (if s = [] \<or> last s = c then [] else [c])"
proof (induction s rule: separated_induct[of c])
  case (1 s)
  then show ?case using last_in_set[of s] by (auto simp: pieces_one)
qed (simp add: pieces_one)

lemma pieces_without: "\<forall>p \<in> set (pieces (\<lambda>x. x = c) s). c \<notin> set p"
  by (induction s rule: separated_induct[of c]) (auto simp: pieces_one)

text \<open>
  C33: Splitting at one separator loses nothing but a separator at the end: the pieces \<open>split\<close> returns do not contain the
  separator, and each followed by it they are the string again, as far as the C library sees it (up to its first
  zero), with a separator at its end if it had none.
\<close>

theorem split_join_round_trip:
  assumes "string_split s [c] None = Done ps"
  shows "concat (map (\<lambda>p. p @ [c]) ps) = cstr s @ (if cstr s = [] \<or> last (cstr s) = c then [] else [c])
         \<and> (\<forall>p \<in> set ps. c \<notin> set p)"
proof -
  have "ps = pieces (\<lambda>x. x = c) (cstr s)" using assms by (simp add: string_split_pieces)
  then show ?thesis using pieces_join[of c "cstr s"] pieces_without[of c "cstr s"] by blast
qed

lemma split_join_round_trip_witness:
  "\<exists>ps. string_split ''a,,b,'' '','' None = Done ps \<and> concat (map (\<lambda>p. p @ '','') ps) = ''a,,b,''"
proof -
  obtain ps where ps: "string_split ''a,,b,'' '','' None = Done ps" by (simp add: string_split_pieces)
  from split_join_round_trip[OF ps] ps show ?thesis by (simp add: cstr_def)
qed

section \<open>Beginnings and ends\<close>

text \<open>\<open>memcmp\<close> on the first \<open>n\<close> characters.\<close>

definition memcmp_eq :: "string \<Rightarrow> string \<Rightarrow> nat \<Rightarrow> bool" where
  "memcmp_eq a b n = (\<forall>i \<in> set [0..<n]. a ! i = b ! i)"

definition string_startswith :: "string \<Rightarrow> string \<Rightarrow> bool" where
  "string_startswith s cmp = (if length cmp \<le> length s then memcmp_eq s cmp (length cmp) else False)"

definition string_endswith :: "string \<Rightarrow> string \<Rightarrow> bool" where
  "string_endswith s cmp =
     (if length cmp \<le> length s then memcmp_eq (drop (length s - length cmp) s) cmp (length cmp) else False)"

lemma memcmp_eq_take: "length b \<le> length a \<Longrightarrow> memcmp_eq a b (length b) \<longleftrightarrow> take (length b) a = b"
proof -
  assume le: "length b \<le> length a"
  have "take (length b) a = b \<longleftrightarrow> (\<forall>i < length b. take (length b) a ! i = b ! i)"
    using list_eq_iff_nth_eq[of "take (length b) a" b] le by (simp only: length_take min_absorb2) blast
  also have "\<dots> \<longleftrightarrow> (\<forall>i < length b. a ! i = b ! i)" by simp
  also have "\<dots> \<longleftrightarrow> memcmp_eq a b (length b)" by (simp only: memcmp_eq_def Ball_def set_upt atLeastLessThan_iff) blast
  finally show ?thesis by (rule sym)
qed

lemma string_startswith_iff: "string_startswith s cmp \<longleftrightarrow> (\<exists>t. s = cmp @ t)"
proof -
  have "take (length cmp) s = cmp \<longleftrightarrow> (\<exists>t. s = cmp @ t)" by (metis append_eq_conv_conj)
  then show ?thesis by (auto simp: string_startswith_def memcmp_eq_take)
qed

lemma string_endswith_iff: "string_endswith s cmp \<longleftrightarrow> (\<exists>t. s = t @ cmp)"
proof (cases "length cmp \<le> length s")
  case True
  then have "take (length cmp) (drop (length s - length cmp) s) = drop (length s - length cmp) s" by simp
  then have "string_endswith s cmp \<longleftrightarrow> drop (length s - length cmp) s = cmp"
    using True by (simp add: string_endswith_def memcmp_eq_take)
  also have "\<dots> \<longleftrightarrow> (\<exists>t. s = t @ cmp)" by (metis append_eq_conv_conj append_take_drop_id length_append add_diff_cancel_right')
  finally show ?thesis .
qed (auto simp: string_endswith_def)

section \<open>Escaping\<close>

text \<open>The scratch pad is memory from \<open>resstr\<close> on.  \<open>snprintf\<close> writes at most \<open>bound\<close> characters with the ending
  zero, and returns the length of the whole text.\<close>

type_synonym scratchpad = "nat \<Rightarrow> char"

definition scsprintf :: "scratchpad \<Rightarrow> nat \<Rightarrow> nat \<Rightarrow> string \<Rightarrow> scratchpad" where
  "scsprintf mem d bound t =
     (if bound = 0 then mem
      else let n = min (length t) (bound - 1) in
        (\<lambda>i. if d \<le> i \<and> i < d + n then t ! (i - d) else if i = d + n then CHR 0x00 else mem i))"

text \<open>The text of the pattern \<open>\x%02x\<close>: the character is promoted to an int and printed as an unsigned one.\<close>

definition hex_digit :: "nat \<Rightarrow> char" where
  "hex_digit d = (''0123456789abcdef'' ! d)"

fun hex_number :: "nat \<Rightarrow> string" where
  "hex_number n = (if n < 16 then [hex_digit n] else hex_number (n div 16) @ [hex_digit (n mod 16)])"

declare hex_number.simps [simp del]

definition escpat :: "char \<Rightarrow> string" where
  "escpat c =
     (let h = hex_number (nat (gschar c mod 2 ^ 32))
      in [CHR 0x5C, CHR ''x''] @ (if length h < 2 then CHR ''0'' # h else h))"

definition escch :: "char \<Rightarrow> char option" where
  "escch c =
     map_of [(CHR 0x07, CHR ''a''), (CHR 0x08, CHR ''b''), (CHR 0x09, CHR ''t''), (CHR 0x0A, CHR ''n''),
             (CHR 0x0B, CHR ''v''), (CHR 0x0C, CHR ''f''), (CHR 0x0D, CHR ''r''), (CHR 0x5C, CHR 0x5C),
             (CHR 0x22, CHR 0x22), (CHR 0x27, CHR 0x27), (CHR 0x00, CHR ''0'')] c"

text \<open>One turn of the loop: the memory, \<open>dest\<close> and \<open>escaped\<close>.\<close>

definition escape_step :: "nat \<Rightarrow> char \<Rightarrow> scratchpad \<times> nat \<times> nat \<Rightarrow> scratchpad \<times> nat \<times> nat" where
  "escape_step destcharsize c st =
     (case st of (mem, d, escaped) \<Rightarrow>
        if scisprint c \<or> c = CHR 0x00 then
          (case escch c of
             Some e \<Rightarrow> (mem(d := CHR 0x5C, d + 1 := e), d + 2, escaped + 1)
           | None \<Rightarrow> (mem(d := c), d + 1, escaped))
        else (scsprintf mem d destcharsize (escpat c), d + length (escpat c), escaped + 1))"

definition string_escape :: "scratchpad \<Rightarrow> string \<Rightarrow> string" where
  "string_escape mem s =
     (if length s = 0 then s
      else case fold (escape_step (length s * 4)) s (mem, 0, 0) of
        (mem', d, escaped) \<Rightarrow> if escaped \<noteq> 0 then map mem' [0..<d] else s)"

text \<open>The text a character is to have.\<close>

definition escaped_char :: "char \<Rightarrow> string" where
  "escaped_char c =
     (if scisprint c \<or> c = CHR 0x00 then (case escch c of Some e \<Rightarrow> [CHR 0x5C, e] | None \<Rightarrow> [c]) else escpat c)"

subsection \<open>Characters below 128\<close>

definition is_ascii :: "char \<Rightarrow> bool" where
  "is_ascii c \<longleftrightarrow> (of_char c :: nat) < 128"

definition read_back :: "char \<Rightarrow> bool" where
  "read_back c =
     (case escaped_char c of
        [x] \<Rightarrow> x = c \<and> of_char c \<notin> {0 :: nat, 10, 0x22, 0x5C}
      | [x, y] \<Rightarrow> x = CHR 0x5C \<and> of_char y \<notin> {0 :: nat, chr CHR ''x'', chr CHR ''u'', chr CHR ''U''} \<and> escape_char (of_char y) = Some c
      | [x, y, g, h] \<Rightarrow> x = CHR 0x5C \<and> y = CHR ''x'' \<and> isxdigit (of_char g) \<and> isxdigit (of_char h) \<and>
          byte_char (strtoul16 [of_char g, of_char h]) = c \<and> \<not> (scisprint c \<or> c = CHR 0x00)
      | _ \<Rightarrow> False)"

lemma all_read_back: "list_all (\<lambda>n. read_back (char_of n)) [0..<128]"
  by code_simp

lemma ascii_read_back: "is_ascii c \<Longrightarrow> read_back c"
proof -
  assume "is_ascii c"
  then have "(of_char c :: nat) \<in> set [0..<128]" by (simp add: is_ascii_def)
  with all_read_back have "read_back (char_of (of_char c :: nat))" unfolding list_all_iff by blast
  then show ?thesis by simp
qed

lemma read_back_cases:
  assumes "is_ascii c"
  obtains (plain) "escaped_char c = [c]" "of_char c \<notin> {0 :: nat, 10, 0x22, 0x5C}"
  | (simple) y where "escaped_char c = [CHR 0x5C, y]" "of_char y \<notin> {0 :: nat, chr CHR ''x'', chr CHR ''u'', chr CHR ''U''}"
      "escape_char (of_char y) = Some c"
  | (hex) g h where "escaped_char c = [CHR 0x5C, CHR ''x'', g, h]" "isxdigit (of_char g)" "isxdigit (of_char h)"
      "byte_char (strtoul16 [of_char g, of_char h]) = c" "\<not> (scisprint c \<or> c = CHR 0x00)"
  using ascii_read_back[OF assms] unfolding read_back_def
  by (auto split: list.splits)

lemma scsprintf_whole:
  "length t < bound \<Longrightarrow> i < d + length t \<Longrightarrow> scsprintf mem d bound t i = (if i < d then mem i else t ! (i - d))"
  by (auto simp: scsprintf_def Let_def)

lemma escape_step_ascii:
  assumes "is_ascii c" and "5 \<le> N \<or> scisprint c \<or> c = CHR 0x00"
  shows "\<exists>mem' e'. escape_step N c (mem, d, e) = (mem', d + length (escaped_char c), e') \<and>
           (\<forall>i < d. mem' i = mem i) \<and> (\<forall>i < length (escaped_char c). mem' (d + i) = escaped_char c ! i) \<and>
           e \<le> e' \<and> (e' = e \<longrightarrow> escaped_char c = [c])"
proof (cases "scisprint c \<or> c = CHR 0x00")
  case True
  then show ?thesis
    by (auto simp: escape_step_def escaped_char_def less_Suc_eq split: option.splits)
next
  case False
  then have t: "escaped_char c = escpat c" by (simp add: escaped_char_def)
  from assms(1) have "length (escpat c) = 4"
  proof (cases rule: read_back_cases)
    case plain
    then have "length (escpat c) = 1" using t by simp
    moreover have "2 \<le> length (escpat c)" by (simp add: escpat_def Let_def)
    ultimately show ?thesis by simp
  next
    case (simple y)
    then have "length (escpat c) = 2" using t by simp
    moreover have "4 \<le> length (escpat c)" by (simp add: escpat_def Let_def hex_number.simps)
    ultimately show ?thesis by simp
  qed (use t in simp)
  then show ?thesis using False assms(2) t by (auto simp: escape_step_def scsprintf_whole)
qed

lemma escape_fold:
  assumes "\<forall>c \<in> set s. is_ascii c \<and> (5 \<le> N \<or> scisprint c \<or> c = CHR 0x00)"
  shows "\<exists>mem' e'. fold (escape_step N) s (mem, d, e) = (mem', d + length (concat (map escaped_char s)), e') \<and>
           (\<forall>i < d. mem' i = mem i) \<and>
           (\<forall>i < length (concat (map escaped_char s)). mem' (d + i) = concat (map escaped_char s) ! i) \<and>
           e \<le> e' \<and> (e' = e \<longrightarrow> concat (map escaped_char s) = s)"
  using assms
proof (induction s arbitrary: mem d e)
  case (Cons c s)
  then have "is_ascii c" "5 \<le> N \<or> scisprint c \<or> c = CHR 0x00" by simp_all
  from escape_step_ascii[OF this, of mem d e] obtain mem1 e1 where
    1: "escape_step N c (mem, d, e) = (mem1, d + length (escaped_char c), e1)" "\<forall>i < d. mem1 i = mem i"
      "\<forall>i < length (escaped_char c). mem1 (d + i) = escaped_char c ! i" "e \<le> e1" "e1 = e \<longrightarrow> escaped_char c = [c]" by blast
  from Cons.IH[of mem1 "d + length (escaped_char c)" e1] Cons.prems obtain mem2 e2 where
    2: "fold (escape_step N) s (mem1, d + length (escaped_char c), e1) =
          (mem2, d + length (escaped_char c) + length (concat (map escaped_char s)), e2)"
      "\<forall>i < d + length (escaped_char c). mem2 i = mem1 i"
      "\<forall>i < length (concat (map escaped_char s)). mem2 (d + length (escaped_char c) + i) = concat (map escaped_char s) ! i"
      "e1 \<le> e2" "e2 = e1 \<longrightarrow> concat (map escaped_char s) = s" by auto
  have "mem2 (d + i) = (escaped_char c @ concat (map escaped_char s)) ! i"
    if "i < length (escaped_char c) + length (concat (map escaped_char s))" for i
  proof (cases "i < length (escaped_char c)")
    case True
    then show ?thesis using 1(3) 2(2) by (simp add: nth_append)
  next
    case False
    then show ?thesis using 2(3)[rule_format, of "i - length (escaped_char c)"] that
      by (simp add: nth_append)
  qed
  with 1 2 show ?case by auto
qed simp

lemma string_escape_text:
  assumes "\<forall>c \<in> set s. is_ascii c" and "length s = 1 \<longrightarrow> scisprint (hd s) \<or> hd s = CHR 0x00"
  shows "string_escape mem s = concat (map escaped_char s)"
proof (cases "s = []")
  case False
  have "\<forall>c \<in> set s. is_ascii c \<and> (5 \<le> length s * 4 \<or> scisprint c \<or> c = CHR 0x00)"
  proof (cases "length s = 1")
    case True
    then obtain c where "s = [c]" by (auto simp: length_Suc_conv)
    with assms show ?thesis by simp
  next
    case False
    with \<open>s \<noteq> []\<close> have "2 \<le> length s" by (cases s) (auto simp: Suc_le_eq)
    with assms(1) show ?thesis by simp
  qed
  from escape_fold[OF this, of mem 0 0] obtain mem' e' where
    f: "fold (escape_step (length s * 4)) s (mem, 0, 0) = (mem', length (concat (map escaped_char s)), e')"
      "\<forall>i < length (concat (map escaped_char s)). mem' i = concat (map escaped_char s) ! i"
      "e' = 0 \<longrightarrow> concat (map escaped_char s) = s" by auto
  have "map mem' [0..<length (concat (map escaped_char s))] = concat (map escaped_char s)"
    using f(2) by (intro nth_equalityI) auto
  with f False show ?thesis by (auto simp: string_escape_def)
qed (simp add: string_escape_def)

subsection \<open>Reading the escaped text\<close>

lemma read_escaped_char:
  assumes "is_ascii c" and "upcoming st (source_text (escaped_char c) @ r)"
  shows "\<exists>st'. upcoming st' r \<and>
    (\<forall>st2 cs. read_chars 0x22 False st' = Inr (st2, cs) \<longrightarrow> read_chars 0x22 False st = Inr (st2, c # cs))"
  using assms(1)
proof (cases rule: read_back_cases)
  case plain
  with assms(2) have "upcoming st (of_char c # r)" by (simp add: source_text_def)
  then obtain st1 where "NEXT st = Inr st1" "upcoming st1 r" "cur st = of_char c" by (rule upcoming_NEXT)
  with plain show ?thesis by (intro exI[of _ st1]) (auto simp: read_chars.simps[of _ _ st])
next
  case (simple y)
  with assms(2) have "upcoming st (0x5C # of_char y # r)" by (simp add: source_text_def)
  then obtain st1 where st1: "NEXT st = Inr st1" "upcoming st1 (of_char y # r)" "cur st = 0x5C" by (rule upcoming_NEXT)
  from st1(2) obtain st2 where "NEXT st1 = Inr st2" "upcoming st2 r" "cur st1 = of_char y" by (rule upcoming_NEXT)
  with simple st1 show ?thesis
    by (intro exI[of _ st2]) (auto simp: read_chars.simps[of _ _ st] read_escape_def)
next
  case (hex g h)
  with assms(2) have "upcoming st (0x5C # chr CHR ''x'' # of_char g # of_char h # r)" by (simp add: source_text_def)
  then obtain st1 where st1: "NEXT st = Inr st1" "upcoming st1 (chr CHR ''x'' # of_char g # of_char h # r)" "cur st = 0x5C"
    by (rule upcoming_NEXT)
  from st1(2) obtain st2 where st2: "NEXT st1 = Inr st2" "upcoming st2 (of_char g # of_char h # r)" "cur st1 = chr CHR ''x''"
    by (rule upcoming_NEXT)
  from st2(2) obtain st3 where st3: "NEXT st2 = Inr st3" "upcoming st3 (of_char h # r)" "cur st2 = of_char g" by (rule upcoming_NEXT)
  from st3(2) obtain st4 where st4: "NEXT st3 = Inr st4" "upcoming st4 r" "cur st3 = of_char h" by (rule upcoming_NEXT)
  have "read_escape st1 = Inr (st4, [c])"
    using st2 st3 st4 hex by (simp add: read_escape_def ProcessStringHexEscape_def numeral_2_eq_2)
  with st1 st4(2) show ?thesis by (intro exI[of _ st4]) (auto simp: read_chars.simps[of _ _ st])
qed

lemma read_chars_escaped:
  assumes "\<forall>c \<in> set s. is_ascii c" and "upcoming st (source_text (concat (map escaped_char s)) @ 0x22 # rest)"
  shows "\<exists>st'. read_chars 0x22 False st = Inr (st', s) \<and> upcoming st' rest"
  using assms
proof (induction s arbitrary: st)
  case Nil
  then have "upcoming st (0x22 # rest)" by (simp add: source_text_def)
  then obtain st1 where "NEXT st = Inr st1" "upcoming st1 rest" "cur st = 0x22" by (rule upcoming_NEXT)
  then show ?case by (simp add: read_chars.simps[of _ _ st])
next
  case (Cons c s)
  then have "upcoming st (source_text (escaped_char c) @ source_text (concat (map escaped_char s)) @ 0x22 # rest)"
    by (simp add: source_text_def)
  from read_escaped_char[OF _ this] Cons.prems Cons.IH show ?case by fastforce
qed

text \<open>
  C32: The text that \<open>escape\<close> makes of a string is a string literal for it.  For a string of ASCII characters, whatever quotes,
  backslashes, zeros and control characters it has, the lexer reads the result between quotes as one string literal
  token whose value is the string.  Excluded is the string of a single control character other than zero, for which the
  reserved space is one character short (\<open>escape_single_control\<close>).
\<close>

theorem escape_round_trip:
  assumes "\<forall>c \<in> set s. is_ascii c" and "length s = 1 \<longrightarrow> scisprint (hd s) \<or> hd s = CHR 0x00"
    and "\<forall>c \<in> set rest. 0 < c \<and> c < 256"
  shows "\<exists>st st'. Init (map int (source_text ([CHR 0x22] @ string_escape mem s @ [CHR 0x22]) @ rest)) = Inr st \<and>
           Lex strtod st = Inr (st', TK_STRING_LITERAL) \<and> svalue st' = s \<and> upcoming st' rest"
proof -
  let ?b = "source_text (concat (map escaped_char s)) @ 0x22 # rest"
  have nz: "(of_char x :: nat) \<noteq> 0 \<and> (of_char x :: nat) < 256" if "c \<in> set s" "x \<in> set (escaped_char c)" for c x
  proof -
    have "is_ascii c" using assms(1) that(1) by blast
    then show ?thesis
      by (cases rule: read_back_cases) (use that(2) in \<open>auto simp: isxdigit_def isdigit_def\<close>)
  qed
  have vt: "source_text ([CHR 0x22] @ string_escape mem s @ [CHR 0x22]) @ rest = 0x22 # ?b"
    by (simp add: string_escape_text[OF assms(1,2)] source_text_def)
  have all: "\<forall>c \<in> set (0x22 # ?b). 0 < c \<and> c < 256"
    using nz assms(3) by (auto simp: source_text_def)
  obtain st where st: "Init (map int (0x22 # ?b)) = Inr st" "upcoming st (0x22 # ?b)" using Init_upcoming[OF all] by blast
  let ?st = "st\<lparr>lasttokenline := currentline st\<rparr>"
  have "upcoming ?st (0x22 # ?b)" using st(2) by simp
  then obtain st1 where st1: "NEXT ?st = Inr st1" "upcoming st1 ?b" "cur ?st = 0x22" by (rule upcoming_NEXT)
  from read_chars_escaped[OF assms(1) st1(2)] obtain st3 where st3:
    "read_chars 0x22 False st1 = Inr (st3, s)" "upcoming st3 rest" by blast
  have nz: "cur st1 \<noteq> 0"
  proof
    assume "cur st1 = 0"
    then have "read_chars 0x22 False st1 = Inl ''unfinished string''" by (simp add: read_chars.simps[of _ _ st1])
    with st3(1) show False by simp
  qed
  have "Lex strtod st = lex_token strtod ?st"
    unfolding Lex_def using st1(3) by (subst Lex_loop.simps) simp
  also have "\<dots> = string_token 0x22 False ?st"
    using st1(3) by (simp add: lex_token_def)
  also have "\<dots> = return_token TK_STRING_LITERAL (st3\<lparr>svalue := s\<rparr>)"
    using st1 st3 nz by (simp add: string_token_def ReadString_def)
  finally have "Lex strtod st = return_token TK_STRING_LITERAL (st3\<lparr>svalue := s\<rparr>)" .
  then show ?thesis unfolding vt using st st3(2) by (simp add: return_token_def upcoming_def)
qed

lemma escape_round_trip_witness:
  "\<exists>st st'. Init (map int (source_text ([CHR 0x22] @ string_escape (\<lambda>_. CHR ''?'') [CHR 0x0A, CHR 0x22] @ [CHR 0x22]) @ [59])) = Inr st \<and>
     Lex (\<lambda>_. 0) st = Inr (st', TK_STRING_LITERAL) \<and> svalue st' = [CHR 0x0A, CHR 0x22] \<and> upcoming st' [59]"
  by (rule escape_round_trip) (simp_all add: is_ascii_def)

subsection \<open>Characters from 128 on\<close>

lemma length_hex_number:
  "16 ^ k \<le> n \<Longrightarrow> n < 16 ^ Suc k \<Longrightarrow> length (hex_number n) = Suc k"
proof (induction k arbitrary: n)
  case 0
  then show ?case by (simp add: hex_number.simps)
next
  case (Suc k)
  then have "16 ^ k \<le> n div 16" "n div 16 < 16 ^ Suc k" "16 \<le> n"
    by (auto simp: less_mult_imp_div_less mult.commute div_le_mono order_trans[of "16::nat" "16 * 16 ^ k"]
        intro: order_trans[OF _ div_le_mono[of "16 * 16 ^ k" n 16, simplified]])
  with Suc.IH[of "n div 16"] show ?case by (subst hex_number.simps) simp
qed

lemma of_char_lt_256: "(of_char c :: nat) < 256"
  by simp

lemma escpat_high:
  assumes "\<not> is_ascii c"
  shows "length (escpat c) = 10" "\<not> (scisprint c \<or> c = CHR 0x00)"
proof -
  have c: "128 \<le> (of_char c :: int)" "(of_char c :: int) < 256"
  proof -
    have "int (of_char c) = (of_char c :: int)" by (rule of_nat_of_char)
    then show "128 \<le> (of_char c :: int)" "(of_char c :: int) < 256" 
      using assms of_char_lt_256[of c] unfolding is_ascii_def by linarith+
  qed
  then have "gschar c mod 2 ^ 32 = of_char c - 256 + 2 ^ 32"
    by (simp add: gschar_def) (subst mod_add_self2[symmetric], simp add: mod_pos_pos_trivial)
  then have n: "nat (gschar c mod 2 ^ 32) = nat (of_char c - 256 + 2 ^ 32)" by simp
  have "length (hex_number (nat (gschar c mod 2 ^ 32))) = Suc 7"
    unfolding n by (rule length_hex_number) (use c in auto)
  then show "length (escpat c) = 10" by (simp add: escpat_def Let_def)
  show "\<not> (scisprint c \<or> c = CHR 0x00)"
    using c by (auto simp: scisprint_def c_print_def gschar_def)
qed

lemma escape_fold_high:
  "\<forall>c \<in> set s. \<not> is_ascii c \<Longrightarrow>
   \<exists>mem'. fold (escape_step N) s (mem, d, e) = (mem', d + 10 * length s, e + length s)"
proof (induction s arbitrary: mem d e)
  case (Cons c s)
  then have "escape_step N c (mem, d, e) = (scsprintf mem d N (escpat c), d + 10, e + 1)"
    using escpat_high[of c] by (simp add: escape_step_def)
  with Cons.IH[of "scsprintf mem d N (escpat c)" "d + 10" "e + 1"] Cons.prems show ?case by (auto simp: algebra_simps)
qed simp

text \<open>
  C39: \<open>escape\<close> reserves four characters for each character of its argument, but prints a character from 128 on as a
  negative number with ten: of a string of such characters (UTF-8 text that is not ASCII) it returns ten for each, and so
  reads, and has moved its writes, far behind what it asked of the scratch pad.
\<close>

theorem escape_leaves_its_buffer:
  assumes "s \<noteq> []" and "\<forall>c \<in> set s. \<not> is_ascii c"
  shows "length (string_escape mem s) = 10 * length s \<and> length s * 4 < length (string_escape mem s)"
proof -
  from escape_fold_high[OF assms(2), of "length s * 4" mem 0 0] obtain mem' where
    "fold (escape_step (length s * 4)) s (mem, 0, 0) = (mem', 10 * length s, length s)" by auto
  then have "string_escape mem s = map mem' [0..<10 * length s]" using assms(1) by (simp add: string_escape_def)
  with assms(1) show ?thesis by simp
qed

lemma escape_leaves_its_buffer_witness:
  "length (string_escape (\<lambda>_. CHR ''?'') [CHR 0xC3, CHR 0xA9]) = 20"
  using escape_leaves_its_buffer[of "[CHR 0xC3, CHR 0xA9]" "\<lambda>_. CHR ''?''"] by (simp add: is_ascii_def)

text \<open>A single control character has no room for the zero \<open>snprintf\<close> ends with, which takes its last digit.\<close>

lemma escape_single_control:
  "string_escape mem [CHR 0x01] = [CHR 0x5C, CHR ''x'', CHR ''0'', CHR 0x00]"
proof -
  have "escpat CHR 0x01 = [CHR 0x5C, CHR ''x'', CHR ''0'', CHR ''1'']"
    by (simp add: escpat_def gschar_def hex_number.simps hex_digit_def)
  moreover have "\<not> (scisprint CHR 0x01 \<or> CHR 0x01 = CHR 0x00)" by (simp add: scisprint_def gschar_def c_print_def)
  ultimately show ?thesis
    by (simp add: string_escape_def escape_step_def scsprintf_def upt_rec)
qed

section \<open>Formatting\<close>

text \<open>Arguments as the API reads them.\<close>

definition GS_getinteger :: "gsobj \<Rightarrow> gsint option" where
  "GS_getinteger o' =
     (if is_numeric o' then Some (tointeger o')
      else case o' of OBool b \<Rightarrow> Some (if IsFalse o' then 0 else 1) | _ \<Rightarrow> None)"

definition GS_getfloat :: "gsobj \<Rightarrow> gsfloat option" where
  "GS_getfloat o' = (if is_numeric o' then Some (tofloat o') else None)"

definition GS_getstring :: "(ptr \<Rightarrow> string) \<Rightarrow> gsobj \<Rightarrow> string option" where
  "GS_getstring chars o' = (case o' of OString p \<Rightarrow> Some (chars p) | _ \<Rightarrow> None)"

text \<open>Outcomes: a value, an error that is thrown, or a write behind the array \<open>fmt\<close> of 20 characters or behind
  what was asked of the scratch pad.\<close>

datatype 'a fres = FDone 'a | FFail string | FmtOverflow | DestOverflow

definition fbind :: "'a fres \<Rightarrow> ('a \<Rightarrow> 'b fres) \<Rightarrow> 'b fres" where
  "fbind r f = (case r of FDone x \<Rightarrow> f x | FFail e \<Rightarrow> FFail e | FmtOverflow \<Rightarrow> FmtOverflow | DestOverflow \<Rightarrow> DestOverflow)"

lemma fbind_simps [simp]:
  "fbind (FDone x) f = f x" "fbind (FFail e) f = FFail e" "fbind FmtOverflow f = FmtOverflow" "fbind DestOverflow f = DestOverflow"
  by (simp_all add: fbind_def)

lemma fbind_cong [fundef_cong]:
  "r = r' \<Longrightarrow> (\<And>x. r' = FDone x \<Longrightarrow> f x = g x) \<Longrightarrow> fbind r f = fbind r' g"
  by (cases r') simp_all

lemma fbind_assoc: "fbind (fbind r f) g = fbind r (\<lambda>x. fbind (f x) g)"
  by (cases r) simp_all

text \<open>The character at a position, with the ending zero.\<close>

definition src_at :: "string \<Rightarrow> nat \<Rightarrow> char" where
  "src_at src n = (if n < length src then src ! n else CHR 0x00)"

definition isfmtchr :: "char \<Rightarrow> bool" where
  "isfmtchr c \<longleftrightarrow> c \<in> {CHR ''-'', CHR ''+'', CHR '' '', CHR ''#'', CHR ''0''}"

definition MAX_FORMAT_LEN :: nat where "MAX_FORMAT_LEN = 20"
definition MAX_WFORMAT_LEN :: nat where "MAX_WFORMAT_LEN = 3"
definition ADDITIONAL_FORMAT_SPACE :: nat where "ADDITIONAL_FORMAT_SPACE = 100"

text \<open>The loops of \<open>validate_format\<close>: the flags, and the digits copied into \<open>swidth\<close>; None when there are too many.\<close>

definition skip_flags :: "string \<Rightarrow> nat \<Rightarrow> nat" where
  "skip_flags src n = n + length (takeWhile isfmtchr (drop n src))"

definition read_width :: "string \<Rightarrow> nat \<Rightarrow> (nat \<times> nat) option" where
  "read_width src n =
     (let swidth = takeWhile (\<lambda>c. isdigit (of_char c)) (drop n src) in
      if MAX_WFORMAT_LEN \<le> length swidth then None
      else Some (n + length swidth, fold (\<lambda>c r. r * 10 + (of_char c - 48)) swidth 0))"

text \<open>\<open>validate_format\<close>: the position of the conversion, the text of \<open>fmt\<close>, and the width.  The last character written
  is the zero at \<open>(n - start) + 2\<close>.\<close>

definition validate_format :: "string \<Rightarrow> nat \<Rightarrow> (nat \<times> string \<times> nat) fres" where
  "validate_format src start =
     (case read_width src (skip_flags src start) of
        None \<Rightarrow> FFail ''width format too long''
      | Some (n1, width) \<Rightarrow>
          (case (if src_at src n1 = CHR ''.'' then read_width src (n1 + 1) else Some (n1, 0)) of
             None \<Rightarrow> FFail ''precision format too long''
           | Some (n, prec) \<Rightarrow>
               if MAX_FORMAT_LEN < n - start then FFail ''format too long''
               else if MAX_FORMAT_LEN \<le> (n - start) + 2 then FmtOverflow
               else FDone (n, CHR ''%'' # map (src_at src) [start..<n + 1], width + prec)))"

text \<open>What the conversion of the C library gets.\<close>

datatype fmtarg = AStr string | AInt gsint | AFloat gsfloat

text \<open>One directive: the text of the argument and \<open>addlen\<close>.  An integer conversion gets the length modifier before its
  letter; that moves the ending zero two further.\<close>

definition int_fmt :: "string \<Rightarrow> string" where
  "int_fmt fmt = butlast fmt @ ''ll'' @ [last fmt]"

definition format_directive ::
    "(string \<Rightarrow> fmtarg \<Rightarrow> string) \<Rightarrow> (ptr \<Rightarrow> string) \<Rightarrow> string \<Rightarrow> nat \<Rightarrow> char \<Rightarrow> gsobj \<Rightarrow> (string \<times> nat) fres" where
  "format_directive conv chars fmt w c arg =
     (if c = CHR ''s'' then
        (case GS_getstring chars arg of
           Some s \<Rightarrow> FDone (conv fmt (AStr (cstr s)), length s + (w + 1))
         | None \<Rightarrow> FFail ''string expected for the specified format'')
      else if c \<in> set ''idouxX'' \<and> MAX_FORMAT_LEN \<le> length fmt + 2 then FmtOverflow
      else if c \<in> set ''idouxXc'' then
        (case GS_getinteger arg of
           Some i \<Rightarrow> FDone (conv (if c = CHR ''c'' then fmt else int_fmt fmt) (AInt i), ADDITIONAL_FORMAT_SPACE + (w + 1))
         | None \<Rightarrow> FFail ''integer expected for the specified format'')
      else if c \<in> set ''fgGeE'' then
        (case GS_getfloat arg of
           Some f \<Rightarrow> FDone (conv fmt (AFloat f), ADDITIONAL_FORMAT_SPACE + (w + 1))
         | None \<Rightarrow> FFail ''float expected for the specified format'')
      else FFail ''invalid format'')"

lemma skip_flags_ge: "n \<le> skip_flags src n"
  by (simp add: skip_flags_def)

lemma read_width_ge: "read_width src n = Some (n', w) \<Longrightarrow> n \<le> n'"
  by (auto simp: read_width_def Let_def split: if_splits)

lemma validate_format_ge: "validate_format src n = FDone (n', fmt, w) \<Longrightarrow> n \<le> n'"
  using skip_flags_ge[of n src]
  by (auto simp: validate_format_def split: option.splits prod.splits if_splits dest!: read_width_ge)

text \<open>The loop of \<open>gstd_format\<close>; \<open>i\<close> is the length of the output in \<open>mem\<close>, \<open>k\<close> the number of arguments used.\<close>

function format_loop ::
    "(string \<Rightarrow> fmtarg \<Rightarrow> string) \<Rightarrow> (ptr \<Rightarrow> string) \<Rightarrow> string \<Rightarrow> gsobj list \<Rightarrow> nat \<Rightarrow> scratchpad \<Rightarrow> nat \<Rightarrow> nat \<Rightarrow> nat \<Rightarrow> string fres" where
  "format_loop conv chars format args n mem i allocated k =
     (if n < length format then
        (if format ! n \<noteq> CHR ''%'' then
           (if i < allocated then format_loop conv chars format args (n + 1) (mem(i := format ! n)) (i + 1) allocated k
            else DestOverflow)
         else if src_at format (n + 1) = CHR ''%'' then
           (if i < allocated then format_loop conv chars format args (n + 2) (mem(i := CHR ''%'')) (i + 1) allocated k
            else DestOverflow)
         else if length args \<le> k then FFail ''not enough parameters for the given format string''
         else fbind (validate_format format (n + 1)) (\<lambda>(n1, fmt, w).
           fbind (format_directive conv chars fmt w (src_at format n1) (args ! k)) (\<lambda>(t, addlen).
             let allocated' = allocated + (addlen + 1) in
             if i + min (length t) (allocated' - 1) < allocated' then
               format_loop conv chars format args (n1 + 1) (scsprintf mem i allocated' t) (i + length t) allocated' (k + 1)
             else DestOverflow)))
      else if i < allocated then FDone (map mem [0..<i]) else DestOverflow)"
  by pat_completeness auto
termination
  by (relation "measure (\<lambda>(conv, chars, format, args, n, mem, i, allocated, k). length format - n)")
     (auto dest!: validate_format_ge)

declare format_loop.simps [simp del]

definition gstd_format ::
    "(string \<Rightarrow> fmtarg \<Rightarrow> string) \<Rightarrow> (ptr \<Rightarrow> string) \<Rightarrow> scratchpad \<Rightarrow> string \<Rightarrow> gsobj list \<Rightarrow> string fres" where
  "gstd_format conv chars mem format args = format_loop conv chars format args 0 mem 0 (length format + 2) 0"

text \<open>\<open>printf\<close> hands the text to the print function of the host as a C string.\<close>

definition string_printf ::
    "(string \<Rightarrow> fmtarg \<Rightarrow> string) \<Rightarrow> (ptr \<Rightarrow> string) \<Rightarrow> scratchpad \<Rightarrow> string \<Rightarrow> gsobj list \<Rightarrow> string fres" where
  "string_printf conv chars mem format args = fbind (gstd_format conv chars mem format args) (\<lambda>t. FDone (cstr t))"

text \<open>Formatting without memory.\<close>

function format_text ::
    "(string \<Rightarrow> fmtarg \<Rightarrow> string) \<Rightarrow> (ptr \<Rightarrow> string) \<Rightarrow> string \<Rightarrow> gsobj list \<Rightarrow> nat \<Rightarrow> nat \<Rightarrow> string fres" where
  "format_text conv chars format args n k =
     (if n < length format then
        (if format ! n \<noteq> CHR ''%'' then fbind (format_text conv chars format args (n + 1) k) (\<lambda>r. FDone (format ! n # r))
         else if src_at format (n + 1) = CHR ''%'' then
           fbind (format_text conv chars format args (n + 2) k) (\<lambda>r. FDone (CHR ''%'' # r))
         else if length args \<le> k then FFail ''not enough parameters for the given format string''
         else fbind (validate_format format (n + 1)) (\<lambda>(n1, fmt, w).
           fbind (format_directive conv chars fmt w (src_at format n1) (args ! k)) (\<lambda>(t, _).
             fbind (format_text conv chars format args (n1 + 1) (k + 1)) (\<lambda>r. FDone (t @ r)))))
      else FDone [])"
  by pat_completeness auto
termination
  by (relation "measure (\<lambda>(conv, chars, format, args, n, k). length format - n)") (auto dest!: validate_format_ge)

declare format_text.simps [simp del]

text \<open>The text of a directive: flags, width, precision, length modifier and letter, and the numbers it has.\<close>

definition is_digits :: "string \<Rightarrow> bool" where
  "is_digits ds \<longleftrightarrow> (\<forall>c \<in> set ds. isdigit (of_char c))"

definition decimal :: "string \<Rightarrow> nat" where
  "decimal ds = foldl (\<lambda>r c. 10 * r + (of_char c - 48)) 0 ds"

definition directive_text :: "string \<Rightarrow> string \<Rightarrow> string option \<Rightarrow> string \<Rightarrow> char \<Rightarrow> string" where
  "directive_text flags width prec len c =
     CHR ''%'' # flags @ width @ (case prec of None \<Rightarrow> [] | Some p \<Rightarrow> CHR ''.'' # p) @ len @ [c]"

definition room_for :: "string \<Rightarrow> string option \<Rightarrow> nat" where
  "room_for width prec = decimal width + (case prec of None \<Rightarrow> 0 | Some p \<Rightarrow> decimal p)"

text \<open>What is relied on of the C library: beyond the width and precision that the text of the directive
  has, a number takes at most 100 characters and a string its own length.  (32-bit floats have at most 39 digits
  before the point.)\<close>

definition conversions_bounded :: "(string \<Rightarrow> fmtarg \<Rightarrow> string) \<Rightarrow> bool" where
  "conversions_bounded conv \<longleftrightarrow>
     (\<forall>flags width prec len c.
        (\<forall>x \<in> set flags. isfmtchr x) \<and> is_digits width \<and> (case prec of None \<Rightarrow> True | Some p \<Rightarrow> is_digits p) \<and> len \<in> {[], ''ll''} \<longrightarrow>
        (\<forall>s. c = CHR ''s'' \<longrightarrow> length (conv (directive_text flags width prec len c) (AStr s)) \<le> room_for width prec + length s) \<and>
        (\<forall>i. c \<in> set ''idouxXc'' \<longrightarrow> length (conv (directive_text flags width prec len c) (AInt i)) \<le> room_for width prec + 100) \<and>
        (\<forall>f. c \<in> set ''fgGeE'' \<longrightarrow> length (conv (directive_text flags width prec len c) (AFloat f)) \<le> room_for width prec + 100))"

lemma length_cstr: "length (cstr s) \<le> length s"
  by (simp add: cstr_def length_takeWhile_le)

text \<open>The text that \<open>validate_format\<close> copies is that of a directive, and the width it answers is what its numbers come to.\<close>

lemma map_src_take:
  "map (src_at src) [n..<n + length (takeWhile P (drop n src))] = takeWhile P (drop n src)"
proof (rule nth_equalityI)
  fix i assume "i < length (map (src_at src) [n..<n + length (takeWhile P (drop n src))])"
  then have i: "i < length (takeWhile P (drop n src))" by simp
  then have "takeWhile P (drop n src) ! i = drop n src ! i" by (rule takeWhile_nth)
  moreover have "n + i < length src" using i length_takeWhile_le[of P "drop n src"] by simp
  ultimately show "map (src_at src) [n..<n + length (takeWhile P (drop n src))] ! i = takeWhile P (drop n src) ! i"
    using i by (simp add: src_at_def)
qed simp

lemma fold_decimal: "fold (\<lambda>c r. r * 10 + (of_char c - 48)) ds 0 = decimal ds"
  by (simp add: decimal_def foldl_conv_fold mult.commute)

lemma read_width_digits:
  assumes "read_width src n = Some (n', w)"
  obtains ds where "is_digits ds" "n' = n + length ds" "map (src_at src) [n..<n'] = ds" "w = decimal ds"
proof
  let ?ds = "takeWhile (\<lambda>c. isdigit (of_char c)) (drop n src)"
  have r: "n' = n + length ?ds" "w = decimal ?ds"
    using assms by (auto simp: read_width_def fold_decimal Let_def split: if_splits)
  show "is_digits ?ds" using set_takeWhileD[of _ "\<lambda>c. isdigit (of_char c)" "drop n src"] by (auto simp: is_digits_def)
  show "n' = n + length ?ds" "w = decimal ?ds" by (fact r)+
  show "map (src_at src) [n..<n'] = ?ds" unfolding r(1) by (rule map_src_take)
qed

lemma validate_text:
  assumes "validate_format src n = FDone (n', fmt, w)"
  obtains flags width prec where "\<forall>x \<in> set flags. isfmtchr x" "is_digits width"
    "case prec of None \<Rightarrow> True | Some p \<Rightarrow> is_digits p" "fmt = directive_text flags width prec [] (src_at src n')"
    "w = room_for width prec"
proof -
  let ?fl = "takeWhile isfmtchr (drop n src)" and ?n0 = "skip_flags src n"
  from assms obtain n1 w1 where r1: "read_width src ?n0 = Some (n1, w1)" by (auto simp: validate_format_def split: option.splits)
  from read_width_digits[OF r1] obtain ds where ds: "is_digits ds" "n1 = ?n0 + length ds" "map (src_at src) [?n0..<n1] = ds" "w1 = decimal ds" .
  have fl: "\<forall>x \<in> set ?fl. isfmtchr x" "map (src_at src) [n..<?n0] = ?fl" "n \<le> ?n0"
    using set_takeWhileD[of _ isfmtchr "drop n src"] map_src_take[of src n isfmtchr] by (auto simp: skip_flags_def)
  have upt: "[a..<c] = [a..<b] @ [b..<c]" if "a \<le> b" "b \<le> c" for a b c :: nat
    using that upt_add_eq_append[of a b "c - b"] by simp
  show ?thesis
  proof (cases "src_at src n1 = CHR ''.''")
    case True
    with assms r1 obtain w2 where r2: "read_width src (n1 + 1) = Some (n', w2)"
      and res: "fmt = CHR ''%'' # map (src_at src) [n..<n' + 1]" "w = w1 + w2"
      by (auto simp: validate_format_def split: option.splits if_splits)
    from read_width_digits[OF r2] obtain ps where ps: "is_digits ps" "n' = n1 + 1 + length ps"
      "map (src_at src) [n1 + 1..<n'] = ps" "w2 = decimal ps" .
    have "[n..<n' + 1] = [n..<?n0] @ [?n0..<n1] @ n1 # [n1 + 1..<n'] @ [n']"
    proof -
      have le: "n \<le> ?n0" "?n0 \<le> n1" "n1 + 1 \<le> n'" using fl(3) ds(2) ps(2) by simp_all
      have "[n..<n' + 1] = [n..<?n0] @ [?n0..<n' + 1]" by (rule upt) (use le in simp_all)
      moreover have "[?n0..<n' + 1] = [?n0..<n1] @ [n1..<n' + 1]" by (rule upt) (use le in simp_all)
      moreover have "n1 < n' + 1" using le by linarith
      note upt_conv_Cons[OF this, unfolded Suc_eq_plus1]
      moreover have "[n1 + 1..<n' + 1] = [n1 + 1..<n'] @ [n']" using le(3) by simp
      ultimately show ?thesis by (simp only: append.simps append_assoc)
    qed
    then have "fmt = directive_text ?fl ds (Some ps) [] (src_at src n')"
      unfolding res(1) by (simp add: directive_text_def fl(2) ds(3) ps(3)[simplified] True)
    then show ?thesis using that[of ?fl ds "Some ps"] fl(1) ds(1,4) ps(1,4) res(2) by (simp add: room_for_def)
  next
    case False
    with assms r1 have res: "n' = n1" "fmt = CHR ''%'' # map (src_at src) [n..<n1 + 1]" "w = w1"
      by (auto simp: validate_format_def split: if_splits)
    have "[n..<n1 + 1] = [n..<?n0] @ [?n0..<n1] @ [n1]"
      using upt[of n ?n0 "n1 + 1"] fl(3) ds(2) by simp
    then have "fmt = directive_text ?fl ds None [] (src_at src n')"
      unfolding res by (simp add: directive_text_def fl(2) ds(3))
    then show ?thesis using that[of ?fl ds None] fl(1) ds(1,4) res(3) by (simp add: room_for_def)
  qed
qed

lemma int_fmt_text: "int_fmt (directive_text flags width prec [] c) = directive_text flags width prec ''ll'' c"
  by (simp add: int_fmt_def directive_text_def butlast_append)

lemma directive_bounded:
  assumes cb: "conversions_bounded conv" and v: "validate_format src n = FDone (n', fmt, w)"
    and d: "format_directive conv chars fmt w (src_at src n') arg = FDone (t, addlen)"
  shows "length t < addlen"
proof -
  let ?c = "src_at src n'"
  from validate_text[OF v] obtain flags width prec where
    p: "\<forall>x \<in> set flags. isfmtchr x" "is_digits width" "case prec of None \<Rightarrow> True | Some p \<Rightarrow> is_digits p"
    and f: "fmt = directive_text flags width prec [] ?c" and w: "w = room_for width prec" .
  have b: "(\<forall>s. ?c = CHR ''s'' \<longrightarrow> length (conv (directive_text flags width prec len ?c) (AStr s)) \<le> w + length s) \<and>
        (\<forall>i. ?c \<in> set ''idouxXc'' \<longrightarrow> length (conv (directive_text flags width prec len ?c) (AInt i)) \<le> w + 100) \<and>
        (\<forall>f. ?c \<in> set ''fgGeE'' \<longrightarrow> length (conv (directive_text flags width prec len ?c) (AFloat f)) \<le> w + 100)"
    if "len \<in> {[], ''ll''}" for len
    using cb p that unfolding conversions_bounded_def w by blast
  from d consider
      (str) x where "?c = CHR ''s''" "t = conv fmt (AStr (cstr x))" "addlen = length x + (w + 1)"
    | (int) x where "?c \<in> set ''idouxXc''" "t = conv fmt (AInt x) \<or> t = conv (int_fmt fmt) (AInt x)" "addlen = 100 + (w + 1)"
    | (float) x where "?c \<in> set ''fgGeE''" "t = conv fmt (AFloat x)" "addlen = 100 + (w + 1)"
    unfolding format_directive_def ADDITIONAL_FORMAT_SPACE_def
    by (auto simp del: list.set split: if_splits option.splits)
  then show ?thesis
  proof cases
    case str
    then have "length t \<le> w + length (cstr x)" using b[of "[]"] by (simp add: f)
    with length_cstr[of x] str(3) show ?thesis by linarith
  next
    case int
    then have "length t \<le> w + 100" using b[of "[]"] b[of "''ll''"] unfolding f int_fmt_text by blast
    with int(3) show ?thesis by linarith
  next
    case float
    then have "length t \<le> w + 100" using b[of "[]"] by (simp add: f del: list.set)
    with float(3) show ?thesis by linarith
  qed
qed

lemma scsprintf_append:
  "length t < bound \<Longrightarrow> map (scsprintf mem d bound t) [0..<d + length t] = map mem [0..<d] @ t"
  by (intro nth_equalityI) (auto simp: scsprintf_whole nth_append)

lemma map_upd_append: "map (mem(i := c)) [0..<i + 1] = map mem [0..<i] @ [c]"
  by simp

lemma fbind_dest:
  "fbind r f = DestOverflow \<longleftrightarrow> r = DestOverflow \<or> (\<exists>x. r = FDone x \<and> f x = DestOverflow)"
  by (cases r) auto

lemma format_text_dest: "format_text conv chars format args n k \<noteq> DestOverflow"
proof (induction conv chars format args n k rule: format_text.induct)
  case (1 conv chars format args n k)
  have v: "validate_format format (n + 1) \<noteq> DestOverflow"
    by (auto simp: validate_format_def split: option.splits)
  have d: "format_directive conv chars f w c a \<noteq> DestOverflow" for f w c a
    by (auto simp: format_directive_def split: option.splits)
  have "format_text conv chars format args (n + 1) k \<noteq> DestOverflow" if "n < length format" "format ! n \<noteq> CHR ''%''"
    using 1(1) that by blast
  moreover have "format_text conv chars format args (n + 2) k \<noteq> DestOverflow"
    if "n < length format" "format ! n = CHR ''%''" "src_at format (n + 1) = CHR ''%''"
    using 1(2) that by blast
  moreover have "format_text conv chars format args (n1 + 1) (k + 1) \<noteq> DestOverflow"
    if "n < length format" "format ! n = CHR ''%''" "src_at format (n + 1) \<noteq> CHR ''%''" "\<not> length args \<le> k"
      "validate_format format (n + 1) = FDone (n1, f, w)"
      "format_directive conv chars f w (src_at format n1) (args ! k) = FDone (t, l)" for n1 f w t l
    using 1(3)[of "(n1, f, w)" n1 "(f, w)" f w "(t, l)" t l] that by simp
  ultimately show ?case
    using v d by (subst format_text.simps) (auto simp: fbind_dest)
qed

lemma format_loop_text:
  assumes "conversions_bounded conv"
  shows "i + (length format - n) + 2 \<le> allocated \<Longrightarrow>
    format_loop conv chars format args n mem i allocated k =
      fbind (format_text conv chars format args n k) (\<lambda>r. FDone (map mem [0..<i] @ r))"
  using assms
proof (induction conv chars format args n mem i allocated k rule: format_loop.induct)
  case (1 conv chars format args n mem i allocated k)
  have room: "i < allocated" using 1(4) by simp
  show ?case
  proof (cases "n < length format")
    case False
    then show ?thesis using room by (simp add: format_loop.simps[of _ _ _ _ n] format_text.simps[of _ _ _ _ n])
  next
    case n: True
    consider (plain) "format ! n \<noteq> CHR ''%''" | (percent) "format ! n = CHR ''%''" "src_at format (n + 1) = CHR ''%''"
      | (few) "format ! n = CHR ''%''" "src_at format (n + 1) \<noteq> CHR ''%''" "length args \<le> k"
      | (directive) "format ! n = CHR ''%''" "src_at format (n + 1) \<noteq> CHR ''%''" "\<not> length args \<le> k" by blast
    then show ?thesis
    proof cases
      case plain
      have "i + 1 + (length format - (n + 1)) + 2 \<le> allocated" using 1(4) n by simp
      note ih = 1(1)[OF n plain room this 1(5), unfolded map_upd_append]
      from plain n room show ?thesis
        by (subst format_loop.simps, subst format_text.simps) (simp only: if_True not_False_eq_True simp_thms ih, simp add: fbind_assoc)
    next
      case percent
      have "i + 1 + (length format - (n + 2)) + 2 \<le> allocated" using 1(4) n by simp
      note ih = 1(2)[OF n _ percent(2) room this 1(5), unfolded map_upd_append]
      from percent n room show ?thesis
        by (subst format_loop.simps, subst format_text.simps) (simp only: if_True if_False not_True_eq_False simp_thms ih, simp add: fbind_assoc)
    next
      case few
      with n show ?thesis by (subst format_loop.simps, subst format_text.simps) simp
    next
      case directive
      have "fbind (format_directive conv chars fmt w (src_at format n1) (args ! k)) (\<lambda>(t, addlen).
             let allocated' = allocated + (addlen + 1) in
             if i + min (length t) (allocated' - 1) < allocated' then
               format_loop conv chars format args (n1 + 1) (scsprintf mem i allocated' t) (i + length t) allocated' (k + 1)
             else DestOverflow) =
          fbind (format_directive conv chars fmt w (src_at format n1) (args ! k)) (\<lambda>(t, _).
             fbind (format_text conv chars format args (n1 + 1) (k + 1)) (\<lambda>r. FDone (map mem [0..<i] @ t @ r)))"
        if v: "validate_format format (n + 1) = FDone (n1, fmt, w)" for n1 fmt w
      proof (cases "format_directive conv chars fmt w (src_at format n1) (args ! k)")
        case (FDone r)
        obtain t addlen where r: "r = (t, addlen)" by (cases r)
        with FDone have d: "format_directive conv chars fmt w (src_at format n1) (args ! k) = FDone (t, addlen)" by simp
        from directive_bounded[OF 1(5) v d] have t: "length t < addlen" .
        have ge: "n + 1 \<le> n1" using validate_format_ge[OF v] .
        have fits: "i + min (length t) (allocated + (addlen + 1) - 1) < allocated + (addlen + 1)" using 1(4) t by simp
        have inv: "i + length t + (length format - (n1 + 1)) + 2 \<le> allocated + (addlen + 1)" using 1(4) t ge n by linarith
        have "length t < allocated + (addlen + 1)" using t by simp
        note app = scsprintf_append[OF this, of mem i]
        have "\<not> format ! n \<noteq> CHR ''%''" using directive(1) by simp
        note ih = 1(3)[OF n this directive(2,3) v refl refl d refl refl fits inv 1(5), unfolded app]
        show ?thesis using fits by (simp only: d fbind_simps prod.case Let_def if_True ih append_assoc)
      qed simp_all
      then have step: "fbind (validate_format format (n + 1)) (\<lambda>(n1, fmt, w).
           fbind (format_directive conv chars fmt w (src_at format n1) (args ! k)) (\<lambda>(t, addlen).
             let allocated' = allocated + (addlen + 1) in
             if i + min (length t) (allocated' - 1) < allocated' then
               format_loop conv chars format args (n1 + 1) (scsprintf mem i allocated' t) (i + length t) allocated' (k + 1)
             else DestOverflow)) =
         fbind (validate_format format (n + 1)) (\<lambda>(n1, fmt, w).
           fbind (format_directive conv chars fmt w (src_at format n1) (args ! k)) (\<lambda>(t, _).
             fbind (format_text conv chars format args (n1 + 1) (k + 1)) (\<lambda>r. FDone (map mem [0..<i] @ t @ r))))"
        by (intro fbind_cong refl) auto
      show ?thesis
        using n directive
        by (subst format_loop.simps, subst format_text.simps)
           (simp only: if_True if_False not_False_eq_True simp_thms step[unfolded case_prod_unfold] fbind_assoc case_prod_unfold fbind_simps append_assoc)
    qed
  qed
qed

text \<open>
  C23: \<open>format\<close> computes the text it describes and never writes behind what it asked of the scratch pad: for a C library
  whose conversions take no more than the width and precision written in the directive and the argument call for, the
  spaces reserved for the directives are enough, so that the routine on memory agrees with the one on texts,
  errors included.  (The array for the text of one directive is another matter, see
  \<open>format_directive_leaves_fmt\<close>.)
\<close>

theorem format_stays_in_scratch_pad:
  assumes "conversions_bounded conv"
  shows "gstd_format conv chars mem format args = format_text conv chars format args 0 0 \<and>
         gstd_format conv chars mem format args \<noteq> DestOverflow"
proof -
  have "gstd_format conv chars mem format args = fbind (format_text conv chars format args 0 0) FDone"
    using format_loop_text[OF assms, of 0 format 0 "length format + 2"] by (simp add: gstd_format_def)
  also have "\<dots> = format_text conv chars format args 0 0" by (simp add: fbind_def split: fres.split)
  finally show ?thesis using format_text_dest by simp
qed

text \<open>A C library for the witnesses: numbers print as one digit.\<close>

definition short_conv :: "string \<Rightarrow> fmtarg \<Rightarrow> string" where
  "short_conv fmt a = (case a of AStr s \<Rightarrow> s | AInt i \<Rightarrow> [char_of (48 + unat i mod 10)] | AFloat f \<Rightarrow> ''1.5'')"

lemma short_conv_bounded: "conversions_bounded short_conv"
  by (auto simp: conversions_bounded_def short_conv_def)

lemma format_stays_in_scratch_pad_witness:
  "gstd_format short_conv (\<lambda>_. ''abc'') (\<lambda>_. CHR ''?'') ''<%5s|%d%%>'' [OString 8, OInteger 7] = FDone ''<abc|7%>''"
proof -
  have "gstd_format short_conv (\<lambda>_. ''abc'') (\<lambda>_. CHR ''?'') ''<%5s|%d%%>'' [OString 8, OInteger 7] =
      format_text short_conv (\<lambda>_. ''abc'') ''<%5s|%d%%>'' [OString 8, OInteger 7] 0 0"
    using format_stays_in_scratch_pad[OF short_conv_bounded] by blast
  also have "\<dots> = FDone ''<abc|7%>''"
    by code_simp
  finally show ?thesis .
qed

text \<open>
  The array for the text of a directive is too short for the longest one that is let through: with 18, 19 or 20 flags
  before its letter the zero at its end is written behind the array.
\<close>

theorem format_directive_leaves_fmt:
  assumes "18 \<le> k" "k \<le> 20" and "\<not> isfmtchr c" "\<not> isdigit (of_char c)" "c \<noteq> CHR ''.''"
  shows "gstd_format conv chars mem (CHR ''%'' # replicate k CHR ''#'' @ [c]) (arg # args) = FmtOverflow"
proof -
  let ?f = "CHR ''%'' # replicate k CHR ''#'' @ [c]"
  have tw: "takeWhile isfmtchr (replicate k CHR ''#'' @ [c]) = replicate k CHR ''#''"
    using assms(3) by (subst takeWhile_append2) (auto simp: isfmtchr_def)
  then have "skip_flags ?f 1 = k + 1" by (simp add: skip_flags_def)
  moreover have "drop (k + 1) ?f = [c]" by simp
  ultimately have "validate_format ?f 1 = FmtOverflow"
    using assms by (auto simp: validate_format_def read_width_def MAX_WFORMAT_LEN_def MAX_FORMAT_LEN_def src_at_def nth_append Let_def)
  moreover have "src_at ?f 1 = CHR ''#''" using assms(1) by (simp add: src_at_def nth_append)
  ultimately show ?thesis
    unfolding gstd_format_def by (subst format_loop.simps) simp
qed

lemma format_directive_leaves_fmt_witness:
  "gstd_format short_conv (\<lambda>_. []) (\<lambda>_. CHR ''?'') (CHR ''%'' # replicate 18 CHR ''#'' @ ''x'') [OInteger 255] = FmtOverflow"
  by (rule format_directive_leaves_fmt) (simp_all add: isfmtchr_def isdigit_def)

section \<open>The scratch pad\<close>

text \<open>\<open>GetScratchPad\<close>: the size of the block after a request; the content is kept as far as it fits.\<close>

definition GetScratchPad :: "int \<Rightarrow> int \<Rightarrow> int" where
  "GetScratchPad scratchpadsize size' =
     (if 0 < size' then
        (if scratchpadsize < size' then max (size' + size' div 2) size'
         else if size' \<le> scratchpadsize div 32 then max (scratchpadsize div 2) size'
         else scratchpadsize)
      else scratchpadsize)"

lemma GetScratchPad_enough: "size' \<le> GetScratchPad n size' \<or> size' \<le> 0"
  unfolding GetScratchPad_def by (cases "0 < size'"; cases "n < size'"; cases "size' \<le> n div 32") simp_all

section \<open>Regular expression objects\<close>

text \<open>The methods of a regular expression: \<open>nodes\<close> is the compiled expression, the state its captures, positions in the
  text that was searched.  The start that is passed is not checked.\<close>

definition regexp_match :: "nat \<Rightarrow> rexnode list \<Rightarrow> string \<Rightarrow> bool rmatch" where
  "regexp_match fuel nodes s = rex_match fuel nodes (map gschar (cstr s))"

definition regexp_search :: "nat \<Rightarrow> rexnode list \<Rightarrow> string \<Rightarrow> int \<Rightarrow> (int \<times> int) option rmatch" where
  "regexp_search fuel nodes s start =
     (if start < 0 \<or> int (length s) < start then rundef
      else rbind (rex_search fuel nodes (map gschar (cstr (drop (nat start) s)))) (\<lambda>r.
        rreturn (case r of Some (b, e) \<Rightarrow> Some (int b + start, int e + start) | None \<Rightarrow> None)))"

text \<open>\<open>_regexp_capture\<close>: a group of length 0 is reported as the empty range at the beginning of the string.\<close>

definition regexp_capture :: "nat \<Rightarrow> rexnode list \<Rightarrow> string \<Rightarrow> int \<Rightarrow> (int \<times> int) list option rmatch" where
  "regexp_capture fuel nodes s start =
     rbind (regexp_search fuel nodes s start) (\<lambda>r.
       case r of
         None \<Rightarrow> rreturn None
       | Some _ \<Rightarrow> rbind (rget rmatches) (\<lambda>ms.
           rreturn (Some (map (\<lambda>m. case mbegin m of
               Some b \<Rightarrow> if 0 < mlen m then (int b + start, int b + start + mlen m) else (0, 0)
             | None \<Rightarrow> (0, 0)) ms))))"

definition regexp_subexpcount :: "rexp \<Rightarrow> int" where
  "regexp_subexpcount c = rsubexpr c"

text \<open>The constructor: an object that has its expression already is refused.\<close>

definition regexp_constructor :: "nat \<Rightarrow> rexp option \<Rightarrow> string \<Rightarrow> rexp outcome" where
  "regexp_constructor fuel self pattern =
     (if self \<noteq> None then Fail (ErrStr ''invalid regexp object'')
      else case rex_compile fuel (map gschar (cstr pattern)) of
             ROk _ c \<Rightarrow> Done c
           | RError e \<Rightarrow> Fail (ErrStr e)
           | _ \<Rightarrow> Trap)"

text \<open>The captures are not reset between searches: after \<open>(a)|(b)\<close> has found its second group in one text, a search in
  another one that finds the first reports both, the second with its place in the earlier text.\<close>

definition a_or_b :: "(rexp) option" where
  "a_or_b = (case rex_compile 16 (map gschar ''(a)|(b)'') of ROk _ c \<Rightarrow> Some c | _ \<Rightarrow> None)"

lemma capture_keeps_old_match:
  "(case a_or_b of None \<Rightarrow> False | Some c \<Rightarrow>
     (case regexp_capture 5 (rnodes c) ''xb'' 0 (no_matches (rsubexpr c)) of
        ROk r s \<Rightarrow> r = Some [(1, 2), (0, 0), (1, 2)] \<and>
          (case regexp_capture 5 (rnodes c) ''a'' 0 s of
             ROk r' s' \<Rightarrow> r' = Some [(0, 1), (0, 1), (1, 2)] | _ \<Rightarrow> False)
      | _ \<Rightarrow> False))"
  by code_simp

section \<open>String methods of the base library\<close>

definition string_slice :: "string \<Rightarrow> gsobj list \<Rightarrow> string outcome" where
  "string_slice s args =
     (case get_slice_params args (length s) of (s0, e0) \<Rightarrow>
        (case slice_bounds (int (length s)) s0 e0 of
           Done (sidx, eidx) \<Rightarrow> Done (pushstring (drop sidx s) (int eidx - int sidx))
         | Fail x \<Rightarrow> Fail x
         | Trap \<Rightarrow> Trap))"

text \<open>\<open>strstr\<close> of the C library.\<close>

fun scstrstr :: "string \<Rightarrow> string \<Rightarrow> nat option" where
  "scstrstr [] t = (if t = [] then Some 0 else None)"
| "scstrstr (c # s) t = (if take (length t) (c # s) = t then Some 0 else map_option Suc (scstrstr s t))"

definition string_find :: "string \<Rightarrow> string \<Rightarrow> gsobj option \<Rightarrow> int option" where
  "string_find s sub idx =
     (let start_idx = (case idx of Some o' \<Rightarrow> (case GS_getinteger o' of Some i \<Rightarrow> sint i | None \<Rightarrow> 0) | None \<Rightarrow> 0) in
      if start_idx < int (length s) \<and> 0 \<le> start_idx then
        (case scstrstr (cstr (drop (nat start_idx) s)) (cstr sub) of
           Some r \<Rightarrow> Some (int r + start_idx) | None \<Rightarrow> None)
      else None)"

text \<open>\<open>tolower\<close> and \<open>toupper\<close> of the C locale, on a part of the string.\<close>

definition sctolower :: "char \<Rightarrow> char" where
  "sctolower c = (if c_upper (gschar c) then char_of ((of_char c :: nat) + 32) else c)"

definition sctoupper :: "char \<Rightarrow> char" where
  "sctoupper c = (if c_lower (gschar c) then char_of ((of_char c :: nat) - 32) else c)"

definition string_tofunc :: "(char \<Rightarrow> char) \<Rightarrow> string \<Rightarrow> gsobj list \<Rightarrow> string outcome" where
  "string_tofunc func s args =
     (case get_slice_params args (length s) of (s0, e0) \<Rightarrow>
        (case slice_bounds (int (length s)) s0 e0 of
           Done (sidx, eidx) \<Rightarrow> Done (fold (\<lambda>i snew. snew[i := func (s ! i)]) [sidx..<eidx] s)
         | Fail x \<Rightarrow> Fail x
         | Trap \<Rightarrow> Trap))"

definition string_tolower :: "string \<Rightarrow> gsobj list \<Rightarrow> string outcome" where
  "string_tolower = string_tofunc sctolower"

definition string_toupper :: "string \<Rightarrow> gsobj list \<Rightarrow> string outcome" where
  "string_toupper = string_tofunc sctoupper"

lemma scstrstr_first:
  "scstrstr s t = Some i \<Longrightarrow> i \<le> length s \<and> take (length t) (drop i s) = t \<and> (\<forall>j < i. take (length t) (drop j s) \<noteq> t)"
proof (induction s arbitrary: i)
  case (Cons c s)
  show ?case
  proof (cases "take (length t) (c # s) = t")
    case False
    with Cons.prems obtain k where k: "i = Suc k" "scstrstr s t = Some k" by (auto split: if_splits)
    with Cons.IH[of k] False show ?thesis by (auto simp: less_Suc_eq_0_disj)
  qed (use Cons.prems in \<open>auto split: if_splits\<close>)
qed (auto split: if_splits)

lemma scstrstr_none: "scstrstr s t = None \<Longrightarrow> j \<le> length s \<Longrightarrow> take (length t) (drop j s) \<noteq> t"
proof (induction s arbitrary: j)
  case (Cons c s)
  then show ?case by (cases j) (auto split: if_splits)
qed (auto split: if_splits)

lemma string_find_first:
  assumes "no_nul s" "no_nul sub" "string_find s sub idx = Some i"
  shows "0 \<le> i \<and> nat i \<le> length s \<and> take (length sub) (drop (nat i) s) = sub"
proof -
  have c: "cstr t = t" if "no_nul t" for t
    using that by (simp add: cstr_def no_nul_def takeWhile_eq_all_conv) metis
  define k where "k = (case idx of Some o' \<Rightarrow> (case GS_getinteger o' of Some i \<Rightarrow> sint i | None \<Rightarrow> 0) | None \<Rightarrow> 0)"
  have "no_nul (drop (nat k) s)" using assms(1) by (auto simp: no_nul_def dest: in_set_dropD)
  with assms c obtain r where r: "k < int (length s)" "0 \<le> k" "scstrstr (drop (nat k) s) sub = Some r" "i = int r + k"
    by (auto simp: string_find_def k_def[symmetric] Let_def split: if_splits option.splits)
  have "nat i = r + nat k" using r by simp
  moreover have "nat k \<le> length s" using r(1,2) by linarith
  ultimately show ?thesis using scstrstr_first[OF r(3)] r by (auto simp: add.commute)
qed

lemma fold_update_from:
  "n \<le> length xs \<Longrightarrow> fold (\<lambda>i ys. ys[i := f (s ! i)]) [m..<n] xs ! j =
     (if m \<le> j \<and> j < n then f (s ! j) else xs ! j) \<and>
   length (fold (\<lambda>i ys. ys[i := f (s ! i)]) [m..<n] xs) = length xs"
proof (induction n)
  case (Suc n)
  then show ?case by (cases "m \<le> n") (auto simp: nth_list_update)
qed simp

lemma string_tofunc_spec:
  assumes "string_tofunc func s args = Done t" "get_slice_params args (length s) = (s0, e0)"
    "slice_bounds (int (length s)) s0 e0 = Done (a, b)"
  shows "length t = length s \<and> (\<forall>j < length s. t ! j = (if a \<le> j \<and> j < b then func (s ! j) else s ! j))"
proof -
  have "b \<le> length s" using assms(3) by (auto simp: slice_bounds_def Let_def split: if_splits)
  from fold_update_from[OF this, of func s a] assms show ?thesis by (auto simp: string_tofunc_def)
qed

lemma string_slice_spec:
  assumes "get_slice_params args (length s) = (s0, e0)" "slice_bounds (int (length s)) s0 e0 = Done (a, b)"
  shows "string_slice s args = Done (take (b - a) (drop a s)) \<and> a \<le> b \<and> b \<le> length s"
proof -
  have b: "a \<le> b" "b \<le> length s" using assms(2) by (auto simp: slice_bounds_def Let_def split: if_splits)
  have "\<not> int b - int a < 0" "nat (int b - int a) = b - a" using b(1) by linarith+
  with assms b show ?thesis by (simp add: string_slice_def pushstring_def)
qed


end
