(* ===== verification/Spec2Isabelle.thy ===== *)
theory Spec2Isabelle
  imports GS_Array GS_Sort GS_Vector GS_Lexer GS_FuncState GS_Exec GS_String GS_VMOps GS_TableInv
    GS_Class GS_Access GS_Frame GS_Call GS_Blob GS_Serial GS_CompilerCode GS_RexMatch GS_Collector
    GS_RefTable GS_StringLib
begin

text \<open>
  GameScript is an embeddable scripting language with a compiler to register code and a virtual
  machine (src/GameScript), a standard library (src/gstdlib) and a console (src/GS).  This development
  models the language runtime in its 64-bit release build: GSInteger and GSHash have 64 bits, GSFloat is a
  32-bit IEEE float, GSChar a signed char, the garbage collector is compiled in, the debug hook is not
  installed.

  \<^bold>\<open>How the parts interact.\<close>  The lexer hands tokens to the compiler; the compiler emits
  instructions into a function state, which keeps literals, registers, scopes and captured variables and
  rewrites the last instructions as it goes; the finished prototype is run by \<open>GSVM::Execute\<close>, which works
  on the registers of a frame, calls closures through frames on one value stack, and reaches every other object
  through slot access.  Tables are used everywhere: for script tables, the members of classes, the default
  delegates, the literals of the compiler and the keywords of the lexer.

  \<^bold>\<open>Theories.\<close>

  \<^item> GS_Prelude: machine types, results, shared lemmas on lists, words and truncating division.  GS_Float:
    executable binary32 arithmetic and rounding for GSFloat.

  \<^item> GS_Object (GSobject.h, GSobject.cpp, GameScript.h): tags and values, \<open>gsobj\<close> with one constructor per tag;
    truth, raw equality, type masks, delegation links and weak references.

  \<^item> GS_Dict: the interface of a dictionary as a locale.  GS_Table (GStable.h, GStable.cpp): the hash table as the
    code has it, a node list with chains and a free pointer.  GS_TableInv: its invariant and the proof that
    the table is a dictionary, by interpretation of the locale.

  \<^item> GS_String (GSstring.h, GSstate.cpp): hashing and interning; the locale \<open>interner\<close> is interpreted for
    \<open>Add\<close> and for \<open>Concat\<close>.  GS_Vector (GSutils.h): the growable array.

  \<^item> GS_VMOps (GSvm.cpp): arithmetic, bitwise and comparison operators, conversion to string, declared types.
    GS_Array (GSarray.h, GSapi.cpp, GSbaselib.cpp): arrays and their library.  GS_Sort (GSbaselib.cpp):
    \<open>array.sort\<close>; the locale \<open>consistent_comparison\<close> states what a comparison must satisfy and is interpreted for
    the machine's own order on integers.

  \<^item> GS_Lexer (GSlexer.cpp, GSlexer.h, GScompiler.h): all of the lexer.

  \<^item> GS_Exec (GSopcodes.h, GSvm.cpp): instructions and the part of \<open>Execute\<close> that works inside one frame.
    GS_FuncState (GSfuncstate.cpp, GSfuncstate.h, GSfuncproto.h): the state of a function under compilation.

  \<^item> GS_Class (GSclass.h, GSclass.cpp, GSclosure.h): classes, instances, inheritance, locking.  GS_Access
    (GSvm.cpp, GSdebug.cpp): \<open>Get\<close>, \<open>Set\<close>, \<open>NewSlot\<close>, \<open>DeleteSlot\<close>, \<open>Clone\<close>, iteration, namespaces and imports.

  \<^item> GS_Frame (GSvm.cpp, GSvm.h, GSobject.cpp, GSclosure.h): the value stack, call frames, captured variables,
    generators.  GS_Call (GSvm.cpp): parameter binding, script and native calls, tail calls, closures,
    exception traps and unwinding, yields.

  \<^item> GS_Blob (gstdblobimpl.h, gstdblob.cpp, gstdstream.cpp): blobs, the stream operations, number formats; the
    locale \<open>byte_stream\<close> states what a stream promises and is interpreted for blobs.  GS_Serial (GSobject.cpp,
    GSfuncproto.h): saving and loading of closures, proved for every \<open>byte_stream\<close>.

  \<^item> GS_Compiler (GScompiler.cpp): every function of the recursive descent, over the lexer and the function states;
    GS_CompilerRuns: a calculus of outcomes and costs for it, and its termination.  GS_CompilerCode: the
    code for arithmetic, from the tokens to the registers of the interpreter.

  \<^item> GS_Collector (GSstate.cpp, GSobject.cpp): the chains of collectable objects, marking, and the resurrection of
    unreachable objects.  GS_RefTable (GSstate.cpp, GSapi.cpp): the references the host holds, which the collector
    takes as roots; the locale \<open>reference_counter\<close> states what a counter of references promises.

  \<^item> GS_Rex (gstdrex.cpp): the regular expressions of the standard library, parser and matcher; GS_RexParse and
    GS_RexMatch: what the parser leaves and what the matcher answers.  GS_StringLib (gstdstring.cpp, GSbaselib.cpp):
    the string library, formatting and escaping on the memory of the scratch pad included.

  \<^bold>\<open>Conventions.\<close>  An outer option is None where the code has no defined behaviour (an index outside of an
  array, a dangling pointer) or a walk over pointers does not end; the errors of the language are values: a left
  summand, \<open>Fail\<close>, or a flag with the text in \<open>flasterror\<close> or \<open>hlasterror\<close>.  Pointers are words; what they
  point to is in maps or lists of the component that owns the objects.  Calls back into script code, and what the C
  library computes (number formats, \<open>strtod\<close>, \<open>snprintf\<close>, files), are arguments of the definitions that use them.

  \<^bold>\<open>Fuel.\<close>  The chain walks of the table get the number of nodes as fuel and the recursion between insertion and
  rehash depth 3; the invariant implies that both suffice, and the properties state that the operations return.
  \<open>Get\<close> and \<open>Set\<close> of GS_Access recurse over delegates, which scripts can make of any length: they take fuel,
  and the properties give the fuel that the length of the chain needs and hold for every larger one.  Walks over
  base classes are partial functions; that they return is proved from the invariant of the class heap.  The fuel of
  the parser is the nesting depth of its calls: 80 times the length of the source and 40 more always suffice, and any
  larger depth gives the same outcome.  For regular expressions \<open>2 * length pat + 5\<close> nested calls compile a pattern and
  \<open>(n + 1)^2\<close> match an expression of \<open>n\<close> nodes.

  \<^bold>\<open>What the lemmas show.\<close>

  \<^item> Data structures: the table refines a finite map under any sequence of operations and iteration meets every
    entry once; the vector refines a list; interned strings are equal exactly when they are the same object;
    a checked array remembers its declaration and keeps to it through appends, slices have exactly the valid bounds; sorting
    permutes under any comparison and sorts under the machine's own.

  \<^item> Compiler: every call of the lexer ends and makes progress, literals and words lex to what they quote; the
    peephole optimiser preserves what the code does and spares local variables; literals, registers and captures are consistent; compilation
    ends for every source, and the code of arithmetic expressions, run by the interpreter, computes them.

  \<^item> Objects: delegation chains stay finite; slots follow them; classes map names to members as specified, no
    operation leaves the arrays of classes and instances, and instances freeze the fields of their classes.

  \<^item> Calls: \<open>vm_ok\<close> says that the frames tile the stack and the open captured variables are sorted and inside it;
    calls and returns restore the caller, captured variables outlive and share their registers, errors reach the
    innermost handler or leave the run of the interpreter, generators go on where they yielded.

  \<^item> Streams: a blob is a file in memory under any sequence of reads, writes and seeks; numbers survive it; a saved
    closure is loaded as the same prototype and every truncation of it is refused.

  \<^item> Collector: marking reaches exactly what the roots reach, whatever the cycles; every unreachable object is
    reported, and the chain, the marks and the reference counts are as they were.
    The host's references are a multiset under any sequence of calls, and the roots are its elements.

  \<^item> Strings: formatting stays inside of the memory it asks for; what \<open>escape\<close> makes of ASCII text is a literal for
    it, and the pieces of \<open>split\<close> make up the string; stripping, searching and slicing are as specified.

  \<^item> Regular expressions: compiling ends and leaves a tree of nodes (out of bounds only for the empty pattern and
    patterns that end in a backslash or \<open>\m\<close>); searching with it ends, stays inside of the text (but for word
    boundaries), and reports only ranges that the nodes stand for, in a reading of its own (\<open>rx_node\<close>).

  \<^item> Deviations: some properties state what the code does where that is not what it means to do (the less-than
    operator after a name, escaping outside of ASCII); further lemmas do for the guard of integer division, the
    merge of a conditional jump, a variable captured in a \<open>try\<close> block, discarded generators, nested namespaces, captures
    of regular expressions and a second declaration of an array.

  \<^bold>\<open>Not modelled.\<close>  Reference counts and the destruction of objects (outside of GS_Collector objects
  live as long as they are reachable); the stack shuffling of the embedding interface; threads and
  their suspension; the debugger; the files and the system functions of the
  standard library; the console.  User pointers, type tags and release hooks of classes and instances are left out.
\<close>

end
